(* ===== verification/Pb_Prelude.thy ===== *)
theory Pb_Prelude
  imports Main "HOL-Library.Word" "HOL-Library.Monad_Syntax"
begin

unbundle bit_operations_syntax

text \<open>
  Shared ground of the development: names for the machine types the C sources use on the
  LP64 targets of the application, the theorem collections, little-endian byte strings,
  and the lemmas on words, lists and options that the component proofs rest on.

  Throughout, a C function that may run into undefined behaviour (an access outside the
  object it points into) is a function into \<open>option\<close>: \<open>None\<close> says that the call has no
  defined result. Every safety theorem therefore has the form "the result is \<open>Some\<close>".
\<close>

section \<open>Machine types\<close>

type_synonym byte = "8 word"
type_synonym u16 = "16 word"
type_synonym u32 = "32 word"
type_synonym u64 = "64 word"
type_synonym size_t = "64 word"
type_synonym addr = int

section \<open>Theorem collections\<close>

named_theorems pb_const \<open>values of the constants that the C headers define\<close>
named_theorems pb_stream \<open>behaviour of the stream operations on well-formed streams\<close>

section \<open>Options\<close>

lemma bind_Some_iff: "Option.bind x f = Some y \<longleftrightarrow> (\<exists>z. x = Some z \<and> f z = Some y)"
  by (cases x) auto

lemma bind_cong_strong [fundef_cong]:
  "x = y \<Longrightarrow> (\<And>z. y = Some z \<Longrightarrow> f z = g z) \<Longrightarrow> Option.bind x f = Option.bind y g"
  by (cases y) auto

section \<open>Words\<close>

lemma unat_of_nat_small: "n < 2 ^ LENGTH('a) \<Longrightarrow> unat (of_nat n :: 'a::len word) = n"
  by (simp add: unat_of_nat take_bit_nat_eq_self)

lemma unat_lt: "unat (w :: 'a::len word) < 2 ^ LENGTH('a)"
  by (rule unsigned_less)

lemma unat_add_small:
  "unat (a :: 'a::len word) + unat b < 2 ^ LENGTH('a) \<Longrightarrow> unat (a + b) = unat a + unat b"
  by (simp add: unat_word_ariths)

lemma word_sub_le_unat: "b \<le> a \<Longrightarrow> unat (a - b :: 'a::len word) = unat a - unat b"
  by (simp add: unat_sub)

lemma unat_ucast_u32 [simp]: "unat (ucast (n :: u32) :: size_t) = unat n"
  using unat_lt [of n] by (simp add: unsigned_ucast_eq take_bit_nat_eq_self)

lemma take_bit_small: "unat w < 2 ^ n \<Longrightarrow> take_bit n w = (w :: 'a::len word)"
  by (simp add: word_unat_eq_iff unsigned_take_bit_eq take_bit_nat_eq_self)

lemma bit_small: "unat (w :: 'a::len word) < 2 ^ n \<Longrightarrow> bit w i \<Longrightarrow> i < n"
  using take_bit_small [of w n] bit_take_bit_iff [of n w i] by auto

lemma and_0x7F: "w AND 0x7F = take_bit 7 (w :: 'a::len word)"
  by (simp add: take_bit_eq_mask mask_eq_exp_minus_1)

lemma ucast_and_0xFF: "ucast (w AND 0xFF) = (ucast (w :: 'a::len word) :: byte)"
proof -
  have "w AND 0xFF = take_bit 8 w" by (simp add: take_bit_eq_mask mask_eq_exp_minus_1)
  then show ?thesis by (auto simp: bit_simps intro: bit_word_eqI dest: bit_imp_le_length)
qed

lemma bit_0x80: "bit (0x80 :: byte) n \<longleftrightarrow> n = 7"
  using bit_exp_iff [of 7 n, where 'a = "8 word"] by (auto simp: possible_bit_word)

lemma and_0x80: "b AND 0x80 = 0 \<longleftrightarrow> \<not> bit (b :: byte) 7"
proof -
  have "b AND 0x80 = 0 \<longleftrightarrow> (\<forall>n. \<not> (bit b n \<and> n = 7))"
    unfolding bit_0x80 [symmetric] by (auto simp: bit_eq_iff bit_and_iff)
  then show ?thesis by auto
qed

lemma byte_eqI:
  assumes "bit a 0 = bit b 0" "bit a 1 = bit b 1" "bit a 2 = bit b 2" "bit a 3 = bit b 3"
    "bit a 4 = bit b 4" "bit a 5 = bit b 5" "bit a 6 = bit b 6" "bit a 7 = bit (b :: byte) 7"
  shows "a = b"
proof (rule bit_word_eqI)
  fix n assume "n < LENGTH(8)"
  then have "n \<in> {0, 1, 2, 3, 4, 5, 6, 7}" by auto
  with assms show "bit a n = bit b n" by auto
qed

lemma scast_byte: "unat (b :: byte) < 128 \<Longrightarrow> (scast b :: 'a::len word) = ucast b"
proof (rule bit_word_eqI)
  fix n assume b: "unat b < 128" and "n < LENGTH('a)"
  have "\<not> bit b m" if "7 \<le> m" for m using that b bit_small [of b 7 m] by auto
  then show "bit (scast b :: 'a word) n = bit (ucast b :: 'a word) n"
    using \<open>n < LENGTH('a)\<close> by (cases "n < 7") (auto simp: bit_simps min_def)
qed

section \<open>Little-endian byte strings\<close>

primrec le_bytes :: "nat \<Rightarrow> 'a::len word \<Rightarrow> byte list" where
  "le_bytes 0 w = []"
| "le_bytes (Suc n) w = ucast w # le_bytes n (drop_bit 8 w)"

primrec le_word :: "byte list \<Rightarrow> 'a::len word" where
  "le_word [] = 0"
| "le_word (b # bs) = ucast b OR push_bit 8 (le_word bs)"

lemma length_le_bytes [simp]: "length (le_bytes n w) = n"
  by (induction n arbitrary: w) auto

lemma le_word_le_bytes_take: "le_word (le_bytes n w) = take_bit (8 * n) (w :: 'a::len word)"
proof (induction n arbitrary: w)
  case (Suc n)
  show ?case
    by (rule bit_word_eqI) (auto simp: Suc bit_simps simp flip: not_le)
qed simp

lemma le_word_le_bytes [simp]:
  "LENGTH('a) \<le> 8 * n \<Longrightarrow> le_word (le_bytes n w) = (w :: 'a::len word)"
  by (simp add: le_word_le_bytes_take take_bit_word_eq_self)

lemma bit_le_word_ge: "8 * length bs \<le> n \<Longrightarrow> \<not> bit (le_word bs :: 'a::len word) n"
  by (induction bs arbitrary: n) (auto simp: bit_simps dest: bit_imp_le_length)

lemma le_bytes_le_word [simp]:
  "8 * length bs \<le> LENGTH('a) \<Longrightarrow> le_bytes (length bs) (le_word bs :: 'a::len word) = bs"
proof (induction bs)
  case (Cons b bs)
  have hd: "ucast (ucast b OR push_bit 8 (le_word bs) :: 'a word) = b"
    using Cons.prems by (intro bit_word_eqI) (auto simp: bit_simps)
  have low: "8 + n < LENGTH('a)" if "bit (le_word bs :: 'a word) n" for n
    using that Cons.prems bit_le_word_ge [of bs n, where 'a = 'a] by (cases "8 * length bs \<le> n") auto
  have tl: "drop_bit 8 (ucast b OR push_bit 8 (le_word bs) :: 'a word) = le_word bs"
    by (intro bit_word_eqI) (auto simp: bit_simps dest: bit_imp_le_length low)
  show ?case
    using Cons hd tl by simp
qed simp

lemma le_bytes_inject:
  "LENGTH('a) \<le> 8 * n \<Longrightarrow> le_bytes n v = le_bytes n (w :: 'a::len word) \<Longrightarrow> v = w"
  by (metis le_word_le_bytes)

section \<open>Lists\<close>

definition overwrite :: "'a list \<Rightarrow> nat \<Rightarrow> 'a list \<Rightarrow> 'a list" where
  "overwrite xs i ys = take i xs @ ys @ drop (i + length ys) xs"

lemma length_overwrite [simp]: "i + length ys \<le> length xs \<Longrightarrow> length (overwrite xs i ys) = length xs"
  by (simp add: overwrite_def)

lemma take_overwrite [simp]:
  "i + length ys \<le> length xs \<Longrightarrow> take (i + length ys) (overwrite xs i ys) = take i xs @ ys"
  by (simp add: overwrite_def)

lemma drop_overwrite:
  "i + length ys \<le> length xs \<Longrightarrow> i + length ys \<le> k \<Longrightarrow> drop k (overwrite xs i ys) = drop k xs"
  by (simp add: overwrite_def)

lemma overwrite_Nil [simp]: "overwrite xs i [] = xs"
  by (simp add: overwrite_def)

lemma overwrite_overwrite:
  "i + length ys + length zs \<le> length xs \<Longrightarrow>
   overwrite (overwrite xs i ys) (i + length ys) zs = overwrite xs i (ys @ zs)"
  by (simp add: overwrite_def ac_simps)

end
