(* ===== verification/Pb_Layout.thy ===== *)
theory Pb_Layout
  imports Pb_Prelude
begin

text \<open>
  C structure layout on an LP64 target: \<open>sizeof\<close>, \<open>_Alignof\<close> and \<open>offsetof\<close> for the
  structure declarations of the sources. A member is designated by the path of names that
  leads to it (\<open>u.m\<close> inside a union). The descriptor macros of \<open>pb.h\<close> are written in
  terms of these operations, and so are the structures the library itself declares.
\<close>

section \<open>C object types\<close>

datatype ctype =
    CScalar nat            \<comment> \<open>integer, enumeration or bool: size and alignment\<close>
  | CPtr ctype             \<comment> \<open>pointer to\<close>
  | CFun                   \<comment> \<open>function (only behind a pointer)\<close>
  | CArray ctype nat
  | CStruct members
  | CUnion members
and members = End | Member string ctype members

abbreviation c_bool :: ctype where "c_bool \<equiv> CScalar 1"
abbreviation c_int32 :: ctype where "c_int32 \<equiv> CScalar 4"
abbreviation c_int64 :: ctype where "c_int64 \<equiv> CScalar 8"

definition align_up :: "nat \<Rightarrow> nat \<Rightarrow> nat" where
  "align_up n a = (n + a - 1) div a * a"

primrec c_align :: "ctype \<Rightarrow> nat" and m_align :: "members \<Rightarrow> nat" where
  "c_align (CScalar n) = n"
| "c_align (CPtr t) = 8"
| "c_align CFun = 1"
| "c_align (CArray t n) = c_align t"
| "c_align (CStruct ms) = m_align ms"
| "c_align (CUnion ms) = m_align ms"
| "m_align End = 1"
| "m_align (Member x t ms) = max (c_align t) (m_align ms)"

text \<open>\<open>m_end\<close>: the end of the members placed from offset \<open>k\<close> on, one after the other in
  a structure, on top of each other in a union (\<open>u\<close>).\<close>

primrec c_size :: "ctype \<Rightarrow> nat" and m_end :: "members \<Rightarrow> bool \<Rightarrow> nat \<Rightarrow> nat" where
  "c_size (CScalar n) = n"
| "c_size (CPtr t) = 8"
| "c_size CFun = 1"
| "c_size (CArray t n) = n * c_size t"
| "c_size (CStruct ms) = align_up (m_end ms False 0) (m_align ms)"
| "c_size (CUnion ms) = align_up (m_end ms True 0) (m_align ms)"
| "m_end End u k = k"
| "m_end (Member x t ms) u k =
     m_end ms u (if u then max k (c_size t) else align_up k (c_align t) + c_size t)"

text \<open>Offset and type of a named member; \<open>u\<close> says that the members overlap. A member
  without a name is an anonymous union or structure: its members are found in it.\<close>

primrec c_member :: "ctype \<Rightarrow> string \<Rightarrow> (nat \<times> ctype) option"
  and m_find :: "members \<Rightarrow> bool \<Rightarrow> nat \<Rightarrow> string \<Rightarrow> (nat \<times> ctype) option" where
  "c_member (CScalar n) x = None"
| "c_member (CPtr t) x = None"
| "c_member CFun x = None"
| "c_member (CArray t n) x = None"
| "c_member (CStruct ms) x = m_find ms False 0 x"
| "c_member (CUnion ms) x = m_find ms True 0 x"
| "m_find End u k x = None"
| "m_find (Member y t ms) u k x =
     (let o1 = align_up k (c_align t) in
      if x = y then Some (o1, t)
      else case (if y = [] then c_member t x else None) of
        Some (k', t') \<Rightarrow> Some (o1 + k', t')
      | None \<Rightarrow> m_find ms u (if u then k else o1 + c_size t) x)"

primrec c_path :: "string list \<Rightarrow> nat \<Rightarrow> ctype \<Rightarrow> (nat \<times> ctype) option" where
  "c_path [] k t = Some (k, t)"
| "c_path (x # xs) k t = do { (k', t') \<leftarrow> c_member t x; c_path xs (k + k') t' }"

definition offsetof :: "ctype \<Rightarrow> string list \<Rightarrow> nat" where
  "offsetof st m = (case c_path m 0 st of Some (k, _) \<Rightarrow> k | None \<Rightarrow> 0)"

definition typeof :: "ctype \<Rightarrow> string list \<Rightarrow> ctype" where
  "typeof st m = (case c_path m 0 st of Some (_, t) \<Rightarrow> t | None \<Rightarrow> CStruct End)"

text \<open>\<open>sizeof m[0]\<close>: the element of an array, the target of a pointer.\<close>

definition c_elem :: "ctype \<Rightarrow> ctype" where
  "c_elem t = (case t of CArray t' _ \<Rightarrow> t' | CPtr t' \<Rightarrow> t' | _ \<Rightarrow> t)"

lemma align_up_ge: "0 < a \<Longrightarrow> n \<le> align_up n a"
proof -
  assume a: "0 < a"
  have "n + a - 1 = (n + a - 1) div a * a + (n + a - 1) mod a"
    by simp
  moreover have "(n + a - 1) mod a < a"
    using a by simp
  ultimately show ?thesis
    unfolding align_up_def by linarith
qed

lemma align_up_dvd: "a dvd align_up n a"
  by (simp add: align_up_def)

lemma align_up_least: "n \<le> k \<Longrightarrow> a dvd k \<Longrightarrow> 0 < a \<Longrightarrow> align_up n a \<le> k"
proof -
  assume n: "n \<le> k" and "a dvd k" and a: "0 < a"
  then obtain q where k: "k = a * q" by auto
  have "n + a - 1 < a * (q + 1)"
    using n a by (simp add: k)
  then have "(n + a - 1) div a < q + 1"
    by (simp add: div_less_iff_less_mult a mult.commute)
  then show ?thesis
    by (simp add: align_up_def k mult.commute)
qed

end
