(* ===== verification/Pb_Types.thy ===== *)
theory Pb_Types
  imports Pb_Layout
begin

text \<open>
  The declarations of \<open>pb.h\<close>, \<open>pb_common.h\<close>, \<open>pb_decode.h\<close> and \<open>pb_encode.h\<close>, in
  the configuration of the application's build (\<open>PB_FIELD_32BIT\<close>,
  \<open>PB_ENABLE_MALLOC\<close>, \<open>PB_NO_PACKED_STRUCTS\<close>, error messages on, 64-bit integers):
  field types, field descriptors and the macros that fill them in, the structures the
  library shares with its caller, streams and the error macros.
\<close>

section \<open>Field types\<close>

type_synonym pb_type_t = byte
type_synonym pb_byte_t = byte
type_synonym pb_size_t = u32
type_synonym pb_ssize_t = u32   \<comment> \<open>\<open>int32_t\<close>: read with \<open>sint\<close>\<close>

definition PB_MAX_REQUIRED_FIELDS :: nat where [pb_const]: "PB_MAX_REQUIRED_FIELDS = 64"

definition PB_LTYPE_BOOL :: pb_type_t where [pb_const]: "PB_LTYPE_BOOL = 0x00"
definition PB_LTYPE_VARINT :: pb_type_t where [pb_const]: "PB_LTYPE_VARINT = 0x01"
definition PB_LTYPE_UVARINT :: pb_type_t where [pb_const]: "PB_LTYPE_UVARINT = 0x02"
definition PB_LTYPE_SVARINT :: pb_type_t where [pb_const]: "PB_LTYPE_SVARINT = 0x03"
definition PB_LTYPE_FIXED32 :: pb_type_t where [pb_const]: "PB_LTYPE_FIXED32 = 0x04"
definition PB_LTYPE_FIXED64 :: pb_type_t where [pb_const]: "PB_LTYPE_FIXED64 = 0x05"
definition PB_LTYPE_LAST_PACKABLE :: pb_type_t where [pb_const]: "PB_LTYPE_LAST_PACKABLE = 0x05"
definition PB_LTYPE_BYTES :: pb_type_t where [pb_const]: "PB_LTYPE_BYTES = 0x06"
definition PB_LTYPE_STRING :: pb_type_t where [pb_const]: "PB_LTYPE_STRING = 0x07"
definition PB_LTYPE_SUBMESSAGE :: pb_type_t where [pb_const]: "PB_LTYPE_SUBMESSAGE = 0x08"
definition PB_LTYPE_EXTENSION :: pb_type_t where [pb_const]: "PB_LTYPE_EXTENSION = 0x09"
definition PB_LTYPE_FIXED_LENGTH_BYTES :: pb_type_t where
  [pb_const]: "PB_LTYPE_FIXED_LENGTH_BYTES = 0x0A"
definition PB_LTYPES_COUNT :: nat where [pb_const]: "PB_LTYPES_COUNT = 0x0B"
definition PB_LTYPE_MASK :: pb_type_t where [pb_const]: "PB_LTYPE_MASK = 0x0F"

definition PB_HTYPE_REQUIRED :: pb_type_t where [pb_const]: "PB_HTYPE_REQUIRED = 0x00"
definition PB_HTYPE_OPTIONAL :: pb_type_t where [pb_const]: "PB_HTYPE_OPTIONAL = 0x10"
definition PB_HTYPE_REPEATED :: pb_type_t where [pb_const]: "PB_HTYPE_REPEATED = 0x20"
definition PB_HTYPE_ONEOF :: pb_type_t where [pb_const]: "PB_HTYPE_ONEOF = 0x30"
definition PB_HTYPE_MASK :: pb_type_t where [pb_const]: "PB_HTYPE_MASK = 0x30"

definition PB_ATYPE_STATIC :: pb_type_t where [pb_const]: "PB_ATYPE_STATIC = 0x00"
definition PB_ATYPE_POINTER :: pb_type_t where [pb_const]: "PB_ATYPE_POINTER = 0x80"
definition PB_ATYPE_CALLBACK :: pb_type_t where [pb_const]: "PB_ATYPE_CALLBACK = 0x40"
definition PB_ATYPE_MASK :: pb_type_t where [pb_const]: "PB_ATYPE_MASK = 0xC0"

definition PB_ATYPE :: "pb_type_t \<Rightarrow> pb_type_t" where "PB_ATYPE x = x AND PB_ATYPE_MASK"
definition PB_HTYPE :: "pb_type_t \<Rightarrow> pb_type_t" where "PB_HTYPE x = x AND PB_HTYPE_MASK"
definition PB_LTYPE :: "pb_type_t \<Rightarrow> pb_type_t" where "PB_LTYPE x = x AND PB_LTYPE_MASK"

lemma PB_HTYPE_cases:
  obtains "PB_HTYPE x = PB_HTYPE_REQUIRED" | "PB_HTYPE x = PB_HTYPE_OPTIONAL"
  | "PB_HTYPE x = PB_HTYPE_REPEATED" | "PB_HTYPE x = PB_HTYPE_ONEOF"
proof -
  have "PB_HTYPE x = (if bit x 4 then 0x10 else 0) OR (if bit x 5 then 0x20 else 0)"
    unfolding PB_HTYPE_def PB_HTYPE_MASK_def by (rule byte_eqI) (simp_all add: bit_simps)
  then show thesis using that by (simp add: pb_const split: if_splits)
qed

definition PB_SIZE_MAX :: pb_size_t where "PB_SIZE_MAX = -1"

section \<open>Field descriptors\<close>

record pb_field_t =
  f_tag :: pb_size_t
  f_type :: pb_type_t
  f_data_offset :: pb_size_t
  f_size_offset :: pb_ssize_t
  f_data_size :: pb_size_t
  f_array_size :: pb_size_t
  f_ptr :: addr

definition PB_LAST_FIELD :: pb_field_t where
  "PB_LAST_FIELD = \<lparr>f_tag = 0, f_type = 0, f_data_offset = 0, f_size_offset = 0,
     f_data_size = 0, f_array_size = 0, f_ptr = 0\<rparr>"

section \<open>Structures shared with the caller\<close>

definition pb_bytes_array_s :: ctype where
  "pb_bytes_array_s = CStruct (Member ''size'' c_int32 (Member ''bytes'' (CArray (CScalar 1) 1) End))"

definition PB_BYTES_ARRAY_T_ALLOCSIZE :: "size_t \<Rightarrow> size_t" where
  "PB_BYTES_ARRAY_T_ALLOCSIZE n = n + of_nat (offsetof pb_bytes_array_s [''bytes''])"

definition pb_callback_s :: ctype where
  "pb_callback_s = CStruct (Member ''funcs'' (CUnion (Member ''decode'' (CPtr CFun)
     (Member ''encode'' (CPtr CFun) End))) (Member ''arg'' (CPtr CFun) End))"

type_synonym pb_wire_type_t = u32
definition PB_WT_VARINT :: pb_wire_type_t where [pb_const]: "PB_WT_VARINT = 0"
definition PB_WT_64BIT :: pb_wire_type_t where [pb_const]: "PB_WT_64BIT = 1"
definition PB_WT_STRING :: pb_wire_type_t where [pb_const]: "PB_WT_STRING = 2"
definition PB_WT_32BIT :: pb_wire_type_t where [pb_const]: "PB_WT_32BIT = 5"

definition pb_extension_type_s :: ctype where
  "pb_extension_type_s = CStruct (Member ''decode'' (CPtr CFun)
     (Member ''encode'' (CPtr CFun) (Member ''arg'' (CPtr CFun) End)))"

definition pb_extension_s :: ctype where
  "pb_extension_s = CStruct (Member ''type'' (CPtr pb_extension_type_s) (Member ''dest'' (CPtr CFun)
     (Member ''next'' (CPtr CFun) (Member ''found'' c_bool End))))"

lemma struct_layout [simp]:
  "offsetof pb_bytes_array_s [''size''] = 0" "offsetof pb_bytes_array_s [''bytes''] = 4"
  "c_size pb_bytes_array_s = 8"
  "offsetof pb_callback_s [''funcs'', ''decode''] = 0" "offsetof pb_callback_s [''funcs'', ''encode''] = 0"
  "offsetof pb_callback_s [''arg''] = 8" "c_size pb_callback_s = 16"
  "offsetof pb_extension_type_s [''decode''] = 0" "offsetof pb_extension_type_s [''encode''] = 8"
  "offsetof pb_extension_type_s [''arg''] = 16" "c_size pb_extension_type_s = 24"
  "offsetof pb_extension_s [''type''] = 0" "offsetof pb_extension_s [''dest''] = 8"
  "offsetof pb_extension_s [''next''] = 16" "offsetof pb_extension_s [''found''] = 24"
  "c_size pb_extension_s = 32"
  by (simp_all add: pb_bytes_array_s_def pb_callback_s_def pb_extension_type_s_def
      pb_extension_s_def offsetof_def align_up_def)

section \<open>The descriptor macros\<close>

definition pb_membersize :: "ctype \<Rightarrow> string list \<Rightarrow> nat" where
  "pb_membersize st m = c_size (typeof st m)"

text \<open>\<open>pb_membersize(st, m[0])\<close>\<close>

definition pb_elemsize :: "ctype \<Rightarrow> string list \<Rightarrow> nat" where
  "pb_elemsize st m = c_size (c_elem (typeof st m))"

definition pb_arraysize :: "ctype \<Rightarrow> string list \<Rightarrow> nat" where
  "pb_arraysize st m = pb_membersize st m div pb_elemsize st m"

definition pb_delta :: "ctype \<Rightarrow> string list \<Rightarrow> string list \<Rightarrow> int" where
  "pb_delta st m1 m2 = int (offsetof st m1) - int (offsetof st m2)"

datatype pb_placement = FIRST | OTHER | UNION | CHOOSE
datatype pb_rules = REQUIRED | OPTIONAL | SINGULAR | REPEATED | OPTEXT
datatype pb_allocation = STATIC | POINTER | CALLBACK

definition PB_DATAOFFSET_FIRST :: "ctype \<Rightarrow> string list \<Rightarrow> string list \<Rightarrow> pb_size_t" where
  "PB_DATAOFFSET_FIRST st m1 m2 = of_nat (offsetof st m1)"

definition PB_DATAOFFSET_OTHER :: "ctype \<Rightarrow> string list \<Rightarrow> string list \<Rightarrow> pb_size_t" where
  "PB_DATAOFFSET_OTHER st m1 m2 =
     of_int (int (offsetof st m1) - int (offsetof st m2) - int (pb_membersize st m2))"

definition PB_DATAOFFSET_UNION :: "ctype \<Rightarrow> string list \<Rightarrow> string list \<Rightarrow> pb_size_t" where
  "PB_DATAOFFSET_UNION st m1 m2 = PB_SIZE_MAX"

definition PB_DATAOFFSET_CHOOSE :: "ctype \<Rightarrow> string list \<Rightarrow> string list \<Rightarrow> pb_size_t" where
  "PB_DATAOFFSET_CHOOSE st m1 m2 = (if offsetof st m1 = offsetof st m2
     then PB_DATAOFFSET_FIRST st m1 m2 else PB_DATAOFFSET_OTHER st m1 m2)"

text \<open>\<open>PB_DATAOFFSET_ ## placement\<close>\<close>

definition PB_DATAOFFSET :: "pb_placement \<Rightarrow> ctype \<Rightarrow> string list \<Rightarrow> string list \<Rightarrow> pb_size_t" where
  "PB_DATAOFFSET p = (case p of FIRST \<Rightarrow> PB_DATAOFFSET_FIRST | OTHER \<Rightarrow> PB_DATAOFFSET_OTHER
     | UNION \<Rightarrow> PB_DATAOFFSET_UNION | CHOOSE \<Rightarrow> PB_DATAOFFSET_CHOOSE)"

lemmas PB_DATAOFFSET_defs = PB_DATAOFFSET_def PB_DATAOFFSET_FIRST_def PB_DATAOFFSET_OTHER_def
  PB_DATAOFFSET_UNION_def PB_DATAOFFSET_CHOOSE_def

definition pb_descriptor :: "pb_size_t \<Rightarrow> pb_type_t \<Rightarrow> pb_size_t \<Rightarrow> int \<Rightarrow> nat \<Rightarrow> nat \<Rightarrow> addr \<Rightarrow> pb_field_t" where
  "pb_descriptor tag type fd delta sz count p = \<lparr>f_tag = tag, f_type = type, f_data_offset = fd,
     f_size_offset = word_of_int delta, f_data_size = of_nat sz, f_array_size = of_nat count, f_ptr = p\<rparr>"

definition PB_REQUIRED_STATIC :: "pb_size_t \<Rightarrow> ctype \<Rightarrow> string \<Rightarrow> pb_size_t \<Rightarrow> pb_type_t \<Rightarrow> addr \<Rightarrow> pb_field_t" where
  "PB_REQUIRED_STATIC tag st m fd ltype p =
     pb_descriptor tag (PB_ATYPE_STATIC OR PB_HTYPE_REQUIRED OR ltype) fd 0 (pb_membersize st [m]) 0 p"

definition PB_OPTIONAL_STATIC :: "pb_size_t \<Rightarrow> ctype \<Rightarrow> string \<Rightarrow> pb_size_t \<Rightarrow> pb_type_t \<Rightarrow> addr \<Rightarrow> pb_field_t" where
  "PB_OPTIONAL_STATIC tag st m fd ltype p =
     pb_descriptor tag (PB_ATYPE_STATIC OR PB_HTYPE_OPTIONAL OR ltype) fd
       (pb_delta st [''has_'' @ m] [m]) (pb_membersize st [m]) 0 p"

definition PB_SINGULAR_STATIC :: "pb_size_t \<Rightarrow> ctype \<Rightarrow> string \<Rightarrow> pb_size_t \<Rightarrow> pb_type_t \<Rightarrow> addr \<Rightarrow> pb_field_t" where
  "PB_SINGULAR_STATIC tag st m fd ltype p =
     pb_descriptor tag (PB_ATYPE_STATIC OR PB_HTYPE_OPTIONAL OR ltype) fd 0 (pb_membersize st [m]) 0 p"

definition PB_REPEATED_STATIC :: "pb_size_t \<Rightarrow> ctype \<Rightarrow> string \<Rightarrow> pb_size_t \<Rightarrow> pb_type_t \<Rightarrow> addr \<Rightarrow> pb_field_t" where
  "PB_REPEATED_STATIC tag st m fd ltype p =
     pb_descriptor tag (PB_ATYPE_STATIC OR PB_HTYPE_REPEATED OR ltype) fd
       (pb_delta st [m @ ''_count''] [m]) (pb_elemsize st [m]) (pb_arraysize st [m]) p"

definition PB_REQUIRED_POINTER :: "pb_size_t \<Rightarrow> ctype \<Rightarrow> string \<Rightarrow> pb_size_t \<Rightarrow> pb_type_t \<Rightarrow> addr \<Rightarrow> pb_field_t" where
  "PB_REQUIRED_POINTER tag st m fd ltype p =
     pb_descriptor tag (PB_ATYPE_POINTER OR PB_HTYPE_REQUIRED OR ltype) fd 0 (pb_elemsize st [m]) 0 p"

definition PB_OPTIONAL_POINTER :: "pb_size_t \<Rightarrow> ctype \<Rightarrow> string \<Rightarrow> pb_size_t \<Rightarrow> pb_type_t \<Rightarrow> addr \<Rightarrow> pb_field_t" where
  "PB_OPTIONAL_POINTER tag st m fd ltype p =
     pb_descriptor tag (PB_ATYPE_POINTER OR PB_HTYPE_OPTIONAL OR ltype) fd 0 (pb_elemsize st [m]) 0 p"

definition PB_SINGULAR_POINTER :: "pb_size_t \<Rightarrow> ctype \<Rightarrow> string \<Rightarrow> pb_size_t \<Rightarrow> pb_type_t \<Rightarrow> addr \<Rightarrow> pb_field_t" where
  "PB_SINGULAR_POINTER tag st m fd ltype p =
     pb_descriptor tag (PB_ATYPE_POINTER OR PB_HTYPE_OPTIONAL OR ltype) fd 0 (pb_elemsize st [m]) 0 p"

definition PB_REPEATED_POINTER :: "pb_size_t \<Rightarrow> ctype \<Rightarrow> string \<Rightarrow> pb_size_t \<Rightarrow> pb_type_t \<Rightarrow> addr \<Rightarrow> pb_field_t" where
  "PB_REPEATED_POINTER tag st m fd ltype p =
     pb_descriptor tag (PB_ATYPE_POINTER OR PB_HTYPE_REPEATED OR ltype) fd
       (pb_delta st [m @ ''_count''] [m]) (pb_elemsize st [m]) 0 p"

text \<open>The callback macros differ in the repetition rule only.\<close>

definition PB_CALLBACK :: "pb_type_t \<Rightarrow> pb_size_t \<Rightarrow> ctype \<Rightarrow> string \<Rightarrow> pb_size_t \<Rightarrow> pb_type_t \<Rightarrow> addr \<Rightarrow> pb_field_t" where
  "PB_CALLBACK htype tag st m fd ltype p =
     pb_descriptor tag (PB_ATYPE_CALLBACK OR htype OR ltype) fd 0 (pb_membersize st [m]) 0 p"

definition PB_OPTEXT_STATIC :: "pb_size_t \<Rightarrow> ctype \<Rightarrow> string \<Rightarrow> pb_size_t \<Rightarrow> pb_type_t \<Rightarrow> addr \<Rightarrow> pb_field_t" where
  "PB_OPTEXT_STATIC tag st m fd ltype p =
     pb_descriptor tag (PB_ATYPE_STATIC OR PB_HTYPE_REQUIRED OR ltype) 0 0 (pb_membersize st [m]) 0 p"

datatype pb_proto_type = BOOL | BYTES | DOUBLE | ENUM | UENUM | FIXED32 | FIXED64 | FLOAT | INT32
  | INT64 | MESSAGE | SFIXED32 | SFIXED64 | SINT32 | SINT64 | STRING | UINT32 | UINT64
  | EXTENSION | FIXED_LENGTH_BYTES

fun PB_LTYPE_MAP :: "pb_proto_type \<Rightarrow> pb_type_t" where
  "PB_LTYPE_MAP BOOL = PB_LTYPE_BOOL"
| "PB_LTYPE_MAP BYTES = PB_LTYPE_BYTES"
| "PB_LTYPE_MAP DOUBLE = PB_LTYPE_FIXED64"
| "PB_LTYPE_MAP ENUM = PB_LTYPE_VARINT"
| "PB_LTYPE_MAP UENUM = PB_LTYPE_UVARINT"
| "PB_LTYPE_MAP FIXED32 = PB_LTYPE_FIXED32"
| "PB_LTYPE_MAP FIXED64 = PB_LTYPE_FIXED64"
| "PB_LTYPE_MAP FLOAT = PB_LTYPE_FIXED32"
| "PB_LTYPE_MAP INT32 = PB_LTYPE_VARINT"
| "PB_LTYPE_MAP INT64 = PB_LTYPE_VARINT"
| "PB_LTYPE_MAP MESSAGE = PB_LTYPE_SUBMESSAGE"
| "PB_LTYPE_MAP SFIXED32 = PB_LTYPE_FIXED32"
| "PB_LTYPE_MAP SFIXED64 = PB_LTYPE_FIXED64"
| "PB_LTYPE_MAP SINT32 = PB_LTYPE_SVARINT"
| "PB_LTYPE_MAP SINT64 = PB_LTYPE_SVARINT"
| "PB_LTYPE_MAP STRING = PB_LTYPE_STRING"
| "PB_LTYPE_MAP UINT32 = PB_LTYPE_UVARINT"
| "PB_LTYPE_MAP UINT64 = PB_LTYPE_UVARINT"
| "PB_LTYPE_MAP EXTENSION = PB_LTYPE_EXTENSION"
| "PB_LTYPE_MAP FIXED_LENGTH_BYTES = PB_LTYPE_FIXED_LENGTH_BYTES"

fun PB_RULES_ALLOCATION :: "pb_rules \<Rightarrow> pb_allocation \<Rightarrow>
    pb_size_t \<Rightarrow> ctype \<Rightarrow> string \<Rightarrow> pb_size_t \<Rightarrow> pb_type_t \<Rightarrow> addr \<Rightarrow> pb_field_t" where
  "PB_RULES_ALLOCATION REQUIRED STATIC = PB_REQUIRED_STATIC"
| "PB_RULES_ALLOCATION OPTIONAL STATIC = PB_OPTIONAL_STATIC"
| "PB_RULES_ALLOCATION SINGULAR STATIC = PB_SINGULAR_STATIC"
| "PB_RULES_ALLOCATION REPEATED STATIC = PB_REPEATED_STATIC"
| "PB_RULES_ALLOCATION OPTEXT STATIC = PB_OPTEXT_STATIC"
| "PB_RULES_ALLOCATION REQUIRED POINTER = PB_REQUIRED_POINTER"
| "PB_RULES_ALLOCATION OPTIONAL POINTER = PB_OPTIONAL_POINTER"
| "PB_RULES_ALLOCATION SINGULAR POINTER = PB_SINGULAR_POINTER"
| "PB_RULES_ALLOCATION REPEATED POINTER = PB_REPEATED_POINTER"
| "PB_RULES_ALLOCATION OPTEXT POINTER = PB_OPTIONAL_POINTER"
| "PB_RULES_ALLOCATION REQUIRED CALLBACK = PB_CALLBACK PB_HTYPE_REQUIRED"
| "PB_RULES_ALLOCATION OPTIONAL CALLBACK = PB_CALLBACK PB_HTYPE_OPTIONAL"
| "PB_RULES_ALLOCATION SINGULAR CALLBACK = PB_CALLBACK PB_HTYPE_OPTIONAL"
| "PB_RULES_ALLOCATION REPEATED CALLBACK = PB_CALLBACK PB_HTYPE_REPEATED"
| "PB_RULES_ALLOCATION OPTEXT CALLBACK = PB_CALLBACK PB_HTYPE_OPTIONAL"

definition PB_FIELD :: "pb_size_t \<Rightarrow> pb_proto_type \<Rightarrow> pb_rules \<Rightarrow> pb_allocation \<Rightarrow> pb_placement \<Rightarrow>
    ctype \<Rightarrow> string \<Rightarrow> string \<Rightarrow> addr \<Rightarrow> pb_field_t" where
  "PB_FIELD tag type rules allocation placement message field prevfield p =
     PB_RULES_ALLOCATION rules allocation tag message field
       (PB_DATAOFFSET placement message [field] [prevfield]) (PB_LTYPE_MAP type) p"

definition PB_REPEATED_FIXED_COUNT :: "pb_size_t \<Rightarrow> pb_proto_type \<Rightarrow> pb_placement \<Rightarrow>
    ctype \<Rightarrow> string \<Rightarrow> string \<Rightarrow> addr \<Rightarrow> pb_field_t" where
  "PB_REPEATED_FIXED_COUNT tag type placement message field prevfield p =
     pb_descriptor tag (PB_ATYPE_STATIC OR PB_HTYPE_REPEATED OR PB_LTYPE_MAP type)
       (PB_DATAOFFSET placement message [field] [prevfield]) 0
       (pb_elemsize message [field]) (pb_arraysize message [field]) p"

definition PB_ONEOF_STATIC :: "string \<Rightarrow> pb_size_t \<Rightarrow> ctype \<Rightarrow> string \<Rightarrow> pb_size_t \<Rightarrow> pb_type_t \<Rightarrow> addr \<Rightarrow> pb_field_t" where
  "PB_ONEOF_STATIC u tag st m fd ltype p =
     pb_descriptor tag (PB_ATYPE_STATIC OR PB_HTYPE_ONEOF OR ltype) fd
       (pb_delta st [''which_'' @ u] [u, m]) (pb_membersize st [u, m]) 0 p"

definition PB_ONEOF_POINTER :: "string \<Rightarrow> pb_size_t \<Rightarrow> ctype \<Rightarrow> string \<Rightarrow> pb_size_t \<Rightarrow> pb_type_t \<Rightarrow> addr \<Rightarrow> pb_field_t" where
  "PB_ONEOF_POINTER u tag st m fd ltype p =
     pb_descriptor tag (PB_ATYPE_POINTER OR PB_HTYPE_ONEOF OR ltype) fd
       (pb_delta st [''which_'' @ u] [u, m]) (pb_elemsize st [u, m]) 0 p"

text \<open>There is no oneof macro for callbacks: the preprocessor rejects it.\<close>

definition PB_ONEOF_FIELD :: "string \<Rightarrow> pb_size_t \<Rightarrow> pb_proto_type \<Rightarrow> pb_allocation \<Rightarrow> pb_placement \<Rightarrow>
    ctype \<Rightarrow> string \<Rightarrow> string list \<Rightarrow> addr \<Rightarrow> pb_field_t option" where
  "PB_ONEOF_FIELD u tag type allocation placement message field prevfield p =
     (let fd = PB_DATAOFFSET placement message [u, field] prevfield; lt = PB_LTYPE_MAP type in
      case allocation of
        STATIC \<Rightarrow> Some (PB_ONEOF_STATIC u tag message field fd lt p)
      | POINTER \<Rightarrow> Some (PB_ONEOF_POINTER u tag message field fd lt p)
      | CALLBACK \<Rightarrow> None)"

text \<open>The members of an anonymous union are members of the structure itself.\<close>

definition PB_ANONYMOUS_ONEOF_STATIC :: "string \<Rightarrow> pb_size_t \<Rightarrow> ctype \<Rightarrow> string \<Rightarrow> pb_size_t \<Rightarrow> pb_type_t \<Rightarrow> addr \<Rightarrow> pb_field_t" where
  "PB_ANONYMOUS_ONEOF_STATIC u tag st m fd ltype p =
     pb_descriptor tag (PB_ATYPE_STATIC OR PB_HTYPE_ONEOF OR ltype) fd
       (pb_delta st [''which_'' @ u] [m]) (pb_membersize st [m]) 0 p"

definition PB_ANONYMOUS_ONEOF_POINTER :: "string \<Rightarrow> pb_size_t \<Rightarrow> ctype \<Rightarrow> string \<Rightarrow> pb_size_t \<Rightarrow> pb_type_t \<Rightarrow> addr \<Rightarrow> pb_field_t" where
  "PB_ANONYMOUS_ONEOF_POINTER u tag st m fd ltype p =
     pb_descriptor tag (PB_ATYPE_POINTER OR PB_HTYPE_ONEOF OR ltype) fd
       (pb_delta st [''which_'' @ u] [m]) (pb_elemsize st [m]) 0 p"

definition PB_ANONYMOUS_ONEOF_FIELD :: "string \<Rightarrow> pb_size_t \<Rightarrow> pb_proto_type \<Rightarrow> pb_allocation \<Rightarrow> pb_placement \<Rightarrow>
    ctype \<Rightarrow> string \<Rightarrow> string \<Rightarrow> addr \<Rightarrow> pb_field_t option" where
  "PB_ANONYMOUS_ONEOF_FIELD u tag type allocation placement message field prevfield p =
     (let fd = PB_DATAOFFSET placement message [field] [prevfield]; lt = PB_LTYPE_MAP type in
      case allocation of
        STATIC \<Rightarrow> Some (PB_ANONYMOUS_ONEOF_STATIC u tag message field fd lt p)
      | POINTER \<Rightarrow> Some (PB_ANONYMOUS_ONEOF_POINTER u tag message field fd lt p)
      | CALLBACK \<Rightarrow> None)"

section \<open>Streams\<close>

text \<open>
  The \<open>state\<close> of a stream over a memory buffer is the pointer into that buffer. For an
  input stream the buffer is constant, so the pointer is represented by the bytes from it
  to the end of the underlying object; for an output stream by the object and the offset
  in it. A caller's own stream callback works on such a state too, and is given the bytes
  to store or asked for a number of bytes. A callback that reports success has delivered
  exactly the bytes asked for.
\<close>

datatype icallback = Buf_read | Icustom "byte list \<Rightarrow> nat \<Rightarrow> byte list option \<times> byte list"

record pb_istream_t =
  is_callback :: icallback
  is_state :: "byte list"
  is_bytes_left :: size_t
  is_errmsg :: "string option"

type_synonym obuf = "byte list \<times> nat"

datatype ocallback = Onull | Buf_write | Ocustom "obuf \<Rightarrow> byte list \<Rightarrow> bool \<times> obuf"

record pb_ostream_t =
  os_callback :: ocallback
  os_state :: obuf
  os_max_size :: size_t
  os_bytes_written :: size_t
  os_errmsg :: "string option"

definition PB_OSTREAM_SIZING :: pb_ostream_t where
  "PB_OSTREAM_SIZING = \<lparr>os_callback = Onull, os_state = ([], 0), os_max_size = 0,
     os_bytes_written = 0, os_errmsg = None\<rparr>"

section \<open>Error messages\<close>

definition first_error :: "string option \<Rightarrow> string \<Rightarrow> string option" where
  "first_error e msg = (case e of None \<Rightarrow> Some msg | Some e' \<Rightarrow> Some e')"

definition is_set_error :: "pb_istream_t \<Rightarrow> string \<Rightarrow> pb_istream_t" where
  "is_set_error s msg = s\<lparr>is_errmsg := first_error (is_errmsg s) msg\<rparr>"

definition os_set_error :: "pb_ostream_t \<Rightarrow> string \<Rightarrow> pb_ostream_t" where
  "os_set_error s msg = s\<lparr>os_errmsg := first_error (os_errmsg s) msg\<rparr>"

definition PB_GET_ERROR :: "string option \<Rightarrow> string" where
  "PB_GET_ERROR e = (case e of None \<Rightarrow> ''(none)'' | Some msg \<Rightarrow> msg)"

lemma is_set_error_simps [simp]:
  "is_callback (is_set_error s msg) = is_callback s"
  "is_state (is_set_error s msg) = is_state s"
  "is_bytes_left (is_set_error s msg) = is_bytes_left s"
  "is_errmsg (is_set_error s msg) \<noteq> None"
  by (auto simp: is_set_error_def first_error_def split: option.splits)

lemma os_set_error_simps [simp]:
  "os_callback (os_set_error s msg) = os_callback s"
  "os_state (os_set_error s msg) = os_state s"
  "os_max_size (os_set_error s msg) = os_max_size s"
  "os_bytes_written (os_set_error s msg) = os_bytes_written s"
  "os_errmsg (os_set_error s msg) \<noteq> None"
  by (auto simp: os_set_error_def first_error_def split: option.splits)

end
