(* ===== verification/Pb_Istream.thy ===== *)
theory Pb_Istream
  imports Pb_Types
begin

text \<open>
  Input streams and the decoders of single values: the first half of \<open>pb_decode.c\<close> (the
  stream implementation, varints, tags, skipping, substreams) and the public value
  decoders (\<open>pb_decode_svarint\<close>, \<open>pb_decode_fixed32\<close>, \<open>pb_decode_fixed64\<close>).

  A C function that returns \<open>bool\<close> and stores its result through a pointer returns
  \<open>Some v\<close> for true with the value \<open>v\<close> stored, \<open>None\<close> for false; the outer \<open>option\<close> is
  undefined behaviour. The locale \<open>stream_reader\<close> is the contract every one of these
  operations keeps towards its callers: on a well-formed stream it is defined, and it
  only moves the stream forward.
\<close>

type_synonym 'a ires = "('a option \<times> pb_istream_t) option"

section \<open>Stream implementation\<close>

definition buf_read :: "pb_istream_t \<Rightarrow> bool \<Rightarrow> nat \<Rightarrow> byte list ires" where
  "buf_read s null count = (if count \<le> length (is_state s)
     then Some (Some (if null then [] else take count (is_state s)),
                s\<lparr>is_state := drop count (is_state s)\<rparr>)
     else None)"

text \<open>\<open>stream->callback(stream, buf, count)\<close>\<close>

definition icall :: "pb_istream_t \<Rightarrow> bool \<Rightarrow> nat \<Rightarrow> byte list ires" where
  "icall s null count = (case is_callback s of
     Buf_read \<Rightarrow> buf_read s null count
   | Icustom f \<Rightarrow> (case f (is_state s) count of
       (None, st) \<Rightarrow> Some (None, s\<lparr>is_state := st\<rparr>)
     | (Some bs, st) \<Rightarrow> if length bs = count then Some (Some bs, s\<lparr>is_state := st\<rparr>) else None))"

text \<open>\<open>pb_read\<close> from its bounds check on.\<close>

definition pb_read_checked :: "pb_istream_t \<Rightarrow> bool \<Rightarrow> size_t \<Rightarrow> byte list ires" where
  "pb_read_checked s null count =
     (if is_bytes_left s < count then Some (None, is_set_error s ''end-of-stream'')
      else do {
        (r, s) \<leftarrow> icall s null (unat count);
        case r of
          None \<Rightarrow> Some (None, is_set_error s ''io error'')
        | Some bs \<Rightarrow> Some (Some bs, s\<lparr>is_bytes_left := is_bytes_left s - count\<rparr>) })"

text \<open>Skipping input of a stream with a callback of the caller: 16 bytes at a time.\<close>

function pb_read_skip :: "pb_istream_t \<Rightarrow> size_t \<Rightarrow> byte list ires" where
  "pb_read_skip s count = (if 16 < count
     then (case pb_read_checked s False 16 of
         None \<Rightarrow> None
       | Some (None, s) \<Rightarrow> Some (None, s)
       | Some (Some _, s) \<Rightarrow> pb_read_skip s (count - 16))
     else pb_read_checked s False count)"
  by pat_completeness auto
termination
proof (relation "measure (\<lambda>(s, count). unat count)", goal_cases)
  case (2 s count)
  then have "16 \<le> count" by simp
  then have "unat (count - 16) = unat count - 16" and "16 \<le> unat count"
    by (simp_all add: word_sub_le_unat word_le_nat_alt)
  then show ?case by simp
qed simp

declare pb_read_skip.simps [simp del]

definition pb_read :: "pb_istream_t \<Rightarrow> bool \<Rightarrow> size_t \<Rightarrow> byte list ires" where
  "pb_read s null count = (if count = 0 then Some (Some [], s)
     else case is_callback s of
       Buf_read \<Rightarrow> pb_read_checked s null count
     | Icustom _ \<Rightarrow> if null then pb_read_skip s count else pb_read_checked s null count)"

definition pb_readbyte :: "pb_istream_t \<Rightarrow> byte ires" where
  "pb_readbyte s =
     (if is_bytes_left s = 0 then Some (None, is_set_error s ''end-of-stream'')
      else do {
        (r, s) \<leftarrow> icall s False 1;
        case r of
          None \<Rightarrow> Some (None, is_set_error s ''io error'')
        | Some bs \<Rightarrow> Some (Some (hd bs), s\<lparr>is_bytes_left := is_bytes_left s - 1\<rparr>) })"

definition pb_istream_from_buffer :: "byte list \<Rightarrow> size_t \<Rightarrow> pb_istream_t" where
  "pb_istream_from_buffer buf bufsize =
     \<lparr>is_callback = Buf_read, is_state = buf, is_bytes_left = bufsize, is_errmsg = None\<rparr>"

section \<open>Well-formed streams\<close>

text \<open>
  The caller's obligations: a buffer stream's \<open>bytes_left\<close> does not exceed the buffer,
  and a custom callback that succeeds delivers what it was asked for.
\<close>

definition istream_ok :: "pb_istream_t \<Rightarrow> bool" where
  "istream_ok s \<longleftrightarrow> (case is_callback s of
     Buf_read \<Rightarrow> unat (is_bytes_left s) \<le> length (is_state s)
   | Icustom f \<Rightarrow> (\<forall>st n bs st'. f st n = (Some bs, st') \<longrightarrow> length bs = n))"

text \<open>
  \<open>t\<close> is \<open>s\<close> after some bytes have been consumed: the callback is the same,
  \<open>bytes_left\<close> went down and a buffer pointer moved forward by the same amount.
\<close>

definition advanced :: "pb_istream_t \<Rightarrow> pb_istream_t \<Rightarrow> bool" where
  "advanced s t \<longleftrightarrow> is_callback t = is_callback s \<and> is_bytes_left t \<le> is_bytes_left s \<and>
     (is_callback s = Buf_read \<longrightarrow>
        is_state t = drop (unat (is_bytes_left s) - unat (is_bytes_left t)) (is_state s))"

lemma advanced_refl [simp]: "advanced s s"
  by (simp add: advanced_def)

lemma advanced_set_error [simp]: "advanced s (is_set_error t msg) = advanced s t"
  by (simp add: advanced_def)

lemma advanced_trans: "advanced s t \<Longrightarrow> advanced t u \<Longrightarrow> advanced s u"
  by (auto simp: advanced_def add.commute word_le_nat_alt)

lemma advanced_ok: "advanced s t \<Longrightarrow> istream_ok s \<Longrightarrow> istream_ok t"
  by (auto simp: advanced_def istream_ok_def word_le_nat_alt split: icallback.splits)

lemma istream_ok_set_error [simp]: "istream_ok (is_set_error s msg) = istream_ok s"
  by (simp add: istream_ok_def split: icallback.splits)

lemma istream_from_buffer_ok [simp]:
  "istream_ok (pb_istream_from_buffer buf n) \<longleftrightarrow> unat n \<le> length buf"
  by (simp add: pb_istream_from_buffer_def istream_ok_def)

lemma icall_safe:
  assumes "istream_ok s" and "count \<le> unat (is_bytes_left s)"
  obtains r t where "icall s null count = Some (r, t)" "is_callback t = is_callback s"
    "is_bytes_left t = is_bytes_left s" "is_errmsg t = is_errmsg s"
    "is_callback s = Buf_read \<Longrightarrow> r \<noteq> None \<and> is_state t = drop count (is_state s)"
    "\<And>bs. r = Some bs \<Longrightarrow> null \<or> length bs = count"
proof (cases "is_callback s")
  case Buf_read
  show thesis
  proof (rule that)
    show "icall s null count = Some (Some (if null then [] else take count (is_state s)),
        s\<lparr>is_state := drop count (is_state s)\<rparr>)"
      using assms Buf_read by (auto simp: icall_def buf_read_def istream_ok_def)
  qed (use assms Buf_read in \<open>auto simp: istream_ok_def split: if_splits\<close>)
next
  case (Icustom f)
  obtain r st where f: "f (is_state s) count = (r, st)" by (cases "f (is_state s) count")
  show thesis
  proof (rule that)
    show "icall s null count = Some (r, s\<lparr>is_state := st\<rparr>)"
      using assms(1) Icustom f by (auto simp: icall_def istream_ok_def split: option.splits)
    show "null \<or> length bs = count" if "r = Some bs" for bs
      using assms(1) Icustom f that by (auto simp: istream_ok_def)
  qed (use Icustom in auto)
qed

section \<open>The contract of a stream operation\<close>

locale stream_reader =
  fixes rd :: "pb_istream_t \<Rightarrow> 'a ires"
  assumes safe: "istream_ok s \<Longrightarrow> \<exists>r t. rd s = Some (r, t) \<and> advanced s t"
begin

lemma defined: "istream_ok s \<Longrightarrow> rd s \<noteq> None"
  using safe by fastforce

lemma advances: "istream_ok s \<Longrightarrow> rd s = Some (r, t) \<Longrightarrow> advanced s t"
  using safe by fastforce

lemma keeps_ok: "istream_ok s \<Longrightarrow> rd s = Some (r, t) \<Longrightarrow> istream_ok t"
  using advances advanced_ok by blast

lemma left_le: "istream_ok s \<Longrightarrow> rd s = Some (r, t) \<Longrightarrow> is_bytes_left t \<le> is_bytes_left s"
  using advances by (auto simp: advanced_def)

end

lemma pb_read_checked_reader: "stream_reader (\<lambda>s. pb_read_checked s null count)"
proof
  fix s assume ok: "istream_ok s"
  show "\<exists>r t. pb_read_checked s null count = Some (r, t) \<and> advanced s t"
  proof (cases "is_bytes_left s < count")
    case False
    then have c: "count \<le> is_bytes_left s" by simp
    then obtain r t where "icall s null (unat count) = Some (r, t)" "is_callback t = is_callback s"
      "is_bytes_left t = is_bytes_left s"
      "is_callback s = Buf_read \<Longrightarrow> r \<noteq> None \<and> is_state t = drop (unat count) (is_state s)"
      using icall_safe [OF ok, of "unat count" null] by (metis word_le_nat_alt)
    moreover have "is_bytes_left s - count \<le> is_bytes_left s" "unat (is_bytes_left s - count) = unat (is_bytes_left s) - unat count"
      using c by (auto simp: word_sub_le word_sub_le_unat)
    ultimately show ?thesis
      using False c by (cases r) (auto simp: pb_read_checked_def advanced_def word_le_nat_alt)
  qed (simp add: pb_read_checked_def)
qed

lemma pb_read_skip_reader: "stream_reader (\<lambda>s. pb_read_skip s count)"
proof
  fix s assume "istream_ok s"
  then show "\<exists>r t. pb_read_skip s count = Some (r, t) \<and> advanced s t"
  proof (induction s count rule: pb_read_skip.induct)
    case (1 s count)
    show ?case
    proof (cases "16 < count")
      case True
      obtain r t where rt: "pb_read_checked s False 16 = Some (r, t)" "advanced s t"
        using stream_reader.safe [OF pb_read_checked_reader 1(2)] by blast
      show ?thesis
      proof (cases r)
        case (Some bs)
        have "istream_ok t" using rt(2) 1(2) by (rule advanced_ok)
        then obtain r' t' where "pb_read_skip t (count - 16) = Some (r', t')" "advanced t t'"
          using 1(1) [OF True rt(1) refl Some] by blast
        then show ?thesis
          using True rt Some advanced_trans [OF rt(2)] by (simp add: pb_read_skip.simps [of s count])
      qed (use True rt in \<open>simp add: pb_read_skip.simps [of s count]\<close>)
    next
      case False
      then show ?thesis
        using stream_reader.safe [OF pb_read_checked_reader 1(2)]
        by (simp add: pb_read_skip.simps [of s count])
    qed
  qed
qed

lemma pb_read_reader: "stream_reader (\<lambda>s. pb_read s null count)"
  using stream_reader.safe [OF pb_read_skip_reader] stream_reader.safe [OF pb_read_checked_reader]
  by unfold_locales (auto simp: pb_read_def split: icallback.splits)

interpretation read: stream_reader "\<lambda>s. pb_read s null count" for null count
  by (rule pb_read_reader)

lemma pb_readbyte_read: "is_bytes_left s \<noteq> 0 \<Longrightarrow>
    pb_readbyte s = map_option (\<lambda>(r, t). (map_option hd r, t)) (pb_read_checked s False 1)"
  by (auto simp: pb_readbyte_def pb_read_checked_def word_le_nat_alt not_less unat_eq_zero
      split: option.splits bind_splits)

interpretation readbyte: stream_reader pb_readbyte
proof
  fix s assume "istream_ok s"
  then show "\<exists>r t. pb_readbyte s = Some (r, t) \<and> advanced s t"
  proof (cases "is_bytes_left s = 0")
    case False
    then show ?thesis
      using stream_reader.safe [OF pb_read_checked_reader \<open>istream_ok s\<close>, of False 1]
      by (auto simp: pb_readbyte_read)
  qed (simp add: pb_readbyte_def)
qed

end
