(* ===== verification/Pb_Varint.thy ===== *)
theory Pb_Varint
  imports Pb_Istream
begin

text \<open>
  The value decoders of \<open>pb_decode.c\<close> (varints of 32 and 64 bits, zig-zag, fixed-width
  values, tags), skipping of unknown fields, raw values and length-limited substreams, on
  top of the input streams. Every operation is shown to be a \<open>stream_reader\<close>: defined on
  well-formed streams, moving forward only. Loops over the input terminate because each
  byte read lowers \<open>bytes_left\<close>.
\<close>

section \<open>Progress\<close>

lemma icall_left: "icall s null n = Some (r, t) \<Longrightarrow> is_bytes_left t = is_bytes_left s"
  by (auto simp: icall_def buf_read_def split: icallback.splits if_splits option.splits prod.splits)

lemma unat_dec: "(a :: 'a::len word) \<noteq> 0 \<Longrightarrow> unat (a - 1) < unat a"
  by (simp add: measure_unat)

lemma pb_readbyte_progress:
  "pb_readbyte s = Some (Some b, t) \<Longrightarrow> unat (is_bytes_left t) < unat (is_bytes_left s)"
  by (auto simp: pb_readbyte_def bind_Some_iff unat_dec dest!: icall_left split: if_splits option.splits)

lemma pb_read_nonnull:
  "pb_read s False n = (if n = 0 then Some (Some [], s) else pb_read_checked s False n)"
  by (simp add: pb_read_def split: icallback.split)

lemma pb_read_checked_left:
  "pb_read_checked s null n = Some (Some bs, t) \<Longrightarrow>
   n \<le> is_bytes_left s \<and> is_bytes_left t = is_bytes_left s - n"
proof -
  assume rd: "pb_read_checked s null n = Some (Some bs, t)"
  then have n: "\<not> is_bytes_left s < n" by (simp add: pb_read_checked_def split: if_splits)
  with rd obtain u where u: "icall s null (unat n) = Some (Some bs, u)"
    and t: "t = u\<lparr>is_bytes_left := is_bytes_left u - n\<rparr>"
    by (auto simp: pb_read_checked_def bind_Some_iff split: option.splits)
  from u have "is_bytes_left u = is_bytes_left s" by (rule icall_left)
  with n t show ?thesis by simp
qed

lemma pb_read_progress:
  "pb_read s False 1 = Some (Some bs, t) \<Longrightarrow> unat (is_bytes_left t) < unat (is_bytes_left s)"
proof -
  assume "pb_read s False 1 = Some (Some bs, t)"
  then have *: "1 \<le> is_bytes_left s \<and> is_bytes_left t = is_bytes_left s - 1"
    by (intro pb_read_checked_left [of s False]) (simp add: pb_read_nonnull)
  then have "is_bytes_left s \<noteq> 0" by (auto simp: word_le_nat_alt)
  with * show ?thesis by (simp add: unat_dec)
qed

section \<open>Varints\<close>

text \<open>
  The body of the loop of \<open>pb_decode_varint32_eof\<close>. \<open>bitpos\<close> is a \<open>uint_fast8_t\<close>,
  eight bits wide on the application's targets, and \<open>(uint_fast8_t)(bitpos + 7)\<close> wraps.
\<close>

function varint32_loop :: "pb_istream_t \<Rightarrow> byte \<Rightarrow> u32 \<Rightarrow> u32 ires" where
  "varint32_loop s bitpos result = (case pb_readbyte s of
     None \<Rightarrow> None
   | Some (None, s) \<Rightarrow> Some (None, s)
   | Some (Some b, s) \<Rightarrow>
       let sign_extension = (if bitpos < 63 then 0xFF else 0x01);
           result' = (if 32 \<le> bitpos then result
                      else result OR push_bit (unat bitpos) (ucast (b AND 0x7F)));
           bitpos' = bitpos + 7 in
       if 32 \<le> bitpos \<and> b AND 0x7F \<noteq> 0 \<and> (drop_bit 31 result = 0 \<or> b \<noteq> sign_extension)
       then Some (None, is_set_error s ''varint overflow'')
       else if b AND 0x80 \<noteq> 0 then varint32_loop s bitpos' result'
       else if bitpos' = 35 \<and> b AND 0x70 \<noteq> 0 then Some (None, is_set_error s ''varint overflow'')
       else Some (Some result', s))"
  by pat_completeness auto
termination
  by (relation "measure (\<lambda>(s, bitpos, result). unat (is_bytes_left s))")
    (auto dest: pb_readbyte_progress)

text \<open>The second component of the result: whether \<open>*eof\<close> has been set.\<close>

definition pb_decode_varint32_eof :: "pb_istream_t \<Rightarrow> (u32 option \<times> bool \<times> pb_istream_t) option" where
  "pb_decode_varint32_eof s = do {
     (r, s) \<leftarrow> pb_readbyte s;
     case r of
       None \<Rightarrow> Some (None, is_bytes_left s = 0, s)
     | Some b \<Rightarrow>
         if b AND 0x80 = 0 then Some (Some (ucast b), False, s)
         else do {
           (r, s) \<leftarrow> varint32_loop s 7 (ucast (b AND 0x7F));
           Some (r, False, s) } }"

definition pb_decode_varint32 :: "pb_istream_t \<Rightarrow> u32 ires" where
  "pb_decode_varint32 s = do { (r, _, s) \<leftarrow> pb_decode_varint32_eof s; Some (r, s) }"

function varint64_loop :: "pb_istream_t \<Rightarrow> byte \<Rightarrow> u64 \<Rightarrow> u64 ires" where
  "varint64_loop s bitpos result =
     (if 64 \<le> bitpos then Some (None, is_set_error s ''varint overflow'')
      else case pb_readbyte s of
        None \<Rightarrow> None
      | Some (None, s) \<Rightarrow> Some (None, s)
      | Some (Some b, s) \<Rightarrow>
          let result' = result OR push_bit (unat bitpos) (ucast (b AND 0x7F)) in
          if b AND 0x80 \<noteq> 0 then varint64_loop s (bitpos + 7) result' else Some (Some result', s))"
  by pat_completeness auto
termination
  by (relation "measure (\<lambda>(s, bitpos, result). unat (is_bytes_left s))")
    (auto dest: pb_readbyte_progress)

definition pb_decode_varint :: "pb_istream_t \<Rightarrow> u64 ires" where
  "pb_decode_varint s = varint64_loop s 0 0"

function pb_skip_varint :: "pb_istream_t \<Rightarrow> unit ires" where
  "pb_skip_varint s = (case pb_read s False 1 of
     None \<Rightarrow> None
   | Some (None, s) \<Rightarrow> Some (None, s)
   | Some (Some bs, s) \<Rightarrow> if hd bs AND 0x80 \<noteq> 0 then pb_skip_varint s else Some (Some (), s))"
  by pat_completeness auto
termination
  by (relation "measure (\<lambda>s. unat (is_bytes_left s))") (auto dest: pb_read_progress)

declare varint32_loop.simps [simp del] varint64_loop.simps [simp del] pb_skip_varint.simps [simp del]

definition pb_skip_string :: "pb_istream_t \<Rightarrow> unit ires" where
  "pb_skip_string s = do {
     (r, s) \<leftarrow> pb_decode_varint32 s;
     case r of
       None \<Rightarrow> Some (None, s)
     | Some n \<Rightarrow> do {
         (r, s) \<leftarrow> pb_read s True (ucast n);
         Some (map_option (\<lambda>_. ()) r, s) } }"

section \<open>Tags and unknown fields\<close>

text \<open>Wire type and tag, and whether \<open>*eof\<close> has been set.\<close>

definition pb_decode_tag :: "pb_istream_t \<Rightarrow> ((pb_wire_type_t \<times> u32) option \<times> bool \<times> pb_istream_t) option" where
  "pb_decode_tag s = do {
     (r, eof, s) \<leftarrow> pb_decode_varint32_eof s;
     case r of
       None \<Rightarrow> Some (None, eof, s)
     | Some temp \<Rightarrow>
         if temp = 0 then Some (None, True, s)
         else Some (Some (temp AND 7, drop_bit 3 temp), eof, s) }"

definition pb_skip_field :: "pb_istream_t \<Rightarrow> pb_wire_type_t \<Rightarrow> unit ires" where
  "pb_skip_field s wire_type =
     (if wire_type = PB_WT_VARINT then pb_skip_varint s
      else if wire_type = PB_WT_64BIT then do { (r, s) \<leftarrow> pb_read s True 8; Some (map_option (\<lambda>_. ()) r, s) }
      else if wire_type = PB_WT_STRING then pb_skip_string s
      else if wire_type = PB_WT_32BIT then do { (r, s) \<leftarrow> pb_read s True 4; Some (map_option (\<lambda>_. ()) r, s) }
      else Some (None, is_set_error s ''invalid wire_type''))"

text \<open>The varint case of \<open>read_raw_value\<close>: at most \<open>max_size\<close> bytes go into the buffer.\<close>

primrec raw_varint :: "nat \<Rightarrow> pb_istream_t \<Rightarrow> byte list ires" where
  "raw_varint 0 s = Some (None, s)"
| "raw_varint (Suc room) s = do {
     (r, s) \<leftarrow> pb_read s False 1;
     case r of
       None \<Rightarrow> Some (None, s)
     | Some bs \<Rightarrow>
         if hd bs AND 0x80 \<noteq> 0 then do {
           (r, s) \<leftarrow> raw_varint room s;
           Some (map_option (\<lambda>rest. hd bs # rest) r, s) }
         else Some (Some [hd bs], s) }"

definition read_raw_value :: "pb_istream_t \<Rightarrow> pb_wire_type_t \<Rightarrow> nat \<Rightarrow> byte list ires" where
  "read_raw_value s wire_type max_size =
     (if wire_type = PB_WT_VARINT then raw_varint max_size s
      else if wire_type = PB_WT_64BIT then pb_read s False 8
      else if wire_type = PB_WT_32BIT then pb_read s False 4
      else Some (None, is_set_error s ''invalid wire_type''))"

section \<open>Substreams\<close>

definition pb_make_string_substream :: "pb_istream_t \<Rightarrow> pb_istream_t ires" where
  "pb_make_string_substream s = do {
     (r, s) \<leftarrow> pb_decode_varint32 s;
     case r of
       None \<Rightarrow> Some (None, s)
     | Some n \<Rightarrow>
         if is_bytes_left s < ucast n then Some (None, is_set_error s ''parent stream too short'')
         else Some (Some (s\<lparr>is_bytes_left := ucast n\<rparr>), s\<lparr>is_bytes_left := is_bytes_left s - ucast n\<rparr>) }"

definition pb_close_string_substream :: "pb_istream_t \<Rightarrow> pb_istream_t \<Rightarrow> unit ires" where
  "pb_close_string_substream s sub = do {
     (r, sub) \<leftarrow> (if is_bytes_left sub \<noteq> 0 then pb_read sub True (is_bytes_left sub) else Some (Some [], sub));
     case r of
       None \<Rightarrow> Some (None, s)
     | Some _ \<Rightarrow> Some (Some (), s\<lparr>is_state := is_state sub, is_errmsg := is_errmsg sub\<rparr>) }"

section \<open>Public value decoders\<close>

definition pb_decode_svarint :: "pb_istream_t \<Rightarrow> u64 ires" where
  "pb_decode_svarint s = do {
     (r, s) \<leftarrow> pb_decode_varint s;
     Some (map_option (\<lambda>v. if v AND 1 \<noteq> 0 then NOT (drop_bit 1 v) else drop_bit 1 v) r, s) }"

definition pb_decode_fixed32 :: "pb_istream_t \<Rightarrow> u32 ires" where
  "pb_decode_fixed32 s = do {
     (r, s) \<leftarrow> pb_read s False 4;
     Some (map_option (\<lambda>b. push_bit 0 (ucast (b ! 0)) OR push_bit 8 (ucast (b ! 1)) OR
       push_bit 16 (ucast (b ! 2)) OR push_bit 24 (ucast (b ! 3))) r, s) }"

definition pb_decode_fixed64 :: "pb_istream_t \<Rightarrow> u64 ires" where
  "pb_decode_fixed64 s = do {
     (r, s) \<leftarrow> pb_read s False 8;
     Some (map_option (\<lambda>b. push_bit 0 (ucast (b ! 0)) OR push_bit 8 (ucast (b ! 1)) OR
       push_bit 16 (ucast (b ! 2)) OR push_bit 24 (ucast (b ! 3)) OR push_bit 32 (ucast (b ! 4)) OR
       push_bit 40 (ucast (b ! 5)) OR push_bit 48 (ucast (b ! 6)) OR push_bit 56 (ucast (b ! 7))) r, s) }"

definition pb_decode_bool :: "pb_istream_t \<Rightarrow> bool ires" where
  "pb_decode_bool s = do { (r, s) \<leftarrow> pb_decode_varint32 s; Some (map_option (\<lambda>v. v \<noteq> 0) r, s) }"

section \<open>Every operation is a stream reader\<close>

lemma reader_bind:
  assumes "stream_reader f" and "\<And>r. stream_reader (g r)"
  shows "stream_reader (\<lambda>s. do { (r, s) \<leftarrow> f s; g r s })"
proof
  fix s assume ok: "istream_ok s"
  obtain r t where f: "f s = Some (r, t)" "advanced s t"
    using stream_reader.safe [OF assms(1) ok] by blast
  then have "istream_ok t" using ok advanced_ok by blast
  then obtain r' u where "g r t = Some (r', u)" "advanced t u"
    using stream_reader.safe [OF assms(2)] by blast
  with f show "\<exists>r t. Option.bind (f s) (\<lambda>(r, s). g r s) = Some (r, t) \<and> advanced s t"
    using advanced_trans by auto
qed

lemma reader_return [simp]: "stream_reader (\<lambda>s. Some (r, s))"
  by unfold_locales auto

lemma reader_error [simp]: "stream_reader (\<lambda>s. Some (r, is_set_error s msg))"
  by unfold_locales auto

lemma reader_option_case:
  "stream_reader g \<Longrightarrow> (\<And>x. stream_reader (h x)) \<Longrightarrow>
   stream_reader (\<lambda>s. case r of None \<Rightarrow> g s | Some x \<Rightarrow> h x s)"
  by (cases r) auto

lemma reader_if:
  "stream_reader g \<Longrightarrow> stream_reader h \<Longrightarrow> stream_reader (\<lambda>s. if b then g s else h s)"
  by (cases b) auto

lemmas reader_intros = reader_bind reader_return reader_error reader_option_case reader_if
  pb_read_reader readbyte.stream_reader_axioms

lemma byte_step:
  assumes "istream_ok s"
  obtains t where "pb_readbyte s = Some (None, t)" "advanced s t"
  | b t where "pb_readbyte s = Some (Some b, t)" "advanced s t" "istream_ok t"
      "unat (is_bytes_left t) < unat (is_bytes_left s)"
proof -
  obtain r t where "pb_readbyte s = Some (r, t)" "advanced s t"
    using readbyte.safe [OF assms] by blast
  with assms that show thesis
    by (cases r) (auto intro: advanced_ok pb_readbyte_progress)
qed

lemma varint32_loop_reader: "stream_reader (\<lambda>s. varint32_loop s bitpos result)"
proof
  fix s assume "istream_ok s"
  then show "\<exists>r t. varint32_loop s bitpos result = Some (r, t) \<and> advanced s t"
  proof (induction "unat (is_bytes_left s)" arbitrary: s bitpos result rule: less_induct)
    case less
    from less.prems show ?case
    proof (cases rule: byte_step)
      case (2 b t)
      note IH = less.hyps [OF 2(4,3)]
      from 2 IH show ?thesis
        by (subst varint32_loop.simps) (fastforce simp: Let_def intro: advanced_trans)
    qed (simp add: varint32_loop.simps [of s])
  qed
qed

lemma varint64_loop_reader: "stream_reader (\<lambda>s. varint64_loop s bitpos result)"
proof
  fix s assume "istream_ok s"
  then show "\<exists>r t. varint64_loop s bitpos result = Some (r, t) \<and> advanced s t"
  proof (induction "unat (is_bytes_left s)" arbitrary: s bitpos result rule: less_induct)
    case less
    from less.prems show ?case
    proof (cases rule: byte_step)
      case (2 b t)
      note IH = less.hyps [OF 2(4,3)]
      from 2 IH show ?thesis
        by (subst varint64_loop.simps) (fastforce simp: Let_def intro: advanced_trans)
    qed (simp add: varint64_loop.simps [of s])
  qed
qed

interpretation varint: stream_reader pb_decode_varint
  unfolding pb_decode_varint_def [abs_def] by (rule varint64_loop_reader)

lemma varint32_eof_safe:
  assumes "istream_ok s"
  obtains r eof t where "pb_decode_varint32_eof s = Some (r, eof, t)" "advanced s t"
  using assms
proof (cases rule: byte_step)
  case (2 b t)
  show thesis
  proof (cases "b AND 0x80 = 0")
    case False
    obtain r u where "varint32_loop t 7 (ucast (b AND 0x7F)) = Some (r, u)" "advanced t u"
      using stream_reader.safe [OF varint32_loop_reader 2(3)] by blast
    with 2 False that show thesis
      by (auto simp: pb_decode_varint32_eof_def intro: advanced_trans)
  qed (use 2 that in \<open>auto simp: pb_decode_varint32_eof_def\<close>)
qed (use that in \<open>auto simp: pb_decode_varint32_eof_def\<close>)

interpretation varint32: stream_reader pb_decode_varint32
proof
  fix s assume "istream_ok s"
  then show "\<exists>r t. pb_decode_varint32 s = Some (r, t) \<and> advanced s t"
    by (rule varint32_eof_safe) (auto simp: pb_decode_varint32_def)
qed

lemma pb_skip_varint_reader: "stream_reader pb_skip_varint"
proof
  fix s assume "istream_ok s"
  then show "\<exists>r t. pb_skip_varint s = Some (r, t) \<and> advanced s t"
  proof (induction "unat (is_bytes_left s)" arbitrary: s rule: less_induct)
    case less
    obtain r t where rt: "pb_read s False 1 = Some (r, t)" "advanced s t"
      using read.safe [OF less.prems] by blast
    show ?case
    proof (cases r)
      case (Some bs)
      with rt less have "istream_ok t" "unat (is_bytes_left t) < unat (is_bytes_left s)"
        by (auto intro: advanced_ok pb_read_progress)
      then show ?thesis
        using less.hyps [of t] rt Some
        by (subst pb_skip_varint.simps) (fastforce intro: advanced_trans)
    qed (use rt in \<open>simp add: pb_skip_varint.simps [of s]\<close>)
  qed
qed

interpretation skip_string: stream_reader pb_skip_string
  unfolding pb_skip_string_def [abs_def]
  by (intro reader_intros varint32.stream_reader_axioms)

interpretation skip_field: stream_reader "\<lambda>s. pb_skip_field s wt" for wt
  unfolding pb_skip_field_def [abs_def]
  by (intro reader_intros pb_skip_varint_reader skip_string.stream_reader_axioms)

lemma raw_varint_reader: "stream_reader (raw_varint n)"
proof (induction n)
  case (Suc n)
  show ?case
    unfolding raw_varint.simps(2) [abs_def] by (intro reader_intros Suc)
qed (simp add: fun_eq_iff [symmetric] raw_varint.simps(1) [abs_def])

interpretation raw_value: stream_reader "\<lambda>s. read_raw_value s wt n" for wt n
  unfolding read_raw_value_def [abs_def]
  by (intro reader_intros raw_varint_reader)

interpretation svarint: stream_reader pb_decode_svarint
  unfolding pb_decode_svarint_def [abs_def] by (intro reader_intros varint.stream_reader_axioms)

interpretation fixed32: stream_reader pb_decode_fixed32
  unfolding pb_decode_fixed32_def [abs_def] by (intro reader_intros)

interpretation fixed64: stream_reader pb_decode_fixed64
  unfolding pb_decode_fixed64_def [abs_def] by (intro reader_intros)

interpretation decode_bool: stream_reader pb_decode_bool
  unfolding pb_decode_bool_def [abs_def] by (intro reader_intros varint32.stream_reader_axioms)

section \<open>Substreams\<close>

lemma skip_rest:
  assumes "is_callback s = Buf_read" and "istream_ok s"
  shows "\<exists>bs. pb_read s True (is_bytes_left s) =
    Some (Some bs, s\<lparr>is_state := drop (unat (is_bytes_left s)) (is_state s), is_bytes_left := 0\<rparr>)"
  using assms by (auto simp: pb_read_def pb_read_checked_def icall_def buf_read_def istream_ok_def
      unat_eq_zero [symmetric])

section \<open>Properties\<close>

text \<open>C33. \<open>pb_skip_field\<close> has a defined result on every well-formed stream and every wire
  type, valid or not: it never reads past the input, and the stream it leaves is the old
  one moved forward.\<close>

theorem skip_field_stays_inside:
  assumes "istream_ok s"
  shows "\<exists>r t. pb_skip_field s wire_type = Some (r, t) \<and> advanced s t \<and> istream_ok t"
  using skip_field.safe [OF assms] advanced_ok assms by blast

theorem skip_field_stays_inside_witness:
  "\<exists>r t. pb_skip_field (pb_istream_from_buffer [0x80, 0x80] 2) 0 = Some (r, t) \<and>
     advanced (pb_istream_from_buffer [0x80, 0x80] 2) t \<and> istream_ok t"
  by (rule skip_field_stays_inside) simp

text \<open>C32. Length-delimited data is confined: whatever a reader did with the substream that
  \<open>pb_make_string_substream\<close> opened on a buffer, closing it succeeds and leaves the parent
  exactly behind the delimited bytes, with the bytes it had left.\<close>

theorem substream_confined:
  assumes "is_callback s = Buf_read" and "istream_ok s"
    and "pb_make_string_substream s = Some (Some sub, parent)" and "advanced sub sub'"
  shows "\<exists>t. pb_close_string_substream parent sub' = Some (Some (), t) \<and> istream_ok t \<and>
    is_bytes_left t = is_bytes_left parent \<and> is_state t = drop (unat (is_bytes_left sub)) (is_state sub)"
proof -
  obtain n u where u: "pb_decode_varint32 s = Some (Some n, u)" "\<not> is_bytes_left u < ucast n"
    and sub: "sub = u\<lparr>is_bytes_left := ucast n\<rparr>"
    and parent: "parent = u\<lparr>is_bytes_left := is_bytes_left u - ucast n\<rparr>"
    using assms(3) by (auto simp: pb_make_string_substream_def bind_Some_iff split: option.splits if_splits)
  have ok: "istream_ok u" "is_callback u = Buf_read"
    using varint32.advances [OF assms(2) u(1)] varint32.keeps_ok [OF assms(2) u(1)] assms(1)
    by (auto simp: advanced_def)
  have le: "ucast n \<le> is_bytes_left u" using u(2) by simp
  have subok: "istream_ok sub" using ok le by (simp add: istream_ok_def sub word_le_nat_alt)
  have sub': "istream_ok sub'" "is_callback sub' = Buf_read"
    using advanced_ok [OF assms(4) subok] assms(4) ok(2) by (auto simp: advanced_def sub)
  have st: "drop (unat (is_bytes_left sub')) (is_state sub') = drop (unat (is_bytes_left sub)) (is_state sub)"
    using assms(4) ok(2) by (auto simp: advanced_def sub word_le_nat_alt)
  have left: "unat (is_bytes_left u - ucast n) = unat (is_bytes_left u) - unat (ucast n :: size_t)"
    using le by (rule word_sub_le_unat)
  show ?thesis
    using skip_rest [OF sub'(2,1)] st ok left
    by (cases "is_bytes_left sub' = 0")
      (auto simp: pb_close_string_substream_def parent istream_ok_def sub)
qed

theorem substream_confined_witness:
  "\<exists>sub parent t. pb_make_string_substream (pb_istream_from_buffer [2, 7, 8, 9] 4) = Some (Some sub, parent) \<and>
     pb_close_string_substream parent sub = Some (Some (), t) \<and> is_state t = [9]"
proof -
  let ?s = "pb_istream_from_buffer [2, 7, 8, 9] 4"
  have s: "is_callback ?s = Buf_read" "istream_ok ?s"
    by (simp_all add: pb_istream_from_buffer_def istream_ok_def)
  have m: "pb_make_string_substream ?s = Some (Some (?s\<lparr>is_state := [7, 8, 9], is_bytes_left := 2\<rparr>),
      ?s\<lparr>is_state := [7, 8, 9], is_bytes_left := 1\<rparr>)"
    by (simp add: pb_make_string_substream_def pb_decode_varint32_def pb_decode_varint32_eof_def
        pb_readbyte_def icall_def buf_read_def pb_istream_from_buffer_def)
  show ?thesis
    using substream_confined [OF s m advanced_refl] m by auto
qed

text \<open>A flaw of \<open>pb_decode_varint32_eof\<close>: its bit position is an 8-bit variable that
  wraps, so a varint of 38 bytes (37 continuation bytes without payload, then 1) is
  accepted and decodes to 8 instead of being rejected as an overflow.\<close>

theorem varint32_bitpos_wraps:
  "map_option fst (pb_decode_varint32 (pb_istream_from_buffer (replicate 37 0x80 @ [0x01]) 38)) = Some (Some 8)"
  by code_simp

end
