(* ===== verification/Pb_Memory.thy ===== *)
theory Pb_Memory
  imports Pb_Prelude
begin

text \<open>
  The byte-addressed memory that the nanopb library reads and writes through \<open>void *\<close>
  pointers: message structures, default values, extension chains and the heap.

  Memory is a flat store of bytes together with the list of the objects (blocks) that are
  allocated. An address is an \<open>int\<close>; a pointer stored in memory is the 64-bit
  little-endian form of its address and the null pointer is \<open>0\<close>. Reading or writing
  outside every allocated block is undefined behaviour, that is \<open>None\<close>. The C library's
  \<open>realloc\<close>, \<open>free\<close>, \<open>memset\<close> and \<open>memcpy\<close> are modelled on it; whether the
  allocator grants a request is decided by \<open>mgrants\<close>, so that every pattern of
  allocation failures is covered. Fresh storage has indeterminate contents: whatever the
  store holds there.

  The locale \<open>byte_store\<close> states what the components rely on (what a load returns after
  a store) and carries the lemmas on word-sized accesses; it is interpreted on the model.
\<close>

section \<open>The store\<close>

record mem =
  mbytes :: "addr \<Rightarrow> byte"          \<comment> \<open>contents\<close>
  mblocks :: "(addr \<times> int) list"   \<comment> \<open>allocated objects: base and size\<close>
  mnext :: addr                       \<comment> \<open>first address no object has used yet\<close>
  mgrants :: "bool list"             \<comment> \<open>answers to the next allocation requests\<close>

definition valid :: "mem \<Rightarrow> addr \<Rightarrow> nat \<Rightarrow> bool" where
  "valid m a n \<longleftrightarrow> n = 0 \<or> list_ex (\<lambda>(b, sz). b \<le> a \<and> a + int n \<le> b + sz) (mblocks m)"

definition load_bytes :: "mem \<Rightarrow> addr \<Rightarrow> nat \<Rightarrow> byte list option" where
  "load_bytes m a n = (if valid m a n then Some (map (\<lambda>i. mbytes m (a + int i)) [0..<n]) else None)"

definition store_bytes :: "mem \<Rightarrow> addr \<Rightarrow> byte list \<Rightarrow> mem option" where
  "store_bytes m a bs = (if valid m a (length bs)
     then Some (m\<lparr>mbytes := \<lambda>x. if a \<le> x \<and> x < a + int (length bs) then bs ! nat (x - a) else mbytes m x\<rparr>)
     else None)"

section \<open>Typed accesses\<close>

definition load_u8 :: "mem \<Rightarrow> addr \<Rightarrow> byte option" where
  "load_u8 m a = map_option le_word (load_bytes m a 1)"

definition load_u16 :: "mem \<Rightarrow> addr \<Rightarrow> u16 option" where
  "load_u16 m a = map_option le_word (load_bytes m a 2)"

definition load_u32 :: "mem \<Rightarrow> addr \<Rightarrow> u32 option" where
  "load_u32 m a = map_option le_word (load_bytes m a 4)"

definition load_u64 :: "mem \<Rightarrow> addr \<Rightarrow> u64 option" where
  "load_u64 m a = map_option le_word (load_bytes m a 8)"

definition load_ptr :: "mem \<Rightarrow> addr \<Rightarrow> addr option" where
  "load_ptr m a = map_option (\<lambda>w. uint (w :: u64)) (load_u64 m a)"

definition store_u8 :: "mem \<Rightarrow> addr \<Rightarrow> byte \<Rightarrow> mem option" where
  "store_u8 m a w = store_bytes m a (le_bytes 1 w)"

definition store_u16 :: "mem \<Rightarrow> addr \<Rightarrow> u16 \<Rightarrow> mem option" where
  "store_u16 m a w = store_bytes m a (le_bytes 2 w)"

definition store_u32 :: "mem \<Rightarrow> addr \<Rightarrow> u32 \<Rightarrow> mem option" where
  "store_u32 m a w = store_bytes m a (le_bytes 4 w)"

definition store_u64 :: "mem \<Rightarrow> addr \<Rightarrow> u64 \<Rightarrow> mem option" where
  "store_u64 m a w = store_bytes m a (le_bytes 8 w)"

definition store_ptr :: "mem \<Rightarrow> addr \<Rightarrow> addr \<Rightarrow> mem option" where
  "store_ptr m a p = store_u64 m a (word_of_int p)"

text \<open>\<open>bool\<close> has one byte; a store of \<open>true\<close> writes 1.\<close>

definition store_bool :: "mem \<Rightarrow> addr \<Rightarrow> bool \<Rightarrow> mem option" where
  "store_bool m a b = store_bytes m a [if b then 1 else 0]"

definition memset :: "mem \<Rightarrow> addr \<Rightarrow> byte \<Rightarrow> nat \<Rightarrow> mem option" where
  "memset m a v n = store_bytes m a (replicate n v)"

definition memcpy :: "mem \<Rightarrow> addr \<Rightarrow> addr \<Rightarrow> nat \<Rightarrow> mem option" where
  "memcpy m d s n = do { bs \<leftarrow> load_bytes m s n; store_bytes m d bs }"

section \<open>Allocation\<close>

definition grant :: "mem \<Rightarrow> bool" where
  "grant m = (case mgrants m of [] \<Rightarrow> True | g # _ \<Rightarrow> g)"

definition fresh_base :: "mem \<Rightarrow> addr" where
  "fresh_base m = 16 * ((mnext m + 15) div 16)"

definition add_block :: "mem \<Rightarrow> nat \<Rightarrow> mem" where
  "add_block m n = m\<lparr>mblocks := (fresh_base m, int n) # mblocks m,
                     mnext := fresh_base m + int n + 1\<rparr>"

definition fits :: "mem \<Rightarrow> nat \<Rightarrow> bool" where
  "fits m n \<longleftrightarrow> fresh_base m + int n < 2 ^ 64"

definition malloc :: "mem \<Rightarrow> nat \<Rightarrow> addr \<times> mem" where
  "malloc m n = (let m' = m\<lparr>mgrants := tl (mgrants m)\<rparr> in
     if grant m \<and> fits m n then (fresh_base m, add_block m' n) else (0, m'))"

definition drop_block :: "mem \<Rightarrow> addr \<Rightarrow> mem" where
  "drop_block m p = m\<lparr>mblocks := filter (\<lambda>(b, _). b \<noteq> p) (mblocks m)\<rparr>"

definition c_free :: "mem \<Rightarrow> addr \<Rightarrow> mem option" where
  "c_free m p = (if p = 0 then Some m
     else if map_of (mblocks m) p = None then None else Some (drop_block m p))"

definition c_realloc :: "mem \<Rightarrow> addr \<Rightarrow> nat \<Rightarrow> (addr \<times> mem) option" where
  "c_realloc m p n = (if p = 0 then Some (malloc m n)
     else case map_of (mblocks m) p of
       None \<Rightarrow> None
     | Some sz \<Rightarrow> (let (q, m1) = malloc m n in
         if q = 0 then Some (0, m1)
         else do { m2 \<leftarrow> memcpy m1 q p (min (nat sz) n); Some (q, drop_block m2 p) }))"

text \<open>
  An automatic variable whose address is taken: a block for the duration of the call, in
  a region of its own below address 0.
\<close>

definition stack_base :: "mem \<Rightarrow> nat \<Rightarrow> addr" where
  "stack_base m n = foldr min (map fst (mblocks m)) 0 - int n - 1"

definition stack_alloc :: "mem \<Rightarrow> nat \<Rightarrow> addr \<times> mem" where
  "stack_alloc m n = (stack_base m n, m\<lparr>mblocks := (stack_base m n, int n) # mblocks m\<rparr>)"

text \<open>A memory with one object that holds the given bytes.\<close>

definition object_mem :: "addr \<Rightarrow> byte list \<Rightarrow> mem" where
  "object_mem a bs = \<lparr>mbytes = \<lambda>x. if a \<le> x \<and> x < a + int (length bs) then bs ! nat (x - a) else 0,
     mblocks = [(a, int (length bs))], mnext = a + int (length bs) + 1, mgrants = []\<rparr>"

section \<open>Well-formed memory\<close>

definition in_use :: "mem \<Rightarrow> (addr \<times> int) \<Rightarrow> bool" where
  "in_use m = (\<lambda>(b, sz). 0 \<le> sz \<and> (0 < b \<and> b + sz < mnext m \<or> b + sz < 0))"

fun apart :: "(addr \<times> int) list \<Rightarrow> bool" where
  "apart [] = True"
| "apart ((b, sz) # bs) = (list_all (\<lambda>(b', sz'). b + sz < b' \<or> b' + sz' < b) bs \<and> apart bs)"

definition mem_ok :: "mem \<Rightarrow> bool" where
  "mem_ok m \<longleftrightarrow> 0 < mnext m \<and> mnext m \<le> 2 ^ 64 \<and> list_all (in_use m) (mblocks m) \<and> apart (mblocks m)"

section \<open>The interface of a byte store\<close>

text \<open>Two byte ranges that share no address.\<close>

definition disjoint_ranges :: "addr \<Rightarrow> nat \<Rightarrow> addr \<Rightarrow> nat \<Rightarrow> bool" where
  "disjoint_ranges a n b k \<longleftrightarrow> a + int n \<le> b \<or> b + int k \<le> a"

locale byte_store =
  fixes ok :: "'m \<Rightarrow> addr \<Rightarrow> nat \<Rightarrow> bool"
    and ld :: "'m \<Rightarrow> addr \<Rightarrow> nat \<Rightarrow> byte list option"
    and st :: "'m \<Rightarrow> addr \<Rightarrow> byte list \<Rightarrow> 'm option"
  assumes ld_defined: "ok m a n \<Longrightarrow> \<exists>bs. ld m a n = Some bs \<and> length bs = n"
    and ld_ok: "ld m a n = Some bs \<Longrightarrow> ok m a n"
    and st_defined: "ok m a (length bs) \<Longrightarrow> \<exists>m'. st m a bs = Some m'"
    and st_ok: "st m a bs = Some m' \<Longrightarrow> ok m a (length bs)"
    and ok_st: "st m a bs = Some m' \<Longrightarrow> ok m' b n = ok m b n"
    and ld_same: "st m a bs = Some m' \<Longrightarrow> ld m' a (length bs) = Some bs"
    and ld_other: "st m a bs = Some m' \<Longrightarrow> disjoint_ranges a (length bs) b n \<Longrightarrow> ld m' b n = ld m b n"
begin

lemma ld_length: "ld m a n = Some bs \<Longrightarrow> length bs = n"
  using ld_ok ld_defined by (metis option.inject)

lemma ld_none: "ld m a n = None \<longleftrightarrow> \<not> ok m a n"
  using ld_ok ld_defined by (metis not_None_eq)

lemma word_same:
  assumes "st m a (le_bytes n w) = Some m'" and "LENGTH('w) \<le> 8 * n"
  shows "map_option le_word (ld m' a n) = Some (w :: 'w::len word)"
  using ld_same [OF assms(1)] assms(2) by simp

lemma word_other:
  assumes "st m a (le_bytes n w) = Some m'" and "disjoint_ranges a n b k"
  shows "map_option f (ld m' b k) = map_option f (ld m b k)"
  using ld_other [OF assms(1)] assms(2) by simp

lemma two_stores:
  assumes "st m a xs = Some m1" and "st m1 b ys = Some m2"
    and "disjoint_ranges b (length ys) a (length xs)"
  shows "ld m2 a (length xs) = Some xs" and "ld m2 b (length ys) = Some ys"
  using ld_same [OF assms(1)] ld_other [OF assms(2,3)] ld_same [OF assms(2)] by auto

end

interpretation mem_store: byte_store valid load_bytes store_bytes
proof (unfold_locales, goal_cases)
  case (5 m a bs m' b n)
  then show ?case by (auto simp: store_bytes_def valid_def split: if_splits)
next
  case (6 m a bs m')
  then show ?case
    by (auto simp: store_bytes_def load_bytes_def valid_def split: if_splits intro!: nth_equalityI)
next
  case (7 m a bs m' b n)
  then show ?case
    by (auto simp: store_bytes_def load_bytes_def valid_def disjoint_ranges_def split: if_splits)
qed (auto simp: load_bytes_def store_bytes_def split: if_splits)

lemmas load_bytes_length = mem_store.ld_length

lemma load_bytes_0 [simp]: "load_bytes m a 0 = Some []"
  by (simp add: load_bytes_def valid_def)

lemma store_bytes_Nil [simp]: "store_bytes m a [] = Some m"
proof -
  have "(\<lambda>x. if a \<le> x \<and> x < a then [] ! nat (x - a) else mbytes m x) = mbytes m"
    by (rule ext) auto
  then show ?thesis by (simp add: store_bytes_def valid_def)
qed

lemma valid_0 [simp]: "valid m a 0"
  by (simp add: valid_def)

lemma valid_sub: "valid m a n \<Longrightarrow> a \<le> b \<Longrightarrow> b + int k \<le> a + int n \<Longrightarrow> valid m b k"
proof (cases "k = 0")
  case False
  assume *: "valid m a n" "a \<le> b" "b + int k \<le> a + int n"
  with False have "n \<noteq> 0" by auto
  with * obtain c sz where "(c, sz) \<in> set (mblocks m)" "c \<le> a" "a + int n \<le> c + sz"
    by (auto simp: valid_def list_ex_iff)
  with * have "\<exists>(c, sz) \<in> set (mblocks m). c \<le> b \<and> b + int k \<le> c + sz"
    by (intro bexI [of _ "(c, sz)"]) auto
  then show ?thesis by (simp add: valid_def list_ex_iff)
qed simp

lemma store_bytes_frame: "store_bytes m a bs = Some m' \<Longrightarrow>
    mblocks m' = mblocks m \<and> mnext m' = mnext m \<and> mgrants m' = mgrants m"
  by (auto simp: store_bytes_def split: if_splits)

lemma store_bytes_mem_ok: "store_bytes m a bs = Some m' \<Longrightarrow> mem_ok m' = mem_ok m"
  by (auto simp: store_bytes_def mem_ok_def in_use_def split: if_splits)

end
