(* ===== verification/Leb128.thy ===== *)
theory Leb128
  imports Pb_Prelude
begin

text \<open>
  The base-128 encoding of integers, written directly: seven bits per byte, least
  significant group first, the top bit set on every byte but the last. It is the
  reference for the varint routines of nanopb (\<open>pb_encode.c\<close>, \<open>pb_decode.c\<close>) and of
  leveldb (\<open>util/coding.cc\<close>).
\<close>

function leb128 :: "u64 \<Rightarrow> byte list" where
  "leb128 v = (if drop_bit 7 v = 0 then [ucast (v AND 0x7F)]
     else (ucast (v AND 0x7F) OR 0x80) # leb128 (drop_bit 7 v))"
  by pat_completeness auto
termination
proof (relation "measure unat", goal_cases)
  case (2 v)
  then have "unat (v div 128) \<noteq> 0" by (simp add: drop_bit_eq_div unat_eq_zero)
  then show ?case by (simp add: drop_bit_eq_div unat_div)
qed simp

declare leb128.simps [simp del]

lemma drop_bit_7_unat: "unat (drop_bit 7 (v :: u64)) = unat v div 128"
  by (simp add: drop_bit_eq_div unat_div)

lemma drop_bit_7_eq_0: "drop_bit 7 (v :: u64) = 0 \<longleftrightarrow> v \<le> 0x7F"
proof -
  have "drop_bit 7 v = 0 \<longleftrightarrow> unat v div 128 = 0"
    by (metis drop_bit_7_unat unat_eq_zero)
  also have "\<dots> \<longleftrightarrow> v \<le> 0x7F"
    by (auto simp: word_le_nat_alt)
  finally show ?thesis .
qed

section \<open>Lengths\<close>

lemma length_leb128: "unat v < 128 ^ k \<Longrightarrow> 0 < k \<Longrightarrow> length (leb128 v) \<le> k"
proof (induction k arbitrary: v)
  case (Suc k)
  show ?case
  proof (cases "drop_bit 7 v = 0")
    case False
    then have nz: "unat v div 128 \<noteq> 0" by (metis drop_bit_7_unat unat_eq_zero)
    with Suc.prems have "0 < k" by (cases k) auto
    moreover have "unat v div 128 < 128 ^ k"
      using Suc.prems by (simp add: div_less_iff_less_mult mult.commute)
    ultimately show ?thesis
      using Suc.IH [of "drop_bit 7 v"] False by (simp add: leb128.simps [of v] drop_bit_7_unat)
  qed (simp add: leb128.simps [of v])
qed simp

lemma length_leb128_ge: "128 ^ k \<le> unat v \<Longrightarrow> k < length (leb128 v)"
proof (induction k arbitrary: v)
  case 0
  then show ?case by (simp add: leb128.simps [of v])
next
  case (Suc k)
  then have "128 ^ k \<le> unat v div 128"
    by (simp add: less_eq_div_iff_mult_less_eq mult.commute)
  then have "k < length (leb128 (drop_bit 7 v))" and "unat v div 128 \<noteq> 0"
    using Suc.IH [of "drop_bit 7 v"] order_less_le_trans [of 0 "128 ^ k" "unat v div 128"]
    by (simp_all add: drop_bit_7_unat)
  moreover from this(2) have "drop_bit 7 v \<noteq> 0" by (metis drop_bit_7_unat unat_0)
  ultimately show ?case by (simp add: leb128.simps [of v])
qed

lemma length_leb128_bound: "length (leb128 v) \<le> 10" "leb128 v \<noteq> []"
  using length_leb128 [of v 10] unat_lt [of v] by (auto simp: leb128.simps [of v])

section \<open>Bytes of an encoding\<close>

lemma leb_byte:
  "ucast ((ucast (v AND 0x7F) OR 0x80 :: byte) AND 0x7F) = ((v :: u64) AND 0x7F)"
  "ucast ((ucast (v AND 0x7F) :: byte) AND 0x7F) = ((v :: u64) AND 0x7F)"
  unfolding and_0x7F by (rule bit_word_eqI; auto simp: bit_simps bit_0x80)+

lemma leb_top:
  "(ucast ((v :: u64) AND 0x7F) OR 0x80 :: byte) AND 0x80 \<noteq> 0"
  "(ucast ((v :: u64) AND 0x7F) :: byte) AND 0x80 = 0"
  unfolding and_0x80 and_0x7F by (auto simp: bit_simps bit_0x80)

lemma push_bit_join:
  "push_bit k (v AND 0x7F) OR push_bit (k + 7) (drop_bit 7 v) = push_bit k (v :: 'a::len word)"
proof (rule bit_word_eqI)
  fix n
  show "bit (push_bit k (v AND 0x7F) OR push_bit (k + 7) (drop_bit 7 v)) n = bit (push_bit k v) n"
  proof (cases "k + 7 \<le> n")
    case True
    then have "7 + (n - (k + 7)) = n - k" by simp
    with True show ?thesis unfolding and_0x7F by (auto simp: bit_simps)
  next
    case False
    then show ?thesis unfolding and_0x7F by (auto simp: bit_simps)
  qed
qed

end
