(* ===== verification/Pb_Ostream.thy ===== *)
theory Pb_Ostream
  imports Pb_Memory Pb_Types Leb128
begin

text \<open>
  Output streams and the encoders of single values: the stream part of \<open>pb_encode.c\<close> and
  its helper functions (\<open>pb_encode_varint\<close> to \<open>pb_encode_string\<close>). A write returns the
  C function's \<open>bool\<close> and the updated stream; the outer \<open>option\<close> is undefined behaviour,
  here a write past the end of the output object or a read past the end of the source.

  The locale \<open>emitter\<close> is the contract between these operations and the message encoder:
  an operation emits a byte string when it counts its length on a sizing stream, stores it
  in a buffer that has room, and otherwise fails with an error without leaving the buffer.
\<close>

type_synonym ores = "(bool \<times> pb_ostream_t) option"

section \<open>Stream implementation\<close>

definition buf_write :: "pb_ostream_t \<Rightarrow> byte list \<Rightarrow> ores" where
  "buf_write s bs = (let (dest, off) = os_state s in
     if off + length bs \<le> length dest
     then Some (True, s\<lparr>os_state := (overwrite dest off bs, off + length bs)\<rparr>) else None)"

definition pb_ostream_from_buffer :: "byte list \<Rightarrow> size_t \<Rightarrow> pb_ostream_t" where
  "pb_ostream_from_buffer buf bufsize = \<lparr>os_callback = Buf_write, os_state = (buf, 0),
     os_max_size = bufsize, os_bytes_written = 0, os_errmsg = None\<rparr>"

text \<open>\<open>stream->callback(stream, buf, count)\<close>; \<open>buf\<close> is the source object from the pointer on.\<close>

definition ocall :: "pb_ostream_t \<Rightarrow> byte list option \<Rightarrow> nat \<Rightarrow> ores" where
  "ocall s buf count = (case buf of
     None \<Rightarrow> None
   | Some bs \<Rightarrow>
       if length bs < count then None
       else case os_callback s of
         Onull \<Rightarrow> None
       | Buf_write \<Rightarrow> buf_write s (take count bs)
       | Ocustom f \<Rightarrow> (let (ok, st) = f (os_state s) (take count bs) in Some (ok, s\<lparr>os_state := st\<rparr>)))"

definition os_sizing :: "pb_ostream_t \<Rightarrow> bool" where
  "os_sizing s = (case os_callback s of Onull \<Rightarrow> True | _ \<Rightarrow> False)"

definition pb_write :: "pb_ostream_t \<Rightarrow> byte list option \<Rightarrow> size_t \<Rightarrow> ores" where
  "pb_write s buf count = do {
     (ok, s) \<leftarrow>
       (if count > 0 \<and> \<not> os_sizing s then
          if os_bytes_written s + count < os_bytes_written s \<or>
             os_bytes_written s + count > os_max_size s
          then Some (False, os_set_error s ''stream full'')
          else do {
            (ok, s) \<leftarrow> ocall s buf (unat count);
            if \<not> ok then Some (False, os_set_error s ''io error'') else Some (True, s) }
        else Some (True, s));
     if ok then Some (True, s\<lparr>os_bytes_written := os_bytes_written s + count\<rparr>) else Some (False, s) }"

section \<open>Helper functions\<close>

text \<open>The \<open>while (value)\<close> loop of \<open>pb_encode_varint\<close>, and the bytes it leaves in \<open>buffer\<close>.\<close>

function varint_buffer :: "u64 \<Rightarrow> byte list" where
  "varint_buffer value = (if value = 0 then []
     else (ucast (value AND 0x7F) OR 0x80) # varint_buffer (drop_bit 7 value))"
  by pat_completeness auto
termination
proof (relation "measure unat", goal_cases)
  case (2 v)
  then have "unat v \<noteq> 0" by (simp add: unat_eq_zero)
  then show ?case by (simp add: drop_bit_eq_div unat_div)
qed simp

declare varint_buffer.simps [simp del]

definition varint_bytes :: "u64 \<Rightarrow> byte list" where
  "varint_bytes value = (if value \<le> 0x7F then [ucast value]
     else let buffer = varint_buffer value in
       butlast buffer @ [last buffer AND 0x7F])"

definition pb_encode_varint :: "pb_ostream_t \<Rightarrow> u64 \<Rightarrow> ores" where
  "pb_encode_varint s value =
     (if value \<le> 0x7F then pb_write s (Some [ucast value]) 1
      else let buffer = varint_buffer value;
               i = length buffer;
               buffer = buffer[i - 1 := (buffer ! (i - 1)) AND 0x7F] in
        pb_write s (Some buffer) (of_nat i))"

definition zigzag :: "u64 \<Rightarrow> u64" where
  "zigzag value = (if sint value < 0 then NOT (push_bit 1 value) else push_bit 1 value)"

definition pb_encode_svarint :: "pb_ostream_t \<Rightarrow> u64 \<Rightarrow> ores" where
  "pb_encode_svarint s value = pb_encode_varint s (zigzag value)"

definition pb_encode_fixed32 :: "mem \<Rightarrow> pb_ostream_t \<Rightarrow> addr \<Rightarrow> ores" where
  "pb_encode_fixed32 m s p = do {
     val \<leftarrow> load_u32 m p;
     pb_write s (Some [ucast (val AND 0xFF), ucast (drop_bit 8 val AND 0xFF),
       ucast (drop_bit 16 val AND 0xFF), ucast (drop_bit 24 val AND 0xFF)]) 4 }"

definition pb_encode_fixed64 :: "mem \<Rightarrow> pb_ostream_t \<Rightarrow> addr \<Rightarrow> ores" where
  "pb_encode_fixed64 m s p = do {
     val \<leftarrow> load_u64 m p;
     pb_write s (Some [ucast (val AND 0xFF), ucast (drop_bit 8 val AND 0xFF),
       ucast (drop_bit 16 val AND 0xFF), ucast (drop_bit 24 val AND 0xFF),
       ucast (drop_bit 32 val AND 0xFF), ucast (drop_bit 40 val AND 0xFF),
       ucast (drop_bit 48 val AND 0xFF), ucast (drop_bit 56 val AND 0xFF)]) 8 }"

definition pb_encode_tag :: "pb_ostream_t \<Rightarrow> pb_wire_type_t \<Rightarrow> u32 \<Rightarrow> ores" where
  "pb_encode_tag s wiretype field_number =
     pb_encode_varint s (push_bit 3 (ucast field_number) OR ucast wiretype)"

definition wire_type_of :: "pb_type_t \<Rightarrow> pb_wire_type_t option" where
  "wire_type_of type = (let lt = PB_LTYPE type in
     if lt = PB_LTYPE_BOOL \<or> lt = PB_LTYPE_VARINT \<or> lt = PB_LTYPE_UVARINT \<or> lt = PB_LTYPE_SVARINT
     then Some PB_WT_VARINT
     else if lt = PB_LTYPE_FIXED32 then Some PB_WT_32BIT
     else if lt = PB_LTYPE_FIXED64 then Some PB_WT_64BIT
     else if lt = PB_LTYPE_BYTES \<or> lt = PB_LTYPE_STRING \<or> lt = PB_LTYPE_SUBMESSAGE \<or>
       lt = PB_LTYPE_FIXED_LENGTH_BYTES
     then Some PB_WT_STRING
     else None)"

definition pb_encode_tag_for_field :: "pb_ostream_t \<Rightarrow> pb_field_t \<Rightarrow> ores" where
  "pb_encode_tag_for_field s field = (case wire_type_of (f_type field) of
     None \<Rightarrow> Some (False, os_set_error s ''invalid field type'')
   | Some wiretype \<Rightarrow> pb_encode_tag s wiretype (f_tag field))"

definition pb_encode_string :: "pb_ostream_t \<Rightarrow> byte list option \<Rightarrow> size_t \<Rightarrow> ores" where
  "pb_encode_string s buffer n = do {
     (ok, s) \<leftarrow> pb_encode_varint s n;
     if \<not> ok then Some (False, s) else pb_write s buffer n }"

section \<open>Well-formed output streams\<close>

definition room :: "pb_ostream_t \<Rightarrow> nat" where
  "room s = unat (os_max_size s) - unat (os_bytes_written s)"

text \<open>A stream that only counts, or one over a buffer with the promised room.\<close>

definition ostream_ok :: "pb_ostream_t \<Rightarrow> bool" where
  "ostream_ok s \<longleftrightarrow> os_errmsg s = None \<and> (case os_callback s of
     Onull \<Rightarrow> True
   | Buf_write \<Rightarrow> os_bytes_written s \<le> os_max_size s \<and> unat (os_max_size s) < 2 ^ 63 \<and>
       snd (os_state s) + room s \<le> length (fst (os_state s))
   | Ocustom f \<Rightarrow> False)"

definition put_state :: "pb_ostream_t \<Rightarrow> byte list \<Rightarrow> obuf" where
  "put_state s bs = (if os_sizing s then os_state s else
     (overwrite (fst (os_state s)) (snd (os_state s)) bs, snd (os_state s) + length bs))"

definition put :: "byte list \<Rightarrow> pb_ostream_t \<Rightarrow> pb_ostream_t" where
  "put bs s = s\<lparr>os_state := put_state s bs, os_bytes_written := os_bytes_written s + of_nat (length bs)\<rparr>"

definition accepts :: "pb_ostream_t \<Rightarrow> byte list \<Rightarrow> bool" where
  "accepts s bs \<longleftrightarrow> os_sizing s \<or> length bs \<le> room s"

text \<open>A failed write: some bytes that fit may have been stored, an error is reported.\<close>

definition overflowed :: "pb_ostream_t \<Rightarrow> pb_ostream_t \<Rightarrow> bool" where
  "overflowed s t \<longleftrightarrow> os_callback t = os_callback s \<and> os_errmsg t \<noteq> None \<and>
     (\<exists>bs. length bs \<le> room s \<and> os_state t = put_state s bs)"

lemma sizing_ok [simp]: "ostream_ok PB_OSTREAM_SIZING"
  by (simp add: ostream_ok_def PB_OSTREAM_SIZING_def)

lemma from_buffer_ok:
  "unat n \<le> length buf \<Longrightarrow> unat n < 2 ^ 63 \<Longrightarrow> ostream_ok (pb_ostream_from_buffer buf n)"
  by (simp add: ostream_ok_def pb_ostream_from_buffer_def room_def)

lemma put_Nil [simp]: "put [] s = s"
  by (simp add: put_def put_state_def)

lemma os_sizing_put [simp]: "os_sizing (put bs s) = os_sizing s"
  by (simp add: os_sizing_def put_def)

lemma put_simps [simp]:
  "os_callback (put bs s) = os_callback s" "os_errmsg (put bs s) = os_errmsg s"
  "os_max_size (put bs s) = os_max_size s" "os_state (put bs s) = put_state s bs"
  by (simp_all add: put_def)

lemma accepts_append: "accepts s (as @ bs) \<Longrightarrow> accepts s as"
  by (auto simp: accepts_def)

lemma room_put:
  assumes "ostream_ok s" and "\<not> os_sizing s" and "length bs \<le> room s"
  shows "room (put bs s) = room s - length bs" and "os_bytes_written (put bs s) \<le> os_max_size s"
proof -
  have w: "os_bytes_written s \<le> os_max_size s"
    using assms by (auto simp: ostream_ok_def os_sizing_def split: ocallback.splits)
  have l: "length bs < 2 ^ 64"
    using assms(3) unat_lt [of "os_max_size s"] by (simp add: room_def)
  have "unat (os_bytes_written s) + length bs \<le> unat (os_max_size s)"
    using w assms(3) by (simp add: room_def word_le_nat_alt)
  moreover from this have "unat (os_bytes_written s + of_nat (length bs)) = unat (os_bytes_written s) + length bs"
    using l unat_lt [of "os_max_size s"] by (subst unat_add_small) (auto simp: unat_of_nat_small)
  ultimately show "room (put bs s) = room s - length bs" "os_bytes_written (put bs s) \<le> os_max_size s"
    by (auto simp: room_def put_def word_le_nat_alt)
qed

lemma put_ok: "ostream_ok s \<Longrightarrow> accepts s bs \<Longrightarrow> ostream_ok (put bs s)"
  using room_put [of s bs]
  by (auto simp: ostream_ok_def accepts_def os_sizing_def put_state_def split: ocallback.splits)

lemma put_put:
  assumes "ostream_ok s" and "accepts s (as @ bs)"
  shows "put bs (put as s) = put (as @ bs) s"
proof -
  obtain dest off where st: "os_state s = (dest, off)" by (cases "os_state s")
  show ?thesis
    using assms
    by (cases "os_callback s") (auto simp: put_def put_state_def os_sizing_def ostream_ok_def accepts_def
        overwrite_overwrite st add.assoc)
qed

lemma accepts_put:
  assumes "ostream_ok s" and "accepts s as"
  shows "accepts (put as s) bs = accepts s (as @ bs)"
  using assms room_put [of s as] by (cases "os_sizing s") (auto simp: accepts_def)

lemma overflowed_put:
  assumes "ostream_ok s" and "accepts s as" and "overflowed (put as s) t"
  shows "overflowed s t"
proof -
  obtain bs where t: "length bs \<le> room (put as s)" "os_state t = put_state (put as s) bs"
    "os_callback t = os_callback s" "os_errmsg t \<noteq> None"
    using assms(3) by (auto simp: overflowed_def)
  show ?thesis
  proof (cases "os_sizing s")
    case True
    with t show ?thesis by (auto simp: overflowed_def put_state_def intro!: exI [of _ "[]"])
  next
    case False
    then have l: "length as \<le> room s" using assms(2) by (simp add: accepts_def)
    with t room_put(1) [OF assms(1) False l] have lr: "length (as @ bs) \<le> room s" by simp
    then have "accepts s (as @ bs)" by (simp add: accepts_def)
    then have "put_state (put as s) bs = put_state s (as @ bs)"
      using put_put [OF assms(1)] by (metis put_simps(4))
    with t lr show ?thesis unfolding overflowed_def by metis
  qed
qed

lemma overflowed_error: "overflowed s (os_set_error s msg)"
proof -
  have "os_state s = put_state s []" by (simp add: put_state_def)
  then show ?thesis unfolding overflowed_def by (metis list.size(3) os_set_error_simps(1,2,5) zero_le)
qed

section \<open>The contract of an output operation\<close>

locale emitter =
  fixes w :: "pb_ostream_t \<Rightarrow> ores" and bs :: "byte list"
  assumes accepted: "ostream_ok s \<Longrightarrow> length bs < 2 ^ 63 \<Longrightarrow> accepts s bs \<Longrightarrow> w s = Some (True, put bs s)"
    and rejected: "ostream_ok s \<Longrightarrow> length bs < 2 ^ 63 \<Longrightarrow> \<not> accepts s bs \<Longrightarrow>
      \<exists>t. w s = Some (False, t) \<and> overflowed s t"
begin

lemma counts: "length bs < 2 ^ 63 \<Longrightarrow>
    w PB_OSTREAM_SIZING = Some (True, PB_OSTREAM_SIZING\<lparr>os_bytes_written := of_nat (length bs)\<rparr>)"
  using accepted [OF sizing_ok]
  by (simp add: accepts_def os_sizing_def PB_OSTREAM_SIZING_def put_def put_state_def)

lemma fills_buffer:
  assumes "length bs \<le> unat n" and "unat n \<le> length buf" and "unat n < 2 ^ 63"
  shows "w (pb_ostream_from_buffer buf n) = Some (True, (pb_ostream_from_buffer buf n)
    \<lparr>os_state := (bs @ drop (length bs) buf, length bs), os_bytes_written := of_nat (length bs)\<rparr>)"
  using accepted [OF from_buffer_ok [OF assms(2,3)]] assms
  by (simp add: accepts_def os_sizing_def room_def pb_ostream_from_buffer_def put_def put_state_def overwrite_def)

lemma never_overruns:
  assumes "length bs < 2 ^ 63" and "unat n \<le> length buf" and "unat n < 2 ^ 63"
  obtains ok t where "w (pb_ostream_from_buffer buf n) = Some (ok, t)"
    "length (fst (os_state t)) = length buf" "drop (unat n) (fst (os_state t)) = drop (unat n) buf"
    "ok \<longleftrightarrow> length bs \<le> unat n"
proof (cases "length bs \<le> unat n")
  case True
  then show thesis
    using fills_buffer [OF True assms(2,3)] that assms by (simp add: pb_ostream_from_buffer_def)
next
  case False
  then have "\<not> accepts (pb_ostream_from_buffer buf n) bs"
    by (simp add: accepts_def os_sizing_def room_def pb_ostream_from_buffer_def)
  then obtain t xs where "w (pb_ostream_from_buffer buf n) = Some (False, t)" "length xs \<le> unat n"
    "os_state t = put_state (pb_ostream_from_buffer buf n) xs"
    using rejected [OF from_buffer_ok [OF assms(2,3)] assms(1)]
    by (auto simp: overflowed_def room_def pb_ostream_from_buffer_def)
  then show thesis
    using that [of False t] False assms
    by (simp add: put_state_def os_sizing_def pb_ostream_from_buffer_def drop_overwrite)
qed

end

definition os_then :: "(pb_ostream_t \<Rightarrow> ores) \<Rightarrow> (pb_ostream_t \<Rightarrow> ores) \<Rightarrow> pb_ostream_t \<Rightarrow> ores" where
  "os_then f g s = do { (ok, s) \<leftarrow> f s; if \<not> ok then Some (False, s) else g s }"

lemma emitter_then:
  assumes "emitter f as" and "emitter g bs"
  shows "emitter (os_then f g) (as @ bs)"
proof
  fix s assume ok: "ostream_ok s" and len: "length (as @ bs) < 2 ^ 63"
  {
    assume acc: "accepts s as"
    have "f s = Some (True, put as s)"
      using emitter.accepted [OF assms(1) ok _ acc] len by simp
    moreover have "ostream_ok (put as s)" using ok acc by (rule put_ok)
    moreover have "accepts (put as s) bs = accepts s (as @ bs)" using ok acc by (rule accepts_put)
    ultimately have "accepts s (as @ bs) \<Longrightarrow> os_then f g s = Some (True, put (as @ bs) s)"
      and "\<not> accepts s (as @ bs) \<Longrightarrow> \<exists>t. os_then f g s = Some (False, t) \<and> overflowed s t"
      using emitter.accepted [OF assms(2), of "put as s"] emitter.rejected [OF assms(2), of "put as s"]
        len put_put [OF ok] overflowed_put [OF ok acc]
      by (auto simp: os_then_def)
  } note first_fits = this
  show "accepts s (as @ bs) \<Longrightarrow> os_then f g s = Some (True, put (as @ bs) s)"
    using first_fits accepts_append by blast
  show "\<not> accepts s (as @ bs) \<Longrightarrow> \<exists>t. os_then f g s = Some (False, t) \<and> overflowed s t"
  proof (cases "accepts s as")
    case False
    then show ?thesis
      using emitter.rejected [OF assms(1) ok _ False] len by (auto simp: os_then_def)
  qed (use first_fits in blast)
qed

lemma emitter_nothing: "emitter (\<lambda>s. Some (True, s)) []"
  by unfold_locales (auto simp: accepts_def)

section \<open>The helper functions are emitters\<close>

lemma pb_write_sizing: "os_sizing s \<Longrightarrow>
    pb_write s buf n = Some (True, s\<lparr>os_bytes_written := os_bytes_written s + n\<rparr>)"
  by (simp add: pb_write_def)

lemma pb_write_emitter:
  assumes "unat n \<le> length src"
  shows "emitter (\<lambda>s. pb_write s (Some src) n) (take (unat n) src)"
proof
  fix s assume ok: "ostream_ok s" and len: "length (take (unat n) src) < 2 ^ 63"
  have l: "length (take (unat n) src) = unat n" using assms by simp
  have mn: "min (length src) (unat n) = unat n" using assms by simp
  have acc: "accepts s (take (unat n) src) = (os_sizing s \<or> unat n \<le> room s)"
    by (simp only: accepts_def l)
  have no_wrap: "unat (os_bytes_written s + n) = unat (os_bytes_written s) + unat n" if "\<not> os_sizing s"
    using ok len that unfolding l
    by (intro unat_add_small) (auto simp: ostream_ok_def os_sizing_def word_le_nat_alt split: ocallback.splits)
  have full: "(os_bytes_written s + n > os_max_size s) = (\<not> accepts s (take (unat n) src))"
    "\<not> os_bytes_written s + n < os_bytes_written s" if "\<not> os_sizing s"
    using no_wrap [OF that] ok that
    by (auto simp: acc room_def word_less_nat_alt word_le_nat_alt ostream_ok_def os_sizing_def
        split: ocallback.splits)
  have call: "ocall s (Some src) (unat n) =
      Some (True, s\<lparr>os_state := put_state s (take (unat n) src)\<rparr>)"
    if "\<not> os_sizing s" "accepts s (take (unat n) src)"
    using ok that assms
    by (cases "os_state s") (auto simp: ocall_def buf_write_def ostream_ok_def os_sizing_def accepts_def
        put_state_def split: ocallback.splits)
  show "accepts s (take (unat n) src) \<Longrightarrow> pb_write s (Some src) n = Some (True, put (take (unat n) src) s)"
    using full call
    by (cases "os_sizing s"; cases "n = 0")
      (auto simp: pb_write_def put_def put_state_def mn word_gt_0)
  show "\<not> accepts s (take (unat n) src) \<Longrightarrow> \<exists>t. pb_write s (Some src) n = Some (False, t) \<and> overflowed s t"
    using full
    by (cases "os_sizing s"; cases "n = 0")
      (auto simp: pb_write_def overflowed_error accepts_def word_gt_0)
qed

lemma pb_write_all_emitter:
  "length bs < 2 ^ 64 \<Longrightarrow> emitter (\<lambda>s. pb_write s (Some bs) (of_nat (length bs))) bs"
  using pb_write_emitter [of "of_nat (length bs)" bs] by (simp add: unat_of_nat_small)

section \<open>Varints against their definition\<close>

lemma clear_top_bit: "((ucast (v AND 0x7F) OR 0x80) AND 0x7F :: byte) = ucast ((v :: u64) AND 0x7F)"
  unfolding and_0x7F by (rule bit_word_eqI) (auto simp: bit_simps bit_0x80)

lemma varint_buffer_leb128:
  "v \<noteq> 0 \<Longrightarrow> varint_buffer v \<noteq> [] \<and>
     butlast (varint_buffer v) @ [last (varint_buffer v) AND 0x7F] = leb128 v"
proof (induction v rule: varint_buffer.induct)
  case (1 v)
  have unfold: "varint_buffer v = (ucast (v AND 0x7F) OR 0x80) # varint_buffer (drop_bit 7 v)"
    using 1(2) by (simp add: varint_buffer.simps [of v])
  show ?case
  proof (cases "drop_bit 7 v = 0")
    case True
    then show ?thesis
      by (simp add: unfold varint_buffer.simps [of 0] leb128.simps [of v] clear_top_bit)
  next
    case False
    then show ?thesis using 1 by (auto simp: unfold leb128.simps [of v])
  qed
qed

lemma varint_bytes_leb128: "varint_bytes v = leb128 v"
proof (cases "v \<le> 0x7F")
  case True
  then have "drop_bit 7 v = 0" by (simp add: drop_bit_7_eq_0)
  then have "v AND 0x7F = v"
    unfolding and_0x7F using bits_ident [of 7 v] by simp
  with True \<open>drop_bit 7 v = 0\<close> show ?thesis
    by (simp add: varint_bytes_def leb128.simps [of v])
next
  case False
  then have "v \<noteq> 0" by auto
  with False show ?thesis
    using varint_buffer_leb128 [of v] by (simp add: varint_bytes_def Let_def)
qed

lemma length_varint_buffer: "v \<noteq> 0 \<Longrightarrow> length (varint_buffer v) = length (leb128 v)"
proof -
  assume "v \<noteq> 0"
  then have "varint_buffer v \<noteq> []" "leb128 v = butlast (varint_buffer v) @ [last (varint_buffer v) AND 0x7F]"
    using varint_buffer_leb128 [of v] by simp_all
  then show ?thesis by simp
qed

lemma pb_encode_varint_write:
  "pb_encode_varint s v = pb_write s (Some (leb128 v)) (of_nat (length (leb128 v)))"
proof (cases "v \<le> 0x7F")
  case True
  then have "leb128 v = [ucast v]"
    using varint_bytes_leb128 [of v] by (simp add: varint_bytes_def)
  with True show ?thesis
    by (simp add: pb_encode_varint_def)
next
  case False
  then have nz: "v \<noteq> 0" by auto
  let ?b = "varint_buffer v"
  have "?b[length ?b - 1 := (?b ! (length ?b - 1)) AND 0x7F] = butlast ?b @ [last ?b AND 0x7F]"
    using varint_buffer_leb128 [OF nz]
    by (cases ?b rule: rev_cases) (simp_all add: list_update_append)
  then show ?thesis
    using False varint_buffer_leb128 [OF nz] length_varint_buffer [OF nz]
    by (simp add: pb_encode_varint_def Let_def)
qed

section \<open>What the helper functions emit\<close>

definition tag_bytes :: "pb_wire_type_t \<Rightarrow> u32 \<Rightarrow> byte list" where
  "tag_bytes wt n = leb128 (push_bit 3 (ucast n) OR ucast wt)"

interpretation enc_varint: emitter "\<lambda>s. pb_encode_varint s v" "leb128 v" for v
  unfolding pb_encode_varint_write
  using length_leb128_bound(1) [of v] by (intro pb_write_all_emitter) simp

interpretation enc_svarint: emitter "\<lambda>s. pb_encode_svarint s v" "leb128 (zigzag v)" for v
  unfolding pb_encode_svarint_def by (rule enc_varint.emitter_axioms)

interpretation enc_tag: emitter "\<lambda>s. pb_encode_tag s wt n" "tag_bytes wt n" for wt n
  unfolding pb_encode_tag_def tag_bytes_def by (rule enc_varint.emitter_axioms)

lemma le_bytes_4: "le_bytes 4 (v :: u32) = [ucast (v AND 0xFF), ucast (drop_bit 8 v AND 0xFF),
    ucast (drop_bit 16 v AND 0xFF), ucast (drop_bit 24 v AND 0xFF)]"
  by (auto simp: numeral_eq_Suc ucast_and_0xFF)

lemma le_bytes_8: "le_bytes 8 (v :: u64) = [ucast (v AND 0xFF), ucast (drop_bit 8 v AND 0xFF),
    ucast (drop_bit 16 v AND 0xFF), ucast (drop_bit 24 v AND 0xFF), ucast (drop_bit 32 v AND 0xFF),
    ucast (drop_bit 40 v AND 0xFF), ucast (drop_bit 48 v AND 0xFF), ucast (drop_bit 56 v AND 0xFF)]"
  by (auto simp: numeral_eq_Suc ucast_and_0xFF)

lemma pb_encode_fixed32_emitter:
  "load_u32 m p = Some v \<Longrightarrow> emitter (\<lambda>s. pb_encode_fixed32 m s p) (le_bytes 4 v)"
  using pb_write_all_emitter [of "le_bytes 4 v"] by (simp add: pb_encode_fixed32_def le_bytes_4)

lemma pb_encode_fixed64_emitter:
  "load_u64 m p = Some v \<Longrightarrow> emitter (\<lambda>s. pb_encode_fixed64 m s p) (le_bytes 8 v)"
  using pb_write_all_emitter [of "le_bytes 8 v"] by (simp add: pb_encode_fixed64_def le_bytes_8)

lemma pb_encode_tag_for_field_emitter:
  "wire_type_of (f_type f) = Some wt \<Longrightarrow>
   emitter (\<lambda>s. pb_encode_tag_for_field s f) (tag_bytes wt (f_tag f))"
  unfolding pb_encode_tag_for_field_def by (simp add: enc_tag.emitter_axioms)

lemma pb_encode_string_emitter:
  assumes "unat n \<le> length src"
  shows "emitter (\<lambda>s. pb_encode_string s (Some src) n) (leb128 n @ take (unat n) src)"
  using emitter_then [OF enc_varint.emitter_axioms [of n] pb_write_emitter [OF assms]]
  by (simp add: pb_encode_string_def [abs_def] os_then_def [abs_def])

lemma pb_encode_empty_string_emitter: "emitter (\<lambda>s. pb_encode_string s None 0) (leb128 0)"
proof -
  have null: "pb_write s None 0 = Some (True, s)" for s
    by (simp add: pb_write_def)
  show ?thesis
    using emitter_then [OF enc_varint.emitter_axioms [of 0] emitter_nothing]
    by (simp add: pb_encode_string_def [abs_def] os_then_def [abs_def] null cong: if_cong)
qed

end
