(* ===== verification/Pb_Wire.thy ===== *)
theory Pb_Wire
  imports Pb_Varint Pb_Ostream
begin

text \<open>
  The wire format: what the value decoders of \<open>pb_decode.c\<close> make of the bytes that the
  value encoders of \<open>pb_encode.c\<close> emit. A buffer stream that holds a byte string in front
  (\<open>has_prefix\<close>) is moved past it (\<open>advance\<close>), and the decoded value is the encoded one.
\<close>

section \<open>Streams with a known prefix\<close>

definition has_prefix :: "pb_istream_t \<Rightarrow> byte list \<Rightarrow> bool" where
  "has_prefix s bs \<longleftrightarrow> is_callback s = Buf_read \<and> istream_ok s \<and>
     length bs \<le> unat (is_bytes_left s) \<and> take (length bs) (is_state s) = bs"

definition advance :: "nat \<Rightarrow> pb_istream_t \<Rightarrow> pb_istream_t" where
  "advance n s = s\<lparr>is_state := drop n (is_state s), is_bytes_left := is_bytes_left s - of_nat n\<rparr>"

lemma advance_0 [simp]: "advance 0 s = s"
  by (simp add: advance_def)

lemma advance_advance [simp]: "advance m (advance n s) = advance (n + m) s"
  by (simp add: advance_def add.commute)

lemma advance_simps [simp]:
  "is_callback (advance n s) = is_callback s" "is_errmsg (advance n s) = is_errmsg s"
  "is_state (advance n s) = drop n (is_state s)"
  by (simp_all add: advance_def)

lemma advance_left:
  "n \<le> unat (is_bytes_left s) \<Longrightarrow> unat (is_bytes_left (advance n s)) = unat (is_bytes_left s) - n"
proof -
  assume n: "n \<le> unat (is_bytes_left s)"
  then have u: "unat (of_nat n :: size_t) = n"
    using unat_lt [of "is_bytes_left s"] by (intro unat_of_nat_small) simp
  then have "(of_nat n :: size_t) \<le> is_bytes_left s" using n by (simp add: word_le_nat_alt)
  then show ?thesis by (simp add: advance_def word_sub_le_unat u)
qed

lemma has_prefix_append:
  "has_prefix s (as @ bs) \<longleftrightarrow> has_prefix s as \<and> has_prefix (advance (length as) s) bs"
proof -
  have "take (length as + length bs) xs = as @ bs \<longleftrightarrow>
      take (length as) xs = as \<and> take (length bs) (drop (length as) xs) = bs"
    if "length as + length bs \<le> length xs" for xs :: "byte list"
    using that by (auto simp: take_add append_eq_append_conv)
  then show ?thesis
    by (auto simp: has_prefix_def istream_ok_def advance_left)
qed

lemma has_prefix_Cons: "has_prefix s (b # bs) \<longleftrightarrow> has_prefix s [b] \<and> has_prefix (advance 1 s) bs"
  using has_prefix_append [of s "[b]" bs] by simp

lemma has_prefix_from_buffer:
  "length bs < 2 ^ 64 \<Longrightarrow> has_prefix (pb_istream_from_buffer (bs @ rest) (of_nat (length bs))) bs"
  by (simp add: has_prefix_def pb_istream_from_buffer_def istream_ok_def unat_of_nat_small)

lemma readbyte_prefix: "has_prefix s [b] \<Longrightarrow> pb_readbyte s = Some (Some b, advance 1 s)"
proof -
  assume p: "has_prefix s [b]"
  then have "is_bytes_left s \<noteq> 0" by (auto simp: has_prefix_def)
  moreover from p have "is_state s \<noteq> []" "hd (take 1 (is_state s)) = b"
    by (auto simp: has_prefix_def)
  ultimately show ?thesis
    using p by (cases "is_state s")
      (auto simp: pb_readbyte_def icall_def buf_read_def has_prefix_def advance_def)
qed

lemma read_prefix:
  "has_prefix s bs \<Longrightarrow> length bs = unat n \<Longrightarrow> pb_read s False n = Some (Some bs, advance (length bs) s)"
proof -
  assume p: "has_prefix s bs" and n: "length bs = unat n"
  then have "\<not> is_bytes_left s < n" "unat n \<le> length (is_state s)"
    by (auto simp: has_prefix_def word_less_nat_alt istream_ok_def)
  then show ?thesis
    using p n by (auto simp: pb_read_nonnull pb_read_checked_def icall_def buf_read_def has_prefix_def
        advance_def unat_eq_zero [symmetric])
qed

lemma skip_prefix:
  "has_prefix s bs \<Longrightarrow> length bs = unat n \<Longrightarrow>
   \<exists>r. pb_read s True n = Some (Some r, advance (length bs) s)"
proof -
  assume p: "has_prefix s bs" and n: "length bs = unat n"
  then have "\<not> is_bytes_left s < n" "unat n \<le> length (is_state s)"
    by (auto simp: has_prefix_def word_less_nat_alt istream_ok_def)
  then show ?thesis
    using p n by (auto simp: pb_read_def pb_read_checked_def icall_def buf_read_def has_prefix_def
        advance_def unat_eq_zero [symmetric])
qed

section \<open>Varints\<close>

lemma varint64_loop_step:
  assumes "has_prefix s [b]" and "k < 64"
  shows "varint64_loop s (of_nat k) r = (if b AND 0x80 \<noteq> 0
    then varint64_loop (advance 1 s) (of_nat (k + 7)) (r OR push_bit k (ucast (b AND 0x7F)))
    else Some (Some (r OR push_bit k (ucast (b AND 0x7F))), advance 1 s))"
proof -
  have k: "\<not> 64 \<le> (of_nat k :: byte)" "unat (of_nat k :: byte) = k"
    using assms(2) by (auto simp: word_le_nat_alt unat_of_nat_small)
  show ?thesis
    by (subst varint64_loop.simps) (simp add: readbyte_prefix [OF assms(1)] k Let_def)
qed

lemma drop_bit_7_small:
  assumes "drop_bit 7 v \<noteq> 0" and "unat (v :: u64) < 2 ^ n"
  shows "7 < n" and "unat (drop_bit 7 v) < 2 ^ (n - 7)"
proof -
  have "unat v div 128 \<noteq> 0" using assms(1) by (metis drop_bit_7_unat unat_eq_zero)
  then have big: "2 ^ 7 \<le> unat v" by auto
  from big assms(2) have "(2 :: nat) ^ 7 < 2 ^ n" by (rule le_less_trans)
  then show n: "7 < n" by (rule power_less_imp_less_exp [rotated]) simp
  then have "(2 :: nat) ^ n = 2 ^ (n - 7) * 128"
    using power_add [of "2 :: nat" "n - 7" 7] by simp
  with assms(2) show "unat (drop_bit 7 v) < 2 ^ (n - 7)"
    unfolding drop_bit_7_unat by (simp add: div_less_iff_less_mult)
qed

lemma varint64_loop_leb128:
  assumes "has_prefix s (leb128 v)" and "k < 64" and "unat v < 2 ^ (64 - k)"
  shows "varint64_loop s (of_nat k) r = Some (Some (r OR push_bit k v), advance (length (leb128 v)) s)"
  using assms
proof (induction v arbitrary: s k r rule: leb128.induct)
  case (1 v)
  show ?case
  proof (cases "drop_bit 7 v = 0")
    case True
    then have v1: "leb128 v = [ucast (v AND 0x7F)]" by (subst leb128.simps) simp
    have v2: "push_bit k (v AND 0x7F) = push_bit k v"
      using push_bit_join [of k v] unfolding True by simp
    from 1(2) have "has_prefix s [ucast (v AND 0x7F)]" by (simp only: v1)
    from varint64_loop_step [OF this 1(3)] show ?thesis
      unfolding leb_byte leb_top v1 v2 by simp
  next
    case False
    then have v: "leb128 v = (ucast (v AND 0x7F) OR 0x80) # leb128 (drop_bit 7 v)"
      by (simp add: leb128.simps [of v])
    have k7: "k + 7 < 64" and small: "unat (drop_bit 7 v) < 2 ^ (64 - (k + 7))"
      using drop_bit_7_small [OF False 1(4)] by simp_all
    have pre: "has_prefix s [ucast (v AND 0x7F) OR 0x80]" "has_prefix (advance 1 s) (leb128 (drop_bit 7 v))"
      using 1(2) has_prefix_Cons [of s _ "leb128 (drop_bit 7 v)"] unfolding v by blast+
    show ?thesis
      unfolding varint64_loop_step [OF pre(1) 1(3)] leb_byte 1(1) [OF False pre(2) k7 small] v
        or.assoc push_bit_join
      using leb_top(1) [of v] by simp
  qed
qed

lemma pb_decode_varint_leb128:
  "has_prefix s (leb128 v) \<Longrightarrow> pb_decode_varint s = Some (Some v, advance (length (leb128 v)) s)"
  using varint64_loop_leb128 [of s v 0 0] unat_lt [of v] by (simp add: pb_decode_varint_def)

lemma ucast_push: "push_bit k (ucast b) = (ucast (push_bit k (ucast (b :: byte) :: u64)) :: u32)"
  by (rule bit_word_eqI) (auto simp: bit_simps)

lemma ucast_or: "ucast (a OR b) = (ucast (a :: u64) OR ucast b :: u32)"
  by (rule bit_word_eqI) (auto simp: bit_simps)

lemma ucast_up_down [simp]: "ucast (ucast (n :: u32) :: u64) = n"
  by (rule bit_word_eqI) (auto simp: bit_simps)

lemma varint32_loop_step:
  assumes "has_prefix s [b]" and "k < 32"
  shows "varint32_loop s (of_nat k) r =
    (let r' = r OR ucast (push_bit k (ucast (b AND 0x7F) :: u64)) in
     if b AND 0x80 \<noteq> 0 then varint32_loop (advance 1 s) (of_nat (k + 7)) r'
     else if k = 28 \<and> b AND 0x70 \<noteq> 0 then Some (None, is_set_error (advance 1 s) ''varint overflow'')
     else Some (Some r', advance 1 s))"
proof -
  have k: "\<not> 32 \<le> (of_nat k :: byte)" "unat (of_nat k :: byte) = k"
    using assms(2) by (auto simp: word_le_nat_alt unat_of_nat_small)
  have "(of_nat k + 7 :: byte) = of_nat (k + 7)" by simp
  moreover have "unat (of_nat (k + 7) :: byte) = k + 7"
    using assms(2) by (intro unat_of_nat_small) simp
  ultimately have "(of_nat k + 7 :: byte) = 35 \<longleftrightarrow> k = 28"
    by (auto simp: word_unat_eq_iff)
  then show ?thesis
    by (subst varint32_loop.simps) (simp add: readbyte_prefix [OF assms(1)] k Let_def ucast_push)
qed

lemma last_group_small:
  assumes "unat (v :: u64) < 16"
  shows "(ucast (v AND 0x7F) :: byte) AND 0x70 = 0"
proof -
  have "(0x70 :: byte) = push_bit 4 7" by simp
  then have high: "bit (0x70 :: byte) n \<Longrightarrow> 4 \<le> n" for n by (simp only: bit_push_bit_iff)
  have "n < 4" if "bit v n" for n using assms bit_small [of v 4 n] that by simp
  then show ?thesis
    unfolding and_0x7F using high by (intro bit_word_eqI) (fastforce simp: bit_simps simp del: bit_numeral_word_iff)
qed

lemma varint32_loop_leb128:
  assumes "has_prefix s (leb128 v)" and "k < 32" and "unat v < 2 ^ (32 - k)"
  shows "varint32_loop s (of_nat k) r =
    Some (Some (r OR ucast (push_bit k v)), advance (length (leb128 v)) s)"
  using assms
proof (induction v arbitrary: s k r rule: leb128.induct)
  case (1 v)
  show ?case
  proof (cases "drop_bit 7 v = 0")
    case True
    then have v1: "leb128 v = [ucast (v AND 0x7F)]" by (subst leb128.simps) simp
    have v2: "push_bit k (v AND 0x7F) = push_bit k v"
      using push_bit_join [of k v] unfolding True by simp
    from 1(2) have "has_prefix s [ucast (v AND 0x7F)]" by (simp only: v1)
    moreover have "\<not> (k = 28 \<and> (ucast (v AND 0x7F) :: byte) AND 0x70 \<noteq> 0)"
      using last_group_small [of v] 1(4) by auto
    ultimately show ?thesis
      using varint32_loop_step [OF _ 1(3), of s "ucast (v AND 0x7F)" r]
      unfolding leb_byte leb_top v1 v2 Let_def by simp
  next
    case False
    then have v: "leb128 v = (ucast (v AND 0x7F) OR 0x80) # leb128 (drop_bit 7 v)"
      by (simp add: leb128.simps [of v])
    have k7: "k + 7 < 32" and small: "unat (drop_bit 7 v) < 2 ^ (32 - (k + 7))"
      using drop_bit_7_small [OF False 1(4)] by simp_all
    have pre: "has_prefix s [ucast (v AND 0x7F) OR 0x80]" "has_prefix (advance 1 s) (leb128 (drop_bit 7 v))"
      using 1(2) has_prefix_Cons [of s _ "leb128 (drop_bit 7 v)"] unfolding v by blast+
    show ?thesis
      unfolding varint32_loop_step [OF pre(1) 1(3)] leb_byte Let_def 1(1) [OF False pre(2) k7 small] v
        or.assoc ucast_or [symmetric] push_bit_join
      using leb_top(1) [of v] by simp
  qed
qed

lemma pb_decode_varint32_eof_leb128:
  assumes "has_prefix s (leb128 v)" and "unat v < 2 ^ 32"
  shows "pb_decode_varint32_eof s = Some (Some (ucast v), False, advance (length (leb128 v)) s)"
proof (cases "drop_bit 7 v = 0")
  case True
  then have v1: "leb128 v = [ucast (v AND 0x7F)]" by (subst leb128.simps) simp
  have v2: "v AND 0x7F = v" using push_bit_join [of 0 v] unfolding True by simp
  have "n < 7" if "bit v n" for n
    using v2 that unfolding and_0x7F by (metis bit_take_bit_iff)
  then have "ucast (ucast v :: byte) = (ucast v :: u32)"
    by (intro bit_word_eqI) (fastforce simp: bit_simps)
  with assms show ?thesis
    using readbyte_prefix [of s "ucast v"] leb_top(2) [of v]
    unfolding v1 v2 by (simp add: pb_decode_varint32_eof_def)
next
  case False
  then have v: "leb128 v = (ucast (v AND 0x7F) OR 0x80) # leb128 (drop_bit 7 v)"
    by (simp add: leb128.simps [of v])
  have pre: "has_prefix s [ucast (v AND 0x7F) OR 0x80]" "has_prefix (advance 1 s) (leb128 (drop_bit 7 v))"
    using assms(1) has_prefix_Cons [of s _ "leb128 (drop_bit 7 v)"] unfolding v by blast+
  have "(ucast ((ucast (v AND 0x7F) OR 0x80 :: byte) AND 0x7F) :: u32) = ucast (v AND 0x7F)"
    unfolding and_0x7F by (rule bit_word_eqI) (auto simp: bit_simps bit_0x80)
  moreover have "varint32_loop (advance 1 s) 7 r =
      Some (Some (r OR ucast (push_bit 7 (drop_bit 7 v))), advance (length (leb128 v)) s)" for r
    using varint32_loop_leb128 [OF pre(2), of 7 r] drop_bit_7_small [OF False assms(2)] by (simp add: v)
  ultimately show ?thesis
    using leb_top(1) [of v] push_bit_join [of 0 v]
    by (simp add: pb_decode_varint32_eof_def readbyte_prefix [OF pre(1)] flip: ucast_or)
qed

lemma pb_decode_varint32_leb128:
  "has_prefix s (leb128 (ucast n)) \<Longrightarrow>
   pb_decode_varint32 s = Some (Some n, advance (length (leb128 (ucast n))) s)"
proof -
  have "unat (ucast n :: u64) < 2 ^ 32" using unat_lt [of n] by (simp add: unsigned_ucast_eq take_bit_nat_eq_self)
  moreover assume "has_prefix s (leb128 (ucast n))"
  ultimately show ?thesis
    using pb_decode_varint32_eof_leb128 [of s "ucast n"] by (simp add: pb_decode_varint32_def)
qed

section \<open>Tags, signed and fixed-width values\<close>

lemma tag_word:
  assumes "unat n < 2 ^ 29" and "wt \<le> 7"
  shows "push_bit 3 (ucast n) OR ucast wt = (ucast (push_bit 3 n OR wt :: u32) :: u64)"
    and "(push_bit 3 n OR wt) AND 7 = (wt :: u32)" and "drop_bit 3 (push_bit 3 n OR wt) = (n :: u32)"
proof -
  have n: "i < 29" if "bit n i" for i using assms(1) that by (rule bit_small)
  have "unat wt < 2 ^ 3" using assms(2) by (simp add: word_le_nat_alt)
  then have wt: "i < 3" if "bit wt i" for i using that by (rule bit_small)
  show "push_bit 3 (ucast n) OR ucast wt = (ucast (push_bit 3 n OR wt :: u32) :: u64)"
    by (rule bit_word_eqI) (use n in \<open>fastforce simp: bit_simps\<close>)
  have "(7 :: u32) = mask 3" by (simp add: mask_eq_exp_minus_1)
  moreover have "(push_bit 3 n OR wt) AND mask 3 = (wt :: u32)"
    by (rule bit_word_eqI) (use wt in \<open>fastforce simp: bit_simps\<close>)
  ultimately show "(push_bit 3 n OR wt) AND 7 = (wt :: u32)" by simp
  show "drop_bit 3 (push_bit 3 n OR wt) = (n :: u32)"
    by (rule bit_word_eqI) (use n wt in \<open>fastforce simp: bit_simps\<close>)
qed

lemma pb_decode_tag_bytes:
  assumes "has_prefix s (tag_bytes wt n)" and "unat n < 2 ^ 29" and "n \<noteq> 0" and "wt \<le> 7"
  shows "pb_decode_tag s = Some (Some (wt, n), False, advance (length (tag_bytes wt n)) s)"
proof -
  let ?w = "push_bit 3 n OR wt"
  have tb: "tag_bytes wt n = leb128 (ucast ?w)"
    unfolding tag_bytes_def by (simp only: tag_word(1) [OF assms(2,4)])
  have "unat (ucast ?w :: u64) < 2 ^ 32"
    using unat_lt [of ?w] by (simp add: unsigned_ucast_eq take_bit_nat_eq_self)
  then have eof: "pb_decode_varint32_eof s = Some (Some ?w, False, advance (length (tag_bytes wt n)) s)"
    using pb_decode_varint32_eof_leb128 [of s "ucast ?w"] assms(1) by (simp add: tb)
  have "?w \<noteq> 0" using tag_word(3) [OF assms(2,4)] assms(3) by force
  then show ?thesis
    unfolding pb_decode_tag_def eof using tag_word(2,3) [OF assms(2,4)] by (simp del: drop_bit_or)
qed

lemma unzigzag: "(if zigzag v AND 1 \<noteq> 0 then NOT (drop_bit 1 (zigzag v)) else drop_bit 1 (zigzag v)) = v"
proof -
  have neg: "sint v < 0 \<longleftrightarrow> bit v 63" using bit_last_iff [of v] by simp
  have odd: "w AND 1 \<noteq> 0 \<longleftrightarrow> bit w 0" for w :: u64 by (simp add: and_one_eq odd_iff_mod_2_eq_one bit_0)
  have zz: "bit (zigzag v) n \<longleftrightarrow> n < 64 \<and> (0 < n \<and> bit v (n - 1)) \<noteq> bit v 63" for n
    unfolding zigzag_def neg
    by (cases "bit v 63") (auto simp only: if_True if_False bit_not_iff bit_push_bit_iff possible_bit_word len_num1, auto simp: bit_simps)
  show ?thesis
    unfolding odd
  proof (rule bit_word_eqI)
    fix n assume "n < LENGTH(64)"
    then have "n < 63 \<or> n = 63" by auto
    then show "bit (if bit (zigzag v) 0 then NOT (drop_bit 1 (zigzag v)) else drop_bit 1 (zigzag v)) n = bit v n"
      by (auto simp: zz bit_drop_bit_eq bit_not_iff)
  qed
qed

lemma pb_decode_svarint_leb128:
  "has_prefix s (leb128 (zigzag v)) \<Longrightarrow>
   pb_decode_svarint s = Some (Some v, advance (length (leb128 (zigzag v))) s)"
  using unzigzag [of v] by (simp add: pb_decode_svarint_def pb_decode_varint_leb128)

lemma fixed_word_4: "length xs = 4 \<Longrightarrow> push_bit 0 (ucast (xs ! 0)) OR push_bit 8 (ucast (xs ! 1)) OR
    push_bit 16 (ucast (xs ! 2)) OR push_bit 24 (ucast (xs ! 3)) = (le_word xs :: u32)"
proof -
  assume "length xs = 4"
  then obtain a b c d where "xs = [a, b, c, d]"
    by (auto simp: length_Suc_conv eval_nat_numeral)
  then show ?thesis by (simp add: push_bit_or push_bit_push_bit or.assoc)
qed

lemma fixed_word_8: "length xs = 8 \<Longrightarrow> push_bit 0 (ucast (xs ! 0)) OR push_bit 8 (ucast (xs ! 1)) OR
    push_bit 16 (ucast (xs ! 2)) OR push_bit 24 (ucast (xs ! 3)) OR push_bit 32 (ucast (xs ! 4)) OR
    push_bit 40 (ucast (xs ! 5)) OR push_bit 48 (ucast (xs ! 6)) OR push_bit 56 (ucast (xs ! 7)) = (le_word xs :: u64)"
proof -
  assume "length xs = 8"
  then obtain a b c d e f g h where "xs = [a, b, c, d, e, f, g, h]"
    by (auto simp: length_Suc_conv eval_nat_numeral)
  then show ?thesis by (simp add: push_bit_or push_bit_push_bit or.assoc)
qed

lemma pb_decode_fixed32_le:
  "has_prefix s (le_bytes 4 v) \<Longrightarrow> pb_decode_fixed32 s = Some (Some v, advance 4 s)"
  unfolding pb_decode_fixed32_def
  using fixed_word_4 [of "le_bytes 4 v"] by (simp add: read_prefix [of s "le_bytes 4 v" 4])

lemma pb_decode_fixed64_le:
  "has_prefix s (le_bytes 8 v) \<Longrightarrow> pb_decode_fixed64 s = Some (Some v, advance 8 s)"
  unfolding pb_decode_fixed64_def
  using fixed_word_8 [of "le_bytes 8 v"] by (simp add: read_prefix [of s "le_bytes 8 v" 8])

section \<open>From the encoder to the decoder\<close>

text \<open>The stream a reader opens on what a writer has stored in its buffer.\<close>

definition reopened :: "pb_ostream_t \<Rightarrow> pb_istream_t" where
  "reopened t = pb_istream_from_buffer (fst (os_state t)) (os_bytes_written t)"

lemma reopened_prefix:
  assumes "emitter w bs" and "w (pb_ostream_from_buffer buf n) = Some (True, t)"
    and "unat n \<le> length buf" and "unat n < 2 ^ 63" and "length bs < 2 ^ 63"
  shows "has_prefix (reopened t) bs" and "is_bytes_left (advance (length bs) (reopened t)) = 0"
proof -
  have fits: "length bs \<le> unat n"
    using emitter.never_overruns [OF assms(1,5,3,4)] assms(2) by force
  have t: "t = (pb_ostream_from_buffer buf n)\<lparr>os_state := (bs @ drop (length bs) buf, length bs),
      os_bytes_written := of_nat (length bs)\<rparr>"
    using emitter.fills_buffer [OF assms(1) fits assms(3,4)] assms(2) by simp
  show "has_prefix (reopened t) bs"
    using has_prefix_from_buffer [of bs "drop (length bs) buf"] assms(5) by (simp add: t reopened_def)
  show "is_bytes_left (advance (length bs) (reopened t)) = 0"
    by (simp add: t reopened_def advance_def pb_istream_from_buffer_def)
qed

section \<open>Properties\<close>

text \<open>C31. Whatever 64-bit value \<open>pb_encode_varint\<close> has written to a buffer,
  \<open>pb_decode_varint\<close> reads back from it, consuming exactly the bytes written.\<close>

theorem varint_roundtrip:
  assumes "unat n \<le> length buf" and "unat n < 2 ^ 63"
    and "pb_encode_varint (pb_ostream_from_buffer buf n) v = Some (True, t)"
  shows "\<exists>r. pb_decode_varint (reopened t) = Some (Some v, r) \<and> is_bytes_left r = 0"
  using reopened_prefix [OF enc_varint.emitter_axioms assms(3,1,2)] length_leb128_bound(1) [of v]
  by (simp add: pb_decode_varint_leb128)

theorem varint_roundtrip_witness:
  "\<exists>t r. pb_encode_varint (pb_ostream_from_buffer [0, 0, 0, 0] 4) 300 = Some (True, t) \<and>
     pb_decode_varint (reopened t) = Some (Some 300, r) \<and> is_bytes_left r = 0"
proof -
  have "length (leb128 300) \<le> 4" by code_simp
  then obtain t where t: "pb_encode_varint (pb_ostream_from_buffer [0, 0, 0, 0] 4) 300 = Some (True, t)"
    using enc_varint.fills_buffer [of 300 4 "[0, 0, 0, 0]"] by auto
  show ?thesis using varint_roundtrip [OF _ _ t] t by auto
qed

text \<open>Signed values survive the zig-zag encoding and decoding, for all 64-bit values.\<close>

theorem svarint_roundtrip:
  assumes "unat n \<le> length buf" and "unat n < 2 ^ 63"
    and "pb_encode_svarint (pb_ostream_from_buffer buf n) v = Some (True, t)"
  shows "\<exists>r. pb_decode_svarint (reopened t) = Some (Some v, r) \<and> is_bytes_left r = 0"
  using reopened_prefix [OF enc_svarint.emitter_axioms assms(3,1,2)] length_leb128_bound(1) [of "zigzag v"]
  by (simp add: pb_decode_svarint_leb128)

theorem svarint_roundtrip_witness:
  "\<exists>t r. pb_encode_svarint (pb_ostream_from_buffer [0, 0, 0, 0] 4) (-70) = Some (True, t) \<and>
     pb_decode_svarint (reopened t) = Some (Some (-70), r) \<and> is_bytes_left r = 0"
proof -
  have "length (leb128 (zigzag (-70))) \<le> 4" by code_simp
  then obtain t where t: "pb_encode_svarint (pb_ostream_from_buffer [0, 0, 0, 0] 4) (-70) = Some (True, t)"
    using enc_svarint.fills_buffer [of "-70" 4 "[0, 0, 0, 0]"] by auto
  show ?thesis using svarint_roundtrip [OF _ _ t] t by auto
qed

text \<open>A field key written by \<open>pb_encode_tag\<close> is read back by \<open>pb_decode_tag\<close> as the same
  wire type and field number, for every field number that protobuf allows (1 to
  2^29 - 1), and end of input is not reported.\<close>

theorem tag_roundtrip:
  assumes "unat n \<le> length buf" and "unat n < 2 ^ 63" and "0 < fn" and "unat fn < 2 ^ 29" and "wt \<le> 7"
    and "pb_encode_tag (pb_ostream_from_buffer buf n) wt fn = Some (True, t)"
  shows "\<exists>r. pb_decode_tag (reopened t) = Some (Some (wt, fn), False, r) \<and> is_bytes_left r = 0"
proof -
  have "length (tag_bytes wt fn) < 2 ^ 63"
    using length_leb128_bound(1) [of "push_bit 3 (ucast fn) OR ucast wt"] by (simp add: tag_bytes_def)
  from reopened_prefix [OF enc_tag.emitter_axioms assms(6,1,2) this] show ?thesis
    using assms(3-5) by (simp add: pb_decode_tag_bytes word_gt_0)
qed

theorem tag_roundtrip_witness:
  "\<exists>t r. pb_encode_tag (pb_ostream_from_buffer [0, 0, 0, 0] 4) 2 23 = Some (True, t) \<and>
     pb_decode_tag (reopened t) = Some (Some (2, 23), False, r) \<and> is_bytes_left r = 0"
proof -
  have "length (tag_bytes 2 23) \<le> 4" by code_simp
  then obtain t where t: "pb_encode_tag (pb_ostream_from_buffer [0, 0, 0, 0] 4) 2 23 = Some (True, t)"
    using enc_tag.fills_buffer [of 2 23 4 "[0, 0, 0, 0]"] by auto
  show ?thesis using tag_roundtrip [OF _ _ _ _ _ t] t by auto
qed

text \<open>C40. A varint that encodes a 32-bit value is read back unchanged by
  \<open>pb_decode_varint32\<close>, the decoder of lengths, tags and booleans.\<close>

theorem varint32_roundtrip:
  assumes "unat n \<le> length buf" and "unat n < 2 ^ 63"
    and "pb_encode_varint (pb_ostream_from_buffer buf n) (ucast v) = Some (True, t)"
  shows "\<exists>r. pb_decode_varint32 (reopened t) = Some (Some v, r) \<and> is_bytes_left r = 0"
  using reopened_prefix [OF enc_varint.emitter_axioms assms(3,1,2)] length_leb128_bound(1) [of "ucast v"]
  by (simp add: pb_decode_varint32_leb128)

theorem varint32_roundtrip_witness:
  "\<exists>t r. pb_encode_varint (pb_ostream_from_buffer [0, 0, 0, 0, 0] 5) (ucast (0xFFFFFFFF :: u32)) = Some (True, t) \<and>
     pb_decode_varint32 (reopened t) = Some (Some 0xFFFFFFFF, r) \<and> is_bytes_left r = 0"
proof -
  have "length (leb128 (ucast (0xFFFFFFFF :: u32))) \<le> 5" by code_simp
  then obtain t where t: "pb_encode_varint (pb_ostream_from_buffer [0, 0, 0, 0, 0] 5) (ucast (0xFFFFFFFF :: u32)) = Some (True, t)"
    using enc_varint.fills_buffer [of "ucast (0xFFFFFFFF :: u32)" 5 "[0, 0, 0, 0, 0]"] by auto
  show ?thesis using varint32_roundtrip [OF _ _ t] t by auto
qed

text \<open>A 32-bit value in memory that \<open>pb_encode_fixed32\<close> has written is read back
  unchanged by \<open>pb_decode_fixed32\<close>, from exactly four bytes.\<close>

theorem fixed32_roundtrip:
  assumes "unat n \<le> length buf" and "unat n < 2 ^ 63" and "load_u32 m p = Some v"
    and "pb_encode_fixed32 m (pb_ostream_from_buffer buf n) p = Some (True, t)"
  shows "\<exists>r. pb_decode_fixed32 (reopened t) = Some (Some v, r) \<and> is_bytes_left r = 0"
  using reopened_prefix [OF pb_encode_fixed32_emitter [OF assms(3)] assms(4,1,2)]
  by (simp add: pb_decode_fixed32_le)

theorem fixed32_roundtrip_witness:
  "\<exists>t r. pb_encode_fixed32 (object_mem 16 [1, 2, 3, 4]) (pb_ostream_from_buffer [0, 0, 0, 0] 4) 16 = Some (True, t) \<and>
     pb_decode_fixed32 (reopened t) = Some (Some 0x04030201, r) \<and> is_bytes_left r = 0"
proof -
  have v: "load_u32 (object_mem 16 [1, 2, 3, 4]) 16 = Some 0x04030201" by code_simp
  obtain t where t: "pb_encode_fixed32 (object_mem 16 [1, 2, 3, 4]) (pb_ostream_from_buffer [0, 0, 0, 0] 4) 16 = Some (True, t)"
    using emitter.fills_buffer [OF pb_encode_fixed32_emitter [OF v], of 4 "[0, 0, 0, 0]"] by auto
  show ?thesis using fixed32_roundtrip [OF _ _ v t] t by auto
qed

text \<open>A 64-bit value in memory that \<open>pb_encode_fixed64\<close> has written is read back
  unchanged by \<open>pb_decode_fixed64\<close>, from exactly eight bytes.\<close>

theorem fixed64_roundtrip:
  assumes "unat n \<le> length buf" and "unat n < 2 ^ 63" and "load_u64 m p = Some v"
    and "pb_encode_fixed64 m (pb_ostream_from_buffer buf n) p = Some (True, t)"
  shows "\<exists>r. pb_decode_fixed64 (reopened t) = Some (Some v, r) \<and> is_bytes_left r = 0"
  using reopened_prefix [OF pb_encode_fixed64_emitter [OF assms(3)] assms(4,1,2)]
  by (simp add: pb_decode_fixed64_le)

theorem fixed64_roundtrip_witness:
  "\<exists>t r. pb_encode_fixed64 (object_mem 16 [1, 2, 3, 4, 5, 6, 7, 8]) (pb_ostream_from_buffer [0, 0, 0, 0, 0, 0, 0, 0] 8) 16
       = Some (True, t) \<and>
     pb_decode_fixed64 (reopened t) = Some (Some 0x0807060504030201, r) \<and> is_bytes_left r = 0"
proof -
  have v: "load_u64 (object_mem 16 [1, 2, 3, 4, 5, 6, 7, 8]) 16 = Some 0x0807060504030201" by code_simp
  obtain t where t: "pb_encode_fixed64 (object_mem 16 [1, 2, 3, 4, 5, 6, 7, 8])
      (pb_ostream_from_buffer [0, 0, 0, 0, 0, 0, 0, 0] 8) 16 = Some (True, t)"
    using emitter.fills_buffer [OF pb_encode_fixed64_emitter [OF v], of 8 "[0, 0, 0, 0, 0, 0, 0, 0]"] by auto
  show ?thesis using fixed64_roundtrip [OF _ _ v t] t by auto
qed

end
