(* ===== verification/Base64.thy ===== *)
theory Base64
  imports Pb_Prelude
begin

text \<open>
  The Base64 codec of the Firebase database client (\<open>fbase64.c\<close>): \<open>f_b64_ntop\<close> encodes a
  byte array into a caller's buffer and \<open>f_b64_pton\<close> decodes a NUL-terminated text, or
  only measures it when the target is null. Source and target are the objects the
  pointers point into, from the pointer on; an access outside them has no defined result
  (\<open>None\<close>), and neither has \<open>isspace\<close> on a negative argument other than \<open>EOF\<close>. The
  theory states the Base64 text of a byte string directly (\<open>b64_text\<close>) and shows that
  the encoder produces it, that the decoder inverts it and that neither leaves its target.
\<close>

section \<open>The alphabet\<close>

definition Base64 :: "byte list" where
  "Base64 = map of_char ''ABCDEFGHIJKLMNOPQRSTUVWXYZabcdefghijklmnopqrstuvwxyz0123456789+/''"

definition Pad64 :: byte where
  "Pad64 = of_char (CHR ''='')"

text \<open>\<open>Base64[i]\<close>: the array has the 64 digits and the terminating NUL.\<close>

definition b64_digit :: "byte \<Rightarrow> byte option" where
  "b64_digit i = (if unat i < 65 then Some ((Base64 @ [0]) ! unat i) else None)"

text \<open>\<open>strchr(Base64, ch)\<close> for a character that is not NUL, as an index.\<close>

definition b64_pos :: "byte \<Rightarrow> byte option" where
  "b64_pos ch = map_option of_nat (find (\<lambda>i. Base64 ! i = ch) [0..<64])"

text \<open>\<open>isspace(ch)\<close> for a (signed) \<open>char\<close> converted to \<open>int\<close>.\<close>

definition c_isspace :: "byte \<Rightarrow> bool option" where
  "c_isspace ch = (if sint ch < -1 then None else Some (ch = 0x20 \<or> (0x09 \<le> ch \<and> ch \<le> 0x0D)))"

section \<open>Encoding\<close>

text \<open>Consecutive stores \<open>target[datalength++] = ...\<close>\<close>

definition b64_put :: "byte list \<Rightarrow> size_t \<Rightarrow> byte list \<Rightarrow> (byte list \<times> size_t) option" where
  "b64_put target datalength cs = (if unat datalength + length cs \<le> length target
     then Some (overwrite target (unat datalength) cs, datalength + of_nat (length cs)) else None)"

definition b64_output :: "byte \<Rightarrow> byte \<Rightarrow> byte \<Rightarrow> byte list" where
  "b64_output a b c = [drop_bit 2 a, push_bit 4 (a AND 0x03) + drop_bit 4 b,
     push_bit 2 (b AND 0x0F) + drop_bit 6 c, c AND 0x3F]"

text \<open>The loop over whole groups; the result is the target, its length so far and what is
  left of the source, or the early return of -1.\<close>

function ntop_groups :: "byte list \<Rightarrow> size_t \<Rightarrow> byte list \<Rightarrow> size_t \<Rightarrow> size_t \<Rightarrow>
    (bool \<times> byte list \<times> size_t \<times> byte list \<times> size_t) option" where
  "ntop_groups src srclength target datalength targsize =
     (if 2 < srclength then
        if length src < 3 then None
        else if datalength + 4 > targsize then Some (False, target, datalength, src, srclength)
        else case those (map b64_digit (b64_output (src ! 0) (src ! 1) (src ! 2))) of
          None \<Rightarrow> None
        | Some cs \<Rightarrow> (case b64_put target datalength cs of
            None \<Rightarrow> None
          | Some (target, datalength) \<Rightarrow>
              ntop_groups (drop 3 src) (srclength - 3) target datalength targsize)
      else Some (True, target, datalength, src, srclength))"
  by pat_completeness auto
termination
proof (relation "measure (\<lambda>(src, srclength, _). unat srclength)", goal_cases)
  case (2 src srclength)
  then have "3 \<le> srclength" by (simp add: word_le_nat_alt word_less_nat_alt)
  then have "unat (srclength - 3) = unat srclength - 3" "3 \<le> unat srclength"
    by (simp_all add: word_sub_le_unat word_le_nat_alt)
  then show ?case by simp
qed simp

declare ntop_groups.simps [simp del]

text \<open>The padding of the last group: \<open>input\<close> is filled with what is left.\<close>

definition ntop_tail :: "byte list \<Rightarrow> size_t \<Rightarrow> byte list \<Rightarrow> size_t \<Rightarrow> size_t \<Rightarrow>
    (bool \<times> byte list \<times> size_t) option" where
  "ntop_tail src srclength target datalength targsize =
     (if srclength = 0 then Some (True, target, datalength)
      else if length src < unat srclength then None
      else let inp = take (unat srclength) src @ replicate (3 - unat srclength) 0;
               out = b64_output (inp ! 0) (inp ! 1) (inp ! 2) in
        if datalength + 4 > targsize then Some (False, target, datalength)
        else do {
          c0 \<leftarrow> b64_digit (out ! 0);
          c1 \<leftarrow> b64_digit (out ! 1);
          c2 \<leftarrow> (if srclength = 1 then Some Pad64 else b64_digit (out ! 2));
          (target, datalength) \<leftarrow> b64_put target datalength [c0, c1, c2, Pad64];
          Some (True, target, datalength) })"

definition f_b64_ntop :: "byte list \<Rightarrow> size_t \<Rightarrow> byte list \<Rightarrow> size_t \<Rightarrow> (int \<times> byte list) option" where
  "f_b64_ntop src srclength target targsize = do {
     (ok, target, datalength, src, srclength) \<leftarrow> ntop_groups src srclength target 0 targsize;
     if \<not> ok then Some (-1, target)
     else do {
       (ok, target, datalength) \<leftarrow> ntop_tail src srclength target datalength targsize;
       if \<not> ok then Some (-1, target)
       else if datalength \<ge> targsize then Some (-1, target)
       else do {
         (target, _) \<leftarrow> b64_put target datalength [0];
         Some (sint (ucast datalength :: u32), target) } } }"

section \<open>Decoding\<close>

record b64_state =
  b_state :: nat
  b_tarindex :: u32
  b_target :: "byte list option"

definition b64_get :: "byte list \<Rightarrow> u32 \<Rightarrow> byte option" where
  "b64_get t i = (if unat i < length t then Some (t ! unat i) else None)"

definition b64_set :: "byte list \<Rightarrow> u32 \<Rightarrow> byte \<Rightarrow> byte list option" where
  "b64_set t i b = (if unat i < length t then Some (t[unat i := b]) else None)"

text \<open>The \<open>switch (state)\<close> on one digit \<open>v = pos - Base64\<close>; false is the return of -1.\<close>

definition pton_digit :: "size_t \<Rightarrow> byte \<Rightarrow> b64_state \<Rightarrow> (bool \<times> b64_state) option" where
  "pton_digit targsize v st = (let i = b_tarindex st in
     if b_state st = 0 then
       (case b_target st of
          None \<Rightarrow> Some (True, st\<lparr>b_state := 1\<rparr>)
        | Some t \<Rightarrow> if ucast i \<ge> targsize then Some (False, st)
            else do { t \<leftarrow> b64_set t i (push_bit 2 v);
                      Some (True, st\<lparr>b_state := 1, b_target := Some t\<rparr>) })
     else if b_state st = 1 then
       (case b_target st of
          None \<Rightarrow> Some (True, st\<lparr>b_state := 2, b_tarindex := i + 1\<rparr>)
        | Some t \<Rightarrow> if ucast (i + 1) \<ge> targsize then Some (False, st)
            else do { old \<leftarrow> b64_get t i;
                      t \<leftarrow> b64_set t i (old OR drop_bit 4 v);
                      t \<leftarrow> b64_set t (i + 1) (push_bit 4 (v AND 0x0F));
                      Some (True, st\<lparr>b_state := 2, b_tarindex := i + 1, b_target := Some t\<rparr>) })
     else if b_state st = 2 then
       (case b_target st of
          None \<Rightarrow> Some (True, st\<lparr>b_state := 3, b_tarindex := i + 1\<rparr>)
        | Some t \<Rightarrow> if ucast (i + 1) \<ge> targsize then Some (False, st)
            else do { old \<leftarrow> b64_get t i;
                      t \<leftarrow> b64_set t i (old OR drop_bit 2 v);
                      t \<leftarrow> b64_set t (i + 1) (push_bit 6 (v AND 0x03));
                      Some (True, st\<lparr>b_state := 3, b_tarindex := i + 1, b_target := Some t\<rparr>) })
     else
       (case b_target st of
          None \<Rightarrow> Some (True, st\<lparr>b_state := 0, b_tarindex := i + 1\<rparr>)
        | Some t \<Rightarrow> if ucast i \<ge> targsize then Some (False, st)
            else do { old \<leftarrow> b64_get t i;
                      t \<leftarrow> b64_set t i (old OR v);
                      Some (True, st\<lparr>b_state := 0, b_tarindex := i + 1, b_target := Some t\<rparr>) }))"

text \<open>The main loop; the result has the last character read and the rest of the text.\<close>

fun pton_loop :: "size_t \<Rightarrow> byte list \<Rightarrow> b64_state \<Rightarrow> (bool \<times> byte \<times> byte list \<times> b64_state) option" where
  "pton_loop targsize [] st = None"
| "pton_loop targsize (ch # src) st =
     (if ch = 0 then Some (True, ch, src, st)
      else do {
        space \<leftarrow> c_isspace ch;
        if space then pton_loop targsize src st
        else if ch = Pad64 then Some (True, ch, src, st)
        else case b64_pos ch of
          None \<Rightarrow> Some (False, ch, src, st)
        | Some v \<Rightarrow> do {
            (ok, st) \<leftarrow> pton_digit targsize v st;
            if ok then pton_loop targsize src st else Some (False, ch, src, st) } })"

text \<open>\<open>for (; ch != '\0'; ch = *src++) if (!isspace(ch)) break;\<close>\<close>

fun skip_spaces :: "byte \<Rightarrow> byte list \<Rightarrow> (byte \<times> byte list) option" where
  "skip_spaces ch src = (if ch = 0 then Some (ch, src) else do {
     space \<leftarrow> c_isspace ch;
     if \<not> space then Some (ch, src)
     else case src of [] \<Rightarrow> None | ch # src \<Rightarrow> skip_spaces ch src })"

definition next_char :: "byte list \<Rightarrow> (byte \<times> byte list) option" where
  "next_char src = (case src of [] \<Rightarrow> None | ch # src \<Rightarrow> Some (ch, src))"

text \<open>What follows a pad character.\<close>

definition pton_pad :: "byte list \<Rightarrow> b64_state \<Rightarrow> int option" where
  "pton_pad src st = do {
     (ch, src) \<leftarrow> next_char src;
     if b_state st = 0 \<or> b_state st = 1 then Some (-1)
     else do {
       (ok, ch, src) \<leftarrow> (if b_state st = 2 then do {
           (ch, src) \<leftarrow> skip_spaces ch src;
           if ch \<noteq> Pad64 then Some (False, ch, src)
           else do { (ch, src) \<leftarrow> next_char src; Some (True, ch, src) } }
         else Some (True, ch, src));
       if \<not> ok then Some (-1)
       else do {
         (ch, src) \<leftarrow> skip_spaces ch src;
         if ch \<noteq> 0 then Some (-1)
         else case b_target st of
           None \<Rightarrow> Some (sint (b_tarindex st))
         | Some t \<Rightarrow> do {
             extra \<leftarrow> b64_get t (b_tarindex st);
             if extra \<noteq> 0 then Some (-1) else Some (sint (b_tarindex st)) } } } }"

definition f_b64_pton :: "byte list \<Rightarrow> byte list option \<Rightarrow> size_t \<Rightarrow> (int \<times> byte list option) option" where
  "f_b64_pton src target targsize = do {
     (ok, ch, src, st) \<leftarrow> pton_loop targsize src \<lparr>b_state = 0, b_tarindex = 0, b_target = target\<rparr>;
     if \<not> ok then Some (-1, b_target st)
     else if ch = Pad64 then do { r \<leftarrow> pton_pad src st; Some (r, b_target st) }
     else if b_state st \<noteq> 0 then Some (-1, b_target st)
     else Some (sint (b_tarindex st), b_target st) }"

section \<open>Base64 text\<close>

text \<open>The encoding of RFC 1521, on the digits' values.\<close>

definition digit :: "byte \<Rightarrow> byte" where
  "digit v = Base64 ! unat v"

fun b64_text :: "byte list \<Rightarrow> byte list" where
  "b64_text [] = []"
| "b64_text [a] = map digit [drop_bit 2 a, push_bit 4 (take_bit 2 a)] @ [Pad64, Pad64]"
| "b64_text [a, b] = map digit [drop_bit 2 a, push_bit 4 (take_bit 2 a) OR drop_bit 4 b,
     push_bit 2 (take_bit 4 b)] @ [Pad64]"
| "b64_text (a # b # c # bs) = map digit [drop_bit 2 a, push_bit 4 (take_bit 2 a) OR drop_bit 4 b,
     push_bit 2 (take_bit 4 b) OR drop_bit 6 c, take_bit 6 c] @ b64_text bs"

lemma length_b64_text: "length (b64_text bs) = 4 * ((length bs + 2) div 3)"
proof (induction bs rule: b64_text.induct)
  case (4 a b c bs)
  have "(length bs + 5) div 3 = Suc ((length bs + 2) div 3)"
    using div_add_self2 [of 3 "length bs + 2"] by simp
  with 4 show ?case by (simp add: add.commute)
qed auto

section \<open>Digits\<close>

lemma Base64_codes: "Base64 =
    [65, 66, 67, 68, 69, 70, 71, 72, 73, 74, 75, 76, 77, 78, 79, 80,
     81, 82, 83, 84, 85, 86, 87, 88, 89, 90, 97, 98, 99, 100, 101, 102,
     103, 104, 105, 106, 107, 108, 109, 110, 111, 112, 113, 114, 115, 116, 117, 118,
     119, 120, 121, 122, 48, 49, 50, 51, 52, 53, 54, 55, 56, 57, 43, 47]"
  by (simp add: Base64_def)

lemma Base64_distinct: "distinct Base64" and Base64_length: "length Base64 = 64"
  by (simp_all add: Base64_codes)

lemma Base64_plain: "list_all (\<lambda>c. c \<noteq> 0 \<and> c \<noteq> Pad64 \<and> c_isspace c = Some False) Base64"
  by (simp add: Base64_codes Pad64_def c_isspace_def)

lemma find_nth:
  "distinct xs \<Longrightarrow> k < length xs \<Longrightarrow> find (\<lambda>i. xs ! i = xs ! k) [0..<length xs] = Some k"
  by (auto simp: find_Some_iff nth_eq_iff_index_eq intro!: exI [of _ k])

lemma digit_facts:
  assumes "unat v < 64"
  shows "digit v \<noteq> 0" "digit v \<noteq> Pad64" "c_isspace (digit v) = Some False"
    "b64_pos (digit v) = Some v" "b64_digit v = Some (digit v)"
proof -
  have "digit v \<in> set Base64" using assms by (simp add: digit_def Base64_length)
  then show "digit v \<noteq> 0" "digit v \<noteq> Pad64" "c_isspace (digit v) = Some False"
    using Base64_plain by (auto simp: list_all_iff)
  show "b64_pos (digit v) = Some v"
    using find_nth [OF Base64_distinct, of "unat v"] assms
    by (simp add: b64_pos_def digit_def Base64_length)
  show "b64_digit v = Some (digit v)"
    using assms by (simp add: b64_digit_def digit_def nth_append Base64_length)
qed

lemma pad_facts: "Pad64 \<noteq> 0" "c_isspace Pad64 = Some False"
  by (simp_all add: Pad64_def c_isspace_def)

lemma take_bit_masks: "(a :: byte) AND 0x03 = take_bit 2 a" "a AND 0x0F = take_bit 4 a" "a AND 0x3F = take_bit 6 a"
  by (simp_all add: take_bit_eq_mask mask_eq_exp_minus_1)

lemma disjoint_plus: "(\<And>n. \<not> (bit a n \<and> bit b n)) \<Longrightarrow> a + b = a OR (b :: byte)"
  by (rule disjunctive_add_eq_or) (auto simp: bit_eq_iff bit_simps)

lemma b64_output_groups:
  "b64_output a b c = [drop_bit 2 a, push_bit 4 (take_bit 2 a) OR drop_bit 4 b,
     push_bit 2 (take_bit 4 b) OR drop_bit 6 c, take_bit 6 c]"
proof -
  have "push_bit 4 (take_bit 2 a) + drop_bit 4 b = push_bit 4 (take_bit 2 a) OR drop_bit 4 b"
    by (rule disjoint_plus) (auto simp: bit_simps dest: bit_imp_le_length)
  moreover have "push_bit 2 (take_bit 4 b) + drop_bit 6 c = push_bit 2 (take_bit 4 b) OR drop_bit 6 c"
    by (rule disjoint_plus) (auto simp: bit_simps dest: bit_imp_le_length)
  ultimately show ?thesis by (simp add: b64_output_def take_bit_masks)
qed

lemma length_b64_output: "length (b64_output a b c) = 4"
  by (simp add: b64_output_def)

lemma b64_text_group: "b64_text (a # b # c # bs) = map digit (b64_output a b c) @ b64_text bs"
  by (simp add: b64_output_groups)

lemma six_bits: "(\<And>n. bit (v :: byte) n \<Longrightarrow> n < 6) \<Longrightarrow> unat v < 64"
proof -
  assume "\<And>n. bit v n \<Longrightarrow> n < 6"
  then have "take_bit 6 v = v" by (intro bit_word_eqI) (auto simp: bit_simps)
  then have "unat v = take_bit 6 (unat v)" by (metis unsigned_take_bit_eq)
  then show ?thesis using take_bit_nat_less_exp [of 6 "unat v"] by simp
qed

lemma groups_small:
  "unat (drop_bit 2 (a :: byte)) < 64" "unat (push_bit 4 (take_bit 2 a) OR drop_bit 4 (b :: byte)) < 64"
  "unat (push_bit 2 (take_bit 4 b) OR drop_bit 6 (c :: byte)) < 64" "unat (take_bit 6 (c :: byte)) < 64"
  "unat (push_bit 4 (take_bit 2 a)) < 64" "unat (push_bit 2 (take_bit 4 b)) < 64"
  by (rule six_bits, auto simp: bit_simps dest: bit_imp_le_length)+

section \<open>The encoder produces the text\<close>

text \<open>\<open>f_b64_ntop\<close> from the loop head on, with \<open>datalength\<close> characters already stored.\<close>

definition ntop_from :: "byte list \<Rightarrow> size_t \<Rightarrow> byte list \<Rightarrow> size_t \<Rightarrow> size_t \<Rightarrow> (int \<times> byte list) option" where
  "ntop_from src srclength target datalength targsize = do {
     (ok, target, datalength, src, srclength) \<leftarrow> ntop_groups src srclength target datalength targsize;
     if \<not> ok then Some (-1, target)
     else do {
       (ok, target, datalength) \<leftarrow> ntop_tail src srclength target datalength targsize;
       if \<not> ok then Some (-1, target)
       else if datalength \<ge> targsize then Some (-1, target)
       else do {
         (target, _) \<leftarrow> b64_put target datalength [0];
         Some (sint (ucast datalength :: u32), target) } } }"

lemma f_b64_ntop_from: "f_b64_ntop src n target targsize = ntop_from src n target 0 targsize"
  by (simp add: f_b64_ntop_def ntop_from_def)

lemma unat_plus_4: "unat (d :: size_t) < 2 ^ 63 \<Longrightarrow> unat (d + 4) = unat d + 4"
  by (subst unat_add_small) auto

lemma ntop_from_group:
  assumes "length bs + 3 < 2 ^ 64" and "unat d \<le> unat ts" and "unat ts \<le> length target" and "unat ts < 2 ^ 63"
  shows "ntop_from ((a # b # c # bs) @ rest) (of_nat (length bs + 3)) target d ts =
    (if unat d + 4 \<le> unat ts
     then ntop_from (bs @ rest) (of_nat (length bs))
       (overwrite target (unat d) (map digit (b64_output a b c))) (d + 4) ts
     else Some (-1, target))"
proof -
  have n: "unat (of_nat (length bs + 3) :: size_t) = length bs + 3"
    using assms(1) by (intro unat_of_nat_small) simp
  then have gt: "2 < (of_nat (length bs + 3) :: size_t)" by (simp add: word_less_nat_alt)
  have minus: "(of_nat (length bs + 3) :: size_t) - 3 = of_nat (length bs)" by simp
  have full: "d + 4 > ts \<longleftrightarrow> \<not> unat d + 4 \<le> unat ts"
    using unat_plus_4 [of d] assms(2,4) by (simp add: word_less_nat_alt not_le)
  have digits: "those (map b64_digit (b64_output a b c)) = Some (map digit (b64_output a b c))"
    by (simp add: b64_output_groups digit_facts(5) groups_small)
  have put: "b64_put target d (map digit (b64_output a b c)) =
      Some (overwrite target (unat d) (map digit (b64_output a b c)), d + 4)"
    if "unat d + 4 \<le> unat ts"
    using that assms(3) by (simp add: b64_put_def length_b64_output)
  show ?thesis
    unfolding ntop_from_def
    by (subst ntop_groups.simps) (use gt full digits put minus in \<open>simp del: of_nat_add\<close>)
qed

lemma ntop_groups_done: "\<not> 2 < n \<Longrightarrow> ntop_groups src n target d ts = Some (True, target, d, src, n)"
  by (subst ntop_groups.simps) simp

lemma ntop_tail_1:
  "ntop_tail ([a] @ rest) 1 target d ts = (if d + 4 > ts then Some (False, target, d)
     else map_option (Pair True) (b64_put target d (b64_text [a])))"
proof -
  have "replicate 2 (0 :: byte) = [0, 0]" by (simp add: numeral_2_eq_2)
  then show ?thesis
    by (auto simp: ntop_tail_def b64_output_groups digit_facts(5) groups_small split: bind_splits)
qed

lemma ntop_tail_2:
  "ntop_tail ([a, b] @ rest) 2 target d ts = (if d + 4 > ts then Some (False, target, d)
     else map_option (Pair True) (b64_put target d (b64_text [a, b])))"
  by (auto simp: ntop_tail_def b64_output_groups digit_facts(5) groups_small split: bind_splits)

lemma ntop_from_rest:
  assumes "length bs < 3" and "unat d \<le> unat ts" and "unat ts \<le> length target" and "unat ts < 2 ^ 63"
  shows "ntop_from (bs @ rest) (of_nat (length bs)) target d ts =
    (if unat d + length (b64_text bs) < unat ts
     then Some (sint (ucast (d + of_nat (length (b64_text bs))) :: u32),
       overwrite target (unat d) (b64_text bs @ [0]))
     else if unat d + length (b64_text bs) = unat ts
     then Some (-1, overwrite target (unat d) (b64_text bs))
     else Some (-1, target))"
proof -
  have full: "d + 4 > ts \<longleftrightarrow> \<not> unat d + 4 \<le> unat ts" "d + 4 \<ge> ts \<longleftrightarrow> unat ts \<le> unat d + 4"
    "d \<ge> ts \<longleftrightarrow> unat ts \<le> unat d"
    using unat_plus_4 [of d] assms(2,4) by (simp_all add: word_less_nat_alt word_le_nat_alt not_le)
  have d4: "unat (d + 4) = unat d + 4" using unat_plus_4 [of d] assms(2,4) by simp
  have ow: "overwrite (overwrite target (unat d) cs) (unat d + 4) [0] = overwrite target (unat d) (cs @ [0])"
    if "length cs = 4" "unat d + 4 < unat ts" for cs
    using overwrite_overwrite [of "unat d" cs "[0]" target] that assms(3) by simp
  have "bs = [] \<or> (\<exists>a. bs = [a]) \<or> (\<exists>a b. bs = [a, b])"
    using assms(1) by (cases bs rule: b64_text.cases) auto
  then consider "bs = []" | "length (b64_text bs) = 4"
      "ntop_tail (bs @ rest) (of_nat (length bs)) target d ts = (if d + 4 > ts then Some (False, target, d)
        else map_option (Pair True) (b64_put target d (b64_text bs)))"
    using ntop_tail_1 ntop_tail_2 by fastforce
  then show ?thesis
  proof cases
    case 1
    then show ?thesis
      using assms full by (auto simp: ntop_from_def ntop_groups_done ntop_tail_def b64_put_def)
  next
    case 2
    have "\<not> 2 < (of_nat (length bs) :: size_t)"
      using assms(1) by (auto simp: less_Suc_eq numeral_eq_Suc)
    then show ?thesis
      using assms full d4 2 ow by (auto simp: ntop_from_def ntop_groups_done b64_put_def)
  qed
qed

lemma ntop_from_text_rest:
  assumes "length bs < 3" and "unat d \<le> unat ts" and "unat ts \<le> length target" and "unat ts < 2 ^ 63"
  shows "if unat d + length (b64_text bs) < unat ts
    then ntop_from (bs @ rest) (of_nat (length bs)) target d ts =
      Some (sint (ucast (d + of_nat (length (b64_text bs))) :: u32), overwrite target (unat d) (b64_text bs @ [0]))
    else \<exists>t. ntop_from (bs @ rest) (of_nat (length bs)) target d ts = Some (-1, t) \<and>
      length t = length target \<and> drop (unat ts) t = drop (unat ts) target"
  using ntop_from_rest [OF assms, of rest] assms by (simp add: drop_overwrite)

lemma ntop_from_text:
  assumes "length bs < 2 ^ 64" and "unat d \<le> unat ts" and "unat ts \<le> length target" and "unat ts < 2 ^ 63"
  shows "if unat d + length (b64_text bs) < unat ts
    then ntop_from (bs @ rest) (of_nat (length bs)) target d ts =
      Some (sint (ucast (d + of_nat (length (b64_text bs))) :: u32), overwrite target (unat d) (b64_text bs @ [0]))
    else \<exists>t. ntop_from (bs @ rest) (of_nat (length bs)) target d ts = Some (-1, t) \<and>
      length t = length target \<and> drop (unat ts) t = drop (unat ts) target"
  using assms
proof (induction bs arbitrary: target d rule: b64_text.induct)
  case (4 a b c bs)
  let ?q = "map digit (b64_output a b c)"
  have q: "length ?q = 4" by (simp add: length_b64_output)
  have len: "length (b64_text (a # b # c # bs)) = 4 + length (b64_text bs)"
    unfolding b64_text_group by (simp add: length_b64_output)
  have src: "length (a # b # c # bs) = length bs + 3" by simp
  note step = ntop_from_group [of bs d ts target a b c rest, folded src]
  show ?case
  proof (cases "unat d + 4 \<le> unat ts")
    case True
    have d4: "unat (d + 4) = unat d + 4" using unat_plus_4 [of d] 4(3,5) by simp
    have IH: "if unat (d + 4) + length (b64_text bs) < unat ts
      then ntop_from (bs @ rest) (of_nat (length bs)) (overwrite target (unat d) ?q) (d + 4) ts =
        Some (sint (ucast (d + 4 + of_nat (length (b64_text bs))) :: u32),
          overwrite (overwrite target (unat d) ?q) (unat (d + 4)) (b64_text bs @ [0]))
      else \<exists>t. ntop_from (bs @ rest) (of_nat (length bs)) (overwrite target (unat d) ?q) (d + 4) ts =
          Some (-1, t) \<and> length t = length (overwrite target (unat d) ?q) \<and>
        drop (unat ts) t = drop (unat ts) (overwrite target (unat d) ?q)"
      using 4 True q d4 by (intro 4(1)) auto
    have ow: "overwrite (overwrite target (unat d) ?q) (unat d + 4) (b64_text bs @ [0]) =
        overwrite target (unat d) (b64_text (a # b # c # bs) @ [0])"
      if "unat d + 4 + length (b64_text bs) < unat ts"
      using overwrite_overwrite [of "unat d" ?q "b64_text bs @ [0]" target] that 4(4) q
      unfolding b64_text_group by simp
    have keep: "length (overwrite target (unat d) ?q) = length target"
      "drop (unat ts) (overwrite target (unat d) ?q) = drop (unat ts) target"
      using True 4(4) q by (simp_all add: drop_overwrite)
    have go: "ntop_from ((a # b # c # bs) @ rest) (of_nat (length (a # b # c # bs))) target d ts =
        ntop_from (bs @ rest) (of_nat (length bs)) (overwrite target (unat d) ?q) (d + 4) ts"
      using step 4(2-5) True by simp
    have sum: "d + of_nat (length (b64_text (a # b # c # bs))) = d + 4 + of_nat (length (b64_text bs))"
      unfolding len by simp
    show ?thesis
      unfolding go sum unfolding len
      using IH ow by (simp only: d4 keep add.assoc) (simp only: add.assoc [symmetric] split: if_splits; simp)
  next
    case False
    then show ?thesis
      using step 4(2-5) unfolding len by simp
  qed
qed (rule ntop_from_text_rest; simp)+

lemma sint_small: "n < 2 ^ 31 \<Longrightarrow> sint (ucast (of_nat n :: size_t) :: u32) = int n"
proof -
  assume n: "n < 2 ^ 31"
  then have "ucast (of_nat n :: size_t) = (of_nat n :: u32)"
    by (simp add: unsigned_of_nat take_bit_nat_eq_self)
  moreover have "uint (of_nat n :: u32) = int n"
    using n by (simp add: unsigned_of_nat take_bit_nat_eq_self)
  ultimately show ?thesis using n by (simp add: sint_uint signed_take_bit_int_eq_self)
qed

lemma f_b64_ntop_fits:
  assumes "length (b64_text bs) < unat ts" and "unat ts \<le> length target" and "unat ts < 2 ^ 63"
    and "length (b64_text bs) < 2 ^ 31"
  shows "f_b64_ntop (bs @ rest) (of_nat (length bs)) target ts =
    Some (int (length (b64_text bs)), b64_text bs @ [0] @ drop (length (b64_text bs) + 1) target)"
proof -
  have "length bs < 2 ^ 64" using assms(4) by (simp add: length_b64_text)
  then show ?thesis
    using ntop_from_text [of bs 0 ts target rest] assms sint_small [OF assms(4)]
    by (simp add: f_b64_ntop_from overwrite_def)
qed

lemma f_b64_ntop_full:
  assumes "unat ts \<le> length (b64_text bs)" and "length bs < 2 ^ 64" and "unat ts \<le> length target"
    and "unat ts < 2 ^ 63"
  shows "\<exists>t. f_b64_ntop (bs @ rest) (of_nat (length bs)) target ts = Some (-1, t) \<and>
    length t = length target \<and> drop (unat ts) t = drop (unat ts) target"
  using ntop_from_text [of bs 0 ts target rest] assms by (simp add: f_b64_ntop_from)

section \<open>The decoder inverts the encoder\<close>

lemma pton_loop_digit:
  "unat v < 64 \<Longrightarrow> pton_loop ts (digit v # src) st = do {
     (ok, st) \<leftarrow> pton_digit ts v st;
     if ok then pton_loop ts src st else Some (False, digit v, src, st) }"
  using digit_facts [of v] by simp

lemma b64_join:
  "push_bit 2 (drop_bit 2 (a :: byte)) OR drop_bit 4 (push_bit 4 (take_bit 2 a) OR drop_bit 4 b) = a"
  "push_bit 2 (drop_bit 2 (a :: byte)) OR drop_bit 4 (push_bit 4 (take_bit 2 a)) = a"
  "push_bit 4 ((push_bit 4 (take_bit 2 a) OR drop_bit 4 b) AND 0x0F) OR
     drop_bit 2 (push_bit 2 (take_bit 4 b) OR drop_bit 6 c) = (b :: byte)"
  "push_bit 4 ((push_bit 4 (take_bit 2 a) OR drop_bit 4 b) AND 0x0F) OR
     drop_bit 2 (push_bit 2 (take_bit 4 b)) = (b :: byte)"
  "push_bit 6 ((push_bit 2 (take_bit 4 b) OR drop_bit 6 c) AND 0x03) OR take_bit 6 c = (c :: byte)"
  "push_bit 4 (push_bit 4 (take_bit 2 a) AND 0x0F) = (0 :: byte)"
  "push_bit 6 (push_bit 2 (take_bit 4 b) AND 0x03) = (0 :: byte)"
  unfolding take_bit_masks by (rule byte_eqI; auto simp: bit_simps)+

abbreviation b64 :: "nat \<Rightarrow> nat \<Rightarrow> byte list \<Rightarrow> b64_state" where
  "b64 s k t \<equiv> \<lparr>b_state = s, b_tarindex = of_nat k, b_target = Some t\<rparr>"

lemma index_ge: "k < 2 ^ 32 \<Longrightarrow> ts \<le> ucast (of_nat k :: u32) \<longleftrightarrow> unat (ts :: size_t) \<le> k"
  by (simp add: word_le_nat_alt unsigned_ucast_eq unsigned_of_nat take_bit_nat_eq_self)

lemma b64_access:
  "k < length t \<Longrightarrow> k < 2 ^ 32 \<Longrightarrow> b64_get t (of_nat k) = Some (t ! k)"
  "k < length t \<Longrightarrow> k < 2 ^ 32 \<Longrightarrow> b64_set t (of_nat k) b = Some (t[k := b])"
  by (simp_all add: b64_get_def b64_set_def unsigned_of_nat take_bit_nat_eq_self)

lemma of_nat_Suc_word: "(of_nat k + 1 :: u32) = of_nat (Suc k)"
  by simp

lemma pton_digit_steps:
  assumes "Suc k < 2 ^ 32" and "unat ts \<le> length t"
  shows "k < unat ts \<Longrightarrow> pton_digit ts v (b64 0 k t) = Some (True, b64 1 k (t[k := push_bit 2 v]))"
    and "Suc k < unat ts \<Longrightarrow> pton_digit ts v (b64 1 k t) = Some (True, b64 2 (Suc k)
      (t[k := t ! k OR drop_bit 4 v, Suc k := push_bit 4 (v AND 0x0F)]))"
    and "Suc k < unat ts \<Longrightarrow> pton_digit ts v (b64 2 k t) = Some (True, b64 3 (Suc k)
      (t[k := t ! k OR drop_bit 2 v, Suc k := push_bit 6 (v AND 0x03)]))"
    and "k < unat ts \<Longrightarrow> pton_digit ts v (b64 3 k t) = Some (True, b64 0 (Suc k) (t[k := t ! k OR v]))"
  using assms
  by (simp_all add: pton_digit_def of_nat_Suc_word index_ge b64_access del: of_nat_Suc)

lemmas pton_steps = pton_digit_steps [unfolded One_nat_def]

lemma pton_1:
  assumes "Suc k < 2 ^ 32" and "Suc k < unat ts" and "unat ts \<le> length t"
  shows "pton_loop ts (map digit [drop_bit 2 a, push_bit 4 (take_bit 2 a)] @ src) (b64 0 k t) =
    pton_loop ts src (b64 2 (Suc k) (t[k := a, Suc k := 0]))"
  using assms
  by (simp add: pton_loop_digit groups_small pton_steps b64_join
      del: of_nat_Suc pton_loop.simps push_bit_and push_bit_or drop_bit_or)

lemma pton_2:
  assumes "k + 2 < 2 ^ 32" and "k + 2 < unat ts" and "unat ts \<le> length t"
  shows "pton_loop ts (map digit [drop_bit 2 a, push_bit 4 (take_bit 2 a) OR drop_bit 4 b,
      push_bit 2 (take_bit 4 b)] @ src) (b64 0 k t) =
    pton_loop ts src (b64 3 (Suc (Suc k)) (t[k := a, Suc k := b, Suc (Suc k) := 0]))"
  using assms
  by (simp add: pton_loop_digit groups_small pton_steps b64_join
      del: of_nat_Suc pton_loop.simps push_bit_and push_bit_or drop_bit_or)

lemma pton_3:
  assumes "k + 3 < 2 ^ 32" and "k + 3 \<le> unat ts" and "unat ts \<le> length t"
  shows "pton_loop ts (map digit (b64_output a b c) @ src) (b64 0 k t) =
    pton_loop ts src (b64 0 (Suc (Suc (Suc k))) (t[k := a, Suc k := b, Suc (Suc k) := c]))"
  using assms
  by (simp add: b64_output_groups pton_loop_digit groups_small pton_steps b64_join
      del: of_nat_Suc pton_loop.simps push_bit_and push_bit_or drop_bit_or)

text \<open>\<open>f_b64_pton\<close> from the loop head on.\<close>

definition pton_from :: "size_t \<Rightarrow> byte list \<Rightarrow> b64_state \<Rightarrow> (int \<times> byte list option) option" where
  "pton_from targsize src st = do {
     (ok, ch, src, st) \<leftarrow> pton_loop targsize src st;
     if \<not> ok then Some (-1, b_target st)
     else if ch = Pad64 then do { r \<leftarrow> pton_pad src st; Some (r, b_target st) }
     else if b_state st \<noteq> 0 then Some (-1, b_target st)
     else Some (sint (b_tarindex st), b_target st) }"

lemma f_b64_pton_from:
  "f_b64_pton src target ts = pton_from ts src \<lparr>b_state = 0, b_tarindex = 0, b_target = target\<rparr>"
  by (simp add: f_b64_pton_def pton_from_def)

lemma update_overwrite: "k < length t \<Longrightarrow> t[k := a] = overwrite t k [a]"
  by (simp add: overwrite_def upd_conv_take_nth_drop)

lemma updates_overwrite:
  "Suc k < length t \<Longrightarrow> t[k := a, Suc k := b] = overwrite t k [a, b]"
  "Suc (Suc k) < length t \<Longrightarrow> t[k := a, Suc k := b, Suc (Suc k) := c] = overwrite t k [a, b, c]"
  using overwrite_overwrite [of k "[a]" "[b]" t] overwrite_overwrite [of k "[a, b]" "[c]" t]
  by (simp_all add: update_overwrite)

lemma sint_index: "n < 2 ^ 31 \<Longrightarrow> sint (of_nat n :: u32) = int n"
  using sint_small [of n] by (simp add: unsigned_of_nat take_bit_nat_eq_self)

lemma pad_end:
  assumes "k < 2 ^ 31" and "k < length t" and "t ! k = 0"
  shows "pton_pad (Pad64 # 0 # rest) (b64 2 k t) = Some (int k)"
    and "pton_pad (0 # rest) (b64 3 k t) = Some (int k)"
  using assms pad_facts
  by (simp_all add: pton_pad_def next_char_def b64_access sint_index)

definition slack :: "byte list \<Rightarrow> byte list" where
  "slack bs = (if 3 dvd length bs then [] else [0])"

lemma pton_from_text:
  assumes "k + length bs + length (slack bs) \<le> unat ts" and "unat ts \<le> length t"
    and "k + length bs < 2 ^ 31"
  shows "pton_from ts (b64_text bs @ 0 # rest) (b64 0 k t) =
    Some (int (k + length bs), Some (overwrite t k (bs @ slack bs)))"
  using assms
proof (induction bs arbitrary: k t rule: b64_text.induct)
  case 1
  then show ?case using pad_facts by (simp add: pton_from_def slack_def sint_index)
next
  case (2 a)
  have sl: "slack [a] = [0]" by (simp add: slack_def)
  have go: "pton_loop ts (b64_text [a] @ 0 # rest) (b64 0 k t) =
      pton_loop ts (Pad64 # Pad64 # 0 # rest) (b64 2 (Suc k) (t[k := a, Suc k := 0]))"
    using pton_1 [of k ts t a "Pad64 # Pad64 # 0 # rest"] 2 by (simp add: sl del: pton_loop.simps of_nat_Suc)
  show ?case
    unfolding pton_from_def go using 2 pad_facts
    by (simp add: sl pad_end updates_overwrite(1) [symmetric] del: of_nat_Suc)
next
  case (3 a b)
  have "\<not> 3 dvd (2 :: nat)" by simp
  then have sl: "slack [a, b] = [0]" by (simp add: slack_def numeral_2_eq_2)
  have go: "pton_loop ts (b64_text [a, b] @ 0 # rest) (b64 0 k t) =
      pton_loop ts (Pad64 # 0 # rest) (b64 3 (Suc (Suc k)) (t[k := a, Suc k := b, Suc (Suc k) := 0]))"
    using pton_2 [of k ts t a b "Pad64 # 0 # rest"] 3 by (simp add: sl del: pton_loop.simps of_nat_Suc)
  show ?case
    unfolding pton_from_def go using 3 pad_facts
    by (simp add: sl pad_end updates_overwrite(2) [symmetric] del: of_nat_Suc)
next
  case (4 a b c bs)
  have sl: "slack (a # b # c # bs) = slack bs"
    using dvd_add_triv_right_iff [of 3 "length bs"] by (simp add: slack_def numeral_3_eq_3)
  have len: "length (a # b # c # bs) = length bs + 3" by simp
  note bounds = 4(2-4) [unfolded sl len]
  have "pton_loop ts (b64_text (a # b # c # bs) @ 0 # rest) (b64 0 k t) =
      pton_loop ts (b64_text bs @ 0 # rest) (b64 0 (k + 3) (overwrite t k [a, b, c]))"
    unfolding b64_text_group append_assoc
    using pton_3 [of k ts t a b c "b64_text bs @ 0 # rest"] bounds
    by (simp add: updates_overwrite(2) numeral_3_eq_3 del: of_nat_Suc)
  then have "pton_from ts (b64_text (a # b # c # bs) @ 0 # rest) (b64 0 k t) =
      pton_from ts (b64_text bs @ 0 # rest) (b64 0 (k + 3) (overwrite t k [a, b, c]))"
    unfolding pton_from_def by simp
  also have "\<dots> = Some (int (k + 3 + length bs),
      Some (overwrite (overwrite t k [a, b, c]) (k + 3) (bs @ slack bs)))"
    using bounds by (intro 4(1)) auto
  also have "overwrite (overwrite t k [a, b, c]) (k + 3) (bs @ slack bs) =
      overwrite t k ((a # b # c # bs) @ slack (a # b # c # bs))"
    using overwrite_overwrite [of k "[a, b, c]" "bs @ slack bs" t] bounds by (simp add: sl numeral_3_eq_3)
  finally show ?case by (simp add: ac_simps)
qed

section \<open>The decoder is safe on every text\<close>

text \<open>
  A NUL-terminated text of ASCII characters (or 255, which reads as \<open>EOF\<close>); \<open>pton_ok\<close>
  is the loop invariant: between the digits of a group the byte being assembled is
  inside the target.
\<close>

definition ascii_string :: "byte list \<Rightarrow> bool" where
  "ascii_string src \<longleftrightarrow> list_all (\<lambda>c. c_isspace c \<noteq> None) src \<and> 0 \<in> set src"

definition pton_ok :: "size_t \<Rightarrow> nat \<Rightarrow> b64_state \<Rightarrow> bool" where
  "pton_ok ts n st \<longleftrightarrow> b_state st \<le> 3 \<and> unat (b_tarindex st) + n < 2 ^ 32 \<and>
     (case b_target st of None \<Rightarrow> True
      | Some t \<Rightarrow> unat ts \<le> length t \<and> (b_state st \<noteq> 0 \<longrightarrow> unat (b_tarindex st) < unat ts))"

text \<open>The target keeps its length and what lies beyond \<open>targsize\<close>.\<close>

definition within :: "size_t \<Rightarrow> byte list option \<Rightarrow> byte list option \<Rightarrow> bool" where
  "within ts t u \<longleftrightarrow> (case (t, u) of (None, None) \<Rightarrow> True
     | (Some t, Some u) \<Rightarrow> length u = length t \<and> drop (unat ts) u = drop (unat ts) t | _ \<Rightarrow> False)"

lemma within_refl [simp]: "within ts t t"
  by (simp add: within_def split: option.split)

lemma within_trans: "within ts t u \<Longrightarrow> within ts u v \<Longrightarrow> within ts t v"
  by (auto simp: within_def split: option.splits)

lemma index_ge_word: "ts \<le> ucast (i :: u32) \<longleftrightarrow> unat (ts :: size_t) \<le> unat i"
  using index_ge [of "unat i" ts] unat_lt [of i] by simp

lemma tarindex_Suc: "unat (i :: u32) + n < 2 ^ 32 \<Longrightarrow> 0 < n \<Longrightarrow> unat (i + 1) = Suc (unat i)"
  by (subst unat_add_small) auto

lemma pton_digit_safe:
  assumes "pton_ok ts (Suc n) st"
  obtains ok st' where "pton_digit ts v st = Some (ok, st')" "pton_ok ts n st'"
    "within ts (b_target st) (b_target st')"
proof -
  have i: "unat (b_tarindex st + 1) = Suc (unat (b_tarindex st))"
    using assms by (intro tarindex_Suc [of _ "Suc n"]) (auto simp: pton_ok_def)
  have "\<exists>ok st'. pton_digit ts v st = Some (ok, st') \<and> pton_ok ts n st' \<and>
      within ts (b_target st) (b_target st')"
    using assms i
    by (cases "b_target st")
      (auto simp: pton_digit_def pton_ok_def within_def index_ge_word b64_get_def b64_set_def Let_def)
  then show thesis using that by blast
qed

lemma pton_loop_safe:
  assumes "ascii_string src" and "pton_ok ts (length src) st"
  obtains ok ch rest st' where "pton_loop ts src st = Some (ok, ch, rest, st')" "pton_ok ts 0 st'"
    "within ts (b_target st) (b_target st')" "ok \<Longrightarrow> ch = 0 \<or> ch = Pad64 \<and> ascii_string rest"
proof -
  have "\<exists>ok ch rest st'. pton_loop ts src st = Some (ok, ch, rest, st') \<and> pton_ok ts 0 st' \<and>
      within ts (b_target st) (b_target st') \<and> (ok \<longrightarrow> ch = 0 \<or> ch = Pad64 \<and> ascii_string rest)"
    using assms
  proof (induction src arbitrary: st)
    case (Cons c src)
    have ok0: "pton_ok ts 0 st" and okn: "pton_ok ts (length src) st"
      using Cons.prems(2) by (auto simp: pton_ok_def)
    show ?case
    proof (cases "c = 0")
      case False
      then have asc: "ascii_string src" and "c_isspace c \<noteq> None"
        using Cons.prems(1) by (auto simp: ascii_string_def)
      then obtain sp where sp: "c_isspace c = Some sp" by auto
      consider "sp" | "\<not> sp" "c = Pad64" | "\<not> sp" "c \<noteq> Pad64" "b64_pos c = None"
        | v where "\<not> sp" "c \<noteq> Pad64" "b64_pos c = Some v" by blast
      then show ?thesis
      proof cases
        case 1
        then show ?thesis using False sp Cons.IH [OF asc okn] by simp
      next
        case (4 v)
        from Cons.prems(2) obtain ok st' where d: "pton_digit ts v st = Some (ok, st')"
          "pton_ok ts (length src) st'" "within ts (b_target st) (b_target st')"
          using pton_digit_safe [of ts "length src" st v] by auto
        from d(2) have "pton_ok ts 0 st'" by (auto simp: pton_ok_def)
        then show ?thesis
          using False sp 4 d Cons.IH [OF asc d(2)] within_trans [OF d(3)] by (cases ok) auto
      qed (use False sp asc ok0 in auto)
    qed (use ok0 in auto)
  qed (simp add: ascii_string_def)
  then show thesis using that by blast
qed

lemma skip_spaces_safe:
  assumes "ascii_string (ch # src)"
  obtains ch' src' where "skip_spaces ch src = Some (ch', src')" "ch' = 0 \<or> ascii_string src'"
proof -
  have "\<exists>ch' src'. skip_spaces ch src = Some (ch', src') \<and> (ch' = 0 \<or> ascii_string src')"
    using assms
  proof (induction src arbitrary: ch)
    case Nil
    then show ?case by (auto simp: ascii_string_def)
  next
    case (Cons c src)
    then show ?case
      by (cases "ch = 0") (auto simp: ascii_string_def split: bind_splits)
  qed
  then show thesis using that by blast
qed

declare skip_spaces.simps [simp del]

lemma pton_pad_safe:
  assumes "ascii_string src" and "pton_ok ts 0 st"
  shows "\<exists>r. pton_pad src st = Some r"
proof -
  obtain c cs where src: "src = c # cs" using assms(1) by (cases src) (auto simp: ascii_string_def)
  have fin: "\<exists>r. (case b_target st of None \<Rightarrow> Some (sint (b_tarindex st))
      | Some t \<Rightarrow> do { extra \<leftarrow> b64_get t (b_tarindex st);
          if extra \<noteq> 0 then Some (-1) else Some (sint (b_tarindex st)) }) = Some r" if "b_state st \<noteq> 0"
    using assms(2) that by (auto simp: pton_ok_def b64_get_def split: option.splits)
  obtain c1 cs1 where s1: "skip_spaces c cs = Some (c1, cs1)" "c1 = 0 \<or> ascii_string cs1"
    using skip_spaces_safe assms(1) unfolding src by blast
  show ?thesis
  proof (cases "b_state st = 2 \<and> c1 = Pad64")
    case True
    then have "ascii_string cs1" using s1(2) pad_facts(1) by auto
    then obtain c2 cs2 where c2: "cs1 = c2 # cs2" by (cases cs1) (auto simp: ascii_string_def)
    with \<open>ascii_string cs1\<close> obtain c3 cs3 where "skip_spaces c2 cs2 = Some (c3, cs3)"
      using skip_spaces_safe by blast
    then show ?thesis
      using True s1 c2 fin by (simp add: pton_pad_def src next_char_def)
  next
    case False
    then show ?thesis
      using s1 fin by (auto simp: pton_pad_def src next_char_def)
  qed
qed

section \<open>Properties\<close>

text \<open>C36. \<open>f_b64_ntop\<close>, given a target with room for the text and its terminator, writes
  exactly the base64 text of the source followed by NUL, returns its length, and leaves
  the rest of the target alone.\<close>

theorem b64_encode_correct:
  assumes "4 * ((length bs + 2) div 3) < unat targsize" and "unat targsize \<le> length target"
    and "unat targsize < 2 ^ 31"
  shows "f_b64_ntop (bs @ rest) (of_nat (length bs)) target targsize =
    Some (int (4 * ((length bs + 2) div 3)), b64_text bs @ [0] @ drop (4 * ((length bs + 2) div 3) + 1) target)"
  using f_b64_ntop_fits [of bs targsize target rest] assms by (simp add: length_b64_text)

theorem b64_encode_correct_witness:
  "f_b64_ntop [77, 97] 2 [9, 9, 9, 9, 9, 9] 5 = Some (4, [84, 87, 69, 61, 0, 9])"
proof -
  have t: "b64_text [77, 97] = [84, 87, 69, 61]" by code_simp
  show ?thesis
    using b64_encode_correct [of "[77, 97]" 5 "[9, 9, 9, 9, 9, 9]" "[]", unfolded t] by simp
qed

text \<open>\<open>f_b64_ntop\<close> is safe for every source and every target size: it never writes at or
  beyond \<open>targsize\<close>, and it returns -1 exactly when text and terminator do not fit.\<close>

theorem b64_encode_never_overruns:
  assumes "length bs < 2 ^ 64" and "unat targsize \<le> length target" and "unat targsize < 2 ^ 31"
  shows "\<exists>r t. f_b64_ntop (bs @ rest) (of_nat (length bs)) target targsize = Some (r, t) \<and>
    length t = length target \<and> drop (unat targsize) t = drop (unat targsize) target \<and>
    (r = -1 \<longleftrightarrow> unat targsize \<le> 4 * ((length bs + 2) div 3))"
proof (cases "length (b64_text bs) < unat targsize")
  case True
  then have "f_b64_ntop (bs @ rest) (of_nat (length bs)) target targsize =
      Some (int (length (b64_text bs)), overwrite target 0 (b64_text bs @ [0]))"
    using f_b64_ntop_fits [of bs targsize target rest] assms by (simp add: overwrite_def)
  then show ?thesis
    using True assms(2) length_b64_text [of bs] by (auto simp: drop_overwrite)
next
  case False
  then show ?thesis
    using f_b64_ntop_full [of targsize bs target rest] assms by (auto simp: length_b64_text)
qed

theorem b64_encode_never_overruns_witness:
  "\<exists>t. f_b64_ntop [77, 97] 2 [9, 9, 9, 9, 9, 9] 4 = Some (-1, t) \<and> drop 4 t = [9, 9]"
  using b64_encode_never_overruns [of "[77, 97]" 4 "[9, 9, 9, 9, 9, 9]" "[]"] by auto

text \<open>C35. Decoding inverts encoding: \<open>f_b64_pton\<close> on the base64 text of any bytes returns
  their number and has stored them. It needs one byte more than the data (the decoder
  starts the next byte before it sees the padding) and touches nothing beyond it.\<close>

theorem b64_decode_inverts_encode:
  assumes "length bs + 1 \<le> unat targsize" and "unat targsize \<le> length target" and "length bs < 2 ^ 31"
  shows "\<exists>t. f_b64_pton (b64_text bs @ 0 # rest) (Some target) targsize = Some (int (length bs), Some t) \<and>
    length t = length target \<and> take (length bs) t = bs \<and> drop (length bs + 1) t = drop (length bs + 1) target"
proof -
  have len: "length (slack bs) \<le> 1" by (simp add: slack_def)
  have "f_b64_pton (b64_text bs @ 0 # rest) (Some target) targsize =
      Some (int (length bs), Some (overwrite target 0 (bs @ slack bs)))"
    using pton_from_text [of 0 bs targsize target rest] assms len by (simp add: f_b64_pton_from)
  then show ?thesis
    using assms len by (auto simp: overwrite_def)
qed

theorem b64_decode_inverts_encode_witness:
  "\<exists>t. f_b64_pton [84, 87, 69, 61, 0] (Some [9, 9, 9, 9]) 3 = Some (2, Some t) \<and>
     take 2 t = [77, 97] \<and> drop 3 t = [9]"
proof -
  have t: "b64_text [77, 97] = [84, 87, 69, 61]" by code_simp
  have "\<exists>t. f_b64_pton [84, 87, 69, 61, 0] (Some [9, 9, 9, 9]) 3 = Some (2, Some t) \<and>
      take (Suc (Suc 0)) t = [77, 97] \<and> drop (Suc (Suc (Suc 0))) t = [9]"
    using b64_decode_inverts_encode [of "[77, 97]" 3 "[9, 9, 9, 9]" "[]", unfolded t] by auto
  then show ?thesis unfolding numeral_2_eq_2 numeral_3_eq_3 .
qed

text \<open>C37. \<open>f_b64_pton\<close> is safe on every NUL-terminated ASCII text, valid base64 or not, with or
  without a target: it reads no byte behind the terminator, and it keeps every byte of the
  target at or beyond \<open>targsize\<close>.\<close>

theorem b64_decode_safe:
  assumes "ascii_string src" and "length src < 2 ^ 31"
    and "\<And>t. target = Some t \<Longrightarrow> unat targsize \<le> length t"
  shows "\<exists>r t. f_b64_pton src target targsize = Some (r, t) \<and> within targsize target t"
proof -
  have "pton_ok targsize (length src) \<lparr>b_state = 0, b_tarindex = 0, b_target = target\<rparr>"
    using assms(2,3) by (auto simp: pton_ok_def split: option.split)
  then obtain ok ch rest st where loop: "pton_loop targsize src \<lparr>b_state = 0, b_tarindex = 0, b_target = target\<rparr>
      = Some (ok, ch, rest, st)" "pton_ok targsize 0 st" "within targsize target (b_target st)"
      "ok \<Longrightarrow> ch = 0 \<or> ch = Pad64 \<and> ascii_string rest"
    using pton_loop_safe [OF assms(1)] by (metis b64_state.select_convs(3))
  then show ?thesis
    using pton_pad_safe [OF _ loop(2), of rest] pad_facts(1) by (cases ok) (auto simp: f_b64_pton_def)
qed

theorem b64_decode_safe_witness:
  "\<exists>r t. f_b64_pton [84, 87, 32, 64, 0] (Some [9, 9]) 1 = Some (r, t) \<and> within 1 (Some [9, 9]) t"
proof -
  have "ascii_string [84, 87, 32, 64, 0]" by code_simp
  then show ?thesis by (rule b64_decode_safe) auto
qed

end
