(* ===== verification/Pb_Common.thy ===== *)
theory Pb_Common
  imports Pb_Types
begin

text \<open>
  The field iterator of \<open>pb_common.c\<close>, used by the encoder and the decoder alike. A
  descriptor array is a list of descriptors that ends in a terminator (tag 0); the
  iterator's \<open>pos\<close> pointer is an index into it, and dereferencing it outside the array is
  undefined. The theory relates the incremental pointer arithmetic of the iterator to an
  absolute layout (\<open>field_off\<close>, \<open>iter_at\<close>) and shows that a search visits every field
  once and always comes back.
\<close>

section \<open>The iterator\<close>

record pb_field_iter_t =
  it_start :: "pb_field_t list"
  it_pos :: nat
  it_required_field_index :: u32
  it_dest_struct :: addr
  it_pData :: addr
  it_pSize :: addr

definition get_field :: "pb_field_t list \<Rightarrow> nat \<Rightarrow> pb_field_t option" where
  "get_field fs i = (if i < length fs then Some (fs ! i) else None)"

definition pb_field_iter_begin :: "pb_field_t list \<Rightarrow> addr \<Rightarrow> (bool \<times> pb_field_iter_t) option" where
  "pb_field_iter_begin fs dest_struct = do {
     f \<leftarrow> get_field fs 0;
     let pData = dest_struct + uint (f_data_offset f);
     let pSize = pData + sint (f_size_offset f);
     Some (f_tag f \<noteq> 0, \<lparr>it_start = fs, it_pos = 0, it_required_field_index = 0,
       it_dest_struct = dest_struct, it_pData = pData, it_pSize = pSize\<rparr>) }"

definition prev_size :: "pb_field_t \<Rightarrow> int" where
  "prev_size prev = (if PB_ATYPE (f_type prev) = PB_ATYPE_STATIC \<and> PB_HTYPE (f_type prev) = PB_HTYPE_REPEATED
     then uint (f_data_size prev) * uint (f_array_size prev)
     else if PB_ATYPE (f_type prev) = PB_ATYPE_POINTER then 8
     else uint (f_data_size prev))"

definition same_union :: "pb_field_t \<Rightarrow> pb_field_t \<Rightarrow> bool" where
  "same_union prev f \<longleftrightarrow> PB_HTYPE (f_type prev) = PB_HTYPE_ONEOF \<and>
     PB_HTYPE (f_type f) = PB_HTYPE_ONEOF \<and> f_data_offset f = PB_SIZE_MAX"

definition pb_field_iter_next :: "pb_field_iter_t \<Rightarrow> (bool \<times> pb_field_iter_t) option" where
  "pb_field_iter_next it = do {
     prev \<leftarrow> get_field (it_start it) (it_pos it);
     if f_tag prev = 0 then Some (False, it)
     else do {
       f \<leftarrow> get_field (it_start it) (Suc (it_pos it));
       if f_tag f = 0 then do {
         (_, it') \<leftarrow> pb_field_iter_begin (it_start it) (it_dest_struct it);
         Some (False, it') }
       else if same_union prev f then Some (True, it\<lparr>it_pos := Suc (it_pos it)\<rparr>)
       else let req = (if PB_HTYPE (f_type prev) = PB_HTYPE_REQUIRED then 1 else 0);
                pData = it_pData it + prev_size prev + uint (f_data_offset f) in
         Some (True, it\<lparr>it_pos := Suc (it_pos it),
           it_required_field_index := it_required_field_index it + req,
           it_pData := pData, it_pSize := pData + sint (f_size_offset f)\<rparr>) } }"

text \<open>
  Both searches of the library step the iterator until a field is acceptable or the
  starting position comes round again. The first argument bounds the number of visited
  fields; the array's length is always enough (\<open>iter_search_iter_at\<close>).
\<close>

fun iter_search :: "nat \<Rightarrow> (pb_field_t \<Rightarrow> bool) \<Rightarrow> nat \<Rightarrow> pb_field_iter_t \<Rightarrow> (bool \<times> pb_field_iter_t) option" where
  "iter_search 0 P start it = None"
| "iter_search (Suc k) P start it = do {
     f \<leftarrow> get_field (it_start it) (it_pos it);
     if P f then Some (True, it)
     else do {
       (_, it') \<leftarrow> pb_field_iter_next it;
       if it_pos it' \<noteq> start then iter_search k P start it' else Some (False, it') } }"

definition pb_field_iter_find :: "pb_field_iter_t \<Rightarrow> u32 \<Rightarrow> (bool \<times> pb_field_iter_t) option" where
  "pb_field_iter_find it tag = iter_search (length (it_start it))
     (\<lambda>f. f_tag f = tag \<and> PB_LTYPE (f_type f) \<noteq> PB_LTYPE_EXTENSION) (it_pos it) it"

section \<open>Absolute layout\<close>

definition terminated :: "pb_field_t list \<Rightarrow> bool" where
  "terminated fs \<longleftrightarrow> fs \<noteq> [] \<and> f_tag (last fs) = 0 \<and> (\<forall>f \<in> set (butlast fs). f_tag f \<noteq> 0)"

definition nfields :: "pb_field_t list \<Rightarrow> nat" where
  "nfields fs = length fs - 1"

fun field_off :: "pb_field_t list \<Rightarrow> nat \<Rightarrow> int" where
  "field_off fs 0 = uint (f_data_offset (fs ! 0))"
| "field_off fs (Suc i) = field_off fs i + (if same_union (fs ! i) (fs ! Suc i) then 0
     else prev_size (fs ! i) + uint (f_data_offset (fs ! Suc i)))"

text \<open>The size pointer is that of the first field of a union.\<close>

fun size_index :: "pb_field_t list \<Rightarrow> nat \<Rightarrow> nat" where
  "size_index fs 0 = 0"
| "size_index fs (Suc i) = (if same_union (fs ! i) (fs ! Suc i) then size_index fs i else Suc i)"

fun required_before :: "pb_field_t list \<Rightarrow> nat \<Rightarrow> nat" where
  "required_before fs 0 = 0"
| "required_before fs (Suc i) =
     required_before fs i + (if PB_HTYPE (f_type (fs ! i)) = PB_HTYPE_REQUIRED then 1 else 0)"

definition iter_at :: "pb_field_t list \<Rightarrow> addr \<Rightarrow> nat \<Rightarrow> pb_field_iter_t" where
  "iter_at fs dest i = \<lparr>it_start = fs, it_pos = i,
     it_required_field_index = of_nat (required_before fs i), it_dest_struct = dest,
     it_pData = dest + field_off fs i,
     it_pSize = dest + field_off fs i + sint (f_size_offset (fs ! size_index fs i))\<rparr>"

lemma iter_at_simps [simp]:
  "it_start (iter_at fs d i) = fs" "it_pos (iter_at fs d i) = i"
  "it_dest_struct (iter_at fs d i) = d" "it_pData (iter_at fs d i) = d + field_off fs i"
  by (simp_all add: iter_at_def)

lemma terminated_length: "terminated fs \<Longrightarrow> length fs = Suc (nfields fs)"
  by (cases fs) (auto simp: terminated_def nfields_def)

lemma terminated_tag: "terminated fs \<Longrightarrow> i < length fs \<Longrightarrow> (f_tag (fs ! i) = 0) = (i = nfields fs)"
proof (cases "i = nfields fs")
  case False
  assume t: "terminated fs" and "i < length fs"
  with False have i: "i < length (butlast fs)" by (simp add: nfields_def)
  then have "butlast fs ! i \<in> set (butlast fs)" by (rule nth_mem)
  with t i False show ?thesis by (auto simp: terminated_def nth_butlast)
qed (auto simp: terminated_def nfields_def last_conv_nth)

lemma iter_begin_iter_at:
  "terminated fs \<Longrightarrow> pb_field_iter_begin fs d = Some (nfields fs \<noteq> 0, iter_at fs d 0)"
  using terminated_tag [of fs 0] terminated_length [of fs]
  by (auto simp: pb_field_iter_begin_def get_field_def iter_at_def Let_def)

lemma union_not_required: "same_union f g \<Longrightarrow> PB_HTYPE (f_type f) \<noteq> PB_HTYPE_REQUIRED"
  by (auto simp: same_union_def pb_const)

lemma iter_next_iter_at:
  assumes "terminated fs" and "i < nfields fs"
  shows "pb_field_iter_next (iter_at fs d i) =
    (if Suc i < nfields fs then Some (True, iter_at fs d (Suc i)) else Some (False, iter_at fs d 0))"
proof -
  have len: "length fs = Suc (nfields fs)" using assms(1) by (rule terminated_length)
  have "f_tag (fs ! i) \<noteq> 0" and next0: "f_tag (fs ! Suc i) = 0 \<longleftrightarrow> Suc i = nfields fs"
    using assms terminated_tag [OF assms(1)] len by auto
  then show ?thesis
    using assms len iter_begin_iter_at [OF assms(1)] union_not_required
    by (auto simp: pb_field_iter_next_def get_field_def iter_at_def Let_def)
qed

lemma iter_next_empty:
  "terminated fs \<Longrightarrow> nfields fs = 0 \<Longrightarrow> pb_field_iter_next (iter_at fs d 0) = Some (False, iter_at fs d 0)"
  using terminated_tag [of fs 0] terminated_length [of fs]
  by (auto simp: pb_field_iter_next_def get_field_def)

section \<open>Searching\<close>

text \<open>The indices a search visits: from \<open>j\<close> on, cyclically, \<open>r\<close> of them.\<close>

definition visits :: "nat \<Rightarrow> nat \<Rightarrow> nat \<Rightarrow> nat list" where
  "visits n j r = map (\<lambda>t. (j + t) mod n) [0..<r]"

lemma visits_Suc: "visits n j (Suc r) = j mod n # visits n (Suc j) r"
  by (simp add: visits_def upt_conv_Cons map_Suc_upt [symmetric] del: upt_Suc)

lemma visits_mod: "visits n (j mod n) r = visits n j r"
  by (simp add: visits_def mod_simps)

lemma set_visits_full: "0 < n \<Longrightarrow> set (visits n j n) = {..<n}"
proof
  assume n: "0 < n"
  show "set (visits n j n) \<subseteq> {..<n}"
    using n by (auto simp: visits_def)
  show "{..<n} \<subseteq> set (visits n j n)"
  proof
    fix q assume "q \<in> {..<n}"
    then have q: "q < n" by simp
    let ?t = "(q + n - j mod n) mod n"
    have "j mod n \<le> n" using n by (simp add: less_imp_le)
    then have "j + (q + n - j mod n) = q + n + n * (j div n)"
      using mult_div_mod_eq [of n j] by linarith
    then have "(j + ?t) mod n = q"
      using q by (simp add: mod_add_right_eq)
    moreover have "?t \<in> set [0..<n]" using n by simp
    ultimately show "q \<in> set (visits n j n)"
      unfolding visits_def by force
  qed
qed

lemma iter_search_iter_at:
  assumes "terminated fs" and "j < nfields fs" and "(j + r) mod nfields fs = i"
    and "0 < r" and "r \<le> nfields fs" and "r \<le> k"
  shows "iter_search k P i (iter_at fs d j) =
    (case find (\<lambda>q. P (fs ! q)) (visits (nfields fs) j r) of
       Some q \<Rightarrow> Some (True, iter_at fs d q)
     | None \<Rightarrow> Some (False, iter_at fs d i))"
  using assms(2-6)
proof (induction r arbitrary: j k)
  case (Suc r)
  let ?n = "nfields fs"
  let ?j = "Suc j mod ?n"
  obtain k' where k: "k = Suc k'" using Suc.prems by (cases k) auto
  have j: "j < length fs" "get_field fs j = Some (fs ! j)"
    using Suc.prems terminated_length [OF assms(1)] by (auto simp: get_field_def)
  have step: "\<exists>b. pb_field_iter_next (iter_at fs d j) = Some (b, iter_at fs d ?j)"
    using Suc.prems iter_next_iter_at [OF assms(1) Suc.prems(1), of d]
    by (auto simp: mod_Suc)
  have i: "(?j + r) mod ?n = i" "?j < ?n"
    using Suc.prems by (auto simp: mod_simps)
  show ?case
  proof (cases "P (fs ! j)")
    case True
    then show ?thesis using Suc.prems j by (simp add: k visits_Suc)
  next
    case False
    show ?thesis
    proof (cases "r = 0")
      case True
      with False step i j Suc.prems show ?thesis by (auto simp: k visits_def)
    next
      case r: False
      have "?j \<noteq> i"
      proof
        assume "?j = i"
        then have "(?j + r) mod ?n = (?j + 0) mod ?n" using i by simp
        then have "?n dvd r" by (metis add_right_imp_eq mod_eq_dvd_iff_nat le_add1 add_diff_cancel_left' add.right_neutral)
        with r Suc.prems show False using dvd_imp_le [of ?n r] by simp
      qed
      then show ?thesis
        using Suc.IH [OF i(2) i(1), of k'] False step j r Suc.prems
        by (auto simp: k visits_Suc visits_mod)
    qed
  qed
qed simp

text \<open>
  A search from any field finds the next acceptable one in cyclic order, or reports
  failure after having looked at every field, back at the field it started from.
\<close>

lemma iter_search_full:
  assumes "terminated fs" and "i < nfields fs"
  shows "iter_search (length fs) P i (iter_at fs d i) =
    (case find (\<lambda>q. P (fs ! q)) (visits (nfields fs) i (nfields fs)) of
       Some q \<Rightarrow> Some (True, iter_at fs d q)
     | None \<Rightarrow> Some (False, iter_at fs d i))"
  using assms terminated_length [OF assms(1)] by (intro iter_search_iter_at) auto

lemma find_full_None:
  "0 < n \<Longrightarrow> find P (visits n i n) = None \<longleftrightarrow> (\<forall>q < n. \<not> P q)"
  by (auto simp: find_None_iff set_visits_full)

lemma find_full_Some:
  "0 < n \<Longrightarrow> find P (visits n i n) = Some q \<Longrightarrow> q < n \<and> P q"
  using find_Some_iff [of P "visits n i n" q] set_visits_full [of n i] nth_mem by fastforce

section \<open>Properties\<close>

text \<open>C34. \<open>pb_field_iter_find\<close>, started at any field of a terminated descriptor array,
  returns true exactly when some field has the tag and is no extension, and then stands
  on such a field; otherwise it is back where it started. It always returns.\<close>

theorem iter_find_correct:
  assumes "terminated fs" and "i < nfields fs"
  shows "\<exists>found q. pb_field_iter_find (iter_at fs d i) tag = Some (found, iter_at fs d q) \<and> q < nfields fs \<and>
    (if found then f_tag (fs ! q) = tag \<and> PB_LTYPE (f_type (fs ! q)) \<noteq> PB_LTYPE_EXTENSION
     else q = i \<and> (\<forall>j < nfields fs. f_tag (fs ! j) = tag \<longrightarrow> PB_LTYPE (f_type (fs ! j)) = PB_LTYPE_EXTENSION))"
proof -
  let ?P = "\<lambda>f. f_tag f = tag \<and> PB_LTYPE (f_type f) \<noteq> PB_LTYPE_EXTENSION"
  have n: "0 < nfields fs" using assms(2) by simp
  note search = iter_search_full [OF assms, of ?P d]
  show ?thesis
  proof (cases "find (\<lambda>q. ?P (fs ! q)) (visits (nfields fs) i (nfields fs))")
    case None
    then show ?thesis
      using search assms(2) find_full_None [OF n, of "\<lambda>q. ?P (fs ! q)" i]
      by (intro exI [of _ False] exI [of _ i]) (auto simp: pb_field_iter_find_def)
  next
    case (Some q)
    then show ?thesis
      using search find_full_Some [OF n Some] by (intro exI [of _ True] exI [of _ q]) (simp add: pb_field_iter_find_def)
  qed
qed

theorem iter_find_correct_witness:
  "pb_field_iter_find (iter_at [PB_LAST_FIELD\<lparr>f_tag := 4\<rparr>, PB_LAST_FIELD\<lparr>f_tag := 7\<rparr>, PB_LAST_FIELD] 64 1) 9 =
     Some (False, iter_at [PB_LAST_FIELD\<lparr>f_tag := 4\<rparr>, PB_LAST_FIELD\<lparr>f_tag := 7\<rparr>, PB_LAST_FIELD] 64 1)"
proof -
  let ?fs = "[PB_LAST_FIELD\<lparr>f_tag := 4\<rparr>, PB_LAST_FIELD\<lparr>f_tag := 7\<rparr>, PB_LAST_FIELD]"
  have "terminated ?fs" "1 < nfields ?fs" by (simp_all add: terminated_def nfields_def PB_LAST_FIELD_def)
  from iter_find_correct [OF this, of 64 9] show ?thesis
    by (auto simp: nfields_def PB_LAST_FIELD_def less_Suc_eq split: if_splits)
qed

end
