(* ===== verification/Pb_Env.thy ===== *)
theory Pb_Env
  imports Pb_Memory Pb_Common Pb_Varint Pb_Ostream
begin

text \<open>
  What a message encoder or decoder finds behind the pointers of a message and of its
  descriptors, apart from data: descriptor arrays and the caller's callback functions.
  They are tables indexed by address. A callback is code of the application, so it is a
  parameter: any function of the memory, the stream and its arguments. A call through an
  address that no function has is undefined.

  The theory also has the \<open>do ... while (pb_field_iter_next(&iter))\<close> loop that the
  encoder and the decoder run over the fields of a message, and its meaning: the body is
  applied to the fields in order until it fails.
\<close>

type_synonym eres = "(bool \<times> pb_ostream_t \<times> mem) option"
type_synonym dres = "(bool \<times> pb_istream_t \<times> mem) option"

record pb_env =
  env_fields :: "addr \<Rightarrow> pb_field_t list"
  env_encode :: "addr \<Rightarrow> (mem \<Rightarrow> pb_ostream_t \<Rightarrow> pb_field_t \<Rightarrow> addr \<Rightarrow> eres) option"
  env_decode :: "addr \<Rightarrow> (mem \<Rightarrow> pb_istream_t \<Rightarrow> pb_field_t \<Rightarrow> addr \<Rightarrow> dres) option"
  env_ext_encode :: "addr \<Rightarrow> (mem \<Rightarrow> pb_ostream_t \<Rightarrow> addr \<Rightarrow> eres) option"
  env_ext_decode :: "addr \<Rightarrow> (mem \<Rightarrow> pb_istream_t \<Rightarrow> addr \<Rightarrow> u32 \<Rightarrow> pb_wire_type_t \<Rightarrow> dres) option"

text \<open>The first argument bounds the rounds; the length of the descriptor array is enough.\<close>

fun fields_loop :: "nat \<Rightarrow> (pb_field_t \<Rightarrow> addr \<Rightarrow> 's \<Rightarrow> (bool \<times> 's) option) \<Rightarrow> pb_field_iter_t \<Rightarrow> 's \<Rightarrow> (bool \<times> 's) option" where
  "fields_loop 0 body it st = None"
| "fields_loop (Suc k) body it st = do {
     f \<leftarrow> get_field (it_start it) (it_pos it);
     (ok, st) \<leftarrow> body f (it_pData it) st;
     if \<not> ok then Some (False, st)
     else do {
       (more, it) \<leftarrow> pb_field_iter_next it;
       if more then fields_loop k body it st else Some (True, st) } }"

text \<open>The body applied to one field after the other.\<close>

fun each_field :: "('a \<Rightarrow> 's \<Rightarrow> (bool \<times> 's) option) \<Rightarrow> 'a list \<Rightarrow> 's \<Rightarrow> (bool \<times> 's) option" where
  "each_field body [] st = Some (True, st)"
| "each_field body (x # xs) st = do {
     (ok, st) \<leftarrow> body x st;
     if \<not> ok then Some (False, st) else each_field body xs st }"

lemma fields_loop_each:
  assumes "terminated fs" and "i < nfields fs" and "nfields fs - i \<le> k"
  shows "fields_loop k body (iter_at fs d i) st =
    each_field (\<lambda>q. body (fs ! q) (d + field_off fs q)) [i..<nfields fs] st"
  using assms(2,3)
proof (induction k arbitrary: i st)
  case (Suc k)
  have i: "get_field fs i = Some (fs ! i)"
    using Suc.prems terminated_length [OF assms(1)] by (simp add: get_field_def)
  have "fields_loop k body (iter_at fs d (Suc i)) st =
      each_field (\<lambda>q. body (fs ! q) (d + field_off fs q)) [Suc i..<nfields fs] st" if "Suc i < nfields fs" for st
    using Suc.IH [OF that] Suc.prems by simp
  then show ?case
    using Suc.prems iter_next_iter_at [OF assms(1) Suc.prems(1), of d]
    by (cases "Suc i < nfields fs")
      (auto simp: i upt_conv_Cons split: bind_splits intro!: Option.bind_cong)
qed simp

end
