(* ===== verification/Pb_Encode.thy ===== *)
theory Pb_Encode
  imports Pb_Env
begin

text \<open>
  The message encoder of \<open>pb_encode.c\<close>. Every C function of the file is one definition
  over memory and stream. The functions of the file call each other recursively through
  \<open>pb_encode_submessage\<close>; each takes the recursive \<open>pb_encode\<close> as an argument \<open>rec\<close>, and
  \<open>pb_encode\<close> ties the knot. Its first argument bounds the nesting depth of messages and
  the length of extension chains (a chain in memory may be cyclic); a run that exceeds
  the bound has the result \<open>None\<close>.
\<close>

section \<open>Field encoders\<close>

definition safe_read_bool :: "mem \<Rightarrow> addr \<Rightarrow> bool option" where
  "safe_read_bool m p = do { b \<leftarrow> load_u8 m p; Some (b \<noteq> 0) }"

text \<open>A value of \<open>data_size\<close> bytes, sign or zero extended; the inner \<open>None\<close> is an
  unsupported size.\<close>

definition read_signed :: "mem \<Rightarrow> pb_size_t \<Rightarrow> addr \<Rightarrow> u64 option option" where
  "read_signed m n src =
     (if n = 1 then do { v \<leftarrow> load_u8 m src; Some (Some (scast v)) }
      else if n = 2 then do { v \<leftarrow> load_u16 m src; Some (Some (scast v)) }
      else if n = 4 then do { v \<leftarrow> load_u32 m src; Some (Some (scast v)) }
      else if n = 8 then do { v \<leftarrow> load_u64 m src; Some (Some v) }
      else Some None)"

definition read_unsigned :: "mem \<Rightarrow> pb_size_t \<Rightarrow> addr \<Rightarrow> u64 option option" where
  "read_unsigned m n src =
     (if n = 1 then do { v \<leftarrow> load_u8 m src; Some (Some (ucast v)) }
      else if n = 2 then do { v \<leftarrow> load_u16 m src; Some (Some (ucast v)) }
      else if n = 4 then do { v \<leftarrow> load_u32 m src; Some (Some (ucast v)) }
      else if n = 8 then do { v \<leftarrow> load_u64 m src; Some (Some v) }
      else Some None)"

definition pb_enc_bool :: "mem \<Rightarrow> pb_ostream_t \<Rightarrow> pb_field_t \<Rightarrow> addr \<Rightarrow> ores" where
  "pb_enc_bool m s field src = do {
     b \<leftarrow> safe_read_bool m src;
     pb_encode_varint s (if b then 1 else 0) }"

definition pb_enc_varint :: "mem \<Rightarrow> pb_ostream_t \<Rightarrow> pb_field_t \<Rightarrow> addr \<Rightarrow> ores" where
  "pb_enc_varint m s field src = do {
     r \<leftarrow> read_signed m (f_data_size field) src;
     case r of
       None \<Rightarrow> Some (False, os_set_error s ''invalid data_size'')
     | Some v \<Rightarrow> pb_encode_varint s v }"

definition pb_enc_uvarint :: "mem \<Rightarrow> pb_ostream_t \<Rightarrow> pb_field_t \<Rightarrow> addr \<Rightarrow> ores" where
  "pb_enc_uvarint m s field src = do {
     r \<leftarrow> read_unsigned m (f_data_size field) src;
     case r of
       None \<Rightarrow> Some (False, os_set_error s ''invalid data_size'')
     | Some v \<Rightarrow> pb_encode_varint s v }"

definition pb_enc_svarint :: "mem \<Rightarrow> pb_ostream_t \<Rightarrow> pb_field_t \<Rightarrow> addr \<Rightarrow> ores" where
  "pb_enc_svarint m s field src = do {
     r \<leftarrow> read_signed m (f_data_size field) src;
     case r of
       None \<Rightarrow> Some (False, os_set_error s ''invalid data_size'')
     | Some v \<Rightarrow> pb_encode_svarint s v }"

definition pb_enc_fixed64 :: "mem \<Rightarrow> pb_ostream_t \<Rightarrow> pb_field_t \<Rightarrow> addr \<Rightarrow> ores" where
  "pb_enc_fixed64 m s field src = pb_encode_fixed64 m s src"

definition pb_enc_fixed32 :: "mem \<Rightarrow> pb_ostream_t \<Rightarrow> pb_field_t \<Rightarrow> addr \<Rightarrow> ores" where
  "pb_enc_fixed32 m s field src = pb_encode_fixed32 m s src"

definition pb_enc_bytes :: "mem \<Rightarrow> pb_ostream_t \<Rightarrow> pb_field_t \<Rightarrow> addr \<Rightarrow> ores" where
  "pb_enc_bytes m s field src =
     (if src = 0 then pb_encode_string s None 0
      else do {
        n \<leftarrow> load_u32 m (src + int (offsetof pb_bytes_array_s [''size'']));
        let allocsize = PB_BYTES_ARRAY_T_ALLOCSIZE (ucast n);
        if allocsize < ucast n \<or>
           (PB_ATYPE (f_type field) = PB_ATYPE_STATIC \<and> allocsize > ucast (f_data_size field))
        then Some (False, os_set_error s ''bytes size exceeded'')
        else pb_encode_string s
          (load_bytes m (src + int (offsetof pb_bytes_array_s [''bytes''])) (unat n)) (ucast n) })"

text \<open>The length loop of \<open>pb_enc_string\<close>.\<close>

function string_size :: "mem \<Rightarrow> addr \<Rightarrow> size_t \<Rightarrow> size_t \<Rightarrow> size_t option" where
  "string_size m p n max_size = (if n < max_size then
     case load_u8 m p of
       None \<Rightarrow> None
     | Some c \<Rightarrow> if c \<noteq> 0 then string_size m (p + 1) (n + 1) max_size else Some n
     else Some n)"
  by pat_completeness auto
termination
proof (relation "measure (\<lambda>(m, p, n, max_size). unat max_size - unat n)", goal_cases)
  case (2 m p n max_size)
  then have "unat (n + 1) = unat n + 1" "unat n < unat max_size"
    using unat_lt [of max_size] by (auto simp: word_less_nat_alt unat_add_small)
  then show ?case by simp
qed simp

declare string_size.simps [simp del]

definition pb_enc_string :: "mem \<Rightarrow> pb_ostream_t \<Rightarrow> pb_field_t \<Rightarrow> addr \<Rightarrow> ores" where
  "pb_enc_string m s field src = do {
     let max_size = (if PB_ATYPE (f_type field) = PB_ATYPE_POINTER then -1 else ucast (f_data_size field));
     n \<leftarrow> (if src = 0 then Some 0 else string_size m src 0 max_size);
     pb_encode_string s (load_bytes m src (unat n)) n }"

definition pb_enc_fixed_length_bytes :: "mem \<Rightarrow> pb_ostream_t \<Rightarrow> pb_field_t \<Rightarrow> addr \<Rightarrow> ores" where
  "pb_enc_fixed_length_bytes m s field src =
     pb_encode_string s (load_bytes m src (unat (f_data_size field))) (ucast (f_data_size field))"

section \<open>Submessages\<close>

type_synonym pb_encode_t = "pb_field_t list \<Rightarrow> addr \<Rightarrow> mem \<Rightarrow> pb_ostream_t \<Rightarrow> eres"
type_synonym pb_encoder_t = "mem \<Rightarrow> pb_ostream_t \<Rightarrow> pb_field_t \<Rightarrow> addr \<Rightarrow> eres"

definition keep_mem :: "mem \<Rightarrow> ores \<Rightarrow> eres" where
  "keep_mem m r = map_option (\<lambda>(ok, s). (ok, s, m)) r"

definition pb_encode_submessage :: "pb_encode_t \<Rightarrow> pb_encode_t" where
  "pb_encode_submessage rec fs src m s = do {
     (ok, sub, m) \<leftarrow> rec fs src m PB_OSTREAM_SIZING;
     if \<not> ok then Some (False, s\<lparr>os_errmsg := os_errmsg sub\<rparr>, m)
     else do {
       let n = os_bytes_written sub;
       (ok, s) \<leftarrow> pb_encode_varint s n;
       if \<not> ok then Some (False, s, m)
       else if os_sizing s then keep_mem m (pb_write s None n)
       else if os_bytes_written s + n > os_max_size s
       then Some (False, os_set_error s ''stream full'', m)
       else do {
         (status, sub, m) \<leftarrow> rec fs src m
           (sub\<lparr>os_callback := os_callback s, os_state := os_state s, os_max_size := n,
                os_bytes_written := 0, os_errmsg := None\<rparr>);
         let s = s\<lparr>os_bytes_written := os_bytes_written s + os_bytes_written sub,
                   os_state := os_state sub, os_errmsg := os_errmsg sub\<rparr>;
         if os_bytes_written sub \<noteq> n then Some (False, os_set_error s ''submsg size changed'', m)
         else Some (status, s, m) } } }"

definition pb_enc_submessage :: "pb_env \<Rightarrow> pb_encode_t \<Rightarrow> pb_encoder_t" where
  "pb_enc_submessage env rec m s field src =
     (if f_ptr field = 0 then Some (False, os_set_error s ''invalid field descriptor'', m)
      else pb_encode_submessage rec (env_fields env (f_ptr field)) src m s)"

definition no_callbacks :: "(mem \<Rightarrow> pb_ostream_t \<Rightarrow> pb_field_t \<Rightarrow> addr \<Rightarrow> ores) \<Rightarrow> pb_encoder_t" where
  "no_callbacks enc m s field src = keep_mem m (enc m s field src)"

definition PB_ENCODERS :: "pb_env \<Rightarrow> pb_encode_t \<Rightarrow> pb_encoder_t option list" where
  "PB_ENCODERS env rec = [
     Some (no_callbacks pb_enc_bool), Some (no_callbacks pb_enc_varint),
     Some (no_callbacks pb_enc_uvarint), Some (no_callbacks pb_enc_svarint),
     Some (no_callbacks pb_enc_fixed32), Some (no_callbacks pb_enc_fixed64),
     Some (no_callbacks pb_enc_bytes), Some (no_callbacks pb_enc_string),
     Some (pb_enc_submessage env rec), None, Some (no_callbacks pb_enc_fixed_length_bytes)]"

text \<open>\<open>PB_ENCODERS[PB_LTYPE(field->type)]\<close>; calling the null entry is undefined.\<close>

definition encoder_func :: "pb_env \<Rightarrow> pb_encode_t \<Rightarrow> pb_field_t \<Rightarrow> pb_encoder_t option" where
  "encoder_func env rec field = (let lt = unat (PB_LTYPE (f_type field)) in
     if lt < PB_LTYPES_COUNT
     then Some (case PB_ENCODERS env rec ! lt of None \<Rightarrow> (\<lambda>m s f p. None) | Some enc \<Rightarrow> enc)
     else None)"

section \<open>Encoding a single field\<close>

text \<open>\<open>for (i = 0; i < count; i++) { ... p += field->data_size; }\<close>\<close>

primrec each_element :: "nat \<Rightarrow> (mem \<Rightarrow> pb_ostream_t \<Rightarrow> addr \<Rightarrow> eres) \<Rightarrow> int \<Rightarrow> addr \<Rightarrow> mem \<Rightarrow> pb_ostream_t \<Rightarrow> eres" where
  "each_element 0 f step p m s = Some (True, s, m)"
| "each_element (Suc k) f step p m s = do {
     (ok, s, m) \<leftarrow> f m s p;
     if \<not> ok then Some (False, s, m) else each_element k f step (p + step) m s }"

definition encode_array :: "pb_encoder_t \<Rightarrow> mem \<Rightarrow> pb_ostream_t \<Rightarrow> pb_field_t \<Rightarrow> addr \<Rightarrow> size_t \<Rightarrow> eres" where
  "encode_array func m s field pData count =
     (if count = 0 then Some (True, s, m)
      else if PB_ATYPE (f_type field) \<noteq> PB_ATYPE_POINTER \<and> count > ucast (f_array_size field)
      then Some (False, os_set_error s ''array max size exceeded'', m)
      else if PB_LTYPE (f_type field) \<le> PB_LTYPE_LAST_PACKABLE then do {
        (ok, s) \<leftarrow> pb_encode_tag s PB_WT_STRING (f_tag field);
        if \<not> ok then Some (False, s, m)
        else do {
          (ok, n, m) \<leftarrow>
            (if PB_LTYPE (f_type field) = PB_LTYPE_FIXED32 then Some (True, 4 * count, m)
             else if PB_LTYPE (f_type field) = PB_LTYPE_FIXED64 then Some (True, 8 * count, m)
             else do {
               (ok, sizestream, m) \<leftarrow> each_element (unat count) (\<lambda>m s p. func m s field p)
                 (uint (f_data_size field)) pData m PB_OSTREAM_SIZING;
               Some (ok, os_bytes_written sizestream, m) });
          if \<not> ok then Some (False, s, m)
          else do {
            (ok, s) \<leftarrow> pb_encode_varint s n;
            if \<not> ok then Some (False, s, m)
            else if os_sizing s then keep_mem m (pb_write s None n)
            else each_element (unat count) (\<lambda>m s p. func m s field p)
              (uint (f_data_size field)) pData m s } } }
      else each_element (unat count) (\<lambda>m s p. do {
          (ok, s) \<leftarrow> pb_encode_tag_for_field s field;
          if \<not> ok then Some (False, s, m)
          else if PB_ATYPE (f_type field) = PB_ATYPE_POINTER \<and>
            (PB_LTYPE (f_type field) = PB_LTYPE_STRING \<or> PB_LTYPE (f_type field) = PB_LTYPE_BYTES)
          then do { q \<leftarrow> load_ptr m p; func m s field q }
          else func m s field p })
        (uint (f_data_size field)) pData m s)"

text \<open>The byte-per-byte comparison with zero, up to the first byte that differs.\<close>

primrec all_zero :: "nat \<Rightarrow> mem \<Rightarrow> addr \<Rightarrow> bool option" where
  "all_zero 0 m p = Some True"
| "all_zero (Suc n) m p = do { b \<leftarrow> load_u8 m p; if b \<noteq> 0 then Some False else all_zero n m (p + 1) }"

text \<open>\<open>pb_check_proto3_default_value\<close> from "Rest is proto3 singular fields" on.\<close>

definition proto3_singular_default :: "pb_env \<Rightarrow> (pb_field_t \<Rightarrow> addr \<Rightarrow> bool option) \<Rightarrow> mem \<Rightarrow> pb_field_t \<Rightarrow> addr \<Rightarrow> bool option" where
  "proto3_singular_default env rec m field pData = (let type = f_type field; lt = PB_LTYPE type in
     if PB_ATYPE type = PB_ATYPE_STATIC \<and> lt = PB_LTYPE_BYTES then do {
       n \<leftarrow> load_u32 m (pData + int (offsetof pb_bytes_array_s [''size''])); Some (n = 0) }
     else if PB_ATYPE type = PB_ATYPE_STATIC \<and> lt = PB_LTYPE_STRING then do {
       c \<leftarrow> load_u8 m pData; Some (c = 0) }
     else if PB_ATYPE type = PB_ATYPE_STATIC \<and> lt = PB_LTYPE_FIXED_LENGTH_BYTES then
       Some (f_data_size field = 0)
     else if PB_ATYPE type = PB_ATYPE_STATIC \<and> lt = PB_LTYPE_SUBMESSAGE then do {
       (ok, iter) \<leftarrow> pb_field_iter_begin (env_fields env (f_ptr field)) pData;
       if ok then do {
         (all, _) \<leftarrow> fields_loop (length (env_fields env (f_ptr field)))
           (\<lambda>f p st. do { b \<leftarrow> rec f p; Some (b, st) }) iter ();
         Some all }
       else Some True }
     else if PB_ATYPE type = PB_ATYPE_POINTER \<and> lt > PB_LTYPE_LAST_PACKABLE then do {
       p \<leftarrow> load_ptr m pData; Some (p = 0) }
     else all_zero (unat (f_data_size field)) m pData)"

primrec pb_check_proto3_default_value :: "pb_env \<Rightarrow> nat \<Rightarrow> mem \<Rightarrow> pb_field_t \<Rightarrow> addr \<Rightarrow> bool option" where
  "pb_check_proto3_default_value env 0 = (\<lambda>m field pData. None)"
| "pb_check_proto3_default_value env (Suc k) = (\<lambda>m field pData.
     let type = f_type field; pSize = pData + sint (f_size_offset field);
         singular = proto3_singular_default env (pb_check_proto3_default_value env k m) m field pData in
     if PB_HTYPE type = PB_HTYPE_REQUIRED then Some False
     else if PB_HTYPE type = PB_HTYPE_REPEATED then
       (if f_size_offset field \<noteq> 0 then do { n \<leftarrow> load_u32 m pSize; Some (n = 0) }
        else if PB_ATYPE type = PB_ATYPE_STATIC then Some False
        else singular)
     else if PB_HTYPE type = PB_HTYPE_ONEOF then do { n \<leftarrow> load_u32 m pSize; Some (n = 0) }
     else if PB_HTYPE type = PB_HTYPE_OPTIONAL \<and> f_size_offset field \<noteq> 0 then do {
       b \<leftarrow> safe_read_bool m pSize; Some (\<not> b) }
     else singular)"

text \<open>\<open>pSize\<close> points at the field's size or presence member, or at the local
  \<open>implicit_has\<close> (one byte: reading a count from it is undefined). \<open>k\<close> bounds the nesting
  of the message types that the default-value check enters.\<close>

definition encode_basic_field :: "pb_env \<Rightarrow> nat \<Rightarrow> pb_encode_t \<Rightarrow> pb_encoder_t" where
  "encode_basic_field env k rec m s field pData = do {
     func \<leftarrow> encoder_func env rec field;
     let pSize = pData + sint (f_size_offset field);
     let explicit = (f_size_offset field \<noteq> 0);
     implicit_has \<leftarrow>
       (if explicit then Some True
        else if PB_HTYPE (f_type field) = PB_HTYPE_OPTIONAL then do {
          b \<leftarrow> pb_check_proto3_default_value env k m field pData; Some (\<not> b) }
        else Some True);
     (pData, implicit_has) \<leftarrow>
       (if PB_ATYPE (f_type field) = PB_ATYPE_POINTER then do {
          p \<leftarrow> load_ptr m pData; Some (p, p \<noteq> 0) }
        else Some (pData, implicit_has));
     if PB_HTYPE (f_type field) = PB_HTYPE_REQUIRED then
       if pData = 0 then Some (False, os_set_error s ''missing required field'', m)
       else do {
         (ok, s) \<leftarrow> pb_encode_tag_for_field s field;
         if \<not> ok then Some (False, s, m) else func m s field pData }
     else if PB_HTYPE (f_type field) = PB_HTYPE_OPTIONAL then do {
       has \<leftarrow> (if explicit then safe_read_bool m pSize else Some implicit_has);
       if has then do {
         (ok, s) \<leftarrow> pb_encode_tag_for_field s field;
         if \<not> ok then Some (False, s, m) else func m s field pData }
       else Some (True, s, m) }
     else if PB_HTYPE (f_type field) = PB_HTYPE_REPEATED then do {
       count \<leftarrow> (if explicit then load_u32 m pSize else Some (f_array_size field));
       encode_array func m s field pData (ucast count) }
     else if PB_HTYPE (f_type field) = PB_HTYPE_ONEOF then do {
       which \<leftarrow> (if explicit then load_u32 m pSize else None);
       if which = f_tag field then do {
         (ok, s) \<leftarrow> pb_encode_tag_for_field s field;
         if \<not> ok then Some (False, s, m) else func m s field pData }
       else Some (True, s, m) }
     else Some (False, os_set_error s ''invalid field type'', m) }"

definition encode_callback_field :: "pb_env \<Rightarrow> pb_encoder_t" where
  "encode_callback_field env m s field pData = do {
     f \<leftarrow> load_ptr m (pData + int (offsetof pb_callback_s [''funcs'', ''encode'']));
     if f \<noteq> 0 then do {
       cb \<leftarrow> env_encode env f;
       (ok, s, m) \<leftarrow> cb m s field (pData + int (offsetof pb_callback_s [''arg'']));
       if \<not> ok then Some (False, os_set_error s ''callback error'', m) else Some (True, s, m) }
     else Some (True, s, m) }"

definition encode_field :: "pb_env \<Rightarrow> nat \<Rightarrow> pb_encode_t \<Rightarrow> pb_encoder_t" where
  "encode_field env k rec m s field pData =
     (if PB_ATYPE (f_type field) = PB_ATYPE_STATIC \<or> PB_ATYPE (f_type field) = PB_ATYPE_POINTER
      then encode_basic_field env k rec m s field pData
      else if PB_ATYPE (f_type field) = PB_ATYPE_CALLBACK then encode_callback_field env m s field pData
      else Some (False, os_set_error s ''invalid field type'', m))"

section \<open>Extensions\<close>

definition default_extension_encoder :: "pb_env \<Rightarrow> nat \<Rightarrow> pb_encode_t \<Rightarrow> mem \<Rightarrow> pb_ostream_t \<Rightarrow> addr \<Rightarrow> eres" where
  "default_extension_encoder env k rec m s extension = do {
     type \<leftarrow> load_ptr m (extension + int (offsetof pb_extension_s [''type'']));
     arg \<leftarrow> load_ptr m (type + int (offsetof pb_extension_type_s [''arg'']));
     field \<leftarrow> get_field (env_fields env arg) 0;
     let dest = extension + int (offsetof pb_extension_s [''dest'']);
     if PB_ATYPE (f_type field) = PB_ATYPE_POINTER then encode_field env k rec m s field dest
     else do { p \<leftarrow> load_ptr m dest; encode_field env k rec m s field p } }"

primrec extension_chain :: "nat \<Rightarrow> pb_env \<Rightarrow> nat \<Rightarrow> pb_encode_t \<Rightarrow> mem \<Rightarrow> pb_ostream_t \<Rightarrow> addr \<Rightarrow> eres" where
  "extension_chain 0 env k rec m s extension = (if extension = 0 then Some (True, s, m) else None)"
| "extension_chain (Suc n) env k rec m s extension =
     (if extension = 0 then Some (True, s, m)
      else do {
        type \<leftarrow> load_ptr m (extension + int (offsetof pb_extension_s [''type'']));
        encode \<leftarrow> load_ptr m (type + int (offsetof pb_extension_type_s [''encode'']));
        (status, s, m) \<leftarrow>
          (if encode \<noteq> 0 then do { cb \<leftarrow> env_ext_encode env encode; cb m s extension }
           else default_extension_encoder env k rec m s extension);
        if \<not> status then Some (False, s, m)
        else do {
          next \<leftarrow> load_ptr m (extension + int (offsetof pb_extension_s [''next'']));
          extension_chain n env k rec m s next } })"

definition encode_extension_field :: "pb_env \<Rightarrow> nat \<Rightarrow> pb_encode_t \<Rightarrow> pb_encoder_t" where
  "encode_extension_field env k rec m s field pData = do {
     extension \<leftarrow> load_ptr m pData;
     extension_chain k env k rec m s extension }"

section \<open>Encoding a message\<close>

definition encode_one :: "pb_env \<Rightarrow> nat \<Rightarrow> pb_encode_t \<Rightarrow> pb_field_t \<Rightarrow> addr \<Rightarrow> pb_ostream_t \<times> mem \<Rightarrow> eres" where
  "encode_one env k rec field pData = (\<lambda>(s, m).
     if PB_LTYPE (f_type field) = PB_LTYPE_EXTENSION
     then encode_extension_field env k rec m s field pData
     else encode_field env k rec m s field pData)"

primrec pb_encode :: "pb_env \<Rightarrow> nat \<Rightarrow> pb_encode_t" where
  "pb_encode env 0 = (\<lambda>fs src m s. None)"
| "pb_encode env (Suc k) = (\<lambda>fs src m s. do {
     (ok, iter) \<leftarrow> pb_field_iter_begin fs src;
     if \<not> ok then Some (True, s, m)
     else fields_loop (length fs) (encode_one env (Suc k) (pb_encode env k)) iter (s, m) })"

definition pb_encode_delimited :: "pb_env \<Rightarrow> nat \<Rightarrow> pb_encode_t" where
  "pb_encode_delimited env k fs src m s = pb_encode_submessage (pb_encode env k) fs src m s"

definition pb_encode_nullterminated :: "pb_env \<Rightarrow> nat \<Rightarrow> pb_encode_t" where
  "pb_encode_nullterminated env k fs src m s = do {
     (ok, s, m) \<leftarrow> pb_encode env k fs src m s;
     if \<not> ok then Some (False, s, m) else keep_mem m (pb_write s (Some [0]) 1) }"

definition pb_get_encoded_size :: "pb_env \<Rightarrow> nat \<Rightarrow> pb_field_t list \<Rightarrow> addr \<Rightarrow> mem \<Rightarrow> (size_t option \<times> mem) option" where
  "pb_get_encoded_size env k fs src m = do {
     (ok, s, m) \<leftarrow> pb_encode env k fs src m PB_OSTREAM_SIZING;
     Some (if ok then Some (os_bytes_written s) else None, m) }"

end
