(* ===== verification/Pb_Encode_Spec.thy ===== *)
theory Pb_Encode_Spec
  imports Pb_Encode
begin

text \<open>
  What the encoder promises: the wire format of a message in memory, written without
  streams. \<open>message_bytes\<close> reads a message structure through its descriptors and gives
  its encoding as one byte string; it has no value when the message holds something that
  cannot be encoded (a null required pointer, a count above the array size) or when a
  callback or an extension of the caller would have to provide the bytes.

  The refinement theorem says that \<open>pb_encode\<close>, which runs over the fields twice for
  every submessage and packed array (once on a sizing stream), is an emitter of exactly
  that byte string: it counts its length, stores it where there is room, and fails
  without leaving the buffer where there is not.
\<close>

section \<open>The encoding of a message\<close>

definition value_bytes :: "pb_env \<Rightarrow> (pb_field_t list \<Rightarrow> addr \<Rightarrow> byte list option) \<Rightarrow> mem \<Rightarrow> pb_field_t \<Rightarrow> addr \<Rightarrow> byte list option" where
  "value_bytes env sub m f p = (let lt = PB_LTYPE (f_type f); n = f_data_size f in
     if lt = PB_LTYPE_BOOL then do { b \<leftarrow> load_u8 m p; Some (leb128 (if b \<noteq> 0 then 1 else 0)) }
     else if lt = PB_LTYPE_VARINT then do { r \<leftarrow> read_signed m n p; v \<leftarrow> r; Some (leb128 v) }
     else if lt = PB_LTYPE_UVARINT then do { r \<leftarrow> read_unsigned m n p; v \<leftarrow> r; Some (leb128 v) }
     else if lt = PB_LTYPE_SVARINT then do { r \<leftarrow> read_signed m n p; v \<leftarrow> r; Some (leb128 (zigzag v)) }
     else if lt = PB_LTYPE_FIXED32 then do { v \<leftarrow> load_u32 m p; Some (le_bytes 4 v) }
     else if lt = PB_LTYPE_FIXED64 then do { v \<leftarrow> load_u64 m p; Some (le_bytes 8 v) }
     else if lt = PB_LTYPE_BYTES then
       (if p = 0 then Some (leb128 0) else do {
          k \<leftarrow> load_u32 m p;
          bs \<leftarrow> load_bytes m (p + 4) (unat k);
          if PB_ATYPE (f_type f) = PB_ATYPE_STATIC \<and> unat k + 4 > unat n then None
          else Some (leb128 (ucast k) @ bs) })
     else if lt = PB_LTYPE_STRING then do {
       k \<leftarrow> (if p = 0 then Some 0
             else string_size m p 0 (if PB_ATYPE (f_type f) = PB_ATYPE_POINTER then -1 else ucast n));
       bs \<leftarrow> load_bytes m p (unat k);
       Some (leb128 k @ bs) }
     else if lt = PB_LTYPE_SUBMESSAGE then
       (if f_ptr f = 0 then None else do {
          bs \<leftarrow> sub (env_fields env (f_ptr f)) p;
          Some (leb128 (of_nat (length bs)) @ bs) })
     else if lt = PB_LTYPE_FIXED_LENGTH_BYTES then do {
       bs \<leftarrow> load_bytes m p (unat n); Some (leb128 (ucast n) @ bs) }
     else None)"

definition key_bytes :: "pb_field_t \<Rightarrow> byte list" where
  "key_bytes f = (case wire_type_of (f_type f) of None \<Rightarrow> [] | Some wt \<Rightarrow> tag_bytes wt (f_tag f))"

primrec elements_bytes :: "nat \<Rightarrow> (addr \<Rightarrow> byte list option) \<Rightarrow> int \<Rightarrow> addr \<Rightarrow> byte list option" where
  "elements_bytes 0 val step p = Some []"
| "elements_bytes (Suc k) val step p = do {
     bs \<leftarrow> val p;
     rest \<leftarrow> elements_bytes k val step (p + step);
     Some (bs @ rest) }"

definition array_bytes :: "(addr \<Rightarrow> byte list option) \<Rightarrow> mem \<Rightarrow> pb_field_t \<Rightarrow> addr \<Rightarrow> pb_size_t \<Rightarrow> byte list option" where
  "array_bytes val m f p count = (let step = uint (f_data_size f) in
     if count = 0 then Some []
     else if PB_ATYPE (f_type f) \<noteq> PB_ATYPE_POINTER \<and> count > f_array_size f then None
     else if PB_LTYPE (f_type f) \<le> PB_LTYPE_LAST_PACKABLE then do {
       bs \<leftarrow> elements_bytes (unat count) val step p;
       Some (tag_bytes PB_WT_STRING (f_tag f) @ leb128 (of_nat (length bs)) @ bs) }
     else elements_bytes (unat count) (\<lambda>p. do {
         q \<leftarrow> (if PB_ATYPE (f_type f) = PB_ATYPE_POINTER \<and>
                 (PB_LTYPE (f_type f) = PB_LTYPE_STRING \<or> PB_LTYPE (f_type f) = PB_LTYPE_BYTES)
               then load_ptr m p else Some p);
         bs \<leftarrow> val q;
         Some (key_bytes f @ bs) }) step p)"

definition present_bytes :: "(addr \<Rightarrow> byte list option) \<Rightarrow> pb_field_t \<Rightarrow> addr \<Rightarrow> byte list option" where
  "present_bytes val f p = do { bs \<leftarrow> val p; Some (key_bytes f @ bs) }"

definition basic_field_bytes :: "pb_env \<Rightarrow> nat \<Rightarrow> (addr \<Rightarrow> byte list option) \<Rightarrow> mem \<Rightarrow> pb_field_t \<Rightarrow> addr \<Rightarrow> byte list option" where
  "basic_field_bytes env k val m f pData = do {
     let ht = PB_HTYPE (f_type f);
     let pSize = pData + sint (f_size_offset f);
     p \<leftarrow> (if PB_ATYPE (f_type f) = PB_ATYPE_POINTER then load_ptr m pData else Some pData);
     default \<leftarrow> (if f_size_offset f = 0 \<and> ht = PB_HTYPE_OPTIONAL
       then pb_check_proto3_default_value env k m f pData else Some False);
     if ht = PB_HTYPE_REQUIRED then if p = 0 then None else present_bytes val f p
     else if ht = PB_HTYPE_OPTIONAL then do {
       has \<leftarrow> (if f_size_offset f \<noteq> 0 then safe_read_bool m pSize
              else Some (if PB_ATYPE (f_type f) = PB_ATYPE_POINTER then p \<noteq> 0 else \<not> default));
       if has then present_bytes val f p else Some [] }
     else if ht = PB_HTYPE_REPEATED then do {
       count \<leftarrow> (if f_size_offset f \<noteq> 0 then load_u32 m pSize else Some (f_array_size f));
       array_bytes val m f p count }
     else do {
       which \<leftarrow> (if f_size_offset f \<noteq> 0 then load_u32 m pSize else None);
       if which = f_tag f then present_bytes val f p else Some [] } }"

text \<open>An unset callback and an empty extension list contribute nothing.\<close>

definition field_bytes :: "pb_env \<Rightarrow> nat \<Rightarrow> (pb_field_t list \<Rightarrow> addr \<Rightarrow> byte list option) \<Rightarrow> mem \<Rightarrow> pb_field_t \<Rightarrow> addr \<Rightarrow> byte list option" where
  "field_bytes env k sub m f pData =
     (if PB_LTYPE (f_type f) = PB_LTYPE_EXTENSION \<or> PB_ATYPE (f_type f) = PB_ATYPE_CALLBACK then do {
        p \<leftarrow> load_ptr m pData;
        if p = 0 then Some [] else None }
      else if (PB_ATYPE (f_type f) = PB_ATYPE_STATIC \<or> PB_ATYPE (f_type f) = PB_ATYPE_POINTER) \<and>
        unat (PB_LTYPE (f_type f)) < PB_LTYPES_COUNT
      then basic_field_bytes env k (value_bytes env sub m f) m f pData
      else None)"

definition fields_bytes :: "(pb_field_t \<Rightarrow> addr \<Rightarrow> byte list option) \<Rightarrow> pb_field_t list \<Rightarrow> addr \<Rightarrow> byte list option" where
  "fields_bytes fb fs src =
     map_option concat (those (map (\<lambda>i. fb (fs ! i) (src + field_off fs i)) [0..<nfields fs]))"

primrec message_bytes :: "pb_env \<Rightarrow> nat \<Rightarrow> mem \<Rightarrow> pb_field_t list \<Rightarrow> addr \<Rightarrow> byte list option" where
  "message_bytes env 0 m = (\<lambda>fs src. None)"
| "message_bytes env (Suc k) m = (\<lambda>fs src. if terminated fs
     then fields_bytes (field_bytes env (Suc k) (message_bytes env k m) m) fs src else None)"

section \<open>Operations that emit a byte string\<close>

definition emits :: "(mem \<Rightarrow> pb_ostream_t \<Rightarrow> eres) \<Rightarrow> mem \<Rightarrow> byte list \<Rightarrow> bool" where
  "emits f m bs \<longleftrightarrow> (\<exists>w. f m = (\<lambda>s. keep_mem m (w s)) \<and> emitter w bs)"

lemma keep_mem_bind [simp]:
  "Option.bind (keep_mem m r) (\<lambda>(ok, s, m). F ok s m) = Option.bind r (\<lambda>(ok, s). F ok s m)"
  by (cases r) (auto simp: keep_mem_def)

lemma keep_mem_simps [simp]: "keep_mem m (Some (ok, s)) = Some (ok, s, m)" "keep_mem m None = None"
  by (simp_all add: keep_mem_def)

lemma emits_lift: "emitter w bs \<Longrightarrow> emits (\<lambda>m s. keep_mem m (w s)) m bs"
  unfolding emits_def by blast

lemma emits_nothing: "emits (\<lambda>m s. Some (True, s, m)) m []"
  using emits_lift [OF emitter_nothing] by simp

lemma emits_then:
  assumes "emits f m as" and "emits g m bs"
  shows "emits (\<lambda>m s. do { (ok, s, m) \<leftarrow> f m s; if \<not> ok then Some (False, s, m) else g m s }) m (as @ bs)"
proof -
  from assms obtain v w where v: "f m = (\<lambda>s. keep_mem m (v s))" "emitter v as"
    and w: "g m = (\<lambda>s. keep_mem m (w s))" "emitter w bs" unfolding emits_def by blast
  have "do { (ok, s, m) \<leftarrow> f m s; if \<not> ok then Some (False, s, m) else g m s } = keep_mem m (os_then v w s)"
    if "m' = m" for s m'
    by (auto simp: v(1) w(1) os_then_def split: bind_splits)
  then show ?thesis
    unfolding emits_def using emitter_then [OF v(2) w(2)] by blast
qed

lemma emits_after:
  assumes "emitter t as" and "emits g m bs"
  shows "emits (\<lambda>m s. do { (ok, s) \<leftarrow> t s; if \<not> ok then Some (False, s, m) else g m s }) m (as @ bs)"
  using emits_then [OF emits_lift [OF assms(1), of m] assms(2)] by simp

lemma emits_cong: "(\<And>s. f m s = g m s) \<Longrightarrow> emits g m bs \<Longrightarrow> emits f m bs"
  unfolding emits_def by presburger

lemma emits_no_callbacks:
  "emitter (\<lambda>s. enc m s field p) bs \<Longrightarrow> emits (\<lambda>m s. no_callbacks enc m s field p) m bs"
  unfolding emits_def no_callbacks_def by (intro exI [of _ "\<lambda>s. enc m s field p"]) simp

section \<open>Submessages\<close>

text \<open>The second pass of \<open>pb_encode_submessage\<close>, after the size has been written.\<close>

definition second_pass :: "(pb_ostream_t \<Rightarrow> ores) \<Rightarrow> pb_ostream_t \<Rightarrow> size_t \<Rightarrow> pb_ostream_t \<Rightarrow> ores" where
  "second_pass w sub n s =
     (if os_sizing s then pb_write s None n
      else if os_bytes_written s + n > os_max_size s then Some (False, os_set_error s ''stream full'')
      else do {
        (status, sub) \<leftarrow> w (sub\<lparr>os_callback := os_callback s, os_state := os_state s, os_max_size := n,
          os_bytes_written := 0, os_errmsg := None\<rparr>);
        let s = s\<lparr>os_bytes_written := os_bytes_written s + os_bytes_written sub,
                  os_state := os_state sub, os_errmsg := os_errmsg sub\<rparr>;
        if os_bytes_written sub \<noteq> n then Some (False, os_set_error s ''submsg size changed'')
        else Some (status, s) })"

lemma second_pass_emitter:
  assumes "emitter w bs" and len: "length bs < 2 ^ 63"
  shows "emitter (second_pass w sub (of_nat (length bs))) bs"
proof
  let ?n = "of_nat (length bs) :: size_t"
  have n: "unat ?n = length bs" using len by (intro unat_of_nat_small) simp
  fix s assume ok: "ostream_ok s"
  define sub' where "sub' = sub\<lparr>os_callback := os_callback s, os_state := os_state s, os_max_size := ?n,
      os_bytes_written := 0, os_errmsg := None\<rparr>"
  have no_wrap: "unat (os_bytes_written s + ?n) = unat (os_bytes_written s) + length bs" if "\<not> os_sizing s"
    using ok len that n unat_add_small [of "os_bytes_written s" ?n]
    by (auto simp: ostream_ok_def os_sizing_def word_le_nat_alt split: ocallback.splits)
  have full: "(os_bytes_written s + ?n > os_max_size s) = (\<not> accepts s bs)" if "\<not> os_sizing s"
    using no_wrap [OF that] ok that
    by (auto simp: accepts_def room_def word_less_nat_alt word_le_nat_alt ostream_ok_def os_sizing_def
        split: ocallback.splits)
  have run: "w sub' = Some (True, put bs sub')" if "\<not> os_sizing s" "accepts s bs"
  proof (rule emitter.accepted [OF assms(1) _ len])
    show "ostream_ok sub'" "accepts sub' bs"
      using ok len that n
      by (auto simp: sub'_def ostream_ok_def accepts_def room_def os_sizing_def split: ocallback.splits)
  qed
  have state: "put_state sub' bs = put_state s bs" if "\<not> os_sizing s"
    using that by (simp add: sub'_def put_state_def os_sizing_def split: ocallback.splits)
  have err: "os_errmsg s = None" using ok by (simp add: ostream_ok_def)
  show "second_pass w sub ?n s = Some (True, put bs s)" if "accepts s bs"
  proof (cases "os_sizing s")
    case True
    then show ?thesis
      by (simp add: second_pass_def pb_write_sizing put_def put_state_def)
  next
    case False
    then show ?thesis
      using full [OF False] run [OF False that] state [OF False] that err
      by (simp add: second_pass_def sub'_def [symmetric]) (simp add: put_def sub'_def)
  qed
  show "\<exists>t. second_pass w sub ?n s = Some (False, t) \<and> overflowed s t" if "\<not> accepts s bs"
  proof -
    have "\<not> os_sizing s" using that by (auto simp: accepts_def)
    then show ?thesis
      using full that overflowed_error by (auto simp: second_pass_def)
  qed
qed

lemma pb_encode_submessage_emits:
  assumes "emits (rec fs src) m bs" and "length bs < 2 ^ 63"
  shows "emits (pb_encode_submessage rec fs src) m (leb128 (of_nat (length bs)) @ bs)"
proof -
  from assms obtain w where w: "rec fs src m = (\<lambda>s. keep_mem m (w s))" "emitter w bs"
    unfolding emits_def by blast
  define sub where "sub = PB_OSTREAM_SIZING\<lparr>os_bytes_written := of_nat (length bs)\<rparr>"
  have size: "w PB_OSTREAM_SIZING = Some (True, sub)" "os_bytes_written sub = of_nat (length bs)"
    using emitter.counts [OF w(2) assms(2)] by (simp_all add: sub_def)
  have "pb_encode_submessage rec fs src m s =
      keep_mem m (os_then (\<lambda>s. pb_encode_varint s (of_nat (length bs)))
        (second_pass w sub (of_nat (length bs))) s)" for s
    by (auto simp: pb_encode_submessage_def w(1) size os_then_def second_pass_def Let_def
        split: bind_splits)
  then show ?thesis
    unfolding emits_def
    using emitter_then [OF enc_varint.emitter_axioms second_pass_emitter [OF w(2) assms(2)]] by blast
qed

section \<open>Values\<close>

lemma encoder_func_simps:
  "PB_LTYPE (f_type f) = PB_LTYPE_BOOL \<Longrightarrow> encoder_func env rec f = Some (no_callbacks pb_enc_bool)"
  "PB_LTYPE (f_type f) = PB_LTYPE_VARINT \<Longrightarrow> encoder_func env rec f = Some (no_callbacks pb_enc_varint)"
  "PB_LTYPE (f_type f) = PB_LTYPE_UVARINT \<Longrightarrow> encoder_func env rec f = Some (no_callbacks pb_enc_uvarint)"
  "PB_LTYPE (f_type f) = PB_LTYPE_SVARINT \<Longrightarrow> encoder_func env rec f = Some (no_callbacks pb_enc_svarint)"
  "PB_LTYPE (f_type f) = PB_LTYPE_FIXED32 \<Longrightarrow> encoder_func env rec f = Some (no_callbacks pb_enc_fixed32)"
  "PB_LTYPE (f_type f) = PB_LTYPE_FIXED64 \<Longrightarrow> encoder_func env rec f = Some (no_callbacks pb_enc_fixed64)"
  "PB_LTYPE (f_type f) = PB_LTYPE_BYTES \<Longrightarrow> encoder_func env rec f = Some (no_callbacks pb_enc_bytes)"
  "PB_LTYPE (f_type f) = PB_LTYPE_STRING \<Longrightarrow> encoder_func env rec f = Some (no_callbacks pb_enc_string)"
  "PB_LTYPE (f_type f) = PB_LTYPE_SUBMESSAGE \<Longrightarrow> encoder_func env rec f = Some (pb_enc_submessage env rec)"
  "PB_LTYPE (f_type f) = PB_LTYPE_FIXED_LENGTH_BYTES \<Longrightarrow>
     encoder_func env rec f = Some (no_callbacks pb_enc_fixed_length_bytes)"
  by (simp_all add: encoder_func_def PB_ENCODERS_def pb_const Let_def)

lemma pb_enc_bool_emitter:
  "load_u8 m p = Some b \<Longrightarrow> emitter (\<lambda>s. pb_enc_bool m s f p) (leb128 (if b \<noteq> 0 then 1 else 0))"
  unfolding pb_enc_bool_def safe_read_bool_def by (simp add: enc_varint.emitter_axioms)

lemma int_emitters:
  "read_signed m (f_data_size f) p = Some (Some v) \<Longrightarrow> emitter (\<lambda>s. pb_enc_varint m s f p) (leb128 v)"
  "read_unsigned m (f_data_size f) p = Some (Some v) \<Longrightarrow> emitter (\<lambda>s. pb_enc_uvarint m s f p) (leb128 v)"
  "read_signed m (f_data_size f) p = Some (Some v) \<Longrightarrow> emitter (\<lambda>s. pb_enc_svarint m s f p) (leb128 (zigzag v))"
  by (simp_all add: pb_enc_varint_def pb_enc_uvarint_def pb_enc_svarint_def enc_varint.emitter_axioms
      enc_svarint.emitter_axioms)

lemma string_emitter:
  assumes "load_bytes m p (unat n) = Some bs"
  shows "emitter (\<lambda>s. pb_encode_string s (load_bytes m p (unat n)) n) (leb128 n @ bs)"
  using pb_encode_string_emitter [of n bs] load_bytes_length [OF assms] by (simp add: assms)

lemma alloc_size: "unat (PB_BYTES_ARRAY_T_ALLOCSIZE (ucast (n :: u32))) = unat n + 4"
  using unat_lt [of n] by (simp add: PB_BYTES_ARRAY_T_ALLOCSIZE_def unat_add_small)

lemma pb_enc_bytes_emitter:
  assumes "p \<noteq> 0" and "load_u32 m p = Some n" and "load_bytes m (p + 4) (unat n) = Some bs"
    and "PB_ATYPE (f_type f) = PB_ATYPE_STATIC \<Longrightarrow> unat n + 4 \<le> unat (f_data_size f)"
  shows "emitter (\<lambda>s. pb_enc_bytes m s f p) (leb128 (ucast n) @ bs)"
proof -
  have "pb_enc_bytes m s f p = pb_encode_string s (load_bytes m (p + 4) (unat n)) (ucast n)" for s
    using assms alloc_size [of n] by (auto simp: pb_enc_bytes_def word_less_nat_alt)
  then show ?thesis
    using string_emitter [of m "p + 4" "ucast n" bs] assms(3) by simp
qed

lemma value_emits:
  assumes "value_bytes env sub m f p = Some bs" and "length bs < 2 ^ 63"
    and rec: "\<And>fs src bs. sub fs src = Some bs \<Longrightarrow> length bs < 2 ^ 63 \<Longrightarrow> emits (rec fs src) m bs"
  obtains func where "encoder_func env rec f = Some func" "emits (\<lambda>m s. func m s f p) m bs"
proof -
  let ?lt = "PB_LTYPE (f_type f)"
  note emit = emits_no_callbacks
  consider "?lt = PB_LTYPE_BOOL" | "?lt = PB_LTYPE_VARINT" | "?lt = PB_LTYPE_UVARINT" | "?lt = PB_LTYPE_SVARINT"
    | "?lt = PB_LTYPE_FIXED32" | "?lt = PB_LTYPE_FIXED64" | "?lt = PB_LTYPE_BYTES" | "?lt = PB_LTYPE_STRING"
    | "?lt = PB_LTYPE_SUBMESSAGE" | "?lt = PB_LTYPE_FIXED_LENGTH_BYTES"
    using assms(1) by (auto simp: value_bytes_def Let_def split: if_splits)
  then show thesis
  proof cases
    case 1
    with assms(1) show thesis
      by (intro that [OF encoder_func_simps(1) emit])
        (auto simp: value_bytes_def pb_const bind_Some_iff simp del: if_split intro!: pb_enc_bool_emitter)
  next
    case 2
    with assms(1) show thesis
      by (intro that [OF encoder_func_simps(2) emit])
        (auto simp: value_bytes_def pb_const bind_Some_iff intro!: int_emitters)
  next
    case 3
    with assms(1) show thesis
      by (intro that [OF encoder_func_simps(3) emit])
        (auto simp: value_bytes_def pb_const bind_Some_iff intro!: int_emitters)
  next
    case 4
    with assms(1) show thesis
      by (intro that [OF encoder_func_simps(4) emit])
        (auto simp: value_bytes_def pb_const bind_Some_iff intro!: int_emitters)
  next
    case 5
    with assms(1) show thesis
      by (intro that [OF encoder_func_simps(5) emit])
        (auto simp: value_bytes_def pb_const bind_Some_iff pb_enc_fixed32_def intro!: pb_encode_fixed32_emitter)
  next
    case 6
    with assms(1) show thesis
      by (intro that [OF encoder_func_simps(6) emit])
        (auto simp: value_bytes_def pb_const bind_Some_iff pb_enc_fixed64_def intro!: pb_encode_fixed64_emitter)
  next
    case 7
    have "emitter (\<lambda>s. pb_enc_bytes m s f 0) (leb128 0)"
      using pb_encode_empty_string_emitter by (simp add: pb_enc_bytes_def)
    with 7 assms(1) show thesis
      by (intro that [OF encoder_func_simps(7) emit])
        (auto simp: value_bytes_def pb_const bind_Some_iff split: if_splits intro!: pb_enc_bytes_emitter)
  next
    case 8
    then obtain k b where kb: "(if p = 0 then Some 0 else string_size m p 0
        (if PB_ATYPE (f_type f) = PB_ATYPE_POINTER then -1 else ucast (f_data_size f))) = Some k"
      "load_bytes m p (unat k) = Some b" "bs = leb128 k @ b"
      using assms(1) by (auto simp: value_bytes_def pb_const bind_Some_iff simp del: if_split)
    have "pb_enc_string m s f p = pb_encode_string s (load_bytes m p (unat k)) k" for s
      by (simp only: pb_enc_string_def Let_def kb(1) bind.bind_lunit)
    then have "emitter (\<lambda>s. pb_enc_string m s f p) bs"
      using string_emitter [OF kb(2)] kb(3) by simp
    with 8 show thesis
      by (intro that [OF encoder_func_simps(8) emit]) simp_all
  next
    case 9
    then obtain b where b: "f_ptr f \<noteq> 0" "sub (env_fields env (f_ptr f)) p = Some b"
      "bs = leb128 (of_nat (length b)) @ b"
      using assms(1) by (auto simp: value_bytes_def pb_const bind_Some_iff split: if_splits)
    then have "emits (pb_encode_submessage rec (env_fields env (f_ptr f)) p) m bs"
      using pb_encode_submessage_emits rec [OF b(2)] assms(2) by simp
    with 9 b(1) show thesis
      by (intro that [OF encoder_func_simps(9)]) (simp_all add: pb_enc_submessage_def)
  next
    case 10
    with assms(1) show thesis
      using string_emitter [of m p "ucast (f_data_size f)"]
      by (intro that [OF encoder_func_simps(10) emit])
        (auto simp: value_bytes_def pb_enc_fixed_length_bytes_def pb_const bind_Some_iff Let_def)
  qed
qed

section \<open>Fields\<close>

lemma value_key:
  assumes "value_bytes env sub m f p = Some bs"
  shows "emitter (\<lambda>s. pb_encode_tag_for_field s f) (key_bytes f)"
proof -
  have "wire_type_of (f_type f) \<noteq> None"
    using assms by (auto simp: value_bytes_def wire_type_of_def Let_def split: if_splits)
  then show ?thesis
    using pb_encode_tag_for_field_emitter [of f] by (auto simp: key_bytes_def)
qed

text \<open>A value encoder that emits what the specification says, for one field.\<close>

definition encodes :: "pb_encoder_t \<Rightarrow> mem \<Rightarrow> pb_field_t \<Rightarrow> (addr \<Rightarrow> byte list option) \<Rightarrow> bool" where
  "encodes func m f val \<longleftrightarrow> (\<forall>p bs. val p = Some bs \<longrightarrow> length bs < 2 ^ 63 \<longrightarrow>
     emits (\<lambda>m s. func m s f p) m bs \<and> emitter (\<lambda>s. pb_encode_tag_for_field s f) (key_bytes f) \<and>
     (PB_LTYPE (f_type f) = PB_LTYPE_FIXED32 \<longrightarrow> length bs = 4) \<and>
     (PB_LTYPE (f_type f) = PB_LTYPE_FIXED64 \<longrightarrow> length bs = 8))"

lemma value_encodes:
  assumes "\<And>fs src bs. sub fs src = Some bs \<Longrightarrow> length bs < 2 ^ 63 \<Longrightarrow> emits (rec fs src) m bs"
    and "encoder_func env rec f = Some func"
  shows "encodes func m f (value_bytes env sub m f)"
  unfolding encodes_def
proof (intro allI impI conjI)
  fix p bs assume v: "value_bytes env sub m f p = Some bs" "length bs < 2 ^ 63"
  show "emits (\<lambda>m s. func m s f p) m bs"
    by (rule value_emits [OF v assms(1)]) (use assms(2) in auto)
  show "emitter (\<lambda>s. pb_encode_tag_for_field s f) (key_bytes f)"
    using v(1) by (rule value_key)
  show "PB_LTYPE (f_type f) = PB_LTYPE_FIXED32 \<Longrightarrow> length bs = 4"
    "PB_LTYPE (f_type f) = PB_LTYPE_FIXED64 \<Longrightarrow> length bs = 8"
    using v(1) by (auto simp: value_bytes_def pb_const bind_Some_iff)
qed

lemma present_emits:
  assumes "encodes func m f val" and "present_bytes val f p = Some bs" and "length bs < 2 ^ 63"
  shows "emits (\<lambda>m s. do { (ok, s) \<leftarrow> pb_encode_tag_for_field s f;
    if \<not> ok then Some (False, s, m) else func m s f p }) m bs"
  using assms
  by (auto simp: encodes_def present_bytes_def bind_Some_iff intro!: emits_after)

lemma maybe_present_emits:
  assumes "encodes func m f val" and "if b then present_bytes val f p = Some bs else bs = []" and "length bs < 2 ^ 63"
  shows "emits (\<lambda>m s. if b then do { (ok, s) \<leftarrow> pb_encode_tag_for_field s f;
    if \<not> ok then Some (False, s, m) else func m s f p } else Some (True, s, m)) m bs"
  using present_emits [OF assms(1) _ assms(3), of p] assms(2) emits_nothing by (cases b) auto

lemma each_element_emits:
  assumes "\<And>p bs. val p = Some bs \<Longrightarrow> length bs < 2 ^ 63 \<Longrightarrow> emits (\<lambda>m s. f m s p) m bs"
    and "elements_bytes k val step p = Some bs" and "length bs < 2 ^ 63"
  shows "emits (\<lambda>m s. each_element k f step p m s) m bs"
  using assms(2,3)
proof (induction k arbitrary: p bs)
  case 0
  then show ?case by (simp add: emits_nothing)
next
  case (Suc k)
  then obtain xs ys where xs: "val p = Some xs" "elements_bytes k val step (p + step) = Some ys" "bs = xs @ ys"
    by (auto simp: bind_Some_iff)
  with Suc.prems have "length xs < 2 ^ 63" "length ys < 2 ^ 63" by auto
  then show ?case
    using emits_then [OF assms(1) [OF xs(1)] Suc.IH [OF xs(2)]] xs(3) by simp
qed

lemma length_elements:
  assumes "\<And>p bs. val p = Some bs \<Longrightarrow> length bs < 2 ^ 63 \<Longrightarrow> length bs = c"
    and "elements_bytes k val step p = Some bs" and "length bs < 2 ^ 63"
  shows "length bs = k * c"
  using assms(2,3)
proof (induction k arbitrary: p bs)
  case (Suc k)
  then obtain xs ys where "val p = Some xs" "elements_bytes k val step (p + step) = Some ys" "bs = xs @ ys"
    by (auto simp: bind_Some_iff)
  then show ?case using Suc assms(1) [of p xs] by simp
qed simp

lemma emits_sized:
  assumes "emits g m bs" and "n = of_nat (length bs)"
  shows "emits (\<lambda>m s. if os_sizing s then keep_mem m (pb_write s None n) else g m s) m bs"
proof -
  from assms(1) obtain w where w: "g m = (\<lambda>s. keep_mem m (w s))" "emitter w bs" unfolding emits_def by blast
  have "emitter (\<lambda>s. if os_sizing s then pb_write s None n else w s) bs"
  proof
    fix s assume s: "ostream_ok s" "length bs < 2 ^ 63"
    show "accepts s bs \<Longrightarrow> (if os_sizing s then pb_write s None n else w s) = Some (True, put bs s)"
      using emitter.accepted [OF w(2) s] by (simp add: pb_write_sizing assms(2) put_def put_state_def)
    show "\<not> accepts s bs \<Longrightarrow>
        \<exists>t. (if os_sizing s then pb_write s None n else w s) = Some (False, t) \<and> overflowed s t"
      using emitter.rejected [OF w(2) s] by (simp add: accepts_def)
  qed
  then have "emits (\<lambda>m s. keep_mem m (if os_sizing s then pb_write s None n else w s)) m bs"
    by (rule emits_lift)
  then show ?thesis by (rule emits_cong [rotated]) (simp add: w(1))
qed

lemma encode_array_emits:
  assumes "encodes func m f val" and "array_bytes val m f p count = Some bs" and "length bs < 2 ^ 63"
  shows "emits (\<lambda>m s. encode_array func m s f p (ucast count)) m bs"
proof -
  let ?each = "\<lambda>m s. each_element (unat count) (\<lambda>m s p. func m s f p) (uint (f_data_size f)) p m s"
  have ucast_0: "(ucast count :: size_t) = 0 \<longleftrightarrow> count = 0"
    by (metis unat_eq_zero unat_ucast_u32)
  have ucast_gt: "(ucast count :: size_t) > ucast (f_array_size f) \<longleftrightarrow> count > f_array_size f"
    by (simp add: word_less_nat_alt)
  consider (none) "count = 0" "bs = []"
    | (packed) xs where "count \<noteq> 0" "PB_LTYPE (f_type f) \<le> PB_LTYPE_LAST_PACKABLE"
        "PB_ATYPE (f_type f) = PB_ATYPE_POINTER \<or> \<not> count > f_array_size f"
        "elements_bytes (unat count) val (uint (f_data_size f)) p = Some xs"
        "bs = tag_bytes PB_WT_STRING (f_tag f) @ leb128 (of_nat (length xs)) @ xs"
    | (unpacked) "count \<noteq> 0" "\<not> PB_LTYPE (f_type f) \<le> PB_LTYPE_LAST_PACKABLE"
        "PB_ATYPE (f_type f) = PB_ATYPE_POINTER \<or> \<not> count > f_array_size f"
        "elements_bytes (unat count) (\<lambda>p. do {
           q \<leftarrow> (if PB_ATYPE (f_type f) = PB_ATYPE_POINTER \<and>
                   (PB_LTYPE (f_type f) = PB_LTYPE_STRING \<or> PB_LTYPE (f_type f) = PB_LTYPE_BYTES)
                 then load_ptr m p else Some p);
           bs \<leftarrow> val q;
           Some (key_bytes f @ bs) }) (uint (f_data_size f)) p = Some bs"
    using assms(2) by (auto simp: array_bytes_def Let_def bind_Some_iff simp del: if_split split: if_splits)
  then show ?thesis
  proof cases
    case none
    then show ?thesis by (simp add: encode_array_def emits_nothing)
  next
    case packed
    have len: "length xs < 2 ^ 63" using assms(3) packed(5) by simp
    have each: "emits ?each m xs"
      using assms(1) by (intro each_element_emits [OF _ packed(4) len]) (auto simp: encodes_def)
    then obtain w where w: "?each m = (\<lambda>s. keep_mem m (w s))" "emitter w xs" unfolding emits_def by blast
    have counted: "?each m PB_OSTREAM_SIZING = Some (True, PB_OSTREAM_SIZING\<lparr>os_bytes_written := of_nat (length xs)\<rparr>, m)"
      using emitter.counts [OF w(2) len] by (simp add: fun_cong [OF w(1)])
    have four: "4 * ucast count = (of_nat (length xs) :: size_t)" if "PB_LTYPE (f_type f) = PB_LTYPE_FIXED32"
      using length_elements [OF _ packed(4) len, of 4] assms(1) that by (simp add: encodes_def mult.commute)
    have eight: "8 * ucast count = (of_nat (length xs) :: size_t)" if "PB_LTYPE (f_type f) = PB_LTYPE_FIXED64"
      using length_elements [OF _ packed(4) len, of 8] assms(1) that by (simp add: encodes_def mult.commute)
    show ?thesis
      unfolding packed(5)
    proof (rule emits_cong [OF _ emits_after [OF enc_tag.emitter_axioms emits_after
              [OF enc_varint.emitter_axioms emits_sized [OF each refl]]]])
      show "encode_array func m s f p (ucast count) = do {
          (ok, s) \<leftarrow> pb_encode_tag s PB_WT_STRING (f_tag f);
          if \<not> ok then Some (False, s, m)
          else do {
            (ok, s) \<leftarrow> pb_encode_varint s (of_nat (length xs));
            if \<not> ok then Some (False, s, m)
            else if os_sizing s then keep_mem m (pb_write s None (of_nat (length xs)))
            else ?each m s } }" for s
        using packed(1-3) counted four eight ucast_0 ucast_gt
        by (auto simp: encode_array_def intro!: Option.bind_cong)
    qed
  next
    case unpacked
    have "emits (\<lambda>m s. each_element (unat count) (\<lambda>m s p. do {
          (ok, s) \<leftarrow> pb_encode_tag_for_field s f;
          if \<not> ok then Some (False, s, m)
          else if PB_ATYPE (f_type f) = PB_ATYPE_POINTER \<and>
            (PB_LTYPE (f_type f) = PB_LTYPE_STRING \<or> PB_LTYPE (f_type f) = PB_LTYPE_BYTES)
          then do { q \<leftarrow> load_ptr m p; func m s f q }
          else func m s f p }) (uint (f_data_size f)) p m s) m bs"
    proof (rule each_element_emits [OF _ unpacked(4) assms(3)], goal_cases)
      case (1 p bs)
      then obtain q xs where q: "(if PB_ATYPE (f_type f) = PB_ATYPE_POINTER \<and>
            (PB_LTYPE (f_type f) = PB_LTYPE_STRING \<or> PB_LTYPE (f_type f) = PB_LTYPE_BYTES)
          then load_ptr m p else Some p) = Some q" "val q = Some xs" "bs = key_bytes f @ xs"
        by (auto simp: bind_Some_iff simp del: if_split)
      have "present_bytes val f q = Some bs" using q by (simp add: present_bytes_def)
      from present_emits [OF assms(1) this 1(2)] show ?case
        by (rule emits_cong [rotated]) (use q(1) in \<open>auto intro!: Option.bind_cong split: if_splits\<close>)
    qed
    then show ?thesis
      by (rule emits_cong [rotated])
        (use unpacked(1-3) ucast_0 ucast_gt in \<open>auto simp: encode_array_def\<close>)
  qed
qed

lemma basic_field_emits:
  assumes func: "encoder_func env rec f = Some func" and enc: "encodes func m f val"
    and bytes: "basic_field_bytes env k val m f pData = Some bs" and len: "length bs < 2 ^ 63"
  shows "emits (\<lambda>m s. encode_basic_field env k rec m s f pData) m bs"
proof -
  let ?ptr = "PB_ATYPE (f_type f) = PB_ATYPE_POINTER" and ?ht = "PB_HTYPE (f_type f)"
  obtain p default where p: "(if ?ptr then load_ptr m pData else Some pData) = Some p"
    and default: "(if f_size_offset f = 0 \<and> ?ht = PB_HTYPE_OPTIONAL
      then pb_check_proto3_default_value env k m f pData else Some False) = Some default"
    using bytes by (auto simp: basic_field_bytes_def Let_def bind_Some_iff simp del: if_split)
  note present = present_emits [OF enc _ len]
  have head: "encode_basic_field env k rec m s f pData = (let
      pSize = pData + sint (f_size_offset f); has = (if ?ptr then p \<noteq> 0 else \<not> default);
      go = (\<lambda>m s. do { (ok, s) \<leftarrow> pb_encode_tag_for_field s f;
        if \<not> ok then Some (False, s, m) else func m s f p }) in
      if ?ht = PB_HTYPE_REQUIRED then
        if p = 0 then Some (False, os_set_error s ''missing required field'', m) else go m s
      else if ?ht = PB_HTYPE_OPTIONAL then do {
        has \<leftarrow> (if f_size_offset f \<noteq> 0 then safe_read_bool m pSize else Some has);
        if has then go m s else Some (True, s, m) }
      else if ?ht = PB_HTYPE_REPEATED then do {
        count \<leftarrow> (if f_size_offset f \<noteq> 0 then load_u32 m pSize else Some (f_array_size f));
        encode_array func m s f p (ucast count) }
      else if ?ht = PB_HTYPE_ONEOF then do {
        which \<leftarrow> (if f_size_offset f \<noteq> 0 then load_u32 m pSize else None);
        if which = f_tag f then go m s else Some (True, s, m) }
      else Some (False, os_set_error s ''invalid field type'', m))" for s
    using p default
    by (auto simp: encode_basic_field_def func Let_def pb_const split: if_splits intro!: Option.bind_cong)
  note split = head Let_def pb_const
  show ?thesis
  proof (cases rule: PB_HTYPE_cases [of "f_type f"])
    case 1
    then have "p \<noteq> 0" "present_bytes val f p = Some bs"
      using bytes p by (auto simp: basic_field_bytes_def Let_def pb_const bind_Some_iff simp del: if_split split: if_split_asm)
    with 1 show ?thesis
      by (intro emits_cong [OF _ present]) (auto simp: split)
  next
    case 2
    then obtain has where has: "(if f_size_offset f \<noteq> 0 then safe_read_bool m (pData + sint (f_size_offset f))
        else Some (if ?ptr then p \<noteq> 0 else \<not> default)) = Some has"
      "if has then present_bytes val f p = Some bs else bs = []"
      using bytes p default
      by (fastforce simp: basic_field_bytes_def Let_def pb_const bind_Some_iff simp del: if_split split: if_split_asm)
    show ?thesis
      by (rule emits_cong [OF _ maybe_present_emits [OF enc has(2) len]])
        (use 2 has(1) in \<open>auto simp: split split: if_splits\<close>)
  next
    case 3
    then obtain count where "(if f_size_offset f \<noteq> 0 then load_u32 m (pData + sint (f_size_offset f))
        else Some (f_array_size f)) = Some count" "array_bytes val m f p count = Some bs"
      using bytes p by (auto simp: basic_field_bytes_def Let_def pb_const bind_Some_iff simp del: if_split split: if_split_asm)
    with 3 show ?thesis
      by (intro emits_cong [OF _ encode_array_emits [OF enc _ len]]) (auto simp: split)
  next
    case 4
    then obtain which where which: "f_size_offset f \<noteq> 0" "load_u32 m (pData + sint (f_size_offset f)) = Some which"
      "if which = f_tag f then present_bytes val f p = Some bs else bs = []"
      using bytes p by (fastforce simp: basic_field_bytes_def Let_def pb_const bind_Some_iff simp del: if_split split: if_split_asm)
    show ?thesis
      by (rule emits_cong [OF _ maybe_present_emits [OF enc which(3) len]])
        (use 4 which(1,2) in \<open>auto simp: split\<close>)
  qed
qed

lemma field_emits:
  assumes "field_bytes env k sub m f pData = Some bs" and "length bs < 2 ^ 63"
    and rec: "\<And>fs src bs. sub fs src = Some bs \<Longrightarrow> length bs < 2 ^ 63 \<Longrightarrow> emits (rec fs src) m bs"
  shows "emits (\<lambda>m s. encode_one env k rec f pData (s, m)) m bs"
proof -
  let ?ext = "PB_LTYPE (f_type f) = PB_LTYPE_EXTENSION"
  consider (ext) "?ext" "load_ptr m pData = Some 0" "bs = []"
    | (callback) "\<not> ?ext" "PB_ATYPE (f_type f) = PB_ATYPE_CALLBACK" "load_ptr m pData = Some 0" "bs = []"
    | (basic) "\<not> ?ext" "PB_ATYPE (f_type f) = PB_ATYPE_STATIC \<or> PB_ATYPE (f_type f) = PB_ATYPE_POINTER"
        "unat (PB_LTYPE (f_type f)) < PB_LTYPES_COUNT"
        "basic_field_bytes env k (value_bytes env sub m f) m f pData = Some bs"
    using assms(1) by (auto simp: field_bytes_def bind_Some_iff split: if_splits)
  then show ?thesis
  proof cases
    case ext
    then show ?thesis
      by (cases k) (auto simp: encode_one_def encode_extension_field_def emits_nothing
          intro!: emits_cong [OF _ emits_nothing])
  next
    case callback
    then show ?thesis
      by (auto simp: encode_one_def encode_field_def encode_callback_field_def pb_const
          intro!: emits_cong [OF _ emits_nothing])
  next
    case basic
    then obtain func where func: "encoder_func env rec f = Some func"
      by (auto simp: encoder_func_def Let_def)
    have "emits (\<lambda>m s. encode_basic_field env k rec m s f pData) m bs"
      by (rule basic_field_emits [OF func value_encodes [OF rec func] basic(4) assms(2)])
    then show ?thesis
      by (rule emits_cong [rotated]) (use basic in \<open>auto simp: encode_one_def encode_field_def\<close>)
  qed
qed

section \<open>Messages\<close>

lemma each_field_emits:
  assumes "\<And>i bs. fb i = Some bs \<Longrightarrow> length bs < 2 ^ 63 \<Longrightarrow> emits (\<lambda>m s. body i (s, m)) m bs"
    and "those (map fb is) = Some bss" and "length (concat bss) < 2 ^ 63"
  shows "emits (\<lambda>m s. each_field body is (s, m)) m (concat bss)"
  using assms(2,3)
proof (induction "is" arbitrary: bss)
  case Nil
  then show ?case by (simp add: emits_nothing)
next
  case (Cons i "is")
  then obtain bs cs where *: "fb i = Some bs" "those (map fb is) = Some cs" "bss = bs # cs"
    by (auto split: option.splits)
  with Cons.prems have len: "length bs < 2 ^ 63" "length (concat cs) < 2 ^ 63" by auto
  have "emits (\<lambda>m s. do { (ok, s, m) \<leftarrow> body i (s, m);
      if \<not> ok then Some (False, s, m) else each_field body is (s, m) }) m (bs @ concat cs)"
    by (rule emits_then [OF assms(1) [OF *(1) len(1)] Cons.IH [OF *(2) len(2)]])
  then show ?case
    by (simp add: *(3) case_prod_unfold cong: if_cong)
qed

lemma pb_encode_emits:
  "message_bytes env k m fs src = Some bs \<Longrightarrow> length bs < 2 ^ 63 \<Longrightarrow> emits (pb_encode env k fs src) m bs"
proof (induction k arbitrary: fs src bs)
  case (Suc k)
  then have trm: "terminated fs"
    and fields: "fields_bytes (field_bytes env (Suc k) (message_bytes env k m) m) fs src = Some bs"
    by (auto split: if_splits)
  let ?fb = "\<lambda>i. field_bytes env (Suc k) (message_bytes env k m) m (fs ! i) (src + field_off fs i)"
  from fields obtain bss where bss: "those (map ?fb [0..<nfields fs]) = Some bss" "bs = concat bss"
    by (auto simp: fields_bytes_def)
  let ?body = "encode_one env (Suc k) (pb_encode env k)"
  have each: "emits (\<lambda>m s. each_field (\<lambda>i. ?body (fs ! i) (src + field_off fs i)) [0..<nfields fs] (s, m)) m bs"
    unfolding bss(2)
    by (rule each_field_emits [OF _ bss(1)]) (use Suc bss(2) in \<open>auto intro: field_emits\<close>)
  have "pb_encode env (Suc k) fs src m s =
      each_field (\<lambda>i. ?body (fs ! i) (src + field_off fs i)) [0..<nfields fs] (s, m)" for s m
    using iter_begin_iter_at [OF trm, of src] fields_loop_each [OF trm, of 0 "length fs" ?body src]
      terminated_length [OF trm]
    by (cases "nfields fs = 0") auto
  then show ?case by (intro emits_cong [OF _ each])
qed simp

lemma emits_fills_buffer:
  assumes "emits f m bs" and "length bs \<le> unat n" and "unat n \<le> length buf" and "unat n < 2 ^ 63"
  shows "f m (pb_ostream_from_buffer buf n) = Some (True, (pb_ostream_from_buffer buf n)
    \<lparr>os_state := (bs @ drop (length bs) buf, length bs), os_bytes_written := of_nat (length bs)\<rparr>, m)"
proof -
  obtain w where w: "f m = (\<lambda>s. keep_mem m (w s))" "emitter w bs" using assms(1) unfolding emits_def by blast
  show ?thesis using emitter.fills_buffer [OF w(2) assms(2-4)] by (simp add: fun_cong [OF w(1)])
qed

lemma emits_never_overruns:
  assumes "emits f m bs" and "length bs < 2 ^ 63" and "unat n \<le> length buf" and "unat n < 2 ^ 63"
  shows "\<exists>ok t. f m (pb_ostream_from_buffer buf n) = Some (ok, t, m) \<and> (ok \<longleftrightarrow> length bs \<le> unat n) \<and>
    length (fst (os_state t)) = length buf \<and> drop (unat n) (fst (os_state t)) = drop (unat n) buf"
proof -
  obtain w where w: "f m = (\<lambda>s. keep_mem m (w s))" "emitter w bs" using assms(1) unfolding emits_def by blast
  show ?thesis
    by (rule emitter.never_overruns [OF w(2) assms(2-4)]) (auto simp: fun_cong [OF w(1)])
qed

lemma pb_encode_delimited_emits:
  "message_bytes env k m fs src = Some bs \<Longrightarrow> length bs < 2 ^ 63 \<Longrightarrow>
   emits (pb_encode_delimited env k fs src) m (leb128 (of_nat (length bs)) @ bs)"
  using pb_encode_submessage_emits [OF pb_encode_emits]
  by (intro emits_cong [OF pb_encode_delimited_def])

lemma pb_encode_nullterminated_emits:
  assumes "message_bytes env k m fs src = Some bs" and "length bs < 2 ^ 63"
  shows "emits (pb_encode_nullterminated env k fs src) m (bs @ [0])"
proof -
  have "emitter (\<lambda>s. pb_write s (Some [0]) 1) [0]" using pb_write_all_emitter [of "[0]"] by simp
  from emits_then [OF pb_encode_emits [OF assms] emits_lift [OF this]] show ?thesis
    by (rule emits_cong [rotated]) (simp add: pb_encode_nullterminated_def)
qed

section \<open>Properties\<close>

text \<open>A required field of pointer type whose pointer is null is an error: nothing is
  written and the message says so.\<close>

theorem missing_required_pointer:
  assumes "PB_ATYPE (f_type f) = PB_ATYPE_POINTER" and "PB_HTYPE (f_type f) = PB_HTYPE_REQUIRED"
    and "unat (PB_LTYPE (f_type f)) < PB_LTYPES_COUNT" and "load_ptr m pData = Some 0"
  shows "encode_field env k rec m s f pData = Some (False, os_set_error s ''missing required field'', m)"
  using assms by (simp add: encode_field_def encode_basic_field_def encoder_func_def pb_const Let_def)

theorem missing_required_pointer_witness:
  "encode_field \<lparr>env_fields = \<lambda>_. [], env_encode = \<lambda>_. None, env_decode = \<lambda>_. None,
       env_ext_encode = \<lambda>_. None, env_ext_decode = \<lambda>_. None\<rparr> 1 (\<lambda>fs src m s. None)
     (object_mem 64 [0, 0, 0, 0, 0, 0, 0, 0]) PB_OSTREAM_SIZING (PB_LAST_FIELD\<lparr>f_tag := 1, f_type := 0x86\<rparr>) 64 =
   Some (False, os_set_error PB_OSTREAM_SIZING ''missing required field'', object_mem 64 [0, 0, 0, 0, 0, 0, 0, 0])"
  by (rule missing_required_pointer) code_simp+

text \<open>The element count of a static array is checked before anything is encoded: a count
  above the array size is an error and the stream is not written.\<close>

theorem array_count_checked:
  assumes "PB_ATYPE (f_type f) = PB_ATYPE_STATIC" and "f_array_size f < count"
  shows "encode_array func m s f pData (ucast count) = Some (False, os_set_error s ''array max size exceeded'', m)"
proof -
  have "(ucast count :: size_t) \<noteq> 0" "(ucast count :: size_t) > ucast (f_array_size f)"
    using assms(2) by (auto simp: word_less_nat_alt unat_eq_zero [symmetric])
  then show ?thesis using assms(1) by (simp add: encode_array_def pb_const)
qed

theorem array_count_checked_witness:
  "encode_array (\<lambda>m s f p. None) (object_mem 64 []) PB_OSTREAM_SIZING (PB_LAST_FIELD\<lparr>f_array_size := 4\<rparr>) 64
     (ucast (5 :: u32)) =
   Some (False, os_set_error PB_OSTREAM_SIZING ''array max size exceeded'', object_mem 64 [])"
  by (rule array_count_checked) code_simp+

lemma encoded_size_bytes:
  assumes "message_bytes env k m fs src = Some bs" and "length bs < 2 ^ 63"
  shows "pb_get_encoded_size env k fs src m = Some (Some (of_nat (length bs)), m)"
proof -
  obtain w where w: "pb_encode env k fs src m = (\<lambda>s. keep_mem m (w s))" "emitter w bs"
    using pb_encode_emits [OF assms] unfolding emits_def by blast
  then show ?thesis using emitter.counts [OF w(2) assms(2)] by (auto simp: pb_get_encoded_size_def w(1))
qed

end
