(* ===== verification/Pb_Descriptors.thy ===== *)
theory Pb_Descriptors
  imports Pb_Memory Pb_Common
begin

text \<open>
  When a descriptor array describes a C structure. The generated descriptors hold each
  field's position relative to the end of the previous one, and the iterator of
  \<open>pb_common.c\<close> adds them up; \<open>describes\<close> says that what it arrives at is the member
  itself, its presence or count member, and its size. Structure initialisers are lists of
  member paths and values.
\<close>

definition member_ok :: "ctype \<Rightarrow> string \<Rightarrow> pb_field_t \<Rightarrow> int \<Rightarrow> bool" where
  "member_ok st name f off = (case c_path [name] 0 st of
     None \<Rightarrow> False
   | Some (k, t) \<Rightarrow>
       off = int k \<and>
       (if PB_ATYPE (f_type f) = PB_ATYPE_POINTER
        then (case t of CPtr t' \<Rightarrow> unat (f_data_size f) = c_size t' | _ \<Rightarrow> False)
        else if PB_HTYPE (f_type f) = PB_HTYPE_REPEATED
        then (case t of CArray t' n \<Rightarrow> unat (f_data_size f) = c_size t' \<and> unat (f_array_size f) = n | _ \<Rightarrow> False)
        else unat (f_data_size f) = c_size t) \<and>
       0 \<le> off + sint (f_size_offset f) \<and>
       (if f_size_offset f = 0 then PB_HTYPE (f_type f) \<noteq> PB_HTYPE_REPEATED \<and>
          (PB_HTYPE (f_type f) = PB_HTYPE_OPTIONAL \<longrightarrow> PB_ATYPE (f_type f) = PB_ATYPE_POINTER)
        else if PB_HTYPE (f_type f) = PB_HTYPE_REPEATED
        then c_path [name @ ''_count''] 0 st = Some (nat (off + sint (f_size_offset f)), c_int32)
        else c_path [''has_'' @ name] 0 st = Some (nat (off + sint (f_size_offset f)), c_bool)))"

fun members_ok :: "ctype \<Rightarrow> string list \<Rightarrow> pb_field_t list \<Rightarrow> int \<Rightarrow> bool" where
  "members_ok st (name # names) (f # g # fs) off \<longleftrightarrow> member_ok st name f off \<and>
     members_ok st names (g # fs)
       (if same_union f g then off else off + prev_size f + uint (f_data_offset g))"
| "members_ok st [] [f] off \<longleftrightarrow> f_tag f = 0"
| "members_ok st names fs off \<longleftrightarrow> False"

definition describes :: "ctype \<Rightarrow> string list \<Rightarrow> pb_field_t list \<Rightarrow> bool" where
  "describes st names fs \<longleftrightarrow> fs \<noteq> [] \<and> list_all (\<lambda>f. f_tag f \<noteq> 0 \<and> PB_HTYPE (f_type f) \<noteq> PB_HTYPE_ONEOF) (butlast fs) \<and>
     members_ok st names fs (uint (f_data_offset (hd fs)))"

lemma members_ok_nth:
  assumes "members_ok st names (drop i fs) (field_off fs i)" and "i < length fs"
  shows "length names = length fs - Suc i \<and> f_tag (last fs) = 0 \<and>
    (\<forall>j. i \<le> j \<longrightarrow> j < length fs - 1 \<longrightarrow> member_ok st (names ! (j - i)) (fs ! j) (field_off fs j))"
  using assms
proof (induction names arbitrary: i)
  case Nil
  then have "length (drop i fs) = 1 \<and> f_tag (hd (drop i fs)) = 0"
    by (cases "drop i fs" rule: list.exhaust [case_product list.exhaust]) (auto split: list.splits elim: members_ok.elims)
  then have "Suc i = length fs" "f_tag (fs ! i) = 0" by (auto simp: hd_drop_conv_nth)
  moreover from this(1) have "fs \<noteq> []" "length fs - 1 = i" by auto
  ultimately show ?case by (auto simp: last_conv_nth)
next
  case (Cons name names)
  have d: "drop i fs = fs ! i # drop (Suc i) fs" using Cons.prems(2) by (simp add: Cons_nth_drop_Suc)
  have i: "Suc i < length fs"
    using Cons.prems d by (cases "Suc i < length fs") auto
  then have d2: "drop (Suc i) fs = fs ! Suc i # drop (Suc (Suc i)) fs" by (simp add: Cons_nth_drop_Suc)
  have here: "member_ok st name (fs ! i) (field_off fs i)"
    and rest: "members_ok st names (drop (Suc i) fs) (field_off fs (Suc i))"
    using Cons.prems(1) unfolding d d2 by (auto simp: add.assoc)
  note IH = Cons.IH [OF rest i]
  have "member_ok st ((name # names) ! (j - i)) (fs ! j) (field_off fs j)"
    if "i \<le> j" "j < length fs - 1" for j
  proof (cases "j = i")
    case False
    with that have "Suc i \<le> j" "j - i = Suc (j - Suc i)" by auto
    then show ?thesis using IH that by simp
  qed (use here in simp)
  then show ?case using IH i by auto
qed

lemma describes_layout:
  assumes "describes st names fs"
  shows "terminated fs" and "length names = nfields fs"
    and "i < nfields fs \<Longrightarrow> member_ok st (names ! i) (fs ! i) (field_off fs i)"
proof -
  have ne: "fs \<noteq> []" and "members_ok st names (drop 0 fs) (field_off fs 0)"
    using assms by (auto simp: describes_def hd_conv_nth)
  from members_ok_nth [OF this(2)] ne show "terminated fs" "length names = nfields fs"
    "i < nfields fs \<Longrightarrow> member_ok st (names ! i) (fs ! i) (field_off fs i)"
    using assms by (auto simp: terminated_def nfields_def describes_def list_all_iff)
qed

text \<open>Such an array has no unions, so that each field has its own size member.\<close>

lemma describes_size_index:
  assumes "describes st names fs" "i < nfields fs"
  shows "size_index fs i = i"
proof (cases i)
  case (Suc j)
  have "fs ! i \<in> set (butlast fs)" using assms(2) by (auto simp: nfields_def in_set_conv_nth nth_butlast intro!: exI [of _ i])
  then have "\<not> same_union (fs ! j) (fs ! i)" using assms(1) by (auto simp: describes_def list_all_iff same_union_def)
  then show ?thesis using Suc by simp
qed simp

text \<open>The member that says whether, or how often, a field is present.\<close>

definition presence_member :: "pb_field_t \<Rightarrow> string \<Rightarrow> string" where
  "presence_member f name = (if PB_HTYPE (f_type f) = PB_HTYPE_REPEATED then name @ ''_count'' else ''has_'' @ name)"

text \<open>\<open>pb_field_iter_next\<close> a number of times.\<close>

fun iter_steps :: "nat \<Rightarrow> pb_field_iter_t \<Rightarrow> pb_field_iter_t option" where
  "iter_steps 0 it = Some it"
| "iter_steps (Suc n) it = do { (_, it) \<leftarrow> pb_field_iter_next it; iter_steps n it }"

lemma iter_steps_iter_at:
  "terminated fs \<Longrightarrow> i + n < nfields fs \<Longrightarrow> iter_steps n (iter_at fs d i) = Some (iter_at fs d (i + n))"
  by (induction n arbitrary: i) (auto simp: iter_next_iter_at)

text \<open>On an array that describes a structure the iterator arrives at the members of the structure.\<close>

lemma describes_iterator:
  assumes "describes st names fs" and "i < length names"
  shows "\<exists>it. do { (_, it) \<leftarrow> pb_field_iter_begin fs d; iter_steps i it } = Some it \<and> it_pos it = i \<and>
    it_pData it = d + int (offsetof st [names ! i]) \<and>
    (f_size_offset (fs ! i) \<noteq> 0 \<longrightarrow> it_pSize it = d + int (offsetof st [presence_member (fs ! i) (names ! i)])) \<and>
    (Suc i = length names \<longrightarrow> pb_field_iter_next it = Some (False, iter_at fs d 0))"
proof -
  note layout = describes_layout [OF assms(1)]
  have i: "i < nfields fs" using assms(2) layout(2) by simp
  have ok: "member_ok st (names ! i) (fs ! i) (field_off fs i)" using i by (rule layout(3))
  then have data: "field_off fs i = int (offsetof st [names ! i])"
    by (auto simp: member_ok_def offsetof_def split: option.splits)
  have size: "field_off fs i + sint (f_size_offset (fs ! i)) = int (offsetof st [presence_member (fs ! i) (names ! i)])"
    if "f_size_offset (fs ! i) \<noteq> 0"
    using ok that by (auto simp: member_ok_def presence_member_def offsetof_def split: option.splits if_splits)
  show ?thesis
    using iter_begin_iter_at [OF layout(1), of d] iter_steps_iter_at [OF layout(1), of 0 i d] i data size
      describes_size_index [OF assms(1) i] iter_next_iter_at [OF layout(1) i, of d] layout(2) by (auto simp: iter_at_def)
qed

text \<open>Everything that evaluates \<open>describes\<close> on a generated descriptor array.\<close>

lemmas describe_simps = describes_def member_ok_def same_union_def prev_size_def
  PB_FIELD_def PB_OPTIONAL_STATIC_def PB_OPTIONAL_POINTER_def PB_REPEATED_POINTER_def PB_LAST_FIELD_def
  pb_descriptor_def PB_DATAOFFSET_defs pb_membersize_def pb_elemsize_def pb_delta_def
  offsetof_def typeof_def c_elem_def align_up_def PB_ATYPE_def PB_HTYPE_def PB_LTYPE_def
  pb_const Let_def pb_bytes_array_s_def

section \<open>Initialisers\<close>

type_synonym c_init = "(string list \<times> int) list"

definition inside :: "string \<Rightarrow> c_init \<Rightarrow> c_init" where
  "inside x i = map (\<lambda>(p, v). (x # p, v)) i"

text \<open>Storage at \<open>a\<close> that holds an initialiser of the structure \<open>st\<close>, member by member.\<close>

definition holds_init :: "mem \<Rightarrow> addr \<Rightarrow> ctype \<Rightarrow> c_init \<Rightarrow> bool" where
  "holds_init m a st i = list_all (\<lambda>(p, v). case c_path p 0 st of
     None \<Rightarrow> False
   | Some (k, t) \<Rightarrow> load_bytes m (a + int k) (c_size t) = Some (le_bytes (c_size t) (word_of_int v :: u64))) i"

end
