(* ===== verification/Cct_Messages.thy ===== *)
theory Cct_Messages
  imports Pb_Encode_Spec Pb_Descriptors
begin

text \<open>
  The messages of the clearcut transport (\<open>cct.nanopb.h\<close> and \<open>cct.nanopb.c\<close>): the
  enumerations, the structures, the descriptor arrays built with the macros of \<open>pb.h\<close>, the
  default values, the initialisers and the tag numbers. Descriptors refer to other
  descriptor arrays and to default values by address; the addresses the linker assigns
  are the parameter \<open>L\<close>.

  The theorems say that the field iterator on every descriptor array arrives at the members of the
  structure, so that encoder and decoder access the right ones, and for which values the sizes the
  header promises are bounds on the encoded size.
\<close>

section \<open>Enumerations\<close>

datatype gdt_cct_NetworkConnectionInfo_NetworkType =
    gdt_cct_NetworkConnectionInfo_NetworkType_NONE
  | gdt_cct_NetworkConnectionInfo_NetworkType_MOBILE
  | gdt_cct_NetworkConnectionInfo_NetworkType_WIFI
  | gdt_cct_NetworkConnectionInfo_NetworkType_MOBILE_MMS
  | gdt_cct_NetworkConnectionInfo_NetworkType_MOBILE_SUPL
  | gdt_cct_NetworkConnectionInfo_NetworkType_MOBILE_DUN
  | gdt_cct_NetworkConnectionInfo_NetworkType_MOBILE_HIPRI
  | gdt_cct_NetworkConnectionInfo_NetworkType_WIMAX
  | gdt_cct_NetworkConnectionInfo_NetworkType_BLUETOOTH
  | gdt_cct_NetworkConnectionInfo_NetworkType_DUMMY
  | gdt_cct_NetworkConnectionInfo_NetworkType_ETHERNET
  | gdt_cct_NetworkConnectionInfo_NetworkType_MOBILE_FOTA
  | gdt_cct_NetworkConnectionInfo_NetworkType_MOBILE_IMS
  | gdt_cct_NetworkConnectionInfo_NetworkType_MOBILE_CBS
  | gdt_cct_NetworkConnectionInfo_NetworkType_WIFI_P2P
  | gdt_cct_NetworkConnectionInfo_NetworkType_MOBILE_IA
  | gdt_cct_NetworkConnectionInfo_NetworkType_MOBILE_EMERGENCY
  | gdt_cct_NetworkConnectionInfo_NetworkType_PROXY
  | gdt_cct_NetworkConnectionInfo_NetworkType_VPN

primrec gdt_cct_NetworkConnectionInfo_NetworkType_val :: "gdt_cct_NetworkConnectionInfo_NetworkType \<Rightarrow> int" where
  "gdt_cct_NetworkConnectionInfo_NetworkType_val gdt_cct_NetworkConnectionInfo_NetworkType_NONE = -1"
| "gdt_cct_NetworkConnectionInfo_NetworkType_val gdt_cct_NetworkConnectionInfo_NetworkType_MOBILE = 0"
| "gdt_cct_NetworkConnectionInfo_NetworkType_val gdt_cct_NetworkConnectionInfo_NetworkType_WIFI = 1"
| "gdt_cct_NetworkConnectionInfo_NetworkType_val gdt_cct_NetworkConnectionInfo_NetworkType_MOBILE_MMS = 2"
| "gdt_cct_NetworkConnectionInfo_NetworkType_val gdt_cct_NetworkConnectionInfo_NetworkType_MOBILE_SUPL = 3"
| "gdt_cct_NetworkConnectionInfo_NetworkType_val gdt_cct_NetworkConnectionInfo_NetworkType_MOBILE_DUN = 4"
| "gdt_cct_NetworkConnectionInfo_NetworkType_val gdt_cct_NetworkConnectionInfo_NetworkType_MOBILE_HIPRI = 5"
| "gdt_cct_NetworkConnectionInfo_NetworkType_val gdt_cct_NetworkConnectionInfo_NetworkType_WIMAX = 6"
| "gdt_cct_NetworkConnectionInfo_NetworkType_val gdt_cct_NetworkConnectionInfo_NetworkType_BLUETOOTH = 7"
| "gdt_cct_NetworkConnectionInfo_NetworkType_val gdt_cct_NetworkConnectionInfo_NetworkType_DUMMY = 8"
| "gdt_cct_NetworkConnectionInfo_NetworkType_val gdt_cct_NetworkConnectionInfo_NetworkType_ETHERNET = 9"
| "gdt_cct_NetworkConnectionInfo_NetworkType_val gdt_cct_NetworkConnectionInfo_NetworkType_MOBILE_FOTA = 10"
| "gdt_cct_NetworkConnectionInfo_NetworkType_val gdt_cct_NetworkConnectionInfo_NetworkType_MOBILE_IMS = 11"
| "gdt_cct_NetworkConnectionInfo_NetworkType_val gdt_cct_NetworkConnectionInfo_NetworkType_MOBILE_CBS = 12"
| "gdt_cct_NetworkConnectionInfo_NetworkType_val gdt_cct_NetworkConnectionInfo_NetworkType_WIFI_P2P = 13"
| "gdt_cct_NetworkConnectionInfo_NetworkType_val gdt_cct_NetworkConnectionInfo_NetworkType_MOBILE_IA = 14"
| "gdt_cct_NetworkConnectionInfo_NetworkType_val gdt_cct_NetworkConnectionInfo_NetworkType_MOBILE_EMERGENCY = 15"
| "gdt_cct_NetworkConnectionInfo_NetworkType_val gdt_cct_NetworkConnectionInfo_NetworkType_PROXY = 16"
| "gdt_cct_NetworkConnectionInfo_NetworkType_val gdt_cct_NetworkConnectionInfo_NetworkType_VPN = 17"

definition gdt_cct_NetworkConnectionInfo_NetworkType_MIN :: gdt_cct_NetworkConnectionInfo_NetworkType where
  "gdt_cct_NetworkConnectionInfo_NetworkType_MIN = gdt_cct_NetworkConnectionInfo_NetworkType_NONE"

definition gdt_cct_NetworkConnectionInfo_NetworkType_MAX :: gdt_cct_NetworkConnectionInfo_NetworkType where
  "gdt_cct_NetworkConnectionInfo_NetworkType_MAX = gdt_cct_NetworkConnectionInfo_NetworkType_VPN"

definition gdt_cct_NetworkConnectionInfo_NetworkType_ARRAYSIZE :: int where
  "gdt_cct_NetworkConnectionInfo_NetworkType_ARRAYSIZE = gdt_cct_NetworkConnectionInfo_NetworkType_val gdt_cct_NetworkConnectionInfo_NetworkType_MAX + 1"

datatype gdt_cct_NetworkConnectionInfo_MobileSubtype =
    gdt_cct_NetworkConnectionInfo_MobileSubtype_UNKNOWN_MOBILE_SUBTYPE
  | gdt_cct_NetworkConnectionInfo_MobileSubtype_GPRS
  | gdt_cct_NetworkConnectionInfo_MobileSubtype_EDGE
  | gdt_cct_NetworkConnectionInfo_MobileSubtype_UMTS
  | gdt_cct_NetworkConnectionInfo_MobileSubtype_CDMA
  | gdt_cct_NetworkConnectionInfo_MobileSubtype_EVDO_0
  | gdt_cct_NetworkConnectionInfo_MobileSubtype_EVDO_A
  | gdt_cct_NetworkConnectionInfo_MobileSubtype_RTT
  | gdt_cct_NetworkConnectionInfo_MobileSubtype_HSDPA
  | gdt_cct_NetworkConnectionInfo_MobileSubtype_HSUPA
  | gdt_cct_NetworkConnectionInfo_MobileSubtype_HSPA
  | gdt_cct_NetworkConnectionInfo_MobileSubtype_IDEN
  | gdt_cct_NetworkConnectionInfo_MobileSubtype_EVDO_B
  | gdt_cct_NetworkConnectionInfo_MobileSubtype_LTE
  | gdt_cct_NetworkConnectionInfo_MobileSubtype_EHRPD
  | gdt_cct_NetworkConnectionInfo_MobileSubtype_HSPAP
  | gdt_cct_NetworkConnectionInfo_MobileSubtype_GSM
  | gdt_cct_NetworkConnectionInfo_MobileSubtype_TD_SCDMA
  | gdt_cct_NetworkConnectionInfo_MobileSubtype_IWLAN
  | gdt_cct_NetworkConnectionInfo_MobileSubtype_LTE_CA
  | gdt_cct_NetworkConnectionInfo_MobileSubtype_COMBINED

primrec gdt_cct_NetworkConnectionInfo_MobileSubtype_val :: "gdt_cct_NetworkConnectionInfo_MobileSubtype \<Rightarrow> int" where
  "gdt_cct_NetworkConnectionInfo_MobileSubtype_val gdt_cct_NetworkConnectionInfo_MobileSubtype_UNKNOWN_MOBILE_SUBTYPE = 0"
| "gdt_cct_NetworkConnectionInfo_MobileSubtype_val gdt_cct_NetworkConnectionInfo_MobileSubtype_GPRS = 1"
| "gdt_cct_NetworkConnectionInfo_MobileSubtype_val gdt_cct_NetworkConnectionInfo_MobileSubtype_EDGE = 2"
| "gdt_cct_NetworkConnectionInfo_MobileSubtype_val gdt_cct_NetworkConnectionInfo_MobileSubtype_UMTS = 3"
| "gdt_cct_NetworkConnectionInfo_MobileSubtype_val gdt_cct_NetworkConnectionInfo_MobileSubtype_CDMA = 4"
| "gdt_cct_NetworkConnectionInfo_MobileSubtype_val gdt_cct_NetworkConnectionInfo_MobileSubtype_EVDO_0 = 5"
| "gdt_cct_NetworkConnectionInfo_MobileSubtype_val gdt_cct_NetworkConnectionInfo_MobileSubtype_EVDO_A = 6"
| "gdt_cct_NetworkConnectionInfo_MobileSubtype_val gdt_cct_NetworkConnectionInfo_MobileSubtype_RTT = 7"
| "gdt_cct_NetworkConnectionInfo_MobileSubtype_val gdt_cct_NetworkConnectionInfo_MobileSubtype_HSDPA = 8"
| "gdt_cct_NetworkConnectionInfo_MobileSubtype_val gdt_cct_NetworkConnectionInfo_MobileSubtype_HSUPA = 9"
| "gdt_cct_NetworkConnectionInfo_MobileSubtype_val gdt_cct_NetworkConnectionInfo_MobileSubtype_HSPA = 10"
| "gdt_cct_NetworkConnectionInfo_MobileSubtype_val gdt_cct_NetworkConnectionInfo_MobileSubtype_IDEN = 11"
| "gdt_cct_NetworkConnectionInfo_MobileSubtype_val gdt_cct_NetworkConnectionInfo_MobileSubtype_EVDO_B = 12"
| "gdt_cct_NetworkConnectionInfo_MobileSubtype_val gdt_cct_NetworkConnectionInfo_MobileSubtype_LTE = 13"
| "gdt_cct_NetworkConnectionInfo_MobileSubtype_val gdt_cct_NetworkConnectionInfo_MobileSubtype_EHRPD = 14"
| "gdt_cct_NetworkConnectionInfo_MobileSubtype_val gdt_cct_NetworkConnectionInfo_MobileSubtype_HSPAP = 15"
| "gdt_cct_NetworkConnectionInfo_MobileSubtype_val gdt_cct_NetworkConnectionInfo_MobileSubtype_GSM = 16"
| "gdt_cct_NetworkConnectionInfo_MobileSubtype_val gdt_cct_NetworkConnectionInfo_MobileSubtype_TD_SCDMA = 17"
| "gdt_cct_NetworkConnectionInfo_MobileSubtype_val gdt_cct_NetworkConnectionInfo_MobileSubtype_IWLAN = 18"
| "gdt_cct_NetworkConnectionInfo_MobileSubtype_val gdt_cct_NetworkConnectionInfo_MobileSubtype_LTE_CA = 19"
| "gdt_cct_NetworkConnectionInfo_MobileSubtype_val gdt_cct_NetworkConnectionInfo_MobileSubtype_COMBINED = 100"

definition gdt_cct_NetworkConnectionInfo_MobileSubtype_MIN :: gdt_cct_NetworkConnectionInfo_MobileSubtype where
  "gdt_cct_NetworkConnectionInfo_MobileSubtype_MIN = gdt_cct_NetworkConnectionInfo_MobileSubtype_UNKNOWN_MOBILE_SUBTYPE"

definition gdt_cct_NetworkConnectionInfo_MobileSubtype_MAX :: gdt_cct_NetworkConnectionInfo_MobileSubtype where
  "gdt_cct_NetworkConnectionInfo_MobileSubtype_MAX = gdt_cct_NetworkConnectionInfo_MobileSubtype_COMBINED"

definition gdt_cct_NetworkConnectionInfo_MobileSubtype_ARRAYSIZE :: int where
  "gdt_cct_NetworkConnectionInfo_MobileSubtype_ARRAYSIZE = gdt_cct_NetworkConnectionInfo_MobileSubtype_val gdt_cct_NetworkConnectionInfo_MobileSubtype_MAX + 1"

datatype gdt_cct_ClientInfo_ClientType =
    gdt_cct_ClientInfo_ClientType_CLIENT_UNKNOWN
  | gdt_cct_ClientInfo_ClientType_IOS_FIREBASE

primrec gdt_cct_ClientInfo_ClientType_val :: "gdt_cct_ClientInfo_ClientType \<Rightarrow> int" where
  "gdt_cct_ClientInfo_ClientType_val gdt_cct_ClientInfo_ClientType_CLIENT_UNKNOWN = 0"
| "gdt_cct_ClientInfo_ClientType_val gdt_cct_ClientInfo_ClientType_IOS_FIREBASE = 15"

definition gdt_cct_ClientInfo_ClientType_MIN :: gdt_cct_ClientInfo_ClientType where
  "gdt_cct_ClientInfo_ClientType_MIN = gdt_cct_ClientInfo_ClientType_CLIENT_UNKNOWN"

definition gdt_cct_ClientInfo_ClientType_MAX :: gdt_cct_ClientInfo_ClientType where
  "gdt_cct_ClientInfo_ClientType_MAX = gdt_cct_ClientInfo_ClientType_IOS_FIREBASE"

definition gdt_cct_ClientInfo_ClientType_ARRAYSIZE :: int where
  "gdt_cct_ClientInfo_ClientType_ARRAYSIZE = gdt_cct_ClientInfo_ClientType_val gdt_cct_ClientInfo_ClientType_MAX + 1"

datatype gdt_cct_QosTierConfiguration_QosTier =
    gdt_cct_QosTierConfiguration_QosTier_DEFAULT
  | gdt_cct_QosTierConfiguration_QosTier_UNMETERED_ONLY
  | gdt_cct_QosTierConfiguration_QosTier_UNMETERED_OR_DAILY
  | gdt_cct_QosTierConfiguration_QosTier_FAST_IF_RADIO_AWAKE
  | gdt_cct_QosTierConfiguration_QosTier_NEVER

primrec gdt_cct_QosTierConfiguration_QosTier_val :: "gdt_cct_QosTierConfiguration_QosTier \<Rightarrow> int" where
  "gdt_cct_QosTierConfiguration_QosTier_val gdt_cct_QosTierConfiguration_QosTier_DEFAULT = 0"
| "gdt_cct_QosTierConfiguration_QosTier_val gdt_cct_QosTierConfiguration_QosTier_UNMETERED_ONLY = 1"
| "gdt_cct_QosTierConfiguration_QosTier_val gdt_cct_QosTierConfiguration_QosTier_UNMETERED_OR_DAILY = 2"
| "gdt_cct_QosTierConfiguration_QosTier_val gdt_cct_QosTierConfiguration_QosTier_FAST_IF_RADIO_AWAKE = 3"
| "gdt_cct_QosTierConfiguration_QosTier_val gdt_cct_QosTierConfiguration_QosTier_NEVER = 4"

definition gdt_cct_QosTierConfiguration_QosTier_MIN :: gdt_cct_QosTierConfiguration_QosTier where
  "gdt_cct_QosTierConfiguration_QosTier_MIN = gdt_cct_QosTierConfiguration_QosTier_DEFAULT"

definition gdt_cct_QosTierConfiguration_QosTier_MAX :: gdt_cct_QosTierConfiguration_QosTier where
  "gdt_cct_QosTierConfiguration_QosTier_MAX = gdt_cct_QosTierConfiguration_QosTier_NEVER"

definition gdt_cct_QosTierConfiguration_QosTier_ARRAYSIZE :: int where
  "gdt_cct_QosTierConfiguration_QosTier_ARRAYSIZE = gdt_cct_QosTierConfiguration_QosTier_val gdt_cct_QosTierConfiguration_QosTier_MAX + 1"

section \<open>Structures\<close>

definition gdt_cct_IosClientInfo :: ctype where
  "gdt_cct_IosClientInfo = CStruct (
    Member ''os_major_version'' (CPtr pb_bytes_array_s) (
    Member ''os_full_version'' (CPtr pb_bytes_array_s) (
    Member ''application_build'' (CPtr pb_bytes_array_s) (
    Member ''country'' (CPtr pb_bytes_array_s) (
    Member ''model'' (CPtr pb_bytes_array_s) (
    Member ''language_code'' (CPtr pb_bytes_array_s) (
    Member ''application_bundle_id'' (CPtr pb_bytes_array_s) (End))))))))"

definition gdt_cct_ClientInfo :: ctype where
  "gdt_cct_ClientInfo = CStruct (
    Member ''has_client_type'' c_bool (
    Member ''client_type'' c_int32 (
    Member ''has_ios_client_info'' c_bool (
    Member ''ios_client_info'' gdt_cct_IosClientInfo (End)))))"

definition gdt_cct_NetworkConnectionInfo :: ctype where
  "gdt_cct_NetworkConnectionInfo = CStruct (
    Member ''has_network_type'' c_bool (
    Member ''network_type'' c_int32 (
    Member ''has_mobile_subtype'' c_bool (
    Member ''mobile_subtype'' c_int32 (End)))))"

definition gdt_cct_LogEvent :: ctype where
  "gdt_cct_LogEvent = CStruct (
    Member ''has_event_time_ms'' c_bool (
    Member ''event_time_ms'' c_int64 (
    Member ''source_extension'' (CPtr pb_bytes_array_s) (
    Member ''has_event_code'' c_bool (
    Member ''event_code'' c_int32 (
    Member ''has_timezone_offset_seconds'' c_bool (
    Member ''timezone_offset_seconds'' c_int64 (
    Member ''has_event_uptime_ms'' c_bool (
    Member ''event_uptime_ms'' c_int64 (
    Member ''has_network_connection_info'' c_bool (
    Member ''network_connection_info'' gdt_cct_NetworkConnectionInfo (End))))))))))))"

definition gdt_cct_LogRequest :: ctype where
  "gdt_cct_LogRequest = CStruct (
    Member ''has_client_info'' c_bool (
    Member ''client_info'' gdt_cct_ClientInfo (
    Member ''has_log_source'' c_bool (
    Member ''log_source'' c_int32 (
    Member ''log_event_count'' c_int32 (
    Member ''log_event'' (CPtr gdt_cct_LogEvent) (
    Member ''has_request_time_ms'' c_bool (
    Member ''request_time_ms'' c_int64 (
    Member ''has_request_uptime_ms'' c_bool (
    Member ''request_uptime_ms'' c_int64 (
    Member ''has_qos_tier'' c_bool (
    Member ''qos_tier'' c_int32 (End)))))))))))))"

definition gdt_cct_BatchedLogRequest :: ctype where
  "gdt_cct_BatchedLogRequest = CStruct (
    Member ''log_request_count'' c_int32 (
    Member ''log_request'' (CPtr gdt_cct_LogRequest) (End)))"

definition gdt_cct_QosTierConfiguration :: ctype where
  "gdt_cct_QosTierConfiguration = CStruct (
    Member ''has_qos_tier'' c_bool (
    Member ''qos_tier'' c_int32 (
    Member ''has_log_source'' c_bool (
    Member ''log_source'' c_int32 (End)))))"

definition gdt_cct_QosTiersOverride :: ctype where
  "gdt_cct_QosTiersOverride = CStruct (
    Member ''qos_tier_configuration_count'' c_int32 (
    Member ''qos_tier_configuration'' (CPtr gdt_cct_QosTierConfiguration) (
    Member ''has_qos_tier_fingerprint'' c_bool (
    Member ''qos_tier_fingerprint'' c_int64 (End)))))"

definition gdt_cct_LogResponse :: ctype where
  "gdt_cct_LogResponse = CStruct (
    Member ''has_next_request_wait_millis'' c_bool (
    Member ''next_request_wait_millis'' c_int64 (
    Member ''has_qos_tier'' c_bool (
    Member ''qos_tier'' gdt_cct_QosTiersOverride (End)))))"

section \<open>Default values\<close>

definition gdt_cct_NetworkConnectionInfo_network_type_default :: u32 where
  "gdt_cct_NetworkConnectionInfo_network_type_default = word_of_int (gdt_cct_NetworkConnectionInfo_NetworkType_val gdt_cct_NetworkConnectionInfo_NetworkType_NONE)"

definition gdt_cct_NetworkConnectionInfo_mobile_subtype_default :: u32 where
  "gdt_cct_NetworkConnectionInfo_mobile_subtype_default = word_of_int (gdt_cct_NetworkConnectionInfo_MobileSubtype_val gdt_cct_NetworkConnectionInfo_MobileSubtype_UNKNOWN_MOBILE_SUBTYPE)"

definition gdt_cct_LogRequest_qos_tier_default :: u32 where
  "gdt_cct_LogRequest_qos_tier_default = word_of_int (gdt_cct_QosTierConfiguration_QosTier_val gdt_cct_QosTierConfiguration_QosTier_DEFAULT)"

definition gdt_cct_QosTierConfiguration_log_source_default :: u32 where
  "gdt_cct_QosTierConfiguration_log_source_default = 0"

section \<open>Descriptors\<close>

record cct_symbols =
  a_NetworkConnectionInfo_fields :: addr
  a_NetworkConnectionInfo_network_type_default :: addr
  a_NetworkConnectionInfo_mobile_subtype_default :: addr
  a_IosClientInfo_fields :: addr
  a_LogRequest_fields :: addr
  a_ClientInfo_fields :: addr
  a_LogEvent_fields :: addr
  a_LogRequest_qos_tier_default :: addr
  a_QosTierConfiguration_log_source_default :: addr
  a_QosTierConfiguration_fields :: addr
  a_QosTiersOverride_fields :: addr

definition gdt_cct_LogEvent_fields :: "cct_symbols \<Rightarrow> pb_field_t list" where
  "gdt_cct_LogEvent_fields L = [
     PB_FIELD 1 INT64 OPTIONAL STATIC FIRST gdt_cct_LogEvent ''event_time_ms'' ''event_time_ms'' 0,
     PB_FIELD 6 BYTES OPTIONAL POINTER OTHER gdt_cct_LogEvent ''source_extension'' ''event_time_ms'' 0,
     PB_FIELD 11 INT32 OPTIONAL STATIC OTHER gdt_cct_LogEvent ''event_code'' ''source_extension'' 0,
     PB_FIELD 15 SINT64 OPTIONAL STATIC OTHER gdt_cct_LogEvent ''timezone_offset_seconds'' ''event_code'' 0,
     PB_FIELD 17 INT64 OPTIONAL STATIC OTHER gdt_cct_LogEvent ''event_uptime_ms'' ''timezone_offset_seconds'' 0,
     PB_FIELD 23 MESSAGE OPTIONAL STATIC OTHER gdt_cct_LogEvent ''network_connection_info'' ''event_uptime_ms'' (a_NetworkConnectionInfo_fields L),
     PB_LAST_FIELD]"

definition gdt_cct_NetworkConnectionInfo_fields :: "cct_symbols \<Rightarrow> pb_field_t list" where
  "gdt_cct_NetworkConnectionInfo_fields L = [
     PB_FIELD 1 ENUM OPTIONAL STATIC FIRST gdt_cct_NetworkConnectionInfo ''network_type'' ''network_type'' (a_NetworkConnectionInfo_network_type_default L),
     PB_FIELD 2 UENUM OPTIONAL STATIC OTHER gdt_cct_NetworkConnectionInfo ''mobile_subtype'' ''network_type'' (a_NetworkConnectionInfo_mobile_subtype_default L),
     PB_LAST_FIELD]"

definition gdt_cct_IosClientInfo_fields :: "cct_symbols \<Rightarrow> pb_field_t list" where
  "gdt_cct_IosClientInfo_fields L = [
     PB_FIELD 3 BYTES OPTIONAL POINTER FIRST gdt_cct_IosClientInfo ''os_major_version'' ''os_major_version'' 0,
     PB_FIELD 4 BYTES OPTIONAL POINTER OTHER gdt_cct_IosClientInfo ''os_full_version'' ''os_major_version'' 0,
     PB_FIELD 5 BYTES OPTIONAL POINTER OTHER gdt_cct_IosClientInfo ''application_build'' ''os_full_version'' 0,
     PB_FIELD 6 BYTES OPTIONAL POINTER OTHER gdt_cct_IosClientInfo ''country'' ''application_build'' 0,
     PB_FIELD 7 BYTES OPTIONAL POINTER OTHER gdt_cct_IosClientInfo ''model'' ''country'' 0,
     PB_FIELD 8 BYTES OPTIONAL POINTER OTHER gdt_cct_IosClientInfo ''language_code'' ''model'' 0,
     PB_FIELD 11 BYTES OPTIONAL POINTER OTHER gdt_cct_IosClientInfo ''application_bundle_id'' ''language_code'' 0,
     PB_LAST_FIELD]"

definition gdt_cct_ClientInfo_fields :: "cct_symbols \<Rightarrow> pb_field_t list" where
  "gdt_cct_ClientInfo_fields L = [
     PB_FIELD 1 UENUM OPTIONAL STATIC FIRST gdt_cct_ClientInfo ''client_type'' ''client_type'' 0,
     PB_FIELD 4 MESSAGE OPTIONAL STATIC OTHER gdt_cct_ClientInfo ''ios_client_info'' ''client_type'' (a_IosClientInfo_fields L),
     PB_LAST_FIELD]"

definition gdt_cct_BatchedLogRequest_fields :: "cct_symbols \<Rightarrow> pb_field_t list" where
  "gdt_cct_BatchedLogRequest_fields L = [
     PB_FIELD 1 MESSAGE REPEATED POINTER FIRST gdt_cct_BatchedLogRequest ''log_request'' ''log_request'' (a_LogRequest_fields L),
     PB_LAST_FIELD]"

definition gdt_cct_LogRequest_fields :: "cct_symbols \<Rightarrow> pb_field_t list" where
  "gdt_cct_LogRequest_fields L = [
     PB_FIELD 1 MESSAGE OPTIONAL STATIC FIRST gdt_cct_LogRequest ''client_info'' ''client_info'' (a_ClientInfo_fields L),
     PB_FIELD 2 INT32 OPTIONAL STATIC OTHER gdt_cct_LogRequest ''log_source'' ''client_info'' 0,
     PB_FIELD 3 MESSAGE REPEATED POINTER OTHER gdt_cct_LogRequest ''log_event'' ''log_source'' (a_LogEvent_fields L),
     PB_FIELD 4 INT64 OPTIONAL STATIC OTHER gdt_cct_LogRequest ''request_time_ms'' ''log_event'' 0,
     PB_FIELD 8 INT64 OPTIONAL STATIC OTHER gdt_cct_LogRequest ''request_uptime_ms'' ''request_time_ms'' 0,
     PB_FIELD 9 UENUM OPTIONAL STATIC OTHER gdt_cct_LogRequest ''qos_tier'' ''request_uptime_ms'' (a_LogRequest_qos_tier_default L),
     PB_LAST_FIELD]"

definition gdt_cct_QosTierConfiguration_fields :: "cct_symbols \<Rightarrow> pb_field_t list" where
  "gdt_cct_QosTierConfiguration_fields L = [
     PB_FIELD 2 UENUM OPTIONAL STATIC FIRST gdt_cct_QosTierConfiguration ''qos_tier'' ''qos_tier'' 0,
     PB_FIELD 3 INT32 OPTIONAL STATIC OTHER gdt_cct_QosTierConfiguration ''log_source'' ''qos_tier'' (a_QosTierConfiguration_log_source_default L),
     PB_LAST_FIELD]"

definition gdt_cct_QosTiersOverride_fields :: "cct_symbols \<Rightarrow> pb_field_t list" where
  "gdt_cct_QosTiersOverride_fields L = [
     PB_FIELD 1 MESSAGE REPEATED POINTER FIRST gdt_cct_QosTiersOverride ''qos_tier_configuration'' ''qos_tier_configuration'' (a_QosTierConfiguration_fields L),
     PB_FIELD 2 INT64 OPTIONAL STATIC OTHER gdt_cct_QosTiersOverride ''qos_tier_fingerprint'' ''qos_tier_configuration'' 0,
     PB_LAST_FIELD]"

definition gdt_cct_LogResponse_fields :: "cct_symbols \<Rightarrow> pb_field_t list" where
  "gdt_cct_LogResponse_fields L = [
     PB_FIELD 1 INT64 OPTIONAL STATIC FIRST gdt_cct_LogResponse ''next_request_wait_millis'' ''next_request_wait_millis'' 0,
     PB_FIELD 3 MESSAGE OPTIONAL STATIC OTHER gdt_cct_LogResponse ''qos_tier'' ''next_request_wait_millis'' (a_QosTiersOverride_fields L),
     PB_LAST_FIELD]"

text \<open>The descriptor arrays at their addresses.\<close>

definition cct_tables :: "cct_symbols \<Rightarrow> (addr \<times> pb_field_t list) list" where
  "cct_tables L = [
     (a_NetworkConnectionInfo_fields L, gdt_cct_NetworkConnectionInfo_fields L),
     (a_IosClientInfo_fields L, gdt_cct_IosClientInfo_fields L),
     (a_LogRequest_fields L, gdt_cct_LogRequest_fields L),
     (a_ClientInfo_fields L, gdt_cct_ClientInfo_fields L),
     (a_LogEvent_fields L, gdt_cct_LogEvent_fields L),
     (a_QosTierConfiguration_fields L, gdt_cct_QosTierConfiguration_fields L),
     (a_QosTiersOverride_fields L, gdt_cct_QosTiersOverride_fields L)]"

definition cct_fields_at :: "cct_symbols \<Rightarrow> addr \<Rightarrow> pb_field_t list" where
  "cct_fields_at L a = (case map_of (cct_tables L) a of None \<Rightarrow> [] | Some fs \<Rightarrow> fs)"

text \<open>The messages have no callback and no extension fields.\<close>

definition cct_env :: "cct_symbols \<Rightarrow> pb_env" where
  "cct_env L = \<lparr>env_fields = cct_fields_at L, env_encode = \<lambda>_. None, env_decode = \<lambda>_. None,
     env_ext_encode = \<lambda>_. None, env_ext_decode = \<lambda>_. None\<rparr>"

text \<open>One assignment of addresses, for concrete runs.\<close>

definition cct_linked :: cct_symbols where
  "cct_linked = \<lparr>a_NetworkConnectionInfo_fields = 4096, a_NetworkConnectionInfo_network_type_default = 8192,
     a_NetworkConnectionInfo_mobile_subtype_default = 8208, a_IosClientInfo_fields = 4224,
     a_LogRequest_fields = 4480, a_ClientInfo_fields = 4736, a_LogEvent_fields = 4864,
     a_LogRequest_qos_tier_default = 8224, a_QosTierConfiguration_log_source_default = 8240,
     a_QosTierConfiguration_fields = 5120, a_QosTiersOverride_fields = 5248\<rparr>"

section \<open>Initialisers\<close>

definition gdt_cct_NetworkConnectionInfo_init_default :: c_init where
  "gdt_cct_NetworkConnectionInfo_init_default =
     [([''has_network_type''], 0),
      ([''network_type''], gdt_cct_NetworkConnectionInfo_NetworkType_val gdt_cct_NetworkConnectionInfo_NetworkType_NONE),
      ([''has_mobile_subtype''], 0),
      ([''mobile_subtype''], gdt_cct_NetworkConnectionInfo_MobileSubtype_val gdt_cct_NetworkConnectionInfo_MobileSubtype_UNKNOWN_MOBILE_SUBTYPE)]"

definition gdt_cct_LogEvent_init_default :: c_init where
  "gdt_cct_LogEvent_init_default =
     [([''has_event_time_ms''], 0), ([''event_time_ms''], 0), ([''source_extension''], 0), ([''has_event_code''], 0), ([''event_code''], 0), ([''has_timezone_offset_seconds''], 0), ([''timezone_offset_seconds''], 0), ([''has_event_uptime_ms''], 0), ([''event_uptime_ms''], 0), ([''has_network_connection_info''], 0)] @
     inside ''network_connection_info'' gdt_cct_NetworkConnectionInfo_init_default"

definition gdt_cct_IosClientInfo_init_default :: c_init where
  "gdt_cct_IosClientInfo_init_default =
     [([''os_major_version''], 0),
      ([''os_full_version''], 0),
      ([''application_build''], 0),
      ([''country''], 0),
      ([''model''], 0),
      ([''language_code''], 0),
      ([''application_bundle_id''], 0)]"

definition gdt_cct_ClientInfo_init_default :: c_init where
  "gdt_cct_ClientInfo_init_default =
     [([''has_client_type''], 0), ([''client_type''], gdt_cct_ClientInfo_ClientType_val gdt_cct_ClientInfo_ClientType_MIN), ([''has_ios_client_info''], 0)] @
     inside ''ios_client_info'' gdt_cct_IosClientInfo_init_default"

definition gdt_cct_BatchedLogRequest_init_default :: c_init where
  "gdt_cct_BatchedLogRequest_init_default =
     [([''log_request_count''], 0),
      ([''log_request''], 0)]"

definition gdt_cct_LogRequest_init_default :: c_init where
  "gdt_cct_LogRequest_init_default =
     [([''has_client_info''], 0)] @
     inside ''client_info'' gdt_cct_ClientInfo_init_default @
     [([''has_log_source''], 0),
      ([''log_source''], 0),
      ([''log_event_count''], 0),
      ([''log_event''], 0),
      ([''has_request_time_ms''], 0),
      ([''request_time_ms''], 0),
      ([''has_request_uptime_ms''], 0),
      ([''request_uptime_ms''], 0),
      ([''has_qos_tier''], 0),
      ([''qos_tier''], gdt_cct_QosTierConfiguration_QosTier_val gdt_cct_QosTierConfiguration_QosTier_DEFAULT)]"

definition gdt_cct_QosTierConfiguration_init_default :: c_init where
  "gdt_cct_QosTierConfiguration_init_default =
     [([''has_qos_tier''], 0),
      ([''qos_tier''], gdt_cct_QosTierConfiguration_QosTier_val gdt_cct_QosTierConfiguration_QosTier_MIN),
      ([''has_log_source''], 0),
      ([''log_source''], 0)]"

definition gdt_cct_QosTiersOverride_init_default :: c_init where
  "gdt_cct_QosTiersOverride_init_default =
     [([''qos_tier_configuration_count''], 0),
      ([''qos_tier_configuration''], 0),
      ([''has_qos_tier_fingerprint''], 0),
      ([''qos_tier_fingerprint''], 0)]"

definition gdt_cct_LogResponse_init_default :: c_init where
  "gdt_cct_LogResponse_init_default =
     [([''has_next_request_wait_millis''], 0), ([''next_request_wait_millis''], 0), ([''has_qos_tier''], 0)] @
     inside ''qos_tier'' gdt_cct_QosTiersOverride_init_default"

definition gdt_cct_NetworkConnectionInfo_init_zero :: c_init where
  "gdt_cct_NetworkConnectionInfo_init_zero =
     [([''has_network_type''], 0),
      ([''network_type''], gdt_cct_NetworkConnectionInfo_NetworkType_val gdt_cct_NetworkConnectionInfo_NetworkType_MIN),
      ([''has_mobile_subtype''], 0),
      ([''mobile_subtype''], gdt_cct_NetworkConnectionInfo_MobileSubtype_val gdt_cct_NetworkConnectionInfo_MobileSubtype_MIN)]"

definition gdt_cct_LogEvent_init_zero :: c_init where
  "gdt_cct_LogEvent_init_zero =
     [([''has_event_time_ms''], 0), ([''event_time_ms''], 0), ([''source_extension''], 0), ([''has_event_code''], 0), ([''event_code''], 0), ([''has_timezone_offset_seconds''], 0), ([''timezone_offset_seconds''], 0), ([''has_event_uptime_ms''], 0), ([''event_uptime_ms''], 0), ([''has_network_connection_info''], 0)] @
     inside ''network_connection_info'' gdt_cct_NetworkConnectionInfo_init_zero"

definition gdt_cct_IosClientInfo_init_zero :: c_init where
  "gdt_cct_IosClientInfo_init_zero =
     [([''os_major_version''], 0),
      ([''os_full_version''], 0),
      ([''application_build''], 0),
      ([''country''], 0),
      ([''model''], 0),
      ([''language_code''], 0),
      ([''application_bundle_id''], 0)]"

definition gdt_cct_ClientInfo_init_zero :: c_init where
  "gdt_cct_ClientInfo_init_zero =
     [([''has_client_type''], 0), ([''client_type''], gdt_cct_ClientInfo_ClientType_val gdt_cct_ClientInfo_ClientType_MIN), ([''has_ios_client_info''], 0)] @
     inside ''ios_client_info'' gdt_cct_IosClientInfo_init_zero"

definition gdt_cct_BatchedLogRequest_init_zero :: c_init where
  "gdt_cct_BatchedLogRequest_init_zero =
     [([''log_request_count''], 0),
      ([''log_request''], 0)]"

definition gdt_cct_LogRequest_init_zero :: c_init where
  "gdt_cct_LogRequest_init_zero =
     [([''has_client_info''], 0)] @
     inside ''client_info'' gdt_cct_ClientInfo_init_zero @
     [([''has_log_source''], 0),
      ([''log_source''], 0),
      ([''log_event_count''], 0),
      ([''log_event''], 0),
      ([''has_request_time_ms''], 0),
      ([''request_time_ms''], 0),
      ([''has_request_uptime_ms''], 0),
      ([''request_uptime_ms''], 0),
      ([''has_qos_tier''], 0),
      ([''qos_tier''], gdt_cct_QosTierConfiguration_QosTier_val gdt_cct_QosTierConfiguration_QosTier_MIN)]"

definition gdt_cct_QosTierConfiguration_init_zero :: c_init where
  "gdt_cct_QosTierConfiguration_init_zero =
     [([''has_qos_tier''], 0),
      ([''qos_tier''], gdt_cct_QosTierConfiguration_QosTier_val gdt_cct_QosTierConfiguration_QosTier_MIN),
      ([''has_log_source''], 0),
      ([''log_source''], 0)]"

definition gdt_cct_QosTiersOverride_init_zero :: c_init where
  "gdt_cct_QosTiersOverride_init_zero =
     [([''qos_tier_configuration_count''], 0),
      ([''qos_tier_configuration''], 0),
      ([''has_qos_tier_fingerprint''], 0),
      ([''qos_tier_fingerprint''], 0)]"

definition gdt_cct_LogResponse_init_zero :: c_init where
  "gdt_cct_LogResponse_init_zero =
     [([''has_next_request_wait_millis''], 0), ([''next_request_wait_millis''], 0), ([''has_qos_tier''], 0)] @
     inside ''qos_tier'' gdt_cct_QosTiersOverride_init_zero"

section \<open>Tags\<close>

definition gdt_cct_tags :: "(string \<times> pb_size_t) list" where
  "gdt_cct_tags = [
     (''gdt_cct_BatchedLogRequest_log_request_tag'', 1),
     (''gdt_cct_IosClientInfo_os_major_version_tag'', 3),
     (''gdt_cct_IosClientInfo_os_full_version_tag'', 4),
     (''gdt_cct_IosClientInfo_application_build_tag'', 5),
     (''gdt_cct_IosClientInfo_country_tag'', 6),
     (''gdt_cct_IosClientInfo_model_tag'', 7),
     (''gdt_cct_IosClientInfo_language_code_tag'', 8),
     (''gdt_cct_IosClientInfo_application_bundle_id_tag'', 11),
     (''gdt_cct_ClientInfo_client_type_tag'', 1),
     (''gdt_cct_ClientInfo_ios_client_info_tag'', 4),
     (''gdt_cct_NetworkConnectionInfo_network_type_tag'', 1),
     (''gdt_cct_NetworkConnectionInfo_mobile_subtype_tag'', 2),
     (''gdt_cct_QosTierConfiguration_qos_tier_tag'', 2),
     (''gdt_cct_QosTierConfiguration_log_source_tag'', 3),
     (''gdt_cct_QosTiersOverride_qos_tier_configuration_tag'', 1),
     (''gdt_cct_QosTiersOverride_qos_tier_fingerprint_tag'', 2),
     (''gdt_cct_LogEvent_event_time_ms_tag'', 1),
     (''gdt_cct_LogEvent_event_code_tag'', 11),
     (''gdt_cct_LogEvent_event_uptime_ms_tag'', 17),
     (''gdt_cct_LogEvent_source_extension_tag'', 6),
     (''gdt_cct_LogEvent_timezone_offset_seconds_tag'', 15),
     (''gdt_cct_LogEvent_network_connection_info_tag'', 23),
     (''gdt_cct_LogRequest_request_time_ms_tag'', 4),
     (''gdt_cct_LogRequest_request_uptime_ms_tag'', 8),
     (''gdt_cct_LogRequest_client_info_tag'', 1),
     (''gdt_cct_LogRequest_log_source_tag'', 2),
     (''gdt_cct_LogRequest_log_event_tag'', 3),
     (''gdt_cct_LogRequest_qos_tier_tag'', 9),
     (''gdt_cct_LogResponse_next_request_wait_millis_tag'', 1),
     (''gdt_cct_LogResponse_qos_tier_tag'', 3)]"

text \<open>The messages: name, structure, members in the order of the fields, descriptor array.\<close>

definition cct_messages :: "cct_symbols \<Rightarrow> (string \<times> ctype \<times> string list \<times> pb_field_t list) list" where
  "cct_messages L = [
     (''gdt_cct_LogEvent'', gdt_cct_LogEvent, [''event_time_ms'', ''source_extension'', ''event_code'', ''timezone_offset_seconds'', ''event_uptime_ms'', ''network_connection_info''], gdt_cct_LogEvent_fields L),
     (''gdt_cct_NetworkConnectionInfo'', gdt_cct_NetworkConnectionInfo, [''network_type'', ''mobile_subtype''], gdt_cct_NetworkConnectionInfo_fields L),
     (''gdt_cct_IosClientInfo'', gdt_cct_IosClientInfo, [''os_major_version'', ''os_full_version'', ''application_build'', ''country'', ''model'', ''language_code'', ''application_bundle_id''], gdt_cct_IosClientInfo_fields L),
     (''gdt_cct_ClientInfo'', gdt_cct_ClientInfo, [''client_type'', ''ios_client_info''], gdt_cct_ClientInfo_fields L),
     (''gdt_cct_BatchedLogRequest'', gdt_cct_BatchedLogRequest, [''log_request''], gdt_cct_BatchedLogRequest_fields L),
     (''gdt_cct_LogRequest'', gdt_cct_LogRequest, [''client_info'', ''log_source'', ''log_event'', ''request_time_ms'', ''request_uptime_ms'', ''qos_tier''], gdt_cct_LogRequest_fields L),
     (''gdt_cct_QosTierConfiguration'', gdt_cct_QosTierConfiguration, [''qos_tier'', ''log_source''], gdt_cct_QosTierConfiguration_fields L),
     (''gdt_cct_QosTiersOverride'', gdt_cct_QosTiersOverride, [''qos_tier_configuration'', ''qos_tier_fingerprint''], gdt_cct_QosTiersOverride_fields L),
     (''gdt_cct_LogResponse'', gdt_cct_LogResponse, [''next_request_wait_millis'', ''qos_tier''], gdt_cct_LogResponse_fields L)]"

text \<open>The tag of every field under its header name.\<close>

definition cct_descriptor_tags :: "cct_symbols \<Rightarrow> (string \<times> pb_size_t) list" where
  "cct_descriptor_tags L = concat (map (\<lambda>(msg, st, names, fs).
     map2 (\<lambda>name f. (msg @ ''_'' @ name @ ''_tag'', f_tag f)) names (butlast fs)) (cct_messages L))"

section \<open>The descriptors describe the structures\<close>

lemmas cct_structs = gdt_cct_IosClientInfo_def gdt_cct_ClientInfo_def gdt_cct_NetworkConnectionInfo_def gdt_cct_LogEvent_def gdt_cct_LogRequest_def gdt_cct_BatchedLogRequest_def gdt_cct_QosTierConfiguration_def gdt_cct_QosTiersOverride_def gdt_cct_LogResponse_def

lemmas cct_descriptors = gdt_cct_LogEvent_fields_def gdt_cct_NetworkConnectionInfo_fields_def gdt_cct_IosClientInfo_fields_def gdt_cct_ClientInfo_fields_def gdt_cct_BatchedLogRequest_fields_def gdt_cct_LogRequest_fields_def gdt_cct_QosTierConfiguration_fields_def gdt_cct_QosTiersOverride_fields_def gdt_cct_LogResponse_fields_def

lemma describes_LogEvent:
  "describes gdt_cct_LogEvent [''event_time_ms'', ''source_extension'', ''event_code'', ''timezone_offset_seconds'', ''event_uptime_ms'', ''network_connection_info'']
     (gdt_cct_LogEvent_fields L)"
  by (simp add: describe_simps cct_structs cct_descriptors)

lemma describes_NetworkConnectionInfo:
  "describes gdt_cct_NetworkConnectionInfo [''network_type'', ''mobile_subtype'']
     (gdt_cct_NetworkConnectionInfo_fields L)"
  by (simp add: describe_simps cct_structs cct_descriptors)

lemma describes_IosClientInfo:
  "describes gdt_cct_IosClientInfo [''os_major_version'', ''os_full_version'', ''application_build'', ''country'', ''model'', ''language_code'', ''application_bundle_id'']
     (gdt_cct_IosClientInfo_fields L)"
  by (simp add: describe_simps cct_structs cct_descriptors)

lemma describes_ClientInfo:
  "describes gdt_cct_ClientInfo [''client_type'', ''ios_client_info'']
     (gdt_cct_ClientInfo_fields L)"
  by (simp add: describe_simps cct_structs cct_descriptors)

lemma describes_BatchedLogRequest:
  "describes gdt_cct_BatchedLogRequest [''log_request'']
     (gdt_cct_BatchedLogRequest_fields L)"
  by (simp add: describe_simps cct_structs cct_descriptors)

lemma describes_LogRequest:
  "describes gdt_cct_LogRequest [''client_info'', ''log_source'', ''log_event'', ''request_time_ms'', ''request_uptime_ms'', ''qos_tier'']
     (gdt_cct_LogRequest_fields L)"
  by (simp add: describe_simps cct_structs cct_descriptors)

lemma describes_QosTierConfiguration:
  "describes gdt_cct_QosTierConfiguration [''qos_tier'', ''log_source'']
     (gdt_cct_QosTierConfiguration_fields L)"
  by (simp add: describe_simps cct_structs cct_descriptors)

lemma describes_QosTiersOverride:
  "describes gdt_cct_QosTiersOverride [''qos_tier_configuration'', ''qos_tier_fingerprint'']
     (gdt_cct_QosTiersOverride_fields L)"
  by (simp add: describe_simps cct_structs cct_descriptors)

lemma describes_LogResponse:
  "describes gdt_cct_LogResponse [''next_request_wait_millis'', ''qos_tier'']
     (gdt_cct_LogResponse_fields L)"
  by (simp add: describe_simps cct_structs cct_descriptors)

section \<open>Encoded sizes\<close>

definition gdt_cct_NetworkConnectionInfo_size :: nat where "gdt_cct_NetworkConnectionInfo_size = 13"
definition gdt_cct_QosTierConfiguration_size :: nat where "gdt_cct_QosTierConfiguration_size = 13"

lemma optional_static_bytes:
  assumes "basic_field_bytes env k val m f pData = Some bs" and "PB_HTYPE (f_type f) = PB_HTYPE_OPTIONAL"
    and "PB_ATYPE (f_type f) = PB_ATYPE_STATIC" and "f_size_offset f \<noteq> 0"
  obtains "bs = []" | v where "val pData = Some v" "bs = key_bytes f @ v"
  using assms by (auto simp: basic_field_bytes_def present_bytes_def Let_def pb_const bind_Some_iff split: if_splits)

lemma length_leb128_u32: "length (leb128 (ucast (v :: u32))) \<le> 5"
  using length_leb128 [of "ucast v" 5] unat_lt [of v] by simp

lemma length_leb128_small: "unat v < 128 \<Longrightarrow> length (leb128 v) = 1"
  using length_leb128 [of v 1] length_leb128_bound(2) [of v] by (cases "leb128 v") auto

lemma NetworkConnectionInfo_descriptors: "gdt_cct_NetworkConnectionInfo_fields L = [
    \<lparr>f_tag = 1, f_type = 0x11, f_data_offset = 4, f_size_offset = -4, f_data_size = 4, f_array_size = 0,
     f_ptr = a_NetworkConnectionInfo_network_type_default L\<rparr>,
    \<lparr>f_tag = 2, f_type = 0x12, f_data_offset = 4, f_size_offset = -4, f_data_size = 4, f_array_size = 0,
     f_ptr = a_NetworkConnectionInfo_mobile_subtype_default L\<rparr>, PB_LAST_FIELD]"
  by (simp add: describe_simps cct_structs cct_descriptors)

lemma QosTierConfiguration_descriptors: "gdt_cct_QosTierConfiguration_fields L = [
    \<lparr>f_tag = 2, f_type = 0x12, f_data_offset = 4, f_size_offset = -4, f_data_size = 4, f_array_size = 0, f_ptr = 0\<rparr>,
    \<lparr>f_tag = 3, f_type = 0x11, f_data_offset = 4, f_size_offset = -4, f_data_size = 4, f_array_size = 0,
     f_ptr = a_QosTierConfiguration_log_source_default L\<rparr>, PB_LAST_FIELD]"
  by (simp add: describe_simps cct_structs cct_descriptors)

text \<open>An optional enumeration or \<open>int32\<close> with a tag below 16.\<close>

lemma int_field_size:
  assumes "field_bytes env k sub m \<lparr>f_tag = t, f_type = ty, f_data_offset = d, f_size_offset = -4,
      f_data_size = 4, f_array_size = 0, f_ptr = q\<rparr> p = Some bs"
    and "t = 1 \<or> t = 2 \<or> t = 3" and "ty = 0x11 \<or> ty = 0x12"
  shows "bs \<noteq> [] \<Longrightarrow> \<exists>v. load_u32 m p = Some v \<and>
    length bs = Suc (length (leb128 (if ty = 0x11 then scast v else ucast v)))"
proof -
  let ?f = "\<lparr>f_tag = t, f_type = ty, f_data_offset = d, f_size_offset = -4,
      f_data_size = 4, f_array_size = 0, f_ptr = q\<rparr>"
  have types: "PB_LTYPE ty = ty AND 0xF" "PB_HTYPE ty = 0x10" "PB_ATYPE ty = 0"
    using assms(3) by (auto simp: PB_LTYPE_def PB_HTYPE_def PB_ATYPE_def pb_const)
  have key: "length (key_bytes ?f) = 1"
    using assms(2,3) by (auto simp: key_bytes_def wire_type_of_def PB_LTYPE_def pb_const tag_bytes_def length_leb128_small)
  assume "bs \<noteq> []"
  have "basic_field_bytes env k (value_bytes env sub m ?f) m ?f p = Some bs"
    using assms(1,3) types by (auto simp: field_bytes_def pb_const)
  then obtain v where v: "value_bytes env sub m ?f p = Some v" "bs = key_bytes ?f @ v"
    by (rule optional_static_bytes) (use \<open>bs \<noteq> []\<close> types in \<open>auto simp: pb_const\<close>)
  from v(1) assms(3) obtain w where "load_u32 m p = Some w" "v = leb128 (if ty = 0x11 then scast w else ucast w)"
    by (auto simp: value_bytes_def PB_LTYPE_def pb_const read_signed_def read_unsigned_def bind_Some_iff)
  with v(2) key show ?thesis by auto
qed

lemma int_field_length:
  assumes "field_bytes env k sub m \<lparr>f_tag = t, f_type = ty, f_data_offset = d, f_size_offset = -4,
      f_data_size = 4, f_array_size = 0, f_ptr = q\<rparr> p = Some bs"
    and "t = 1 \<or> t = 2 \<or> t = 3"
  shows "ty = 0x11 \<Longrightarrow> length bs \<le> 11"
    and "ty = 0x12 \<Longrightarrow> (\<And>v. load_u32 m p = Some v \<Longrightarrow> unat v < 128) \<Longrightarrow> length bs \<le> 2"
  using int_field_size [OF assms] length_leb128_bound(1)
  by (cases "bs = []"; force simp: length_leb128_small)+

lemma two_fields_bytes:
  assumes "message_bytes env k m [f, g, PB_LAST_FIELD] p = Some bs"
  obtains k' xs ys where "k = Suc k'" "bs = xs @ ys"
    "field_bytes env k (message_bytes env k' m) m f (p + field_off [f, g, PB_LAST_FIELD] 0) = Some xs"
    "field_bytes env k (message_bytes env k' m) m g (p + field_off [f, g, PB_LAST_FIELD] 1) = Some ys"
  using assms that
  by (cases k) (auto simp: fields_bytes_def nfields_def split: if_splits option.splits)

lemma two_fields_message:
  assumes "terminated [f, g, PB_LAST_FIELD]"
    and "field_bytes env (Suc k) (message_bytes env k m) m f (p + field_off [f, g, PB_LAST_FIELD] 0) = Some xs"
    and "field_bytes env (Suc k) (message_bytes env k m) m g (p + field_off [f, g, PB_LAST_FIELD] 1) = Some ys"
  shows "message_bytes env (Suc k) m [f, g, PB_LAST_FIELD] p = Some (xs @ ys)"
  using assms by (simp add: fields_bytes_def nfields_def)

lemmas gap = same_union_def prev_size_def pb_const PB_ATYPE_def PB_HTYPE_def

lemma int_field_bytes:
  assumes "safe_read_bool m (p - 4) = Some has" and "load_u32 m p = Some v" and "t = 1 \<or> t = 2 \<or> t = 3" and "ty = 0x11 \<or> ty = 0x12"
  shows "\<exists>bs. field_bytes env k sub m \<lparr>f_tag = t, f_type = ty, f_data_offset = d, f_size_offset = -4,
      f_data_size = 4, f_array_size = 0, f_ptr = q\<rparr> p = Some bs \<and>
    length bs = (if has then Suc (length (leb128 (if ty = 0x11 then scast v else ucast v))) else 0)"
proof -
  let ?f = "\<lparr>f_tag = t, f_type = ty, f_data_offset = d, f_size_offset = -4, f_data_size = 4, f_array_size = 0, f_ptr = q\<rparr>"
  have types: "PB_LTYPE ty = ty AND 0xF" "PB_HTYPE ty = 0x10" "PB_ATYPE ty = 0"
    using assms(4) by (auto simp: PB_LTYPE_def PB_HTYPE_def PB_ATYPE_def pb_const)
  have key: "length (key_bytes ?f) = 1"
    using assms(3,4) by (auto simp: key_bytes_def wire_type_of_def PB_LTYPE_def pb_const tag_bytes_def length_leb128_small)
  have val: "value_bytes env sub m ?f p = Some (leb128 (if ty = 0x11 then scast v else ucast v))"
    using assms(2,4) by (auto simp: value_bytes_def PB_LTYPE_def pb_const read_signed_def read_unsigned_def)
  have "basic_field_bytes env k (value_bytes env sub m ?f) m ?f p =
      Some (if has then key_bytes ?f @ leb128 (if ty = 0x11 then scast v else ucast v) else [])"
    using assms(1) types val by (simp add: basic_field_bytes_def present_bytes_def Let_def pb_const)
  moreover have "field_bytes env k sub m ?f p = basic_field_bytes env k (value_bytes env sub m ?f) m ?f p"
    using assms(4) types by (auto simp: field_bytes_def pb_const)
  ultimately show ?thesis using key by auto
qed

lemma leb128_ucast_length:
  "length (leb128 (ucast (v :: u32))) \<le> 5" "length (leb128 (ucast (v :: u32))) \<le> 1 \<longleftrightarrow> unat v < 128"
  using length_leb128_u32 [of v] length_leb128_small [of "ucast v"] length_leb128_ge [of 1 "ucast v"]
  by (cases "unat v < 128"; simp)+

lemma scast_unat:
  fixes v :: "u32"
  shows "sint v < 0 \<Longrightarrow> 2 ^ 63 \<le> unat (scast v :: u64)" "0 \<le> sint v \<Longrightarrow> unat (scast v :: u64) < 2 ^ 31"
proof -
  define x where "x = sint v"
  have u: "unat (scast v :: u64) = nat (x mod 2 ^ 64)"
    unfolding scast_eq [of v] unat_eq_nat_uint uint_word_of_int x_def by simp
  have s: "- (2 ^ 31) \<le> x" "x < 2 ^ 31" using sint_ge [of v] sint_lt [of v] by (simp_all add: x_def)
  show "2 ^ 63 \<le> unat (scast v :: u64)" if "sint v < 0"
  proof -
    have "x mod 2 ^ 64 = (x + 2 ^ 64) mod 2 ^ 64" by simp
    also have "\<dots> = x + 2 ^ 64" using that s by (intro mod_pos_pos_trivial) (simp_all add: x_def [symmetric])
    finally show ?thesis unfolding u using s(1) by simp
  qed
  show "unat (scast v :: u64) < 2 ^ 31" if "0 \<le> sint v"
    unfolding u using s that [folded x_def] by simp
qed

lemma leb128_scast_length:
  "length (leb128 (scast (v :: u32))) \<le> 10" "length (leb128 (scast (v :: u32))) = 10 \<longleftrightarrow> sint v < 0" "0 \<le> sint v \<Longrightarrow> length (leb128 (scast v)) \<le> 5"
proof -
  show b: "length (leb128 (scast (v :: u32))) \<le> 10" by (rule length_leb128_bound)
  have neg: "9 < length (leb128 (scast v))" if "sint v < 0"
  proof (rule length_leb128_ge)
    have "(128 :: nat) ^ 9 = 2 ^ 63" by simp
    then show "128 ^ 9 \<le> unat (scast v :: u64)" using scast_unat(1) [OF that] by (simp only:)
  qed
  show pos: "length (leb128 (scast v)) \<le> 5" if "0 \<le> sint v"
  proof (rule length_leb128)
    have "(2 :: nat) ^ 31 \<le> 128 ^ 5" by simp
    then show "unat (scast v :: u64) < 128 ^ 5" using scast_unat(2) [OF that] by (rule less_le_trans [rotated])
  qed simp
  show "length (leb128 (scast (v :: u32))) = 10 \<longleftrightarrow> sint v < 0"
  proof (cases "sint v < 0")
    case True then show ?thesis using b neg by linarith
  next
    case False then show ?thesis using pos by linarith
  qed
qed

lemma cct_messages_describe: "list_all (\<lambda>(msg, st, names, fs). describes st names fs) (cct_messages L)"
  by (simp add: cct_messages_def describes_LogEvent describes_NetworkConnectionInfo describes_IosClientInfo describes_ClientInfo
      describes_BatchedLogRequest describes_LogRequest describes_QosTierConfiguration describes_QosTiersOverride describes_LogResponse)

lemma cct_tags_published: "list_all (\<lambda>(name, tag). map_of gdt_cct_tags name = Some tag) (cct_descriptor_tags L)"
  by code_simp

section \<open>Properties\<close>

text \<open>C38. The descriptor arrays of \<open>cct.nanopb.c\<close> fit the structures of \<open>cct.nanopb.h\<close>: for each of the nine messages, wherever the
  structure is in memory, \<open>pb_field_iter_begin\<close> and \<open>i\<close> calls of \<open>pb_field_iter_next\<close>, which add up relative offsets and sizes, lead to the
  \<open>i\<close>-th member by name and to the member that says whether or how often it is present; the field has the tag that the
  header publishes; and behind the last one the iterator is back at the first.\<close>

theorem cct_iterator_reaches_members:
  assumes "(msg, st, names, fs) \<in> set (cct_messages L)" and "i < length names"
  shows "\<exists>it. do { (_, it) \<leftarrow> pb_field_iter_begin fs d; iter_steps i it } = Some it \<and> it_pos it = i \<and>
    it_pData it = d + int (offsetof st [names ! i]) \<and>
    (f_size_offset (fs ! i) \<noteq> 0 \<longrightarrow> it_pSize it = d + int (offsetof st [presence_member (fs ! i) (names ! i)])) \<and>
    (Suc i = length names \<longrightarrow> pb_field_iter_next it = Some (False, iter_at fs d 0)) \<and>
    map_of gdt_cct_tags (msg @ ''_'' @ names ! i @ ''_tag'') = Some (f_tag (fs ! i))"
proof -
  have d: "describes st names fs" using assms(1) cct_messages_describe [of L] by (auto simp: list_all_iff)
  have n: "length (butlast fs) = length names" using describes_layout(2) [OF d] by (simp add: nfields_def)
  have "(msg @ ''_'' @ names ! i @ ''_tag'', f_tag (butlast fs ! i)) \<in> set (cct_descriptor_tags L)"
    using assms n by (force simp: cct_descriptor_tags_def set_zip)
  then have "map_of gdt_cct_tags (msg @ ''_'' @ names ! i @ ''_tag'') = Some (f_tag (fs ! i))"
    using cct_tags_published [of L] assms(2) n by (auto simp: list_all_iff nth_butlast)
  then show ?thesis using describes_iterator [OF d assms(2), of d] by blast
qed

theorem cct_iterator_reaches_members_witness:
  "\<exists>it. do { (_, it) \<leftarrow> pb_field_iter_begin (gdt_cct_LogResponse_fields cct_linked) 4096; iter_steps 1 it } = Some it \<and>
     it_pData it = 4096 + int (offsetof gdt_cct_LogResponse [[''next_request_wait_millis'', ''qos_tier''] ! 1])"
proof -
  have "(''gdt_cct_LogResponse'', gdt_cct_LogResponse, [''next_request_wait_millis'', ''qos_tier''], gdt_cct_LogResponse_fields cct_linked) \<in> set (cct_messages cct_linked)"
    by (simp add: cct_messages_def)
  from cct_iterator_reaches_members [OF this, of 1 4096] show ?thesis by auto
qed

text \<open>C39. The maximum encoded size of \<open>NetworkConnectionInfo\<close> that the header publishes: for any values in memory
  \<open>pb_get_encoded_size\<close> is at most 17, and it is at most the published 13 exactly if the message does not have both a negative network
  type and a mobile subtype of 128 or more. Every enumerator of the subtype is below, so the bound holds for all
  messages of the application itself, and fails for some that were decoded from elsewhere.\<close>

theorem NetworkConnectionInfo_size_bound:
  assumes "safe_read_bool m (p + int (offsetof gdt_cct_NetworkConnectionInfo [''has_network_type''])) = Some hn"
    and "load_u32 m (p + int (offsetof gdt_cct_NetworkConnectionInfo [''network_type''])) = Some nt"
    and "safe_read_bool m (p + int (offsetof gdt_cct_NetworkConnectionInfo [''has_mobile_subtype''])) = Some hm"
    and "load_u32 m (p + int (offsetof gdt_cct_NetworkConnectionInfo [''mobile_subtype''])) = Some ms"
  shows "\<exists>n. pb_get_encoded_size env (Suc k) (gdt_cct_NetworkConnectionInfo_fields L) p m = Some (Some (of_nat n), m) \<and> n \<le> 17 \<and>
    (n \<le> gdt_cct_NetworkConnectionInfo_size \<longleftrightarrow> \<not> (hn \<and> sint nt < 0 \<and> hm \<and> 128 \<le> unat ms)) \<and>
    (\<forall>e. ms = word_of_int (gdt_cct_NetworkConnectionInfo_MobileSubtype_val e) \<longrightarrow> n \<le> gdt_cct_NetworkConnectionInfo_size)"
proof -
  have off: "offsetof gdt_cct_NetworkConnectionInfo [''has_network_type''] = 0" "offsetof gdt_cct_NetworkConnectionInfo [''network_type''] = 4"
    "offsetof gdt_cct_NetworkConnectionInfo [''has_mobile_subtype''] = 8" "offsetof gdt_cct_NetworkConnectionInfo [''mobile_subtype''] = 12"
    by (simp_all add: describe_simps cct_structs)
  note mem = assms [unfolded off]
  let ?f = "\<lparr>f_tag = 1, f_type = 0x11, f_data_offset = 4, f_size_offset = -4, f_data_size = 4, f_array_size = 0,
     f_ptr = a_NetworkConnectionInfo_network_type_default L\<rparr>"
  let ?g = "\<lparr>f_tag = 2, f_type = 0x12, f_data_offset = 4, f_size_offset = -4, f_data_size = 4, f_array_size = 0,
     f_ptr = a_NetworkConnectionInfo_mobile_subtype_default L\<rparr>"
  obtain xs where xs: "field_bytes env (Suc k) (message_bytes env k m) m ?f (p + 4) = Some xs"
      "length xs = (if hn then Suc (length (leb128 (scast nt))) else 0)"
    using int_field_bytes [where env = env and k = "Suc k" and sub = "message_bytes env k m" and m = m and p = "p + 4" and has = hn and v = nt
        and t = 1 and ty = "0x11" and d = 4 and q = "a_NetworkConnectionInfo_network_type_default L"] mem(1,2) by auto
  obtain ys where ys: "field_bytes env (Suc k) (message_bytes env k m) m ?g (p + 12) = Some ys"
      "length ys = (if hm then Suc (length (leb128 (ucast ms))) else 0)"
    using int_field_bytes [where env = env and k = "Suc k" and sub = "message_bytes env k m" and m = m and p = "p + 12" and has = hm and v = ms
        and t = 2 and ty = "0x12" and d = 4 and q = "a_NetworkConnectionInfo_mobile_subtype_default L"] mem(3,4) by (auto simp: add.commute)
  define n where "n = length (xs @ ys)"
  have n: "n \<le> 17" "n \<le> gdt_cct_NetworkConnectionInfo_size \<longleftrightarrow> \<not> (hn \<and> sint nt < 0 \<and> hm \<and> 128 \<le> unat ms)"
    using leb128_scast_length [of nt] leb128_ucast_length [of ms] by (auto simp: n_def xs(2) ys(2) gdt_cct_NetworkConnectionInfo_size_def)
  have "message_bytes env (Suc k) m (gdt_cct_NetworkConnectionInfo_fields L) p = Some (xs @ ys)"
    unfolding NetworkConnectionInfo_descriptors
    by (rule two_fields_message) (use xs(1) ys(1) in \<open>simp_all add: terminated_def PB_LAST_FIELD_def gap\<close>)
  then have "pb_get_encoded_size env (Suc k) (gdt_cct_NetworkConnectionInfo_fields L) p m = Some (Some (of_nat n), m)"
    unfolding n_def using n(1) by (intro encoded_size_bytes) (simp_all add: n_def)
  moreover note n
  moreover have "n \<le> gdt_cct_NetworkConnectionInfo_size" if "ms = word_of_int (gdt_cct_NetworkConnectionInfo_MobileSubtype_val e)" for e
    using n(2) that by (cases e) simp_all
  ultimately show ?thesis by blast
qed

theorem NetworkConnectionInfo_size_bound_witness:
  "\<exists>n. pb_get_encoded_size (cct_env cct_linked) 1 (gdt_cct_NetworkConnectionInfo_fields cct_linked) 256
      (object_mem 256 [1, 0, 0, 0, 0xFF, 0xFF, 0xFF, 0xFF, 1, 0, 0, 0, 0xFF, 0xFF, 0xFF, 0xFF]) =
      Some (Some (of_nat n), object_mem 256 [1, 0, 0, 0, 0xFF, 0xFF, 0xFF, 0xFF, 1, 0, 0, 0, 0xFF, 0xFF, 0xFF, 0xFF]) \<and>
    gdt_cct_NetworkConnectionInfo_size < n \<and> n \<le> 17"
proof -
  let ?m = "object_mem 256 [1, 0, 0, 0, 0xFF, 0xFF, 0xFF, 0xFF, 1, 0, 0, 0, 0xFF, 0xFF, 0xFF, 0xFF]"
  have mem: "safe_read_bool ?m (256 + int (offsetof gdt_cct_NetworkConnectionInfo [''has_network_type''])) = Some True"
    "load_u32 ?m (256 + int (offsetof gdt_cct_NetworkConnectionInfo [''network_type''])) = Some 0xFFFFFFFF"
    "safe_read_bool ?m (256 + int (offsetof gdt_cct_NetworkConnectionInfo [''has_mobile_subtype''])) = Some True"
    "load_u32 ?m (256 + int (offsetof gdt_cct_NetworkConnectionInfo [''mobile_subtype''])) = Some 0xFFFFFFFF"
    by code_simp+
  have neg: "sint (0xFFFFFFFF :: u32) < 0" "128 \<le> unat (0xFFFFFFFF :: u32)" by simp_all
  show ?thesis
    using NetworkConnectionInfo_size_bound [OF mem, of "cct_env cct_linked" 0 cct_linked] neg by (auto simp: not_le)
qed

text \<open>The header's maximum encoded size of \<open>QosTierConfiguration\<close> is a bound for every log
  source, provided the tier is below 128 (all its enumerators are).\<close>

theorem QosTierConfiguration_size_bound:
  assumes "message_bytes env k m (gdt_cct_QosTierConfiguration_fields L) p = Some bs"
    and "\<And>v. load_u32 m (p + int (offsetof gdt_cct_QosTierConfiguration [''qos_tier''])) = Some v \<Longrightarrow> unat v < 128"
  shows "length bs \<le> gdt_cct_QosTierConfiguration_size"
proof -
  have "offsetof gdt_cct_QosTierConfiguration [''qos_tier''] = 4"
    by (simp add: describe_simps cct_structs)
  note enum = assms(2) [unfolded this]
  from assms(1) show ?thesis
    unfolding QosTierConfiguration_descriptors
  proof (rule two_fields_bytes, goal_cases)
    case (1 k' xs ys)
    have "length xs \<le> 2"
      using 1(3) enum by (intro int_field_length(2)) (auto simp: gap)
    moreover have "length ys \<le> 11"
      using 1(4) enum by (intro int_field_length(1)) (auto simp: gap)
    ultimately show ?thesis using 1(2) by (simp add: gdt_cct_QosTierConfiguration_size_def)
  qed
qed

theorem QosTierConfiguration_size_bound_witness:
  "\<exists>bs. message_bytes (cct_env cct_linked) 1 (object_mem 256 [1, 0, 0, 0, 4, 0, 0, 0, 1, 0, 0, 0, 0xFF, 0xFF, 0xFF, 0xFF])
       (gdt_cct_QosTierConfiguration_fields cct_linked) 256 = Some bs \<and>
     length bs \<le> gdt_cct_QosTierConfiguration_size"
proof -
  let ?m = "object_mem 256 [1, 0, 0, 0, 4, 0, 0, 0, 1, 0, 0, 0, 0xFF, 0xFF, 0xFF, 0xFF]"
  have m: "message_bytes (cct_env cct_linked) 1 ?m (gdt_cct_QosTierConfiguration_fields cct_linked) 256 =
      Some [16, 4, 24, 0xFF, 0xFF, 0xFF, 0xFF, 0xFF, 0xFF, 0xFF, 0xFF, 0xFF, 1]" by code_simp
  have "load_u32 ?m (256 + int (offsetof gdt_cct_QosTierConfiguration [''qos_tier''])) = Some 4"
    by code_simp
  then show ?thesis using QosTierConfiguration_size_bound [OF m] m by simp
qed

end
