(* ===== verification/Core_Messages.thy ===== *)
theory Core_Messages
  imports Pb_Encode_Spec Pb_Descriptors
begin

text \<open>
  The message of the core diagnostics (\<open>firebasecore.nanopb.h\<close> and
  \<open>firebasecore.nanopb.c\<close>): \<open>ICoreConfiguration\<close> with its enumerations, descriptor
  array, initialisers and tag numbers.
\<close>

section \<open>Enumerations\<close>

datatype logs_proto_mobilesdk_ios_ICoreConfiguration_ConfigurationType =
    logs_proto_mobilesdk_ios_ICoreConfiguration_ConfigurationType_UNKNOWN_CONFIGURATION_TYPE
  | logs_proto_mobilesdk_ios_ICoreConfiguration_ConfigurationType_CORE
  | logs_proto_mobilesdk_ios_ICoreConfiguration_ConfigurationType_SDK

primrec logs_proto_mobilesdk_ios_ICoreConfiguration_ConfigurationType_val :: "logs_proto_mobilesdk_ios_ICoreConfiguration_ConfigurationType \<Rightarrow> int" where
  "logs_proto_mobilesdk_ios_ICoreConfiguration_ConfigurationType_val logs_proto_mobilesdk_ios_ICoreConfiguration_ConfigurationType_UNKNOWN_CONFIGURATION_TYPE = 0"
| "logs_proto_mobilesdk_ios_ICoreConfiguration_ConfigurationType_val logs_proto_mobilesdk_ios_ICoreConfiguration_ConfigurationType_CORE = 1"
| "logs_proto_mobilesdk_ios_ICoreConfiguration_ConfigurationType_val logs_proto_mobilesdk_ios_ICoreConfiguration_ConfigurationType_SDK = 2"

definition logs_proto_mobilesdk_ios_ICoreConfiguration_ConfigurationType_MIN :: logs_proto_mobilesdk_ios_ICoreConfiguration_ConfigurationType where
  "logs_proto_mobilesdk_ios_ICoreConfiguration_ConfigurationType_MIN = logs_proto_mobilesdk_ios_ICoreConfiguration_ConfigurationType_UNKNOWN_CONFIGURATION_TYPE"

definition logs_proto_mobilesdk_ios_ICoreConfiguration_ConfigurationType_MAX :: logs_proto_mobilesdk_ios_ICoreConfiguration_ConfigurationType where
  "logs_proto_mobilesdk_ios_ICoreConfiguration_ConfigurationType_MAX = logs_proto_mobilesdk_ios_ICoreConfiguration_ConfigurationType_SDK"

definition logs_proto_mobilesdk_ios_ICoreConfiguration_ConfigurationType_ARRAYSIZE :: int where
  "logs_proto_mobilesdk_ios_ICoreConfiguration_ConfigurationType_ARRAYSIZE = logs_proto_mobilesdk_ios_ICoreConfiguration_ConfigurationType_val logs_proto_mobilesdk_ios_ICoreConfiguration_ConfigurationType_MAX + 1"

datatype logs_proto_mobilesdk_ios_ICoreConfiguration_BuildType =
    logs_proto_mobilesdk_ios_ICoreConfiguration_BuildType_UNKNOWN_BUILD_TYPE
  | logs_proto_mobilesdk_ios_ICoreConfiguration_BuildType_INTERNAL
  | logs_proto_mobilesdk_ios_ICoreConfiguration_BuildType_EAP
  | logs_proto_mobilesdk_ios_ICoreConfiguration_BuildType_PROD

primrec logs_proto_mobilesdk_ios_ICoreConfiguration_BuildType_val :: "logs_proto_mobilesdk_ios_ICoreConfiguration_BuildType \<Rightarrow> int" where
  "logs_proto_mobilesdk_ios_ICoreConfiguration_BuildType_val logs_proto_mobilesdk_ios_ICoreConfiguration_BuildType_UNKNOWN_BUILD_TYPE = 0"
| "logs_proto_mobilesdk_ios_ICoreConfiguration_BuildType_val logs_proto_mobilesdk_ios_ICoreConfiguration_BuildType_INTERNAL = 1"
| "logs_proto_mobilesdk_ios_ICoreConfiguration_BuildType_val logs_proto_mobilesdk_ios_ICoreConfiguration_BuildType_EAP = 2"
| "logs_proto_mobilesdk_ios_ICoreConfiguration_BuildType_val logs_proto_mobilesdk_ios_ICoreConfiguration_BuildType_PROD = 3"

definition logs_proto_mobilesdk_ios_ICoreConfiguration_BuildType_MIN :: logs_proto_mobilesdk_ios_ICoreConfiguration_BuildType where
  "logs_proto_mobilesdk_ios_ICoreConfiguration_BuildType_MIN = logs_proto_mobilesdk_ios_ICoreConfiguration_BuildType_UNKNOWN_BUILD_TYPE"

definition logs_proto_mobilesdk_ios_ICoreConfiguration_BuildType_MAX :: logs_proto_mobilesdk_ios_ICoreConfiguration_BuildType where
  "logs_proto_mobilesdk_ios_ICoreConfiguration_BuildType_MAX = logs_proto_mobilesdk_ios_ICoreConfiguration_BuildType_PROD"

definition logs_proto_mobilesdk_ios_ICoreConfiguration_BuildType_ARRAYSIZE :: int where
  "logs_proto_mobilesdk_ios_ICoreConfiguration_BuildType_ARRAYSIZE = logs_proto_mobilesdk_ios_ICoreConfiguration_BuildType_val logs_proto_mobilesdk_ios_ICoreConfiguration_BuildType_MAX + 1"

datatype logs_proto_mobilesdk_ios_ICoreConfiguration_ServiceType =
    logs_proto_mobilesdk_ios_ICoreConfiguration_ServiceType_UNKNOWN_SDK_SERVICE
  | logs_proto_mobilesdk_ios_ICoreConfiguration_ServiceType_ICORE
  | logs_proto_mobilesdk_ios_ICoreConfiguration_ServiceType_ADMOB
  | logs_proto_mobilesdk_ios_ICoreConfiguration_ServiceType_APP_INVITE
  | logs_proto_mobilesdk_ios_ICoreConfiguration_ServiceType_SIGN_IN
  | logs_proto_mobilesdk_ios_ICoreConfiguration_ServiceType_GCM
  | logs_proto_mobilesdk_ios_ICoreConfiguration_ServiceType_MAPS
  | logs_proto_mobilesdk_ios_ICoreConfiguration_ServiceType_SCION
  | logs_proto_mobilesdk_ios_ICoreConfiguration_ServiceType_ANALYTICS
  | logs_proto_mobilesdk_ios_ICoreConfiguration_ServiceType_APP_INDEXING
  | logs_proto_mobilesdk_ios_ICoreConfiguration_ServiceType_CONFIG
  | logs_proto_mobilesdk_ios_ICoreConfiguration_ServiceType_DURABLE_DEEP_LINKS
  | logs_proto_mobilesdk_ios_ICoreConfiguration_ServiceType_CRASH
  | logs_proto_mobilesdk_ios_ICoreConfiguration_ServiceType_AUTH
  | logs_proto_mobilesdk_ios_ICoreConfiguration_ServiceType_DATABASE
  | logs_proto_mobilesdk_ios_ICoreConfiguration_ServiceType_STORAGE
  | logs_proto_mobilesdk_ios_ICoreConfiguration_ServiceType_MESSAGING
  | logs_proto_mobilesdk_ios_ICoreConfiguration_ServiceType_MEASUREMENT
  | logs_proto_mobilesdk_ios_ICoreConfiguration_ServiceType_REMOTE_CONFIG
  | logs_proto_mobilesdk_ios_ICoreConfiguration_ServiceType_DYNAMIC_LINKS
  | logs_proto_mobilesdk_ios_ICoreConfiguration_ServiceType_INVITES
  | logs_proto_mobilesdk_ios_ICoreConfiguration_ServiceType_AUTH_UI
  | logs_proto_mobilesdk_ios_ICoreConfiguration_ServiceType_FIRESTORE
  | logs_proto_mobilesdk_ios_ICoreConfiguration_ServiceType_PERFORMANCE
  | logs_proto_mobilesdk_ios_ICoreConfiguration_ServiceType_ML_VISION_ON_DEVICE_FACE
  | logs_proto_mobilesdk_ios_ICoreConfiguration_ServiceType_ML_VISION_ON_DEVICE_BARCODE
  | logs_proto_mobilesdk_ios_ICoreConfiguration_ServiceType_ML_VISION_ON_DEVICE_TEXT
  | logs_proto_mobilesdk_ios_ICoreConfiguration_ServiceType_ML_VISION_ON_DEVICE_LABEL
  | logs_proto_mobilesdk_ios_ICoreConfiguration_ServiceType_ML_MODEL_INTERPRETER
  | logs_proto_mobilesdk_ios_ICoreConfiguration_ServiceType_IN_APP_MESSAGING
  | logs_proto_mobilesdk_ios_ICoreConfiguration_ServiceType_FUNCTIONS
  | logs_proto_mobilesdk_ios_ICoreConfiguration_ServiceType_ML_NATURAL_LANGUAGE
  | logs_proto_mobilesdk_ios_ICoreConfiguration_ServiceType_ML_VISION_ON_DEVICE_AUTOML
  | logs_proto_mobilesdk_ios_ICoreConfiguration_ServiceType_ML_VISION_ON_DEVICE_OBJECT_DETECTION

primrec logs_proto_mobilesdk_ios_ICoreConfiguration_ServiceType_val :: "logs_proto_mobilesdk_ios_ICoreConfiguration_ServiceType \<Rightarrow> int" where
  "logs_proto_mobilesdk_ios_ICoreConfiguration_ServiceType_val logs_proto_mobilesdk_ios_ICoreConfiguration_ServiceType_UNKNOWN_SDK_SERVICE = 0"
| "logs_proto_mobilesdk_ios_ICoreConfiguration_ServiceType_val logs_proto_mobilesdk_ios_ICoreConfiguration_ServiceType_ICORE = 1"
| "logs_proto_mobilesdk_ios_ICoreConfiguration_ServiceType_val logs_proto_mobilesdk_ios_ICoreConfiguration_ServiceType_ADMOB = 2"
| "logs_proto_mobilesdk_ios_ICoreConfiguration_ServiceType_val logs_proto_mobilesdk_ios_ICoreConfiguration_ServiceType_APP_INVITE = 3"
| "logs_proto_mobilesdk_ios_ICoreConfiguration_ServiceType_val logs_proto_mobilesdk_ios_ICoreConfiguration_ServiceType_SIGN_IN = 5"
| "logs_proto_mobilesdk_ios_ICoreConfiguration_ServiceType_val logs_proto_mobilesdk_ios_ICoreConfiguration_ServiceType_GCM = 6"
| "logs_proto_mobilesdk_ios_ICoreConfiguration_ServiceType_val logs_proto_mobilesdk_ios_ICoreConfiguration_ServiceType_MAPS = 7"
| "logs_proto_mobilesdk_ios_ICoreConfiguration_ServiceType_val logs_proto_mobilesdk_ios_ICoreConfiguration_ServiceType_SCION = 8"
| "logs_proto_mobilesdk_ios_ICoreConfiguration_ServiceType_val logs_proto_mobilesdk_ios_ICoreConfiguration_ServiceType_ANALYTICS = 9"
| "logs_proto_mobilesdk_ios_ICoreConfiguration_ServiceType_val logs_proto_mobilesdk_ios_ICoreConfiguration_ServiceType_APP_INDEXING = 10"
| "logs_proto_mobilesdk_ios_ICoreConfiguration_ServiceType_val logs_proto_mobilesdk_ios_ICoreConfiguration_ServiceType_CONFIG = 11"
| "logs_proto_mobilesdk_ios_ICoreConfiguration_ServiceType_val logs_proto_mobilesdk_ios_ICoreConfiguration_ServiceType_DURABLE_DEEP_LINKS = 12"
| "logs_proto_mobilesdk_ios_ICoreConfiguration_ServiceType_val logs_proto_mobilesdk_ios_ICoreConfiguration_ServiceType_CRASH = 13"
| "logs_proto_mobilesdk_ios_ICoreConfiguration_ServiceType_val logs_proto_mobilesdk_ios_ICoreConfiguration_ServiceType_AUTH = 14"
| "logs_proto_mobilesdk_ios_ICoreConfiguration_ServiceType_val logs_proto_mobilesdk_ios_ICoreConfiguration_ServiceType_DATABASE = 15"
| "logs_proto_mobilesdk_ios_ICoreConfiguration_ServiceType_val logs_proto_mobilesdk_ios_ICoreConfiguration_ServiceType_STORAGE = 16"
| "logs_proto_mobilesdk_ios_ICoreConfiguration_ServiceType_val logs_proto_mobilesdk_ios_ICoreConfiguration_ServiceType_MESSAGING = 17"
| "logs_proto_mobilesdk_ios_ICoreConfiguration_ServiceType_val logs_proto_mobilesdk_ios_ICoreConfiguration_ServiceType_MEASUREMENT = 18"
| "logs_proto_mobilesdk_ios_ICoreConfiguration_ServiceType_val logs_proto_mobilesdk_ios_ICoreConfiguration_ServiceType_REMOTE_CONFIG = 19"
| "logs_proto_mobilesdk_ios_ICoreConfiguration_ServiceType_val logs_proto_mobilesdk_ios_ICoreConfiguration_ServiceType_DYNAMIC_LINKS = 20"
| "logs_proto_mobilesdk_ios_ICoreConfiguration_ServiceType_val logs_proto_mobilesdk_ios_ICoreConfiguration_ServiceType_INVITES = 21"
| "logs_proto_mobilesdk_ios_ICoreConfiguration_ServiceType_val logs_proto_mobilesdk_ios_ICoreConfiguration_ServiceType_AUTH_UI = 22"
| "logs_proto_mobilesdk_ios_ICoreConfiguration_ServiceType_val logs_proto_mobilesdk_ios_ICoreConfiguration_ServiceType_FIRESTORE = 23"
| "logs_proto_mobilesdk_ios_ICoreConfiguration_ServiceType_val logs_proto_mobilesdk_ios_ICoreConfiguration_ServiceType_PERFORMANCE = 24"
| "logs_proto_mobilesdk_ios_ICoreConfiguration_ServiceType_val logs_proto_mobilesdk_ios_ICoreConfiguration_ServiceType_ML_VISION_ON_DEVICE_FACE = 26"
| "logs_proto_mobilesdk_ios_ICoreConfiguration_ServiceType_val logs_proto_mobilesdk_ios_ICoreConfiguration_ServiceType_ML_VISION_ON_DEVICE_BARCODE = 27"
| "logs_proto_mobilesdk_ios_ICoreConfiguration_ServiceType_val logs_proto_mobilesdk_ios_ICoreConfiguration_ServiceType_ML_VISION_ON_DEVICE_TEXT = 28"
| "logs_proto_mobilesdk_ios_ICoreConfiguration_ServiceType_val logs_proto_mobilesdk_ios_ICoreConfiguration_ServiceType_ML_VISION_ON_DEVICE_LABEL = 29"
| "logs_proto_mobilesdk_ios_ICoreConfiguration_ServiceType_val logs_proto_mobilesdk_ios_ICoreConfiguration_ServiceType_ML_MODEL_INTERPRETER = 30"
| "logs_proto_mobilesdk_ios_ICoreConfiguration_ServiceType_val logs_proto_mobilesdk_ios_ICoreConfiguration_ServiceType_IN_APP_MESSAGING = 31"
| "logs_proto_mobilesdk_ios_ICoreConfiguration_ServiceType_val logs_proto_mobilesdk_ios_ICoreConfiguration_ServiceType_FUNCTIONS = 32"
| "logs_proto_mobilesdk_ios_ICoreConfiguration_ServiceType_val logs_proto_mobilesdk_ios_ICoreConfiguration_ServiceType_ML_NATURAL_LANGUAGE = 33"
| "logs_proto_mobilesdk_ios_ICoreConfiguration_ServiceType_val logs_proto_mobilesdk_ios_ICoreConfiguration_ServiceType_ML_VISION_ON_DEVICE_AUTOML = 34"
| "logs_proto_mobilesdk_ios_ICoreConfiguration_ServiceType_val logs_proto_mobilesdk_ios_ICoreConfiguration_ServiceType_ML_VISION_ON_DEVICE_OBJECT_DETECTION = 35"

definition logs_proto_mobilesdk_ios_ICoreConfiguration_ServiceType_MIN :: logs_proto_mobilesdk_ios_ICoreConfiguration_ServiceType where
  "logs_proto_mobilesdk_ios_ICoreConfiguration_ServiceType_MIN = logs_proto_mobilesdk_ios_ICoreConfiguration_ServiceType_UNKNOWN_SDK_SERVICE"

definition logs_proto_mobilesdk_ios_ICoreConfiguration_ServiceType_MAX :: logs_proto_mobilesdk_ios_ICoreConfiguration_ServiceType where
  "logs_proto_mobilesdk_ios_ICoreConfiguration_ServiceType_MAX = logs_proto_mobilesdk_ios_ICoreConfiguration_ServiceType_ML_VISION_ON_DEVICE_OBJECT_DETECTION"

definition logs_proto_mobilesdk_ios_ICoreConfiguration_ServiceType_ARRAYSIZE :: int where
  "logs_proto_mobilesdk_ios_ICoreConfiguration_ServiceType_ARRAYSIZE = logs_proto_mobilesdk_ios_ICoreConfiguration_ServiceType_val logs_proto_mobilesdk_ios_ICoreConfiguration_ServiceType_MAX + 1"

datatype logs_proto_mobilesdk_ios_ICoreConfiguration_PodName =
    logs_proto_mobilesdk_ios_ICoreConfiguration_PodName_UNKNOWN_POD_NAME
  | logs_proto_mobilesdk_ios_ICoreConfiguration_PodName_GOOGLE
  | logs_proto_mobilesdk_ios_ICoreConfiguration_PodName_FIREBASE

primrec logs_proto_mobilesdk_ios_ICoreConfiguration_PodName_val :: "logs_proto_mobilesdk_ios_ICoreConfiguration_PodName \<Rightarrow> int" where
  "logs_proto_mobilesdk_ios_ICoreConfiguration_PodName_val logs_proto_mobilesdk_ios_ICoreConfiguration_PodName_UNKNOWN_POD_NAME = 0"
| "logs_proto_mobilesdk_ios_ICoreConfiguration_PodName_val logs_proto_mobilesdk_ios_ICoreConfiguration_PodName_GOOGLE = 1"
| "logs_proto_mobilesdk_ios_ICoreConfiguration_PodName_val logs_proto_mobilesdk_ios_ICoreConfiguration_PodName_FIREBASE = 2"

definition logs_proto_mobilesdk_ios_ICoreConfiguration_PodName_MIN :: logs_proto_mobilesdk_ios_ICoreConfiguration_PodName where
  "logs_proto_mobilesdk_ios_ICoreConfiguration_PodName_MIN = logs_proto_mobilesdk_ios_ICoreConfiguration_PodName_UNKNOWN_POD_NAME"

definition logs_proto_mobilesdk_ios_ICoreConfiguration_PodName_MAX :: logs_proto_mobilesdk_ios_ICoreConfiguration_PodName where
  "logs_proto_mobilesdk_ios_ICoreConfiguration_PodName_MAX = logs_proto_mobilesdk_ios_ICoreConfiguration_PodName_FIREBASE"

definition logs_proto_mobilesdk_ios_ICoreConfiguration_PodName_ARRAYSIZE :: int where
  "logs_proto_mobilesdk_ios_ICoreConfiguration_PodName_ARRAYSIZE = logs_proto_mobilesdk_ios_ICoreConfiguration_PodName_val logs_proto_mobilesdk_ios_ICoreConfiguration_PodName_MAX + 1"

datatype logs_proto_mobilesdk_ios_ICoreConfiguration_DeploymentType =
    logs_proto_mobilesdk_ios_ICoreConfiguration_DeploymentType_UNKNOWN
  | logs_proto_mobilesdk_ios_ICoreConfiguration_DeploymentType_COCOAPODS
  | logs_proto_mobilesdk_ios_ICoreConfiguration_DeploymentType_ZIP_FILE
  | logs_proto_mobilesdk_ios_ICoreConfiguration_DeploymentType_CARTHAGE
  | logs_proto_mobilesdk_ios_ICoreConfiguration_DeploymentType_SPM

primrec logs_proto_mobilesdk_ios_ICoreConfiguration_DeploymentType_val :: "logs_proto_mobilesdk_ios_ICoreConfiguration_DeploymentType \<Rightarrow> int" where
  "logs_proto_mobilesdk_ios_ICoreConfiguration_DeploymentType_val logs_proto_mobilesdk_ios_ICoreConfiguration_DeploymentType_UNKNOWN = 0"
| "logs_proto_mobilesdk_ios_ICoreConfiguration_DeploymentType_val logs_proto_mobilesdk_ios_ICoreConfiguration_DeploymentType_COCOAPODS = 1"
| "logs_proto_mobilesdk_ios_ICoreConfiguration_DeploymentType_val logs_proto_mobilesdk_ios_ICoreConfiguration_DeploymentType_ZIP_FILE = 2"
| "logs_proto_mobilesdk_ios_ICoreConfiguration_DeploymentType_val logs_proto_mobilesdk_ios_ICoreConfiguration_DeploymentType_CARTHAGE = 3"
| "logs_proto_mobilesdk_ios_ICoreConfiguration_DeploymentType_val logs_proto_mobilesdk_ios_ICoreConfiguration_DeploymentType_SPM = 4"

definition logs_proto_mobilesdk_ios_ICoreConfiguration_DeploymentType_MIN :: logs_proto_mobilesdk_ios_ICoreConfiguration_DeploymentType where
  "logs_proto_mobilesdk_ios_ICoreConfiguration_DeploymentType_MIN = logs_proto_mobilesdk_ios_ICoreConfiguration_DeploymentType_UNKNOWN"

definition logs_proto_mobilesdk_ios_ICoreConfiguration_DeploymentType_MAX :: logs_proto_mobilesdk_ios_ICoreConfiguration_DeploymentType where
  "logs_proto_mobilesdk_ios_ICoreConfiguration_DeploymentType_MAX = logs_proto_mobilesdk_ios_ICoreConfiguration_DeploymentType_SPM"

definition logs_proto_mobilesdk_ios_ICoreConfiguration_DeploymentType_ARRAYSIZE :: int where
  "logs_proto_mobilesdk_ios_ICoreConfiguration_DeploymentType_ARRAYSIZE = logs_proto_mobilesdk_ios_ICoreConfiguration_DeploymentType_val logs_proto_mobilesdk_ios_ICoreConfiguration_DeploymentType_MAX + 1"

section \<open>Structures\<close>

definition logs_proto_mobilesdk_ios_ICoreConfiguration :: ctype where
  "logs_proto_mobilesdk_ios_ICoreConfiguration = CStruct (
    Member ''has_configuration_type'' c_bool (
    Member ''configuration_type'' c_int32 (
    Member ''sdk_service_installed_count'' c_int32 (
    Member ''sdk_service_installed'' (CPtr c_int32) (
    Member ''device_model'' (CPtr pb_bytes_array_s) (
    Member ''app_id'' (CPtr pb_bytes_array_s) (
    Member ''bundle_id'' (CPtr pb_bytes_array_s) (
    Member ''has_pod_name'' c_bool (
    Member ''pod_name'' c_int32 (
    Member ''icore_version'' (CPtr pb_bytes_array_s) (
    Member ''sdk_version'' (CPtr pb_bytes_array_s) (
    Member ''has_sdk_name'' c_bool (
    Member ''sdk_name'' c_int32 (
    Member ''has_app_count'' c_bool (
    Member ''app_count'' c_int32 (
    Member ''os_version'' (CPtr pb_bytes_array_s) (
    Member ''min_supported_ios_version'' (CPtr pb_bytes_array_s) (
    Member ''has_use_default_app'' c_bool (
    Member ''use_default_app'' c_bool (
    Member ''has_deployed_in_app_store'' c_bool (
    Member ''deployed_in_app_store'' c_bool (
    Member ''has_dynamic_framework_count'' c_bool (
    Member ''dynamic_framework_count'' c_int32 (
    Member ''apple_framework_version'' (CPtr pb_bytes_array_s) (
    Member ''has_using_zip_file'' c_bool (
    Member ''using_zip_file'' c_bool (
    Member ''has_deployment_type'' c_bool (
    Member ''deployment_type'' c_int32 (
    Member ''platform_info'' (CPtr pb_bytes_array_s) (
    Member ''has_swizzling_enabled'' c_bool (
    Member ''swizzling_enabled'' c_bool (
    Member ''has_using_gdt'' c_bool (
    Member ''using_gdt'' c_bool (End))))))))))))))))))))))))))))))))))"

section \<open>Descriptors\<close>

definition logs_proto_mobilesdk_ios_ICoreConfiguration_fields :: "pb_field_t list" where
  "logs_proto_mobilesdk_ios_ICoreConfiguration_fields = [
     PB_FIELD 1 UENUM OPTIONAL STATIC FIRST logs_proto_mobilesdk_ios_ICoreConfiguration ''configuration_type'' ''configuration_type'' 0,
     PB_FIELD 7 UENUM REPEATED POINTER OTHER logs_proto_mobilesdk_ios_ICoreConfiguration ''sdk_service_installed'' ''configuration_type'' 0,
     PB_FIELD 9 BYTES OPTIONAL POINTER OTHER logs_proto_mobilesdk_ios_ICoreConfiguration ''device_model'' ''sdk_service_installed'' 0,
     PB_FIELD 10 BYTES OPTIONAL POINTER OTHER logs_proto_mobilesdk_ios_ICoreConfiguration ''app_id'' ''device_model'' 0,
     PB_FIELD 12 BYTES OPTIONAL POINTER OTHER logs_proto_mobilesdk_ios_ICoreConfiguration ''bundle_id'' ''app_id'' 0,
     PB_FIELD 16 UENUM OPTIONAL STATIC OTHER logs_proto_mobilesdk_ios_ICoreConfiguration ''pod_name'' ''bundle_id'' 0,
     PB_FIELD 18 BYTES OPTIONAL POINTER OTHER logs_proto_mobilesdk_ios_ICoreConfiguration ''icore_version'' ''pod_name'' 0,
     PB_FIELD 19 BYTES OPTIONAL POINTER OTHER logs_proto_mobilesdk_ios_ICoreConfiguration ''sdk_version'' ''icore_version'' 0,
     PB_FIELD 20 UENUM OPTIONAL STATIC OTHER logs_proto_mobilesdk_ios_ICoreConfiguration ''sdk_name'' ''sdk_version'' 0,
     PB_FIELD 21 INT32 OPTIONAL STATIC OTHER logs_proto_mobilesdk_ios_ICoreConfiguration ''app_count'' ''sdk_name'' 0,
     PB_FIELD 22 BYTES OPTIONAL POINTER OTHER logs_proto_mobilesdk_ios_ICoreConfiguration ''os_version'' ''app_count'' 0,
     PB_FIELD 24 BYTES OPTIONAL POINTER OTHER logs_proto_mobilesdk_ios_ICoreConfiguration ''min_supported_ios_version'' ''os_version'' 0,
     PB_FIELD 25 BOOL OPTIONAL STATIC OTHER logs_proto_mobilesdk_ios_ICoreConfiguration ''use_default_app'' ''min_supported_ios_version'' 0,
     PB_FIELD 26 BOOL OPTIONAL STATIC OTHER logs_proto_mobilesdk_ios_ICoreConfiguration ''deployed_in_app_store'' ''use_default_app'' 0,
     PB_FIELD 27 INT32 OPTIONAL STATIC OTHER logs_proto_mobilesdk_ios_ICoreConfiguration ''dynamic_framework_count'' ''deployed_in_app_store'' 0,
     PB_FIELD 28 BYTES OPTIONAL POINTER OTHER logs_proto_mobilesdk_ios_ICoreConfiguration ''apple_framework_version'' ''dynamic_framework_count'' 0,
     PB_FIELD 29 BOOL OPTIONAL STATIC OTHER logs_proto_mobilesdk_ios_ICoreConfiguration ''using_zip_file'' ''apple_framework_version'' 0,
     PB_FIELD 30 UENUM OPTIONAL STATIC OTHER logs_proto_mobilesdk_ios_ICoreConfiguration ''deployment_type'' ''using_zip_file'' 0,
     PB_FIELD 31 BYTES OPTIONAL POINTER OTHER logs_proto_mobilesdk_ios_ICoreConfiguration ''platform_info'' ''deployment_type'' 0,
     PB_FIELD 33 BOOL OPTIONAL STATIC OTHER logs_proto_mobilesdk_ios_ICoreConfiguration ''swizzling_enabled'' ''platform_info'' 0,
     PB_FIELD 36 BOOL OPTIONAL STATIC OTHER logs_proto_mobilesdk_ios_ICoreConfiguration ''using_gdt'' ''swizzling_enabled'' 0,
     PB_LAST_FIELD]"

section \<open>Initialisers\<close>

definition logs_proto_mobilesdk_ios_ICoreConfiguration_init_default :: c_init where
  "logs_proto_mobilesdk_ios_ICoreConfiguration_init_default =
     [([''has_configuration_type''], 0),
      ([''configuration_type''], logs_proto_mobilesdk_ios_ICoreConfiguration_ConfigurationType_val logs_proto_mobilesdk_ios_ICoreConfiguration_ConfigurationType_MIN),
      ([''sdk_service_installed_count''], 0),
      ([''sdk_service_installed''], 0),
      ([''device_model''], 0),
      ([''app_id''], 0),
      ([''bundle_id''], 0),
      ([''has_pod_name''], 0),
      ([''pod_name''], logs_proto_mobilesdk_ios_ICoreConfiguration_PodName_val logs_proto_mobilesdk_ios_ICoreConfiguration_PodName_MIN),
      ([''icore_version''], 0),
      ([''sdk_version''], 0),
      ([''has_sdk_name''], 0),
      ([''sdk_name''], logs_proto_mobilesdk_ios_ICoreConfiguration_ServiceType_val logs_proto_mobilesdk_ios_ICoreConfiguration_ServiceType_MIN),
      ([''has_app_count''], 0),
      ([''app_count''], 0),
      ([''os_version''], 0),
      ([''min_supported_ios_version''], 0),
      ([''has_use_default_app''], 0),
      ([''use_default_app''], 0),
      ([''has_deployed_in_app_store''], 0),
      ([''deployed_in_app_store''], 0),
      ([''has_dynamic_framework_count''], 0),
      ([''dynamic_framework_count''], 0),
      ([''apple_framework_version''], 0),
      ([''has_using_zip_file''], 0),
      ([''using_zip_file''], 0),
      ([''has_deployment_type''], 0),
      ([''deployment_type''], logs_proto_mobilesdk_ios_ICoreConfiguration_DeploymentType_val logs_proto_mobilesdk_ios_ICoreConfiguration_DeploymentType_MIN),
      ([''platform_info''], 0),
      ([''has_swizzling_enabled''], 0),
      ([''swizzling_enabled''], 0),
      ([''has_using_gdt''], 0),
      ([''using_gdt''], 0)]"

definition logs_proto_mobilesdk_ios_ICoreConfiguration_init_zero :: c_init where
  "logs_proto_mobilesdk_ios_ICoreConfiguration_init_zero =
     [([''has_configuration_type''], 0),
      ([''configuration_type''], logs_proto_mobilesdk_ios_ICoreConfiguration_ConfigurationType_val logs_proto_mobilesdk_ios_ICoreConfiguration_ConfigurationType_MIN),
      ([''sdk_service_installed_count''], 0),
      ([''sdk_service_installed''], 0),
      ([''device_model''], 0),
      ([''app_id''], 0),
      ([''bundle_id''], 0),
      ([''has_pod_name''], 0),
      ([''pod_name''], logs_proto_mobilesdk_ios_ICoreConfiguration_PodName_val logs_proto_mobilesdk_ios_ICoreConfiguration_PodName_MIN),
      ([''icore_version''], 0),
      ([''sdk_version''], 0),
      ([''has_sdk_name''], 0),
      ([''sdk_name''], logs_proto_mobilesdk_ios_ICoreConfiguration_ServiceType_val logs_proto_mobilesdk_ios_ICoreConfiguration_ServiceType_MIN),
      ([''has_app_count''], 0),
      ([''app_count''], 0),
      ([''os_version''], 0),
      ([''min_supported_ios_version''], 0),
      ([''has_use_default_app''], 0),
      ([''use_default_app''], 0),
      ([''has_deployed_in_app_store''], 0),
      ([''deployed_in_app_store''], 0),
      ([''has_dynamic_framework_count''], 0),
      ([''dynamic_framework_count''], 0),
      ([''apple_framework_version''], 0),
      ([''has_using_zip_file''], 0),
      ([''using_zip_file''], 0),
      ([''has_deployment_type''], 0),
      ([''deployment_type''], logs_proto_mobilesdk_ios_ICoreConfiguration_DeploymentType_val logs_proto_mobilesdk_ios_ICoreConfiguration_DeploymentType_MIN),
      ([''platform_info''], 0),
      ([''has_swizzling_enabled''], 0),
      ([''swizzling_enabled''], 0),
      ([''has_using_gdt''], 0),
      ([''using_gdt''], 0)]"

section \<open>Tags\<close>

definition icore_tags :: "(string \<times> pb_size_t) list" where
  "icore_tags = [
     (''logs_proto_mobilesdk_ios_ICoreConfiguration_pod_name_tag'', 16),
     (''logs_proto_mobilesdk_ios_ICoreConfiguration_configuration_type_tag'', 1),
     (''logs_proto_mobilesdk_ios_ICoreConfiguration_icore_version_tag'', 18),
     (''logs_proto_mobilesdk_ios_ICoreConfiguration_sdk_version_tag'', 19),
     (''logs_proto_mobilesdk_ios_ICoreConfiguration_sdk_service_installed_tag'', 7),
     (''logs_proto_mobilesdk_ios_ICoreConfiguration_sdk_name_tag'', 20),
     (''logs_proto_mobilesdk_ios_ICoreConfiguration_device_model_tag'', 9),
     (''logs_proto_mobilesdk_ios_ICoreConfiguration_os_version_tag'', 22),
     (''logs_proto_mobilesdk_ios_ICoreConfiguration_app_id_tag'', 10),
     (''logs_proto_mobilesdk_ios_ICoreConfiguration_bundle_id_tag'', 12),
     (''logs_proto_mobilesdk_ios_ICoreConfiguration_min_supported_ios_version_tag'', 24),
     (''logs_proto_mobilesdk_ios_ICoreConfiguration_use_default_app_tag'', 25),
     (''logs_proto_mobilesdk_ios_ICoreConfiguration_app_count_tag'', 21),
     (''logs_proto_mobilesdk_ios_ICoreConfiguration_deployed_in_app_store_tag'', 26),
     (''logs_proto_mobilesdk_ios_ICoreConfiguration_dynamic_framework_count_tag'', 27),
     (''logs_proto_mobilesdk_ios_ICoreConfiguration_apple_framework_version_tag'', 28),
     (''logs_proto_mobilesdk_ios_ICoreConfiguration_using_zip_file_tag'', 29),
     (''logs_proto_mobilesdk_ios_ICoreConfiguration_deployment_type_tag'', 30),
     (''logs_proto_mobilesdk_ios_ICoreConfiguration_platform_info_tag'', 31),
     (''logs_proto_mobilesdk_ios_ICoreConfiguration_swizzling_enabled_tag'', 33),
     (''logs_proto_mobilesdk_ios_ICoreConfiguration_using_gdt_tag'', 36)]"

section \<open>The descriptors describe the structure\<close>

text \<open>The descriptor array of \<open>ICoreConfiguration\<close> describes its structure, for all 21
  fields.\<close>

theorem core_descriptors_match:
  "describes logs_proto_mobilesdk_ios_ICoreConfiguration [
     ''configuration_type'',
     ''sdk_service_installed'',
     ''device_model'',
     ''app_id'',
     ''bundle_id'',
     ''pod_name'',
     ''icore_version'',
     ''sdk_version'',
     ''sdk_name'',
     ''app_count'',
     ''os_version'',
     ''min_supported_ios_version'',
     ''use_default_app'',
     ''deployed_in_app_store'',
     ''dynamic_framework_count'',
     ''apple_framework_version'',
     ''using_zip_file'',
     ''deployment_type'',
     ''platform_info'',
     ''swizzling_enabled'',
     ''using_gdt'']
     logs_proto_mobilesdk_ios_ICoreConfiguration_fields"
  by code_simp

text \<open>The descriptors of \<open>ICoreConfiguration\<close> carry the tag numbers that the header
  publishes.\<close>

theorem core_tags_match:
  "map (\<lambda>name. map_of icore_tags (''logs_proto_mobilesdk_ios_ICoreConfiguration_'' @ name @ ''_tag'')) [
     ''configuration_type'',
     ''sdk_service_installed'',
     ''device_model'',
     ''app_id'',
     ''bundle_id'',
     ''pod_name'',
     ''icore_version'',
     ''sdk_version'',
     ''sdk_name'',
     ''app_count'',
     ''os_version'',
     ''min_supported_ios_version'',
     ''use_default_app'',
     ''deployed_in_app_store'',
     ''dynamic_framework_count'',
     ''apple_framework_version'',
     ''using_zip_file'',
     ''deployment_type'',
     ''platform_info'',
     ''swizzling_enabled'',
     ''using_gdt''] =
   map (Some \<circ> f_tag) (butlast logs_proto_mobilesdk_ios_ICoreConfiguration_fields)"
  by code_simp

end
