(* ===== verification/Pb_Release.thy ===== *)
theory Pb_Release
  imports Pb_Env
begin

text \<open>
  Default values and release of messages: \<open>pb_field_set_to_default\<close>,
  \<open>pb_message_set_to_defaults\<close>, \<open>pb_release_single_field\<close>, \<open>pb_release\<close> and
  \<open>allocate_field\<close> of \<open>pb_decode.c\<close>. They work on memory only. Recursion goes through
  submessages and through the extensions of a message; the argument \<open>k\<close> bounds its depth
  and the length of extension chains, and a run beyond the bound has no result.
\<close>

section \<open>Iterating without a result\<close>

fun iter_loop :: "nat \<Rightarrow> (pb_field_iter_t \<Rightarrow> mem \<Rightarrow> mem option) \<Rightarrow> pb_field_iter_t \<Rightarrow> mem \<Rightarrow> mem option" where
  "iter_loop 0 body it m = None"
| "iter_loop (Suc n) body it m = do {
     m \<leftarrow> body it m;
     (more, it) \<leftarrow> pb_field_iter_next it;
     if more then iter_loop n body it m else Some m }"

text \<open>\<open>while (ext != NULL) { ... ext = ext->next; }\<close>\<close>

fun ext_loop :: "nat \<Rightarrow> (addr \<Rightarrow> mem \<Rightarrow> mem option) \<Rightarrow> addr \<Rightarrow> mem \<Rightarrow> mem option" where
  "ext_loop n body ext m = (if ext = 0 then Some m
     else case n of
       0 \<Rightarrow> None
     | Suc n' \<Rightarrow> do {
         m \<leftarrow> body ext m;
         next \<leftarrow> load_ptr m (ext + int (offsetof pb_extension_s [''next'']));
         ext_loop n' body next m })"

declare ext_loop.simps [simp del]

definition iter_field :: "pb_field_iter_t \<Rightarrow> pb_field_t option" where
  "iter_field it = get_field (it_start it) (it_pos it)"

definition iter_from_extension :: "pb_env \<Rightarrow> mem \<Rightarrow> addr \<Rightarrow> pb_field_iter_t option" where
  "iter_from_extension env m extension = do {
     type \<leftarrow> load_ptr m (extension + int (offsetof pb_extension_s [''type'']));
     arg \<leftarrow> load_ptr m (type + int (offsetof pb_extension_type_s [''arg'']));
     dest \<leftarrow> load_ptr m (extension + int (offsetof pb_extension_s [''dest'']));
     (_, it) \<leftarrow> pb_field_iter_begin (env_fields env arg) dest;
     field \<leftarrow> get_field (env_fields env arg) 0;
     Some (it\<lparr>it_pData := if PB_ATYPE (f_type field) = PB_ATYPE_POINTER
                then extension + int (offsetof pb_extension_s [''dest'']) else dest,
              it_pSize := extension + int (offsetof pb_extension_s [''found''])\<rparr>) }"

section \<open>Default values\<close>

definition pb_message_set_to_defaults :: "(pb_field_iter_t \<Rightarrow> mem \<Rightarrow> mem option) \<Rightarrow> pb_field_t list \<Rightarrow> addr \<Rightarrow> mem \<Rightarrow> mem option" where
  "pb_message_set_to_defaults set_field fs dest_struct m = do {
     (ok, iter) \<leftarrow> pb_field_iter_begin fs dest_struct;
     if \<not> ok then Some m else iter_loop (length fs) set_field iter m }"

definition set_static_default :: "pb_env \<Rightarrow> (pb_field_iter_t \<Rightarrow> mem \<Rightarrow> mem option) \<Rightarrow> pb_field_t \<Rightarrow> pb_field_iter_t \<Rightarrow> mem \<Rightarrow> mem option" where
  "set_static_default env rec f it m = do {
     let ht = PB_HTYPE (f_type f);
     (init_data, m) \<leftarrow>
       (if ht = PB_HTYPE_OPTIONAL \<and> it_pSize it \<noteq> it_pData it then do {
          m \<leftarrow> store_bool m (it_pSize it) False; Some (True, m) }
        else if ht = PB_HTYPE_REPEATED \<or> ht = PB_HTYPE_ONEOF then do {
          m \<leftarrow> store_u32 m (it_pSize it) 0; Some (False, m) }
        else Some (True, m));
     if \<not> init_data then Some m
     else if PB_LTYPE (f_type f) = PB_LTYPE_SUBMESSAGE
     then pb_message_set_to_defaults rec (env_fields env (f_ptr f)) (it_pData it) m
     else if f_ptr f \<noteq> 0 then memcpy m (it_pData it) (f_ptr f) (unat (f_data_size f))
     else memset m (it_pData it) 0 (unat (f_data_size f)) }"

primrec pb_field_set_to_default :: "pb_env \<Rightarrow> nat \<Rightarrow> pb_field_iter_t \<Rightarrow> mem \<Rightarrow> mem option" where
  "pb_field_set_to_default env 0 = (\<lambda>it m. None)"
| "pb_field_set_to_default env (Suc k) = (\<lambda>it m. do {
     f \<leftarrow> iter_field it;
     let type = f_type f;
     if PB_LTYPE type = PB_LTYPE_EXTENSION then do {
       ext \<leftarrow> load_ptr m (it_pData it);
       ext_loop (Suc k) (\<lambda>ext m. do {
         m \<leftarrow> store_bool m (ext + int (offsetof pb_extension_s [''found''])) False;
         ext_iter \<leftarrow> iter_from_extension env m ext;
         pb_field_set_to_default env k ext_iter m }) ext m }
     else if PB_ATYPE type = PB_ATYPE_STATIC then
       set_static_default env (pb_field_set_to_default env k) f it m
     else if PB_ATYPE type = PB_ATYPE_POINTER then do {
       m \<leftarrow> store_ptr m (it_pData it) 0;
       if PB_HTYPE type = PB_HTYPE_REPEATED \<or> PB_HTYPE type = PB_HTYPE_ONEOF
       then store_u32 m (it_pSize it) 0 else Some m }
     else Some m })"

section \<open>Release\<close>

definition pb_release :: "(pb_field_iter_t \<Rightarrow> mem \<Rightarrow> mem option) \<Rightarrow> pb_field_t list \<Rightarrow> addr \<Rightarrow> mem \<Rightarrow> mem option" where
  "pb_release release_field fs dest_struct m =
     (if dest_struct = 0 then Some m
      else do {
        (ok, iter) \<leftarrow> pb_field_iter_begin fs dest_struct;
        if \<not> ok then Some m else iter_loop (length fs) release_field iter m })"

text \<open>\<open>while (count--) { pb_release(...); pItem += data_size; }\<close>\<close>

primrec release_items :: "nat \<Rightarrow> (addr \<Rightarrow> mem \<Rightarrow> mem option) \<Rightarrow> int \<Rightarrow> addr \<Rightarrow> mem \<Rightarrow> mem option" where
  "release_items 0 rel step pItem m = Some m"
| "release_items (Suc n) rel step pItem m = do {
     m \<leftarrow> rel pItem m;
     release_items n rel step (pItem + step) m }"

text \<open>\<open>while (count--) { pb_free(*pItem); *pItem++ = NULL; }\<close>\<close>

primrec free_items :: "nat \<Rightarrow> addr \<Rightarrow> mem \<Rightarrow> mem option" where
  "free_items 0 pItem m = Some m"
| "free_items (Suc n) pItem m = do {
     p \<leftarrow> load_ptr m pItem;
     m \<leftarrow> c_free m p;
     m \<leftarrow> store_ptr m pItem 0;
     free_items n (pItem + 8) m }"

text \<open>The submessage or array of submessages inside a field.\<close>

definition release_submessages :: "pb_env \<Rightarrow> (pb_field_iter_t \<Rightarrow> mem \<Rightarrow> mem option) \<Rightarrow> pb_field_t \<Rightarrow> pb_field_iter_t \<Rightarrow> mem \<Rightarrow> mem option" where
  "release_submessages env rec f it m = do {
     let type = f_type f;
     pItem \<leftarrow> (if PB_ATYPE type = PB_ATYPE_POINTER then load_ptr m (it_pData it) else Some (it_pData it));
     count \<leftarrow>
       (if PB_HTYPE type = PB_HTYPE_REPEATED then do {
          count \<leftarrow> (if PB_ATYPE type = PB_ATYPE_STATIC \<and> it_pSize it = it_pData it
                   then Some (f_array_size f) else load_u32 m (it_pSize it));
          Some (if PB_ATYPE type = PB_ATYPE_STATIC \<and> count > f_array_size f then f_array_size f else count) }
        else Some 1);
     if pItem \<noteq> 0
     then release_items (unat count) (pb_release rec (env_fields env (f_ptr f))) (uint (f_data_size f)) pItem m
     else Some m }"

text \<open>The storage of a pointer field itself.\<close>

definition release_pointer :: "pb_field_t \<Rightarrow> pb_field_iter_t \<Rightarrow> mem \<Rightarrow> mem option" where
  "release_pointer f it m = do {
     let type = f_type f;
     m \<leftarrow> (if PB_HTYPE type = PB_HTYPE_REPEATED \<and>
              (PB_LTYPE type = PB_LTYPE_STRING \<or> PB_LTYPE type = PB_LTYPE_BYTES) then do {
            pItem \<leftarrow> load_ptr m (it_pData it);
            count \<leftarrow> load_u32 m (it_pSize it);
            free_items (unat count) pItem m }
          else Some m);
     m \<leftarrow> (if PB_HTYPE type = PB_HTYPE_REPEATED then store_u32 m (it_pSize it) 0 else Some m);
     p \<leftarrow> load_ptr m (it_pData it);
     m \<leftarrow> c_free m p;
     store_ptr m (it_pData it) 0 }"

primrec pb_release_single_field :: "pb_env \<Rightarrow> nat \<Rightarrow> pb_field_iter_t \<Rightarrow> mem \<Rightarrow> mem option" where
  "pb_release_single_field env 0 = (\<lambda>it m. None)"
| "pb_release_single_field env (Suc k) = (\<lambda>it m. do {
     f \<leftarrow> iter_field it;
     let type = f_type f;
     current \<leftarrow> (if PB_HTYPE type = PB_HTYPE_ONEOF then do {
         which \<leftarrow> load_u32 m (it_pSize it); Some (which = f_tag f) }
       else Some True);
     if \<not> current then Some m
     else do {
       m \<leftarrow>
         (if PB_LTYPE type = PB_LTYPE_EXTENSION then do {
            ext \<leftarrow> load_ptr m (it_pData it);
            ext_loop (Suc k) (\<lambda>ext m. do {
              ext_iter \<leftarrow> iter_from_extension env m ext;
              pb_release_single_field env k ext_iter m }) ext m }
          else if PB_LTYPE type = PB_LTYPE_SUBMESSAGE \<and> PB_ATYPE type \<noteq> PB_ATYPE_CALLBACK
          then release_submessages env (pb_release_single_field env k) f it m
          else Some m);
       if PB_ATYPE type = PB_ATYPE_POINTER then release_pointer f it m else Some m } })"

text \<open>Given a oneof field: release what another field of the union left in it.\<close>

definition pb_release_union_field :: "pb_env \<Rightarrow> nat \<Rightarrow> mem \<Rightarrow> pb_istream_t \<Rightarrow> pb_field_iter_t \<Rightarrow>
    (bool \<times> pb_istream_t \<times> mem \<times> pb_field_iter_t) option" where
  "pb_release_union_field env k m s it = do {
     old_tag \<leftarrow> load_u32 m (it_pSize it);
     f \<leftarrow> iter_field it;
     let new_tag = f_tag f;
     if old_tag = 0 then Some (True, s, m, it)
     else if old_tag = new_tag then Some (True, s, m, it)
     else do {
       (found, it) \<leftarrow> pb_field_iter_find it old_tag;
       if \<not> found then Some (False, is_set_error s ''invalid union tag'', m, it)
       else do {
         m \<leftarrow> pb_release_single_field env k it m;
         (found, it) \<leftarrow> pb_field_iter_find it new_tag;
         if \<not> found then Some (False, is_set_error s ''iterator error'', m, it)
         else Some (True, s, m, it) } } }"

section \<open>Allocation\<close>

definition allocate_field :: "mem \<Rightarrow> pb_istream_t \<Rightarrow> addr \<Rightarrow> size_t \<Rightarrow> size_t \<Rightarrow> dres" where
  "allocate_field m s pData data_size array_size = do {
     ptr \<leftarrow> load_ptr m pData;
     if data_size = 0 \<or> array_size = 0 then Some (False, is_set_error s ''invalid size'', m)
     else let check_limit = push_bit 32 1 in
       if (data_size \<ge> check_limit \<or> array_size \<ge> check_limit) \<and> (-1) div array_size < data_size
       then Some (False, is_set_error s ''size too large'', m)
       else do {
         (ptr, m) \<leftarrow> c_realloc m ptr (unat (array_size * data_size));
         if ptr = 0 then Some (False, is_set_error s ''realloc failed'', m)
         else do { m \<leftarrow> store_ptr m pData ptr; Some (True, s, m) } } }"

end
