(* ===== verification/Pb_Decode.thy ===== *)
theory Pb_Decode
  imports Pb_Release
begin

text \<open>
  The message decoder of \<open>pb_decode.c\<close>: field decoders, the decoding of static, pointer
  and callback fields, extensions, and the main loop \<open>pb_decode_noinit\<close> with its checks
  for required and fixed-count fields. As in the encoder, the C functions are one
  definition each and take the recursive \<open>pb_decode_noinit\<close> as an argument; the knot is
  tied with a bound on the nesting depth, which also bounds extension chains and the
  rounds of a callback that consumes nothing. The loops over the input need no such
  bound: \<open>bytes_left\<close> limits them.

  The local variable \<open>fixed_count_size\<close>, whose address the C code stores in the
  iterator, is a block of memory for the duration of the call.
\<close>

type_synonym pb_decode_t = "pb_field_t list \<Rightarrow> addr \<Rightarrow> mem \<Rightarrow> pb_istream_t \<Rightarrow> dres"
type_synonym pb_decoder_t = "mem \<Rightarrow> pb_istream_t \<Rightarrow> pb_field_t \<Rightarrow> addr \<Rightarrow> dres"

section \<open>Field decoders\<close>

definition pb_dec_bool :: pb_decoder_t where
  "pb_dec_bool m s field dest = do {
     (r, s) \<leftarrow> pb_decode_varint32 s;
     case r of
       None \<Rightarrow> Some (False, s, m)
     | Some v \<Rightarrow> do { m \<leftarrow> store_bool m dest (v \<noteq> 0); Some (True, s, m) } }"

text \<open>Store the low bytes of a value in a member of the given size and read them back,
  sign or zero extended; the inner \<open>None\<close> is an unsupported size.\<close>

definition store_signed :: "mem \<Rightarrow> pb_size_t \<Rightarrow> addr \<Rightarrow> u64 \<Rightarrow> (mem \<times> u64) option option" where
  "store_signed m n dest v =
     (if n = 8 then do { m \<leftarrow> store_u64 m dest v; Some (Some (m, v)) }
      else if n = 4 then do { m \<leftarrow> store_u32 m dest (ucast v); Some (Some (m, scast (ucast v :: u32))) }
      else if n = 2 then do { m \<leftarrow> store_u16 m dest (ucast v); Some (Some (m, scast (ucast v :: u16))) }
      else if n = 1 then do { m \<leftarrow> store_u8 m dest (ucast v); Some (Some (m, scast (ucast v :: byte))) }
      else Some None)"

definition store_unsigned :: "mem \<Rightarrow> pb_size_t \<Rightarrow> addr \<Rightarrow> u64 \<Rightarrow> (mem \<times> u64) option option" where
  "store_unsigned m n dest v =
     (if n = 8 then do { m \<leftarrow> store_u64 m dest v; Some (Some (m, v)) }
      else if n = 4 then do { m \<leftarrow> store_u32 m dest (ucast v); Some (Some (m, ucast (ucast v :: u32))) }
      else if n = 2 then do { m \<leftarrow> store_u16 m dest (ucast v); Some (Some (m, ucast (ucast v :: u16))) }
      else if n = 1 then do { m \<leftarrow> store_u8 m dest (ucast v); Some (Some (m, ucast (ucast v :: byte))) }
      else Some None)"

definition clamped_result :: "mem \<Rightarrow> pb_istream_t \<Rightarrow> u64 \<Rightarrow> (mem \<times> u64) option \<Rightarrow> dres" where
  "clamped_result m s v r = (case r of
     None \<Rightarrow> Some (False, is_set_error s ''invalid data_size'', m)
   | Some (m, clamped) \<Rightarrow>
       if clamped \<noteq> v then Some (False, is_set_error s ''integer too large'', m) else Some (True, s, m))"

definition pb_dec_varint :: pb_decoder_t where
  "pb_dec_varint m s field dest = do {
     (r, s) \<leftarrow> pb_decode_varint s;
     case r of
       None \<Rightarrow> Some (False, s, m)
     | Some v \<Rightarrow> do {
         let svalue = (if f_data_size field = 8 then v else scast (ucast v :: u32));
         r \<leftarrow> store_signed m (f_data_size field) dest svalue;
         clamped_result m s svalue r } }"

definition pb_dec_uvarint :: pb_decoder_t where
  "pb_dec_uvarint m s field dest = do {
     (r, s) \<leftarrow> pb_decode_varint s;
     case r of
       None \<Rightarrow> Some (False, s, m)
     | Some v \<Rightarrow> do {
         r \<leftarrow> store_unsigned m (f_data_size field) dest v;
         clamped_result m s v r } }"

definition pb_dec_svarint :: pb_decoder_t where
  "pb_dec_svarint m s field dest = do {
     (r, s) \<leftarrow> pb_decode_svarint s;
     case r of
       None \<Rightarrow> Some (False, s, m)
     | Some v \<Rightarrow> do {
         r \<leftarrow> store_signed m (f_data_size field) dest v;
         clamped_result m s v r } }"

definition pb_dec_fixed32 :: pb_decoder_t where
  "pb_dec_fixed32 m s field dest = do {
     (r, s) \<leftarrow> pb_decode_fixed32 s;
     case r of
       None \<Rightarrow> Some (False, s, m)
     | Some v \<Rightarrow> do { m \<leftarrow> store_u32 m dest v; Some (True, s, m) } }"

definition pb_dec_fixed64 :: pb_decoder_t where
  "pb_dec_fixed64 m s field dest = do {
     (r, s) \<leftarrow> pb_decode_fixed64 s;
     case r of
       None \<Rightarrow> Some (False, s, m)
     | Some v \<Rightarrow> do { m \<leftarrow> store_u64 m dest v; Some (True, s, m) } }"

text \<open>\<open>pb_read(stream, dest, n)\<close> into memory.\<close>

definition read_into :: "mem \<Rightarrow> pb_istream_t \<Rightarrow> addr \<Rightarrow> size_t \<Rightarrow> dres" where
  "read_into m s dest n = do {
     (r, s) \<leftarrow> pb_read s False n;
     case r of
       None \<Rightarrow> Some (False, s, m)
     | Some bs \<Rightarrow> do { m \<leftarrow> store_bytes m dest bs; Some (True, s, m) } }"

definition pb_dec_bytes :: pb_decoder_t where
  "pb_dec_bytes m s field dest = do {
     (r, s) \<leftarrow> pb_decode_varint32 s;
     case r of
       None \<Rightarrow> Some (False, s, m)
     | Some n \<Rightarrow>
         if n > PB_SIZE_MAX then Some (False, is_set_error s ''bytes overflow'', m)
         else let alloc_size = PB_BYTES_ARRAY_T_ALLOCSIZE (ucast n) in
         if ucast n > alloc_size then Some (False, is_set_error s ''size too large'', m)
         else do {
           (ok, bdest, s, m) \<leftarrow>
             (if PB_ATYPE (f_type field) = PB_ATYPE_POINTER then do {
                (ok, s, m) \<leftarrow> allocate_field m s dest alloc_size 1;
                if \<not> ok then Some (False, 0, s, m)
                else do { p \<leftarrow> load_ptr m dest; Some (True, p, s, m) } }
              else if alloc_size > ucast (f_data_size field)
              then Some (False, dest, is_set_error s ''bytes overflow'', m)
              else Some (True, dest, s, m));
           if \<not> ok then Some (False, s, m)
           else do {
             m \<leftarrow> store_u32 m (bdest + int (offsetof pb_bytes_array_s [''size''])) n;
             read_into m s (bdest + int (offsetof pb_bytes_array_s [''bytes''])) (ucast n) } } }"

text \<open>\<open>size + 1\<close> is computed in 32 bits.\<close>

definition pb_dec_string :: pb_decoder_t where
  "pb_dec_string m s field dest = do {
     (r, s) \<leftarrow> pb_decode_varint32 s;
     case r of
       None \<Rightarrow> Some (False, s, m)
     | Some n \<Rightarrow>
         let alloc_size = ucast (n + 1) in
         if alloc_size < ucast n then Some (False, is_set_error s ''size too large'', m)
         else do {
           (ok, dest, s, m) \<leftarrow>
             (if PB_ATYPE (f_type field) = PB_ATYPE_POINTER then do {
                (ok, s, m) \<leftarrow> allocate_field m s dest alloc_size 1;
                if \<not> ok then Some (False, 0, s, m)
                else do { p \<leftarrow> load_ptr m dest; Some (True, p, s, m) } }
              else if alloc_size > ucast (f_data_size field)
              then Some (False, dest, is_set_error s ''string overflow'', m)
              else Some (True, dest, s, m));
           if \<not> ok then Some (False, s, m)
           else do {
             (status, s, m) \<leftarrow> read_into m s dest (ucast n);
             m \<leftarrow> store_u8 m (dest + uint n) 0;
             Some (status, s, m) } } }"

definition pb_dec_fixed_length_bytes :: pb_decoder_t where
  "pb_dec_fixed_length_bytes m s field dest = do {
     (r, s) \<leftarrow> pb_decode_varint32 s;
     case r of
       None \<Rightarrow> Some (False, s, m)
     | Some n \<Rightarrow>
         if n > PB_SIZE_MAX then Some (False, is_set_error s ''bytes overflow'', m)
         else if n = 0 then do {
           m \<leftarrow> memset m dest 0 (unat (f_data_size field)); Some (True, s, m) }
         else if n \<noteq> f_data_size field
         then Some (False, is_set_error s ''incorrect fixed length bytes size'', m)
         else read_into m s dest (ucast (f_data_size field)) }"

section \<open>Messages with defaults, submessages\<close>

text \<open>\<open>pb_decode\<close>, given \<open>pb_decode_noinit\<close>.\<close>

definition decode_with_defaults :: "pb_env \<Rightarrow> nat \<Rightarrow> pb_decode_t \<Rightarrow> pb_decode_t" where
  "decode_with_defaults env k noinit fs dest m s = do {
     m \<leftarrow> pb_message_set_to_defaults (pb_field_set_to_default env k) fs dest m;
     (status, s, m) \<leftarrow> noinit fs dest m s;
     m \<leftarrow> (if \<not> status then pb_release (pb_release_single_field env k) fs dest m else Some m);
     Some (status, s, m) }"

text \<open>Run an operation on the substream of a length-delimited field.\<close>

definition on_substream :: "(mem \<Rightarrow> pb_istream_t \<Rightarrow> dres) \<Rightarrow> mem \<Rightarrow> pb_istream_t \<Rightarrow> dres" where
  "on_substream f m s = do {
     (r, s) \<leftarrow> pb_make_string_substream s;
     case r of
       None \<Rightarrow> Some (False, s, m)
     | Some sub \<Rightarrow> do {
         (status, sub, m) \<leftarrow> f m sub;
         (r, s) \<leftarrow> pb_close_string_substream s sub;
         case r of None \<Rightarrow> Some (False, s, m) | Some _ \<Rightarrow> Some (status, s, m) } }"

definition pb_dec_submessage :: "pb_env \<Rightarrow> nat \<Rightarrow> pb_decode_t \<Rightarrow> pb_decoder_t" where
  "pb_dec_submessage env k noinit m s field dest = do {
     (r, s) \<leftarrow> pb_make_string_substream s;
     case r of
       None \<Rightarrow> Some (False, s, m)
     | Some sub \<Rightarrow>
         if f_ptr field = 0 then Some (False, is_set_error s ''invalid field descriptor'', m)
         else do {
           (status, sub, m) \<leftarrow>
             (if PB_HTYPE (f_type field) = PB_HTYPE_REPEATED
              then decode_with_defaults env k noinit (env_fields env (f_ptr field)) dest m sub
              else noinit (env_fields env (f_ptr field)) dest m sub);
           (r, s) \<leftarrow> pb_close_string_substream s sub;
           case r of None \<Rightarrow> Some (False, s, m) | Some _ \<Rightarrow> Some (status, s, m) } }"

definition PB_DECODERS :: "pb_env \<Rightarrow> nat \<Rightarrow> pb_decode_t \<Rightarrow> pb_decoder_t option list" where
  "PB_DECODERS env k noinit = [
     Some pb_dec_bool, Some pb_dec_varint, Some pb_dec_uvarint, Some pb_dec_svarint,
     Some pb_dec_fixed32, Some pb_dec_fixed64, Some pb_dec_bytes, Some pb_dec_string,
     Some (pb_dec_submessage env k noinit), None, Some pb_dec_fixed_length_bytes]"

definition decoder_func :: "pb_env \<Rightarrow> nat \<Rightarrow> pb_decode_t \<Rightarrow> pb_field_t \<Rightarrow> pb_decoder_t option" where
  "decoder_func env k noinit field = (let lt = unat (PB_LTYPE (f_type field)) in
     if lt < PB_LTYPES_COUNT
     then Some (case PB_DECODERS env k noinit ! lt of None \<Rightarrow> (\<lambda>m s f p. None) | Some dec \<Rightarrow> dec)
     else None)"

section \<open>Static fields\<close>

text \<open>\<open>data_size * (*size)\<close> is a product of two 32-bit values.\<close>

definition item_addr :: "addr \<Rightarrow> pb_field_t \<Rightarrow> pb_size_t \<Rightarrow> addr" where
  "item_addr base field n = base + uint (f_data_size field * n)"

fun packed_static :: "nat \<Rightarrow> pb_decoder_t \<Rightarrow> pb_field_t \<Rightarrow> addr \<Rightarrow> addr \<Rightarrow> mem \<Rightarrow> pb_istream_t \<Rightarrow> dres" where
  "packed_static 0 func field pData pSize m sub = None"
| "packed_static (Suc n) func field pData pSize m sub =
     (if is_bytes_left sub = 0 then Some (True, sub, m)
      else do {
        sz \<leftarrow> load_u32 m pSize;
        if \<not> sz < f_array_size field then Some (True, sub, m)
        else do {
          (ok, sub, m) \<leftarrow> func m sub field (item_addr pData field sz);
          if \<not> ok then Some (False, sub, m)
          else do {
            sz \<leftarrow> load_u32 m pSize;
            m \<leftarrow> store_u32 m pSize (sz + 1);
            packed_static n func field pData pSize m sub } } })"

definition static_repeated :: "pb_decoder_t \<Rightarrow> pb_field_t \<Rightarrow> mem \<Rightarrow> pb_istream_t \<Rightarrow> pb_wire_type_t \<Rightarrow> pb_field_iter_t \<Rightarrow> dres" where
  "static_repeated func field m s wire_type it =
     (if wire_type = PB_WT_STRING \<and> PB_LTYPE (f_type field) \<le> PB_LTYPE_LAST_PACKABLE then do {
        (r, s) \<leftarrow> pb_make_string_substream s;
        case r of
          None \<Rightarrow> Some (False, s, m)
        | Some sub \<Rightarrow> do {
            (status, sub, m) \<leftarrow> packed_static (Suc (unat (is_bytes_left sub))) func field
              (it_pData it) (it_pSize it) m sub;
            if is_bytes_left sub \<noteq> 0 then Some (False, is_set_error s ''array overflow'', m)
            else do {
              (r, s) \<leftarrow> pb_close_string_substream s sub;
              case r of None \<Rightarrow> Some (False, s, m) | Some _ \<Rightarrow> Some (status, s, m) } } }
      else do {
        sz \<leftarrow> load_u32 m (it_pSize it);
        m \<leftarrow> store_u32 m (it_pSize it) (sz + 1);
        if sz \<ge> f_array_size field then Some (False, is_set_error s ''array overflow'', m)
        else func m s field (item_addr (it_pData it) field sz) })"

definition decode_static_field :: "pb_env \<Rightarrow> nat \<Rightarrow> pb_decode_t \<Rightarrow> mem \<Rightarrow> pb_istream_t \<Rightarrow> pb_wire_type_t \<Rightarrow> pb_field_iter_t \<Rightarrow> dres" where
  "decode_static_field env k noinit m s wire_type it = do {
     field \<leftarrow> iter_field it;
     func \<leftarrow> decoder_func env k noinit field;
     let ht = PB_HTYPE (f_type field);
     if ht = PB_HTYPE_REQUIRED then func m s field (it_pData it)
     else if ht = PB_HTYPE_OPTIONAL then do {
       m \<leftarrow> (if it_pSize it \<noteq> it_pData it then store_bool m (it_pSize it) True else Some m);
       func m s field (it_pData it) }
     else if ht = PB_HTYPE_REPEATED then static_repeated func field m s wire_type it
     else if ht = PB_HTYPE_ONEOF then do {
       m \<leftarrow> store_u32 m (it_pSize it) (f_tag field);
       m \<leftarrow> (if PB_LTYPE (f_type field) = PB_LTYPE_SUBMESSAGE then do {
             m \<leftarrow> memset m (it_pData it) 0 (unat (f_data_size field));
             pb_message_set_to_defaults (pb_field_set_to_default env k)
               (env_fields env (f_ptr field)) (it_pData it) m }
           else Some m);
       func m s field (it_pData it) }
     else Some (False, is_set_error s ''invalid field type'', m) }"

section \<open>Pointer fields\<close>

definition initialize_pointer_field :: "pb_env \<Rightarrow> nat \<Rightarrow> pb_field_t \<Rightarrow> addr \<Rightarrow> mem \<Rightarrow> mem option" where
  "initialize_pointer_field env k field pItem m =
     (if PB_LTYPE (f_type field) = PB_LTYPE_STRING \<or> PB_LTYPE (f_type field) = PB_LTYPE_BYTES
      then store_ptr m pItem 0
      else if PB_LTYPE (f_type field) = PB_LTYPE_SUBMESSAGE then do {
        m \<leftarrow> memset m pItem 0 (unat (f_data_size field));
        pb_message_set_to_defaults (pb_field_set_to_default env k) (env_fields env (f_ptr field)) pItem m }
      else Some m)"

text \<open>The loop over a packed array that grows on the heap. The last component of the
  result is the error message that the loop sets on the parent stream.\<close>

fun packed_pointer :: "nat \<Rightarrow> pb_env \<Rightarrow> nat \<Rightarrow> pb_decoder_t \<Rightarrow> pb_field_t \<Rightarrow> addr \<Rightarrow> addr \<Rightarrow> size_t \<Rightarrow> mem \<Rightarrow> pb_istream_t \<Rightarrow>
    (bool \<times> pb_istream_t \<times> mem \<times> string option) option" where
  "packed_pointer 0 env k func field pData pSize allocated m sub = None"
| "packed_pointer (Suc n) env k func field pData pSize allocated m sub =
     (if is_bytes_left sub = 0 then Some (True, sub, m, None)
      else do {
        sz \<leftarrow> load_u32 m pSize;
        if sz = PB_SIZE_MAX then Some (False, sub, m, Some ''too many array entries'')
        else do {
          (ok, allocated, sub, m) \<leftarrow>
            (if ucast sz + 1 > allocated then
               if f_data_size field = 0 then None
               else let remain = (is_bytes_left sub - 1) div ucast (f_data_size field) + 1;
                        allocated = (if remain < ucast PB_SIZE_MAX - allocated
                          then allocated + remain else allocated + 1) in do {
                 (ok, sub, m) \<leftarrow> allocate_field m sub pData (ucast (f_data_size field)) allocated;
                 Some (ok, allocated, sub, m) }
             else Some (True, allocated, sub, m));
          if \<not> ok then Some (False, sub, m, None)
          else do {
            base \<leftarrow> load_ptr m pData;
            sz \<leftarrow> load_u32 m pSize;
            m \<leftarrow> initialize_pointer_field env k field (item_addr base field sz) m;
            (ok, sub, m) \<leftarrow> func m sub field (item_addr base field sz);
            if \<not> ok then Some (False, sub, m, None)
            else do {
              sz \<leftarrow> load_u32 m pSize;
              m \<leftarrow> store_u32 m pSize (sz + 1);
              packed_pointer n env k func field pData pSize allocated m sub } } } })"

definition pointer_repeated :: "pb_env \<Rightarrow> nat \<Rightarrow> pb_decoder_t \<Rightarrow> pb_field_t \<Rightarrow> mem \<Rightarrow> pb_istream_t \<Rightarrow> pb_wire_type_t \<Rightarrow> pb_field_iter_t \<Rightarrow> dres" where
  "pointer_repeated env k func field m s wire_type it =
     (if wire_type = PB_WT_STRING \<and> PB_LTYPE (f_type field) \<le> PB_LTYPE_LAST_PACKABLE then do {
        sz \<leftarrow> load_u32 m (it_pSize it);
        (r, s) \<leftarrow> pb_make_string_substream s;
        case r of
          None \<Rightarrow> Some (False, s, m)
        | Some sub \<Rightarrow> do {
            (status, sub, m, err) \<leftarrow> packed_pointer (Suc (unat (is_bytes_left sub))) env k func field
              (it_pData it) (it_pSize it) (ucast sz) m sub;
            let s = (case err of None \<Rightarrow> s | Some e \<Rightarrow> s\<lparr>is_errmsg := Some e\<rparr>);
            (r, s) \<leftarrow> pb_close_string_substream s sub;
            case r of None \<Rightarrow> Some (False, s, m) | Some _ \<Rightarrow> Some (status, s, m) } }
      else do {
        sz \<leftarrow> load_u32 m (it_pSize it);
        if sz = PB_SIZE_MAX then Some (False, is_set_error s ''too many array entries'', m)
        else do {
          (ok, s, m) \<leftarrow> allocate_field m s (it_pData it) (ucast (f_data_size field)) (ucast (sz + 1));
          if \<not> ok then Some (False, s, m)
          else do {
            base \<leftarrow> load_ptr m (it_pData it);
            sz \<leftarrow> load_u32 m (it_pSize it);
            let pItem = item_addr base field sz;
            m \<leftarrow> store_u32 m (it_pSize it) (sz + 1);
            m \<leftarrow> initialize_pointer_field env k field pItem m;
            func m s field pItem } } })"

definition decode_pointer_field :: "pb_env \<Rightarrow> nat \<Rightarrow> pb_decode_t \<Rightarrow> mem \<Rightarrow> pb_istream_t \<Rightarrow> pb_wire_type_t \<Rightarrow> pb_field_iter_t \<Rightarrow> dres" where
  "decode_pointer_field env k noinit m s wire_type it = do {
     field \<leftarrow> iter_field it;
     func \<leftarrow> decoder_func env k noinit field;
     let ht = PB_HTYPE (f_type field);
     let lt = PB_LTYPE (f_type field);
     if ht = PB_HTYPE_REQUIRED \<or> ht = PB_HTYPE_OPTIONAL \<or> ht = PB_HTYPE_ONEOF then do {
       old \<leftarrow> (if lt = PB_LTYPE_SUBMESSAGE then load_ptr m (it_pData it) else Some 0);
       m \<leftarrow> (if old \<noteq> 0 then pb_release_single_field env k it m else Some m);
       m \<leftarrow> (if ht = PB_HTYPE_ONEOF then store_u32 m (it_pSize it) (f_tag field) else Some m);
       if lt = PB_LTYPE_STRING \<or> lt = PB_LTYPE_BYTES then func m s field (it_pData it)
       else do {
         (ok, s, m) \<leftarrow> allocate_field m s (it_pData it) (ucast (f_data_size field)) 1;
         if \<not> ok then Some (False, s, m)
         else do {
           p \<leftarrow> load_ptr m (it_pData it);
           m \<leftarrow> initialize_pointer_field env k field p m;
           p \<leftarrow> load_ptr m (it_pData it);
           func m s field p } } }
     else if ht = PB_HTYPE_REPEATED then pointer_repeated env k func field m s wire_type it
     else Some (False, is_set_error s ''invalid field type'', m) }"

section \<open>Callback fields\<close>

text \<open>\<open>do { ... } while (substream.bytes_left);\<close> The callback may consume nothing.\<close>

fun callback_loop :: "nat \<Rightarrow> (mem \<Rightarrow> pb_istream_t \<Rightarrow> dres) \<Rightarrow> mem \<Rightarrow> pb_istream_t \<Rightarrow> dres" where
  "callback_loop 0 cb m sub = None"
| "callback_loop (Suc n) cb m sub = do {
     (ok, sub, m) \<leftarrow> cb m sub;
     if \<not> ok then Some (False, sub, m)
     else if is_bytes_left sub \<noteq> 0 then callback_loop n cb m sub
     else Some (True, sub, m) }"

definition decode_callback_field :: "pb_env \<Rightarrow> nat \<Rightarrow> mem \<Rightarrow> pb_istream_t \<Rightarrow> pb_wire_type_t \<Rightarrow> pb_field_iter_t \<Rightarrow> dres" where
  "decode_callback_field env k m s wire_type it = do {
     field \<leftarrow> iter_field it;
     let pCallback = it_pData it;
     decode \<leftarrow> (if pCallback = 0 then Some 0
               else load_ptr m (pCallback + int (offsetof pb_callback_s [''funcs'', ''decode''])));
     if decode = 0 then do {
       (r, s) \<leftarrow> pb_skip_field s wire_type; Some (r \<noteq> None, s, m) }
     else do {
       cb \<leftarrow> env_decode env decode;
       let arg = pCallback + int (offsetof pb_callback_s [''arg'']);
       if wire_type = PB_WT_STRING then do {
         (r, s) \<leftarrow> pb_make_string_substream s;
         case r of
           None \<Rightarrow> Some (False, s, m)
         | Some sub \<Rightarrow> do {
             (ok, sub, m) \<leftarrow> callback_loop (Suc (k + unat (is_bytes_left sub)))
               (\<lambda>m sub. cb m sub field arg) m sub;
             if \<not> ok then Some (False, is_set_error s ''callback failed'', m)
             else do {
               (r, s) \<leftarrow> pb_close_string_substream s sub;
               case r of None \<Rightarrow> Some (False, s, m) | Some _ \<Rightarrow> Some (True, s, m) } } }
       else do {
         (r, s) \<leftarrow> read_raw_value s wire_type 10;
         case r of
           None \<Rightarrow> Some (False, s, m)
         | Some buffer \<Rightarrow> do {
             (ok, _, m) \<leftarrow> cb m (pb_istream_from_buffer buffer (of_nat (length buffer))) field arg;
             Some (ok, s, m) } } } }"

section \<open>Decoding a field\<close>

definition decode_field :: "pb_env \<Rightarrow> nat \<Rightarrow> pb_decode_t \<Rightarrow> mem \<Rightarrow> pb_istream_t \<Rightarrow> pb_wire_type_t \<Rightarrow> pb_field_iter_t \<Rightarrow>
    (bool \<times> pb_istream_t \<times> mem \<times> pb_field_iter_t) option" where
  "decode_field env k noinit m s wire_type it = do {
     field \<leftarrow> iter_field it;
     (ok, s, m, it) \<leftarrow>
       (if PB_HTYPE (f_type field) = PB_HTYPE_ONEOF then pb_release_union_field env k m s it
        else Some (True, s, m, it));
     if \<not> ok then Some (False, s, m, it)
     else do {
       field \<leftarrow> iter_field it;
       (ok, s, m) \<leftarrow>
         (if PB_ATYPE (f_type field) = PB_ATYPE_STATIC then decode_static_field env k noinit m s wire_type it
          else if PB_ATYPE (f_type field) = PB_ATYPE_POINTER then decode_pointer_field env k noinit m s wire_type it
          else if PB_ATYPE (f_type field) = PB_ATYPE_CALLBACK then decode_callback_field env k m s wire_type it
          else Some (False, is_set_error s ''invalid field type'', m));
       Some (ok, s, m, it) } }"

section \<open>Extensions\<close>

definition default_extension_decoder :: "pb_env \<Rightarrow> nat \<Rightarrow> pb_decode_t \<Rightarrow> mem \<Rightarrow> pb_istream_t \<Rightarrow> addr \<Rightarrow> u32 \<Rightarrow> pb_wire_type_t \<Rightarrow> dres" where
  "default_extension_decoder env k noinit m s extension tag wire_type = do {
     type \<leftarrow> load_ptr m (extension + int (offsetof pb_extension_s [''type'']));
     arg \<leftarrow> load_ptr m (type + int (offsetof pb_extension_type_s [''arg'']));
     field \<leftarrow> get_field (env_fields env arg) 0;
     if f_tag field \<noteq> tag then Some (True, s, m)
     else do {
       it \<leftarrow> iter_from_extension env m extension;
       m \<leftarrow> store_bool m (extension + int (offsetof pb_extension_s [''found''])) True;
       (ok, s, m, _) \<leftarrow> decode_field env k noinit m s wire_type it;
       Some (ok, s, m) } }"

fun extension_loop :: "nat \<Rightarrow> pb_env \<Rightarrow> nat \<Rightarrow> pb_decode_t \<Rightarrow> size_t \<Rightarrow> u32 \<Rightarrow> pb_wire_type_t \<Rightarrow> mem \<Rightarrow> pb_istream_t \<Rightarrow> addr \<Rightarrow> dres" where
  "extension_loop 0 env k noinit pos tag wire_type m s extension =
     (if extension \<noteq> 0 \<and> pos = is_bytes_left s then None else Some (True, s, m))"
| "extension_loop (Suc n) env k noinit pos tag wire_type m s extension =
     (if extension \<noteq> 0 \<and> pos = is_bytes_left s then do {
        type \<leftarrow> load_ptr m (extension + int (offsetof pb_extension_s [''type'']));
        decode \<leftarrow> load_ptr m (type + int (offsetof pb_extension_type_s [''decode'']));
        (status, s, m) \<leftarrow>
          (if decode \<noteq> 0 then do { cb \<leftarrow> env_ext_decode env decode; cb m s extension tag wire_type }
           else default_extension_decoder env k noinit m s extension tag wire_type);
        if \<not> status then Some (False, s, m)
        else do {
          next \<leftarrow> load_ptr m (extension + int (offsetof pb_extension_s [''next'']));
          extension_loop n env k noinit pos tag wire_type m s next } }
      else Some (True, s, m))"

definition decode_extension :: "pb_env \<Rightarrow> nat \<Rightarrow> pb_decode_t \<Rightarrow> mem \<Rightarrow> pb_istream_t \<Rightarrow> u32 \<Rightarrow> pb_wire_type_t \<Rightarrow> pb_field_iter_t \<Rightarrow> dres" where
  "decode_extension env k noinit m s tag wire_type it = do {
     extension \<leftarrow> load_ptr m (it_pData it);
     extension_loop k env k noinit (is_bytes_left s) tag wire_type m s extension }"

definition find_extension_field :: "pb_field_iter_t \<Rightarrow> (bool \<times> pb_field_iter_t) option" where
  "find_extension_field it = iter_search (length (it_start it))
     (\<lambda>f. PB_LTYPE (f_type f) = PB_LTYPE_EXTENSION) (it_pos it) it"

section \<open>Decoding a message\<close>

text \<open>The locals of \<open>pb_decode_noinit\<close>; \<open>fixed_count_size\<close> lives in memory at \<open>n_fixed_size\<close>.\<close>

record noinit_state =
  n_fields_seen :: "u32 list"
  n_extension_range_start :: u32
  n_iter :: pb_field_iter_t
  n_fixed_count_field :: "nat option"
  n_fixed_size :: addr

datatype step = Continue | Break | Return_false

text \<open>An unknown tag: an extension, or skipped.\<close>

definition decode_unknown :: "pb_env \<Rightarrow> nat \<Rightarrow> pb_decode_t \<Rightarrow> mem \<Rightarrow> pb_istream_t \<Rightarrow> u32 \<Rightarrow> pb_wire_type_t \<Rightarrow> noinit_state \<Rightarrow>
    (step \<times> pb_istream_t \<times> mem \<times> noinit_state) option" where
  "decode_unknown env k noinit m s tag wire_type st = do {
     (handled, ok, s, m, st) \<leftarrow>
       (if tag \<ge> n_extension_range_start st then do {
          (found, it) \<leftarrow> find_extension_field (n_iter st);
          start \<leftarrow> (if \<not> found then Some (-1) else do { f \<leftarrow> iter_field it; Some (f_tag f) });
          let st = st\<lparr>n_iter := it, n_extension_range_start := start\<rparr>;
          if tag \<ge> start then do {
            let pos = is_bytes_left s;
            (ok, s, m) \<leftarrow> decode_extension env k noinit m s tag wire_type it;
            Some (ok \<and> pos \<noteq> is_bytes_left s, ok, s, m, st) }
          else Some (False, True, s, m, st) }
        else Some (False, True, s, m, st));
     if \<not> ok then Some (Return_false, s, m, st)
     else if handled then Some (Continue, s, m, st)
     else do {
       (r, s) \<leftarrow> pb_skip_field s wire_type;
       Some (if r = None then Return_false else Continue, s, m, st) } }"

text \<open>The bookkeeping for a repeated field of fixed count; false is the return with an
  error.\<close>

definition track_fixed_count :: "pb_field_t \<Rightarrow> mem \<Rightarrow> pb_istream_t \<Rightarrow> noinit_state \<Rightarrow>
    (bool \<times> pb_istream_t \<times> mem \<times> noinit_state) option" where
  "track_fixed_count field m s st = (let it = n_iter st in
     if PB_HTYPE (f_type field) = PB_HTYPE_REPEATED \<and> it_pSize it = it_pData it then do {
       (ok, s, m, st) \<leftarrow>
         (if n_fixed_count_field st \<noteq> Some (it_pos it) then do {
            unfinished \<leftarrow> (case n_fixed_count_field st of
                None \<Rightarrow> Some False
              | Some i \<Rightarrow> do {
                  f \<leftarrow> get_field (it_start it) i;
                  n \<leftarrow> load_u32 m (n_fixed_size st);
                  Some (n \<noteq> f_array_size f) });
            if unfinished then Some (False, is_set_error s ''wrong size for fixed count field'', m, st)
            else do {
              m \<leftarrow> store_u32 m (n_fixed_size st) 0;
              Some (True, s, m, st\<lparr>n_fixed_count_field := Some (it_pos it)\<rparr>) } }
          else Some (True, s, m, st));
       Some (ok, s, m, st\<lparr>n_iter := it\<lparr>it_pSize := n_fixed_size st\<rparr>\<rparr>) }
     else Some (True, s, m, st))"

definition mark_required :: "pb_field_t \<Rightarrow> noinit_state \<Rightarrow> noinit_state" where
  "mark_required field st = (let i = it_required_field_index (n_iter st) in
     if PB_HTYPE (f_type field) = PB_HTYPE_REQUIRED \<and> unat i < PB_MAX_REQUIRED_FIELDS
     then let w = unat (drop_bit 5 i); seen = n_fields_seen st in
       st\<lparr>n_fields_seen := seen[w := seen ! w OR push_bit (unat (i AND 31)) 1]\<rparr>
     else st)"

text \<open>The body of \<open>while (stream->bytes_left)\<close>.\<close>

definition decode_step :: "pb_env \<Rightarrow> nat \<Rightarrow> pb_decode_t \<Rightarrow> mem \<Rightarrow> pb_istream_t \<Rightarrow> noinit_state \<Rightarrow>
    (step \<times> pb_istream_t \<times> mem \<times> noinit_state) option" where
  "decode_step env k noinit m s st = do {
     (r, eof, s) \<leftarrow> pb_decode_tag s;
     case r of
       None \<Rightarrow> Some (if eof then Break else Return_false, s, m, st)
     | Some (wire_type, tag) \<Rightarrow> do {
         (found, it) \<leftarrow> pb_field_iter_find (n_iter st) tag;
         let st = st\<lparr>n_iter := it\<rparr>;
         if \<not> found then decode_unknown env k noinit m s tag wire_type st
         else do {
           field \<leftarrow> iter_field it;
           (ok, s, m, st) \<leftarrow> track_fixed_count field m s st;
           if \<not> ok then Some (Return_false, s, m, st)
           else do {
             let st = mark_required field st;
             (ok, s, m, it) \<leftarrow> decode_field env k noinit m s wire_type (n_iter st);
             Some (if ok then Continue else Return_false, s, m, st\<lparr>n_iter := it\<rparr>) } } } }"

text \<open>Each round consumes at least the tag, so \<open>bytes_left\<close> bounds the rounds.\<close>

fun decode_loop :: "nat \<Rightarrow> pb_env \<Rightarrow> nat \<Rightarrow> pb_decode_t \<Rightarrow> mem \<Rightarrow> pb_istream_t \<Rightarrow> noinit_state \<Rightarrow>
    (bool \<times> pb_istream_t \<times> mem \<times> noinit_state) option" where
  "decode_loop 0 env k noinit m s st = None"
| "decode_loop (Suc n) env k noinit m s st =
     (if is_bytes_left s = 0 then Some (True, s, m, st)
      else do {
        (c, s, m, st) \<leftarrow> decode_step env k noinit m s st;
        case c of
          Continue \<Rightarrow> decode_loop n env k noinit m s st
        | Break \<Rightarrow> Some (True, s, m, st)
        | Return_false \<Rightarrow> Some (False, s, m, st) })"

text \<open>Seeking to the last field: its required-field index and its type.\<close>

fun seek_last :: "nat \<Rightarrow> pb_field_iter_t \<Rightarrow> (u32 \<times> pb_type_t \<times> pb_field_iter_t) option" where
  "seek_last 0 it = None"
| "seek_last (Suc n) it = do {
     f \<leftarrow> iter_field it;
     (more, it') \<leftarrow> pb_field_iter_next it;
     if more then seek_last n it' else Some (it_required_field_index it, f_type f, it') }"

definition required_count :: "pb_field_iter_t \<Rightarrow> nat option" where
  "required_count it = do {
     (n, last_type, it) \<leftarrow> seek_last (length (it_start it)) it;
     f \<leftarrow> iter_field it;
     let n = (if PB_HTYPE last_type = PB_HTYPE_REQUIRED \<and> f_tag f \<noteq> 0 then n + 1 else n);
     Some (min (unat n) PB_MAX_REQUIRED_FIELDS) }"

definition all_required_seen :: "u32 list \<Rightarrow> nat \<Rightarrow> bool" where
  "all_required_seen seen n \<longleftrightarrow>
     list_all (\<lambda>i. seen ! i = -1) [0..<n div 32] \<and>
     (n mod 32 \<noteq> 0 \<longrightarrow> seen ! (n div 32) = drop_bit (32 - n mod 32) (-1))"

text \<open>The checks after the loop.\<close>

definition decode_finish :: "mem \<Rightarrow> pb_istream_t \<Rightarrow> noinit_state \<Rightarrow> dres" where
  "decode_finish m s st = do {
     unfinished \<leftarrow> (case n_fixed_count_field st of
         None \<Rightarrow> Some False
       | Some i \<Rightarrow> do {
           f \<leftarrow> get_field (it_start (n_iter st)) i;
           n \<leftarrow> load_u32 m (n_fixed_size st);
           Some (n \<noteq> f_array_size f) });
     if unfinished then Some (False, is_set_error s ''wrong size for fixed count field'', m)
     else do {
       n \<leftarrow> required_count (n_iter st);
       if n > 0 \<and> \<not> all_required_seen (n_fields_seen st) n
       then Some (False, is_set_error s ''missing required field'', m)
       else Some (True, s, m) } }"

primrec pb_decode_noinit :: "pb_env \<Rightarrow> nat \<Rightarrow> pb_decode_t" where
  "pb_decode_noinit env 0 = (\<lambda>fs dest m s. None)"
| "pb_decode_noinit env (Suc k) = (\<lambda>fs dest m s. do {
     let (fixed, m) = stack_alloc m 4;
     m \<leftarrow> store_u32 m fixed 0;
     (_, iter) \<leftarrow> pb_field_iter_begin fs dest;
     (ok, s, m, st) \<leftarrow> decode_loop (Suc (unat (is_bytes_left s))) env k (pb_decode_noinit env k) m s
       \<lparr>n_fields_seen = [0, 0], n_extension_range_start = 0, n_iter = iter,
        n_fixed_count_field = None, n_fixed_size = fixed\<rparr>;
     (ok, s, m) \<leftarrow> (if ok then decode_finish m s st else Some (False, s, m));
     Some (ok, s, drop_block m fixed) })"

definition pb_decode :: "pb_env \<Rightarrow> nat \<Rightarrow> pb_decode_t" where
  "pb_decode env k fs dest m s = decode_with_defaults env k (pb_decode_noinit env k) fs dest m s"

definition pb_decode_delimited_noinit :: "pb_env \<Rightarrow> nat \<Rightarrow> pb_decode_t" where
  "pb_decode_delimited_noinit env k fs dest m s = on_substream (pb_decode_noinit env k fs dest) m s"

definition pb_decode_delimited :: "pb_env \<Rightarrow> nat \<Rightarrow> pb_decode_t" where
  "pb_decode_delimited env k fs dest m s = on_substream (pb_decode env k fs dest) m s"

definition pb_decode_nullterminated :: "pb_env \<Rightarrow> nat \<Rightarrow> pb_decode_t" where
  "pb_decode_nullterminated env k fs dest m s = pb_decode env k fs dest m s"

end
