(* ===== verification/Ldb_Coding.thy ===== *)
theory Ldb_Coding
  imports Leb128
begin

text \<open>
  The encodings of leveldb, \<open>util/coding.h\<close> and \<open>util/coding.cc\<close>: fixed-width integers,
  varints and length-prefixed strings.

  A \<open>std::string\<close> and the bytes a \<open>Slice\<close> refers to are byte lists. A routine that
  writes at a pointer returns the bytes it writes; one that reads between \<open>p\<close> and
  \<open>limit\<close> takes these bytes and returns the value with the bytes from the returned pointer
  to \<open>limit\<close>, or \<open>None\<close> for the null pointer. A routine without a limit (\<open>DecodeFixed32\<close>)
  is undefined, \<open>None\<close>, when the bytes end too early. The theory relates every routine to
  \<open>leb128\<close> and \<open>le_bytes\<close>, and shows that the readers invert the writers and never leave
  their input.
\<close>

section \<open>Fixed-width integers\<close>

definition kLittleEndian :: bool where "kLittleEndian \<longleftrightarrow> True"

definition EncodeFixed32 :: "u32 \<Rightarrow> byte list" where
  "EncodeFixed32 v = (if kLittleEndian then le_bytes 4 v
     else [ucast (v AND 0xFF), ucast (drop_bit 8 v AND 0xFF), ucast (drop_bit 16 v AND 0xFF),
           ucast (drop_bit 24 v AND 0xFF)])"

definition EncodeFixed64 :: "u64 \<Rightarrow> byte list" where
  "EncodeFixed64 v = (if kLittleEndian then le_bytes 8 v
     else [ucast (v AND 0xFF), ucast (drop_bit 8 v AND 0xFF), ucast (drop_bit 16 v AND 0xFF),
           ucast (drop_bit 24 v AND 0xFF), ucast (drop_bit 32 v AND 0xFF), ucast (drop_bit 40 v AND 0xFF),
           ucast (drop_bit 48 v AND 0xFF), ucast (drop_bit 56 v AND 0xFF)])"

definition PutFixed32 :: "byte list \<Rightarrow> u32 \<Rightarrow> byte list" where
  "PutFixed32 dst v = dst @ EncodeFixed32 v"

definition PutFixed64 :: "byte list \<Rightarrow> u64 \<Rightarrow> byte list" where
  "PutFixed64 dst v = dst @ EncodeFixed64 v"

definition DecodeFixed32 :: "byte list \<Rightarrow> u32 option" where
  "DecodeFixed32 p = (if length p < 4 then None
     else if kLittleEndian then Some (le_word (take 4 p))
     else Some (ucast (p ! 0) OR push_bit 8 (ucast (p ! 1)) OR push_bit 16 (ucast (p ! 2)) OR
                push_bit 24 (ucast (p ! 3))))"

definition DecodeFixed64 :: "byte list \<Rightarrow> u64 option" where
  "DecodeFixed64 p = (if length p < 8 then None
     else if kLittleEndian then Some (le_word (take 8 p))
     else do {
       lo \<leftarrow> DecodeFixed32 p;
       hi \<leftarrow> DecodeFixed32 (drop 4 p);
       Some (push_bit 32 (ucast hi) OR ucast lo) })"

section \<open>Writing varints\<close>

definition EncodeVarint32 :: "u32 \<Rightarrow> byte list" where
  "EncodeVarint32 v = (let B = 128 in
     if v < push_bit 7 1 then [ucast v]
     else if v < push_bit 14 1 then [ucast (v OR B), ucast (drop_bit 7 v)]
     else if v < push_bit 21 1 then [ucast (v OR B), ucast (drop_bit 7 v OR B), ucast (drop_bit 14 v)]
     else if v < push_bit 28 1 then
       [ucast (v OR B), ucast (drop_bit 7 v OR B), ucast (drop_bit 14 v OR B), ucast (drop_bit 21 v)]
     else [ucast (v OR B), ucast (drop_bit 7 v OR B), ucast (drop_bit 14 v OR B),
           ucast (drop_bit 21 v OR B), ucast (drop_bit 28 v)])"

definition PutVarint32 :: "byte list \<Rightarrow> u32 \<Rightarrow> byte list" where
  "PutVarint32 dst v = dst @ EncodeVarint32 v"

function EncodeVarint64 :: "u64 \<Rightarrow> byte list" where
  "EncodeVarint64 v = (if 128 \<le> v then ucast (v OR 128) # EncodeVarint64 (drop_bit 7 v) else [ucast v])"
  by pat_completeness auto
termination
proof (relation "measure unat", goal_cases)
  case (2 v)
  then show ?case by (simp add: drop_bit_7_unat word_le_nat_alt)
qed simp

function VarintLength :: "u64 \<Rightarrow> nat" where
  "VarintLength v = (if 128 \<le> v then Suc (VarintLength (drop_bit 7 v)) else 1)"
  by pat_completeness auto
termination
proof (relation "measure unat", goal_cases)
  case (2 v)
  then show ?case by (simp add: drop_bit_7_unat word_le_nat_alt)
qed simp

declare EncodeVarint64.simps [simp del] VarintLength.simps [simp del]

definition PutVarint64 :: "byte list \<Rightarrow> u64 \<Rightarrow> byte list" where
  "PutVarint64 dst v = dst @ EncodeVarint64 v"

text \<open>The size is passed as a \<open>uint32_t\<close>.\<close>

definition PutLengthPrefixedSlice :: "byte list \<Rightarrow> byte list \<Rightarrow> byte list" where
  "PutLengthPrefixedSlice dst v = PutVarint32 dst (of_nat (length v)) @ v"

section \<open>Reading varints\<close>

text \<open>The loop of \<open>GetVarint32PtrFallback\<close> (shifts up to 28) and that of \<open>GetVarint64Ptr\<close>
  (shifts up to 63), which differ in the width of \<open>result\<close>.\<close>

fun varint_from :: "nat \<Rightarrow> nat \<Rightarrow> 'a::len word \<Rightarrow> byte list \<Rightarrow> ('a word \<times> byte list) option" where
  "varint_from lim shift result [] = None"
| "varint_from lim shift result (b # p) = (if shift \<le> lim then
     (let byte = ucast b in
      if byte AND 128 \<noteq> 0
      then varint_from lim (shift + 7) (result OR push_bit shift (byte AND 127)) p
      else Some (result OR push_bit shift byte, p))
     else None)"

definition GetVarint32PtrFallback :: "byte list \<Rightarrow> (u32 \<times> byte list) option" where
  "GetVarint32PtrFallback p = varint_from 28 0 0 p"

definition GetVarint32Ptr :: "byte list \<Rightarrow> (u32 \<times> byte list) option" where
  "GetVarint32Ptr p = (case p of
     b # q \<Rightarrow> (let result = ucast b in
        if result AND 128 = 0 then Some (result, q) else GetVarint32PtrFallback p)
   | [] \<Rightarrow> GetVarint32PtrFallback p)"

text \<open>On failure the slice is left alone.\<close>

definition GetVarint32 :: "byte list \<Rightarrow> u32 option \<times> byte list" where
  "GetVarint32 input = (case GetVarint32Ptr input of
     None \<Rightarrow> (None, input) | Some (v, q) \<Rightarrow> (Some v, q))"

definition GetVarint64Ptr :: "byte list \<Rightarrow> (u64 \<times> byte list) option" where
  "GetVarint64Ptr p = varint_from 63 0 0 p"

definition GetVarint64 :: "byte list \<Rightarrow> u64 option \<times> byte list" where
  "GetVarint64 input = (case GetVarint64Ptr input of
     None \<Rightarrow> (None, input) | Some (v, q) \<Rightarrow> (Some v, q))"

definition GetLengthPrefixedSlicePtr :: "byte list \<Rightarrow> (byte list \<times> byte list) option" where
  "GetLengthPrefixedSlicePtr p = (case GetVarint32Ptr p of
     None \<Rightarrow> None
   | Some (len, p) \<Rightarrow> if length p < unat len then None else Some (take (unat len) p, drop (unat len) p))"

text \<open>A failure after the length has been read leaves the slice behind the length.\<close>

definition GetLengthPrefixedSlice :: "byte list \<Rightarrow> byte list option \<times> byte list" where
  "GetLengthPrefixedSlice input = (case GetVarint32 input of
     (None, input) \<Rightarrow> (None, input)
   | (Some len, input) \<Rightarrow> if unat len \<le> length input
       then (Some (take (unat len) input), drop (unat len) input) else (None, input))"

section \<open>Fixed-width integers round trip\<close>

lemma EncodeFixed_length [simp]: "length (EncodeFixed32 v) = 4" "length (EncodeFixed64 w) = 8"
  by (simp_all add: EncodeFixed32_def EncodeFixed64_def)

lemma DecodeFixed32_Encode [simp]: "DecodeFixed32 (EncodeFixed32 v @ p) = Some v"
  by (simp add: DecodeFixed32_def EncodeFixed32_def kLittleEndian_def)

lemma DecodeFixed64_Encode [simp]: "DecodeFixed64 (EncodeFixed64 v @ p) = Some v"
  by (simp add: DecodeFixed64_def EncodeFixed64_def kLittleEndian_def)

lemma DecodeFixed32_total: "4 \<le> length p \<Longrightarrow> \<exists>w. DecodeFixed32 p = Some w"
  by (simp add: DecodeFixed32_def)

section \<open>Writers against the reference\<close>

lemma not_ge_128: "\<not> 128 \<le> v \<longleftrightarrow> drop_bit 7 (v :: u64) = 0"
  unfolding drop_bit_7_eq_0 by (auto simp: word_le_nat_alt)

lemma small_and: "drop_bit 7 (v :: 'a::len word) = 0 \<Longrightarrow> v AND 0x7F = v"
  unfolding and_0x7F using bits_ident [of 7 v] by simp

lemma bit_128: "bit (128 :: int) n \<longleftrightarrow> n = 7"
  using bit_exp_iff [of 7 n, where 'a = int] by auto

lemma ucast_u64_u32: "(ucast (ucast (v :: u32) :: u64) :: u32) = v"
  by (rule bit_word_eqI) (auto simp: bit_simps)

lemma ucast_or_128: "(ucast ((v :: 'a::len word) OR 128) :: byte) = ucast (v AND 0x7F) OR 0x80"
  if "7 < LENGTH('a)"
proof (rule bit_word_eqI)
  fix n assume "n < LENGTH(8)"
  then show "bit (ucast (v OR 128) :: byte) n = bit (ucast (v AND 0x7F) OR 0x80 :: byte) n"
    unfolding and_0x7F using that by (auto simp: bit_simps bit_128)
qed

lemma leb128_step:
  "leb128 v = (if 128 \<le> v then ucast (v OR 128) # leb128 (drop_bit 7 v) else [ucast v])"
proof (cases "128 \<le> v")
  case True
  then show ?thesis
    using not_ge_128 [of v] leb128.simps [of v] by (simp add: ucast_or_128)
next
  case False
  then show ?thesis
    using not_ge_128 [of v] leb128.simps [of v] small_and [of v] by simp
qed

lemma EncodeVarint64_leb128: "EncodeVarint64 v = leb128 v"
proof (induction v rule: EncodeVarint64.induct)
  case (1 v)
  then show ?case
    using EncodeVarint64.simps [of v] leb128_step [of v] by simp
qed

lemma VarintLength_leb128: "VarintLength v = length (leb128 v)"
proof (induction v rule: VarintLength.induct)
  case (1 v)
  then show ?case
    using VarintLength.simps [of v] leb128_step [of v] by simp
qed

text \<open>The unrolled 32-bit writer: each of its tests is the loop condition once more.\<close>

lemma drop_bit_ucast: "drop_bit n (ucast (v :: u32) :: u64) = ucast (drop_bit n v)"
  by (rule bit_word_eqI) (auto simp: bit_simps dest: bit_imp_le_length)

lemma leb128_step32: "leb128 (ucast (v :: u32)) =
    (if 128 \<le> v then ucast (v OR 128) # leb128 (ucast (drop_bit 7 v)) else [ucast v])"
proof -
  have "128 \<le> (ucast v :: u64) \<longleftrightarrow> 128 \<le> v"
    by (simp add: word_le_nat_alt)
  moreover have "(ucast (ucast v OR 128 :: u64) :: byte) = ucast (v OR 128)"
    by (simp add: ucast_or_128) (rule bit_word_eqI, auto simp: and_0x7F bit_simps bit_0x80)
  moreover have "(ucast (ucast v :: u64) :: byte) = ucast v"
    by (rule bit_word_eqI) (auto simp: bit_simps)
  ultimately show ?thesis
    by (subst leb128_step) (simp add: drop_bit_ucast)
qed

lemma unat_exp: "n < LENGTH('a) \<Longrightarrow> unat (2 ^ n :: 'a::len word) = 2 ^ n"
  using unat_of_nat_small [of "2 ^ n", where 'a = 'a] by simp

lemma shifted_ge: "128 \<le> drop_bit n (v :: u32) \<longleftrightarrow> \<not> v < push_bit (n + 7) 1" if "n + 7 < 32"
proof -
  have "128 \<le> unat v div 2 ^ n \<longleftrightarrow> 2 ^ (n + 7) \<le> unat v"
    by (simp add: less_eq_div_iff_mult_less_eq power_add mult.commute)
  then show ?thesis
    using that unat_exp [of "n + 7", where 'a = 32] unat_exp [of n, where 'a = 32]
    by (simp add: word_le_nat_alt word_less_nat_alt drop_bit_eq_div unat_div push_bit_eq_mult not_less)
qed

lemma EncodeVarint32_leb128: "EncodeVarint32 v = leb128 (ucast v)"
proof -
  have "\<not> 128 \<le> drop_bit 28 v"
    using unat_lt [of v] by (simp add: word_le_nat_alt drop_bit_eq_div unat_div)
  then show ?thesis
    using shifted_ge [of 0 v] shifted_ge [of 7 v] shifted_ge [of 14 v] shifted_ge [of 21 v]
    by (simp add: EncodeVarint32_def Let_def leb128_step32)
qed

lemma length_EncodeVarint32: "length (EncodeVarint32 v) \<le> 5"
  using length_leb128 [of "ucast v" 5] unat_lt [of v] by (simp add: EncodeVarint32_leb128)

section \<open>Readers invert writers\<close>

lemma byte_and_128: "(ucast (b :: byte) AND 128 :: 'a::len word) = 0 \<longleftrightarrow> \<not> bit b 7" if "7 < LENGTH('a)"
  using that and_exp_eq_0_iff_not_bit [of "ucast b :: 'a word" 7] by (simp add: bit_simps)

lemma leb_digit:
  fixes v :: u64
  assumes "7 < LENGTH('a)"
  shows "(ucast (ucast (v AND 0x7F) OR 0x80 :: byte) AND 127 :: 'a::len word) = ucast v AND 0x7F"
    and "(ucast (ucast (v AND 0x7F) :: byte) :: 'a word) = ucast v AND 0x7F"
  unfolding and_0x7F using assms by (rule_tac [!] bit_word_eqI) (auto simp: bit_simps bit_128)

lemma drop_bit_ucast_u64:
  "unat (v :: u64) < 2 ^ LENGTH('a) \<Longrightarrow> drop_bit 7 (ucast v :: 'a::len word) = ucast (drop_bit 7 v)"
  using bit_small [of v "LENGTH('a)"]
  by (intro bit_word_eqI) (auto simp: bit_simps dest: bit_imp_le_length)

lemma varint_from_leb128:
  fixes result :: "'a::len word"
  assumes width: "7 < LENGTH('a)" "LENGTH('a) \<le> 64"
    and lim: "\<And>s. 7 dvd s \<Longrightarrow> s < LENGTH('a) \<Longrightarrow> s \<le> lim"
    and "unat v < 2 ^ (LENGTH('a) - shift)" and "7 dvd shift" and "shift < LENGTH('a)"
  shows "varint_from lim shift result (leb128 v @ p) = Some (result OR push_bit shift (ucast v), p)"
  using assms(4-6)
proof (induction v arbitrary: shift result rule: leb128.induct)
  case (1 v)
  have sh: "shift \<le> lim" using lim 1(3,4) .
  have v: "unat v < 2 ^ LENGTH('a)"
    by (rule less_le_trans [OF 1(2)]) simp
  show ?case
  proof (cases "drop_bit 7 v = 0")
    case True
    then have "(ucast v AND 0x7F :: 'a word) = ucast v"
      using v drop_bit_ucast_u64 [OF v] by (intro small_and) simp
    with leb_digit(2) [OF width(1), of v] have v: "(ucast (ucast (v AND 0x7F) :: byte) :: 'a word) = ucast v" by simp
    have "\<not> bit (ucast (v AND 0x7F) :: byte) 7" by (simp add: and_0x7F bit_simps)
    then have "(ucast v AND 128 :: 'a word) = 0"
      using byte_and_128 [where 'a = 'a, of "ucast (v AND 0x7F)"] width by (simp add: v)
    then show ?thesis
      using True sh v by (simp add: leb128.simps [of v] Let_def)
  next
    case False
    have "2 ^ 7 \<le> unat v" using False not_ge_128 [of v] by (simp add: word_le_nat_alt)
    with 1(2) have "(2 :: nat) ^ 7 < 2 ^ (LENGTH('a) - shift)" by linarith
    then have sh7: "shift + 7 < LENGTH('a)" using power_less_imp_less_exp [of "2::nat" 7 "LENGTH('a) - shift"] by simp
    define k where "k = LENGTH('a) - (shift + 7)"
    have "LENGTH('a) - shift = k + 7" using sh7 by (simp add: k_def)
    with 1(2) have "unat v < 2 ^ k * 128" by (simp add: power_add)
    then have "unat (drop_bit 7 v) < 2 ^ (LENGTH('a) - (shift + 7))"
      by (simp add: drop_bit_7_unat div_less_iff_less_mult k_def)
    note IH = 1(1) [OF False this _ sh7]
    have "bit (ucast (v AND 0x7F) OR 0x80 :: byte) 7" by (simp add: bit_simps bit_0x80)
    then show ?thesis
      using IH 1(3) sh False push_bit_join [of shift "ucast v :: 'a word"] drop_bit_ucast_u64 [OF v] width
      by (simp add: leb128.simps [of v] byte_and_128 leb_digit Let_def or.assoc)
  qed
qed

lemma GetVarint64Ptr_leb128 [simp]: "GetVarint64Ptr (leb128 v @ p) = Some (v, p)"
  using varint_from_leb128 [where 'a = 64, of 63 v 0 0 p] unat_lt [of v] by (simp add: GetVarint64Ptr_def)

lemma GetVarint32PtrFallback_leb128: "GetVarint32PtrFallback (leb128 (ucast (v :: u32)) @ p) = Some (v, p)"
proof -
  have "s \<le> 28" if "7 dvd s" "s < LENGTH(32)" for s :: nat
    using that by (auto simp: dvd_def)
  then show ?thesis
    using varint_from_leb128 [where 'a = 32, of 28 "ucast v" 0 0 p] unat_lt [of v]
    by (simp add: GetVarint32PtrFallback_def ucast_u64_u32)
qed

text \<open>The fast path for one byte does not change the result.\<close>

lemma GetVarint32Ptr_eq: "GetVarint32Ptr p = GetVarint32PtrFallback p"
  by (cases p) (auto simp: GetVarint32Ptr_def GetVarint32PtrFallback_def Let_def)

lemma GetVarint32Ptr_leb128 [simp]: "GetVarint32Ptr (leb128 (ucast v) @ p) = Some (v, p)"
  by (simp add: GetVarint32Ptr_eq GetVarint32PtrFallback_leb128)

lemma GetVarint_leb128 [simp]:
  "GetVarint32 (leb128 (ucast v) @ p) = (Some v, p)" "GetVarint64 (leb128 w @ p) = (Some w, p)"
  by (simp_all add: GetVarint32_def GetVarint64_def)

lemma leb128_length_u32: "unat (of_nat n :: u32) = n" if "n < 2 ^ 32"
  using that by (simp add: unat_of_nat_small)

lemma GetLengthPrefixedSlice_Put [simp]:
  "length v < 2 ^ 32 \<Longrightarrow> GetLengthPrefixedSlice (leb128 (ucast (of_nat (length v) :: u32)) @ v @ p) = (Some v, p)"
  by (simp add: GetLengthPrefixedSlice_def leb128_length_u32)

lemma GetLengthPrefixedSlicePtr_Put [simp]:
  "length v < 2 ^ 32 \<Longrightarrow> GetLengthPrefixedSlicePtr (leb128 (ucast (of_nat (length v) :: u32)) @ v @ p) = Some (v, p)"
  by (simp add: GetLengthPrefixedSlicePtr_def leb128_length_u32)

section \<open>Readers stay inside their input\<close>

lemma varint_from_suffix:
  "varint_from lim shift result p = Some (v, q) \<Longrightarrow> \<exists>w. w \<noteq> [] \<and> p = w @ q \<and> 7 * length w + shift \<le> lim + 7"
proof (induction p arbitrary: shift result)
  case (Cons b p)
  show ?case
  proof (cases "(ucast b AND 128 :: 'a word) \<noteq> 0")
    case True
    with Cons.prems have "varint_from lim (shift + 7) (result OR push_bit shift (ucast b AND 127)) p = Some (v, q)"
      by (auto simp: Let_def split: if_splits)
    from Cons.IH [OF this] obtain w where "p = w @ q" "7 * length w + (shift + 7) \<le> lim + 7" by blast
    then show ?thesis by (intro exI [of _ "b # w"]) simp
  qed (use Cons.prems in \<open>auto simp: Let_def intro!: exI [of _ "[b]"] split: if_splits\<close>)
qed simp

lemma GetVarint32_suffix:
  "GetVarint32 p = (Some v, q) \<Longrightarrow> \<exists>w. w \<noteq> [] \<and> p = w @ q \<and> length w \<le> 5"
  using varint_from_suffix [of 28 0 0 p v q]
  by (fastforce simp: GetVarint32_def GetVarint32Ptr_eq GetVarint32PtrFallback_def split: option.splits)

lemma GetVarint64_suffix:
  "GetVarint64 p = (Some v, q) \<Longrightarrow> \<exists>w. w \<noteq> [] \<and> p = w @ q \<and> length w \<le> 10"
  using varint_from_suffix [of 63 0 0 p v q]
  by (fastforce simp: GetVarint64_def GetVarint64Ptr_def split: option.splits)

lemma GetVarint_fail: "GetVarint32 p = (None, q) \<Longrightarrow> q = p" "GetVarint64 p = (None, q) \<Longrightarrow> q = p"
  by (auto simp: GetVarint32_def GetVarint64_def split: option.splits)

lemma GetLengthPrefixedSlice_suffix:
  "GetLengthPrefixedSlice p = (Some v, q) \<Longrightarrow> \<exists>w. w \<noteq> [] \<and> p = w @ v @ q"
proof -
  assume "GetLengthPrefixedSlice p = (Some v, q)"
  then obtain len r where r: "GetVarint32 p = (Some len, r)" "unat len \<le> length r"
    "v = take (unat len) r" "q = drop (unat len) r"
    by (auto simp: GetLengthPrefixedSlice_def split: prod.splits option.splits if_splits)
  from GetVarint32_suffix [OF r(1)] r show ?thesis by auto
qed

section \<open>Properties\<close>

text \<open>Varints of leveldb round trip: reading what \<open>PutVarint32\<close> or \<open>PutVarint64\<close> appended
  gives the value back and leaves the slice exactly behind it, whatever follows.\<close>

theorem ldb_varint_roundtrip:
  "GetVarint32 (PutVarint32 [] v @ p) = (Some v, p) \<and> GetVarint64 (PutVarint64 [] w @ q) = (Some w, q)"
  by (simp add: PutVarint32_def PutVarint64_def EncodeVarint32_leb128 EncodeVarint64_leb128)

text \<open>Length-prefixed strings round trip as long as the length fits the 32 bits of the
  prefix.\<close>

theorem ldb_slice_roundtrip:
  assumes "length v < 2 ^ 32"
  shows "GetLengthPrefixedSlice (PutLengthPrefixedSlice [] v @ p) = (Some v, p)"
  using assms by (simp add: PutLengthPrefixedSlice_def PutVarint32_def EncodeVarint32_leb128)

theorem ldb_slice_roundtrip_witness:
  "GetLengthPrefixedSlice (PutLengthPrefixedSlice [] [1, 2, 3] @ [9]) = (Some [1, 2, 3], [9])"
  by (rule ldb_slice_roundtrip) simp

end
