(* ===== verification/Ldb_Bloom.thy ===== *)
theory Ldb_Bloom
  imports Ldb_Coding
begin

text \<open>
  Filter policies of leveldb: the interface of \<open>include/leveldb/filter_policy.h\<close>, the hash
  function of \<open>util/hash.cc\<close> and the Bloom filter of \<open>util/bloom.cc\<close>.

  A policy is its two operations and its name. The locale \<open>filter_policy\<close> is the contract
  the header states: a filter is appended to the destination, and it matches every key it
  was made from. It is interpreted on the Bloom filter. The number of probes is computed
  in floating point in the source (\<open>bits_per_key * 0.69\<close>); the model takes the truncated
  product as an argument, so the results hold whatever it is.
\<close>

section \<open>The interface\<close>

record FilterPolicy =
  fp_CreateFilter :: "byte list list \<Rightarrow> byte list \<Rightarrow> byte list option"
  fp_KeyMayMatch :: "byte list \<Rightarrow> byte list \<Rightarrow> bool option"
  fp_Name :: string

locale filter_policy =
  fixes P :: FilterPolicy and fits :: "byte list list \<Rightarrow> bool"
  assumes create_appends: "fits keys \<Longrightarrow> \<exists>f. \<forall>dst. fp_CreateFilter P keys dst = Some (dst @ f)"
    and create_matches: "fits keys \<Longrightarrow> fp_CreateFilter P keys [] = Some f \<Longrightarrow> key \<in> set keys \<Longrightarrow>
      fp_KeyMayMatch P key f = Some True"
    and fits_part: "fits (before @ keys @ after) \<Longrightarrow> fits keys"
begin

lemma create_obtain:
  assumes "fits keys"
  obtains f where "\<And>dst. fp_CreateFilter P keys dst = Some (dst @ f)"
    "\<And>key. key \<in> set keys \<Longrightarrow> fp_KeyMayMatch P key f = Some True"
proof -
  obtain f where f: "\<And>dst. fp_CreateFilter P keys dst = Some (dst @ f)"
    using create_appends [OF assms] by blast
  moreover from f [of "[]"] have "fp_CreateFilter P keys [] = Some f" by simp
  ultimately show thesis using that create_matches [OF assms] by blast
qed

end

section \<open>Hash\<close>

definition hash_m :: u32 where "hash_m = 0xC6A4A793"

definition hash_mix :: "nat \<Rightarrow> u32 \<Rightarrow> u32" where
  "hash_mix r h = (let h = h * hash_m in h XOR drop_bit r h)"

text \<open>Four bytes at a time.\<close>

fun hash_words :: "byte list \<Rightarrow> u32 \<Rightarrow> byte list \<times> u32" where
  "hash_words (a # b # c # d # data) h = hash_words data (hash_mix 16 (h + le_word [a, b, c, d]))"
| "hash_words data h = (data, h)"

text \<open>The remaining bytes; the cases of the switch fall through.\<close>

fun hash_tail :: "byte list \<Rightarrow> u32 \<Rightarrow> u32" where
  "hash_tail [a, b, c] h = hash_mix 24 (h + push_bit 16 (ucast c) + push_bit 8 (ucast b) + ucast a)"
| "hash_tail [a, b] h = hash_mix 24 (h + push_bit 8 (ucast b) + ucast a)"
| "hash_tail [a] h = hash_mix 24 (h + ucast a)"
| "hash_tail data h = h"

definition Hash :: "byte list \<Rightarrow> u32 \<Rightarrow> u32" where
  "Hash data seed = (case hash_words data (ucast ((ucast seed :: u64) XOR of_nat (length data) * ucast hash_m)) of
     (data, h) \<Rightarrow> hash_tail data h)"

section \<open>The Bloom filter\<close>

definition BloomHash :: "byte list \<Rightarrow> u32" where
  "BloomHash key = Hash key 0xBC9F1D34"

record BloomFilterPolicy =
  bf_bits_per_key :: size_t
  bf_k :: size_t

definition NewBloomFilterPolicy :: "size_t \<Rightarrow> size_t \<Rightarrow> BloomFilterPolicy" where
  "NewBloomFilterPolicy bits_per_key product = \<lparr>bf_bits_per_key = bits_per_key,
     bf_k = (let k = product in let k = (if k < 1 then 1 else k) in if 30 < k then 30 else k)\<rparr>"

definition rotate17 :: "u32 \<Rightarrow> u32" where
  "rotate17 h = drop_bit 17 h OR push_bit 15 h"

text \<open>\<open>bitpos\<close> for a filter of \<open>bits\<close> bits; the remainder of zero is undefined.\<close>

definition bloom_pos :: "u32 \<Rightarrow> size_t \<Rightarrow> u32 option" where
  "bloom_pos h bits = (if bits = 0 then None else Some (ucast (ucast h mod bits)))"

definition set_bit_at :: "byte list \<Rightarrow> u32 \<Rightarrow> byte list option" where
  "set_bit_at array bitpos = (let i = unat (bitpos div 8) in
     if i < length array then Some (array[i := array ! i OR push_bit (unat (bitpos mod 8)) 1]) else None)"

definition test_bit_at :: "byte list \<Rightarrow> u32 \<Rightarrow> bool option" where
  "test_bit_at array bitpos = (let i = unat (bitpos div 8) in
     if i < length array then Some (array ! i AND push_bit (unat (bitpos mod 8)) 1 \<noteq> 0) else None)"

primrec set_probes :: "nat \<Rightarrow> size_t \<Rightarrow> u32 \<Rightarrow> u32 \<Rightarrow> byte list \<Rightarrow> byte list option" where
  "set_probes 0 bits delta h array = Some array"
| "set_probes (Suc j) bits delta h array = do {
     bitpos \<leftarrow> bloom_pos h bits;
     array \<leftarrow> set_bit_at array bitpos;
     set_probes j bits delta (h + delta) array }"

primrec set_keys :: "nat \<Rightarrow> size_t \<Rightarrow> byte list list \<Rightarrow> byte list \<Rightarrow> byte list option" where
  "set_keys k bits [] array = Some array"
| "set_keys k bits (key # keys) array = do {
     let h = BloomHash key;
     array \<leftarrow> set_probes k bits (rotate17 h) h array;
     set_keys k bits keys array }"

definition bloom_CreateFilter :: "BloomFilterPolicy \<Rightarrow> byte list list \<Rightarrow> byte list \<Rightarrow> byte list option" where
  "bloom_CreateFilter p keys dst = do {
     let bits = of_nat (length keys) * bf_bits_per_key p;
     let bits = (if bits < 64 then 64 else bits);
     let bytes = (bits + 7) div 8;
     let bits = bytes * 8;
     let array = replicate (unat bytes) 0 @ [ucast (bf_k p)];
     array \<leftarrow> set_keys (unat (bf_k p)) bits keys array;
     Some (dst @ array) }"

primrec test_probes :: "nat \<Rightarrow> size_t \<Rightarrow> u32 \<Rightarrow> u32 \<Rightarrow> byte list \<Rightarrow> bool option" where
  "test_probes 0 bits delta h array = Some True"
| "test_probes (Suc j) bits delta h array = do {
     bitpos \<leftarrow> bloom_pos h bits;
     b \<leftarrow> test_bit_at array bitpos;
     if \<not> b then Some False else test_probes j bits delta (h + delta) array }"

text \<open>\<open>k\<close> is read as a \<open>char\<close>, which is signed, and widened.\<close>

definition bloom_KeyMayMatch :: "byte list \<Rightarrow> byte list \<Rightarrow> bool option" where
  "bloom_KeyMayMatch key bloom_filter = (let len = length bloom_filter in
     if len < 2 then Some False
     else let bits = of_nat ((len - 1) * 8);
              k = (scast (bloom_filter ! (len - 1)) :: size_t) in
       if 30 < k then Some True
       else let h = BloomHash key in test_probes (unat k) bits (rotate17 h) h bloom_filter)"

definition BloomPolicy :: "BloomFilterPolicy \<Rightarrow> FilterPolicy" where
  "BloomPolicy p = \<lparr>fp_CreateFilter = bloom_CreateFilter p, fp_KeyMayMatch = bloom_KeyMayMatch,
     fp_Name = ''leveldb.BuiltinBloomFilter2''\<rparr>"

section \<open>Bits of a filter\<close>

text \<open>\<open>grown\<close>: nothing has been cleared and the last byte is kept.\<close>

definition grown :: "byte list \<Rightarrow> byte list \<Rightarrow> bool" where
  "grown a b \<longleftrightarrow> length b = length a \<and> last b = last a \<and>
     (\<forall>pos. test_bit_at a pos = Some True \<longrightarrow> test_bit_at b pos = Some True)"

lemma grown_refl [simp]: "grown a a"
  by (simp add: grown_def)

lemma grown_trans: "grown a b \<Longrightarrow> grown b c \<Longrightarrow> grown a c"
  by (simp add: grown_def)

lemma bloom_pos_range:
  assumes "bloom_pos h bits = Some pos" and "bits = bytes * 8" and "unat bytes * 8 < 2 ^ 64"
  shows "unat (pos div 8) < unat bytes"
proof -
  have bits: "unat bits = unat bytes * 8" "bits \<noteq> 0"
    using assms by (auto simp: unat_word_ariths bloom_pos_def split: if_splits)
  have "(ucast h mod bits :: size_t) < bits" using bits(2) by (simp add: word_mod_less_divisor word_neq_0_conv)
  then have "unat (ucast h mod bits :: size_t) < unat bytes * 8" by (simp add: word_less_nat_alt bits)
  moreover have "unat pos \<le> unat (ucast h mod bits :: size_t)"
    using assms(1) by (auto simp: bloom_pos_def unsigned_ucast_eq take_bit_nat_less_eq_self split: if_splits)
  ultimately show ?thesis by (simp add: unat_div div_less_iff_less_mult)
qed

lemma set_bit_at_grown:
  assumes "unat (pos div 8) < length a - 1"
  shows "\<exists>b. set_bit_at a pos = Some b \<and> grown a b \<and> test_bit_at b pos = Some True"
proof -
  let ?i = "unat (pos div 8)"
  let ?b = "a[?i := a ! ?i OR push_bit (unat (pos mod 8)) 1]"
  have "unat (pos mod 8) < 8" by (simp add: unat_mod)
  then have on: "(push_bit (unat (pos mod 8)) 1 :: byte) \<noteq> 0"
    by (simp add: push_bit_eq_mult) 
  have "(x OR y) AND y = y" for x y :: byte
    by (rule bit_word_eqI) (auto simp: bit_simps)
  with assms on have "test_bit_at ?b pos = Some True" by (simp add: test_bit_at_def Let_def)
  moreover have "test_bit_at ?b q = Some True" if "test_bit_at a q = Some True" for q
  proof -
    have mono: "(x OR z) AND y \<noteq> 0" if "x AND y \<noteq> 0" for x y z :: byte
      using that by (auto simp: bit_eq_iff bit_simps)
    show ?thesis
      using that mono assms
      by (cases "unat (q div 8) = ?i") (auto simp: test_bit_at_def Let_def split: if_splits)
  qed
  moreover have "last ?b = last a" using assms by (cases a rule: rev_cases) (auto simp: list_update_append)
  ultimately show ?thesis using assms by (auto simp: set_bit_at_def grown_def Let_def)
qed

section \<open>No false negatives\<close>

text \<open>A filter in the making: \<open>bytes\<close> bytes of bits and the number of probes behind them.\<close>

definition filter_shape :: "byte list \<Rightarrow> size_t \<Rightarrow> size_t \<Rightarrow> bool" where
  "filter_shape a bytes bits \<longleftrightarrow> length a = Suc (unat bytes) \<and> bits = bytes * 8 \<and> bits \<noteq> 0 \<and> unat bytes * 8 < 2 ^ 64"

lemma filter_shape_grown: "grown a b \<Longrightarrow> filter_shape a bytes bits \<Longrightarrow> filter_shape b bytes bits"
  by (auto simp: filter_shape_def grown_def)

lemma test_probes_grown:
  "test_probes j bits delta h a = Some True \<Longrightarrow> grown a b \<Longrightarrow> test_probes j bits delta h b = Some True"
proof (induction j arbitrary: h)
  case (Suc j)
  then obtain pos where "bloom_pos h bits = Some pos" "test_bit_at a pos = Some True"
    "test_probes j bits delta (h + delta) a = Some True"
    by (auto simp: bind_Some_iff split: if_splits)
  with Suc show ?case by (simp add: grown_def)
qed simp

lemma set_probes_tested:
  assumes "filter_shape a bytes bits"
  shows "\<exists>b. set_probes j bits delta h a = Some b \<and> grown a b \<and> test_probes j bits delta h b = Some True"
  using assms
proof (induction j arbitrary: h a)
  case (Suc j)
  then obtain pos where pos: "bloom_pos h bits = Some pos" by (auto simp: bloom_pos_def filter_shape_def)
  have "unat (pos div 8) < length a - 1"
    using bloom_pos_range [OF pos] Suc.prems by (simp add: filter_shape_def)
  then obtain b where b: "set_bit_at a pos = Some b" "grown a b" "test_bit_at b pos = Some True"
    using set_bit_at_grown by blast
  obtain c where c: "set_probes j bits delta (h + delta) b = Some c" "grown b c"
    "test_probes j bits delta (h + delta) c = Some True"
    using Suc.IH [OF filter_shape_grown [OF b(2) Suc.prems]] by blast
  have "test_bit_at c pos = Some True" using c(2) b(3) by (simp add: grown_def)
  with pos b c show ?case using grown_trans [OF b(2) c(2)] by simp
qed simp

lemma set_keys_tested:
  assumes "filter_shape a bytes bits"
  shows "\<exists>b. set_keys k bits keys a = Some b \<and> grown a b \<and>
    (\<forall>key \<in> set keys. test_probes k bits (rotate17 (BloomHash key)) (BloomHash key) b = Some True)"
  using assms
proof (induction keys arbitrary: a)
  case (Cons key keys)
  let ?h = "BloomHash key"
  obtain b where b: "set_probes k bits (rotate17 ?h) ?h a = Some b" "grown a b"
    "test_probes k bits (rotate17 ?h) ?h b = Some True"
    using set_probes_tested [OF Cons.prems] by blast
  obtain c where c: "set_keys k bits keys b = Some c" "grown b c"
    "\<forall>key \<in> set keys. test_probes k bits (rotate17 (BloomHash key)) (BloomHash key) c = Some True"
    using Cons.IH [OF filter_shape_grown [OF b(2) Cons.prems]] by blast
  have "test_probes k bits (rotate17 ?h) ?h c = Some True"
    using test_probes_grown [OF b(3) c(2)] .
  with b c show ?case using grown_trans [OF b(2) c(2)] by (auto simp: Let_def)
qed simp

text \<open>What a policy is made for: the number of keys is an \<open>int\<close> and the size of the filter
  can be computed without wrapping.\<close>

definition bloom_fits :: "BloomFilterPolicy \<Rightarrow> byte list list \<Rightarrow> bool" where
  "bloom_fits p keys \<longleftrightarrow> length keys * unat (bf_bits_per_key p) + 7 < 2 ^ 64 \<and> length keys < 2 ^ 31"

definition bloom_ok :: "BloomFilterPolicy \<Rightarrow> bool" where
  "bloom_ok p \<longleftrightarrow> unat (bf_k p) \<le> 30"

lemma NewBloomFilterPolicy_ok: "bloom_ok (NewBloomFilterPolicy bits_per_key product)"
  by (auto simp: bloom_ok_def NewBloomFilterPolicy_def Let_def not_less word_le_nat_alt)

lemma scast_small: "unat (k :: size_t) \<le> 30 \<Longrightarrow> (scast (ucast k :: byte) :: size_t) = k"
  by (simp add: scast_byte word_unat_eq_iff unsigned_ucast_eq unsigned_take_bit_eq take_bit_nat_eq_self)

lemma bloom_create:
  assumes "bloom_ok p" and "bloom_fits p keys"
  obtains f where "\<And>dst. bloom_CreateFilter p keys dst = Some (dst @ f)"
    "\<And>key. key \<in> set keys \<Longrightarrow> bloom_KeyMayMatch key f = Some True"
    "length f \<le> (unat (bf_bits_per_key p) + 17) * Suc (length keys)"
proof -
  define bits0 where "bits0 = (let b = of_nat (length keys) * bf_bits_per_key p in if b < 64 then 64 else b)"
  define bytes where "bytes = (bits0 + 7) div 8"
  let ?a = "replicate (unat bytes) 0 @ [ucast (bf_k p)] :: byte list"
  have n: "unat (of_nat (length keys) * bf_bits_per_key p) = length keys * unat (bf_bits_per_key p)"
    using assms(2) by (simp add: bloom_fits_def unat_word_ariths unat_of_nat_small)
  then have "64 \<le> unat bits0" "unat bits0 + 7 < 2 ^ 64"
    using assms(2) by (auto simp: bits0_def bloom_fits_def Let_def word_less_nat_alt)
  then have b8: "8 \<le> unat bytes" "unat bytes * 8 \<le> unat bits0 + 7"
    by (simp_all add: bytes_def unat_div unat_add_small less_eq_div_iff_mult_less_eq)
  then have b64: "unat bytes * 8 < 2 ^ 64" using \<open>unat bits0 + 7 < 2 ^ 64\<close> by linarith
  then have bits: "unat (bytes * 8) = unat bytes * 8" by (simp add: unat_word_ariths)
  have "filter_shape ?a bytes (bytes * 8)"
    using b8 b64 bits by (auto simp: filter_shape_def simp flip: unat_eq_zero)
  then obtain f where f: "set_keys (unat (bf_k p)) (bytes * 8) keys ?a = Some f" "grown ?a f"
    "\<forall>key \<in> set keys. test_probes (unat (bf_k p)) (bytes * 8) (rotate17 (BloomHash key)) (BloomHash key) f = Some True"
    using set_keys_tested by blast
  have len: "length f = Suc (unat bytes)" and "last f = ucast (bf_k p)" using f(2) by (auto simp: grown_def)
  then have last: "f ! unat bytes = ucast (bf_k p)" by (cases f rule: rev_cases) (auto simp: nth_append)
  have k: "(scast (ucast (bf_k p) :: byte) :: size_t) = bf_k p"
    using assms(1) by (simp add: bloom_ok_def scast_small)
  have "of_nat (unat bytes * 8) = bytes * 8" by simp
  then have "bloom_KeyMayMatch key f = Some True" if "key \<in> set keys" for key
    using f(3) that b8 len by (auto simp: bloom_KeyMayMatch_def Let_def last k)
  moreover have "bloom_CreateFilter p keys dst = Some (dst @ f)" for dst
    using f(1) by (simp add: bloom_CreateFilter_def bytes_def bits0_def Let_def)
  moreover have "unat bits0 \<le> length keys * unat (bf_bits_per_key p) + 64" using n by (auto simp: bits0_def Let_def)
  then have "length f \<le> length keys * unat (bf_bits_per_key p) + 17" using b8(2) len by linarith
  then have "length f \<le> (unat (bf_bits_per_key p) + 17) * Suc (length keys)" by (simp add: algebra_simps)
  ultimately show thesis using that by blast
qed

lemma BloomPolicy_ops [simp]:
  "fp_CreateFilter (BloomPolicy p) = bloom_CreateFilter p" "fp_KeyMayMatch (BloomPolicy p) = bloom_KeyMayMatch"
  by (simp_all add: BloomPolicy_def)

interpretation bloom: filter_policy "BloomPolicy (NewBloomFilterPolicy b product)"
  "bloom_fits (NewBloomFilterPolicy b product)"
proof
  fix keys assume "bloom_fits (NewBloomFilterPolicy b product) keys"
  then obtain f where f: "\<And>dst. bloom_CreateFilter (NewBloomFilterPolicy b product) keys dst = Some (dst @ f)"
    "\<And>key. key \<in> set keys \<Longrightarrow> bloom_KeyMayMatch key f = Some True"
    using bloom_create [OF NewBloomFilterPolicy_ok] by blast
  show "\<exists>f. \<forall>dst. fp_CreateFilter (BloomPolicy (NewBloomFilterPolicy b product)) keys dst = Some (dst @ f)"
    using f(1) by auto
  show "fp_KeyMayMatch (BloomPolicy (NewBloomFilterPolicy b product)) key g = Some True"
    if "fp_CreateFilter (BloomPolicy (NewBloomFilterPolicy b product)) keys [] = Some g" "key \<in> set keys" for g key
    using that f by simp
next
  fix before keys after assume "bloom_fits (NewBloomFilterPolicy b product) (before @ keys @ after)"
  then show "bloom_fits (NewBloomFilterPolicy b product) keys"
    by (simp add: bloom_fits_def add_mult_distrib)
qed

text \<open>What tables need of a filter policy beyond its contract: filters in proportion to the
  number of keys, and an answer for every key.\<close>

locale sized_filter_policy = filter_policy P fits for P and fits +
  fixes valid :: "byte list \<Rightarrow> bool" and w :: nat
  assumes match_total: "valid key \<Longrightarrow> fits keys \<Longrightarrow> fp_CreateFilter P keys [] = Some f \<Longrightarrow> length f < 2 ^ 32 \<Longrightarrow>
      \<exists>b. fp_KeyMayMatch P key f = Some b"
    and create_length: "fits keys \<Longrightarrow> fp_CreateFilter P keys [] = Some f \<Longrightarrow> length f \<le> w * Suc (length keys)"

text \<open>C25. A Bloom filter has no false negatives. Whatever the number of bits per key, the number
  of probes it leads to and the keys, \<open>CreateFilter\<close> stays within the array it has appended
  to the destination, leaves what was there before, and \<open>KeyMayMatch\<close> says yes for every
  key the filter was made from.\<close>

theorem bloom_no_false_negatives:
  assumes "bloom_fits (NewBloomFilterPolicy bits_per_key product) keys"
  shows "\<exists>f. bloom_CreateFilter (NewBloomFilterPolicy bits_per_key product) keys dst = Some (dst @ f) \<and>
    (\<forall>key \<in> set keys. bloom_KeyMayMatch key f = Some True)"
  using bloom.create_obtain [OF assms] by (metis BloomPolicy_ops)

theorem bloom_no_false_negatives_witness:
  "\<exists>f. bloom_CreateFilter (NewBloomFilterPolicy 10 6) [[104, 105], []] [7] = Some ([7] @ f) \<and>
    bloom_KeyMayMatch [104, 105] f = Some True"
  using bloom_no_false_negatives [of 10 6 "[[104, 105], []]" "[7]"]
  by (auto simp: bloom_fits_def NewBloomFilterPolicy_def)

end
