(* ===== verification/Ldb_Filter_Block.thy ===== *)
theory Ldb_Filter_Block
  imports Ldb_Bloom
begin

text \<open>
  The filter block of a table, \<open>table/filter_block.cc\<close>: the builder that collects the keys
  of each 2 KB of table data into one filter, and the reader that finds the filter for a
  block offset again.

  The policy is an argument, as it is a pointer in the source. The builder refines a
  specification that keeps the keys of each filter as lists; the reader is shown to find
  every key of every block. An access outside the contents, a failing assertion and an
  over-long shift are \<open>None\<close>.
\<close>

section \<open>The builder\<close>

definition kFilterBaseLg :: nat where "kFilterBaseLg = 11"

definition kFilterBase :: u64 where "kFilterBase = push_bit kFilterBaseLg 1"

record FilterBlockBuilder =
  fb_keys :: "byte list"
  fb_start :: "nat list"
  fb_result :: "byte list"
  fb_tmp_keys :: "byte list list"
  fb_filter_offsets :: "u32 list"

definition new_FilterBlockBuilder :: FilterBlockBuilder where
  "new_FilterBlockBuilder = \<lparr>fb_keys = [], fb_start = [], fb_result = [], fb_tmp_keys = [], fb_filter_offsets = []\<rparr>"

text \<open>A \<open>Slice\<close> of \<open>len\<close> bytes at \<open>base\<close>.\<close>

definition slice_at :: "'a list \<Rightarrow> nat \<Rightarrow> nat \<Rightarrow> 'a list option" where
  "slice_at bytes base len = (if base + len \<le> length bytes then Some (take len (drop base bytes)) else None)"

primrec slices_between :: "byte list \<Rightarrow> nat list \<Rightarrow> nat \<Rightarrow> byte list list option" where
  "slices_between keys start 0 = Some []"
| "slices_between keys start (Suc n) = do {
     ks \<leftarrow> slices_between keys start n;
     k \<leftarrow> slice_at keys (start ! n) (start ! (n + 1) - start ! n);
     Some (ks @ [k]) }"

definition GenerateFilter :: "FilterPolicy \<Rightarrow> FilterBlockBuilder \<Rightarrow> FilterBlockBuilder option" where
  "GenerateFilter policy b = (let num_keys = length (fb_start b) in
     if num_keys = 0 then
       Some (b\<lparr>fb_filter_offsets := fb_filter_offsets b @ [of_nat (length (fb_result b))]\<rparr>)
     else do {
       let b = b\<lparr>fb_start := fb_start b @ [length (fb_keys b)]\<rparr>;
       tmp_keys \<leftarrow> slices_between (fb_keys b) (fb_start b) num_keys;
       let b = b\<lparr>fb_tmp_keys := tmp_keys,
                 fb_filter_offsets := fb_filter_offsets b @ [of_nat (length (fb_result b))]\<rparr>;
       result \<leftarrow> fp_CreateFilter policy (fb_tmp_keys b) (fb_result b);
       Some (b\<lparr>fb_result := result, fb_tmp_keys := [], fb_keys := [], fb_start := []\<rparr>) })"

lemma GenerateFilter_grows:
  "GenerateFilter policy b = Some b' \<Longrightarrow> length (fb_filter_offsets b') = Suc (length (fb_filter_offsets b))"
  by (auto simp: GenerateFilter_def Let_def bind_Some_iff split: if_splits)

text \<open>The loop of \<open>StartBlock\<close>.\<close>

function generate_until :: "FilterPolicy \<Rightarrow> nat \<Rightarrow> FilterBlockBuilder \<Rightarrow> FilterBlockBuilder option" where
  "generate_until policy filter_index b = (if length (fb_filter_offsets b) < filter_index
     then do { b \<leftarrow> GenerateFilter policy b; generate_until policy filter_index b }
     else Some b)"
  by pat_completeness auto
termination
  by (relation "measure (\<lambda>(_, filter_index, b). filter_index - length (fb_filter_offsets b))")
     (auto dest: GenerateFilter_grows)

declare generate_until.simps [simp del]

definition StartBlock :: "FilterPolicy \<Rightarrow> u64 \<Rightarrow> FilterBlockBuilder \<Rightarrow> FilterBlockBuilder option" where
  "StartBlock policy block_offset b = (let filter_index = unat (block_offset div kFilterBase) in
     if length (fb_filter_offsets b) \<le> filter_index then generate_until policy filter_index b else None)"

definition AddKey :: "byte list \<Rightarrow> FilterBlockBuilder \<Rightarrow> FilterBlockBuilder" where
  "AddKey k b = b\<lparr>fb_start := fb_start b @ [length (fb_keys b)], fb_keys := fb_keys b @ k\<rparr>"

definition put_offsets :: "byte list \<Rightarrow> u32 list \<Rightarrow> byte list" where
  "put_offsets result offsets = foldl PutFixed32 result offsets"

definition Finish :: "FilterPolicy \<Rightarrow> FilterBlockBuilder \<Rightarrow> FilterBlockBuilder option" where
  "Finish policy b = do {
     b \<leftarrow> (if fb_start b \<noteq> [] then GenerateFilter policy b else Some b);
     let array_offset = of_nat (length (fb_result b));
     let result = put_offsets (fb_result b) (fb_filter_offsets b);
     let result = PutFixed32 result array_offset;
     Some (b\<lparr>fb_result := result @ [of_nat kFilterBaseLg]\<rparr>) }"

section \<open>The reader\<close>

text \<open>\<open>data\<close> is \<open>None\<close> for the null pointer; \<open>offset\<close> is a position in the contents.
  \<open>base_lg\<close> is read from a \<open>char\<close>, which is signed, and widened.\<close>

record FilterBlockReader =
  fr_data :: "byte list option"
  fr_offset :: nat
  fr_num :: nat
  fr_base_lg :: size_t

definition new_FilterBlockReader :: "byte list \<Rightarrow> FilterBlockReader option" where
  "new_FilterBlockReader contents = (
     let n = length contents; r = \<lparr>fr_data = None, fr_offset = 0, fr_num = 0, fr_base_lg = 0\<rparr> in
     if n < 5 then Some r
     else do {
       let r = r\<lparr>fr_base_lg := scast (contents ! (n - 1))\<rparr>;
       last_word \<leftarrow> DecodeFixed32 (drop (n - 5) contents);
       if n - 5 < unat last_word then Some r
       else Some (r\<lparr>fr_data := Some contents, fr_offset := unat last_word,
                    fr_num := (n - 5 - unat last_word) div 4\<rparr>) })"

definition reader_KeyMayMatch :: "FilterPolicy \<Rightarrow> FilterBlockReader \<Rightarrow> u64 \<Rightarrow> byte list \<Rightarrow> bool option" where
  "reader_KeyMayMatch policy r block_offset key = (
     if 64 \<le> fr_base_lg r then None
     else let index = unat (drop_bit (unat (fr_base_lg r)) block_offset) in
       if index < fr_num r then do {
         data \<leftarrow> fr_data r;
         start \<leftarrow> DecodeFixed32 (drop (fr_offset r + index * 4) data);
         limit \<leftarrow> DecodeFixed32 (drop (fr_offset r + index * 4 + 4) data);
         if start \<le> limit \<and> unat limit \<le> fr_offset r then do {
           f \<leftarrow> slice_at data (unat start) (unat limit - unat start);
           fp_KeyMayMatch policy key f }
         else if start = limit then Some False
         else Some True }
       else Some True)"

section \<open>Specification of the builder\<close>

text \<open>The keys of the filters made so far and the keys waiting for the next one.\<close>

type_synonym filter_spec = "byte list list list \<times> byte list list"

fun spec_StartBlock :: "nat \<Rightarrow> filter_spec \<Rightarrow> filter_spec" where
  "spec_StartBlock i (done, pending) = (if length done < i
     then (done @ [pending] @ replicate (i - length done - 1) [], []) else (done, pending))"

fun spec_AddKey :: "byte list \<Rightarrow> filter_spec \<Rightarrow> filter_spec" where
  "spec_AddKey k (done, pending) = (done, pending @ [k])"

fun spec_Finish :: "filter_spec \<Rightarrow> byte list list list" where
  "spec_Finish (done, pending) = (if pending = [] then done else done @ [pending])"

text \<open>The positions of the strings of a list within their concatenation.\<close>

definition starts :: "byte list list \<Rightarrow> nat list" where
  "starts xss = map (\<lambda>i. length (concat (take i xss))) [0..<length xss]"

lemma length_starts [simp]: "length (starts xss) = length xss"
  by (simp add: starts_def)

lemma starts_snoc [simp]: "starts [] = []" "starts (xss @ [xs]) = starts xss @ [length (concat xss)]"
  by (auto simp: starts_def intro!: map_cong)

lemma starts_nth:
  "i < length xss \<Longrightarrow> (starts xss @ [length (concat xss)]) ! i = length (concat (take i xss))"
  "i = length xss \<Longrightarrow> (starts xss @ [length (concat xss)]) ! i = length (concat (take i xss))"
  by (simp_all add: starts_def nth_append)

lemma starts_slice:
  assumes "i < length xss"
  shows "slice_at (concat xss @ zs) (length (concat (take i xss)))
    (length (concat (take (Suc i) xss)) - length (concat (take i xss))) = Some (xss ! i)"
proof -
  have "concat xss = concat (take i xss) @ xss ! i @ concat (drop (Suc i) xss)"
    using assms by (metis concat.simps(2) concat_append id_take_nth_drop)
  then show ?thesis using assms by (simp add: slice_at_def take_Suc_conv_app_nth)
qed

lemma slices_between_starts:
  "n \<le> length xss \<Longrightarrow> slices_between (concat xss) (starts xss @ [length (concat xss)]) n = Some (take n xss)"
proof (induction n)
  case (Suc n)
  then have "(starts xss @ [length (concat xss)]) ! Suc n = length (concat (take (Suc n) xss))"
    using starts_nth [of "Suc n" xss] by linarith
  then show ?case
    using Suc starts_nth(1) [of n xss] starts_slice [of n xss "[]"] by (simp add: take_Suc_conv_app_nth)
qed simp

definition filter_of :: "FilterPolicy \<Rightarrow> byte list list \<Rightarrow> byte list" where
  "filter_of P keys = (if keys = [] then [] else the (fp_CreateFilter P keys []))"

text \<open>The builder holds the filters of the specification and the flattened waiting keys.\<close>

fun builds :: "FilterPolicy \<Rightarrow> FilterBlockBuilder \<Rightarrow> filter_spec \<Rightarrow> bool" where
  "builds P b (done, pending) \<longleftrightarrow> fb_keys b = concat pending \<and> fb_start b = starts pending \<and>
     fb_result b = concat (map (filter_of P) done) \<and>
     fb_filter_offsets b = map of_nat (starts (map (filter_of P) done))"

lemma AddKey_builds: "builds P b s \<Longrightarrow> builds P (AddKey k b) (spec_AddKey k s)"
  by (cases s) (simp add: AddKey_def)

lemma AddKeys_builds: "builds P b (done, pending) \<Longrightarrow> builds P (fold AddKey ks b) (done, pending @ ks)"
proof (induction ks arbitrary: b pending)
  case (Cons k ks)
  from Cons.IH [of "AddKey k b" "pending @ [k]"] AddKey_builds [OF Cons.prems, of k] show ?case by simp
qed simp

lemma put_offsets_eq: "put_offsets result ws = result @ concat (map EncodeFixed32 ws)"
  unfolding put_offsets_def by (induction ws arbitrary: result) (simp_all add: PutFixed32_def)

context filter_policy
begin

lemma GenerateFilter_builds:
  assumes "builds P b (done, pending)" and "fits pending"
  shows "\<exists>b'. GenerateFilter P b = Some b' \<and> builds P b' (done @ [pending], [])"
proof (cases "pending = []")
  case True
  then show ?thesis using assms(1) by (simp add: GenerateFilter_def filter_of_def)
next
  case False
  obtain f where "\<And>dst. fp_CreateFilter P pending dst = Some (dst @ f)"
    using create_appends [OF assms(2)] by blast
  then show ?thesis
    using False assms(1) slices_between_starts [of "length pending" pending]
    by (simp add: GenerateFilter_def filter_of_def)
qed

lemma generate_until_builds:
  assumes "builds P b (done, pending)" and "fits pending"
  shows "\<exists>b'. generate_until P i b = Some b' \<and> builds P b' (spec_StartBlock i (done, pending))"
  using assms
proof (induction "i - length done" arbitrary: b "done" pending)
  case 0
  then show ?case by (simp add: generate_until.simps [of P i b])
next
  case (Suc n)
  obtain c where c: "GenerateFilter P b = Some c" "builds P c (done @ [pending], [])"
    using GenerateFilter_builds Suc.prems by blast
  have "fits []" using fits_part [of pending "[]" "[]"] Suc.prems(2) by simp
  moreover have "n = i - length (done @ [pending])" using Suc.hyps(2) by simp
  ultimately obtain b' where b': "generate_until P i c = Some b'"
    "builds P b' (spec_StartBlock i (done @ [pending], []))"
    using Suc.hyps(1) c(2) by blast
  have lt: "length done < i" using Suc.hyps(2) by simp
  have "spec_StartBlock i (done @ [pending], []) = spec_StartBlock i (done, pending)"
  proof (cases "i = Suc (length done)")
    case False
    with lt have "i - length done - 1 = Suc (i - Suc (length done) - 1)" by simp
    with False lt show ?thesis by (simp del: One_nat_def)
  qed simp
  with b' c(1) lt Suc.prems(1) show ?case by (simp add: generate_until.simps [of P i b])
qed

lemma Finish_builds:
  assumes "builds P b (done, pending)" and "fits pending"
  shows "\<exists>b'. Finish P b = Some b' \<and> fb_result b' = (let fs = map (filter_of P) (spec_Finish (done, pending)) in
    concat fs @ concat (map (EncodeFixed32 \<circ> of_nat) (starts fs @ [length (concat fs)])) @ [11])"
proof (cases "pending = []")
  case True
  then show ?thesis
    using assms(1) by (simp add: Finish_def put_offsets_eq PutFixed32_def kFilterBaseLg_def Let_def)
next
  case False
  obtain c where c: "GenerateFilter P b = Some c" "builds P c (done @ [pending], [])"
    using GenerateFilter_builds assms by blast
  have "fb_start b \<noteq> []" using assms(1) False by (metis builds.simps length_0_conv length_starts)
  with c False show ?thesis by (simp add: Finish_def put_offsets_eq PutFixed32_def kFilterBaseLg_def Let_def)
qed

end

section \<open>The reader finds the filter\<close>

definition filter_contents :: "byte list list \<Rightarrow> byte list" where
  "filter_contents fs = concat fs @ concat (map (EncodeFixed32 \<circ> of_nat) (starts fs @ [length (concat fs)])) @ [11]"

lemma drop_fixed32:
  "i < length ws \<Longrightarrow> drop (i * 4) (concat (map EncodeFixed32 ws) @ zs) =
     EncodeFixed32 (ws ! i) @ concat (map EncodeFixed32 (drop (Suc i) ws)) @ zs"
  by (induction ws arbitrary: i) (auto simp: nth_Cons' gr0_conv_Suc)

lemma length_fixed32 [simp]: "length (concat (map EncodeFixed32 ws)) = 4 * length ws"
  by (induction ws) auto

lemma offset_word:
  assumes "i \<le> length fs" and "length (concat fs) < 2 ^ 32"
  shows "DecodeFixed32 (drop (length (concat fs) + i * 4) (filter_contents fs)) =
    Some (of_nat (length (concat (take i fs))))"
proof -
  have "(starts fs @ [length (concat fs)]) ! i = length (concat (take i fs))"
    using assms(1) starts_nth [of i fs] by linarith
  moreover have "i < length (map of_nat (starts fs @ [length (concat fs)]) :: u32 list)" using assms(1) by simp
  ultimately show ?thesis
    using drop_fixed32 [of i "map of_nat (starts fs @ [length (concat fs)])" "[11]"] assms(1)
    by (simp add: filter_contents_def nth_map del: map_append)
qed

lemma new_reader_contents:
  assumes "length (concat fs) < 2 ^ 32"
  shows "new_FilterBlockReader (filter_contents fs) = Some \<lparr>fr_data = Some (filter_contents fs),
    fr_offset = length (concat fs), fr_num = length fs, fr_base_lg = 11\<rparr>"
proof -
  have len: "length (filter_contents fs) = length (concat fs) + length fs * 4 + 5"
    using length_fixed32 [of "map of_nat (starts fs @ [length (concat fs)])"]
    by (simp add: filter_contents_def del: length_concat)
  have word: "DecodeFixed32 (drop (length (filter_contents fs) - 5) (filter_contents fs)) = Some (of_nat (length (concat fs)))"
    using offset_word [of "length fs" fs] assms len by (simp add: ac_simps)
  have last: "filter_contents fs ! (length (filter_contents fs) - 1) = 11"
    by (metis append_assoc filter_contents_def last_conv_nth last_snoc append_is_Nil_conv not_Cons_self2)
  show ?thesis
    using word last len assms by (simp add: new_FilterBlockReader_def Let_def unat_of_nat_small)
qed

lemma concat_take_mono: "i \<le> j \<Longrightarrow> length (concat (take i fs)) \<le> length (concat (take j fs))"
  by (metis append_take_drop_id concat_append le_add1 length_append min.absorb1 take_take)

lemma reader_contents:
  assumes "unat (off div kFilterBase) = i" and "i < length fs" and "length (concat fs) < 2 ^ 32"
    and "new_FilterBlockReader (filter_contents fs) = Some r"
  shows "reader_KeyMayMatch P r off key = fp_KeyMayMatch P key (fs ! i)"
proof -
  have r: "r = \<lparr>fr_data = Some (filter_contents fs), fr_offset = length (concat fs), fr_num = length fs, fr_base_lg = 11\<rparr>"
    using new_reader_contents [OF assms(3)] assms(4) by simp
  have idx: "unat (drop_bit 11 off) = i"
    using assms(1) by (simp add: kFilterBase_def kFilterBaseLg_def drop_bit_eq_div push_bit_eq_mult unat_div)
  let ?a = "length (concat (take i fs))" and ?b = "length (concat (take (Suc i) fs))"
  have "?a \<le> ?b" by (rule concat_take_mono) simp
  moreover have "?b \<le> length (concat fs)" using concat_take_mono [of "Suc i" "length fs" fs] assms(2) by simp
  moreover have small: "unat (of_nat n :: u32) = n" if "n \<le> length (concat fs)" for n
    using that assms(3) by (simp add: unat_of_nat_small)
  ultimately have le: "(of_nat ?a :: u32) \<le> of_nat ?b" "unat (of_nat ?a :: u32) = ?a" "unat (of_nat ?b :: u32) = ?b"
    "?b \<le> length (concat fs)"
    by (simp_all add: word_le_nat_alt del: length_concat)
  have "slice_at (filter_contents fs) ?a (?b - ?a) = Some (fs ! i)"
    unfolding filter_contents_def by (rule starts_slice [OF assms(2)])
  then show ?thesis
    using offset_word [of i fs] offset_word [of "Suc i" fs] assms(2,3) le idx
    by (simp add: reader_KeyMayMatch_def r add.assoc add.commute [of 4] del: length_concat)
qed

section \<open>End to end\<close>

text \<open>The calls a table builder makes: the keys of each block after its \<open>StartBlock\<close>.\<close>

primrec add_blocks :: "FilterPolicy \<Rightarrow> (u64 \<times> byte list list) list \<Rightarrow> FilterBlockBuilder \<Rightarrow> FilterBlockBuilder option" where
  "add_blocks P [] b = Some b"
| "add_blocks P (block # blocks) b = do {
     b \<leftarrow> StartBlock P (fst block) b;
     add_blocks P blocks (fold AddKey (snd block) b) }"

definition build_filter_block :: "FilterPolicy \<Rightarrow> (u64 \<times> byte list list) list \<Rightarrow> byte list option" where
  "build_filter_block P blocks = do {
     b \<leftarrow> add_blocks P blocks new_FilterBlockBuilder;
     b \<leftarrow> Finish P b;
     Some (fb_result b) }"

abbreviation filter_index :: "u64 \<Rightarrow> nat" where
  "filter_index off \<equiv> unat (off div kFilterBase)"

text \<open>Every key of the blocks so far is in the filter of its block, or waits for it.\<close>

fun covers :: "(u64 \<times> byte list list) list \<Rightarrow> filter_spec \<Rightarrow> bool" where
  "covers blocks (done, pending) \<longleftrightarrow> concat done @ pending = concat (map snd blocks) \<and>
     (\<forall>(off, ks) \<in> set blocks. \<forall>k \<in> set ks. filter_index off < length done \<and> k \<in> set (done ! filter_index off) \<or>
        filter_index off = length done \<and> k \<in> set pending)"

lemma covers_step:
  assumes "covers blocks (done, pending)" and "length done \<le> filter_index off"
    and "spec_StartBlock (filter_index off) (done, pending) = (done', pending')"
  shows "covers (blocks @ [(off, ks)]) (done', pending' @ ks) \<and> length done' = filter_index off"
proof (cases "length done < filter_index off")
  case True
  then have "done' = done @ [pending] @ replicate (filter_index off - length done - 1) []" "pending' = []"
    using assms(3) by auto
  with True assms(1) show ?thesis by (fastforce simp: nth_append)
next
  case False
  with assms show ?thesis by auto
qed

context filter_policy
begin

lemma add_blocks_builds:
  assumes "builds P b (done, pending)" and "covers before (done, pending)"
    and "fits (concat (map snd (before @ blocks)))" and "sorted (map (filter_index \<circ> fst) blocks)"
    and "\<forall>block \<in> set blocks. length done \<le> filter_index (fst block)"
  shows "\<exists>b' s. add_blocks P blocks b = Some b' \<and> builds P b' s \<and> covers (before @ blocks) s"
  using assms
proof (induction blocks arbitrary: b "done" pending before)
  case (Cons block blocks)
  obtain off ks where [simp]: "block = (off, ks)" by fastforce
  let ?s = "spec_StartBlock (filter_index off) (done, pending)"
  obtain done' pending' where s: "?s = (done', pending')" by fastforce
  have "concat done @ pending = concat (map snd before)" using Cons.prems(2) by simp
  then have "concat (map snd (before @ block # blocks)) = concat done @ pending @ concat (map snd (block # blocks))"
    by (metis append_assoc concat_append map_append)
  then have "fits pending" using fits_part Cons.prems(3) by metis
  then obtain c where c: "generate_until P (filter_index off) b = Some c" "builds P c (done', pending')"
    using generate_until_builds [OF Cons.prems(1)] s by metis
  have cov: "covers (before @ [block]) (done', pending' @ ks)" "length done' = filter_index off"
    using covers_step [OF Cons.prems(2) _ s, of ks] Cons.prems(5) by (simp_all del: covers.simps)
  have "length (fb_filter_offsets b) = length done" using Cons.prems(1) by simp
  then have "StartBlock P off b = Some c" using c Cons.prems(5) by (simp add: StartBlock_def)
  moreover have "\<exists>b' s. add_blocks P blocks (fold AddKey ks c) = Some b' \<and> builds P b' s \<and>
      covers ((before @ [block]) @ blocks) s"
    using Cons.prems(3,4) cov(2) by (intro Cons.IH [OF AddKeys_builds [OF c(2)] cov(1)]) auto
  ultimately show ?case by simp
qed auto

lemma filter_block_matches:
  assumes "fits (concat (map snd blocks))" and "sorted (map (filter_index \<circ> fst) blocks)"
  obtains contents where "build_filter_block P blocks = Some contents"
    "\<And>r off ks key. length contents < 2 ^ 32 \<Longrightarrow> new_FilterBlockReader contents = Some r \<Longrightarrow>
       (off, ks) \<in> set blocks \<Longrightarrow> key \<in> set ks \<Longrightarrow> reader_KeyMayMatch P r off key = Some True"
proof -
  have "builds P new_FilterBlockBuilder ([], [])" by (simp add: new_FilterBlockBuilder_def)
  then obtain b s where b: "add_blocks P blocks new_FilterBlockBuilder = Some b" "builds P b s" "covers blocks s"
    using add_blocks_builds [of new_FilterBlockBuilder "[]" "[]" "[]" blocks] assms by auto
  obtain dn pending where s: "s = (dn, pending)" by fastforce
  let ?gs = "spec_Finish (dn, pending)"
  let ?fs = "map (filter_of P) ?gs"
  have all: "concat ?gs = concat (map snd blocks)" using b(3) by (auto simp: s)
  have "fits pending" using fits_part [of "concat dn" pending "[]"] b(3) assms(1) by (simp add: s)
  then obtain b' where b': "Finish P b = Some b'" "fb_result b' = filter_contents ?fs"
    using Finish_builds [of b dn pending] b(2) by (auto simp: s filter_contents_def Let_def)
  show thesis
  proof
    show "build_filter_block P blocks = Some (filter_contents ?fs)"
      using b(1) b' by (simp add: build_filter_block_def)
  next
    fix r off ks key
    assume small: "length (filter_contents ?fs) < 2 ^ 32" and r: "new_FilterBlockReader (filter_contents ?fs) = Some r"
      and key: "(off, ks) \<in> set blocks" "key \<in> set ks"
    let ?i = "filter_index off"
    have i: "?i < length ?gs" "key \<in> set (?gs ! ?i)"
      using b(3) key by (fastforce simp: s nth_append split: if_splits)+
    have "concat (take ?i ?gs) @ ?gs ! ?i @ concat (drop (Suc ?i) ?gs) = concat (map snd blocks)"
      using i(1) all by (metis concat.simps(2) concat_append id_take_nth_drop)
    then have "fits (?gs ! ?i)" using fits_part assms(1) by metis
    then have "fp_KeyMayMatch P key (?fs ! ?i) = Some True"
      using create_obtain [of "?gs ! ?i"] i
      by (smt (verit) append_Nil filter_of_def length_pos_if_in_set less_numeral_extra(3) list.size(3) nth_map option.sel)
    moreover have "length (concat ?fs) < 2 ^ 32" using small by (simp add: filter_contents_def)
    ultimately show "reader_KeyMayMatch P r off key = Some True"
      using reader_contents [OF refl _ _ r, of off P key] i(1) by simp
  qed
qed

end

section \<open>Properties\<close>

text \<open>C24. Nothing is lost through the filter block: for blocks at ascending offsets, the calls of
  the table builder succeed (no assertion fails), and in the contents they produce the reader
  says yes for every key of every block at the offset of this block, as long as the contents
  stay below the 4 GB that the 32-bit filter offsets can address.\<close>

theorem filter_block_no_false_negatives:
  assumes "bloom_fits (NewBloomFilterPolicy b product) (concat (map snd blocks))"
    and "sorted (map (filter_index \<circ> fst) blocks)"
  shows "\<exists>contents. build_filter_block (BloomPolicy (NewBloomFilterPolicy b product)) blocks = Some contents \<and>
    (\<forall>r off ks key. length contents < 2 ^ 32 \<longrightarrow> new_FilterBlockReader contents = Some r \<longrightarrow>
       (off, ks) \<in> set blocks \<longrightarrow> key \<in> set ks \<longrightarrow>
       reader_KeyMayMatch (BloomPolicy (NewBloomFilterPolicy b product)) r off key = Some True)"
  using bloom.filter_block_matches [OF assms] by metis

theorem filter_block_no_false_negatives_witness:
  "\<exists>contents. build_filter_block (BloomPolicy (NewBloomFilterPolicy 10 6)) [(0, [[97]]), (5000, [[98], [99]])] = Some contents \<and>
    (\<forall>r. length contents < 2 ^ 32 \<longrightarrow> new_FilterBlockReader contents = Some r \<longrightarrow>
       reader_KeyMayMatch (BloomPolicy (NewBloomFilterPolicy 10 6)) r 5000 [99] = Some True)"
  using filter_block_no_false_negatives [of 10 6 "[(0, [[97]]), (5000, [[98], [99]])]"]
  by (force simp: bloom_fits_def NewBloomFilterPolicy_def kFilterBase_def kFilterBaseLg_def)

section \<open>Arbitrary contents\<close>

text \<open>A filter block read from a damaged file may hold anything.\<close>

lemma scast_less_64: "b < 64 \<Longrightarrow> (scast (b :: byte) :: size_t) < 64"
  by (simp add: scast_byte word_less_nat_alt unsigned_ucast_eq take_bit_nat_eq_self)

lemma new_FilterBlockReader_shape:
  obtains r where "new_FilterBlockReader contents = Some r" "fr_num r = 0" "5 \<le> length contents \<Longrightarrow>
      fr_base_lg r = scast (last contents)" "length contents < 5 \<Longrightarrow> fr_base_lg r = 0"
  | r where "new_FilterBlockReader contents = Some r" "fr_data r = Some contents" "5 \<le> length contents"
      "fr_base_lg r = scast (last contents)" "fr_offset r + fr_num r * 4 + 5 \<le> length contents"
proof (cases "length contents < 5")
  case True
  then show thesis using that(1) by (simp add: new_FilterBlockReader_def)
next
  case False
  obtain w where w: "DecodeFixed32 (drop (length contents - 5) contents) = Some w"
    using False DecodeFixed32_total [of "drop (length contents - 5) contents"] by auto
  have l: "contents ! (length contents - Suc 0) = last contents" using False by (subst last_conv_nth) auto
  show thesis
  proof (cases "length contents - 5 < unat w")
    case True
    with False w l show thesis by (intro that(1)) (auto simp: new_FilterBlockReader_def Let_def)
  next
    case le: False
    have "unat w + (length contents - 5 - unat w) div 4 * 4 + 5 \<le> length contents"
      using le False div_times_less_eq_dividend [of "length contents - 5 - unat w" 4] by linarith
    with False le w l show thesis by (intro that(2)) (auto simp: new_FilterBlockReader_def Let_def)
  qed
qed

lemma test_probes_total:
  assumes "unat bytes < length a" and "bits = bytes * 8" and "bits \<noteq> 0" and "unat bytes * 8 < 2 ^ 64"
  shows "\<exists>r. test_probes j bits delta h a = Some r"
proof (induction j arbitrary: h)
  case (Suc j)
  obtain pos where pos: "bloom_pos h bits = Some pos" using assms(3) by (simp add: bloom_pos_def)
  have "unat (pos div 8) < length a" using bloom_pos_range [OF pos assms(2,4)] assms(1) by simp
  then obtain x where "test_bit_at a pos = Some x" by (simp add: test_bit_at_def Let_def)
  with pos Suc show ?case by (cases x) auto
qed auto

lemma bloom_KeyMayMatch_total:
  assumes "length f < 2 ^ 60"
  shows "\<exists>r. bloom_KeyMayMatch key f = Some r"
proof (cases "length f < 2")
  case False
  have n: "unat (of_nat (length f - 1) :: size_t) = length f - 1" using assms by (simp add: unat_of_nat_small)
  have "of_nat ((length f - 1) * 8) = (of_nat (length f - 1) * 8 :: size_t)" by simp
  moreover have "of_nat ((length f - 1) * 8) \<noteq> (0 :: size_t)"
    using False assms unat_of_nat_small [of "(length f - 1) * 8", where 'a = 64] by (auto simp flip: unat_eq_zero)
  ultimately have "\<exists>r. test_probes j (of_nat ((length f - 1) * 8)) delta h f = Some r" for j delta h
    using test_probes_total [of "of_nat (length f - 1)" f "of_nat ((length f - 1) * 8)"] n False assms by simp
  then have "\<exists>r. (if b then Some True else test_probes j (of_nat ((length f - 1) * 8)) delta h f) = Some r" for b j delta h
    by auto
  then show ?thesis using False unfolding bloom_KeyMayMatch_def Let_def by presburger
qed (auto simp: bloom_KeyMayMatch_def)

interpretation bloom_sized: sized_filter_policy "BloomPolicy (NewBloomFilterPolicy b product)"
  "bloom_fits (NewBloomFilterPolicy b product)" "\<lambda>_. True" "unat (bf_bits_per_key (NewBloomFilterPolicy b product)) + 17"
proof
  let ?p = "NewBloomFilterPolicy b product"
  show "\<exists>m. fp_KeyMayMatch (BloomPolicy ?p) key f = Some m" if "length f < 2 ^ 32" for key f
    using bloom_KeyMayMatch_total [of f key] that by simp
  fix keys f assume "bloom_fits ?p keys" "fp_CreateFilter (BloomPolicy ?p) keys [] = Some f"
  moreover obtain g where "\<And>dst. bloom_CreateFilter ?p keys dst = Some (dst @ g)"
      "length g \<le> (unat (bf_bits_per_key ?p) + 17) * Suc (length keys)"
    using bloom_create [OF NewBloomFilterPolicy_ok calculation(1)] by blast
  ultimately show "length f \<le> (unat (bf_bits_per_key ?p) + 17) * Suc (length keys)" by simp
qed

text \<open>C26. Reading a filter block is memory safe on arbitrary contents: if the last byte, the
  shift, is one that a shift can be made with, every look-up returns, without an access outside
  the contents, whatever the offsets in the block say. A block too short to have the byte is
  fine too.\<close>

theorem filter_reader_safe:
  assumes "length contents < 2 ^ 60" and "5 \<le> length contents \<Longrightarrow> last contents < 64"
  shows "\<exists>r m. new_FilterBlockReader contents = Some r \<and>
    reader_KeyMayMatch (BloomPolicy p) r block_offset key = Some m"
proof (cases contents rule: new_FilterBlockReader_shape)
  case (1 r)
  have "\<not> 64 \<le> fr_base_lg r" using 1 assms(2) scast_less_64 by (cases "length contents < 5") (simp_all add: not_le)
  with 1 show ?thesis by (auto simp: reader_KeyMayMatch_def)
next
  case (2 r)
  have base: "\<not> 64 \<le> fr_base_lg r" using 2 assms(2) scast_less_64 by (simp add: not_le)
  let ?i = "unat (drop_bit (unat (fr_base_lg r)) block_offset)"
  show ?thesis
  proof (cases "?i < fr_num r")
    case True
    then have "4 \<le> length (drop (fr_offset r + ?i * 4) contents)" "4 \<le> length (drop (fr_offset r + ?i * 4 + 4) contents)"
      using 2 by auto
    then obtain s l where w: "DecodeFixed32 (drop (fr_offset r + ?i * 4) contents) = Some s"
      "DecodeFixed32 (drop (fr_offset r + ?i * 4 + 4) contents) = Some l"
      using DecodeFixed32_total by meson
    have "\<exists>m. bloom_KeyMayMatch key (take n (drop k contents)) = Some m" "\<exists>m. bloom_KeyMayMatch key [] = Some m" for n k
      using assms(1) by (intro bloom_KeyMayMatch_total, simp)+
    moreover have "(if unat s + (unat l - unat s) \<le> length contents then Some (take (unat l - unat s) (drop (unat s) contents))
        else None) \<noteq> None" if "s \<le> l" "unat l \<le> fr_offset r"
      using that 2 by (simp add: word_le_nat_alt)
    ultimately show ?thesis
      using w base True 2 by (auto simp: reader_KeyMayMatch_def slice_at_def split: if_splits)
  qed (use 2 base in \<open>auto simp: reader_KeyMayMatch_def not_le\<close>)
qed

theorem filter_reader_safe_witness:
  "\<exists>r m. new_FilterBlockReader [1, 2, 3, 0, 0, 0, 0, 0, 0, 0, 0, 0, 11] = Some r \<and>
    reader_KeyMayMatch (BloomPolicy (NewBloomFilterPolicy 10 6)) r 7 [97] = Some m"
  by (rule filter_reader_safe) simp_all

text \<open>Without the hypothesis on the last byte the look-up is undefined: the shift is made with
  whatever the file says.\<close>

lemma filter_reader_shift_undefined:
  "\<exists>r. new_FilterBlockReader [0, 0, 0, 0, 64] = Some r \<and> reader_KeyMayMatch P r 0 key = None"
  by (simp add: new_FilterBlockReader_def DecodeFixed32_def kLittleEndian_def reader_KeyMayMatch_def
      scast_byte word_le_nat_alt)

end
