(* ===== verification/Ldb_Comparator.thy ===== *)
theory Ldb_Comparator
  imports Ldb_Coding "HOL-Library.List_Lexorder"
begin

text \<open>
  Slices and comparators of leveldb: \<open>include/leveldb/slice.h\<close>,
  \<open>include/leveldb/comparator.h\<close> and \<open>util/comparator.cc\<close>.

  A comparator is the record of its operations, \<open>None\<close> standing for a call outside the
  precondition or a failing assertion. The locale \<open>comparator\<close> is the contract of the
  header: a total order on the valid keys, separators between two keys, successors. It is
  interpreted on the bytewise comparator here and on the internal key comparator in
  \<open>Ldb_Dbformat\<close>; tables, blocks and the skip list rely on it only.
\<close>

section \<open>Slices\<close>

text \<open>Only the sign of the result of \<open>memcmp\<close> is specified, and only the sign is used.\<close>

fun memcmp :: "byte list \<Rightarrow> byte list \<Rightarrow> nat \<Rightarrow> int option" where
  "memcmp a b 0 = Some 0"
| "memcmp (x # a) (y # b) (Suc n) = (if x = y then memcmp a b n else Some (uint x - uint y))"
| "memcmp a b (Suc n) = None"

definition slice_compare :: "byte list \<Rightarrow> byte list \<Rightarrow> int option" where
  "slice_compare a b = do {
     let min_len = (if length a < length b then length a else length b);
     r \<leftarrow> memcmp a b min_len;
     Some (if r = 0 then (if length a < length b then - 1 else if length b < length a then 1 else r) else r) }"

definition starts_with :: "byte list \<Rightarrow> byte list \<Rightarrow> bool" where
  "starts_with a x \<longleftrightarrow> length x \<le> length a \<and> memcmp a x (length x) = Some 0"

definition slice_eq :: "byte list \<Rightarrow> byte list \<Rightarrow> bool" where
  "slice_eq x y \<longleftrightarrow> length x = length y \<and> memcmp x y (length x) = Some 0"

definition slice_at_index :: "byte list \<Rightarrow> nat \<Rightarrow> byte option" where
  "slice_at_index a n = (if n < length a then Some (a ! n) else None)"

definition remove_prefix :: "nat \<Rightarrow> byte list \<Rightarrow> byte list option" where
  "remove_prefix n a = (if n \<le> length a then Some (drop n a) else None)"

lemma memcmp_0_iff: "n \<le> length a \<Longrightarrow> n \<le> length b \<Longrightarrow> memcmp a b n = Some 0 \<longleftrightarrow> take n a = take n b"
  by (induction a b n rule: memcmp.induct) (auto simp: word_uint_eq_iff)

lemma slice_eq_iff [simp]: "slice_eq x y \<longleftrightarrow> x = y"
  unfolding slice_eq_def using memcmp_0_iff [of "length x" x y] by auto

lemma starts_with_iff [simp]: "starts_with a x \<longleftrightarrow> (\<exists>rest. a = x @ rest)"
  unfolding starts_with_def using memcmp_0_iff [of "length x" a x]
  by (metis append_eq_conv_conj append_take_drop_id le_add1 le_refl length_append take_all)

text \<open>\<open>compare\<close> is the lexicographic order.\<close>

lemma slice_compare_Cons:
  "slice_compare (x # a) (y # b) = (if x = y then slice_compare a b else Some (uint x - uint y))"
  by (simp add: slice_compare_def Let_def word_uint_eq_iff cong: if_cong)

lemma slice_compare_lex:
  "\<exists>r. slice_compare a b = Some r \<and> (r < 0 \<longleftrightarrow> a < b) \<and> (r = 0 \<longleftrightarrow> a = b) \<and> (0 < r \<longleftrightarrow> b < a)"
proof (induction a arbitrary: b)
  case Nil
  then show ?case by (cases b) (auto simp: slice_compare_def Let_def)
next
  case (Cons x a)
  show ?case
  proof (cases b)
    case (Cons y b')
    then show ?thesis
      using Cons.IH [of b'] by (auto simp: slice_compare_Cons word_less_def word_uint_eq_iff)
  qed (simp add: slice_compare_def)
qed

section \<open>The interface\<close>

record Comparator =
  cmp_Compare :: "byte list \<Rightarrow> byte list \<Rightarrow> int option"
  cmp_FindShortestSeparator :: "byte list \<Rightarrow> byte list \<Rightarrow> byte list option"
  cmp_FindShortSuccessor :: "byte list \<Rightarrow> byte list option"

text \<open>The order a comparator gives.\<close>

definition key_le :: "Comparator \<Rightarrow> byte list \<Rightarrow> byte list \<Rightarrow> bool" where
  "key_le C a b \<longleftrightarrow> (\<exists>r. cmp_Compare C a b = Some r \<and> r \<le> 0)"

definition key_less :: "Comparator \<Rightarrow> byte list \<Rightarrow> byte list \<Rightarrow> bool" where
  "key_less C a b \<longleftrightarrow> (\<exists>r. cmp_Compare C a b = Some r \<and> r < 0)"

lemma key_order_code [code]:
  "key_le C a b \<longleftrightarrow> (case cmp_Compare C a b of None \<Rightarrow> False | Some r \<Rightarrow> r \<le> 0)"
  "key_less C a b \<longleftrightarrow> (case cmp_Compare C a b of None \<Rightarrow> False | Some r \<Rightarrow> r < 0)"
  by (simp_all add: key_le_def key_less_def split: option.split)

locale key_order =
  fixes C :: Comparator and valid :: "byte list \<Rightarrow> bool"
  assumes compare_total: "valid a \<Longrightarrow> valid b \<Longrightarrow> \<exists>r. cmp_Compare C a b = Some r"
    and compare_swap: "valid a \<Longrightarrow> valid b \<Longrightarrow> cmp_Compare C a b = Some r \<Longrightarrow> cmp_Compare C b a = Some r' \<Longrightarrow>
      sgn r' = - sgn r"
    and compare_trans: "valid a \<Longrightarrow> valid b \<Longrightarrow> valid c \<Longrightarrow> key_le C a b \<Longrightarrow> key_le C b c \<Longrightarrow> key_le C a c"
begin

lemma compare_refl:
  assumes "valid a"
  shows "cmp_Compare C a a = Some 0"
proof -
  obtain r where "cmp_Compare C a a = Some r" using compare_total assms by blast
  with compare_swap [OF assms assms this this] show ?thesis by (simp add: sgn_if split: if_splits)
qed

lemma le_refl: "valid a \<Longrightarrow> key_le C a a"
  by (simp add: key_le_def compare_refl)

lemma not_le:
  assumes "valid a" and "valid b"
  shows "\<not> key_le C a b \<longleftrightarrow> key_less C b a"
proof -
  obtain r r' where "cmp_Compare C a b = Some r" "cmp_Compare C b a = Some r'"
    using compare_total assms by meson
  with compare_swap [OF assms this] show ?thesis
    by (auto simp: key_le_def key_less_def sgn_if split: if_splits)
qed

lemma not_less: "valid a \<Longrightarrow> valid b \<Longrightarrow> \<not> key_less C a b \<longleftrightarrow> key_le C b a"
  using not_le by blast

lemma less_imp_le: "key_less C a b \<Longrightarrow> key_le C a b"
  by (auto simp: key_less_def key_le_def)

lemma less_irrefl: "valid a \<Longrightarrow> \<not> key_less C a a"
  by (simp add: not_less le_refl)

lemma le_less_trans: "valid a \<Longrightarrow> valid b \<Longrightarrow> valid c \<Longrightarrow> key_le C a b \<Longrightarrow> key_less C b c \<Longrightarrow> key_less C a c"
  using compare_trans [of c a b] not_le by blast

lemma less_le_trans: "valid a \<Longrightarrow> valid b \<Longrightarrow> valid c \<Longrightarrow> key_less C a b \<Longrightarrow> key_le C b c \<Longrightarrow> key_less C a c"
  using compare_trans [of b c a] not_le by blast

lemma less_trans: "valid a \<Longrightarrow> valid b \<Longrightarrow> valid c \<Longrightarrow> key_less C a b \<Longrightarrow> key_less C b c \<Longrightarrow> key_less C a c"
  using le_less_trans less_imp_le by blast

end

text \<open>The whole contract. The header asks nothing of a separator of two keys that are not ascending; that the key is then left
  alone is what both comparators of the repository do.\<close>

locale comparator = key_order +
  assumes separator: "valid a \<Longrightarrow> valid b \<Longrightarrow> key_less C a b \<Longrightarrow>
      \<exists>s. cmp_FindShortestSeparator C a b = Some s \<and> valid s \<and> key_le C a s \<and> key_less C s b"
    and no_separator: "valid a \<Longrightarrow> valid b \<Longrightarrow> \<not> key_less C a b \<Longrightarrow> cmp_FindShortestSeparator C a b = Some a"
    and successor: "valid a \<Longrightarrow> \<exists>s. cmp_FindShortSuccessor C a = Some s \<and> valid s \<and> key_le C a s"

section \<open>The bytewise comparator\<close>

text \<open>The first position at which two strings differ, or the length of the shorter one.\<close>

fun diff_index :: "byte list \<Rightarrow> byte list \<Rightarrow> nat" where
  "diff_index (a # start) (b # limit) = (if a = b then Suc (diff_index start limit) else 0)"
| "diff_index start limit = 0"

definition bytewise_Compare :: "byte list \<Rightarrow> byte list \<Rightarrow> int option" where
  "bytewise_Compare a b = slice_compare a b"

definition bytewise_FindShortestSeparator :: "byte list \<Rightarrow> byte list \<Rightarrow> byte list option" where
  "bytewise_FindShortestSeparator start limit = (
     let min_length = min (length start) (length limit); i = diff_index start limit in
     if min_length \<le> i then Some start
     else let diff_byte = start ! i in
       if diff_byte < 0xFF \<and> uint diff_byte + 1 < uint (limit ! i) then do {
         let start = take (i + 1) (start[i := start ! i + 1]);
         r \<leftarrow> bytewise_Compare start limit;
         if r < 0 then Some start else None }
       else Some start)"

fun bytewise_FindShortSuccessor :: "byte list \<Rightarrow> byte list" where
  "bytewise_FindShortSuccessor [] = []"
| "bytewise_FindShortSuccessor (byte # key) = (if byte \<noteq> 0xFF then [byte + 1] else byte # bytewise_FindShortSuccessor key)"

definition BytewiseComparator :: Comparator where
  "BytewiseComparator = \<lparr>cmp_Compare = bytewise_Compare,
     cmp_FindShortestSeparator = bytewise_FindShortestSeparator,
     cmp_FindShortSuccessor = (\<lambda>key. Some (bytewise_FindShortSuccessor key))\<rparr>"

lemma BytewiseComparator_ops [simp]:
  "cmp_Compare BytewiseComparator = slice_compare"
  "cmp_FindShortestSeparator BytewiseComparator = bytewise_FindShortestSeparator"
  "cmp_FindShortSuccessor BytewiseComparator key = Some (bytewise_FindShortSuccessor key)"
  by (simp_all add: BytewiseComparator_def bytewise_Compare_def fun_eq_iff)

lemma bytewise_order [simp]:
  "key_less BytewiseComparator a b \<longleftrightarrow> a < b" "key_le BytewiseComparator a b \<longleftrightarrow> a \<le> b"
  using slice_compare_lex [of a b]
  by (auto simp: key_less_def key_le_def le_less)

text \<open>Two strings around their first difference.\<close>

lemma diff_index_split:
  assumes "diff_index a b < min (length a) (length b)"
  obtains p x y a' b' where "a = p @ x # a'" "b = p @ y # b'" "x \<noteq> y" "diff_index a b = length p"
  using assms
proof (induction a b arbitrary: thesis rule: diff_index.induct)
  case (1 a start b limit)
  show ?case
  proof (cases "a = b")
    case True
    with "1.prems"(2) have lt: "diff_index start limit < min (length start) (length limit)" by simp
    obtain p x y a' b' where "start = p @ x # a'" "limit = p @ y # b'" "x \<noteq> y" "diff_index start limit = length p"
      by (rule "1.IH" [OF True _ lt])
    with True show ?thesis by (intro "1.prems"(1) [of "a # p" x a' y b']) simp_all
  qed (use "1.prems"(1) [of "[]"] in simp)
qed auto

lemma append_less_same: "p @ a < p @ b \<longleftrightarrow> a < (b :: byte list)"
  by (induction p) auto

lemma byte_succ: "(x :: byte) < 0xFF \<Longrightarrow> x < x + 1 \<and> uint (x + 1) = uint x + 1"
  by (simp add: word_less_def uint_word_ariths)

lemma bytewise_separator:
  "\<exists>s. bytewise_FindShortestSeparator a b = Some s \<and> a \<le> s \<and> (a < b \<longrightarrow> s < b) \<and> (\<not> a < b \<longrightarrow> s = a)"
proof (cases "diff_index a b < min (length a) (length b)")
  case True
  then obtain p x y a' b' where ab: "a = p @ x # a'" "b = p @ y # b'" "x \<noteq> y" "diff_index a b = length p"
    by (rule diff_index_split)
  show ?thesis
  proof (cases "x < 0xFF \<and> uint x + 1 < uint y")
    case sep: True
    then have x: "x < x + 1" "x + 1 < y" using byte_succ [of x] by (auto simp: word_less_def)
    then have "p @ [x + 1] < b" "a < p @ [x + 1]" "a < b"
      by (simp_all add: ab append_less_same)
    moreover obtain r where "slice_compare (p @ [x + 1]) b = Some r" "r < 0"
      using \<open>p @ [x + 1] < b\<close> slice_compare_lex by blast
    ultimately show ?thesis
      using True sep ab by (simp add: bytewise_FindShortestSeparator_def bytewise_Compare_def Let_def list_update_append)
  next
    case False
    with True ab show ?thesis by (auto simp: bytewise_FindShortestSeparator_def Let_def)
  qed
qed (simp add: bytewise_FindShortestSeparator_def Let_def linorder_not_less del: min_less_iff_conj)

lemma bytewise_successor: "key \<le> bytewise_FindShortSuccessor key"
proof (induction key rule: bytewise_FindShortSuccessor.induct)
  case (2 b key)
  have "b < b + 1" if "b \<noteq> 0xFF"
    using that byte_succ [of b] unat_lt [of b] by (simp add: word_less_nat_alt word_unat_eq_iff)
  with 2 show ?case by (auto simp: le_less)
qed simp

interpretation bytewise: comparator BytewiseComparator "\<lambda>_. True"
proof
  fix a b r r'
  show "sgn r' = - sgn r"
    if "cmp_Compare BytewiseComparator a b = Some r" "cmp_Compare BytewiseComparator b a = Some r'"
    using that slice_compare_lex [of a b] slice_compare_lex [of b a]
    by (auto simp: sgn_if)
next
  fix a b
  show "\<exists>s. cmp_FindShortestSeparator BytewiseComparator a b = Some s \<and> True \<and>
      key_le BytewiseComparator a s \<and> key_less BytewiseComparator s b" if "key_less BytewiseComparator a b"
    using that bytewise_separator [of a b] by auto
  show "cmp_FindShortestSeparator BytewiseComparator a b = Some a" if "\<not> key_less BytewiseComparator a b"
    using that bytewise_separator [of a b] by auto
next
  fix a b
  show "\<exists>r. cmp_Compare BytewiseComparator a b = Some r"
    using slice_compare_lex [of a b] by auto
next
  fix a
  show "\<exists>s. cmp_FindShortSuccessor BytewiseComparator a = Some s \<and> True \<and> key_le BytewiseComparator a s"
    using bytewise_successor [of a] by auto
qed auto

text \<open>What tables need beyond the contract: separators and successors are not longer than the keys they replace. The header only speaks
  of a short string; both comparators of the repository keep this.\<close>

locale short_comparator = comparator C valid for C and valid +
  assumes separator_length: "valid a \<Longrightarrow> valid b \<Longrightarrow> cmp_FindShortestSeparator C a b = Some s \<Longrightarrow> length s \<le> length a"
    and successor_length: "valid a \<Longrightarrow> cmp_FindShortSuccessor C a = Some s \<Longrightarrow> length s \<le> length a"

lemma bytewise_successor_length: "length (bytewise_FindShortSuccessor key) \<le> length key"
  by (induction key rule: bytewise_FindShortSuccessor.induct) auto

interpretation bytewise_short: short_comparator BytewiseComparator "\<lambda>_. True"
proof
  show "length s \<le> length a" if "cmp_FindShortestSeparator BytewiseComparator a b = Some s" for a b s
    using that by (auto simp: BytewiseComparator_def bytewise_FindShortestSeparator_def Let_def bind_Some_iff split: if_splits)
  show "length s \<le> length a" if "cmp_FindShortSuccessor BytewiseComparator a = Some s" for a s
    using that bytewise_successor_length [of a] by (auto simp: BytewiseComparator_def)
qed

section \<open>Properties\<close>

text \<open>The order of keys is the lexicographic order of their bytes: \<open>Slice::compare\<close> always
  returns, and its sign says which of the two strings is smaller.\<close>

theorem slice_compare_lexicographic:
  "\<exists>r. slice_compare a b = Some r \<and> (r < 0 \<longleftrightarrow> a < b) \<and> (r = 0 \<longleftrightarrow> a = b) \<and> (0 < r \<longleftrightarrow> b < a)"
  by (rule slice_compare_lex)

end
