(* ===== verification/Ldb_Logging.thy ===== *)
theory Ldb_Logging
  imports Ldb_Comparator
begin

text \<open>
  Numbers and names in text: \<open>util/logging.cc\<close> and the file names of \<open>db/filename.cc\<close>.

  \<open>snprintf\<close> is modelled for the formats the sources use: the output, cut to one byte less
  than the buffer. Reading a number is related to the value its digits denote, so that the
  overflow check is shown to be exact, and every name the database gives to a file is shown
  to be parsed back.
\<close>

section \<open>Text\<close>

definition ascii :: "string \<Rightarrow> byte list" where
  "ascii s = map of_char s"

definition snprintf :: "nat \<Rightarrow> byte list \<Rightarrow> byte list" where
  "snprintf bufsize out = take (bufsize - 1) out"

text \<open>\<open>%llu\<close>\<close>

fun decimal :: "nat \<Rightarrow> byte list" where
  "decimal n = (if n < 10 then [48 + of_nat n] else decimal (n div 10) @ [48 + of_nat (n mod 10)])"

declare decimal.simps [simp del]

text \<open>\<open>%06llu\<close>\<close>

definition decimal6 :: "nat \<Rightarrow> byte list" where
  "decimal6 n = replicate (6 - length (decimal n)) 48 @ decimal n"

text \<open>\<open>%02x\<close> of a byte\<close>

definition hex_digit :: "byte \<Rightarrow> byte" where
  "hex_digit d = (if d < 10 then 48 + d else 87 + d)"

definition hex2 :: "byte \<Rightarrow> byte list" where
  "hex2 b = [hex_digit (b div 16), hex_digit (b mod 16)]"

section \<open>logging.cc\<close>

definition AppendNumberTo :: "byte list \<Rightarrow> u64 \<Rightarrow> byte list" where
  "AppendNumberTo str num = str @ snprintf 30 (decimal (unat num))"

text \<open>\<open>char\<close> is signed: bytes above 127 are smaller than a blank.\<close>

fun AppendEscapedStringTo :: "byte list \<Rightarrow> byte list \<Rightarrow> byte list" where
  "AppendEscapedStringTo str [] = str"
| "AppendEscapedStringTo str (c # val) = (if 32 \<le> sint c \<and> sint c \<le> 126
     then AppendEscapedStringTo (str @ [c]) val
     else AppendEscapedStringTo (str @ snprintf 10 (92 # 120 # hex2 c)) val)"

definition NumberToString :: "u64 \<Rightarrow> byte list" where
  "NumberToString num = AppendNumberTo [] num"

definition EscapeString :: "byte list \<Rightarrow> byte list" where
  "EscapeString val = AppendEscapedStringTo [] val"

definition kMaxUint64 :: u64 where "kMaxUint64 = - 1"

definition kLastDigitOfMaxUint64 :: byte where
  "kLastDigitOfMaxUint64 = 48 + ucast (kMaxUint64 mod 10)"

text \<open>The loop: the value and the number of digits read, or overflow.\<close>

fun consume_digits :: "u64 \<Rightarrow> nat \<Rightarrow> byte list \<Rightarrow> (u64 \<times> nat) option" where
  "consume_digits val n [] = Some (val, n)"
| "consume_digits val n (ch # rest) = (if ch < 48 \<or> 57 < ch then Some (val, n)
     else if kMaxUint64 div 10 < val \<or> val = kMaxUint64 div 10 \<and> kLastDigitOfMaxUint64 < ch then None
     else consume_digits (val * 10 + (ucast ch - 48)) (Suc n) rest)"

text \<open>The result, what is stored in \<open>*val\<close> and the slice afterwards.\<close>

definition ConsumeDecimalNumber :: "byte list \<Rightarrow> bool \<times> u64 option \<times> byte list" where
  "ConsumeDecimalNumber input = (case consume_digits 0 0 input of
     None \<Rightarrow> (False, None, input)
   | Some (val, digits_consumed) \<Rightarrow> (digits_consumed \<noteq> 0, Some val, drop digits_consumed input))"

section \<open>filename.cc\<close>

datatype FileType = kLogFile | kDBLockFile | kTableFile | kDescriptorFile | kCurrentFile | kTempFile | kInfoLogFile

definition MakeFileName :: "byte list \<Rightarrow> u64 \<Rightarrow> byte list \<Rightarrow> byte list" where
  "MakeFileName dbname num suffix =
     dbname @ snprintf 100 (ascii ''/'' @ decimal6 (unat num) @ ascii ''.'' @ suffix)"

text \<open>The assertions \<open>number > 0\<close>.\<close>

definition positive_number :: "u64 \<Rightarrow> 'a \<Rightarrow> 'a option" where
  "positive_number num x = (if 0 < num then Some x else None)"

definition LogFileName :: "byte list \<Rightarrow> u64 \<Rightarrow> byte list option" where
  "LogFileName dbname num = positive_number num (MakeFileName dbname num (ascii ''log''))"

definition TableFileName :: "byte list \<Rightarrow> u64 \<Rightarrow> byte list option" where
  "TableFileName dbname num = positive_number num (MakeFileName dbname num (ascii ''ldb''))"

definition SSTTableFileName :: "byte list \<Rightarrow> u64 \<Rightarrow> byte list option" where
  "SSTTableFileName dbname num = positive_number num (MakeFileName dbname num (ascii ''sst''))"

definition DescriptorFileName :: "byte list \<Rightarrow> u64 \<Rightarrow> byte list option" where
  "DescriptorFileName dbname num =
     positive_number num (dbname @ snprintf 100 (ascii ''/MANIFEST-'' @ decimal6 (unat num)))"

definition CurrentFileName :: "byte list \<Rightarrow> byte list" where
  "CurrentFileName dbname = dbname @ ascii ''/CURRENT''"

definition LockFileName :: "byte list \<Rightarrow> byte list" where
  "LockFileName dbname = dbname @ ascii ''/LOCK''"

definition TempFileName :: "byte list \<Rightarrow> u64 \<Rightarrow> byte list option" where
  "TempFileName dbname num = positive_number num (MakeFileName dbname num (ascii ''dbtmp''))"

definition InfoLogFileName :: "byte list \<Rightarrow> byte list" where
  "InfoLogFileName dbname = dbname @ ascii ''/LOG''"

definition OldInfoLogFileName :: "byte list \<Rightarrow> byte list" where
  "OldInfoLogFileName dbname = dbname @ ascii ''/LOG.old''"

definition ParseFileName :: "byte list \<Rightarrow> (u64 \<times> FileType) option" where
  "ParseFileName filename = (let rest = filename in
     if slice_eq rest (ascii ''CURRENT'') then Some (0, kCurrentFile)
     else if slice_eq rest (ascii ''LOCK'') then Some (0, kDBLockFile)
     else if slice_eq rest (ascii ''LOG'') \<or> slice_eq rest (ascii ''LOG.old'') then Some (0, kInfoLogFile)
     else if starts_with rest (ascii ''MANIFEST-'') then
       (case ConsumeDecimalNumber (drop (length (ascii ''MANIFEST-'')) rest) of
          (True, Some num, rest) \<Rightarrow> if rest \<noteq> [] then None else Some (num, kDescriptorFile)
        | _ \<Rightarrow> None)
     else (case ConsumeDecimalNumber rest of
         (True, Some num, suffix) \<Rightarrow>
           if slice_eq suffix (ascii ''.log'') then Some (num, kLogFile)
           else if slice_eq suffix (ascii ''.sst'') \<or> slice_eq suffix (ascii ''.ldb'') then Some (num, kTableFile)
           else if slice_eq suffix (ascii ''.dbtmp'') then Some (num, kTempFile)
           else None
       | _ \<Rightarrow> None))"

section \<open>Decimal numbers\<close>

definition is_digit :: "byte \<Rightarrow> bool" where
  "is_digit ch \<longleftrightarrow> 48 \<le> ch \<and> ch \<le> 57"

definition decimal_value :: "byte list \<Rightarrow> nat" where
  "decimal_value ds = foldl (\<lambda>v d. v * 10 + (unat d - 48)) 0 ds"

text \<open>One round of the loop: the check lets exactly the values below \<open>2 ^ 64\<close> pass.\<close>

lemma overflow_check:
  fixes val :: u64 and ch :: byte
  assumes "is_digit ch"
  shows "kMaxUint64 div 10 < val \<or> val = kMaxUint64 div 10 \<and> kLastDigitOfMaxUint64 < ch \<longleftrightarrow>
      2 ^ 64 \<le> unat val * 10 + (unat ch - 48)"
    and "unat val * 10 + (unat ch - 48) < 2 ^ 64 \<Longrightarrow>
      unat (val * 10 + (ucast ch - 48)) = unat val * 10 + (unat ch - 48)"
proof -
  have ch: "48 \<le> unat ch" "unat ch \<le> 57" using assms by (auto simp: is_digit_def word_le_nat_alt)
  have m: "unat (kMaxUint64 div 10) = 1844674407370955161" "unat kLastDigitOfMaxUint64 = 53"
    by (simp_all add: kMaxUint64_def kLastDigitOfMaxUint64_def)
  show "kMaxUint64 div 10 < val \<or> val = kMaxUint64 div 10 \<and> kLastDigitOfMaxUint64 < ch \<longleftrightarrow>
      2 ^ 64 \<le> unat val * 10 + (unat ch - 48)"
    unfolding word_less_nat_alt word_unat_eq_iff m using ch by auto
  have "unat (ucast ch - 48 :: u64) = unat ch - 48"
    using ch by (subst word_sub_le_unat) (simp_all add: word_le_nat_alt unsigned_ucast_eq take_bit_nat_eq_self)
  then show "unat (val * 10 + (ucast ch - 48)) = unat val * 10 + (unat ch - 48)"
    if "unat val * 10 + (unat ch - 48) < 2 ^ 64"
    using that by (simp add: unat_word_ariths)
qed

lemma unat_u64_bound: "unat (w :: u64) < 18446744073709551616"
  using unat_lt [of w] by simp

lemma foldl_decimal_ge: "v \<le> foldl (\<lambda>v d. v * 10 + (unat d - 48)) v ds"
proof (induction ds arbitrary: v)
  case (Cons d ds)
  from Cons [of "v * 10 + (unat d - 48)"] show ?case by simp
qed simp

lemma consume_digits_exact:
  "consume_digits val n input = (let ds = takeWhile is_digit input;
      v = foldl (\<lambda>v d. v * 10 + (unat d - 48)) (unat val) ds in
    if v < 2 ^ 64 then Some (of_nat v, n + length ds) else None)"
proof (induction input arbitrary: val n)
  case (Cons ch input)
  show ?case
  proof (cases "is_digit ch")
    case True
    then have "\<not> (ch < 48 \<or> 57 < ch)" by (auto simp: is_digit_def)
    then show ?thesis
      using Cons.IH [of "val * 10 + (ucast ch - 48)" "Suc n"] True overflow_check [OF True, of val]
        foldl_decimal_ge [of "unat val * 10 + (unat ch - 48)" "takeWhile is_digit input"]
      by (auto simp: Let_def)
  next
    case False
    then have "ch < 48 \<or> 57 < ch" by (auto simp: is_digit_def)
    with False show ?thesis using unat_lt [of val] by (simp add: Let_def)
  qed
qed (simp add: Let_def unat_u64_bound)

lemma ConsumeDecimalNumber_exact:
  "ConsumeDecimalNumber input = (let ds = takeWhile is_digit input in
    if decimal_value ds < 2 ^ 64 then (ds \<noteq> [], Some (of_nat (decimal_value ds)), drop (length ds) input)
    else (False, None, input))"
  by (simp add: ConsumeDecimalNumber_def consume_digits_exact decimal_value_def Let_def)

lemma decimal_value_snoc [simp]:
  "decimal_value [] = 0" "decimal_value (ds @ [d]) = decimal_value ds * 10 + (unat d - 48)"
  by (simp_all add: decimal_value_def)

lemma digit_byte: "k < 10 \<Longrightarrow> unat (48 + of_nat k :: byte) = 48 + k"
  by (subst unat_add_small) (simp_all add: unat_of_nat_small)

lemma digit_byte_digit: "k < 10 \<Longrightarrow> is_digit (48 + of_nat k)"
  by (simp add: is_digit_def word_le_nat_alt digit_byte)

lemma decimal_value_decimal [simp]: "decimal_value (decimal n) = n"
proof (induction n rule: decimal.induct)
  case (1 n)
  then show ?case
    by (subst decimal.simps) (simp add: digit_byte decimal_value_def del: of_nat_mod)
qed

lemma decimal_digits: "d \<in> set (decimal n) \<Longrightarrow> is_digit d"
proof (induction n rule: decimal.induct)
  case (1 n)
  then show ?case
    by (subst (asm) (2) decimal.simps) (auto simp: digit_byte_digit split: if_splits simp del: of_nat_mod)
qed

lemma decimal_not_Nil [simp]: "decimal n \<noteq> []"
  by (subst decimal.simps) simp

lemma length_decimal: "n < 10 ^ k \<Longrightarrow> 0 < k \<Longrightarrow> length (decimal n) \<le> k"
proof (induction n arbitrary: k rule: decimal.induct)
  case (1 n)
  show ?case
  proof (cases "n < 10")
    case False
    then have "k \<noteq> 1" using "1.prems" by auto
    then obtain j where j: "k = Suc j" "0 < j" using "1.prems" by (cases k) auto
    then have "n div 10 < 10 ^ j" using "1.prems" by (simp add: div_less_iff_less_mult mult.commute)
    with "1.IH" [OF False this] j False show ?thesis by (subst decimal.simps) simp
  qed (use "1.prems" in \<open>subst decimal.simps, simp\<close>)
qed

lemma length_decimal_u64: "length (decimal (unat (num :: u64))) \<le> 20"
  using unat_lt [of num] by (intro length_decimal) simp_all

lemma decimal6_digits: "d \<in> set (decimal6 n) \<Longrightarrow> is_digit d"
  by (auto simp: decimal6_def is_digit_def decimal_digits dest: decimal_digits)

lemma decimal_value_zeros: "decimal_value (replicate k 48 @ ds) = decimal_value ds"
  by (induction k) (simp_all add: decimal_value_def)

lemma decimal_value_decimal6 [simp]: "decimal_value (decimal6 n) = n" "decimal6 n \<noteq> []"
  by (simp_all add: decimal6_def decimal_value_zeros)

lemma length_decimal6: "length (decimal6 (unat (num :: u64))) \<le> 20"
  using length_decimal_u64 [of num] by (simp add: decimal6_def)

lemma ConsumeDecimalNumber_digits:
  assumes "\<And>d. d \<in> set ds \<Longrightarrow> is_digit d" and "rest = [] \<or> \<not> is_digit (hd rest)"
    and "decimal_value ds = unat num" and "ds \<noteq> []"
  shows "ConsumeDecimalNumber (ds @ rest) = (True, Some num, rest)"
proof -
  have "takeWhile is_digit (ds @ rest) = ds" using assms(1,2) by (cases rest) auto
  then show ?thesis using assms(3,4) unat_lt [of num] by (simp add: ConsumeDecimalNumber_exact Let_def)
qed

lemma AppendNumberTo_eq: "AppendNumberTo str num = str @ decimal (unat num)"
  using length_decimal_u64 [of num] by (simp add: AppendNumberTo_def snprintf_def)

section \<open>File names\<close>

lemma MakeFileName_eq:
  "length suffix \<le> 50 \<Longrightarrow> MakeFileName dbname num suffix =
     dbname @ ascii ''/'' @ decimal6 (unat num) @ ascii ''.'' @ suffix"
  using length_decimal6 [of num] by (simp add: MakeFileName_def snprintf_def ascii_def)

lemma DescriptorFileName_eq:
  "0 < num \<Longrightarrow> DescriptorFileName dbname num = Some (dbname @ ascii ''/'' @ ascii ''MANIFEST-'' @ decimal6 (unat num))"
  using length_decimal6 [of num] by (simp add: DescriptorFileName_def positive_number_def snprintf_def ascii_def)

lemma hd_decimal6: "is_digit (hd (decimal6 n @ rest))"
  using decimal6_digits [of "hd (decimal6 n)" n] by simp

lemma not_starts_with: "is_digit (hd a) \<Longrightarrow> \<not> is_digit x \<Longrightarrow> \<not> starts_with a (x # xs)"
  "is_digit (hd a) \<Longrightarrow> \<not> is_digit x \<Longrightarrow> \<not> slice_eq a (x # xs)"
  by auto

lemma ParseFileName_number:
  assumes "suffix \<noteq> []" and "\<not> is_digit (hd suffix)"
  shows "ParseFileName (decimal6 (unat num) @ suffix) =
    (if suffix = ascii ''.log'' then Some (num, kLogFile)
     else if suffix = ascii ''.sst'' \<or> suffix = ascii ''.ldb'' then Some (num, kTableFile)
     else if suffix = ascii ''.dbtmp'' then Some (num, kTempFile) else None)"
proof -
  let ?name = "decimal6 (unat num) @ suffix"
  have "ConsumeDecimalNumber ?name = (True, Some num, suffix)"
    using assms decimal6_digits by (intro ConsumeDecimalNumber_digits) auto
  moreover have "\<not> is_digit (of_char CHR ''C'')" "\<not> is_digit (of_char CHR ''L'')" "\<not> is_digit (of_char CHR ''M'')"
    by (simp_all add: is_digit_def)
  then have "\<not> slice_eq ?name (ascii ''CURRENT'')" "\<not> slice_eq ?name (ascii ''LOCK'')" "\<not> slice_eq ?name (ascii ''LOG'')"
    "\<not> slice_eq ?name (ascii ''LOG.old'')" "\<not> starts_with ?name (ascii ''MANIFEST-'')"
    unfolding ascii_def list.map using not_starts_with [OF hd_decimal6 [of "unat num" suffix]] by blast+
  ultimately show ?thesis by (simp add: ParseFileName_def)
qed

lemma ParseFileName_descriptor: "ParseFileName (ascii ''MANIFEST-'' @ decimal6 (unat num)) = Some (num, kDescriptorFile)"
proof -
  have "ConsumeDecimalNumber (decimal6 (unat num) @ []) = (True, Some num, [])"
    by (rule ConsumeDecimalNumber_digits) (auto dest: decimal6_digits)
  moreover have "ascii ''MANIFEST-'' @ xs \<noteq> ascii ''CURRENT''" "ascii ''MANIFEST-'' @ xs \<noteq> ascii ''LOCK''"
    "ascii ''MANIFEST-'' @ xs \<noteq> ascii ''LOG''" "ascii ''MANIFEST-'' @ xs \<noteq> ascii ''LOG.old''" for xs
    by (simp_all add: ascii_def)
  ultimately show ?thesis by (simp add: ParseFileName_def)
qed

lemma ParseFileName_fixed:
  "ParseFileName (ascii ''CURRENT'') = Some (0, kCurrentFile)" "ParseFileName (ascii ''LOCK'') = Some (0, kDBLockFile)"
  "ParseFileName (ascii ''LOG'') = Some (0, kInfoLogFile)" "ParseFileName (ascii ''LOG.old'') = Some (0, kInfoLogFile)"
  by (simp_all add: ParseFileName_def ascii_def)

section \<open>Properties\<close>

text \<open>\<open>ConsumeDecimalNumber\<close> is exact: it reads the longest run of digits, accepts it if and
  only if there is a digit and the number they denote fits in 64 bits, and then stores this
  number and moves the slice behind the digits; on overflow nothing is consumed.\<close>

theorem consume_decimal_exact:
  "ConsumeDecimalNumber input = (let ds = takeWhile is_digit input in
    if decimal_value ds < 2 ^ 64 then (ds \<noteq> [], Some (of_nat (decimal_value ds)), drop (length ds) input)
    else (False, None, input))"
  by (rule ConsumeDecimalNumber_exact)

text \<open>C30. Every name the database gives to one of its files is recognised: behind the directory
  and a slash, \<open>ParseFileName\<close> finds the number and the type the name was made from.\<close>

theorem filename_roundtrip:
  assumes "0 < num"
  shows "(\<forall>(name, type) \<in> {(LogFileName, kLogFile), (TableFileName, kTableFile), (SSTTableFileName, kTableFile),
      (DescriptorFileName, kDescriptorFile), (TempFileName, kTempFile)}.
        \<exists>base. name dbname num = Some (dbname @ ascii ''/'' @ base) \<and> ParseFileName base = Some (num, type)) \<and>
    (\<forall>(name, type) \<in> {(CurrentFileName, kCurrentFile), (LockFileName, kDBLockFile), (InfoLogFileName, kInfoLogFile),
      (OldInfoLogFileName, kInfoLogFile)}.
        \<exists>base. name dbname = dbname @ ascii ''/'' @ base \<and> ParseFileName base = Some (0, type))"
proof -
  have num: "ParseFileName (decimal6 (unat num) @ ascii ''.log'') = Some (num, kLogFile)"
    "ParseFileName (decimal6 (unat num) @ ascii ''.ldb'') = Some (num, kTableFile)"
    "ParseFileName (decimal6 (unat num) @ ascii ''.sst'') = Some (num, kTableFile)"
    "ParseFileName (decimal6 (unat num) @ ascii ''.dbtmp'') = Some (num, kTempFile)"
    by (subst ParseFileName_number; simp add: ascii_def is_digit_def)+
  have join: "ascii ''.'' @ ascii s = ascii (CHR ''.'' # s)" for s by (simp add: ascii_def)
  have names: "MakeFileName dbname num (ascii s) = dbname @ ascii ''/'' @ decimal6 (unat num) @ ascii (CHR ''.'' # s)"
    if "length s \<le> 50" for s
    using that MakeFileName_eq [of "ascii s"] by (simp add: ascii_def)
  have fixed: "CurrentFileName dbname = dbname @ ascii ''/'' @ ascii ''CURRENT''" "LockFileName dbname = dbname @ ascii ''/'' @ ascii ''LOCK''"
    "InfoLogFileName dbname = dbname @ ascii ''/'' @ ascii ''LOG''" "OldInfoLogFileName dbname = dbname @ ascii ''/'' @ ascii ''LOG.old''"
    by (simp_all add: CurrentFileName_def LockFileName_def InfoLogFileName_def OldInfoLogFileName_def ascii_def)
  show ?thesis
    using assms num ParseFileName_descriptor ParseFileName_fixed
    by (simp add: LogFileName_def TableFileName_def SSTTableFileName_def TempFileName_def positive_number_def names
        DescriptorFileName_eq fixed)
qed

theorem filename_roundtrip_witness:
  "\<exists>base. TableFileName (ascii ''db'') 7 = Some (ascii ''db'' @ ascii ''/'' @ base) \<and> ParseFileName base = Some (7, kTableFile)"
  using filename_roundtrip [of 7 "ascii ''db''"] by simp

end
