(* ===== verification/Ldb_Dbformat.thy ===== *)
theory Ldb_Dbformat
  imports Ldb_Bloom Ldb_Logging
begin

text \<open>
  Internal keys, \<open>db/dbformat.h\<close> and \<open>db/dbformat.cc\<close>: a user key followed by a sequence
  number and a type packed into eight bytes; the comparator and the filter policy that
  adapt those of the user to internal keys; the key for a look-up.

  Both adaptors are shown to meet the contract they rely on: they map a comparator to a
  comparator and a filter policy to a filter policy.
\<close>

section \<open>Configuration\<close>

definition kNumLevels :: nat where "kNumLevels = 7"

definition kL0_CompactionTrigger :: nat where "kL0_CompactionTrigger = 4"

definition kL0_SlowdownWritesTrigger :: nat where "kL0_SlowdownWritesTrigger = 8"

definition kL0_StopWritesTrigger :: nat where "kL0_StopWritesTrigger = 12"

definition kMaxMemCompactLevel :: nat where "kMaxMemCompactLevel = 2"

definition kReadBytesPeriod :: nat where "kReadBytesPeriod = 1048576"

section \<open>Internal keys\<close>

datatype ValueType = kTypeDeletion | kTypeValue

definition ValueType_num :: "ValueType \<Rightarrow> u64" where
  "ValueType_num t = (case t of kTypeDeletion \<Rightarrow> 0 | kTypeValue \<Rightarrow> 1)"

definition kValueTypeForSeek :: ValueType where "kValueTypeForSeek = kTypeValue"

type_synonym SequenceNumber = u64

definition kMaxSequenceNumber :: SequenceNumber where "kMaxSequenceNumber = push_bit 56 1 - 1"

record ParsedInternalKey =
  pk_user_key :: "byte list"
  pk_sequence :: SequenceNumber
  pk_type :: ValueType

definition InternalKeyEncodingLength :: "ParsedInternalKey \<Rightarrow> nat" where
  "InternalKeyEncodingLength key = length (pk_user_key key) + 8"

definition PackSequenceAndType :: "u64 \<Rightarrow> ValueType \<Rightarrow> u64 option" where
  "PackSequenceAndType seq t = (if seq \<le> kMaxSequenceNumber \<and> ValueType_num t \<le> ValueType_num kValueTypeForSeek
     then Some (push_bit 8 seq OR ValueType_num t) else None)"

definition AppendInternalKey :: "byte list \<Rightarrow> ParsedInternalKey \<Rightarrow> byte list option" where
  "AppendInternalKey result key = do {
     let result = result @ pk_user_key key;
     packed \<leftarrow> PackSequenceAndType (pk_sequence key) (pk_type key);
     Some (PutFixed64 result packed) }"

definition ParseInternalKey :: "byte list \<Rightarrow> ParsedInternalKey option" where
  "ParseInternalKey internal_key = (let n = length internal_key in
     if n < 8 then None
     else do {
       num \<leftarrow> DecodeFixed64 (drop (n - 8) internal_key);
       let c = (ucast (num AND 0xFF) :: byte);
       if c \<le> 1 then Some \<lparr>pk_user_key = take (n - 8) internal_key, pk_sequence = drop_bit 8 num,
         pk_type = (if c = 0 then kTypeDeletion else kTypeValue)\<rparr>
       else None })"

definition ExtractUserKey :: "byte list \<Rightarrow> byte list option" where
  "ExtractUserKey internal_key = (if 8 \<le> length internal_key
     then Some (take (length internal_key - 8) internal_key) else None)"

definition ParsedInternalKey_DebugString :: "ParsedInternalKey \<Rightarrow> byte list" where
  "ParsedInternalKey_DebugString k = [39] @ EscapeString (pk_user_key k) @
     snprintf 50 (39 # ascii '' @ '' @ decimal (unat (pk_sequence k)) @ ascii '' : '' @
       decimal (unat (ValueType_num (pk_type k))))"

text \<open>The class \<open>InternalKey\<close> is its representation \<open>rep_\<close>; the empty string is invalid.\<close>

definition new_InternalKey :: "byte list \<Rightarrow> SequenceNumber \<Rightarrow> ValueType \<Rightarrow> byte list option" where
  "new_InternalKey user_key s t = AppendInternalKey [] \<lparr>pk_user_key = user_key, pk_sequence = s, pk_type = t\<rparr>"

definition InternalKey_DecodeFrom :: "byte list \<Rightarrow> byte list" where
  "InternalKey_DecodeFrom s = s"

definition InternalKey_Encode :: "byte list \<Rightarrow> byte list option" where
  "InternalKey_Encode rep = (if rep \<noteq> [] then Some rep else None)"

definition InternalKey_user_key :: "byte list \<Rightarrow> byte list option" where
  "InternalKey_user_key rep = ExtractUserKey rep"

definition InternalKey_DebugString :: "byte list \<Rightarrow> byte list" where
  "InternalKey_DebugString rep = (case ParseInternalKey rep of
     Some parsed \<Rightarrow> ParsedInternalKey_DebugString parsed
   | None \<Rightarrow> ascii ''(bad)'' @ EscapeString rep)"

section \<open>The comparator of internal keys\<close>

definition internal_Compare :: "Comparator \<Rightarrow> byte list \<Rightarrow> byte list \<Rightarrow> int option" where
  "internal_Compare user akey bkey = do {
     ua \<leftarrow> ExtractUserKey akey;
     ub \<leftarrow> ExtractUserKey bkey;
     r \<leftarrow> cmp_Compare user ua ub;
     if r = 0 then do {
       anum \<leftarrow> DecodeFixed64 (drop (length akey - 8) akey);
       bnum \<leftarrow> DecodeFixed64 (drop (length bkey - 8) bkey);
       Some (if bnum < anum then - 1 else if anum < bnum then 1 else r) }
     else Some r }"

definition internal_FindShortestSeparator :: "Comparator \<Rightarrow> byte list \<Rightarrow> byte list \<Rightarrow> byte list option" where
  "internal_FindShortestSeparator user start limit = do {
     user_start \<leftarrow> ExtractUserKey start;
     user_limit \<leftarrow> ExtractUserKey limit;
     tmp \<leftarrow> cmp_FindShortestSeparator user user_start user_limit;
     c \<leftarrow> (if length tmp < length user_start then cmp_Compare user user_start tmp else Some 0);
     if length tmp < length user_start \<and> c < 0 then do {
       packed \<leftarrow> PackSequenceAndType kMaxSequenceNumber kValueTypeForSeek;
       let tmp = PutFixed64 tmp packed;
       c1 \<leftarrow> internal_Compare user start tmp;
       c2 \<leftarrow> internal_Compare user tmp limit;
       if c1 < 0 \<and> c2 < 0 then Some tmp else None }
     else Some start }"

definition internal_FindShortSuccessor :: "Comparator \<Rightarrow> byte list \<Rightarrow> byte list option" where
  "internal_FindShortSuccessor user key = do {
     user_key \<leftarrow> ExtractUserKey key;
     tmp \<leftarrow> cmp_FindShortSuccessor user user_key;
     c \<leftarrow> (if length tmp < length user_key then cmp_Compare user user_key tmp else Some 0);
     if length tmp < length user_key \<and> c < 0 then do {
       packed \<leftarrow> PackSequenceAndType kMaxSequenceNumber kValueTypeForSeek;
       let tmp = PutFixed64 tmp packed;
       c1 \<leftarrow> internal_Compare user key tmp;
       if c1 < 0 then Some tmp else None }
     else Some key }"

definition InternalKeyComparator :: "Comparator \<Rightarrow> Comparator" where
  "InternalKeyComparator user = \<lparr>cmp_Compare = internal_Compare user,
     cmp_FindShortestSeparator = internal_FindShortestSeparator user,
     cmp_FindShortSuccessor = internal_FindShortSuccessor user\<rparr>"

section \<open>The filter policy of internal keys\<close>

primrec extract_user_keys :: "byte list list \<Rightarrow> byte list list option" where
  "extract_user_keys [] = Some []"
| "extract_user_keys (key # keys) = do {
     k \<leftarrow> ExtractUserKey key;
     ks \<leftarrow> extract_user_keys keys;
     Some (k # ks) }"

definition InternalFilterPolicy :: "FilterPolicy \<Rightarrow> FilterPolicy" where
  "InternalFilterPolicy user = \<lparr>
     fp_CreateFilter = (\<lambda>keys dst. do { keys \<leftarrow> extract_user_keys keys; fp_CreateFilter user keys dst }),
     fp_KeyMayMatch = (\<lambda>key f. do { k \<leftarrow> ExtractUserKey key; fp_KeyMayMatch user k f }),
     fp_Name = fp_Name user\<rparr>"

section \<open>Keys for a look-up\<close>

text \<open>The array and the positions of \<open>kstart_\<close> and \<open>end_\<close> in it. The array has \<open>usize + 13\<close>
  bytes, on the stack (200 bytes) when that is enough; a write beyond it is \<open>None\<close>.\<close>

record LookupKey =
  lk_array :: "byte list"
  lk_kstart :: nat

definition new_LookupKey :: "byte list \<Rightarrow> SequenceNumber \<Rightarrow> LookupKey option" where
  "new_LookupKey user_key s = do {
     let usize = length user_key;
     let needed = usize + 13;
     let room = (if needed \<le> 200 then 200 else needed);
     let klength = EncodeVarint32 (of_nat (usize + 8));
     packed \<leftarrow> PackSequenceAndType s kValueTypeForSeek;
     let array = klength @ user_key @ EncodeFixed64 packed;
     if length array \<le> room then Some \<lparr>lk_array = array, lk_kstart = length klength\<rparr> else None }"

definition memtable_key :: "LookupKey \<Rightarrow> byte list" where
  "memtable_key k = lk_array k"

definition lookup_internal_key :: "LookupKey \<Rightarrow> byte list" where
  "lookup_internal_key k = drop (lk_kstart k) (lk_array k)"

definition lookup_user_key :: "LookupKey \<Rightarrow> byte list" where
  "lookup_user_key k = (let ik = drop (lk_kstart k) (lk_array k) in take (length ik - 8) ik)"

section \<open>Encoding and decoding\<close>

text \<open>An internal key as its user key and the packed number.\<close>

abbreviation ikey :: "byte list \<Rightarrow> u64 \<Rightarrow> byte list" where
  "ikey u n \<equiv> u @ EncodeFixed64 n"

lemma ikey_cases:
  assumes "8 \<le> length k"
  obtains u n where "k = ikey u n"
proof
  let ?t = "drop (length k - 8) k"
  have "length ?t = 8" using assms by simp
  then have "EncodeFixed64 (le_word ?t) = ?t"
    using le_bytes_le_word [of ?t, where 'a = 64] by (simp add: EncodeFixed64_def kLittleEndian_def)
  then show "k = ikey (take (length k - 8) k) (le_word ?t)" by simp
qed

lemma ikey_parts [simp]:
  "ExtractUserKey (ikey u n) = Some u" "DecodeFixed64 (EncodeFixed64 n) = Some n"
  using DecodeFixed64_Encode [of n "[]"] by (simp_all add: ExtractUserKey_def)

lemma InternalKeyComparator_ops [simp]:
  "cmp_Compare (InternalKeyComparator U) = internal_Compare U"
  "cmp_FindShortestSeparator (InternalKeyComparator U) = internal_FindShortestSeparator U"
  "cmp_FindShortSuccessor (InternalKeyComparator U) = internal_FindShortSuccessor U"
  by (simp_all add: InternalKeyComparator_def)

lemma internal_Compare_ikey:
  "internal_Compare U (ikey u m) (ikey v n) = (case cmp_Compare U u v of None \<Rightarrow> None
     | Some r \<Rightarrow> Some (if r = 0 then (if n < m then - 1 else if m < n then 1 else 0) else r))"
  by (simp add: internal_Compare_def split: option.split)

lemma pack_seek: "PackSequenceAndType kMaxSequenceNumber kValueTypeForSeek = Some 0xFFFFFFFFFFFFFF01"
  by (simp add: PackSequenceAndType_def kMaxSequenceNumber_def ValueType_num_def kValueTypeForSeek_def)

definition internal_valid :: "(byte list \<Rightarrow> bool) \<Rightarrow> byte list \<Rightarrow> bool" where
  "internal_valid valid k \<longleftrightarrow> 8 \<le> length k \<and> valid (take (length k - 8) k)"

lemma internal_valid_ikey [simp]: "internal_valid valid (ikey u n) \<longleftrightarrow> valid u"
  by (simp add: internal_valid_def)

lemma internal_valid_iff: "internal_valid valid k \<longleftrightarrow> (\<exists>u n. k = ikey u n \<and> valid u)"
  using ikey_cases by (metis internal_valid_def internal_valid_ikey)

context comparator
begin

lemma internal_less:
  assumes "valid u" and "valid v"
  shows "key_less (InternalKeyComparator C) (ikey u m) (ikey v n) \<longleftrightarrow>
    key_less C u v \<or> key_le C u v \<and> n < m"
proof -
  obtain r where "cmp_Compare C u v = Some r" using compare_total assms by blast
  then show ?thesis by (auto simp: key_less_def key_le_def internal_Compare_ikey)
qed

lemma internal_le:
  assumes "valid u" and "valid v"
  shows "key_le (InternalKeyComparator C) (ikey u m) (ikey v n) \<longleftrightarrow>
    key_less C u v \<or> key_le C u v \<and> n \<le> m"
proof -
  obtain r where "cmp_Compare C u v = Some r" using compare_total assms by blast
  then show ?thesis by (auto simp: key_less_def key_le_def internal_Compare_ikey)
qed

lemma internal_separator:
  assumes "valid u" and "valid v" and "key_less C u v"
  shows "\<exists>s. internal_FindShortestSeparator C (ikey u m) (ikey v n) = Some s \<and> (s = ikey u m \<or>
    (\<exists>w. s = ikey w 0xFFFFFFFFFFFFFF01 \<and> valid w \<and> key_less C u w \<and> key_less C w v))"
proof -
  obtain w where w: "cmp_FindShortestSeparator C u v = Some w" "valid w" "key_le C u w" "key_less C w v"
    using separator assms by blast
  obtain r where r: "cmp_Compare C u w = Some r" using compare_total assms(1) w(2) by blast
  obtain q where q: "cmp_Compare C w v = Some q" "q < 0" using w(4) by (auto simp: key_less_def)
  show ?thesis
    using w r q
    by (auto simp: internal_FindShortestSeparator_def PutFixed64_def pack_seek internal_Compare_ikey key_less_def)
qed

lemma internal_no_separator:
  assumes "valid u" and "valid v" and "\<not> key_less C u v"
  shows "internal_FindShortestSeparator C (ikey u m) (ikey v n) = Some (ikey u m)"
  using no_separator [OF assms] by (simp add: internal_FindShortestSeparator_def)

lemma internal_successor:
  assumes "valid u"
  shows "\<exists>s. internal_FindShortSuccessor C (ikey u m) = Some s \<and> (s = ikey u m \<or>
    (\<exists>w. s = ikey w 0xFFFFFFFFFFFFFF01 \<and> valid w \<and> key_less C u w))"
proof -
  obtain w where w: "cmp_FindShortSuccessor C u = Some w" "valid w" "key_le C u w"
    using successor assms by blast
  obtain r where r: "cmp_Compare C u w = Some r" using compare_total assms(1) w(2) by blast
  show ?thesis
    using w r
    by (auto simp: internal_FindShortSuccessor_def PutFixed64_def pack_seek internal_Compare_ikey key_less_def)
qed

lemma internal_comparator: "comparator (InternalKeyComparator C) (internal_valid valid)"
proof
  fix a b assume "internal_valid valid a" "internal_valid valid b"
  then obtain u m v n where ab: "a = ikey u m" "valid u" "b = ikey v n" "valid v"
    unfolding internal_valid_iff by blast
  obtain r r' where r: "cmp_Compare C u v = Some r" "cmp_Compare C v u = Some r'"
    using compare_total ab by meson
  then have sgn: "sgn r' = - sgn r" using compare_swap ab by blast
  show "\<exists>r. cmp_Compare (InternalKeyComparator C) a b = Some r"
    by (simp add: ab internal_Compare_ikey r)
  show "sgn q' = - sgn q" if "cmp_Compare (InternalKeyComparator C) a b = Some q"
    "cmp_Compare (InternalKeyComparator C) b a = Some q'" for q q'
    using that r sgn by (auto simp: ab internal_Compare_ikey sgn_if split: if_splits)
  show "\<exists>s. cmp_FindShortestSeparator (InternalKeyComparator C) a b = Some s \<and> internal_valid valid s \<and>
      key_le (InternalKeyComparator C) a s \<and> key_less (InternalKeyComparator C) s b"
    if less: "key_less (InternalKeyComparator C) a b"
  proof (cases "key_less C u v")
    case True
    from internal_separator [OF ab(2,4) this, of m n] show ?thesis
      using ab less le_refl by (fastforce simp: internal_less internal_le)
  next
    case False
    with internal_no_separator [OF ab(2,4) this, of m n] show ?thesis
      using ab less le_refl by (simp add: internal_le)
  qed
  show "cmp_FindShortestSeparator (InternalKeyComparator C) a b = Some a"
    if "\<not> key_less (InternalKeyComparator C) a b"
    using that internal_no_separator [OF ab(2,4)] by (simp add: ab internal_less)
next
  fix a b c assume "internal_valid valid a" "internal_valid valid b" "internal_valid valid c"
  then obtain u m v n w k where abc: "a = ikey u m" "valid u" "b = ikey v n" "valid v" "c = ikey w k" "valid w"
    unfolding internal_valid_iff by blast
  assume "key_le (InternalKeyComparator C) a b" "key_le (InternalKeyComparator C) b c"
  then have "key_less C u v \<or> key_le C u v \<and> n \<le> m" "key_less C v w \<or> key_le C v w \<and> k \<le> n"
    using abc by (simp_all add: internal_le)
  then have "key_less C u w \<or> key_le C u w \<and> k \<le> m"
    using le_less_trans [OF abc(2,4,6)] less_le_trans [OF abc(2,4,6)] less_trans [OF abc(2,4,6)]
      compare_trans [OF abc(2,4,6)] order_trans [of k n m] by blast
  then show "key_le (InternalKeyComparator C) a c" using abc by (simp add: internal_le)
next
  fix a assume "internal_valid valid a"
  then obtain u m where a: "a = ikey u m" "valid u" unfolding internal_valid_iff by blast
  from internal_successor [OF a(2), of m]
  show "\<exists>s. cmp_FindShortSuccessor (InternalKeyComparator C) a = Some s \<and> internal_valid valid s \<and>
      key_le (InternalKeyComparator C) a s"
    using a le_refl by (fastforce simp: internal_le)
qed

end

interpretation internal: comparator "InternalKeyComparator BytewiseComparator" "internal_valid (\<lambda>_. True)"
  by (rule bytewise.internal_comparator)

interpretation internal_short: short_comparator "InternalKeyComparator BytewiseComparator" "internal_valid (\<lambda>_. True)"
proof
  fix a b s assume a: "internal_valid (\<lambda>_. True) a"
  then have n: "8 \<le> length a" by (simp add: internal_valid_def)
  show "length s \<le> length a" if "cmp_FindShortestSeparator (InternalKeyComparator BytewiseComparator) a b = Some s"
    using that n by (auto simp: InternalKeyComparator_def internal_FindShortestSeparator_def ExtractUserKey_def bind_Some_iff PutFixed64_def
        Let_def split: if_splits)
  show "length s \<le> length a" if "cmp_FindShortSuccessor (InternalKeyComparator BytewiseComparator) a = Some s"
    using that n by (auto simp: InternalKeyComparator_def internal_FindShortSuccessor_def ExtractUserKey_def bind_Some_iff PutFixed64_def
        Let_def split: if_splits)
qed

section \<open>The filter policy adaptor\<close>

lemma extract_user_keys_map:
  "(\<And>k. k \<in> set keys \<Longrightarrow> 8 \<le> length k) \<Longrightarrow>
    extract_user_keys keys = Some (map (\<lambda>k. take (length k - 8) k) keys)"
  by (induction keys) (simp_all add: ExtractUserKey_def)

definition internal_fits :: "(byte list list \<Rightarrow> bool) \<Rightarrow> byte list list \<Rightarrow> bool" where
  "internal_fits fits keys \<longleftrightarrow> (\<forall>k \<in> set keys. 8 \<le> length k) \<and> fits (map (\<lambda>k. take (length k - 8) k) keys)"

context filter_policy
begin

lemma internal_policy: "filter_policy (InternalFilterPolicy P) (internal_fits fits)"
proof
  fix keys assume fit: "internal_fits fits keys"
  let ?us = "map (\<lambda>k. take (length k - 8) k) keys"
  have us: "extract_user_keys keys = Some ?us" "fits ?us"
    using fit by (auto simp: internal_fits_def extract_user_keys_map)
  then show "\<exists>f. \<forall>dst. fp_CreateFilter (InternalFilterPolicy P) keys dst = Some (dst @ f)"
    using create_appends by (simp add: InternalFilterPolicy_def)
  show "fp_KeyMayMatch (InternalFilterPolicy P) key f = Some True"
    if "fp_CreateFilter (InternalFilterPolicy P) keys [] = Some f" "key \<in> set keys" for f key
    using that us fit create_matches [OF us(2), of f]
    by (auto simp: InternalFilterPolicy_def ExtractUserKey_def internal_fits_def)
next
  fix before keys after assume "internal_fits fits (before @ keys @ after)"
  then show "internal_fits fits keys" using fits_part by (auto simp: internal_fits_def)
qed

end

context sized_filter_policy
begin

lemma internal_sized: "sized_filter_policy (InternalFilterPolicy P) (internal_fits fits) (internal_valid valid) w"
proof (intro sized_filter_policy.intro sized_filter_policy_axioms.intro)
  show "filter_policy (InternalFilterPolicy P) (internal_fits fits)" by (rule internal_policy)
next
  fix keys f assume k: "internal_fits fits keys" "fp_CreateFilter (InternalFilterPolicy P) keys [] = Some f"
  let ?us = "map (\<lambda>k. take (length k - 8) k) keys"
  have us: "fits ?us" "fp_CreateFilter P ?us [] = Some f"
    using k by (auto simp: internal_fits_def InternalFilterPolicy_def extract_user_keys_map)
  show "length f \<le> w * Suc (length keys)" using create_length [OF us] by simp
  show "\<exists>b. fp_KeyMayMatch (InternalFilterPolicy P) key f = Some b" if "internal_valid valid key" "length f < 2 ^ 32" for key
    using that match_total [OF _ us] by (simp add: InternalFilterPolicy_def ExtractUserKey_def internal_valid_def)
qed

end

interpretation internal_bloom: filter_policy "InternalFilterPolicy (BloomPolicy (NewBloomFilterPolicy b product))"
  "internal_fits (bloom_fits (NewBloomFilterPolicy b product))"
  by (rule bloom.internal_policy)

section \<open>Packing and parsing\<close>

lemma seq_bound: "seq \<le> kMaxSequenceNumber \<longleftrightarrow> unat seq < 2 ^ 56"
  by (simp add: kMaxSequenceNumber_def word_le_nat_alt) linarith

lemma PackSequenceAndType_eq:
  "PackSequenceAndType seq t = (if unat seq < 2 ^ 56 then Some (push_bit 8 seq OR ValueType_num t) else None)"
  by (cases t) (simp_all add: PackSequenceAndType_def seq_bound ValueType_num_def kValueTypeForSeek_def)

lemma pack_parts:
  assumes "unat seq < 2 ^ 56"
  shows "drop_bit 8 (push_bit 8 seq OR ValueType_num t) = seq"
    and "ucast ((push_bit 8 seq OR ValueType_num t) AND 0xFF) = (ucast (ValueType_num t) :: byte)"
proof -
  have high: "n < 56" if "bit seq n" for n using bit_small [OF assms that] .
  have low: "\<not> bit (ValueType_num t) (8 + n)" for n
    by (cases t) (auto simp: ValueType_num_def bit_1_iff)
  show "drop_bit 8 (push_bit 8 seq OR ValueType_num t) = seq"
    by (rule bit_word_eqI) (auto simp: bit_simps low dest: high)
  show "ucast ((push_bit 8 seq OR ValueType_num t) AND 0xFF) = (ucast (ValueType_num t) :: byte)"
    unfolding ucast_and_0xFF by (rule bit_word_eqI) (auto simp: bit_simps)
qed

lemma packed_unat:
  assumes "unat seq < 2 ^ 56"
  shows "unat (push_bit 8 seq OR ValueType_num t) = 256 * unat seq + (if t = kTypeDeletion then 0 else 1)"
proof -
  have "push_bit 8 seq AND ValueType_num t = 0"
    by (rule bit_word_eqI) (auto simp: bit_simps ValueType_num_def bit_1_iff split: ValueType.splits)
  then have "push_bit 8 seq OR ValueType_num t = push_bit 8 seq + ValueType_num t"
    by (rule disjunctive_add_eq_or [symmetric])
  then show ?thesis
    using assms by (cases t) (simp_all add: push_bit_eq_mult unat_word_ariths ValueType_num_def)
qed

lemma ParseInternalKey_ikey:
  "ParseInternalKey (ikey u n) = (let c = (ucast (n AND 0xFF) :: byte) in
     if c \<le> 1 then Some \<lparr>pk_user_key = u, pk_sequence = drop_bit 8 n,
       pk_type = (if c = 0 then kTypeDeletion else kTypeValue)\<rparr> else None)"
  by (simp add: ParseInternalKey_def Let_def)

lemma Parse_Append:
  assumes "pk_sequence k \<le> kMaxSequenceNumber"
  shows "\<exists>s. AppendInternalKey result k = Some (result @ s) \<and> ParseInternalKey s = Some k"
proof -
  have "unat (pk_sequence k) < 2 ^ 56" using assms by (simp add: seq_bound)
  then show ?thesis
    using pack_parts [of "pk_sequence k" "pk_type k"]
    by (cases k; cases "pk_type k")
      (simp_all add: AppendInternalKey_def PackSequenceAndType_eq PutFixed64_def ParseInternalKey_ikey ValueType_num_def)
qed

lemma Append_Parse:
  assumes "ParseInternalKey s = Some k"
  shows "AppendInternalKey [] k = Some s \<and> pk_sequence k \<le> kMaxSequenceNumber"
proof -
  obtain u n where s: "s = ikey u n"
    using assms ikey_cases [of s] by (force simp: ParseInternalKey_def Let_def split: if_splits)
  let ?c = "ucast (n AND 0xFF) :: byte"
  have c: "?c \<le> 1" and k: "k = \<lparr>pk_user_key = u, pk_sequence = drop_bit 8 n,
      pk_type = (if ?c = 0 then kTypeDeletion else kTypeValue)\<rparr>"
    using assms by (auto simp: s ParseInternalKey_ikey Let_def split: if_splits)
  have "unat (drop_bit 8 n) < 2 ^ 56" using unat_lt [of n] by (simp add: drop_bit_eq_div unat_div)
  moreover have "push_bit 8 (drop_bit 8 n) OR ValueType_num (pk_type k) = n"
  proof -
    have c01: "?c = 0 \<or> ?c = 1" using c by (auto simp: word_le_nat_alt le_Suc_eq word_unat_eq_iff)
    then have "ValueType_num (pk_type k) = ucast ?c" by (auto simp: k ValueType_num_def)
    also have "\<dots> = take_bit 8 n"
      by (rule bit_word_eqI) (auto simp: ucast_and_0xFF bit_simps)
    finally show ?thesis by (simp, intro bit_word_eqI) (auto simp: bit_simps)
  qed
  ultimately show ?thesis by (simp add: AppendInternalKey_def PackSequenceAndType_eq PutFixed64_def k s seq_bound)
qed

section \<open>Properties\<close>

text \<open>C28. Internal keys round trip, in both directions: what \<open>AppendInternalKey\<close> appends is parsed
  back, and a string that \<open>ParseInternalKey\<close> accepts is the encoding of what it returns, so
  every key has one encoding only.\<close>

theorem internal_key_roundtrip:
  "(pk_sequence k \<le> kMaxSequenceNumber \<longrightarrow>
     (\<exists>s. AppendInternalKey result k = Some (result @ s) \<and> ParseInternalKey s = Some k)) \<and>
   (ParseInternalKey s = Some k \<longrightarrow> AppendInternalKey [] k = Some s)"
  using Parse_Append Append_Parse by blast

theorem internal_key_roundtrip_witness:
  "\<exists>s. AppendInternalKey [9] \<lparr>pk_user_key = [97], pk_sequence = 5, pk_type = kTypeValue\<rparr> = Some ([9] @ s) \<and>
     ParseInternalKey s = Some \<lparr>pk_user_key = [97], pk_sequence = 5, pk_type = kTypeValue\<rparr>"
  using internal_key_roundtrip [of "\<lparr>pk_user_key = [97], pk_sequence = 5, pk_type = kTypeValue\<rparr>" "[9]" "[]"]
  by (simp add: kMaxSequenceNumber_def)

text \<open>The internal order: user keys ascend, and among the entries for one user key the newer
  comes first, a value before a deletion with the same number.\<close>

theorem internal_key_order:
  assumes "ParseInternalKey a = Some ka" and "ParseInternalKey b = Some kb"
  shows "key_less (InternalKeyComparator BytewiseComparator) a b \<longleftrightarrow>
    pk_user_key ka < pk_user_key kb \<or>
    pk_user_key ka = pk_user_key kb \<and> (pk_sequence kb < pk_sequence ka \<or>
      pk_sequence kb = pk_sequence ka \<and> pk_type kb = kTypeDeletion \<and> pk_type ka = kTypeValue)"
proof -
  define pack where "pack k = push_bit 8 (pk_sequence k) OR ValueType_num (pk_type k)" for k :: ParsedInternalKey
  have enc: "s = ikey (pk_user_key k) (pack k) \<and> unat (pk_sequence k) < 2 ^ 56" if "ParseInternalKey s = Some k" for s k
    using Append_Parse [OF that]
    by (simp add: AppendInternalKey_def PackSequenceAndType_eq PutFixed64_def pack_def seq_bound split: if_splits)
  have unat: "unat (pack k) = 256 * unat (pk_sequence k) + (if pk_type k = kTypeDeletion then 0 else 1)"
    if "unat (pk_sequence k) < 2 ^ 56" for k
    using packed_unat [OF that] by (simp add: pack_def)
  show ?thesis
    using enc [OF assms(1)] enc [OF assms(2)] unat [of ka] unat [of kb]
      bytewise.internal_less [where u = "pk_user_key ka" and v = "pk_user_key kb" and m = "pack ka" and n = "pack kb"]
    by (cases "pk_type ka"; cases "pk_type kb") (auto simp: word_less_nat_alt word_unat_eq_iff le_less)
qed

text \<open>C27. The separators of the index blocks are sound on internal keys: for every pair of keys
  that are in order, \<open>FindShortestSeparator\<close> returns (no assertion fails) a key that is not
  below the first and strictly below the second, and \<open>FindShortSuccessor\<close> one that is not
  below its argument.\<close>

theorem internal_separators:
  assumes "8 \<le> length a" and "8 \<le> length b" and "key_less (InternalKeyComparator BytewiseComparator) a b"
  shows "(\<exists>s. internal_FindShortestSeparator BytewiseComparator a b = Some s \<and> 8 \<le> length s \<and>
      key_le (InternalKeyComparator BytewiseComparator) a s \<and>
      key_less (InternalKeyComparator BytewiseComparator) s b) \<and>
    (\<exists>s. internal_FindShortSuccessor BytewiseComparator a = Some s \<and> 8 \<le> length s \<and>
      key_le (InternalKeyComparator BytewiseComparator) a s)"
  using internal.separator [of a b] internal.successor [of a] assms by (auto simp: internal_valid_def)

text \<open>C29. Building a \<open>LookupKey\<close> stays inside the array of \<open>usize + 13\<close> bytes, and its parts
  are what they are called: the user key, the internal key that no entry for this user key
  with this sequence number or an older one precedes, and its length-prefixed form.\<close>

theorem lookup_key_parts:
  assumes "length user_key + 8 < 2 ^ 32" and "s \<le> kMaxSequenceNumber"
  shows "\<exists>k. new_LookupKey user_key s = Some k \<and> lookup_user_key k = user_key \<and>
    ParseInternalKey (lookup_internal_key k) = Some \<lparr>pk_user_key = user_key, pk_sequence = s, pk_type = kTypeValue\<rparr> \<and>
    GetLengthPrefixedSlice (memtable_key k) = (Some (lookup_internal_key k), [])"
proof -
  let ?p = "push_bit 8 s OR 1"
  have s: "unat s < 2 ^ 56" using assms(2) by (simp add: seq_bound)
  then have pack: "PackSequenceAndType s kValueTypeForSeek = Some ?p"
    by (simp add: PackSequenceAndType_eq kValueTypeForSeek_def ValueType_num_def)
  have len: "length (EncodeVarint32 (of_nat (length user_key + 8))) \<le> 5"
    by (rule length_EncodeVarint32)
  have parse: "ParseInternalKey (ikey user_key ?p) = Some \<lparr>pk_user_key = user_key, pk_sequence = s, pk_type = kTypeValue\<rparr>"
    using pack_parts [OF s, of kTypeValue] by (simp add: ParseInternalKey_ikey ValueType_num_def)
  have "GetLengthPrefixedSlice (EncodeVarint32 (of_nat (length user_key + 8)) @ ikey user_key ?p) =
      (Some (ikey user_key ?p), [])"
    using GetLengthPrefixedSlice_Put [of "ikey user_key ?p" "[]"] assms(1) by (simp add: EncodeVarint32_leb128)
  with pack len parse show ?thesis
    by (simp add: new_LookupKey_def Let_def lookup_user_key_def lookup_internal_key_def memtable_key_def)
qed

theorem lookup_key_parts_witness:
  "\<exists>k. new_LookupKey [97, 98] 5 = Some k \<and> lookup_user_key k = [97, 98]"
  using lookup_key_parts [of "[97, 98]" 5] by (auto simp: kMaxSequenceNumber_def)

theorem internal_separators_witness:
  "\<exists>s. internal_FindShortestSeparator BytewiseComparator [97, 120, 120, 1, 7, 0, 0, 0, 0, 0, 0]
      [99, 1, 7, 0, 0, 0, 0, 0, 0] = Some s"
  using internal_separators [of "[97, 120, 120, 1, 7, 0, 0, 0, 0, 0, 0]" "[99, 1, 7, 0, 0, 0, 0, 0, 0]"]
  by (auto simp: key_less_def internal_Compare_def ExtractUserKey_def slice_compare_def numeral_3_eq_3)

theorem internal_key_order_witness:
  "key_less (InternalKeyComparator BytewiseComparator) [97, 1, 7, 0, 0, 0, 0, 0, 0] [97, 1, 6, 0, 0, 0, 0, 0, 0]"
  using internal_key_order [of "[97, 1, 7, 0, 0, 0, 0, 0, 0]" "\<lparr>pk_user_key = [97], pk_sequence = 7, pk_type = kTypeValue\<rparr>"
      "[97, 1, 6, 0, 0, 0, 0, 0, 0]" "\<lparr>pk_user_key = [97], pk_sequence = 6, pk_type = kTypeValue\<rparr>"]
  by (simp add: ParseInternalKey_def DecodeFixed64_def kLittleEndian_def)

end
