(* ===== verification/Ldb_Status.thy ===== *)
theory Ldb_Status
  imports Ldb_Logging
begin

text \<open>
  The result type of leveldb, \<open>include/leveldb/status.h\<close> and \<open>util/status.cc\<close>.

  The components use the datatype \<open>Status\<close>. The class keeps a status as one heap array, the
  length and the code in front of the message; the second part of the theory models this
  representation and shows that it stands for the datatype.
\<close>

datatype Status = OK | NotFound "byte list" | Corruption "byte list" | NotSupported "byte list"
  | InvalidArgument "byte list" | IOError "byte list"

definition ok :: "Status \<Rightarrow> bool" where
  "ok s \<longleftrightarrow> s = OK"

lemma ok_simps [simp]:
  "ok OK" "\<not> ok (NotFound m)" "\<not> ok (Corruption m)" "\<not> ok (NotSupported m)" "\<not> ok (InvalidArgument m)"
  "\<not> ok (IOError m)"
  by (simp_all add: ok_def)

text \<open>The constructors take two parts of a message.\<close>

definition join_msg :: "byte list \<Rightarrow> byte list \<Rightarrow> byte list" where
  "join_msg msg msg2 = msg @ (if msg2 = [] then [] else [58, 32] @ msg2)"

section \<open>The representation\<close>

datatype Code = kOk | kNotFound | kCorruption | kNotSupported | kInvalidArgument | kIOError

definition Code_num :: "Code \<Rightarrow> byte" where
  "Code_num c = (case c of kOk \<Rightarrow> 0 | kNotFound \<Rightarrow> 1 | kCorruption \<Rightarrow> 2 | kNotSupported \<Rightarrow> 3
     | kInvalidArgument \<Rightarrow> 4 | kIOError \<Rightarrow> 5)"

text \<open>\<open>None\<close> is the null pointer of a success. The array is allocated with a 32-bit size; a
  message that does not fit into it is written beyond the array, which is undefined.\<close>

type_synonym status_state = "byte list option"

definition new_Status :: "Code \<Rightarrow> byte list \<Rightarrow> byte list \<Rightarrow> status_state option" where
  "new_Status code msg msg2 = (if code = kOk then None else
     let len1 = of_nat (length msg) :: u32; len2 = of_nat (length msg2) :: u32;
         sz = len1 + (if len2 \<noteq> 0 then 2 + len2 else 0);
         data = le_bytes 4 sz @ [Code_num code] @ take (unat len1) msg @
           (if len2 \<noteq> 0 then [58, 32] @ take (unat len2) msg2 else []) in
     if length data = unat (sz + 5) then Some (Some data) else None)"

definition status_ok :: "status_state \<Rightarrow> bool" where
  "status_ok st \<longleftrightarrow> st = None"

definition status_code :: "status_state \<Rightarrow> byte" where
  "status_code st = (case st of None \<Rightarrow> Code_num kOk | Some a \<Rightarrow> a ! 4)"

definition CopyState :: "byte list \<Rightarrow> byte list option" where
  "CopyState state = (let sz = le_word (take 4 state) :: u32 in
     if unat (sz + 5) \<le> length state then Some (take (unat (sz + 5)) state) else None)"

definition code_text :: "byte \<Rightarrow> byte list" where
  "code_text c = (if c = 0 then ascii ''OK'' else if c = 1 then ascii ''NotFound: ''
     else if c = 2 then ascii ''Corruption: '' else if c = 3 then ascii ''Not implemented: ''
     else if c = 4 then ascii ''Invalid argument: '' else if c = 5 then ascii ''IO error: ''
     else snprintf 30 (ascii ''Unknown code('' @ decimal (unat c) @ ascii ''): ''))"

definition status_ToString :: "status_state \<Rightarrow> byte list option" where
  "status_ToString st = (case st of None \<Rightarrow> Some (ascii ''OK'')
   | Some a \<Rightarrow> (let len = unat (le_word (take 4 a) :: u32) in
       if 5 + len \<le> length a then Some (code_text (a ! 4) @ take len (drop 5 a)) else None))"

text \<open>The array for a status of the datatype.\<close>

definition status_array :: "Code \<Rightarrow> byte list \<Rightarrow> byte list" where
  "status_array code m = le_bytes 4 (of_nat (length m) :: u32) @ [Code_num code] @ m"

fun status_rep :: "Status \<Rightarrow> status_state" where
  "status_rep OK = None"
| "status_rep (NotFound m) = Some (status_array kNotFound m)"
| "status_rep (Corruption m) = Some (status_array kCorruption m)"
| "status_rep (NotSupported m) = Some (status_array kNotSupported m)"
| "status_rep (InvalidArgument m) = Some (status_array kInvalidArgument m)"
| "status_rep (IOError m) = Some (status_array kIOError m)"

lemma new_Status_array:
  assumes "code \<noteq> kOk" and "length msg + length msg2 + 7 < 2 ^ 32"
  shows "new_Status code msg msg2 = Some (Some (status_array code (join_msg msg msg2)))"
proof -
  have l: "unat (of_nat (length msg) :: u32) = length msg" "unat (of_nat (length msg2) :: u32) = length msg2"
    using assms(2) by (simp_all add: unat_of_nat_small)
  then have z: "of_nat (length msg2) = (0 :: u32) \<longleftrightarrow> msg2 = []"
    using unat_eq_zero [of "of_nat (length msg2) :: u32"] by simp
  have sz: "of_nat (length msg) + (if of_nat (length msg2) \<noteq> (0 :: u32) then 2 + of_nat (length msg2) else 0) =
      (of_nat (length (join_msg msg msg2)) :: u32)"
    using z by (simp add: join_msg_def)
  have "unat (of_nat (length (join_msg msg msg2)) + 5 :: u32) = length (join_msg msg msg2) + 5"
    using assms(2) unat_of_nat_small [of "length (join_msg msg msg2) + 5", where 'a = 32] by (simp add: join_msg_def)
  then show ?thesis
    using assms(1) z sz l by (simp add: new_Status_def status_array_def Let_def) (simp add: join_msg_def)
qed

lemma status_array_length: "length m + 5 < 2 ^ 32 \<Longrightarrow> unat (le_word (take 4 (status_array c m)) :: u32) = length m"
  by (simp add: status_array_def unat_of_nat_small)

lemma status_array_parts [simp]: "status_array c m ! 4 = Code_num c" "length (status_array c m) = length m + 5"
  "drop 5 (status_array c m) = m"
  by (simp_all add: status_array_def nth_append)

section \<open>Properties\<close>

text \<open>The heap representation of a status stands for the status: an error made from two
  messages is the array of the joined message, reading the code and the text gives them
  back, and a copy is equal to the original.\<close>

theorem status_representation:
  assumes "length msg + length msg2 + 7 < 2 ^ 32" and "code \<noteq> kOk"
  shows "\<exists>a. new_Status code msg msg2 = Some (Some a) \<and> \<not> status_ok (Some a) \<and>
    status_code (Some a) = Code_num code \<and> CopyState a = Some a \<and>
    status_ToString (Some a) = Some (code_text (Code_num code) @ join_msg msg msg2)"
proof -
  let ?m = "join_msg msg msg2"
  have m: "length ?m + 5 < 2 ^ 32" using assms(1) by (simp add: join_msg_def)
  have "unat ((le_word (take 4 (status_array code ?m)) :: u32) + 5) = length ?m + 5"
    using m status_array_length [OF m, of code] by (subst unat_add_small) simp_all
  then show ?thesis
    using new_Status_array [OF assms(2,1)] status_array_length [OF m, of code]
    by (simp add: status_ok_def status_code_def CopyState_def status_ToString_def Let_def)
qed

theorem status_representation_witness:
  "\<exists>a. new_Status kIOError (ascii ''x'') (ascii ''y'') = Some (Some a) \<and> CopyState a = Some a"
  using status_representation [of "ascii ''x''" "ascii ''y''" kIOError] by (auto simp: ascii_def)

end
