(* ===== verification/Ldb_Write_Batch.thy ===== *)
theory Ldb_Write_Batch
  imports Ldb_Dbformat Ldb_Status
begin

text \<open>
  Write batches, \<open>db/write_batch.cc\<close>: the updates of one atomic write, kept in the form in
  which they are logged.

  A batch is its string \<open>rep_\<close>. The handler that \<open>Iterate\<close> calls is the list of the calls it
  gets, so that the order of the updates and what has been handed over before an error are
  visible. Access outside the string and failing assertions are \<open>None\<close>.
\<close>

section \<open>Batches\<close>

definition kHeader :: nat where "kHeader = 12"

definition WriteBatch_Clear :: "byte list" where
  "WriteBatch_Clear = replicate kHeader 0"

definition ApproximateSize :: "byte list \<Rightarrow> nat" where
  "ApproximateSize rep = length rep"

text \<open>A call of the handler.\<close>

datatype batch_op = Put "byte list" "byte list" | Delete "byte list"

definition Count :: "byte list \<Rightarrow> int option" where
  "Count rep = map_option sint (DecodeFixed32 (drop 8 rep))"

definition SetCount :: "byte list \<Rightarrow> int \<Rightarrow> byte list option" where
  "SetCount rep n = (if 12 \<le> length rep then Some (overwrite rep 8 (EncodeFixed32 (of_int n))) else None)"

definition Sequence :: "byte list \<Rightarrow> SequenceNumber option" where
  "Sequence rep = DecodeFixed64 rep"

definition SetSequence :: "byte list \<Rightarrow> SequenceNumber \<Rightarrow> byte list option" where
  "SetSequence rep seq = (if 8 \<le> length rep then Some (overwrite rep 0 (EncodeFixed64 seq)) else None)"

definition WriteBatch_Put :: "byte list \<Rightarrow> byte list \<Rightarrow> byte list \<Rightarrow> byte list option" where
  "WriteBatch_Put key val rep = do {
     n \<leftarrow> Count rep;
     rep \<leftarrow> SetCount rep (n + 1);
     let rep = rep @ [ucast (ValueType_num kTypeValue)];
     let rep = PutLengthPrefixedSlice rep key;
     Some (PutLengthPrefixedSlice rep val) }"

definition WriteBatch_Delete :: "byte list \<Rightarrow> byte list \<Rightarrow> byte list option" where
  "WriteBatch_Delete key rep = do {
     n \<leftarrow> Count rep;
     rep \<leftarrow> SetCount rep (n + 1);
     let rep = rep @ [ucast (ValueType_num kTypeDeletion)];
     Some (PutLengthPrefixedSlice rep key) }"

definition SetContents :: "byte list \<Rightarrow> byte list option" where
  "SetContents contents = (if kHeader \<le> length contents then Some contents else None)"

definition WriteBatch_Append :: "byte list \<Rightarrow> byte list \<Rightarrow> byte list option" where
  "WriteBatch_Append dst src = do {
     m \<leftarrow> Count dst;
     n \<leftarrow> Count src;
     dst \<leftarrow> SetCount dst (m + n);
     if kHeader \<le> length src then Some (dst @ drop kHeader src) else None }"

section \<open>Iterating\<close>

text \<open>One round of the loop on the input behind the tag: the operation and the rest, or an error.\<close>

definition read_op :: "byte \<Rightarrow> byte list \<Rightarrow> (Status + batch_op \<times> byte list)" where
  "read_op tag input = (
     if tag = ucast (ValueType_num kTypeValue) then
       (case GetLengthPrefixedSlice input of
          (Some key, input) \<Rightarrow> (case GetLengthPrefixedSlice input of
              (Some val, input) \<Rightarrow> Inr (Put key val, input)
            | (None, _) \<Rightarrow> Inl (Corruption (ascii ''bad WriteBatch Put'')))
        | (None, _) \<Rightarrow> Inl (Corruption (ascii ''bad WriteBatch Put'')))
     else if tag = ucast (ValueType_num kTypeDeletion) then
       (case GetLengthPrefixedSlice input of
          (Some key, input) \<Rightarrow> Inr (Delete key, input)
        | (None, _) \<Rightarrow> Inl (Corruption (ascii ''bad WriteBatch Delete'')))
     else Inl (Corruption (ascii ''unknown WriteBatch tag'')))"

lemma read_op_shorter: "read_op tag input = Inr (op, rest) \<Longrightarrow> length rest < length input"
  by (auto simp: read_op_def dest!: GetLengthPrefixedSlice_suffix split: if_splits prod.splits option.splits)

text \<open>The calls made and the status, \<open>OK\<close> at the end of the input. The code counts the records in an \<open>int\<close>, here the
  number of calls: they agree for fewer than \<open>2 ^ 31\<close> records, that is for every batch below 4 GB.\<close>

function iterate_ops :: "byte list \<Rightarrow> batch_op list \<times> Status" where
  "iterate_ops [] = ([], OK)"
| "iterate_ops (tag # input) = (case read_op tag input of
     Inl status \<Rightarrow> ([], status)
   | Inr (op, rest) \<Rightarrow> (case iterate_ops rest of (ops, status) \<Rightarrow> (op # ops, status)))"
  by pat_completeness auto
termination
  by (relation "measure length") (auto dest: read_op_shorter)

definition Iterate :: "byte list \<Rightarrow> (batch_op list \<times> Status) option" where
  "Iterate rep = (if length rep < kHeader then Some ([], Corruption (ascii ''malformed WriteBatch (too small)''))
     else case iterate_ops (drop kHeader rep) of (ops, status) \<Rightarrow>
       if \<not> ok status then Some (ops, status)
       else do {
         count \<leftarrow> Count rep;
         if int (length ops) \<noteq> count then Some (ops, Corruption (ascii ''WriteBatch has wrong count''))
         else Some (ops, OK) })"

text \<open>\<open>MemTableInserter\<close>: the calls of \<open>MemTable::Add\<close>, with ascending sequence numbers.\<close>

primrec insert_calls :: "SequenceNumber \<Rightarrow> batch_op list \<Rightarrow> (SequenceNumber \<times> ValueType \<times> byte list \<times> byte list) list" where
  "insert_calls seq [] = []"
| "insert_calls seq (op # ops) = (case op of Put key val \<Rightarrow> (seq, kTypeValue, key, val)
     | Delete key \<Rightarrow> (seq, kTypeDeletion, key, [])) # insert_calls (seq + 1) ops"

definition InsertInto :: "byte list \<Rightarrow> ((SequenceNumber \<times> ValueType \<times> byte list \<times> byte list) list \<times> Status) option" where
  "InsertInto rep = do {
     seq \<leftarrow> Sequence rep;
     (ops, status) \<leftarrow> Iterate rep;
     Some (insert_calls seq ops, status) }"

section \<open>Batches and the operations in them\<close>

fun op_bytes :: "batch_op \<Rightarrow> byte list" where
  "op_bytes (Put key val) = 1 # PutLengthPrefixedSlice [] key @ PutLengthPrefixedSlice [] val"
| "op_bytes (Delete key) = 0 # PutLengthPrefixedSlice [] key"

fun op_fits :: "batch_op \<Rightarrow> bool" where
  "op_fits (Put key val) \<longleftrightarrow> length key < 2 ^ 32 \<and> length val < 2 ^ 32"
| "op_fits (Delete key) \<longleftrightarrow> length key < 2 ^ 32"

text \<open>\<open>rep\<close> holds the operations \<open>ops\<close> and the sequence number \<open>seq\<close>.\<close>

definition batch_holds :: "byte list \<Rightarrow> SequenceNumber \<Rightarrow> batch_op list \<Rightarrow> bool" where
  "batch_holds rep seq ops \<longleftrightarrow> length ops < 2 ^ 31 \<and>
     rep = EncodeFixed64 seq @ EncodeFixed32 (of_nat (length ops)) @ concat (map op_bytes ops)"

lemma GetLengthPrefixedSlice_back:
  "length v < 2 ^ 32 \<Longrightarrow> GetLengthPrefixedSlice (PutLengthPrefixedSlice [] v @ p) = (Some v, p)"
  by (simp add: PutLengthPrefixedSlice_def PutVarint32_def EncodeVarint32_leb128)

lemma iterate_ops_bytes:
  assumes "\<And>op. op \<in> set ops \<Longrightarrow> op_fits op"
  shows "iterate_ops (concat (map op_bytes ops) @ rest) = (case iterate_ops rest of (others, s) \<Rightarrow> (ops @ others, s))"
  using assms
proof (induction ops)
  case (Cons op ops)
  have "read_op 1 (PutLengthPrefixedSlice [] k @ PutLengthPrefixedSlice [] v @ p) = Inr (Put k v, p)"
    if "length k < 2 ^ 32" "length v < 2 ^ 32" for k v p
    using that by (simp add: read_op_def ValueType_num_def GetLengthPrefixedSlice_back)
  moreover have "read_op 0 (PutLengthPrefixedSlice [] k @ p) = Inr (Delete k, p)" if "length k < 2 ^ 32" for k p
    using that by (simp add: read_op_def ValueType_num_def GetLengthPrefixedSlice_back)
  ultimately show ?case
    using Cons.IH Cons.prems(1) [of op] Cons.prems(1) by (cases op) (auto split: prod.split)
qed (simp split: prod.split)

lemma sint_u32_small: "n < 2 ^ 31 \<Longrightarrow> sint (of_nat n :: u32) = int n"
  by (simp add: sint_uint uint_nat unat_of_nat_small signed_take_bit_int_eq_self)

lemma batch_holds_parts:
  assumes "batch_holds rep seq ops"
  shows "12 \<le> length rep" "kHeader \<le> length rep" "drop kHeader rep = concat (map op_bytes ops)" "Sequence rep = Some seq"
    "Count rep = Some (int (length ops))"
  using assms by (simp_all add: batch_holds_def kHeader_def Sequence_def Count_def sint_u32_small)

lemma batch_holds_grow:
  assumes "batch_holds rep seq ops" and "length (ops @ others) < 2 ^ 31"
  shows "\<exists>rep'. SetCount rep (int (length (ops @ others))) = Some rep' \<and>
    batch_holds (rep' @ concat (map op_bytes others)) seq (ops @ others)"
  using assms by (simp add: batch_holds_def SetCount_def overwrite_def)

lemma le_bytes_0: "le_bytes n (0 :: 'a::len word) = replicate n 0"
  by (induction n) simp_all

lemma batch_holds_Clear: "batch_holds WriteBatch_Clear 0 []"
  using replicate_add [of 8 4 "0 :: byte"]
  by (simp add: batch_holds_def WriteBatch_Clear_def kHeader_def EncodeFixed64_def EncodeFixed32_def kLittleEndian_def le_bytes_0)

lemma SetSequence_holds: "batch_holds rep seq ops \<Longrightarrow> \<exists>rep'. SetSequence rep s = Some rep' \<and> batch_holds rep' s ops"
  by (simp add: batch_holds_def SetSequence_def overwrite_def)

lemma Put_holds:
  assumes "batch_holds rep seq ops" and "Suc (length ops) < 2 ^ 31"
  shows "\<exists>rep'. WriteBatch_Put k v rep = Some rep' \<and> batch_holds rep' seq (ops @ [Put k v])"
proof -
  obtain r where "SetCount rep (int (length (ops @ [Put k v]))) = Some r"
    "batch_holds (r @ concat (map op_bytes [Put k v])) seq (ops @ [Put k v])"
    using batch_holds_grow [OF assms(1), of "[Put k v]"] assms(2) by auto
  then show ?thesis
    using batch_holds_parts [OF assms(1)]
    by (simp add: WriteBatch_Put_def ValueType_num_def PutLengthPrefixedSlice_def PutVarint32_def add.commute)
qed

lemma Delete_holds:
  assumes "batch_holds rep seq ops" and "Suc (length ops) < 2 ^ 31"
  shows "\<exists>rep'. WriteBatch_Delete k rep = Some rep' \<and> batch_holds rep' seq (ops @ [Delete k])"
proof -
  obtain r where "SetCount rep (int (length (ops @ [Delete k]))) = Some r"
    "batch_holds (r @ concat (map op_bytes [Delete k])) seq (ops @ [Delete k])"
    using batch_holds_grow [OF assms(1), of "[Delete k]"] assms(2) by auto
  then show ?thesis
    using batch_holds_parts [OF assms(1)]
    by (simp add: WriteBatch_Delete_def ValueType_num_def PutLengthPrefixedSlice_def PutVarint32_def add.commute)
qed

lemma Append_holds:
  assumes "batch_holds dst seq xs" and "batch_holds src seq' ys" and "length (xs @ ys) < 2 ^ 31"
  shows "\<exists>rep'. WriteBatch_Append dst src = Some rep' \<and> batch_holds rep' seq (xs @ ys)"
proof -
  obtain r where "SetCount dst (int (length (xs @ ys))) = Some r" "batch_holds (r @ concat (map op_bytes ys)) seq (xs @ ys)"
    using batch_holds_grow [OF assms(1,3)] by auto
  then show ?thesis
    using batch_holds_parts [OF assms(1)] batch_holds_parts [OF assms(2)] by (simp add: WriteBatch_Append_def)
qed

lemma Iterate_holds:
  assumes "batch_holds rep seq ops" and "\<And>op. op \<in> set ops \<Longrightarrow> op_fits op"
  shows "Iterate rep = Some (ops, OK)"
  using batch_holds_parts [OF assms(1)] iterate_ops_bytes [of ops "[]", OF assms(2)] by (simp add: Iterate_def)

section \<open>Properties\<close>

primrec build_batch :: "batch_op list \<Rightarrow> byte list \<Rightarrow> byte list option" where
  "build_batch [] rep = Some rep"
| "build_batch (op # ops) rep = do {
     rep \<leftarrow> (case op of Put k v \<Rightarrow> WriteBatch_Put k v rep | Delete k \<Rightarrow> WriteBatch_Delete k rep);
     build_batch ops rep }"

lemma build_batch_holds:
  "batch_holds rep seq ops \<Longrightarrow> length (ops @ others) < 2 ^ 31 \<Longrightarrow>
    \<exists>rep'. build_batch others rep = Some rep' \<and> batch_holds rep' seq (ops @ others)"
proof (induction others arbitrary: rep ops)
  case (Cons op others)
  have "Suc (length ops) < 2 ^ 31" using Cons.prems(2) by simp
  with Cons.prems(1) obtain r where r: "(case op of Put k v \<Rightarrow> WriteBatch_Put k v rep | Delete k \<Rightarrow> WriteBatch_Delete k rep) = Some r"
    "batch_holds r seq (ops @ [op])"
    using Put_holds Delete_holds by (cases op) fastforce+
  from Cons.IH [OF r(2)] Cons.prems(2) r(1) show ?case by simp
qed simp

text \<open>The call of \<open>MemTable::Add\<close> for an operation.\<close>

definition memtable_call :: "SequenceNumber \<Rightarrow> batch_op \<Rightarrow> SequenceNumber \<times> ValueType \<times> byte list \<times> byte list" where
  "memtable_call seq op = (case op of Put key val \<Rightarrow> (seq, kTypeValue, key, val) | Delete key \<Rightarrow> (seq, kTypeDeletion, key, []))"

lemma insert_calls_nth: "insert_calls seq ops = map (\<lambda>i. memtable_call (seq + of_nat i) (ops ! i)) [0..<length ops]"
proof (induction ops arbitrary: seq)
  case (Cons op ops)
  have "[0..<length (op # ops)] = 0 # map Suc [0..<length ops]" by (simp add: upt_conv_Cons map_Suc_upt del: upt_Suc)
  moreover have "seq + (1 + of_nat i) = seq + of_nat (Suc i)" "seq + of_nat 0 = seq" for i by simp_all
  ultimately show ?case
    using Cons [of "seq + 1"] by (simp add: comp_def add.assoc del: upt_Suc of_nat_Suc) (simp add: memtable_call_def)
qed simp

text \<open>C21. A write batch hands over what was put into it: the operations added to a cleared batch come
  back from \<open>Iterate\<close> in their order with the status \<open>OK\<close>, \<open>InsertInto\<close> gives them ascending
  sequence numbers from the one that was set, and appending a batch to another one appends
  its operations.\<close>

theorem write_batch_roundtrip:
  assumes "length (xs @ ys) < 2 ^ 31" and "\<forall>op \<in> set (xs @ ys). op_fits op"
  shows "\<exists>b c d e. build_batch xs WriteBatch_Clear = Some b \<and> build_batch ys WriteBatch_Clear = Some c \<and>
    WriteBatch_Append b c = Some d \<and> SetSequence d seq = Some e \<and>
    Iterate e = Some (xs @ ys, OK) \<and> InsertInto e = Some (map (\<lambda>i. memtable_call (seq + of_nat i) ((xs @ ys) ! i)) [0..<length (xs @ ys)], OK)"
proof -
  obtain b where b: "build_batch xs WriteBatch_Clear = Some b" "batch_holds b 0 xs"
    using build_batch_holds [OF batch_holds_Clear, of xs] assms(1) by auto
  obtain c where c: "build_batch ys WriteBatch_Clear = Some c" "batch_holds c 0 ys"
    using build_batch_holds [OF batch_holds_Clear, of ys] assms(1) by auto
  obtain d where d: "WriteBatch_Append b c = Some d" "batch_holds d 0 (xs @ ys)"
    using Append_holds [OF b(2) c(2) assms(1)] by blast
  obtain e where e: "SetSequence d seq = Some e" "batch_holds e seq (xs @ ys)"
    using SetSequence_holds [OF d(2)] by blast
  show ?thesis
    using b c d e Iterate_holds [OF e(2)] assms(2) batch_holds_parts(4) [OF e(2)] by (simp add: InsertInto_def insert_calls_nth)
qed

theorem write_batch_roundtrip_witness:
  "\<exists>b c d e. build_batch [Put [1] [2, 3]] WriteBatch_Clear = Some b \<and> build_batch [Delete [4]] WriteBatch_Clear = Some c \<and>
    WriteBatch_Append b c = Some d \<and> SetSequence d 100 = Some e \<and>
    InsertInto e = Some ([(100, kTypeValue, [1], [2, 3]), (101, kTypeDeletion, [4], [])], OK)"
  using write_batch_roundtrip [of "[Put [1] [2, 3]]" "[Delete [4]]" 100] by (auto simp: memtable_call_def)



end
