(* ===== verification/Ldb_Version_Edit.thy ===== *)
theory Ldb_Version_Edit
  imports Ldb_Write_Batch
begin

text \<open>
  Version edits, \<open>db/version_edit.h\<close> and \<open>db/version_edit.cc\<close>: the changes to the set of
  table files that the manifest records, and their serialised form.

  The set of deleted files is an ordered list without duplicates, as \<open>std::set\<close> iterates
  over it. Levels are \<open>int\<close>, as in the source.
\<close>

section \<open>Edits\<close>

record FileMetaData =
  fm_refs :: int
  fm_allowed_seeks :: int
  fm_number :: u64
  fm_file_size :: u64
  fm_smallest :: "byte list"
  fm_largest :: "byte list"

definition new_FileMetaData :: "u64 \<Rightarrow> u64 \<Rightarrow> byte list \<Rightarrow> byte list \<Rightarrow> FileMetaData" where
  "new_FileMetaData num file_size smallest largest = \<lparr>fm_refs = 0, fm_allowed_seeks = 2 ^ 30, fm_number = num,
     fm_file_size = file_size, fm_smallest = smallest, fm_largest = largest\<rparr>"

text \<open>A flag and a value that may be absent are one option, except for the value that stays
  behind a cleared flag, which nothing reads.\<close>

record VersionEdit =
  ve_comparator :: "byte list option"
  ve_log_number :: "u64 option"
  ve_prev_log_number :: "u64 option"
  ve_next_file_number :: "u64 option"
  ve_last_sequence :: "SequenceNumber option"
  ve_compact_pointers :: "(int \<times> byte list) list"
  ve_deleted_files :: "(int \<times> u64) list"
  ve_new_files :: "(int \<times> FileMetaData) list"

text \<open>\<open>Clear\<close> leaves the compaction pointers alone.\<close>

definition VersionEdit_Clear :: "VersionEdit \<Rightarrow> VersionEdit" where
  "VersionEdit_Clear e = e\<lparr>ve_comparator := None, ve_log_number := None, ve_prev_log_number := None,
     ve_next_file_number := None, ve_last_sequence := None, ve_deleted_files := [], ve_new_files := []\<rparr>"

definition new_VersionEdit :: VersionEdit where
  "new_VersionEdit = VersionEdit_Clear \<lparr>ve_comparator = None, ve_log_number = None, ve_prev_log_number = None,
     ve_next_file_number = None, ve_last_sequence = None, ve_compact_pointers = [], ve_deleted_files = [], ve_new_files = []\<rparr>"

definition SetComparatorName :: "byte list \<Rightarrow> VersionEdit \<Rightarrow> VersionEdit" where
  "SetComparatorName name e = e\<lparr>ve_comparator := Some name\<rparr>"

definition SetLogNumber :: "u64 \<Rightarrow> VersionEdit \<Rightarrow> VersionEdit" where
  "SetLogNumber num e = e\<lparr>ve_log_number := Some num\<rparr>"

definition SetPrevLogNumber :: "u64 \<Rightarrow> VersionEdit \<Rightarrow> VersionEdit" where
  "SetPrevLogNumber num e = e\<lparr>ve_prev_log_number := Some num\<rparr>"

definition SetNextFile :: "u64 \<Rightarrow> VersionEdit \<Rightarrow> VersionEdit" where
  "SetNextFile num e = e\<lparr>ve_next_file_number := Some num\<rparr>"

definition SetLastSequence :: "SequenceNumber \<Rightarrow> VersionEdit \<Rightarrow> VersionEdit" where
  "SetLastSequence seq e = e\<lparr>ve_last_sequence := Some seq\<rparr>"

definition SetCompactPointer :: "int \<Rightarrow> byte list \<Rightarrow> VersionEdit \<Rightarrow> VersionEdit" where
  "SetCompactPointer level key e = e\<lparr>ve_compact_pointers := ve_compact_pointers e @ [(level, key)]\<rparr>"

definition AddFile :: "int \<Rightarrow> u64 \<Rightarrow> u64 \<Rightarrow> byte list \<Rightarrow> byte list \<Rightarrow> VersionEdit \<Rightarrow> VersionEdit" where
  "AddFile level file file_size smallest largest e =
     e\<lparr>ve_new_files := ve_new_files e @ [(level, new_FileMetaData file file_size smallest largest)]\<rparr>"

text \<open>The order of pairs in a \<open>std::set\<close>, and insertion into it.\<close>

definition file_less :: "int \<times> u64 \<Rightarrow> int \<times> u64 \<Rightarrow> bool" where
  "file_less a b \<longleftrightarrow> fst a < fst b \<or> fst a = fst b \<and> snd a < snd b"

fun set_insert :: "int \<times> u64 \<Rightarrow> (int \<times> u64) list \<Rightarrow> (int \<times> u64) list" where
  "set_insert x [] = [x]"
| "set_insert x (y # ys) = (if file_less x y then x # y # ys else if x = y then y # ys else y # set_insert x ys)"

definition DeleteFile :: "int \<Rightarrow> u64 \<Rightarrow> VersionEdit \<Rightarrow> VersionEdit" where
  "DeleteFile level file e = e\<lparr>ve_deleted_files := set_insert (level, file) (ve_deleted_files e)\<rparr>"

section \<open>Serialisation\<close>

definition kComparator :: u32 where "kComparator = 1"
definition kLogNumber :: u32 where "kLogNumber = 2"
definition kNextFileNumber :: u32 where "kNextFileNumber = 3"
definition kLastSequence :: u32 where "kLastSequence = 4"
definition kCompactPointer :: u32 where "kCompactPointer = 5"
definition kDeletedFile :: u32 where "kDeletedFile = 6"
definition kNewFile :: u32 where "kNewFile = 7"
definition kPrevLogNumber :: u32 where "kPrevLogNumber = 9"

lemmas edit_tags = kComparator_def kLogNumber_def kNextFileNumber_def kLastSequence_def kCompactPointer_def
  kDeletedFile_def kNewFile_def kPrevLogNumber_def

definition put_number :: "u32 \<Rightarrow> u64 option \<Rightarrow> byte list \<Rightarrow> byte list" where
  "put_number tag n dst = (case n of None \<Rightarrow> dst | Some v \<Rightarrow> PutVarint64 (PutVarint32 dst tag) v)"

definition put_compact_pointer :: "int \<times> byte list \<Rightarrow> byte list \<Rightarrow> byte list option" where
  "put_compact_pointer p dst = do {
     let dst = PutVarint32 dst kCompactPointer;
     let dst = PutVarint32 dst (of_int (fst p));
     key \<leftarrow> InternalKey_Encode (snd p);
     Some (PutLengthPrefixedSlice dst key) }"

definition put_deleted_file :: "int \<times> u64 \<Rightarrow> byte list \<Rightarrow> byte list" where
  "put_deleted_file p dst = PutVarint64 (PutVarint32 (PutVarint32 dst kDeletedFile) (of_int (fst p))) (snd p)"

definition put_new_file :: "int \<times> FileMetaData \<Rightarrow> byte list \<Rightarrow> byte list option" where
  "put_new_file p dst = do {
     let f = snd p;
     let dst = PutVarint32 dst kNewFile;
     let dst = PutVarint32 dst (of_int (fst p));
     let dst = PutVarint64 dst (fm_number f);
     let dst = PutVarint64 dst (fm_file_size f);
     smallest \<leftarrow> InternalKey_Encode (fm_smallest f);
     let dst = PutLengthPrefixedSlice dst smallest;
     largest \<leftarrow> InternalKey_Encode (fm_largest f);
     Some (PutLengthPrefixedSlice dst largest) }"

primrec put_each :: "('a \<Rightarrow> byte list \<Rightarrow> byte list option) \<Rightarrow> 'a list \<Rightarrow> byte list \<Rightarrow> byte list option" where
  "put_each put [] dst = Some dst"
| "put_each put (x # xs) dst = do { dst \<leftarrow> put x dst; put_each put xs dst }"

definition VersionEdit_EncodeTo :: "VersionEdit \<Rightarrow> byte list \<Rightarrow> byte list option" where
  "VersionEdit_EncodeTo e dst = do {
     let dst = (case ve_comparator e of None \<Rightarrow> dst | Some c \<Rightarrow> PutLengthPrefixedSlice (PutVarint32 dst kComparator) c);
     let dst = put_number kLogNumber (ve_log_number e) dst;
     let dst = put_number kPrevLogNumber (ve_prev_log_number e) dst;
     let dst = put_number kNextFileNumber (ve_next_file_number e) dst;
     let dst = put_number kLastSequence (ve_last_sequence e) dst;
     dst \<leftarrow> put_each put_compact_pointer (ve_compact_pointers e) dst;
     dst \<leftarrow> put_each (\<lambda>p dst. Some (put_deleted_file p dst)) (ve_deleted_files e) dst;
     put_each put_new_file (ve_new_files e) dst }"

section \<open>Parsing\<close>

definition GetInternalKey :: "byte list \<Rightarrow> byte list option \<times> byte list" where
  "GetInternalKey input = (case GetLengthPrefixedSlice input of
     (Some str, input) \<Rightarrow> (Some (InternalKey_DecodeFrom str), input) | (None, input) \<Rightarrow> (None, input))"

definition GetLevel :: "byte list \<Rightarrow> int option \<times> byte list" where
  "GetLevel input = (case GetVarint32 input of
     (Some v, input) \<Rightarrow> (if unat v < kNumLevels then Some (uint v) else None, input) | (None, input) \<Rightarrow> (None, input))"

text \<open>The conditions joined with \<open>&&\<close>: the next reader runs only if the one before succeeded.\<close>

definition next_field :: "'a option \<times> byte list \<Rightarrow> ('a \<Rightarrow> byte list \<Rightarrow> 'b option \<times> byte list) \<Rightarrow> 'b option \<times> byte list" where
  "next_field r k = (case r of (Some x, input) \<Rightarrow> k x input | (None, input) \<Rightarrow> (None, input))"

definition get_compact_pointer :: "byte list \<Rightarrow> (int \<times> byte list) option \<times> byte list" where
  "get_compact_pointer input = next_field (GetLevel input) (\<lambda>level input.
     next_field (GetInternalKey input) (\<lambda>key input. (Some (level, key), input)))"

definition get_deleted_file :: "byte list \<Rightarrow> (int \<times> u64) option \<times> byte list" where
  "get_deleted_file input = next_field (GetLevel input) (\<lambda>level input.
     next_field (GetVarint64 input) (\<lambda>num input. (Some (level, num), input)))"

definition get_new_file :: "byte list \<Rightarrow> (int \<times> FileMetaData) option \<times> byte list" where
  "get_new_file input = next_field (GetLevel input) (\<lambda>level input.
     next_field (GetVarint64 input) (\<lambda>num input.
     next_field (GetVarint64 input) (\<lambda>file_size input.
     next_field (GetInternalKey input) (\<lambda>smallest input.
     next_field (GetInternalKey input) (\<lambda>largest input.
       (Some (level, new_FileMetaData num file_size smallest largest), input))))))"

text \<open>A field is applied to the edit, or its name is the message of the error.\<close>

definition use_field :: "string \<Rightarrow> 'a option \<times> byte list \<Rightarrow> ('a \<Rightarrow> VersionEdit) \<Rightarrow> VersionEdit \<Rightarrow>
    string option \<times> byte list \<times> VersionEdit" where
  "use_field msg r apply_to e = (case r of (Some x, input) \<Rightarrow> (None, input, apply_to x) | (None, input) \<Rightarrow> (Some msg, input, e))"

definition decode_edit_tag :: "u32 \<Rightarrow> byte list \<Rightarrow> VersionEdit \<Rightarrow> string option \<times> byte list \<times> VersionEdit" where
  "decode_edit_tag tag input e = (
     if tag = kComparator then
       use_field ''comparator name'' (GetLengthPrefixedSlice input) (\<lambda>str. e\<lparr>ve_comparator := Some str\<rparr>) e
     else if tag = kLogNumber then
       use_field ''log number'' (GetVarint64 input) (\<lambda>n. e\<lparr>ve_log_number := Some n\<rparr>) e
     else if tag = kPrevLogNumber then
       use_field ''previous log number'' (GetVarint64 input) (\<lambda>n. e\<lparr>ve_prev_log_number := Some n\<rparr>) e
     else if tag = kNextFileNumber then
       use_field ''next file number'' (GetVarint64 input) (\<lambda>n. e\<lparr>ve_next_file_number := Some n\<rparr>) e
     else if tag = kLastSequence then
       use_field ''last sequence number'' (GetVarint64 input) (\<lambda>n. e\<lparr>ve_last_sequence := Some n\<rparr>) e
     else if tag = kCompactPointer then
       use_field ''compaction pointer'' (get_compact_pointer input)
         (\<lambda>p. e\<lparr>ve_compact_pointers := ve_compact_pointers e @ [p]\<rparr>) e
     else if tag = kDeletedFile then
       use_field ''deleted file'' (get_deleted_file input)
         (\<lambda>p. e\<lparr>ve_deleted_files := set_insert p (ve_deleted_files e)\<rparr>) e
     else if tag = kNewFile then
       use_field ''new-file entry'' (get_new_file input) (\<lambda>p. e\<lparr>ve_new_files := ve_new_files e @ [p]\<rparr>) e
     else (Some ''unknown tag'', input, e))"

section \<open>Readers only move forward\<close>

lemma GetVarint_length: "GetVarint32 p = (v, q) \<Longrightarrow> length q \<le> length p" "GetVarint64 p = (w, q) \<Longrightarrow> length q \<le> length p"
  using GetVarint32_suffix [of p _ q] GetVarint64_suffix [of p _ q] GetVarint_fail [of p q]
  by (cases v; cases w; fastforce)+

lemma GetVarint_strict: "GetVarint32 p = (Some v, q) \<Longrightarrow> length q < length p"
  by (drule GetVarint32_suffix) auto

lemma GetLengthPrefixedSlice_length: "GetLengthPrefixedSlice p = (v, q) \<Longrightarrow> length q \<le> length p"
  by (auto simp: GetLengthPrefixedSlice_def dest!: GetVarint_length split: prod.splits option.splits if_splits)

lemma next_field_length:
  "next_field (f input) k = (x, q) \<Longrightarrow> (\<And>v r. f input = (v, r) \<Longrightarrow> length r \<le> length input) \<Longrightarrow>
    (\<And>v r x q. k v r = (x, q) \<Longrightarrow> length q \<le> length r) \<Longrightarrow> length q \<le> length input"
  by (fastforce simp: next_field_def intro: order_trans split: prod.splits option.splits)

lemma GetLevel_length: "GetLevel p = (v, q) \<Longrightarrow> length q \<le> length p"
  by (auto simp: GetLevel_def dest!: GetVarint_length split: prod.splits option.splits if_splits)

lemma GetInternalKey_length: "GetInternalKey p = (v, q) \<Longrightarrow> length q \<le> length p"
  by (auto simp: GetInternalKey_def dest!: GetLengthPrefixedSlice_length split: prod.splits option.splits if_splits)

lemmas reader_lengths = GetVarint_length GetLengthPrefixedSlice_length GetLevel_length GetInternalKey_length

lemma get_field_length:
  "get_compact_pointer p = (u, q) \<Longrightarrow> length q \<le> length p" "get_deleted_file p = (v, q) \<Longrightarrow> length q \<le> length p"
  "get_new_file p = (w, q) \<Longrightarrow> length q \<le> length p"
  by (force simp: get_compact_pointer_def get_deleted_file_def get_new_file_def dest: reader_lengths
      elim!: next_field_length)+

lemma use_field_length: "use_field msg r f e = (m, q, e') \<Longrightarrow> (\<And>v p. r = (v, p) \<Longrightarrow> length p \<le> n) \<Longrightarrow> length q \<le> n"
  by (auto simp: use_field_def split: prod.splits option.splits)

lemma decode_edit_tag_length: "decode_edit_tag tag p e = (m, q, e') \<Longrightarrow> length q \<le> length p"
  unfolding decode_edit_tag_def
  by (auto elim!: use_field_length dest: reader_lengths get_field_length split: if_splits)

text \<open>The loop; a message ends it.\<close>

function decode_fields :: "byte list \<Rightarrow> VersionEdit \<Rightarrow> string option \<times> VersionEdit" where
  "decode_fields input e = (case GetVarint32 input of
     (None, rest) \<Rightarrow> (if rest \<noteq> [] then Some ''invalid tag'' else None, e)
   | (Some tag, rest) \<Rightarrow> (case decode_edit_tag tag rest e of
       (Some msg, _, e) \<Rightarrow> (Some msg, e)
     | (None, rest, e) \<Rightarrow> decode_fields rest e))"
  by pat_completeness auto
termination
proof (relation "measure (\<lambda>(input, e). length input)", goal_cases)
  case (2 input e x rest tag y z rest' e')
  then have "GetVarint32 input = (Some tag, rest)" "decode_edit_tag tag rest e = (None, rest', e')" by auto
  then have "length rest < length input" "length rest' \<le> length rest"
    using decode_edit_tag_length GetVarint_strict by auto
  then show ?case by simp
qed simp

declare decode_fields.simps [simp del]

definition VersionEdit_DecodeFrom :: "byte list \<Rightarrow> VersionEdit \<Rightarrow> Status \<times> VersionEdit" where
  "VersionEdit_DecodeFrom src e = (case decode_fields src (VersionEdit_Clear e) of
     (None, e) \<Rightarrow> (OK, e)
   | (Some msg, e) \<Rightarrow> (Corruption (join_msg (ascii ''VersionEdit'') (ascii msg)), e))"

section \<open>Printing\<close>

definition put_line :: "string \<Rightarrow> u64 option \<Rightarrow> byte list \<Rightarrow> byte list" where
  "put_line name n r = (case n of None \<Rightarrow> r | Some v \<Rightarrow> AppendNumberTo (r @ 10 # ascii name) v)"

definition VersionEdit_DebugString :: "VersionEdit \<Rightarrow> byte list" where
  "VersionEdit_DebugString e = (
     let r = ascii ''VersionEdit {'';
         r = (case ve_comparator e of None \<Rightarrow> r | Some c \<Rightarrow> r @ 10 # ascii ''  Comparator: '' @ c);
         r = put_line ''  LogNumber: '' (ve_log_number e) r;
         r = put_line ''  PrevLogNumber: '' (ve_prev_log_number e) r;
         r = put_line ''  NextFile: '' (ve_next_file_number e) r;
         r = put_line ''  LastSeq: '' (ve_last_sequence e) r;
         r = foldl (\<lambda>r p. AppendNumberTo (r @ 10 # ascii ''  CompactPointer: '') (of_int (fst p)) @ ascii '' '' @
               InternalKey_DebugString (snd p)) r (ve_compact_pointers e);
         r = foldl (\<lambda>r p. AppendNumberTo (AppendNumberTo (r @ 10 # ascii ''  DeleteFile: '') (of_int (fst p)) @ ascii '' '') (snd p))
               r (ve_deleted_files e);
         r = foldl (\<lambda>r p. AppendNumberTo (AppendNumberTo (AppendNumberTo (r @ 10 # ascii ''  AddFile: '') (of_int (fst p)) @
               ascii '' '') (fm_number (snd p)) @ ascii '' '') (fm_file_size (snd p)) @ ascii '' '' @
               InternalKey_DebugString (fm_smallest (snd p)) @ ascii '' .. '' @ InternalKey_DebugString (fm_largest (snd p)))
               r (ve_new_files e) in
     r @ 10 # 125 # [10])"

section \<open>Encodings of the fields\<close>

lemmas put_simps = PutVarint32_def PutVarint64_def PutLengthPrefixedSlice_def EncodeVarint32_leb128 EncodeVarint64_leb128

definition level_ok :: "int \<Rightarrow> bool" where
  "level_ok level \<longleftrightarrow> 0 \<le> level \<and> level < int kNumLevels"

definition key_ok :: "byte list \<Rightarrow> bool" where
  "key_ok key \<longleftrightarrow> key \<noteq> [] \<and> length key < 2 ^ 32"

lemma GetLevel_back: "level_ok level \<Longrightarrow> GetLevel (leb128 (ucast (of_int level :: u32)) @ p) = (Some level, p)"
proof -
  assume "level_ok level"
  then have "uint (of_int level :: u32) = level" by (simp add: level_ok_def kNumLevels_def take_bit_int_eq_self unsigned_of_int)
  then show ?thesis
    using \<open>level_ok level\<close> by (simp add: GetLevel_def level_ok_def unat_eq_nat_uint nat_less_iff)
qed

lemma GetInternalKey_back:
  "key_ok key \<Longrightarrow> GetInternalKey (leb128 (ucast (of_nat (length key) :: u32)) @ key @ p) = (Some key, p)"
  by (simp add: GetInternalKey_def key_ok_def InternalKey_DecodeFrom_def)

lemma InternalKey_Encode_ok: "key_ok key \<Longrightarrow> InternalKey_Encode key = Some key"
  by (simp add: key_ok_def InternalKey_Encode_def)

definition slice_bytes :: "byte list \<Rightarrow> byte list" where
  "slice_bytes v = leb128 (ucast (of_nat (length v) :: u32)) @ v"

definition level_bytes :: "int \<Rightarrow> byte list" where
  "level_bytes level = leb128 (ucast (of_int level :: u32))"

definition tag_bytes :: "u32 \<Rightarrow> byte list" where
  "tag_bytes tag = leb128 (ucast tag)"

definition number_bytes :: "u32 \<Rightarrow> u64 option \<Rightarrow> byte list" where
  "number_bytes tag n = (case n of None \<Rightarrow> [] | Some v \<Rightarrow> tag_bytes tag @ leb128 v)"

definition pointer_bytes :: "int \<times> byte list \<Rightarrow> byte list" where
  "pointer_bytes p = tag_bytes kCompactPointer @ level_bytes (fst p) @ slice_bytes (snd p)"

definition deleted_bytes :: "int \<times> u64 \<Rightarrow> byte list" where
  "deleted_bytes p = tag_bytes kDeletedFile @ level_bytes (fst p) @ leb128 (snd p)"

definition new_file_bytes :: "int \<times> FileMetaData \<Rightarrow> byte list" where
  "new_file_bytes p = tag_bytes kNewFile @ level_bytes (fst p) @ leb128 (fm_number (snd p)) @ leb128 (fm_file_size (snd p)) @
     slice_bytes (fm_smallest (snd p)) @ slice_bytes (fm_largest (snd p))"

definition comparator_bytes :: "byte list option \<Rightarrow> byte list" where
  "comparator_bytes c = (case c of None \<Rightarrow> [] | Some c \<Rightarrow> tag_bytes kComparator @ slice_bytes c)"

lemmas field_bytes = slice_bytes_def level_bytes_def tag_bytes_def

definition new_file_ok :: "int \<times> FileMetaData \<Rightarrow> bool" where
  "new_file_ok p \<longleftrightarrow> (let f = snd p in level_ok (fst p) \<and> key_ok (fm_smallest f) \<and> key_ok (fm_largest f) \<and>
     f = new_FileMetaData (fm_number f) (fm_file_size f) (fm_smallest f) (fm_largest f))"

definition edit_ok :: "VersionEdit \<Rightarrow> bool" where
  "edit_ok e \<longleftrightarrow> (case ve_comparator e of None \<Rightarrow> True | Some c \<Rightarrow> length c < 2 ^ 32) \<and>
     (\<forall>p \<in> set (ve_compact_pointers e). level_ok (fst p) \<and> key_ok (snd p)) \<and>
     (\<forall>p \<in> set (ve_deleted_files e). level_ok (fst p)) \<and> sorted_wrt file_less (ve_deleted_files e) \<and>
     (\<forall>p \<in> set (ve_new_files e). new_file_ok p)"

definition edit_bytes :: "VersionEdit \<Rightarrow> byte list" where
  "edit_bytes e = comparator_bytes (ve_comparator e) @ number_bytes kLogNumber (ve_log_number e) @
     number_bytes kPrevLogNumber (ve_prev_log_number e) @ number_bytes kNextFileNumber (ve_next_file_number e) @
     number_bytes kLastSequence (ve_last_sequence e) @ concat (map pointer_bytes (ve_compact_pointers e)) @
     concat (map deleted_bytes (ve_deleted_files e)) @ concat (map new_file_bytes (ve_new_files e))"

lemma put_number_bytes: "put_number tag n dst = dst @ number_bytes tag n"
  by (simp add: put_number_def number_bytes_def field_bytes put_simps split: option.split)

lemma put_file_bytes:
  "key_ok (snd p) \<Longrightarrow> put_compact_pointer p dst = Some (dst @ pointer_bytes p)"
  "put_deleted_file q dst = dst @ deleted_bytes q"
  "key_ok (fm_smallest (snd r)) \<Longrightarrow> key_ok (fm_largest (snd r)) \<Longrightarrow> put_new_file r dst = Some (dst @ new_file_bytes r)"
  by (simp_all add: put_compact_pointer_def pointer_bytes_def put_deleted_file_def deleted_bytes_def put_new_file_def
      new_file_bytes_def field_bytes put_simps InternalKey_Encode_ok Let_def)

lemma put_each_concat:
  "(\<And>x dst. x \<in> set xs \<Longrightarrow> put x dst = Some (dst @ b x)) \<Longrightarrow> put_each put xs dst = Some (dst @ concat (map b xs))"
  by (induction xs arbitrary: dst) auto

lemma VersionEdit_EncodeTo_bytes:
  assumes "edit_ok e"
  shows "VersionEdit_EncodeTo e dst = Some (dst @ edit_bytes e)"
proof -
  have "put_each put_compact_pointer (ve_compact_pointers e) d = Some (d @ concat (map pointer_bytes (ve_compact_pointers e)))" for d
    using assms by (intro put_each_concat put_file_bytes) (auto simp: edit_ok_def)
  moreover have "put_each put_new_file (ve_new_files e) d = Some (d @ concat (map new_file_bytes (ve_new_files e)))" for d
    using assms by (intro put_each_concat put_file_bytes) (auto simp: edit_ok_def new_file_ok_def Let_def)
  moreover have "put_each (\<lambda>p dst. Some (put_deleted_file p dst)) (ve_deleted_files e) d =
      Some (d @ concat (map deleted_bytes (ve_deleted_files e)))" for d
    by (intro put_each_concat) (simp add: put_file_bytes)
  moreover have "(case ve_comparator e of None \<Rightarrow> dst | Some c \<Rightarrow> PutLengthPrefixedSlice (PutVarint32 dst kComparator) c) =
      dst @ comparator_bytes (ve_comparator e)"
    by (simp add: comparator_bytes_def field_bytes put_simps split: option.split)
  ultimately show ?thesis by (simp add: VersionEdit_EncodeTo_def put_number_bytes edit_bytes_def)
qed

section \<open>Reading the fields back\<close>

lemma decode_fields_step:
  "decode_edit_tag tag p e = (None, q, e') \<Longrightarrow> decode_fields (tag_bytes tag @ p) e = decode_fields q e'"
  by (subst decode_fields.simps) (simp add: tag_bytes_def)

lemma decode_numbers:
  "ve_log_number e = None \<Longrightarrow> decode_fields (number_bytes kLogNumber n @ p) e = decode_fields p (e\<lparr>ve_log_number := n\<rparr>)"
  "ve_prev_log_number e = None \<Longrightarrow> decode_fields (number_bytes kPrevLogNumber n @ p) e = decode_fields p (e\<lparr>ve_prev_log_number := n\<rparr>)"
  "ve_next_file_number e = None \<Longrightarrow> decode_fields (number_bytes kNextFileNumber n @ p) e = decode_fields p (e\<lparr>ve_next_file_number := n\<rparr>)"
  "ve_last_sequence e = None \<Longrightarrow> decode_fields (number_bytes kLastSequence n @ p) e = decode_fields p (e\<lparr>ve_last_sequence := n\<rparr>)"
  by (cases n; cases e; simp add: number_bytes_def; rule decode_fields_step; simp add: decode_edit_tag_def edit_tags use_field_def)+

lemma decode_comparator:
  "(case c of None \<Rightarrow> True | Some c \<Rightarrow> length c < 2 ^ 32) \<Longrightarrow> ve_comparator e = None \<Longrightarrow>
    decode_fields (comparator_bytes c @ p) e = decode_fields p (e\<lparr>ve_comparator := c\<rparr>)"
  by (cases c; cases e; simp add: comparator_bytes_def; rule decode_fields_step;
      simp add: decode_edit_tag_def edit_tags use_field_def slice_bytes_def)

lemma decode_pointer:
  "level_ok (fst x) \<Longrightarrow> key_ok (snd x) \<Longrightarrow>
    decode_fields (pointer_bytes x @ p) e = decode_fields p (e\<lparr>ve_compact_pointers := ve_compact_pointers e @ [x]\<rparr>)"
  by (simp add: pointer_bytes_def; rule decode_fields_step;
      simp add: decode_edit_tag_def edit_tags use_field_def get_compact_pointer_def next_field_def GetLevel_back
        GetInternalKey_back level_bytes_def slice_bytes_def)

lemma decode_deleted:
  "level_ok (fst x) \<Longrightarrow>
    decode_fields (deleted_bytes x @ p) e = decode_fields p (e\<lparr>ve_deleted_files := set_insert x (ve_deleted_files e)\<rparr>)"
  by (simp add: deleted_bytes_def; rule decode_fields_step;
      simp add: decode_edit_tag_def edit_tags use_field_def get_deleted_file_def next_field_def GetLevel_back level_bytes_def)

lemma decode_new_file:
  "new_file_ok x \<Longrightarrow> decode_fields (new_file_bytes x @ p) e = decode_fields p (e\<lparr>ve_new_files := ve_new_files e @ [x]\<rparr>)"
  unfolding new_file_ok_def Let_def
  by (cases x; simp add: new_file_bytes_def; intro decode_fields_step;
      simp add: decode_edit_tag_def edit_tags use_field_def get_new_file_def next_field_def GetLevel_back
        GetInternalKey_back level_bytes_def slice_bytes_def)

lemma decode_each:
  "(\<And>x p e. x \<in> set xs \<Longrightarrow> decode_fields (b x @ p) e = decode_fields p (f x e)) \<Longrightarrow>
    decode_fields (concat (map b xs) @ p) e = decode_fields p (fold f xs e)"
  by (induction xs arbitrary: e) auto

lemma fold_append_field:
  "fold (\<lambda>x e. e\<lparr>ve_compact_pointers := ve_compact_pointers e @ [x]\<rparr>) xs e = e\<lparr>ve_compact_pointers := ve_compact_pointers e @ xs\<rparr>"
  "fold (\<lambda>x e. e\<lparr>ve_new_files := ve_new_files e @ [x]\<rparr>) ys e = e\<lparr>ve_new_files := ve_new_files e @ ys\<rparr>"
  subgoal by (induction xs arbitrary: e) simp_all
  subgoal by (induction ys arbitrary: e) simp_all
  done

lemma set_insert_last: "\<forall>y \<in> set ys. file_less y x \<Longrightarrow> set_insert x ys = ys @ [x]"
  by (induction ys) (auto simp: file_less_def)

lemma fold_set_insert:
  "sorted_wrt file_less (ve_deleted_files e @ xs) \<Longrightarrow>
    fold (\<lambda>x e. e\<lparr>ve_deleted_files := set_insert x (ve_deleted_files e)\<rparr>) xs e = e\<lparr>ve_deleted_files := ve_deleted_files e @ xs\<rparr>"
  by (induction xs arbitrary: e) (simp_all add: set_insert_last sorted_wrt_append)

lemma decode_edit_bytes:
  assumes "edit_ok e"
  shows "decode_fields (edit_bytes e) new_VersionEdit = (None, e)"
proof -
  have pointers: "decode_fields (concat (map pointer_bytes (ve_compact_pointers e)) @ p) d =
      decode_fields p (d\<lparr>ve_compact_pointers := ve_compact_pointers d @ ve_compact_pointers e\<rparr>)" for p d
    using assms by (subst decode_each [OF decode_pointer]) (auto simp: edit_ok_def fold_append_field)
  have deleted: "decode_fields (concat (map deleted_bytes (ve_deleted_files e)) @ p) d =
      decode_fields p (d\<lparr>ve_deleted_files := ve_deleted_files e\<rparr>)" if "ve_deleted_files d = []" for p d
    using assms that by (subst decode_each [OF decode_deleted]) (auto simp: edit_ok_def fold_set_insert)
  have added: "decode_fields (concat (map new_file_bytes (ve_new_files e)) @ p) d =
      decode_fields p (d\<lparr>ve_new_files := ve_new_files d @ ve_new_files e\<rparr>)" for p d
    using assms by (subst decode_each [OF decode_new_file]) (auto simp: edit_ok_def fold_append_field)
  have "GetVarint32 [] = (None, [])" by code_simp
  then have "decode_fields [] d = (None, d)" for d by (subst decode_fields.simps) simp
  then have new_files: "decode_fields (concat (map new_file_bytes (ve_new_files e))) d =
      (None, d\<lparr>ve_new_files := ve_new_files d @ ve_new_files e\<rparr>)" for d
    using added [of "[]"] by simp
  have "decode_fields (edit_bytes e) new_VersionEdit = (None, \<lparr>ve_comparator = ve_comparator e, ve_log_number = ve_log_number e,
      ve_prev_log_number = ve_prev_log_number e, ve_next_file_number = ve_next_file_number e,
      ve_last_sequence = ve_last_sequence e, ve_compact_pointers = ve_compact_pointers e,
      ve_deleted_files = ve_deleted_files e, ve_new_files = ve_new_files e\<rparr>)"
    using assms by (simp add: edit_bytes_def decode_comparator edit_ok_def decode_numbers pointers deleted new_files
        new_VersionEdit_def VersionEdit_Clear_def)
  then show ?thesis by simp
qed

text \<open>C22. A version edit survives serialisation: \<open>EncodeTo\<close> appends to any string a record that
  \<open>DecodeFrom\<close> reads back as the same edit, when levels, keys and the comparator name are in
  range, the deleted files are in the order of their set and the metadata of the new files is as
  \<open>AddFile\<close> makes it.\<close>

theorem version_edit_roundtrip:
  assumes "edit_ok e"
  shows "\<exists>bs. VersionEdit_EncodeTo e dst = Some (dst @ bs) \<and> VersionEdit_DecodeFrom bs new_VersionEdit = (OK, e)"
proof -
  have "VersionEdit_Clear new_VersionEdit = new_VersionEdit" by (simp add: new_VersionEdit_def VersionEdit_Clear_def)
  then have "VersionEdit_DecodeFrom (edit_bytes e) new_VersionEdit = (OK, e)"
    using decode_edit_bytes [OF assms] by (simp add: VersionEdit_DecodeFrom_def)
  then show ?thesis using VersionEdit_EncodeTo_bytes [OF assms] by blast
qed

definition sample_edit :: VersionEdit where
  "sample_edit = AddFile 2 7 100 [1] [2, 3] (DeleteFile 1 5 (DeleteFile 0 9 (SetCompactPointer 1 [4]
     (SetLastSequence 8 (SetNextFile 7 (SetPrevLogNumber 6 (SetLogNumber 5 (SetComparatorName [97] new_VersionEdit))))))))"

lemmas edit_setters = AddFile_def DeleteFile_def SetCompactPointer_def SetLastSequence_def SetNextFile_def
  SetPrevLogNumber_def SetLogNumber_def SetComparatorName_def new_VersionEdit_def VersionEdit_Clear_def

theorem version_edit_roundtrip_witness:
  "edit_ok sample_edit \<and> (\<exists>bs. VersionEdit_EncodeTo sample_edit [] = Some ([] @ bs) \<and>
    VersionEdit_DecodeFrom bs new_VersionEdit = (OK, sample_edit))"
proof -
  have "edit_ok sample_edit"
    by (simp add: sample_edit_def edit_setters edit_ok_def level_ok_def key_ok_def kNumLevels_def file_less_def new_file_ok_def new_FileMetaData_def)
  then show ?thesis using version_edit_roundtrip [of sample_edit "[]"] by blast
qed

text \<open>The setters and \<open>DecodeFrom\<close> keep the deleted files a set in order, so that hypothesis of
  the round trip holds of every edit the program builds.\<close>

lemma set_insert_set: "set (set_insert x ys) = insert x (set ys)"
  by (induction ys) auto

lemma file_less_trans: "file_less a b \<Longrightarrow> file_less b c \<Longrightarrow> file_less a c"
  by (auto simp: file_less_def)

lemma set_insert_sorted: "sorted_wrt file_less ys \<Longrightarrow> sorted_wrt file_less (set_insert x ys)"
proof (induction ys)
  case (Cons y ys)
  then show ?case
    by (auto simp: set_insert_set prod_eq_iff dest: file_less_trans intro: file_less_trans) (auto simp: file_less_def prod_eq_iff)
qed simp

text \<open>\<open>Clear\<close> does not touch the compaction pointers: an edit that is decoded into twice keeps
  the ones of the first record.\<close>

lemma VersionEdit_Clear_keeps_pointers: "ve_compact_pointers (VersionEdit_Clear e) = ve_compact_pointers e"
  by (simp add: VersionEdit_Clear_def)

end
