(* ===== verification/Ldb_Env.thy ===== *)
theory Ldb_Env
  imports Ldb_Status
begin

text \<open>
  Files: the interfaces of \<open>include/leveldb/env.h\<close> that the database reads and writes
  through, and the implementations of \<open>util/env_posix.cc\<close>.

  An interface is the record of its operations on a handle of some type; \<open>None\<close> is a call
  that does not return or is undefined. System calls are arguments of the Posix files, in a
  record of their own; they answer with an error number (\<open>Inl\<close>) or a result. The locales
  say what the log and the tables rely on, and are interpreted on the Posix files over a
  regular file that interrupts calls, writes short and fails as a script says.
\<close>

section \<open>Interfaces\<close>

record 'f SequentialFile =
  sf_Read :: "nat \<Rightarrow> 'f \<Rightarrow> (Status \<times> byte list \<times> 'f) option"
  sf_Skip :: "u64 \<Rightarrow> 'f \<Rightarrow> Status \<times> 'f"

record 'f WritableFile =
  wf_Append :: "byte list \<Rightarrow> 'f \<Rightarrow> (Status \<times> 'f) option"
  wf_Close :: "'f \<Rightarrow> (Status \<times> 'f) option"
  wf_Flush :: "'f \<Rightarrow> (Status \<times> 'f) option"
  wf_Sync :: "'f \<Rightarrow> (Status \<times> 'f) option"

text \<open>\<open>rf_scratch\<close>: whether the data returned is in the caller's buffer.\<close>

record RandomAccessFile =
  rf_Read :: "u64 \<Rightarrow> size_t \<Rightarrow> (Status \<times> byte list) option"
  rf_scratch :: bool

text \<open>A file open for random access returns its contents, whatever was read before.\<close>

locale random_access_file =
  fixes F :: RandomAccessFile and contents :: "byte list"
  assumes read_inside: "length contents < 2 ^ 63 \<Longrightarrow> unat off + unat n \<le> length contents \<Longrightarrow>
    rf_Read F off n = Some (OK, take (unat n) (drop (unat off) contents))"
begin

lemma read_part: "length (a @ b @ c) < 2 ^ 63 \<Longrightarrow> contents = a @ b @ c \<Longrightarrow>
    rf_Read F (of_nat (length a)) (of_nat (length b)) = Some (OK, b)"
  using read_inside [of "of_nat (length a)" "of_nat (length b)"] by (simp add: unat_of_nat_small)

end

text \<open>A sequential file returns what comes next, less than asked for only at the end. A
  \<open>reliable\<close> handle does not report errors.\<close>

locale sequential_file =
  fixes F :: "'f SequentialFile" and rest :: "'f \<Rightarrow> byte list" and reliable :: "'f \<Rightarrow> bool"
  assumes read_total: "\<exists>s data f'. sf_Read F n f = Some (s, data, f')"
    and read_ok: "sf_Read F n f = Some (OK, data, f') \<Longrightarrow> data = take n (rest f) \<and> rest f' = drop n (rest f)"
    and read_reliable: "reliable f \<Longrightarrow> sf_Read F n f = Some (s, data, f') \<Longrightarrow> s = OK \<and> reliable f'"
begin

lemma read_reliable_total:
  assumes "reliable f"
  obtains f' where "sf_Read F n f = Some (OK, take n (rest f), f')" "rest f' = drop n (rest f)" "reliable f'"
proof -
  obtain s data f' where "sf_Read F n f = Some (s, data, f')" using read_total by blast
  with read_reliable [OF assms this] show thesis using read_ok that by blast
qed

end

text \<open>All that the end of a scan needs: every read comes back, with any status and any data, and
  reads that return as much as they were asked for cannot go on for ever.\<close>

locale ending_file =
  fixes F :: "'f SequentialFile" and left :: "'f \<Rightarrow> nat"
  assumes read_returns: "\<exists>s data f'. sf_Read F n f = Some (s, data, f')"
    and full_read: "0 < n \<Longrightarrow> sf_Read F n f = Some (OK, data, f') \<Longrightarrow> n \<le> length data \<Longrightarrow> left f' < left f"

sublocale sequential_file < ends: ending_file F "\<lambda>f. length (rest f)"
proof
  show "\<exists>s data f'. sf_Read F n f = Some (s, data, f')" for n f by (rule read_total)
  show "length (rest f') < length (rest f)" if "0 < n" "sf_Read F n f = Some (OK, data, f')" "n \<le> length data" for n f data f'
    using read_ok [OF that(2)] that(1,3) by auto
qed

text \<open>A writable file keeps the appended data, in the order of the calls, as long as no call
  fails.\<close>

locale writable_file =
  fixes F :: "'f WritableFile" and written :: "'f \<Rightarrow> byte list" and inv :: "'f \<Rightarrow> bool" and reliable :: "'f \<Rightarrow> bool"
  assumes append_total: "inv f \<Longrightarrow> \<exists>s f'. wf_Append F data f = Some (s, f')"
    and append_inv: "inv f \<Longrightarrow> wf_Append F data f = Some (s, f') \<Longrightarrow> inv f'"
    and append_ok: "inv f \<Longrightarrow> wf_Append F data f = Some (OK, f') \<Longrightarrow> written f' = written f @ data"
    and append_reliable: "inv f \<Longrightarrow> reliable f \<Longrightarrow> wf_Append F data f = Some (s, f') \<Longrightarrow> s = OK \<and> reliable f'"
    and flush_total: "inv f \<Longrightarrow> \<exists>s f'. wf_Flush F f = Some (s, f')"
    and flush_inv: "inv f \<Longrightarrow> wf_Flush F f = Some (s, f') \<Longrightarrow> inv f'"
    and flush_ok: "inv f \<Longrightarrow> wf_Flush F f = Some (OK, f') \<Longrightarrow> written f' = written f"
    and flush_reliable: "inv f \<Longrightarrow> reliable f \<Longrightarrow> wf_Flush F f = Some (s, f') \<Longrightarrow> s = OK \<and> reliable f'"
begin

lemma append_reliable_total:
  assumes "inv f" and "reliable f"
  obtains f' where "wf_Append F data f = Some (OK, f')" "written f' = written f @ data" "inv f'" "reliable f'"
  using append_total [OF assms(1)] append_inv append_ok append_reliable assms by metis

lemma flush_reliable_total:
  assumes "inv f" and "reliable f"
  obtains f' where "wf_Flush F f = Some (OK, f')" "written f' = written f" "inv f'" "reliable f'"
  using flush_total [OF assms(1)] flush_inv flush_ok flush_reliable assms by metis

end

section \<open>Errors and limits\<close>

definition ENOENT :: int where "ENOENT = 2"
definition EINTR :: int where "EINTR = 4"
definition EINVAL :: int where "EINVAL = 22"

text \<open>The system calls on a file descriptor; \<open>sys_strerror\<close> is the C library's.\<close>

record 'os Posix =
  sys_read :: "int \<Rightarrow> nat \<Rightarrow> 'os \<Rightarrow> (int + byte list) \<times> 'os"
  sys_write :: "int \<Rightarrow> byte list \<Rightarrow> 'os \<Rightarrow> (int + nat) \<times> 'os"
  sys_lseek :: "int \<Rightarrow> u64 \<Rightarrow> 'os \<Rightarrow> int option \<times> 'os"
  sys_open :: "byte list \<Rightarrow> 'os \<Rightarrow> (int + int) \<times> 'os"
  sys_close :: "int \<Rightarrow> 'os \<Rightarrow> int option \<times> 'os"
  sys_fullfsync :: "int \<Rightarrow> 'os \<Rightarrow> int option \<times> 'os"
  sys_fsync :: "int \<Rightarrow> 'os \<Rightarrow> int option \<times> 'os"
  sys_strerror :: "int \<Rightarrow> byte list"

definition PosixError :: "'os Posix \<Rightarrow> byte list \<Rightarrow> int \<Rightarrow> Status" where
  "PosixError P context error_number = (if error_number = ENOENT
     then NotFound (join_msg context (sys_strerror P error_number))
     else IOError (join_msg context (sys_strerror P error_number)))"

lemma PosixError_not_OK [simp]: "PosixError P c e \<noteq> OK" "OK \<noteq> PosixError P c e"
  by (simp_all add: PosixError_def)

text \<open>The \<open>Limiter\<close>: \<open>fetch_sub\<close> and, when nothing was left, \<open>fetch_add\<close>.\<close>

definition Limiter_Acquire :: "int \<Rightarrow> bool \<times> int" where
  "Limiter_Acquire acquires_allowed = (let old = acquires_allowed; acquires_allowed = acquires_allowed - 1 in
     if 0 < old then (True, acquires_allowed) else (False, acquires_allowed + 1))"

definition Limiter_Release :: "int \<Rightarrow> int" where
  "Limiter_Release acquires_allowed = acquires_allowed + 1"

section \<open>Reading\<close>

record PosixSequentialFile =
  ps_fd :: int
  ps_filename :: "byte list"

text \<open>The loop ends unless the call is interrupted for ever.\<close>

partial_function (option) PosixSequentialFile_Read ::
  "'os Posix \<Rightarrow> PosixSequentialFile \<Rightarrow> nat \<Rightarrow> 'os \<Rightarrow> (Status \<times> byte list \<times> 'os) option" where
  "PosixSequentialFile_Read P h n os = (case sys_read P (ps_fd h) n os of
     (Inl errno, os) \<Rightarrow> if errno = EINTR then PosixSequentialFile_Read P h n os
       else Some (PosixError P (ps_filename h) errno, [], os)
   | (Inr data, os) \<Rightarrow> Some (OK, data, os))"

definition PosixSequentialFile_Skip ::
  "'os Posix \<Rightarrow> PosixSequentialFile \<Rightarrow> u64 \<Rightarrow> 'os \<Rightarrow> Status \<times> 'os" where
  "PosixSequentialFile_Skip P h n os = (case sys_lseek P (ps_fd h) n os of
     (Some errno, os) \<Rightarrow> (PosixError P (ps_filename h) errno, os)
   | (None, os) \<Rightarrow> (OK, os))"

definition PosixSequential :: "'os Posix \<Rightarrow> PosixSequentialFile \<Rightarrow> 'os SequentialFile" where
  "PosixSequential P h = \<lparr>sf_Read = PosixSequentialFile_Read P h, sf_Skip = PosixSequentialFile_Skip P h\<rparr>"

text \<open>A file mapped into memory. The bounds check adds in 64 bits; a slice that is not inside
  the mapping is undefined.\<close>

record PosixMmapReadableFile =
  pm_base :: "byte list"
  pm_filename :: "byte list"

definition PosixMmapReadableFile_Read ::
  "'os Posix \<Rightarrow> PosixMmapReadableFile \<Rightarrow> u64 \<Rightarrow> size_t \<Rightarrow> (Status \<times> byte list) option" where
  "PosixMmapReadableFile_Read P h offset n = (
     if of_nat (length (pm_base h)) < offset + n then Some (PosixError P (pm_filename h) EINVAL, [])
     else if unat offset + unat n \<le> length (pm_base h)
       then Some (OK, take (unat n) (drop (unat offset) (pm_base h))) else None)"

definition PosixMmapReadable :: "'os Posix \<Rightarrow> PosixMmapReadableFile \<Rightarrow> RandomAccessFile" where
  "PosixMmapReadable P h = \<lparr>rf_Read = PosixMmapReadableFile_Read P h, rf_scratch = False\<rparr>"

text \<open>Reading with \<open>pread\<close>. The calls do not depend on what was read before, so they are
  functions; a file without a permanent descriptor is opened for each read, and closing it
  has no effect here.\<close>

record PosixRandomAccessFile =
  pr_has_permanent_fd :: bool
  pr_fd :: int
  pr_filename :: "byte list"

definition new_PosixRandomAccessFile :: "byte list \<Rightarrow> int \<Rightarrow> int \<Rightarrow> PosixRandomAccessFile \<times> int" where
  "new_PosixRandomAccessFile filename fd fd_limiter = (let (has_permanent_fd, fd_limiter) = Limiter_Acquire fd_limiter in
     (\<lparr>pr_has_permanent_fd = has_permanent_fd, pr_fd = (if has_permanent_fd then fd else -1), pr_filename = filename\<rparr>, fd_limiter))"

definition PosixRandomAccessFile_Read :: "'os Posix \<Rightarrow> (byte list \<Rightarrow> int + int) \<Rightarrow> (int \<Rightarrow> nat \<Rightarrow> u64 \<Rightarrow> int + byte list) \<Rightarrow>
    PosixRandomAccessFile \<Rightarrow> u64 \<Rightarrow> size_t \<Rightarrow> (Status \<times> byte list) option" where
  "PosixRandomAccessFile_Read P op pread h offset n = (
     case (if pr_has_permanent_fd h then Inr (pr_fd h) else op (pr_filename h)) of
       Inl errno \<Rightarrow> Some (PosixError P (pr_filename h) errno, [])
     | Inr fd \<Rightarrow>
         if fd = -1 then None
         else case pread fd (unat n) offset of
           Inl errno \<Rightarrow> Some (PosixError P (pr_filename h) errno, [])
         | Inr data \<Rightarrow> Some (OK, data))"

definition PosixRandomAccess :: "'os Posix \<Rightarrow> (byte list \<Rightarrow> int + int) \<Rightarrow> (int \<Rightarrow> nat \<Rightarrow> u64 \<Rightarrow> int + byte list) \<Rightarrow>
    PosixRandomAccessFile \<Rightarrow> RandomAccessFile" where
  "PosixRandomAccess P op pread h = \<lparr>rf_Read = PosixRandomAccessFile_Read P op pread h, rf_scratch = True\<rparr>"

section \<open>Writing\<close>

definition kWritableFileBufferSize :: nat where "kWritableFileBufferSize = 65536"

text \<open>\<open>pw_buf\<close> holds the \<open>pos_\<close> bytes of \<open>buf_\<close> in use.\<close>

record 'os PosixWritableFile =
  pw_buf :: "byte list"
  pw_fd :: int
  pw_is_manifest :: bool
  pw_filename :: "byte list"
  pw_dirname :: "byte list"
  pw_os :: 'os

text \<open>\<open>rfind('/')\<close> and the parts of a path.\<close>

definition rfind_slash :: "byte list \<Rightarrow> nat option" where
  "rfind_slash filename = (let k = length (takeWhile (\<lambda>c. c \<noteq> 47) (rev filename)) in
     if k = length filename then None else Some (length filename - k - 1))"

definition Dirname :: "byte list \<Rightarrow> byte list" where
  "Dirname filename = (case rfind_slash filename of None \<Rightarrow> ascii ''.'' | Some i \<Rightarrow> take i filename)"

definition Basename :: "byte list \<Rightarrow> byte list" where
  "Basename filename = (case rfind_slash filename of None \<Rightarrow> filename | Some i \<Rightarrow> drop (i + 1) filename)"

definition IsManifest :: "byte list \<Rightarrow> bool" where
  "IsManifest filename = starts_with (Basename filename) (ascii ''MANIFEST'')"

definition new_PosixWritableFile :: "byte list \<Rightarrow> int \<Rightarrow> 'os \<Rightarrow> 'os PosixWritableFile" where
  "new_PosixWritableFile filename fd os = \<lparr>pw_buf = [], pw_fd = fd, pw_is_manifest = IsManifest filename,
     pw_filename = filename, pw_dirname = Dirname filename, pw_os = os\<rparr>"

partial_function (option) WriteUnbuffered ::
  "'os Posix \<Rightarrow> int \<Rightarrow> byte list \<Rightarrow> byte list \<Rightarrow> 'os \<Rightarrow> (Status \<times> 'os) option" where
  "WriteUnbuffered P fd filename data os = (if data = [] then Some (OK, os)
     else case sys_write P fd data os of
       (Inl errno, os) \<Rightarrow> if errno = EINTR then WriteUnbuffered P fd filename data os
         else Some (PosixError P filename errno, os)
     | (Inr write_result, os) \<Rightarrow> WriteUnbuffered P fd filename (drop write_result data) os)"

definition FlushBuffer :: "'os Posix \<Rightarrow> 'os PosixWritableFile \<Rightarrow> (Status \<times> 'os PosixWritableFile) option" where
  "FlushBuffer P w = do {
     (status, os) \<leftarrow> WriteUnbuffered P (pw_fd w) (pw_filename w) (pw_buf w) (pw_os w);
     Some (status, w\<lparr>pw_buf := [], pw_os := os\<rparr>) }"

definition PosixWritableFile_Append ::
  "'os Posix \<Rightarrow> byte list \<Rightarrow> 'os PosixWritableFile \<Rightarrow> (Status \<times> 'os PosixWritableFile) option" where
  "PosixWritableFile_Append P data w = (
     let copy_size = min (length data) (kWritableFileBufferSize - length (pw_buf w));
         w = w\<lparr>pw_buf := pw_buf w @ take copy_size data\<rparr>;
         write_data = drop copy_size data in
     if write_data = [] then Some (OK, w)
     else do {
       (status, w) \<leftarrow> FlushBuffer P w;
       if \<not> ok status then Some (status, w)
       else if length write_data < kWritableFileBufferSize then Some (OK, w\<lparr>pw_buf := write_data\<rparr>)
       else do {
         (status, os) \<leftarrow> WriteUnbuffered P (pw_fd w) (pw_filename w) write_data (pw_os w);
         Some (status, w\<lparr>pw_os := os\<rparr>) } })"

definition PosixWritableFile_Close ::
  "'os Posix \<Rightarrow> 'os PosixWritableFile \<Rightarrow> (Status \<times> 'os PosixWritableFile) option" where
  "PosixWritableFile_Close P w = do {
     (status, w) \<leftarrow> FlushBuffer P w;
     let (close_error, os) = sys_close P (pw_fd w) (pw_os w);
     let status = (case close_error of Some errno \<Rightarrow> if ok status then PosixError P (pw_filename w) errno else status
                   | None \<Rightarrow> status);
     Some (status, w\<lparr>pw_os := os, pw_fd := - 1\<rparr>) }"

text \<open>\<open>full\<close> is \<open>HAVE_FULLFSYNC\<close>; \<open>sys_fsync\<close> is \<open>fdatasync\<close> or \<open>fsync\<close>.\<close>

definition SyncFd :: "bool \<Rightarrow> 'os Posix \<Rightarrow> int \<Rightarrow> byte list \<Rightarrow> 'os \<Rightarrow> Status \<times> 'os" where
  "SyncFd full P fd fd_path os = (
     case (if full then sys_fullfsync P fd os else (Some 0, os)) of
       (None, os) \<Rightarrow> (OK, os)
     | (Some _, os) \<Rightarrow> (case sys_fsync P fd os of
         (None, os) \<Rightarrow> (OK, os)
       | (Some errno, os) \<Rightarrow> (PosixError P fd_path errno, os)))"

definition SyncDirIfManifest :: "bool \<Rightarrow> 'os Posix \<Rightarrow> 'os PosixWritableFile \<Rightarrow> Status \<times> 'os PosixWritableFile" where
  "SyncDirIfManifest full P w = (if \<not> pw_is_manifest w then (OK, w)
     else case sys_open P (pw_dirname w) (pw_os w) of
       (Inl errno, os) \<Rightarrow> (PosixError P (pw_dirname w) errno, w\<lparr>pw_os := os\<rparr>)
     | (Inr fd, os) \<Rightarrow> (case SyncFd full P fd (pw_dirname w) os of
         (status, os) \<Rightarrow> (status, w\<lparr>pw_os := snd (sys_close P fd os)\<rparr>)))"

definition PosixWritableFile_Sync ::
  "bool \<Rightarrow> 'os Posix \<Rightarrow> 'os PosixWritableFile \<Rightarrow> (Status \<times> 'os PosixWritableFile) option" where
  "PosixWritableFile_Sync full P w = (case SyncDirIfManifest full P w of
     (status, w) \<Rightarrow> if \<not> ok status then Some (status, w)
       else do {
         (status, w) \<leftarrow> FlushBuffer P w;
         if \<not> ok status then Some (status, w)
         else (case SyncFd full P (pw_fd w) (pw_filename w) (pw_os w) of
           (status, os) \<Rightarrow> Some (status, w\<lparr>pw_os := os\<rparr>)) })"

definition PosixWritable :: "bool \<Rightarrow> 'os Posix \<Rightarrow> 'os PosixWritableFile WritableFile" where
  "PosixWritable full P = \<lparr>wf_Append = PosixWritableFile_Append P, wf_Close = PosixWritableFile_Close P,
     wf_Flush = FlushBuffer P, wf_Sync = PosixWritableFile_Sync full P\<rparr>"

section \<open>A regular file\<close>

text \<open>What the operating system keeps for a file and what it will answer to the next calls: an
  error, or success, where a write handles at most so many bytes; a read of a regular file returns all
  that is left of what is asked for. Every call takes one answer; when the script is over every call
  succeeds in full.\<close>

record os_file =
  of_data :: "byte list"
  of_pos :: nat
  of_script :: "(int + nat) list"

definition os_read :: "int \<Rightarrow> nat \<Rightarrow> os_file \<Rightarrow> (int + byte list) \<times> os_file" where
  "os_read fd n f = (case of_script f of
     Inl errno # script \<Rightarrow> (Inl errno, f\<lparr>of_script := script\<rparr>)
   | _ \<Rightarrow> (let data = take n (drop (of_pos f) (of_data f)) in
       (Inr data, f\<lparr>of_pos := of_pos f + length data, of_script := tl (of_script f)\<rparr>)))"

definition os_write :: "int \<Rightarrow> byte list \<Rightarrow> os_file \<Rightarrow> (int + nat) \<times> os_file" where
  "os_write fd data f = (case of_script f of
     [] \<Rightarrow> (Inr (length data), f\<lparr>of_data := of_data f @ data\<rparr>)
   | Inl errno # script \<Rightarrow> (Inl errno, f\<lparr>of_script := script\<rparr>)
   | Inr k # script \<Rightarrow> (Inr (min k (length data)),
       f\<lparr>of_data := of_data f @ take (min k (length data)) data, of_script := script\<rparr>))"

definition os_result :: "os_file \<Rightarrow> int option \<times> os_file" where
  "os_result f = (case of_script f of
     Inl errno # script \<Rightarrow> (Some errno, f\<lparr>of_script := script\<rparr>) | _ \<Rightarrow> (None, f\<lparr>of_script := tl (of_script f)\<rparr>))"

definition os_lseek :: "int \<Rightarrow> u64 \<Rightarrow> os_file \<Rightarrow> int option \<times> os_file" where
  "os_lseek fd n f = (case os_result f of
     (Some errno, f) \<Rightarrow> (Some errno, f) | (None, f) \<Rightarrow> (None, f\<lparr>of_pos := of_pos f + unat n\<rparr>))"

definition os_open :: "byte list \<Rightarrow> os_file \<Rightarrow> (int + int) \<times> os_file" where
  "os_open path f = (case os_result f of (Some errno, f) \<Rightarrow> (Inl errno, f) | (None, f) \<Rightarrow> (Inr 9, f))"

definition os_calls :: "os_file Posix" where
  "os_calls = \<lparr>sys_read = os_read, sys_write = os_write,
     sys_lseek = os_lseek, sys_open = os_open,
     sys_close = (\<lambda>fd f. os_result f), sys_fullfsync = (\<lambda>fd f. os_result f), sys_fsync = (\<lambda>fd f. os_result f),
     sys_strerror = (\<lambda>errno. ascii ''error'')\<rparr>"

text \<open>Nothing but interruptions and short writes is ahead.\<close>

definition os_reliable :: "os_file \<Rightarrow> bool" where
  "os_reliable f \<longleftrightarrow> (\<forall>r \<in> set (of_script f). case r of Inl errno \<Rightarrow> errno = EINTR | Inr _ \<Rightarrow> True)"

definition os_rest :: "os_file \<Rightarrow> byte list" where
  "os_rest f = drop (of_pos f) (of_data f)"

lemma os_calls_simps [simp]:
  "sys_read os_calls = os_read" "sys_write os_calls = os_write"
  by (simp_all add: os_calls_def)

lemma os_read_Inr:
  assumes "\<nexists>errno script. of_script f = Inl errno # script"
  shows "\<exists>f'. os_read fd n f = (Inr (take n (os_rest f)), f') \<and> os_rest f' = drop n (os_rest f) \<and> of_script f' = tl (of_script f)"
proof -
  have "drop (of_pos f + length (take n (os_rest f))) (of_data f) = drop n (os_rest f)"
    by (auto simp: os_rest_def min_def add.commute)
  then show ?thesis
    using assms by (auto simp: os_read_def os_rest_def Let_def split: list.split sum.split)
qed

lemma WriteUnbuffered_Nil [simp]: "WriteUnbuffered P fd filename [] os = Some (OK, os)"
  by (subst WriteUnbuffered.simps) simp

lemma Read_script:
  "\<exists>s data f'. PosixSequentialFile_Read os_calls h n f = Some (s, data, f') \<and>
    (s = OK \<longrightarrow> data = take n (os_rest f) \<and> os_rest f' = drop n (os_rest f)) \<and>
    (os_reliable f \<longrightarrow> s = OK \<and> os_reliable f')"
proof (induction "of_script f" arbitrary: f)
  case Nil
  then show ?case
    using os_read_Inr [of f "ps_fd h" n]
    by (subst PosixSequentialFile_Read.simps) (auto simp: os_reliable_def)
next
  case (Cons r script)
  show ?case
  proof (cases r)
    case (Inl errno)
    let ?f = "f\<lparr>of_script := script\<rparr>"
    have "sys_read os_calls (ps_fd h) n f = (Inl errno, ?f)"
      using Cons.hyps(2) Inl by (simp add: os_read_def flip: Cons.hyps(2))
    moreover have "os_rest ?f = os_rest f" "os_reliable f \<longleftrightarrow> errno = EINTR \<and> os_reliable ?f"
      using Inl by (auto simp: os_rest_def os_reliable_def simp flip: Cons.hyps(2))
    ultimately show ?thesis
      using Cons.hyps(1) [of ?f] by (subst PosixSequentialFile_Read.simps) auto
  next
    case (Inr k)
    then have "\<nexists>errno script. of_script f = Inl errno # script" by (simp flip: Cons.hyps(2))
    from os_read_Inr [OF this, of "ps_fd h" n] show ?thesis
      by (subst PosixSequentialFile_Read.simps) (auto simp: os_reliable_def simp flip: Cons.hyps(2))
  qed
qed

lemma Write_script:
  "\<exists>s f'. WriteUnbuffered os_calls fd filename data f = Some (s, f') \<and>
    (s = OK \<longrightarrow> of_data f' = of_data f @ data) \<and> (os_reliable f \<longrightarrow> s = OK \<and> os_reliable f')"
proof (induction "of_script f" arbitrary: f data)
  case Nil
  show ?case
    using Nil
    by (cases "data = []")
      (simp_all add: os_write_def os_reliable_def WriteUnbuffered.simps [of os_calls fd filename data])
next
  case (Cons r script)
  have rel: "os_reliable f \<longleftrightarrow> (case r of Inl errno \<Rightarrow> errno = EINTR | Inr _ \<Rightarrow> True) \<and> os_reliable (f\<lparr>of_data := d, of_script := script\<rparr>)" for d
    by (auto simp: os_reliable_def simp flip: Cons.hyps(2))
  show ?case
  proof (cases r)
    case (Inl errno)
    let ?f = "f\<lparr>of_script := script\<rparr>"
    have "os_write fd data f = (Inl errno, ?f)" using Inl by (simp add: os_write_def flip: Cons.hyps(2))
    then show ?thesis
      using Cons.hyps(1) [of ?f data] rel [of "of_data f"] Inl
      by (cases "data = []"; force simp: WriteUnbuffered.simps [of os_calls fd filename data])
  next
    case (Inr k)
    let ?m = "min k (length data)"
    let ?f = "f\<lparr>of_data := of_data f @ take ?m data, of_script := script\<rparr>"
    have "os_write fd data f = (Inr ?m, ?f)" using Inr by (simp add: os_write_def flip: Cons.hyps(2))
    moreover have "take ?m data @ drop ?m data = data" by (rule append_take_drop_id)
    ultimately show ?thesis
      using Cons.hyps(1) [of ?f "drop ?m data"] rel [of "of_data f @ take ?m data"] Inr
      by (cases "data = []"; force simp: WriteUnbuffered.simps [of os_calls fd filename data])
  qed
qed

interpretation posix_seq: sequential_file "PosixSequential os_calls h" os_rest os_reliable
proof
  show "\<exists>s data f'. sf_Read (PosixSequential os_calls h) n f = Some (s, data, f')" for n f
    using Read_script [of h n f] by (auto simp: PosixSequential_def)
  show "data = take n (os_rest f) \<and> os_rest f' = drop n (os_rest f)"
    if "sf_Read (PosixSequential os_calls h) n f = Some (OK, data, f')" for n f data f'
    using that Read_script [of h n f] by (auto simp: PosixSequential_def)
  show "s = OK \<and> os_reliable f'"
    if "os_reliable f" "sf_Read (PosixSequential os_calls h) n f = Some (s, data, f')" for n f s data f'
    using that Read_script [of h n f] by (auto simp: PosixSequential_def)
qed

text \<open>Whatever the system calls do, a read comes back if it is not interrupted for ever; other errors may
  persist.\<close>

locale posix_reads =
  fixes P :: "'os Posix" and left :: "'os \<Rightarrow> nat"
  assumes interrupted: "sys_read P fd n os = (Inl EINTR, os') \<Longrightarrow> left os' < left os"
    and full: "sys_read P fd n os = (Inr data, os') \<Longrightarrow> 0 < n \<Longrightarrow> n \<le> length data \<Longrightarrow> left os' < left os"
begin

lemma Read_returns:
  "\<exists>s data os'. PosixSequentialFile_Read P h n os = Some (s, data, os') \<and> (s = OK \<longrightarrow> 0 < n \<longrightarrow> n \<le> length data \<longrightarrow> left os' < left os)"
proof (induction "left os" arbitrary: os rule: less_induct)
  case less
  obtain res os' where r: "sys_read P (ps_fd h) n os = (res, os')" by fastforce
  show ?case
  proof (cases "res = Inl EINTR")
    case True
    then have "left os' < left os" using interrupted r by blast
    then show ?thesis using less [of os'] r True by (subst PosixSequentialFile_Read.simps) fastforce
  next
    case False
    then show ?thesis using r full [of "ps_fd h" n os] by (subst PosixSequentialFile_Read.simps) (auto split: sum.split)
  qed
qed

end

sublocale posix_reads < seq: ending_file "PosixSequential P h" left for h
proof
  show "\<exists>s data f'. sf_Read (PosixSequential P h) n f = Some (s, data, f')" for n f
    using Read_returns [of h n f] by (auto simp: PosixSequential_def)
  show "left f' < left f" if "0 < n" "sf_Read (PosixSequential P h) n f = Some (OK, data, f')" "n \<le> length data" for n f data f'
    using Read_returns [of h n f] that by (auto simp: PosixSequential_def)
qed

interpretation os_reads: posix_reads os_calls "\<lambda>f. length (of_script f) + length (os_rest f)"
proof
  show "length (of_script os') + length (os_rest os') < length (of_script os) + length (os_rest os)"
    if "sys_read os_calls fd n os = (Inl EINTR, os')" for fd n os os'
    using that by (auto simp: os_read_def os_rest_def Let_def split: list.splits sum.splits)
  show "length (of_script os') + length (os_rest os') < length (of_script os) + length (os_rest os)"
    if r: "sys_read os_calls fd n os = (Inr data, os')" "0 < n" "n \<le> length data" for fd n os data os'
  proof -
    have "\<nexists>errno script. of_script os = Inl errno # script" using r(1) by (auto simp: os_read_def)
    from os_read_Inr [OF this, of fd n] r show ?thesis by auto
  qed
qed

text \<open>What has been appended is in the file or in the buffer.\<close>

definition pw_written :: "os_file PosixWritableFile \<Rightarrow> byte list" where
  "pw_written w = of_data (pw_os w) @ pw_buf w"

definition pw_inv :: "'os PosixWritableFile \<Rightarrow> bool" where
  "pw_inv w \<longleftrightarrow> length (pw_buf w) \<le> kWritableFileBufferSize"

lemma FlushBuffer_script:
  "\<exists>s w'. FlushBuffer os_calls w = Some (s, w') \<and> pw_buf w' = [] \<and> pw_fd w' = pw_fd w \<and>
    (s = OK \<longrightarrow> pw_written w' = pw_written w) \<and> (os_reliable (pw_os w) \<longrightarrow> s = OK \<and> os_reliable (pw_os w'))"
  using Write_script [of "pw_fd w" "pw_filename w" "pw_buf w" "pw_os w"]
  by (auto simp: FlushBuffer_def pw_written_def)

lemma Append_script:
  assumes "pw_inv w"
  shows "\<exists>s w'. PosixWritableFile_Append os_calls data w = Some (s, w') \<and> pw_inv w' \<and>
    (s = OK \<longrightarrow> pw_written w' = pw_written w @ data) \<and>
    (os_reliable (pw_os w) \<longrightarrow> s = OK \<and> os_reliable (pw_os w'))"
proof -
  define k where "k = min (length data) (kWritableFileBufferSize - length (pw_buf w))"
  define v where "v = w\<lparr>pw_buf := pw_buf w @ take k data\<rparr>"
  have v: "pw_inv v" "pw_written v @ drop k data = pw_written w @ data" "pw_os v = pw_os w"
    using assms by (auto simp: v_def k_def pw_inv_def pw_written_def)
  show ?thesis
  proof (cases "drop k data = []")
    case True
    with v show ?thesis unfolding PosixWritableFile_Append_def Let_def k_def [symmetric] v_def [symmetric] by simp
  next
    case False
    obtain s u where u: "FlushBuffer os_calls v = Some (s, u)" "pw_buf u = []" "s = OK \<longrightarrow> pw_written u = pw_written v"
      "os_reliable (pw_os w) \<longrightarrow> s = OK \<and> os_reliable (pw_os u)"
      using FlushBuffer_script [of v] v(3) by auto
    obtain s' os where w: "WriteUnbuffered os_calls (pw_fd u) (pw_filename u) (drop k data) (pw_os u) = Some (s', os)"
      "s' = OK \<longrightarrow> of_data os = of_data (pw_os u) @ drop k data" "os_reliable (pw_os u) \<longrightarrow> s' = OK \<and> os_reliable os"
      using Write_script by blast
    have "pw_written u = of_data (pw_os u)" using u(2) by (simp add: pw_written_def)
    with False u w v show ?thesis
      unfolding PosixWritableFile_Append_def Let_def k_def [symmetric] v_def [symmetric]
      by (cases "length (drop k data) < kWritableFileBufferSize"; cases "ok s")
        (auto simp: pw_inv_def pw_written_def ok_def)
  qed
qed

interpretation posix_writable: writable_file "PosixWritable full os_calls" pw_written pw_inv "\<lambda>w. os_reliable (pw_os w)"
proof
  fix w :: "os_file PosixWritableFile" and data
  assume inv: "pw_inv w"
  show "\<exists>s w'. wf_Append (PosixWritable full os_calls) data w = Some (s, w')"
    using Append_script [OF inv, of data] by (auto simp: PosixWritable_def)
  show "\<exists>s w'. wf_Flush (PosixWritable full os_calls) w = Some (s, w')"
    using FlushBuffer_script [of w] by (auto simp: PosixWritable_def)
  fix s w'
  show "pw_inv w'" if "wf_Append (PosixWritable full os_calls) data w = Some (s, w')"
    using that Append_script [OF inv, of data] by (auto simp: PosixWritable_def)
  show "pw_written w' = pw_written w @ data" if "wf_Append (PosixWritable full os_calls) data w = Some (OK, w')"
    using that Append_script [OF inv, of data] by (auto simp: PosixWritable_def)
  show "s = OK \<and> os_reliable (pw_os w')" if "os_reliable (pw_os w)" "wf_Append (PosixWritable full os_calls) data w = Some (s, w')"
    using that Append_script [OF inv, of data] by (auto simp: PosixWritable_def)
  show "pw_inv w'" if "wf_Flush (PosixWritable full os_calls) w = Some (s, w')"
    using that FlushBuffer_script [of w] by (auto simp: PosixWritable_def pw_inv_def)
  show "pw_written w' = pw_written w" if "wf_Flush (PosixWritable full os_calls) w = Some (OK, w')"
    using that FlushBuffer_script [of w] by (auto simp: PosixWritable_def)
  show "s = OK \<and> os_reliable (pw_os w')" if "os_reliable (pw_os w)" "wf_Flush (PosixWritable full os_calls) w = Some (s, w')"
    using that FlushBuffer_script [of w] by (auto simp: PosixWritable_def)
qed

section \<open>Limits and bounds\<close>

text \<open>The limiter hands out a resource exactly when one is left, and counts them.\<close>

lemma Limiter_counts:
  "0 \<le> n \<Longrightarrow> Limiter_Acquire n = (0 < n, if 0 < n then n - 1 else n)"
  "0 \<le> n \<Longrightarrow> Limiter_Acquire n = (True, m) \<Longrightarrow> 0 \<le> m \<and> Limiter_Release m = n"
  by (auto simp: Limiter_Acquire_def Limiter_Release_def Let_def split: if_splits)

lemma mmap_read_exact:
  assumes "unat offset + unat n < 2 ^ 64" and "length (pm_base h) < 2 ^ 64"
  shows "PosixMmapReadableFile_Read P h offset n = Some (if unat offset + unat n \<le> length (pm_base h)
    then (OK, take (unat n) (drop (unat offset) (pm_base h))) else (PosixError P (pm_filename h) EINVAL, []))"
proof -
  have "unat (offset + n) = unat offset + unat n" using assms(1) by (simp add: unat_add_small)
  with assms(2) show ?thesis
    by (auto simp: PosixMmapReadableFile_Read_def word_less_nat_alt unat_of_nat_small)
qed

interpretation mmap_file: random_access_file "PosixMmapReadable P h" "pm_base h"
proof (unfold_locales, goal_cases)
  case (1 off n)
  then show ?case by (simp add: PosixMmapReadable_def mmap_read_exact)
qed

text \<open>A file that is opened as descriptor 3 for each read, or stays open as 5, on a system whose
  \<open>pread\<close> returns what is asked for as far as the file has it.\<close>

interpretation pread_file: random_access_file
  "PosixRandomAccess P (\<lambda>_. Inr 3) (\<lambda>_ n off. Inr (take n (drop (unat off) contents)))
     (fst (new_PosixRandomAccessFile filename 5 limiter))" contents
  by unfold_locales (simp add: PosixRandomAccess_def PosixRandomAccessFile_Read_def new_PosixRandomAccessFile_def split: prod.split)

text \<open>The sum of the check wraps: an offset close to \<open>2 ^ 64\<close>, as a damaged block handle may
  contain it, passes.\<close>

lemma mmap_read_wraps:
  "PosixMmapReadableFile_Read P \<lparr>pm_base = replicate 16 0, pm_filename = []\<rparr> (- 4) 12 = None"
  by (simp add: PosixMmapReadableFile_Read_def word_less_nat_alt)

end
