(* ===== verification/Ldb_Log.thy ===== *)
theory Ldb_Log
  imports Ldb_Crc32c Ldb_Env
begin

text \<open>
  The write-ahead log: \<open>db/log_format.h\<close>, \<open>db/log_writer.cc\<close> and \<open>db/log_reader.cc\<close>.

  A record is cut into fragments that do not cross the 32 KB blocks of the file; each has a
  header with a checksum, its length and its place in the record. The files are arguments
  (\<open>WritableFile\<close>, \<open>SequentialFile\<close>); a failing assertion or an access outside the buffer
  is \<open>None\<close>. The reporter is the list of the corruptions reported to it.
\<close>

section \<open>Format\<close>

definition kZeroType :: nat where "kZeroType = 0"
definition kFullType :: nat where "kFullType = 1"
definition kFirstType :: nat where "kFirstType = 2"
definition kMiddleType :: nat where "kMiddleType = 3"
definition kLastType :: nat where "kLastType = 4"
definition kMaxRecordType :: nat where "kMaxRecordType = kLastType"
definition kEof :: nat where "kEof = kMaxRecordType + 1"
definition kBadRecord :: nat where "kBadRecord = kMaxRecordType + 2"
definition kBlockSize :: nat where "kBlockSize = 32768"
definition kHeaderSize :: nat where "kHeaderSize = 4 + 2 + 1"

named_theorems log_const \<open>values of the constants of the log format\<close>

declare kZeroType_def [log_const] kFullType_def [log_const] kFirstType_def [log_const] kMiddleType_def [log_const]
  kLastType_def [log_const] kMaxRecordType_def [log_const] kEof_def [log_const] kBadRecord_def [log_const]
  kBlockSize_def [log_const] kHeaderSize_def [log_const]

section \<open>The writer\<close>

record 'f Writer =
  lw_dest :: 'f
  lw_block_offset :: nat
  lw_type_crc :: "u32 list"

text \<open>The checksum routine takes the address of the data, for its alignment; it does not change
  the result (\<open>Ldb_Crc32c.crc32c_extend_eq\<close>), and address 0 stands for it here.\<close>

definition InitTypeCrc :: "u32 list option" where
  "InitTypeCrc = those (map (\<lambda>i. Value 0 [of_nat i]) [0..<kMaxRecordType + 1])"

definition new_Writer :: "'f \<Rightarrow> 'f Writer option" where
  "new_Writer dest = do {
     type_crc \<leftarrow> InitTypeCrc;
     Some \<lparr>lw_dest = dest, lw_block_offset = 0, lw_type_crc = type_crc\<rparr> }"

definition new_Writer_at :: "'f \<Rightarrow> u64 \<Rightarrow> 'f Writer option" where
  "new_Writer_at dest dest_length = do {
     type_crc \<leftarrow> InitTypeCrc;
     Some \<lparr>lw_dest = dest, lw_block_offset = unat dest_length mod kBlockSize, lw_type_crc = type_crc\<rparr> }"

definition EmitPhysicalRecord :: "'f WritableFile \<Rightarrow> nat \<Rightarrow> byte list \<Rightarrow> 'f Writer \<Rightarrow> (Status \<times> 'f Writer) option" where
  "EmitPhysicalRecord F t ptr w = (let len = length ptr in
     if \<not> (len \<le> 0xFFFF \<and> lw_block_offset w + kHeaderSize + len \<le> kBlockSize) then None
     else do {
       crc \<leftarrow> Extend 0 (lw_type_crc w ! t) ptr;
       let buf = EncodeFixed32 (Mask crc) @ [of_nat (len mod 256), of_nat (len div 256), of_nat t];
       (s, dest) \<leftarrow> wf_Append F buf (lw_dest w);
       (s, dest) \<leftarrow> (if ok s then do {
           (s, dest) \<leftarrow> wf_Append F ptr dest;
           if ok s then wf_Flush F dest else Some (s, dest) }
         else Some (s, dest));
       Some (s, w\<lparr>lw_dest := dest, lw_block_offset := lw_block_offset w + kHeaderSize + len\<rparr>) })"

text \<open>Switch to a new block when a header does not fit. The status of this \<open>Append\<close> is not
  looked at.\<close>

definition switch_block :: "'f WritableFile \<Rightarrow> 'f Writer \<Rightarrow> 'f Writer option" where
  "switch_block F w = (if kBlockSize < lw_block_offset w then None
     else let leftover = kBlockSize - lw_block_offset w in
       if leftover < kHeaderSize then do {
         dest \<leftarrow> (if 0 < leftover then do { (_, dest) \<leftarrow> wf_Append F (replicate leftover 0) (lw_dest w); Some dest }
                  else Some (lw_dest w));
         Some (w\<lparr>lw_dest := dest, lw_block_offset := 0\<rparr>) }
       else Some w)"

lemma switch_block_offset: "switch_block F w = Some w' \<Longrightarrow> lw_block_offset w' + kHeaderSize \<le> kBlockSize"
  by (auto simp: switch_block_def Let_def bind_Some_iff kHeaderSize_def kBlockSize_def split: if_splits)

definition fragment_type :: "bool \<Rightarrow> bool \<Rightarrow> nat" where
  "fragment_type begin end = (if begin \<and> end then kFullType else if begin then kFirstType
     else if end then kLastType else kMiddleType)"

lemma EmitPhysicalRecord_offset:
  "EmitPhysicalRecord F t ptr w = Some (s, w') \<Longrightarrow> lw_block_offset w' = lw_block_offset w + kHeaderSize + length ptr"
  by (auto simp: EmitPhysicalRecord_def Let_def bind_Some_iff split: if_splits)

function add_fragments :: "'f WritableFile \<Rightarrow> bool \<Rightarrow> byte list \<Rightarrow> 'f Writer \<Rightarrow> (Status \<times> 'f Writer) option" where
  "add_fragments F begin ptr w = do {
     w \<leftarrow> switch_block F w;
     let avail = kBlockSize - lw_block_offset w - kHeaderSize;
     let fragment_length = (if length ptr < avail then length ptr else avail);
     let end = (length ptr = fragment_length);
     (s, w) \<leftarrow> EmitPhysicalRecord F (fragment_type begin end) (take fragment_length ptr) w;
     if ok s \<and> 0 < length ptr - fragment_length
     then add_fragments F False (drop fragment_length ptr) w
     else Some (s, w) }"
  by pat_completeness auto
termination
proof (relation "measure (\<lambda>(F, begin, ptr, w). 2 * length ptr +
    (if lw_block_offset w = kBlockSize - kHeaderSize then 1 else 0))", goal_cases)
  case (2 F first ptr w v avail fragment_length e z s u)
  have v: "lw_block_offset v = lw_block_offset w \<or> lw_block_offset v = 0"
    using 2(1) by (auto simp: switch_block_def Let_def bind_Some_iff split: if_splits)
  have u: "lw_block_offset u = lw_block_offset v + kHeaderSize + fragment_length"
    using 2 EmitPhysicalRecord_offset [of F "fragment_type first e" "take fragment_length ptr" v s u] by auto
  show ?case using 2 u v switch_block_offset [OF 2(1)] by (auto simp: log_const split: if_splits)
qed simp

declare add_fragments.simps [simp del]

definition AddRecord :: "'f WritableFile \<Rightarrow> byte list \<Rightarrow> 'f Writer \<Rightarrow> (Status \<times> 'f Writer) option" where
  "AddRecord F data w = add_fragments F True data w"

section \<open>The reader\<close>

text \<open>The reporter is \<open>None\<close> for a null pointer, else what it has been told.\<close>

record 'f Reader =
  lr_file :: 'f
  lr_reporter :: "(nat \<times> Status) list option"
  lr_checksum :: bool
  lr_buffer :: "byte list"
  lr_eof :: bool
  lr_last_record_offset :: u64
  lr_end_of_buffer_offset :: u64
  lr_initial_offset :: u64
  lr_resyncing :: bool

definition new_Reader :: "'f \<Rightarrow> (nat \<times> Status) list option \<Rightarrow> bool \<Rightarrow> u64 \<Rightarrow> 'f Reader" where
  "new_Reader file reporter checksum initial_offset = \<lparr>lr_file = file, lr_reporter = reporter, lr_checksum = checksum,
     lr_buffer = [], lr_eof = False, lr_last_record_offset = 0, lr_end_of_buffer_offset = 0,
     lr_initial_offset = initial_offset, lr_resyncing = (0 < initial_offset)\<rparr>"

definition ReportDrop :: "nat \<Rightarrow> Status \<Rightarrow> 'f Reader \<Rightarrow> 'f Reader" where
  "ReportDrop bytes reason r = (case lr_reporter r of None \<Rightarrow> r
   | Some reports \<Rightarrow>
       if lr_initial_offset r \<le> lr_end_of_buffer_offset r - of_nat (length (lr_buffer r)) - of_nat bytes
       then r\<lparr>lr_reporter := Some (reports @ [(bytes, reason)])\<rparr> else r)"

definition ReportCorruption :: "nat \<Rightarrow> byte list \<Rightarrow> 'f Reader \<Rightarrow> 'f Reader" where
  "ReportCorruption bytes reason r = ReportDrop bytes (Corruption reason) r"

definition SkipToInitialBlock :: "'f SequentialFile \<Rightarrow> 'f Reader \<Rightarrow> bool \<times> 'f Reader" where
  "SkipToInitialBlock F r = (
     let offset_in_block = lr_initial_offset r mod of_nat kBlockSize;
         block_start_location = lr_initial_offset r - offset_in_block;
         block_start_location = (if of_nat (kBlockSize - 6) < offset_in_block
           then block_start_location + of_nat kBlockSize else block_start_location);
         r = r\<lparr>lr_end_of_buffer_offset := block_start_location\<rparr> in
     if 0 < block_start_location then
       (case sf_Skip F block_start_location (lr_file r) of (skip_status, file) \<Rightarrow>
          let r = r\<lparr>lr_file := file\<rparr> in
          if \<not> ok skip_status then (False, ReportDrop (unat block_start_location) skip_status r)
          else (True, r))
     else (True, r))"

text \<open>The header at the start of the buffer: length and type, which is read as a \<open>char\<close>.\<close>

definition header_length :: "byte list \<Rightarrow> nat" where
  "header_length header = unat (ucast (header ! 4) OR push_bit 8 (ucast (header ! 5)) :: u32)"

definition header_type :: "byte list \<Rightarrow> nat" where
  "header_type header = unat (scast (header ! 6) :: u32)"

definition crc_matches :: "byte list \<Rightarrow> nat \<Rightarrow> bool option" where
  "crc_matches header len = do {
     w \<leftarrow> DecodeFixed32 header;
     actual_crc \<leftarrow> Value 0 (take (1 + len) (drop 6 header));
     Some (actual_crc = Unmask w) }"

text \<open>A buffer with at least a header.\<close>

definition parse_physical :: "byte list \<Rightarrow> 'f Reader \<Rightarrow> (nat \<times> byte list \<times> 'f Reader) option" where
  "parse_physical result r = (
     let header = lr_buffer r; type = header_type header; len = header_length header in
     if length (lr_buffer r) < kHeaderSize + len then
       (let drop_size = length (lr_buffer r); r = r\<lparr>lr_buffer := []\<rparr> in
        if \<not> lr_eof r then Some (kBadRecord, result, ReportCorruption drop_size (ascii ''bad record length'') r)
        else Some (kEof, result, r))
     else if type = kZeroType \<and> len = 0 then Some (kBadRecord, result, r\<lparr>lr_buffer := []\<rparr>)
     else do {
       crc_ok \<leftarrow> (if lr_checksum r then crc_matches header len else Some True);
       if \<not> crc_ok then
         (let drop_size = length (lr_buffer r); r = r\<lparr>lr_buffer := []\<rparr> in
          Some (kBadRecord, result, ReportCorruption drop_size (ascii ''checksum mismatch'') r))
       else
         (let r = r\<lparr>lr_buffer := drop (kHeaderSize + len) (lr_buffer r)\<rparr> in
          if lr_end_of_buffer_offset r - of_nat (length (lr_buffer r)) - of_nat kHeaderSize - of_nat len < lr_initial_offset r
          then Some (kBadRecord, [], r)
          else Some (type, take len (drop kHeaderSize header), r)) })"

text \<open>\<open>result\<close> is what the out parameter holds, before and after the call.\<close>

function ReadPhysicalRecord :: "'f SequentialFile \<Rightarrow> byte list \<Rightarrow> 'f Reader \<Rightarrow> (nat \<times> byte list \<times> 'f Reader) option" where
  "ReadPhysicalRecord F result r = (if length (lr_buffer r) < kHeaderSize then
     (if \<not> lr_eof r then do {
        (status, data, file) \<leftarrow> sf_Read F kBlockSize (lr_file r);
        let r = r\<lparr>lr_file := file, lr_buffer := data,
          lr_end_of_buffer_offset := lr_end_of_buffer_offset r + of_nat (length data)\<rparr>;
        if \<not> ok status then Some (kEof, result, (ReportDrop kBlockSize status (r\<lparr>lr_buffer := []\<rparr>))\<lparr>lr_eof := True\<rparr>)
        else ReadPhysicalRecord F result (if length data < kBlockSize then r\<lparr>lr_eof := True\<rparr> else r) }
      else Some (kEof, result, r\<lparr>lr_buffer := []\<rparr>))
   else parse_physical result r)"
  by pat_completeness auto
termination
  by (relation "measure (\<lambda>(F, result, r). if length (lr_buffer r) < kHeaderSize \<and> \<not> lr_eof r then 1 else 0)")
    (auto simp: log_const split: if_splits)

declare ReadPhysicalRecord.simps [simp del]

text \<open>The switch of \<open>ReadRecord\<close>: return, with a record or without, or go on.\<close>

definition record_switch :: "nat \<Rightarrow> byte list \<Rightarrow> u64 \<Rightarrow> bool \<Rightarrow> byte list \<Rightarrow> u64 \<Rightarrow> 'f Reader \<Rightarrow>
    (byte list option + bool \<times> byte list \<times> u64) \<times> 'f Reader" where
  "record_switch record_type fragment physical_record_offset in_fragmented_record scratch prospective r = (
     if record_type = kFullType then
       (let r = (if in_fragmented_record \<and> scratch \<noteq> []
            then ReportCorruption (length scratch) (ascii ''partial record without end(1)'') r else r) in
        (Inl (Some fragment), r\<lparr>lr_last_record_offset := physical_record_offset\<rparr>))
     else if record_type = kFirstType then
       (let r = (if in_fragmented_record \<and> scratch \<noteq> []
            then ReportCorruption (length scratch) (ascii ''partial record without end(2)'') r else r) in
        (Inr (True, fragment, physical_record_offset), r))
     else if record_type = kMiddleType then
       (if \<not> in_fragmented_record then
          (Inr (in_fragmented_record, scratch, prospective),
           ReportCorruption (length fragment) (ascii ''missing start of fragmented record(1)'') r)
        else (Inr (in_fragmented_record, scratch @ fragment, prospective), r))
     else if record_type = kLastType then
       (if \<not> in_fragmented_record then
          (Inr (in_fragmented_record, scratch, prospective),
           ReportCorruption (length fragment) (ascii ''missing start of fragmented record(2)'') r)
        else (Inl (Some (scratch @ fragment)), r\<lparr>lr_last_record_offset := prospective\<rparr>))
     else if record_type = kEof then (Inl None, r)
     else if record_type = kBadRecord then
       (if in_fragmented_record then
          (Inr (False, [], prospective), ReportCorruption (length scratch) (ascii ''error in middle of record'') r)
        else (Inr (in_fragmented_record, scratch, prospective), r))
     else (Inr (False, [], prospective),
        ReportCorruption (length fragment + (if in_fragmented_record then length scratch else 0))
          (snprintf 40 (ascii ''unknown record type '' @ decimal record_type)) r))"

text \<open>The loop of \<open>ReadRecord\<close>; a file without end may keep it going for ever.\<close>

partial_function (option) read_loop :: "'f SequentialFile \<Rightarrow> byte list \<Rightarrow> bool \<Rightarrow> byte list \<Rightarrow> u64 \<Rightarrow> 'f Reader \<Rightarrow>
    (byte list option \<times> 'f Reader) option" where
  "read_loop F fragment in_fragmented_record scratch prospective r = (
     case ReadPhysicalRecord F fragment r of None \<Rightarrow> None
     | Some (record_type, fragment, r) \<Rightarrow>
         if lr_resyncing r \<and> record_type = kMiddleType
         then read_loop F fragment in_fragmented_record scratch prospective r
         else if lr_resyncing r \<and> record_type = kLastType
         then read_loop F fragment in_fragmented_record scratch prospective (r\<lparr>lr_resyncing := False\<rparr>)
         else (case record_switch record_type fragment
                 (lr_end_of_buffer_offset r - of_nat (length (lr_buffer r)) - of_nat kHeaderSize - of_nat (length fragment))
                 in_fragmented_record scratch prospective (r\<lparr>lr_resyncing := False\<rparr>) of
             (Inl result, r) \<Rightarrow> Some (result, r)
           | (Inr (in_fragmented_record, scratch, prospective), r) \<Rightarrow>
               read_loop F fragment in_fragmented_record scratch prospective r))"

text \<open>\<open>None\<close> in the result stands for \<open>false\<close>, the end of the input.\<close>

definition ReadRecord :: "'f SequentialFile \<Rightarrow> 'f Reader \<Rightarrow> (byte list option \<times> 'f Reader) option" where
  "ReadRecord F r = (case (if lr_last_record_offset r < lr_initial_offset r then SkipToInitialBlock F r else (True, r)) of
     (skipped, r) \<Rightarrow> if \<not> skipped then Some (None, r) else read_loop F [] False [] 0 r)"

definition LastRecordOffset :: "'f Reader \<Rightarrow> u64" where
  "LastRecordOffset r = lr_last_record_offset r"

end
