(* ===== verification/Ldb_Log_Roundtrip.thy ===== *)
theory Ldb_Log_Roundtrip
  imports Ldb_Log
begin

text \<open>
  What the log promises: the reader returns the records that the writer was given, and after
  a crash, when only a part of the file is there, the records that are complete.

  The file format is the inductive relation \<open>frags\<close>; the writer is shown to produce it and
  the reader to understand it, each over the contract of its file.
\<close>

section \<open>The format\<close>

definition phys :: "nat \<Rightarrow> byte list \<Rightarrow> byte list" where
  "phys t d = EncodeFixed32 (Mask (crc32c 0 (of_nat t # d))) @ [of_nat (length d mod 256), of_nat (length d div 256), of_nat t] @ d"

text \<open>Where the next header goes, and the trailer in front of it.\<close>

definition head_offset :: "nat \<Rightarrow> nat" where
  "head_offset off = (if kBlockSize - off < kHeaderSize then 0 else off)"

definition trailer :: "nat \<Rightarrow> byte list" where
  "trailer off = (if kBlockSize - off < kHeaderSize then replicate (kBlockSize - off) 0 else [])"

text \<open>\<open>frags off first d s off'\<close>: at offset \<open>off\<close> of a block, \<open>s\<close> is an encoding of the (rest of
  the) record \<open>d\<close> that ends at offset \<open>off'\<close>.\<close>

inductive frags :: "nat \<Rightarrow> bool \<Rightarrow> byte list \<Rightarrow> byte list \<Rightarrow> nat \<Rightarrow> bool" where
  frag_end: "head_offset off + kHeaderSize + length d \<le> kBlockSize \<Longrightarrow>
    frags off first d (trailer off @ phys (fragment_type first True) d) (head_offset off + kHeaderSize + length d)"
| frag_more: "head_offset off + kHeaderSize + length d = kBlockSize \<Longrightarrow> frags kBlockSize False e s off' \<Longrightarrow>
    frags off first (d @ e) (trailer off @ phys (fragment_type first False) d @ s) off'"

lemma fragment_type_cases: "fragment_type a b \<in> {1, 2, 3, 4}"
  by (simp add: fragment_type_def log_const)

lemma frags_end: "frags off first d s off' \<Longrightarrow> 0 < off' \<and> off' \<le> kBlockSize"
  by (induction rule: frags.induct) (simp_all add: log_const)

section \<open>The writer\<close>

lemma InitTypeCrc_Some: "\<exists>crcs. InitTypeCrc = Some crcs \<and> (\<forall>t \<in> {1, 2, 3, 4}. crcs ! t = crc32c 0 [of_nat t])"
  by (simp add: InitTypeCrc_def Value_def crc32c_extend_eq log_const upt_rec numeral_eq_Suc)

lemma crc32c_Cons: "crc32c (crc32c 0 [b]) d = crc32c 0 (b # d)"
  using crc_feed_append [of "NOT 0" "[b]" d] by (simp add: crc32c_def)

definition type_crcs_ok :: "'f Writer \<Rightarrow> bool" where
  "type_crcs_ok w \<longleftrightarrow> (\<forall>t \<in> {1, 2, 3, 4}. lw_type_crc w ! t = crc32c 0 [of_nat t])"

context writable_file
begin

lemma switch_block_ok:
  assumes "lw_block_offset w \<le> kBlockSize" and "inv (lw_dest w)" and "reliable (lw_dest w)"
  obtains f where "switch_block F w = Some (w\<lparr>lw_dest := f, lw_block_offset := head_offset (lw_block_offset w)\<rparr>)"
    "written f = written (lw_dest w) @ trailer (lw_block_offset w)" "inv f" "reliable f"
proof (cases "0 < kBlockSize - lw_block_offset w \<and> kBlockSize - lw_block_offset w < kHeaderSize")
  case True
  obtain f where "wf_Append F (replicate (kBlockSize - lw_block_offset w) 0) (lw_dest w) = Some (OK, f)"
    "written f = written (lw_dest w) @ replicate (kBlockSize - lw_block_offset w) 0" "inv f" "reliable f"
    using append_reliable_total [OF assms(2,3)] by blast
  with True assms(1) show thesis
    by (intro that [of f]) (simp_all add: switch_block_def head_offset_def trailer_def)
next
  case False
  with assms show thesis
    by (intro that [of "lw_dest w"]) (auto simp: switch_block_def head_offset_def trailer_def log_const)
qed

lemma EmitPhysicalRecord_ok:
  assumes "lw_block_offset w + kHeaderSize + length d \<le> kBlockSize" and "inv (lw_dest w)" and "reliable (lw_dest w)"
    and "t \<in> {1, 2, 3, 4}" and "type_crcs_ok w"
  obtains f where "EmitPhysicalRecord F t d w = Some (OK, w\<lparr>lw_dest := f, lw_block_offset := lw_block_offset w + kHeaderSize + length d\<rparr>)"
    "written f = written (lw_dest w) @ phys t d" "inv f" "reliable f"
proof -
  let ?h = "EncodeFixed32 (Mask (crc32c 0 (of_nat t # d))) @ [of_nat (length d mod 256), of_nat (length d div 256), of_nat t]"
  obtain f1 where f1: "wf_Append F ?h (lw_dest w) = Some (OK, f1)" "written f1 = written (lw_dest w) @ ?h" "inv f1" "reliable f1"
    using append_reliable_total [OF assms(2,3)] by blast
  obtain f2 where f2: "wf_Append F d f1 = Some (OK, f2)" "written f2 = written f1 @ d" "inv f2" "reliable f2"
    using append_reliable_total [OF f1(3,4)] by blast
  obtain f3 where f3: "wf_Flush F f2 = Some (OK, f3)" "written f3 = written f2" "inv f3" "reliable f3"
    using flush_reliable_total [OF f2(3,4)] by blast
  have "Extend 0 (lw_type_crc w ! t) d = Some (crc32c 0 (of_nat t # d))"
    using assms(4,5) by (auto simp: type_crcs_ok_def crc32c_extend_eq crc32c_Cons)
  moreover have "length d \<le> 0xFFFF" using assms(1) by (simp add: log_const)
  ultimately show thesis
    using f1 f2 f3 assms(1)
    by (intro that [of f3]) (simp_all add: EmitPhysicalRecord_def phys_def Let_def del: of_nat_mod of_nat_div)
qed

lemma add_fragments_ok:
  assumes "lw_block_offset w \<le> kBlockSize" and "inv (lw_dest w)" and "reliable (lw_dest w)" and "type_crcs_ok w"
  shows "\<exists>w' s. add_fragments F first d w = Some (OK, w') \<and> frags (lw_block_offset w) first d s (lw_block_offset w') \<and>
    written (lw_dest w') = written (lw_dest w) @ s \<and> inv (lw_dest w') \<and> reliable (lw_dest w') \<and> type_crcs_ok w'"
  using assms
proof (induction "2 * length d + (if lw_block_offset w = kBlockSize - kHeaderSize then 1 else 0)"
    arbitrary: first d w rule: less_induct)
  case less
  let ?off = "lw_block_offset w" and ?h = "head_offset (lw_block_offset w)"
  obtain f where f: "switch_block F w = Some (w\<lparr>lw_dest := f, lw_block_offset := ?h\<rparr>)"
    "written f = written (lw_dest w) @ trailer ?off" "inv f" "reliable f"
    using switch_block_ok less.prems by blast
  define v where "v = w\<lparr>lw_dest := f, lw_block_offset := ?h\<rparr>"
  define k where "k = (if length d < kBlockSize - ?h - kHeaderSize then length d else kBlockSize - ?h - kHeaderSize)"
  define t where "t = fragment_type first (length d = k)"
  have h: "?h + kHeaderSize \<le> kBlockSize" by (auto simp: head_offset_def log_const)
  have k: "?h + kHeaderSize + k \<le> kBlockSize" "k \<le> length d" using h by (auto simp: k_def)
  obtain g where g: "EmitPhysicalRecord F t (take k d) v = Some (OK, v\<lparr>lw_dest := g, lw_block_offset := ?h + kHeaderSize + k\<rparr>)"
    "written g = written f @ phys t (take k d)" "inv g" "reliable g"
    using EmitPhysicalRecord_ok [of v "take k d" t] k f less.prems(4) fragment_type_cases [of first "length d = k"]
    by (auto simp: v_def t_def type_crcs_ok_def)
  define u where "u = v\<lparr>lw_dest := g, lw_block_offset := ?h + kHeaderSize + k\<rparr>"
  have sv: "switch_block F w = Some v" using f(1) by (simp add: v_def)
  have k': "(if length d < kBlockSize - lw_block_offset v - kHeaderSize then length d
      else kBlockSize - lw_block_offset v - kHeaderSize) = k" by (simp add: k_def v_def)
  have crcs: "type_crcs_ok u" using less.prems(4) by (simp add: u_def v_def type_crcs_ok_def)
  have step: "add_fragments F first d w = (if 0 < length d - k then add_fragments F False (drop k d) u else Some (OK, u))"
    unfolding add_fragments.simps [of F first d w]
    by (simp only: sv bind.simps Let_def k' t_def [symmetric] g(1) u_def [symmetric] prod.case ok_simps simp_thms)
  show ?case
  proof (cases "length d = k")
    case True
    then have "frags ?off first d (trailer ?off @ phys t d) (lw_block_offset u)"
      using frag_end [of ?off d first] k by (simp add: t_def u_def)
    then show ?thesis
      using True step crcs f g by (intro exI [of _ u]) (auto simp: u_def)
  next
    case False
    then have full: "?h + kHeaderSize + k = kBlockSize" and lt: "k < length d"
      using k h by (auto simp: k_def split: if_splits)
    then have "lw_block_offset u = kBlockSize" by (simp add: u_def)
    moreover have "0 < k \<or> ?off = kBlockSize - kHeaderSize"
      using full by (auto simp: head_offset_def log_const split: if_splits)
    ultimately have "2 * length (drop k d) + (if lw_block_offset u = kBlockSize - kHeaderSize then 1 else 0) <
        2 * length d + (if ?off = kBlockSize - kHeaderSize then 1 else 0)"
      using lt by (auto simp: log_const)
    from less.hyps [OF this, of False] obtain w' s where w': "add_fragments F False (drop k d) u = Some (OK, w')"
      "frags kBlockSize False (drop k d) s (lw_block_offset w')" "written (lw_dest w') = written g @ s"
      "inv (lw_dest w')" "reliable (lw_dest w')" "type_crcs_ok w'"
      using g crcs \<open>lw_block_offset u = kBlockSize\<close> by (auto simp: u_def)
    have "frags ?off first d (trailer ?off @ phys t (take k d) @ s) (lw_block_offset w')"
      using frag_more [of ?off "take k d" "drop k d" s _ first] full lt w'(2) False by (simp add: t_def)
    with step lt w' f g show ?thesis by auto
  qed
qed

end

section \<open>The reader\<close>

lemma phys_length [simp]: "length (phys t d) = kHeaderSize + length d"
  by (simp add: phys_def log_const)

lemma unat_two_bytes: "unat (ucast (a :: byte) OR push_bit 8 (ucast (b :: byte)) :: u32) = unat a + 256 * unat b"
proof -
  have "(ucast a AND push_bit 8 (ucast b) :: u32) = 0"
    by (rule bit_word_eqI) (auto simp: bit_simps dest: bit_imp_le_length)
  then have "(ucast a OR push_bit 8 (ucast b) :: u32) = ucast a + push_bit 8 (ucast b)"
    by (rule disjunctive_add_eq_or [symmetric])
  then show ?thesis
    using unat_lt [of a] unat_lt [of b]
    by (simp add: push_bit_eq_mult unat_word_ariths unsigned_ucast_eq take_bit_nat_eq_self)
qed

lemma phys_parts:
  assumes "length d < 65536" and "t < 128"
  shows "header_length (phys t d @ x) = length d" and "header_type (phys t d @ x) = t"
    and "crc_matches (phys t d @ x) (length d) = Some True" and "take (length d) (drop kHeaderSize (phys t d @ x)) = d"
proof -
  let ?lo = "of_nat (length d mod 256) :: byte" and ?hi = "of_nat (length d div 256) :: byte"
  have nth: "(phys t d @ x) ! 4 = ?lo" "(phys t d @ x) ! 5 = ?hi" "(phys t d @ x) ! 6 = of_nat t"
    by (simp_all add: phys_def nth_append del: of_nat_mod of_nat_div)
  have lo: "unat ?lo = length d mod 256" by (simp add: unat_of_nat_small del: of_nat_mod)
  have hi: "unat ?hi = length d div 256"
    using assms(1) by (simp add: unat_of_nat_small div_less_iff_less_mult del: of_nat_div)
  show "header_length (phys t d @ x) = length d"
    using lo hi by (simp add: header_length_def nth unat_two_bytes)
  have "unat (of_nat t :: byte) = t" using assms(2) by (simp add: unat_of_nat_small)
  then show "header_type (phys t d @ x) = t"
    using assms(2) by (simp add: header_type_def nth scast_byte unsigned_ucast_eq take_bit_nat_eq_self)
  show "crc_matches (phys t d @ x) (length d) = Some True"
    by (simp add: crc_matches_def phys_def Value_def crc32c_extend_eq Unmask_Mask)
  show "take (length d) (drop kHeaderSize (phys t d @ x)) = d"
    by (simp add: phys_def kHeaderSize_def)
qed

lemma fragment_type_small: "fragment_type a b < 128" "fragment_type a b \<noteq> kZeroType"
  by (auto simp: fragment_type_def log_const)

lemma parse_physical_ok:
  assumes "lr_buffer r = phys t d @ x" and "length d < 65536" and "t < 128" and "t \<noteq> kZeroType" and "lr_initial_offset r = 0"
  shows "parse_physical result r = Some (t, d, r\<lparr>lr_buffer := x\<rparr>)"
  using phys_parts [OF assms(2,3), of x] assms(1,4,5)
  by (simp add: parse_physical_def Let_def)

lemma parse_physical_truncated:
  assumes "phys t d = lr_buffer r @ v" and "v \<noteq> []" and "length d < 65536" and "t < 128"
    and "kHeaderSize \<le> length (lr_buffer r)" and "lr_eof r"
  shows "parse_physical result r = Some (kEof, result, r\<lparr>lr_buffer := []\<rparr>)"
proof -
  have "lr_buffer r ! i = phys t d ! i" if "i < kHeaderSize" for i using that assms(1,5) by (simp add: nth_append)
  then have "header_length (lr_buffer r) = length d"
    using phys_parts(1) [OF assms(3,4), of "[]"] by (simp add: header_length_def kHeaderSize_def)
  moreover have "length (lr_buffer r) < kHeaderSize + length d"
    using arg_cong [OF assms(1), of length] assms(2) by simp
  ultimately show ?thesis using assms(6) by (simp add: parse_physical_def Let_def)
qed

text \<open>The reader stands at offset \<open>off\<close> of a block, with the bytes \<open>s\<close> ahead of it.\<close>

definition stands_at :: "('f \<Rightarrow> byte list) \<Rightarrow> ('f \<Rightarrow> bool) \<Rightarrow> 'f Reader \<Rightarrow> nat \<Rightarrow> byte list \<Rightarrow> bool" where
  "stands_at rest reliable r off s \<longleftrightarrow> off \<le> kBlockSize \<and> lr_buffer r = take (kBlockSize - off) s \<and>
     rest (lr_file r) = drop (kBlockSize - off) s \<and> (lr_eof r \<longleftrightarrow> length s < kBlockSize - off) \<and>
     reliable (lr_file r) \<and> lr_initial_offset r = 0 \<and> \<not> lr_resyncing r"

lemma append_shorter: "a @ b = u @ v \<Longrightarrow> length u < length a \<Longrightarrow> \<exists>w. a = u @ w \<and> w \<noteq> []"
  by (auto simp: append_eq_append_conv2)

lemma append_longer: "a @ b = u @ v \<Longrightarrow> \<not> length u < length a \<Longrightarrow> \<exists>w. u = a @ w \<and> b = w @ v"
  by (auto simp: append_eq_append_conv2)

context sequential_file
begin

text \<open>The next block.\<close>

lemma ReadPhysicalRecord_refill:
  assumes "length (lr_buffer r) < kHeaderSize" and "\<not> lr_eof r" and "reliable (lr_file r)"
  shows "\<exists>f off. ReadPhysicalRecord F result r = ReadPhysicalRecord F result (r\<lparr>lr_file := f,
      lr_buffer := take kBlockSize (rest (lr_file r)), lr_end_of_buffer_offset := off,
      lr_eof := length (rest (lr_file r)) < kBlockSize\<rparr>) \<and> rest f = drop kBlockSize (rest (lr_file r)) \<and> reliable f"
proof -
  obtain f where f: "sf_Read F kBlockSize (lr_file r) = Some (OK, take kBlockSize (rest (lr_file r)), f)"
    "rest f = drop kBlockSize (rest (lr_file r))" "reliable f"
    using read_reliable_total [OF assms(3)] by blast
  have "ReadPhysicalRecord F result r = ReadPhysicalRecord F result (r\<lparr>lr_file := f,
      lr_buffer := take kBlockSize (rest (lr_file r)), lr_end_of_buffer_offset := lr_end_of_buffer_offset r +
        of_nat (length (take kBlockSize (rest (lr_file r)))), lr_eof := length (rest (lr_file r)) < kBlockSize\<rparr>)"
    using assms(1,2) f(1) by (cases r, subst ReadPhysicalRecord.simps) (simp add: Let_def not_less min_def)
  then show ?thesis using f by blast
qed

text \<open>Over the trailer, if one is next.\<close>

lemma skip_trailer:
  assumes "stands_at rest reliable r off (trailer off @ s)" 
  shows "\<exists>r'. ReadPhysicalRecord F result r = ReadPhysicalRecord F result r' \<and>
    stands_at rest reliable r' (head_offset off) s \<and> lr_reporter r' = lr_reporter r"
proof (cases "kBlockSize - off < kHeaderSize")
  case True
  have pre: "length (lr_buffer r) < kHeaderSize" "\<not> lr_eof r" "reliable (lr_file r)" "rest (lr_file r) = s"
    using assms True by (simp_all add: stands_at_def trailer_def)
  obtain f n where f: "ReadPhysicalRecord F result r = ReadPhysicalRecord F result (r\<lparr>lr_file := f,
      lr_buffer := take kBlockSize s, lr_end_of_buffer_offset := n, lr_eof := length s < kBlockSize\<rparr>)"
    "rest f = drop kBlockSize s" "reliable f"
    using ReadPhysicalRecord_refill [OF pre(1-3), of result] pre(4) by auto
  let ?r = "r\<lparr>lr_file := f, lr_buffer := take kBlockSize s, lr_end_of_buffer_offset := n, lr_eof := length s < kBlockSize\<rparr>"
  have "stands_at rest reliable ?r (head_offset off) s"
    using assms True f by (simp add: stands_at_def head_offset_def)
  moreover have "lr_reporter ?r = lr_reporter r" by simp
  ultimately show ?thesis using f(1) by blast
next
  case False
  with assms show ?thesis by (auto simp: trailer_def head_offset_def)
qed

lemma read_next:
  assumes "stands_at rest reliable r off (trailer off @ phys t d @ s)"
    and "head_offset off + kHeaderSize + length d \<le> kBlockSize" and "t < 128" and "t \<noteq> kZeroType"
  shows "\<exists>r'. ReadPhysicalRecord F result r = Some (t, d, r') \<and>
    stands_at rest reliable r' (head_offset off + kHeaderSize + length d) s \<and> lr_reporter r' = lr_reporter r"
proof -
  let ?h = "head_offset off"
  obtain r' where r': "ReadPhysicalRecord F result r = ReadPhysicalRecord F result r'"
    "stands_at rest reliable r' ?h (phys t d @ s)" "lr_reporter r' = lr_reporter r"
    using skip_trailer [OF assms(1)] by blast
  have d: "length d < 65536" using assms(2) by (simp add: log_const)
  have buf: "lr_buffer r' = phys t d @ take (kBlockSize - (?h + kHeaderSize + length d)) s"
    using r'(2) assms(2) by (simp add: stands_at_def add.assoc)
  then have "ReadPhysicalRecord F result r' = parse_physical result r'"
    by (subst ReadPhysicalRecord.simps) simp
  also have "\<dots> = Some (t, d, r'\<lparr>lr_buffer := take (kBlockSize - (?h + kHeaderSize + length d)) s\<rparr>)"
    using buf d assms(3,4) r'(2) by (intro parse_physical_ok) (simp_all add: stands_at_def)
  finally show ?thesis using r' assms(2) by (auto simp: stands_at_def add.assoc)
qed

lemma read_next_truncated:
  assumes "stands_at rest reliable r off u" and "trailer off @ phys t d = u @ v" and "v \<noteq> []"
    and "head_offset off + kHeaderSize + length d \<le> kBlockSize" and "t < 128"
  shows "\<exists>r'. ReadPhysicalRecord F result r = Some (kEof, result, r') \<and> lr_reporter r' = lr_reporter r"
proof (cases "length u < length (trailer off)")
  case True
  then have "length (lr_buffer r) < kHeaderSize" "lr_eof r"
    using assms(1) by (auto simp: stands_at_def trailer_def split: if_splits)
  then show ?thesis by (subst ReadPhysicalRecord.simps) simp
next
  case False
  then obtain u' where u: "u = trailer off @ u'" "phys t d = u' @ v"
    using assms(2) by (auto simp: append_eq_append_conv2)
  obtain r' where r': "ReadPhysicalRecord F result r = ReadPhysicalRecord F result r'"
    "stands_at rest reliable r' (head_offset off) u'" "lr_reporter r' = lr_reporter r"
    using skip_trailer [of r off u'] assms(1) u by blast
  have "length u' < kHeaderSize + length d" using arg_cong [OF u(2), of length] assms(3) by simp
  then have buf: "lr_buffer r' = u'" "lr_eof r'" using r'(2) assms(4) by (auto simp: stands_at_def)
  have d: "length d < 65536" using assms(4) by (simp add: log_const)
  show ?thesis
  proof (cases "length u' < kHeaderSize")
    case True
    with buf r' show ?thesis by (simp add: ReadPhysicalRecord.simps [of F result r'])
  next
    case False
    with parse_physical_truncated [of t d r' v result] u(2) buf assms(3,5) d r' show ?thesis
      by (simp add: ReadPhysicalRecord.simps [of F result r'])
  qed
qed

lemma read_record:
  assumes "frags off first d s off'" and "stands_at rest reliable r off (s @ t)" and "in_frag \<longleftrightarrow> \<not> first"
  shows "\<exists>r'. read_loop F fragment in_frag scratch n r = Some (Some (if first then d else scratch @ d), r') \<and>
    stands_at rest reliable r' off' t \<and> lr_reporter r' = lr_reporter r"
  using assms
proof (induction arbitrary: r fragment in_frag scratch n rule: frags.induct)
  case (frag_end off d first)
  let ?t = "fragment_type first True"
  obtain r' where r': "ReadPhysicalRecord F fragment r = Some (?t, d, r')"
    "stands_at rest reliable r' (head_offset off + kHeaderSize + length d) t" "lr_reporter r' = lr_reporter r"
    using read_next [of r off ?t d t fragment] frag_end.prems frag_end.hyps fragment_type_small by auto
  have "\<not> lr_resyncing r'" using r'(2) by (simp add: stands_at_def)
  with r' frag_end.prems show ?case
    by (subst read_loop.simps)
      (auto simp: record_switch_def fragment_type_def log_const stands_at_def)
next
  case (frag_more off d e s off' first)
  let ?t = "fragment_type first False"
  obtain r' where r': "ReadPhysicalRecord F fragment r = Some (?t, d, r')"
    "stands_at rest reliable r' kBlockSize (s @ t)" "lr_reporter r' = lr_reporter r"
    using read_next [of r off ?t d "s @ t" fragment] frag_more fragment_type_small by auto
  let ?r = "r'\<lparr>lr_resyncing := False\<rparr>"
  have sync: "\<not> lr_resyncing r'" and at: "stands_at rest reliable ?r kBlockSize (s @ t)"
    using r'(2) by (simp_all add: stands_at_def)
  define m where "m = (if first then lr_end_of_buffer_offset r' - of_nat (length (lr_buffer r')) - of_nat kHeaderSize -
      of_nat (length d) else n)"
  obtain r'' where "read_loop F d True (if first then d else scratch @ d) m ?r =
      Some (Some ((if first then d else scratch @ d) @ e), r'')" "stands_at rest reliable r'' off' t" "lr_reporter r'' = lr_reporter r'"
    using frag_more.IH [OF at, of True d "if first then d else scratch @ d" m] by auto
  moreover have "read_loop F fragment in_frag scratch n r = read_loop F d True (if first then d else scratch @ d) m ?r"
    using r'(1) sync frag_more.prems(2)
    by (subst read_loop.simps) (auto simp: record_switch_def fragment_type_def log_const m_def)
  ultimately show ?case using r'(3) by auto
qed

lemma read_record_truncated:
  assumes "frags off first d s off'" and "s = u @ v" and "v \<noteq> []" and "stands_at rest reliable r off u"
    and "in_frag \<longleftrightarrow> \<not> first"
  shows "\<exists>r'. read_loop F fragment in_frag scratch n r = Some (None, r') \<and> lr_reporter r' = lr_reporter r"
proof -
  have eof: "read_loop F fragment in_frag scratch n r = Some (None, r'\<lparr>lr_resyncing := False\<rparr>)"
    if "ReadPhysicalRecord F fragment r = Some (kEof, fragment, r')" for r r' :: "'f Reader" and fragment in_frag scratch n
    using that by (subst read_loop.simps) (simp add: record_switch_def log_const)
  show ?thesis
    using assms
  proof (induction arbitrary: u r fragment in_frag scratch n rule: frags.induct)
    case (frag_end off d first)
    from read_next_truncated [OF frag_end.prems(3) frag_end.prems(1,2) frag_end.hyps fragment_type_small(1), of fragment] eof
    show ?case by fastforce
  next
    case (frag_more off d e s off' first)
    let ?t = "fragment_type first False"
    show ?case
    proof (cases "length u < length (trailer off @ phys ?t d)")
      case True
      then obtain v' where "trailer off @ phys ?t d = u @ v'" "v' \<noteq> []"
        using append_shorter [of "trailer off @ phys ?t d" s u v] frag_more.prems(1) by auto
      from read_next_truncated [OF frag_more.prems(3) this _ fragment_type_small(1), of fragment] frag_more.hyps(1) eof
      show ?thesis by fastforce
    next
      case False
      then obtain u' where u: "u = trailer off @ phys ?t d @ u'" "s = u' @ v"
        using append_longer [of "trailer off @ phys ?t d" s u v] frag_more.prems(1) by auto
      obtain r' where r': "ReadPhysicalRecord F fragment r = Some (?t, d, r')"
        "stands_at rest reliable r' kBlockSize u'" "lr_reporter r' = lr_reporter r"
        using read_next [of r off ?t d u' fragment] frag_more u fragment_type_small by auto
      let ?r = "r'\<lparr>lr_resyncing := False\<rparr>"
      have sync: "\<not> lr_resyncing r'" and at: "stands_at rest reliable ?r kBlockSize u'"
        using r'(2) by (simp_all add: stands_at_def)
      have "\<exists>sc m. read_loop F fragment in_frag scratch n r = read_loop F d True sc m ?r"
        using r'(1) sync frag_more.prems(4)
        by (subst read_loop.simps) (auto simp: record_switch_def fragment_type_def log_const)
      with frag_more.IH [OF u(2) frag_more.prems(2) at] r'(3) show ?thesis by fastforce
    qed
  qed
qed

end

section \<open>Whole files\<close>

inductive log_records :: "nat \<Rightarrow> byte list list \<Rightarrow> byte list \<Rightarrow> nat \<Rightarrow> bool" where
  log_Nil: "log_records off [] [] off"
| log_Cons: "frags off True d s off' \<Longrightarrow> log_records off' ds t off'' \<Longrightarrow> log_records off (d # ds) (s @ t) off''"

lemma log_records_append:
  "log_records off xs s off' \<Longrightarrow> log_records off' ys t off'' \<Longrightarrow> log_records off (xs @ ys) (s @ t) off''"
  by (induction rule: log_records.induct) (auto intro: log_records.intros)

text \<open>The start of a block and the end of the one before are the same place.\<close>

lemma frags_zero: "frags 0 first d s off' \<Longrightarrow> frags kBlockSize first d s off'"
proof -
  have eq: "head_offset 0 = head_offset kBlockSize" "trailer 0 = trailer kBlockSize"
    by (simp_all add: head_offset_def trailer_def log_const)
  show "frags 0 first d s off' \<Longrightarrow> frags kBlockSize first d s off'"
    by (erule frags.cases) (auto simp: eq intro: frags.intros)
qed

lemma log_records_zero_ne: "log_records 0 rs s off' \<Longrightarrow> rs \<noteq> [] \<Longrightarrow> log_records kBlockSize rs s off'"
  by (erule log_records.cases) (auto intro: log_records.intros frags_zero)

lemma log_records_zero: "log_records 0 rs s off' \<Longrightarrow> \<exists>off''. log_records kBlockSize rs s off''"
  by (erule log_records.cases) (auto intro: log_records.intros frags_zero)

primrec add_records :: "'f WritableFile \<Rightarrow> byte list list \<Rightarrow> 'f Writer \<Rightarrow> (Status \<times> 'f Writer) option" where
  "add_records F [] w = Some (OK, w)"
| "add_records F (d # ds) w = do {
     (s, w) \<leftarrow> AddRecord F d w;
     if ok s then add_records F ds w else Some (s, w) }"

text \<open>At most \<open>n\<close> records, up to the end of the input.\<close>

primrec read_records :: "'f SequentialFile \<Rightarrow> nat \<Rightarrow> 'f Reader \<Rightarrow> (byte list list \<times> 'f Reader) option" where
  "read_records F 0 r = Some ([], r)"
| "read_records F (Suc n) r = do {
     (x, r) \<leftarrow> ReadRecord F r;
     (case x of None \<Rightarrow> Some ([], r)
      | Some d \<Rightarrow> do { (ds, r) \<leftarrow> read_records F n r; Some (d # ds, r) }) }"

definition writer_ready :: "('f \<Rightarrow> bool) \<Rightarrow> ('f \<Rightarrow> bool) \<Rightarrow> 'f Writer \<Rightarrow> bool" where
  "writer_ready good reliable w \<longleftrightarrow> lw_block_offset w \<le> kBlockSize \<and> good (lw_dest w) \<and> reliable (lw_dest w) \<and> type_crcs_ok w"

lemma new_Writer_ready:
  assumes "good f" and "reliable f"
  shows "\<exists>w. new_Writer f = Some w \<and> lw_dest w = f \<and> lw_block_offset w = 0 \<and> writer_ready good reliable w"
proof -
  obtain crcs where crcs: "InitTypeCrc = Some crcs" "\<forall>t \<in> {1, 2, 3, 4}. crcs ! t = crc32c 0 [of_nat t]"
    using InitTypeCrc_Some by blast
  then have "new_Writer f = Some \<lparr>lw_dest = f, lw_block_offset = 0, lw_type_crc = crcs\<rparr>" unfolding new_Writer_def crcs(1) by simp
  with assms crcs(2) show ?thesis by (simp add: writer_ready_def type_crcs_ok_def)
qed

context writable_file
begin

lemma add_records_ok:
  assumes "writer_ready inv reliable w"
  shows "\<exists>w' s. add_records F rs w = Some (OK, w') \<and> log_records (lw_block_offset w) rs s (lw_block_offset w') \<and>
    written (lw_dest w') = written (lw_dest w) @ s \<and> writer_ready inv reliable w'"
  using assms
proof (induction rs arbitrary: w)
  case (Cons d rs)
  obtain v s where v: "AddRecord F d w = Some (OK, v)" "frags (lw_block_offset w) True d s (lw_block_offset v)"
    "written (lw_dest v) = written (lw_dest w) @ s" "writer_ready inv reliable v"
    using add_fragments_ok [of w True d] frags_end Cons.prems by (fastforce simp: writer_ready_def AddRecord_def)
  obtain w' t where "add_records F rs v = Some (OK, w')" "log_records (lw_block_offset v) rs t (lw_block_offset w')"
    "written (lw_dest w') = written (lw_dest v) @ t" "writer_ready inv reliable w'"
    using Cons.IH [OF v(4)] by blast
  with v show ?case by (auto intro: log_Cons)
qed (auto intro: log_Nil)

end

context sequential_file
begin

lemma read_at_end:
  assumes "stands_at rest reliable r off []"
  shows "\<exists>r'. ReadRecord F r = Some (None, r') \<and> lr_reporter r' = lr_reporter r"
proof -
  have at_eof: "\<exists>r'. ReadPhysicalRecord F [] r = Some (kEof, [], r') \<and> lr_reporter r' = lr_reporter r"
    if "lr_buffer r = []" "lr_eof r" for r :: "'f Reader"
    using that by (subst ReadPhysicalRecord.simps) (simp add: log_const)
  have "\<exists>r'. ReadPhysicalRecord F [] r = Some (kEof, [], r') \<and> lr_reporter r' = lr_reporter r"
  proof (cases "lr_eof r")
    case False
    then have "length (lr_buffer r) < kHeaderSize" "\<not> lr_eof r" "reliable (lr_file r)" "rest (lr_file r) = []"
      using assms by (simp_all add: stands_at_def log_const)
    from ReadPhysicalRecord_refill [OF this(1-3), of "[]"] this(4) obtain f n where
      refill: "ReadPhysicalRecord F [] r = ReadPhysicalRecord F [] (r\<lparr>lr_file := f, lr_buffer := [], lr_end_of_buffer_offset := n, lr_eof := True\<rparr>)"
      by (auto simp: kBlockSize_def)
    show ?thesis unfolding refill by (rule at_eof [THEN exE]) auto
  qed (use assms at_eof in \<open>simp add: stands_at_def\<close>)
  then show ?thesis
    using assms by (auto simp: ReadRecord_def stands_at_def read_loop.simps [of F "[]"] record_switch_def log_const)
qed

lemma read_log:
  assumes "log_records off rs s off'" and "s = u @ v" and "stands_at rest reliable r off u" and "length rs < n"
  shows "\<exists>m r'. read_records F n r = Some (take m rs, r') \<and> lr_reporter r' = lr_reporter r \<and> (v = [] \<longrightarrow> length rs \<le> m)"
  using assms
proof (induction arbitrary: r u n rule: log_records.induct)
  case (log_Nil off)
  then obtain k where "n = Suc k" by (cases n) auto
  with read_at_end [of r off] log_Nil show ?case by fastforce
next
  case (log_Cons off d s off' ds t off'')
  then obtain k where k: "n = Suc k" by (cases n) auto
  have start: "ReadRecord F r = read_loop F [] False [] 0 r"
    using log_Cons.prems(2) by (simp add: ReadRecord_def stands_at_def)
  show ?case
  proof (cases "length u < length s")
    case True
    then obtain w where "s = u @ w" "w \<noteq> []" using append_shorter log_Cons.prems(1) by blast
    from read_record_truncated [OF log_Cons.hyps(1) this log_Cons.prems(2), of False "[]" "[]" 0]
    obtain r' where "ReadRecord F r = Some (None, r')" "lr_reporter r' = lr_reporter r" using start by auto
    moreover have "v \<noteq> []" using True log_Cons.prems(1) by (auto dest: arg_cong [of _ _ length])
    ultimately show ?thesis using k by (intro exI [of _ 0]) auto
  next
    case False
    then obtain u' where u': "u = s @ u'" "t = u' @ v" using append_longer log_Cons.prems(1) by blast
    obtain r' where r': "ReadRecord F r = Some (Some d, r')" "stands_at rest reliable r' off' u'" "lr_reporter r' = lr_reporter r"
      using read_record [OF log_Cons.hyps(1), of r u' False "[]" "[]" 0] log_Cons.prems(2) start u'(1) by auto
    from log_Cons.IH [OF u'(2) r'(2), of k] obtain m r'' where
      "read_records F k r' = Some (take m ds, r'')" "lr_reporter r'' = lr_reporter r'" "v = [] \<longrightarrow> length ds \<le> m"
      using log_Cons.prems(3) k by auto
    with r' k show ?thesis by (intro exI [of _ "Suc m"] exI [of _ r'']) auto
  qed
qed

text \<open>Nothing that is complete is lost.\<close>

lemma read_log_complete:
  assumes "log_records off xs s off'" and "log_records off' ys t e" and "t = u @ v"
    and "stands_at rest reliable r off (s @ u)" and "length (xs @ ys) < n"
  shows "\<exists>m r'. read_records F n r = Some (take m (xs @ ys), r') \<and> lr_reporter r' = lr_reporter r \<and> length xs \<le> m"
  using assms
proof (induction arbitrary: r n rule: log_records.induct)
  case (log_Nil off)
  then show ?case using read_log [of off ys t e u v r n] by auto
next
  case (log_Cons off d s off1 ds t' off2)
  then obtain k where k: "n = Suc k" by (cases n) auto
  obtain r' where r': "ReadRecord F r = Some (Some d, r')" "stands_at rest reliable r' off1 (t' @ u)" "lr_reporter r' = lr_reporter r"
    using read_record [OF log_Cons.hyps(1), of r "t' @ u" False "[]" "[]" 0] log_Cons.prems(3)
    by (auto simp: ReadRecord_def stands_at_def)
  from log_Cons.IH [OF log_Cons.prems(1,2) r'(2), of k] obtain m r'' where
    "read_records F k r' = Some (take m (ds @ ys), r'')" "lr_reporter r'' = lr_reporter r'" "length ds \<le> m"
    using log_Cons.prems(4) k by auto
  with r' k show ?case by (intro exI [of _ "Suc m"] exI [of _ r'']) auto
qed

end

section \<open>Arbitrary files\<close>

text \<open>What a file holds may have nothing to do with a log, and reads may fail and come short: what is
  left for the reader are the reads before the end, and the buffer.\<close>

definition reader_left :: "('f \<Rightarrow> nat) \<Rightarrow> 'f Reader \<Rightarrow> nat \<times> nat" where
  "reader_left left r = (if lr_eof r then 0 else Suc (left (lr_file r)), length (lr_buffer r))"

definition closer_to_end :: "('f \<Rightarrow> nat) \<Rightarrow> ('f Reader \<times> 'f Reader) set" where
  "closer_to_end left = inv_image (less_than <*lex*> less_than) (reader_left left)"

lemma closer_to_end_wf: "wf (closer_to_end left)"
  unfolding closer_to_end_def by (intro wf_inv_image wf_lex_prod wf_less_than)

lemma closer_to_end_iff:
  "(r', r) \<in> closer_to_end left \<longleftrightarrow> (let a = fst (reader_left left r'); b = fst (reader_left left r) in
    a < b \<or> a = b \<and> length (lr_buffer r') < length (lr_buffer r))"
  by (simp add: closer_to_end_def reader_left_def Let_def)

lemma ReportDrop_keeps [simp]:
  "lr_buffer (ReportDrop n s r) = lr_buffer r" "lr_file (ReportDrop n s r) = lr_file r" "lr_eof (ReportDrop n s r) = lr_eof r"
  by (simp_all add: ReportDrop_def split: option.split)

lemma ReportCorruption_keeps [simp]:
  "lr_buffer (ReportCorruption n s r) = lr_buffer r" "lr_file (ReportCorruption n s r) = lr_file r"
  "lr_eof (ReportCorruption n s r) = lr_eof r"
  by (simp_all add: ReportCorruption_def)

lemma crc_matches_total: "kHeaderSize \<le> length header \<Longrightarrow> \<exists>b. crc_matches header len = Some b"
  by (simp add: crc_matches_def DecodeFixed32_def Value_def crc32c_extend_eq log_const)

lemma parse_physical_progress:
  assumes "kHeaderSize \<le> length (lr_buffer r)"
  shows "\<exists>t d r'. parse_physical result r = Some (t, d, r') \<and> lr_file r' = lr_file r \<and> lr_eof r' = lr_eof r \<and>
    length (lr_buffer r') < length (lr_buffer r)"
proof -
  have "lr_buffer r \<noteq> []" "0 < kHeaderSize" using assms by (auto simp: log_const)
  then show ?thesis
    using assms crc_matches_total [of "lr_buffer r" "header_length (lr_buffer r)"]
    by (auto simp: parse_physical_def Let_def)
qed

lemma record_switch_progress:
  "record_switch t d off i s n r = (x, r') \<Longrightarrow> lr_buffer r' = lr_buffer r \<and> lr_file r' = lr_file r \<and> lr_eof r' = lr_eof r"
  by (auto simp: record_switch_def Let_def split: if_splits)

lemma record_switch_eof: "\<exists>r'. record_switch kEof d off i s n r = (Inl None, r')"
  by (simp add: record_switch_def log_const)

context ending_file
begin

lemma ReadPhysicalRecord_progress:
  "\<exists>t d r'. ReadPhysicalRecord F result r = Some (t, d, r') \<and> (t = kEof \<or> (r', r) \<in> closer_to_end left)"
proof -
  have parse: "\<exists>t d r'. ReadPhysicalRecord F result r = Some (t, d, r') \<and> (t = kEof \<or> (r', r) \<in> closer_to_end left)"
    if "kHeaderSize \<le> length (lr_buffer r) \<or> lr_eof r" for r :: "'f Reader"
    using that parse_physical_progress [of r result]
    by (subst ReadPhysicalRecord.simps) (fastforce simp: closer_to_end_iff reader_left_def)
  show ?thesis
  proof (cases "kHeaderSize \<le> length (lr_buffer r) \<or> lr_eof r")
    case False
    obtain s data f where f: "sf_Read F kBlockSize (lr_file r) = Some (s, data, f)" using read_returns by blast
    show ?thesis
    proof (cases "ok s")
      case True
      let ?r = "r\<lparr>lr_file := f, lr_buffer := data, lr_end_of_buffer_offset := lr_end_of_buffer_offset r + of_nat (length data),
        lr_eof := length data < kBlockSize\<rparr>"
      have "ReadPhysicalRecord F result r = ReadPhysicalRecord F result ?r"
        using False f True by (cases r, subst ReadPhysicalRecord.simps) (simp add: Let_def)
      moreover have "fst (reader_left left ?r) < fst (reader_left left r)"
        using False f True full_read [of kBlockSize "lr_file r" data f] by (auto simp: reader_left_def ok_def log_const)
      then have "(r', r) \<in> closer_to_end left" if "(r', ?r) \<in> closer_to_end left" for r'
        using that by (auto simp: closer_to_end_iff Let_def)
      moreover have "kHeaderSize \<le> length (lr_buffer ?r) \<or> lr_eof ?r" by (auto simp: log_const)
      ultimately show ?thesis using parse [of ?r] by metis
    next
      case error: False
      with False f show ?thesis by (subst ReadPhysicalRecord.simps) (simp add: Let_def)
    qed
  qed (rule parse)
qed

lemma read_loop_total: "\<exists>x. read_loop F fragment in_frag scratch n r = Some x"
proof (induction r arbitrary: fragment in_frag scratch n rule: wf_induct_rule [OF closer_to_end_wf [of left]])
  case (1 r)
  obtain t d r' where r': "ReadPhysicalRecord F fragment r = Some (t, d, r')" "t = kEof \<or> (r', r) \<in> closer_to_end left"
    using ReadPhysicalRecord_progress by blast
  let ?r = "r'\<lparr>lr_resyncing := False\<rparr>"
  let ?off = "lr_end_of_buffer_offset r' - of_nat (length (lr_buffer r')) - of_nat kHeaderSize - of_nat (length d)"
  obtain x r'' where sw: "record_switch t d ?off in_frag scratch n ?r = (x, r'')" by fastforce
  show ?case
  proof (cases "t = kEof")
    case True
    then show ?thesis
      using r'(1) sw record_switch_eof [of d ?off in_frag scratch n ?r]
      by (subst read_loop.simps) (auto simp: log_const)
  next
    case False
    then have "(r', r) \<in> closer_to_end left" "(?r, r) \<in> closer_to_end left" "(r'', r) \<in> closer_to_end left"
      using r'(2) record_switch_progress [OF sw] by (auto simp: closer_to_end_iff reader_left_def)
    then show ?thesis
      using r'(1) sw 1 by (subst read_loop.simps) (auto split: sum.split)
  qed
qed

lemma ReadRecord_total: "\<exists>x. ReadRecord F r = Some x"
  by (simp add: ReadRecord_def read_loop_total split: prod.split del: split_paired_Ex)

end


section \<open>Properties\<close>

lemma new_Reader_stands:
  "os_reliable g \<Longrightarrow> os_rest g = s \<Longrightarrow> stands_at os_rest os_reliable (new_Reader g reports checksum 0) kBlockSize s"
  by (simp add: stands_at_def new_Reader_def)

lemma new_Reader_reporter: "lr_reporter (new_Reader g reports checksum 0) = reports"
  by (simp add: new_Reader_def)

lemma new_posix_writer:
  assumes "os_reliable f"
  shows "\<exists>w. new_Writer (new_PosixWritableFile name fd f) = Some w \<and> lw_dest w = new_PosixWritableFile name fd f \<and>
    lw_block_offset w = 0 \<and> writer_ready pw_inv (\<lambda>w. os_reliable (pw_os w)) w"
  using assms by (intro new_Writer_ready) (simp_all add: new_PosixWritableFile_def pw_inv_def)

text \<open>C8. The log gives back what was written. Records of any number and size are added to an empty
  file without an error, however often the system interrupts the calls or writes short;
  reading the file then gives the same records in the same order, and then the end, with no
  corruption reported.\<close>

theorem log_roundtrip:
  assumes "os_reliable f" and "of_data f = []"
  shows "\<exists>w w'. new_Writer (new_PosixWritableFile name fd f) = Some w \<and>
    add_records (PosixWritable full os_calls) rs w = Some (OK, w') \<and>
    (\<forall>g n. os_reliable g \<longrightarrow> os_rest g = pw_written (lw_dest w') \<longrightarrow> length rs < n \<longrightarrow>
      (\<exists>r. read_records (PosixSequential os_calls h) n (new_Reader g (Some []) checksum 0) = Some (rs, r) \<and>
         lr_reporter r = Some []))"
proof -
  obtain w where w: "new_Writer (new_PosixWritableFile name fd f) = Some w" "lw_dest w = new_PosixWritableFile name fd f"
    "lw_block_offset w = 0" "writer_ready pw_inv (\<lambda>w. os_reliable (pw_os w)) w"
    using new_posix_writer [OF assms(1)] by blast
  obtain w' s where w': "add_records (PosixWritable full os_calls) rs w = Some (OK, w')"
    "log_records 0 rs s (lw_block_offset w')" "pw_written (lw_dest w') = s"
    using posix_writable.add_records_ok [OF w(4), of full rs] w(2,3) assms(2) by (auto simp: pw_written_def new_PosixWritableFile_def)
  obtain off where off: "log_records kBlockSize rs s off" using log_records_zero [OF w'(2)] by blast
  have "\<exists>r. read_records (PosixSequential os_calls h) n (new_Reader g (Some []) checksum 0) = Some (rs, r) \<and>
      lr_reporter r = Some []" if "os_reliable g" "os_rest g = s" "length rs < n" for g n
    using posix_seq.read_log [OF off, of s "[]" "new_Reader g (Some []) checksum 0" n h]
      new_Reader_stands [OF that(1,2)] that(3) by (auto simp: new_Reader_reporter)
  with w(1) w'(1,3) show ?thesis by auto
qed

text \<open>C9. Crash recovery. If the machine stops while the records \<open>ys\<close> are written, so that the file
  is cut at any place behind the records \<open>xs\<close>, then the reader returns all of \<open>xs\<close>, followed
  by the first of the \<open>ys\<close>, nothing else, and does not call the damage a corruption.\<close>

theorem log_crash_recovery:
  assumes "os_reliable f" and "of_data f = []"
    and "new_Writer (new_PosixWritableFile name fd f) = Some w"
    and "add_records (PosixWritable full os_calls) xs w = Some (s1, w1)"
    and "add_records (PosixWritable full os_calls) ys w1 = Some (s2, w2)"
    and "os_reliable g" and "os_rest g = take k (pw_written (lw_dest w2))" and "length (pw_written (lw_dest w1)) \<le> k"
    and "length (xs @ ys) < n"
  shows "\<exists>m r. read_records (PosixSequential os_calls h) n (new_Reader g (Some []) checksum 0) =
      Some (take m (xs @ ys), r) \<and> length xs \<le> m \<and> lr_reporter r = Some []"
proof -
  have w: "lw_dest w = new_PosixWritableFile name fd f" "lw_block_offset w = 0"
    "writer_ready pw_inv (\<lambda>w. os_reliable (pw_os w)) w"
    using new_posix_writer [OF assms(1), of name fd] assms(3) by auto
  obtain s where s: "log_records 0 xs s (lw_block_offset w1)" "pw_written (lw_dest w1) = s"
    "writer_ready pw_inv (\<lambda>w. os_reliable (pw_os w)) w1"
    using posix_writable.add_records_ok [OF w(3), of full xs] w(1,2) assms(2,4)
    by (auto simp: pw_written_def new_PosixWritableFile_def)
  obtain t where t: "log_records (lw_block_offset w1) ys t (lw_block_offset w2)" "pw_written (lw_dest w2) = s @ t"
    using posix_writable.add_records_ok [OF s(3), of full ys] assms(5) s(2) by auto
  obtain off off' where zs: "log_records kBlockSize xs s off" "log_records off ys t off'"
  proof (cases "xs = []")
    case True
    then have "s = []" "lw_block_offset w1 = 0" using s(1) by (auto elim: log_records.cases)
    with t(1) obtain off' where "log_records kBlockSize ys t off'" using log_records_zero [of ys t] by auto
    with True \<open>s = []\<close> show thesis using that log_Nil by blast
  next
    case False
    then have "log_records kBlockSize xs s (lw_block_offset w1)"
      using log_records_zero_ne s(1) by blast
    with that t(1) show thesis by blast
  qed
  have "t = take (k - length s) t @ drop (k - length s) t" "os_rest g = s @ take (k - length s) t"
    using assms(7,8) s(2) t(2) by simp_all
  with posix_seq.read_log_complete [OF zs this(1), of "new_Reader g (Some []) checksum 0" n h] new_Reader_stands [OF assms(6)] assms(9)
  show ?thesis by (auto simp: new_Reader_reporter)
qed




text \<open>The file of the witnesses: the first call is interrupted, the second writes three bytes.\<close>

definition sample_file :: os_file where
  "sample_file = \<lparr>of_data = [], of_pos = 0, of_script = [Inl EINTR, Inr 3]\<rparr>"

lemma sample_file_ok: "os_reliable sample_file" "of_data sample_file = []"
  by (simp_all add: sample_file_def os_reliable_def)

theorem log_roundtrip_witness:
  "\<exists>w w'. new_Writer (new_PosixWritableFile (ascii ''log'') 3 sample_file) = Some w \<and>
    add_records (PosixWritable True os_calls) [[1, 2], []] w = Some (OK, w') \<and>
    (\<exists>r. read_records (PosixSequential os_calls \<lparr>ps_fd = 3, ps_filename = ascii ''log''\<rparr>) 3
       (new_Reader \<lparr>of_data = pw_written (lw_dest w'), of_pos = 0, of_script = []\<rparr> (Some []) True 0) = Some ([[1, 2], []], r))"
proof -
  obtain w w' where "new_Writer (new_PosixWritableFile (ascii ''log'') 3 sample_file) = Some w"
    "add_records (PosixWritable True os_calls) [[1, 2], []] w = Some (OK, w')"
    "\<forall>g n. os_reliable g \<longrightarrow> os_rest g = pw_written (lw_dest w') \<longrightarrow> length [[1, 2 :: byte], []] < n \<longrightarrow>
      (\<exists>r. read_records (PosixSequential os_calls \<lparr>ps_fd = 3, ps_filename = ascii ''log''\<rparr>) n (new_Reader g (Some []) True 0) =
        Some ([[1, 2], []], r) \<and> lr_reporter r = Some [])"
    using log_roundtrip [OF sample_file_ok] by blast
  moreover have "\<exists>r. read_records (PosixSequential os_calls \<lparr>ps_fd = 3, ps_filename = ascii ''log''\<rparr>) 3
      (new_Reader \<lparr>of_data = pw_written (lw_dest w'), of_pos = 0, of_script = []\<rparr> (Some []) True 0) = Some ([[1, 2], []], r)"
    using calculation(3) [rule_format, of "\<lparr>of_data = pw_written (lw_dest w'), of_pos = 0, of_script = []\<rparr>" 3]
    by (auto simp: os_reliable_def os_rest_def)
  ultimately show ?thesis by blast
qed

theorem log_crash_recovery_witness:
  "\<exists>w w1 w2 m r. new_Writer (new_PosixWritableFile (ascii ''log'') 3 sample_file) = Some w \<and>
    add_records (PosixWritable True os_calls) [[1]] w = Some (OK, w1) \<and>
    add_records (PosixWritable True os_calls) [[2]] w1 = Some (OK, w2) \<and>
    read_records (PosixSequential os_calls \<lparr>ps_fd = 3, ps_filename = ascii ''log''\<rparr>) 3
      (new_Reader \<lparr>of_data = take (length (pw_written (lw_dest w1)) + 4) (pw_written (lw_dest w2)), of_pos = 0, of_script = []\<rparr> (Some []) True 0) =
      Some (take m ([[1]] @ [[2]]), r) \<and> length [[1 :: byte]] \<le> m"
proof -
  obtain w where w: "new_Writer (new_PosixWritableFile (ascii ''log'') 3 sample_file) = Some w"
    "writer_ready pw_inv (\<lambda>w. os_reliable (pw_os w)) w"
    using new_posix_writer [OF sample_file_ok(1)] by blast
  obtain w1 where w1: "add_records (PosixWritable True os_calls) [[1]] w = Some (OK, w1)"
    "writer_ready pw_inv (\<lambda>w. os_reliable (pw_os w)) w1"
    using posix_writable.add_records_ok [OF w(2)] by blast
  obtain w2 where w2: "add_records (PosixWritable True os_calls) [[2]] w1 = Some (OK, w2)"
    using posix_writable.add_records_ok [OF w1(2)] by blast
  let ?k = "length (pw_written (lw_dest w1)) + 4"
  let ?g = "\<lparr>of_data = take ?k (pw_written (lw_dest w2)), of_pos = 0, of_script = []\<rparr>"
  have "os_reliable ?g" "os_rest ?g = take ?k (pw_written (lw_dest w2))" by (simp_all add: os_reliable_def os_rest_def)
  from log_crash_recovery [OF sample_file_ok w(1) w1(1) w2 this, of 3 "\<lparr>ps_fd = 3, ps_filename = ascii ''log''\<rparr>" True]
  obtain m r where "read_records (PosixSequential os_calls \<lparr>ps_fd = 3, ps_filename = ascii ''log''\<rparr>) 3 (new_Reader ?g (Some []) True 0) =
      Some (take m ([[1]] @ [[2]]), r)" "length [[1 :: byte]] \<le> m" by auto
  with w(1) w1(1) w2 show ?thesis by blast
qed

end
