(* ===== verification/Ldb_Iterator.thy ===== *)
theory Ldb_Iterator
  imports Ldb_Comparator Ldb_Status
begin

text \<open>
  Iterators, \<open>include/leveldb/iterator.h\<close>, \<open>table/iterator.cc\<close> and \<open>table/iterator_wrapper.h\<close>:
  the interface, what it promises (a cursor into a sorted list of entries), the empty
  iterator, the list of clean-up functions and the wrapper that caches \<open>Valid()\<close> and \<open>key()\<close>.

  An operation returns \<open>None\<close> where the source fails an assertion or leaves an object.
\<close>

section \<open>The interface\<close>

type_synonym entry = "byte list \<times> byte list"

record 's Iterator =
  it_Valid :: "'s \<Rightarrow> bool"
  it_SeekToFirst :: "'s \<Rightarrow> 's option"
  it_SeekToLast :: "'s \<Rightarrow> 's option"
  it_Seek :: "byte list \<Rightarrow> 's \<Rightarrow> 's option"
  it_Next :: "'s \<Rightarrow> 's option"
  it_Prev :: "'s \<Rightarrow> 's option"
  it_key :: "'s \<Rightarrow> byte list option"
  it_value :: "'s \<Rightarrow> byte list option"
  it_status :: "'s \<Rightarrow> Status option"

text \<open>The cursor: a position in the list of entries, its length when the iterator is not valid.\<close>

definition lower_bound :: "Comparator \<Rightarrow> entry list \<Rightarrow> byte list \<Rightarrow> nat" where
  "lower_bound C es target = length (takeWhile (\<lambda>e. key_less C (fst e) target) es)"

definition last_pos :: "'a list \<Rightarrow> nat" where
  "last_pos es = length es - 1"

definition prev_pos :: "'a list \<Rightarrow> nat \<Rightarrow> nat" where
  "prev_pos es i = (if i = 0 then length es else i - 1)"

text \<open>Reading on from the current entry.\<close>

primrec scan :: "'s Iterator \<Rightarrow> nat \<Rightarrow> 's \<Rightarrow> (entry list \<times> 's) option" where
  "scan I 0 s = Some ([], s)"
| "scan I (Suc n) s = (if it_Valid I s then do {
     k \<leftarrow> it_key I s;
     v \<leftarrow> it_value I s;
     s \<leftarrow> it_Next I s;
     (es, s) \<leftarrow> scan I n s;
     Some ((k, v) # es, s) }
   else Some ([], s))"

text \<open>The value of a key, the way \<open>InternalGet\<close> and the index look it up.\<close>

definition seek_entry :: "'s Iterator \<Rightarrow> byte list \<Rightarrow> 's \<Rightarrow> entry option option" where
  "seek_entry I target s = do {
     s \<leftarrow> it_Seek I target s;
     if it_Valid I s then do { k \<leftarrow> it_key I s; v \<leftarrow> it_value I s; Some (Some (k, v)) } else Some None }"

text \<open>\<open>at s i\<close>: the iterator in state \<open>s\<close> is positioned at \<open>i\<close> in the entries \<open>es\<close>.\<close>

locale iterator =
  fixes I :: "'s Iterator" and C :: Comparator and es :: "entry list" and good :: "byte list \<Rightarrow> bool"
    and at :: "'s \<Rightarrow> nat \<Rightarrow> bool"
  assumes at_le: "at s i \<Longrightarrow> i \<le> length es"
    and valid_iff: "at s i \<Longrightarrow> it_Valid I s \<longleftrightarrow> i < length es"
    and key_eq: "at s i \<Longrightarrow> i < length es \<Longrightarrow> it_key I s = Some (fst (es ! i))"
    and value_eq: "at s i \<Longrightarrow> i < length es \<Longrightarrow> it_value I s = Some (snd (es ! i))"
    and status_eq: "at s i \<Longrightarrow> it_status I s = Some OK"
    and first_at: "at s i \<Longrightarrow> \<exists>s'. it_SeekToFirst I s = Some s' \<and> at s' 0"
    and last_at: "at s i \<Longrightarrow> \<exists>s'. it_SeekToLast I s = Some s' \<and> at s' (last_pos es)"
    and seek_at: "at s i \<Longrightarrow> good target \<Longrightarrow> \<exists>s'. it_Seek I target s = Some s' \<and> at s' (lower_bound C es target)"
    and next_at: "at s i \<Longrightarrow> i < length es \<Longrightarrow> \<exists>s'. it_Next I s = Some s' \<and> at s' (Suc i)"
    and prev_at: "at s i \<Longrightarrow> i < length es \<Longrightarrow> \<exists>s'. it_Prev I s = Some s' \<and> at s' (prev_pos es i)"
begin

lemma scan_at: "at s i \<Longrightarrow> \<exists>s'. scan I n s = Some (take n (drop i es), s') \<and> at s' (min (i + n) (length es))"
proof (induction n arbitrary: s i)
  case 0
  then show ?case using at_le [of s i] by (auto simp: min_def)
next
  case (Suc n)
  show ?case
  proof (cases "i < length es")
    case True
    then obtain s' where "it_Next I s = Some s'" "at s' (Suc i)" using next_at Suc.prems by blast
    then show ?thesis
      using Suc.IH [of s' "Suc i"] True Suc.prems
      by (auto simp: valid_iff key_eq value_eq Cons_nth_drop_Suc [symmetric])
  next
    case False
    then show ?thesis using Suc.prems at_le [of s i] valid_iff [of s i] by (auto simp: min_def)
  qed
qed

lemma scan_all: "at s i \<Longrightarrow> \<exists>s' s''. it_SeekToFirst I s = Some s' \<and> scan I (length es) s' = Some (es, s'')"
  using first_at [of s i] scan_at [of _ 0 "length es"] by fastforce

lemma seek_entry_at:
  assumes "at s i" and "good target"
  shows "seek_entry I target s = Some (let j = lower_bound C es target in if j < length es then Some (es ! j) else None)"
proof -
  obtain s' where "it_Seek I target s = Some s'" "at s' (lower_bound C es target)" using seek_at assms by blast
  then show ?thesis by (simp add: seek_entry_def valid_iff key_eq value_eq Let_def)
qed

end

lemma prev_pos_length: "prev_pos xs (length xs) = last_pos xs"
  by (simp add: prev_pos_def last_pos_def)

lemma lower_bound_le: "lower_bound C es target \<le> length es"
  by (simp add: lower_bound_def length_takeWhile_le)

lemma lower_bound_less: "j < lower_bound C es target \<Longrightarrow> key_less C (fst (es ! j)) target"
  unfolding lower_bound_def by (metis nth_mem set_takeWhileD takeWhile_nth)

lemma lower_bound_at: "lower_bound C es target < length es \<Longrightarrow> \<not> key_less C (fst (es ! lower_bound C es target)) target"
  unfolding lower_bound_def using nth_length_takeWhile by fastforce

lemma lower_bound_eqI:
  assumes "i \<le> length es" "\<And>j. j < i \<Longrightarrow> key_less C (fst (es ! j)) target"
    and "i < length es \<Longrightarrow> \<not> key_less C (fst (es ! i)) target"
  shows "lower_bound C es target = i"
proof (rule ccontr)
  assume "lower_bound C es target \<noteq> i"
  then consider "lower_bound C es target < i" | "i < lower_bound C es target" by linarith
  then show False
    using assms lower_bound_at [of C es target] lower_bound_less [of i C es target] lower_bound_le [of C es target]
    by cases fastforce+
qed

section \<open>Moves\<close>

text \<open>A cursor and its moves, the specification an iterator refines: \<open>Next()\<close> and \<open>Prev()\<close>
  require a valid position.\<close>

datatype move = ToFirst | ToLast | To "byte list" | Forward | Backward

fun move_pos :: "Comparator \<Rightarrow> entry list \<Rightarrow> move \<Rightarrow> nat \<Rightarrow> nat option" where
  "move_pos C es ToFirst i = Some 0"
| "move_pos C es ToLast i = Some (last_pos es)"
| "move_pos C es (To target) i = Some (lower_bound C es target)"
| "move_pos C es Forward i = (if i < length es then Some (Suc i) else None)"
| "move_pos C es Backward i = (if i < length es then Some (prev_pos es i) else None)"

fun move_iter :: "'s Iterator \<Rightarrow> move \<Rightarrow> 's \<Rightarrow> 's option" where
  "move_iter I ToFirst s = it_SeekToFirst I s"
| "move_iter I ToLast s = it_SeekToLast I s"
| "move_iter I (To target) s = it_Seek I target s"
| "move_iter I Forward s = it_Next I s"
| "move_iter I Backward s = it_Prev I s"

primrec run_moves :: "('m \<Rightarrow> 's \<Rightarrow> 's option) \<Rightarrow> 'm list \<Rightarrow> 's \<Rightarrow> 's option" where
  "run_moves step [] s = Some s"
| "run_moves step (m # ms) s = do { s \<leftarrow> step m s; run_moves step ms s }"

fun move_target_ok :: "(byte list \<Rightarrow> bool) \<Rightarrow> move \<Rightarrow> bool" where
  "move_target_ok good (To target) = good target"
| "move_target_ok good _ = True"

definition observe :: "'s Iterator \<Rightarrow> 's \<Rightarrow> (entry option \<times> Status) option" where
  "observe I s = do {
     status \<leftarrow> it_status I s;
     if it_Valid I s then do { k \<leftarrow> it_key I s; v \<leftarrow> it_value I s; Some (Some (k, v), status) } else Some (None, status) }"

definition entry_at_pos :: "entry list \<Rightarrow> nat \<Rightarrow> entry option" where
  "entry_at_pos es i = (if i < length es then Some (es ! i) else None)"

context iterator
begin

lemma move_at:
  "at s i \<Longrightarrow> move_target_ok good m \<Longrightarrow> move_pos C es m i = Some j \<Longrightarrow> \<exists>s'. move_iter I m s = Some s' \<and> at s' j"
  using first_at [of s i] last_at [of s i] seek_at [of s i] next_at [of s i] prev_at [of s i]
  by (cases m) (auto split: if_splits)

lemma observe_at: "at s i \<Longrightarrow> observe I s = Some (entry_at_pos es i, OK)"
  by (simp add: observe_def entry_at_pos_def valid_iff key_eq value_eq status_eq)

lemma run_moves_at:
  "at s i \<Longrightarrow> \<forall>m \<in> set ms. move_target_ok good m \<Longrightarrow> run_moves (move_pos C es) ms i = Some j \<Longrightarrow>
    \<exists>s'. run_moves (move_iter I) ms s = Some s' \<and> at s' j"
proof (induction ms arbitrary: s i)
  case (Cons m ms)
  then obtain i' where i': "move_pos C es m i = Some i'" "run_moves (move_pos C es) ms i' = Some j"
    by (auto simp: bind_Some_iff)
  then show ?case using move_at [of s i m i'] Cons.IH [of _ i'] Cons.prems by fastforce
qed simp

end

section \<open>The empty iterator\<close>

definition EmptyIterator :: "Status Iterator" where
  "EmptyIterator = \<lparr>it_Valid = \<lambda>_. False, it_SeekToFirst = Some, it_SeekToLast = Some, it_Seek = \<lambda>_. Some,
     it_Next = \<lambda>_. None, it_Prev = \<lambda>_. None, it_key = \<lambda>_. None, it_value = \<lambda>_. None, it_status = Some\<rparr>"

definition NewEmptyIterator :: Status where "NewEmptyIterator = OK"

definition NewErrorIterator :: "Status \<Rightarrow> Status" where "NewErrorIterator status = status"

interpretation empty_iterator: iterator EmptyIterator C "[]" good "\<lambda>s i. s = NewEmptyIterator \<and> i = 0"
  by unfold_locales (simp_all add: EmptyIterator_def NewEmptyIterator_def last_pos_def lower_bound_def)

section \<open>Clean-up functions\<close>

text \<open>The list with its head inside the iterator; a function with its two arguments is one value.\<close>

fun RegisterCleanup :: "'c \<Rightarrow> 'c list \<Rightarrow> 'c list" where
  "RegisterCleanup func [] = [func]"
| "RegisterCleanup func (cleanup_head # nodes) = cleanup_head # func # nodes"

primrec run_cleanups :: "('c \<Rightarrow> 'w \<Rightarrow> 'w) \<Rightarrow> 'c list \<Rightarrow> 'w \<Rightarrow> 'w" where
  "run_cleanups run [] w = w"
| "run_cleanups run (node # nodes) w = run_cleanups run nodes (run node w)"

text \<open>Each registered function runs once: the first one registered first, the others last come
  first served.\<close>

lemma RegisterCleanup_all: "fold RegisterCleanup fs [] = (case fs of [] \<Rightarrow> [] | f # fs \<Rightarrow> f # rev fs)"
proof -
  have "fold RegisterCleanup fs (f # gs) = f # rev fs @ gs" for f :: 'a and fs gs
    by (induction fs arbitrary: gs) simp_all
  then show ?thesis by (cases fs) simp_all
qed

lemma run_cleanups_once:
  "run_cleanups (#) (fold RegisterCleanup fs []) [] = (case fs of [] \<Rightarrow> [] | f # fs \<Rightarrow> fs @ [f])"
proof -
  have "run_cleanups (#) fs w = rev fs @ w" for fs w :: "'a list"
    by (induction fs arbitrary: w) simp_all
  then show ?thesis unfolding RegisterCleanup_all by (cases fs) simp_all
qed

section \<open>The wrapper\<close>

record 's IteratorWrapper =
  iw_iter :: "'s option"
  iw_valid :: bool
  iw_key :: "byte list"

definition new_IteratorWrapper :: "'s IteratorWrapper" where
  "new_IteratorWrapper = \<lparr>iw_iter = None, iw_valid = False, iw_key = []\<rparr>"

definition wrapper_Update :: "'s Iterator \<Rightarrow> 's IteratorWrapper \<Rightarrow> 's IteratorWrapper option" where
  "wrapper_Update I w = do {
     s \<leftarrow> iw_iter w;
     let w = w\<lparr>iw_valid := it_Valid I s\<rparr>;
     if iw_valid w then do { k \<leftarrow> it_key I s; Some (w\<lparr>iw_key := k\<rparr>) } else Some w }"

definition wrapper_Set :: "'s Iterator \<Rightarrow> 's option \<Rightarrow> 's IteratorWrapper \<Rightarrow> 's IteratorWrapper option" where
  "wrapper_Set I iter w = (let w = w\<lparr>iw_iter := iter\<rparr> in
     if iter = None then Some (w\<lparr>iw_valid := False\<rparr>) else wrapper_Update I w)"

definition wrapper_key :: "'s IteratorWrapper \<Rightarrow> byte list option" where
  "wrapper_key w = (if iw_valid w then Some (iw_key w) else None)"

definition wrapper_value :: "'s Iterator \<Rightarrow> 's IteratorWrapper \<Rightarrow> byte list option" where
  "wrapper_value I w = (if iw_valid w then do { s \<leftarrow> iw_iter w; it_value I s } else None)"

text \<open>A call of the iterator inside, then \<open>Update()\<close>.\<close>

definition wrapper_call :: "'s Iterator \<Rightarrow> ('s \<Rightarrow> 's option) \<Rightarrow> 's IteratorWrapper \<Rightarrow> 's IteratorWrapper option" where
  "wrapper_call I f w = do { s \<leftarrow> iw_iter w; s \<leftarrow> f s; wrapper_Update I (w\<lparr>iw_iter := Some s\<rparr>) }"

definition WrapperIterator :: "'s Iterator \<Rightarrow> 's IteratorWrapper Iterator" where
  "WrapperIterator I = \<lparr>it_Valid = iw_valid, it_SeekToFirst = wrapper_call I (it_SeekToFirst I),
     it_SeekToLast = wrapper_call I (it_SeekToLast I), it_Seek = \<lambda>k. wrapper_call I (it_Seek I k),
     it_Next = wrapper_call I (it_Next I), it_Prev = wrapper_call I (it_Prev I), it_key = wrapper_key,
     it_value = wrapper_value I, it_status = \<lambda>w. do { s \<leftarrow> iw_iter w; it_status I s }\<rparr>"

text \<open>The cache agrees with the iterator inside.\<close>

definition wrapped_at :: "entry list \<Rightarrow> ('s \<Rightarrow> nat \<Rightarrow> bool) \<Rightarrow> 's IteratorWrapper \<Rightarrow> nat \<Rightarrow> bool" where
  "wrapped_at es at w i \<longleftrightarrow> (\<exists>s. iw_iter w = Some s \<and> at s i) \<and> iw_valid w = (i < length es) \<and>
     (i < length es \<longrightarrow> iw_key w = fst (es ! i))"

context iterator
begin

lemma wrapper_Update_at: "at s i \<Longrightarrow> \<exists>w'. wrapper_Update I (w\<lparr>iw_iter := Some s\<rparr>) = Some w' \<and> wrapped_at es at w' i"
  by (auto simp: wrapper_Update_def Let_def valid_iff key_eq wrapped_at_def)

lemma wrapper_call_at: "iw_iter w = Some s \<Longrightarrow> \<exists>s'. f s = Some s' \<and> at s' i \<Longrightarrow>
    \<exists>w'. wrapper_call I f w = Some w' \<and> wrapped_at es at w' i"
  using wrapper_Update_at by (fastforce simp: wrapper_call_def)

lemma wrapper_Set_at: "at s i \<Longrightarrow> \<exists>w'. wrapper_Set I (Some s) w = Some w' \<and> wrapped_at es at w' i"
  using wrapper_Update_at by (simp add: wrapper_Set_def)

lemma wrapped_parts:
  assumes "wrapped_at es at w i"
  shows "i \<le> length es" "iw_valid w = (i < length es)" "i < length es \<Longrightarrow> iw_key w = fst (es ! i)"
    "\<exists>s. iw_iter w = Some s \<and> at s i"
  using assms at_le by (auto simp: wrapped_at_def)

text \<open>A wrapped iterator is an iterator.\<close>

lemma wrapper_iterator: "iterator (WrapperIterator I) C es good (wrapped_at es at)"
proof (unfold_locales, goal_cases)
  case (1 w i)
  then show ?case by (rule wrapped_parts)
next
  case (2 w i)
  then show ?case by (simp add: WrapperIterator_def wrapped_parts)
next
  case (3 w i)
  then show ?case by (simp add: WrapperIterator_def wrapper_key_def wrapped_parts)
next
  case (4 w i)
  then show ?case using wrapped_parts(4) [OF 4(1)] by (auto simp: WrapperIterator_def wrapper_value_def wrapped_parts(2) value_eq)
next
  case (5 w i)
  then show ?case using wrapped_parts(4) [OF 5] by (auto simp: WrapperIterator_def status_eq)
next
  case (6 w i)
  then show ?case using wrapped_parts(4) [OF 6] first_at by (auto simp: WrapperIterator_def intro: wrapper_call_at)
next
  case (7 w i)
  then show ?case using wrapped_parts(4) [OF 7] last_at by (auto simp: WrapperIterator_def intro: wrapper_call_at)
next
  case (8 w i target)
  then show ?case using wrapped_parts(4) [OF 8(1)] seek_at by (auto simp: WrapperIterator_def intro: wrapper_call_at)
next
  case (9 w i)
  then show ?case using wrapped_parts(4) [OF 9(1)] next_at by (auto simp: WrapperIterator_def intro: wrapper_call_at)
next
  case (10 w i)
  then show ?case using wrapped_parts(4) [OF 10(1)] prev_at by (auto simp: WrapperIterator_def intro: wrapper_call_at)
qed

end

section \<open>Iterators made of one of two\<close>

text \<open>A pointer to an iterator that is of one class or of another: the call goes to the operations of its class.\<close>

definition on_either :: "('a \<Rightarrow> 'a option) \<Rightarrow> ('b \<Rightarrow> 'b option) \<Rightarrow> 'a + 'b \<Rightarrow> ('a + 'b) option" where
  "on_either f g s = (case s of Inl a \<Rightarrow> map_option Inl (f a) | Inr b \<Rightarrow> map_option Inr (g b))"

definition either_iterator :: "'a Iterator \<Rightarrow> 'b Iterator \<Rightarrow> ('a + 'b) Iterator" where
  "either_iterator A B = \<lparr>it_Valid = case_sum (it_Valid A) (it_Valid B),
     it_SeekToFirst = on_either (it_SeekToFirst A) (it_SeekToFirst B), it_SeekToLast = on_either (it_SeekToLast A) (it_SeekToLast B),
     it_Seek = \<lambda>target. on_either (it_Seek A target) (it_Seek B target), it_Next = on_either (it_Next A) (it_Next B),
     it_Prev = on_either (it_Prev A) (it_Prev B), it_key = case_sum (it_key A) (it_key B),
     it_value = case_sum (it_value A) (it_value B), it_status = case_sum (it_status A) (it_status B)\<rparr>"

context iterator
begin

text \<open>An iterator whose states hold the states of another one and pass the calls on.\<close>

lemma embedded:
  assumes "\<And>s. it_Valid J (f s) = it_Valid I s" and "\<And>s. it_key J (f s) = it_key I s"
    and "\<And>s. it_value J (f s) = it_value I s" and "\<And>s. it_status J (f s) = it_status I s"
    and "\<And>s. it_SeekToFirst J (f s) = map_option f (it_SeekToFirst I s)"
    and "\<And>s. it_SeekToLast J (f s) = map_option f (it_SeekToLast I s)"
    and "\<And>s target. it_Seek J target (f s) = map_option f (it_Seek I target s)"
    and "\<And>s. it_Next J (f s) = map_option f (it_Next I s)" and "\<And>s. it_Prev J (f s) = map_option f (it_Prev I s)"
  shows "iterator J C es good (\<lambda>s i. \<exists>it. s = f it \<and> at it i)"
proof (unfold_locales, goal_cases)
  case (1 s i) then show ?case using at_le by blast
next
  case (2 s i) then show ?case using valid_iff by (auto simp: assms)
next
  case (3 s i) then show ?case using key_eq by (auto simp: assms)
next
  case (4 s i) then show ?case using value_eq by (auto simp: assms)
next
  case (5 s i) then show ?case using status_eq by (auto simp: assms)
next
  case (6 s i) then show ?case using first_at by (force simp: assms)
next
  case (7 s i) then show ?case using last_at by (force simp: assms)
next
  case (8 s i target) then show ?case using seek_at by (force simp: assms)
next
  case (9 s i) then show ?case using next_at by (force simp: assms)
next
  case (10 s i) then show ?case using prev_at by (force simp: assms)
qed

lemma either_right: "iterator (either_iterator A I) C es good (\<lambda>s i. \<exists>it. s = Inr it \<and> at it i)"
  by (rule embedded) (simp_all add: either_iterator_def on_either_def)

lemma either_left: "iterator (either_iterator I A) C es good (\<lambda>s i. \<exists>it. s = Inl it \<and> at it i)"
  by (rule embedded) (simp_all add: either_iterator_def on_either_def)

end

end
