(* ===== verification/Ldb_Two_Level.thy ===== *)
theory Ldb_Two_Level
  imports Ldb_Iterator
begin

text \<open>
  The two-level iterator, \<open>table/two_level_iterator.cc\<close>: an index iterator whose values are
  handles, and the iterators over the blocks that a function makes from them. If the index and
  the blocks behave as cursors, so does their combination, into the concatenation of the blocks.
\<close>

section \<open>The iterator\<close>

record ('s, 't) TwoLevelIterator =
  tl_status :: Status
  tl_index_iter :: "'s IteratorWrapper"
  tl_data_iter :: "'t IteratorWrapper"
  tl_data_block_handle :: "byte list"

type_synonym 't block_function = "byte list \<Rightarrow> 't option"

definition new_TwoLevelIterator :: "'s Iterator \<Rightarrow> 's \<Rightarrow> ('s, 't) TwoLevelIterator option" where
  "new_TwoLevelIterator I index_iter = do {
     w \<leftarrow> wrapper_Set I (Some index_iter) new_IteratorWrapper;
     Some \<lparr>tl_status = OK, tl_index_iter = w, tl_data_iter = new_IteratorWrapper, tl_data_block_handle = []\<rparr> }"

definition SaveError :: "Status \<Rightarrow> ('s, 't) TwoLevelIterator \<Rightarrow> ('s, 't) TwoLevelIterator" where
  "SaveError s t = (if ok (tl_status t) \<and> \<not> ok s then t\<lparr>tl_status := s\<rparr> else t)"

definition SetDataIterator :: "'t Iterator \<Rightarrow> 't option \<Rightarrow> ('s, 't) TwoLevelIterator \<Rightarrow> ('s, 't) TwoLevelIterator option" where
  "SetDataIterator J data_iter t = do {
     t \<leftarrow> (case iw_iter (tl_data_iter t) of None \<Rightarrow> Some t
       | Some d \<Rightarrow> do { s \<leftarrow> it_status J d; Some (SaveError s t) });
     w \<leftarrow> wrapper_Set J data_iter (tl_data_iter t);
     Some (t\<lparr>tl_data_iter := w\<rparr>) }"

definition InitDataBlock :: "'s Iterator \<Rightarrow> 't Iterator \<Rightarrow> 't block_function \<Rightarrow> ('s, 't) TwoLevelIterator \<Rightarrow>
    ('s, 't) TwoLevelIterator option" where
  "InitDataBlock I J block_function t = (if \<not> iw_valid (tl_index_iter t) then SetDataIterator J None t
     else do {
       handle \<leftarrow> wrapper_value I (tl_index_iter t);
       if iw_iter (tl_data_iter t) \<noteq> None \<and> slice_compare handle (tl_data_block_handle t) = Some 0 then Some t
       else do {
         iter \<leftarrow> block_function handle;
         SetDataIterator J (Some iter) (t\<lparr>tl_data_block_handle := handle\<rparr>) } })"

text \<open>A move of the index, the new data block and a move in it.\<close>

definition on_index :: "'s Iterator \<Rightarrow> ('s \<Rightarrow> 's option) \<Rightarrow> ('s, 't) TwoLevelIterator \<Rightarrow> ('s, 't) TwoLevelIterator option" where
  "on_index I f t = do { w \<leftarrow> wrapper_call I f (tl_index_iter t); Some (t\<lparr>tl_index_iter := w\<rparr>) }"

definition on_data :: "'t Iterator \<Rightarrow> ('t \<Rightarrow> 't option) \<Rightarrow> ('s, 't) TwoLevelIterator \<Rightarrow> ('s, 't) TwoLevelIterator option" where
  "on_data J f t = (if iw_iter (tl_data_iter t) \<noteq> None
     then do { w \<leftarrow> wrapper_call J f (tl_data_iter t); Some (t\<lparr>tl_data_iter := w\<rparr>) } else Some t)"

definition data_invalid :: "('s, 't) TwoLevelIterator \<Rightarrow> bool" where
  "data_invalid t \<longleftrightarrow> iw_iter (tl_data_iter t) = None \<or> \<not> iw_valid (tl_data_iter t)"

partial_function (option) SkipEmptyDataBlocksForward :: "'s Iterator \<Rightarrow> 't Iterator \<Rightarrow> 't block_function \<Rightarrow>
    ('s, 't) TwoLevelIterator \<Rightarrow> ('s, 't) TwoLevelIterator option" where
  "SkipEmptyDataBlocksForward I J block_function t = (if data_invalid t then
     (if \<not> iw_valid (tl_index_iter t) then SetDataIterator J None t
      else do {
        t \<leftarrow> on_index I (it_Next I) t;
        t \<leftarrow> InitDataBlock I J block_function t;
        t \<leftarrow> on_data J (it_SeekToFirst J) t;
        SkipEmptyDataBlocksForward I J block_function t })
   else Some t)"

partial_function (option) SkipEmptyDataBlocksBackward :: "'s Iterator \<Rightarrow> 't Iterator \<Rightarrow> 't block_function \<Rightarrow>
    ('s, 't) TwoLevelIterator \<Rightarrow> ('s, 't) TwoLevelIterator option" where
  "SkipEmptyDataBlocksBackward I J block_function t = (if data_invalid t then
     (if \<not> iw_valid (tl_index_iter t) then SetDataIterator J None t
      else do {
        t \<leftarrow> on_index I (it_Prev I) t;
        t \<leftarrow> InitDataBlock I J block_function t;
        t \<leftarrow> on_data J (it_SeekToLast J) t;
        SkipEmptyDataBlocksBackward I J block_function t })
   else Some t)"

definition two_level_Seek :: "'s Iterator \<Rightarrow> 't Iterator \<Rightarrow> 't block_function \<Rightarrow> byte list \<Rightarrow>
    ('s, 't) TwoLevelIterator \<Rightarrow> ('s, 't) TwoLevelIterator option" where
  "two_level_Seek I J block_function target t = do {
     t \<leftarrow> on_index I (it_Seek I target) t;
     t \<leftarrow> InitDataBlock I J block_function t;
     t \<leftarrow> on_data J (it_Seek J target) t;
     SkipEmptyDataBlocksForward I J block_function t }"

definition two_level_SeekToFirst :: "'s Iterator \<Rightarrow> 't Iterator \<Rightarrow> 't block_function \<Rightarrow>
    ('s, 't) TwoLevelIterator \<Rightarrow> ('s, 't) TwoLevelIterator option" where
  "two_level_SeekToFirst I J block_function t = do {
     t \<leftarrow> on_index I (it_SeekToFirst I) t;
     t \<leftarrow> InitDataBlock I J block_function t;
     t \<leftarrow> on_data J (it_SeekToFirst J) t;
     SkipEmptyDataBlocksForward I J block_function t }"

definition two_level_SeekToLast :: "'s Iterator \<Rightarrow> 't Iterator \<Rightarrow> 't block_function \<Rightarrow>
    ('s, 't) TwoLevelIterator \<Rightarrow> ('s, 't) TwoLevelIterator option" where
  "two_level_SeekToLast I J block_function t = do {
     t \<leftarrow> on_index I (it_SeekToLast I) t;
     t \<leftarrow> InitDataBlock I J block_function t;
     t \<leftarrow> on_data J (it_SeekToLast J) t;
     SkipEmptyDataBlocksBackward I J block_function t }"

definition two_level_Valid :: "('s, 't) TwoLevelIterator \<Rightarrow> bool" where
  "two_level_Valid t \<longleftrightarrow> iw_valid (tl_data_iter t)"

definition two_level_Next :: "'s Iterator \<Rightarrow> 't Iterator \<Rightarrow> 't block_function \<Rightarrow>
    ('s, 't) TwoLevelIterator \<Rightarrow> ('s, 't) TwoLevelIterator option" where
  "two_level_Next I J block_function t = (if two_level_Valid t then do {
     w \<leftarrow> wrapper_call J (it_Next J) (tl_data_iter t);
     SkipEmptyDataBlocksForward I J block_function (t\<lparr>tl_data_iter := w\<rparr>) }
   else None)"

definition two_level_Prev :: "'s Iterator \<Rightarrow> 't Iterator \<Rightarrow> 't block_function \<Rightarrow>
    ('s, 't) TwoLevelIterator \<Rightarrow> ('s, 't) TwoLevelIterator option" where
  "two_level_Prev I J block_function t = (if two_level_Valid t then do {
     w \<leftarrow> wrapper_call J (it_Prev J) (tl_data_iter t);
     SkipEmptyDataBlocksBackward I J block_function (t\<lparr>tl_data_iter := w\<rparr>) }
   else None)"

definition two_level_status :: "'s Iterator \<Rightarrow> 't Iterator \<Rightarrow> ('s, 't) TwoLevelIterator \<Rightarrow> Status option" where
  "two_level_status I J t = do {
     i \<leftarrow> iw_iter (tl_index_iter t);
     s \<leftarrow> it_status I i;
     if \<not> ok s then Some s
     else case iw_iter (tl_data_iter t) of
       None \<Rightarrow> Some (tl_status t)
     | Some d \<Rightarrow> do { s \<leftarrow> it_status J d; Some (if \<not> ok s then s else tl_status t) } }"

definition TwoLevel :: "'s Iterator \<Rightarrow> 't Iterator \<Rightarrow> 't block_function \<Rightarrow> ('s, 't) TwoLevelIterator Iterator" where
  "TwoLevel I J block_function = \<lparr>it_Valid = two_level_Valid,
     it_SeekToFirst = two_level_SeekToFirst I J block_function, it_SeekToLast = two_level_SeekToLast I J block_function,
     it_Seek = two_level_Seek I J block_function, it_Next = two_level_Next I J block_function,
     it_Prev = two_level_Prev I J block_function,
     it_key = \<lambda>t. if two_level_Valid t then wrapper_key (tl_data_iter t) else None,
     it_value = \<lambda>t. if two_level_Valid t then wrapper_value J (tl_data_iter t) else None,
     it_status = two_level_status I J\<rparr>"

section \<open>What the parts promise\<close>

text \<open>\<open>blk h\<close> are the entries of the block with the handle \<open>h\<close>. The key in the index is not before any
  key of its block and before all keys of the blocks behind it.\<close>

definition blocks_ordered :: "Comparator \<Rightarrow> (byte list \<Rightarrow> bool) \<Rightarrow> (byte list \<Rightarrow> entry list) \<Rightarrow> entry list \<Rightarrow> bool" where
  "blocks_ordered C good blk ix \<longleftrightarrow> comparator C good \<and> (\<forall>i \<in> set ix. good (fst i) \<and> (\<forall>e \<in> set (blk (snd i)). good (fst e))) \<and>
     (\<forall>i \<in> set ix. \<forall>e \<in> set (blk (snd i)). key_le C (fst e) (fst i)) \<and>
     sorted_wrt (\<lambda>i j. key_less C (fst i) (fst j) \<and> (\<forall>e \<in> set (blk (snd j)). key_less C (fst i) (fst e))) ix"

definition block_entries :: "(byte list \<Rightarrow> entry list) \<Rightarrow> entry list \<Rightarrow> entry list" where
  "block_entries blk ix = concat (map (\<lambda>i. blk (snd i)) ix)"

definition block_pos :: "(byte list \<Rightarrow> entry list) \<Rightarrow> entry list \<Rightarrow> nat \<Rightarrow> nat" where
  "block_pos blk ix j = length (block_entries blk (take j ix))"

lemma block_entries_simps [simp]: "block_entries blk [] = []" "block_entries blk (i # ix) = blk (snd i) @ block_entries blk ix"
  "block_entries blk (ix @ jx) = block_entries blk ix @ block_entries blk jx"
  by (simp_all add: block_entries_def)

lemma block_pos_simps:
  "block_pos blk ix 0 = 0" "j < length ix \<Longrightarrow> block_pos blk ix (Suc j) = block_pos blk ix j + length (blk (snd (ix ! j)))"
  "length ix \<le> j \<Longrightarrow> block_pos blk ix j = length (block_entries blk ix)"
  by (simp_all add: block_pos_def take_Suc_conv_app_nth)

lemma block_entries_split:
  "j < length ix \<Longrightarrow> block_entries blk ix = block_entries blk (take j ix) @ blk (snd (ix ! j)) @ block_entries blk (drop (Suc j) ix)"
  by (metis block_entries_simps(2,3) id_take_nth_drop)

lemma block_entries_nth:
  assumes "j < length ix" "q < length (blk (snd (ix ! j)))"
  shows "block_entries blk ix ! (block_pos blk ix j + q) = blk (snd (ix ! j)) ! q"
    "block_pos blk ix j + q < length (block_entries blk ix)"
  using block_entries_split [OF assms(1), of blk] assms(2) by (simp_all add: block_pos_def nth_append)

text \<open>Positions: the index at \<open>j\<close>, its block open at \<open>q\<close>.\<close>

definition no_data :: "('s, 't) TwoLevelIterator \<Rightarrow> bool" where
  "no_data t \<longleftrightarrow> iw_iter (tl_data_iter t) = None \<and> \<not> iw_valid (tl_data_iter t)"

locale two_level = index: iterator I C ix good at_i
  for I :: "'s Iterator" and C and ix and good and at_i +
  fixes J :: "'t Iterator" and block_function :: "'t block_function" and blk :: "byte list \<Rightarrow> entry list"
    and at_d :: "byte list \<Rightarrow> 't \<Rightarrow> nat \<Rightarrow> bool"
  assumes data: "at_i s i \<Longrightarrow> h \<in> snd ` set ix \<Longrightarrow> iterator J C (blk h) good (at_d h)"
    and block: "at_i s i \<Longrightarrow> h \<in> snd ` set ix \<Longrightarrow> \<exists>t. block_function h = Some t \<and> at_d h t (length (blk h))"
    and ordered: "at_i s i \<Longrightarrow> blocks_ordered C good blk ix"
begin

definition data_at :: "byte list \<Rightarrow> ('s, 't) TwoLevelIterator \<Rightarrow> nat \<Rightarrow> bool" where
  "data_at h t q \<longleftrightarrow> h \<in> snd ` set ix \<and> tl_data_block_handle t = h \<and> wrapped_at (blk h) (at_d h) (tl_data_iter t) q"

definition base :: "('s, 't) TwoLevelIterator \<Rightarrow> nat \<Rightarrow> bool" where
  "base t j \<longleftrightarrow> tl_status t = OK \<and> wrapped_at ix at_i (tl_index_iter t) j \<and> (no_data t \<or> (\<exists>h q. data_at h t q))"

definition opened :: "('s, 't) TwoLevelIterator \<Rightarrow> nat \<Rightarrow> nat \<Rightarrow> bool" where
  "opened t j q \<longleftrightarrow> base t j \<and> (if j < length ix then data_at (snd (ix ! j)) t q else no_data t)"

definition level_at :: "('s, 't) TwoLevelIterator \<Rightarrow> nat \<Rightarrow> bool" where
  "level_at t p \<longleftrightarrow> base t (length ix) \<and> no_data t \<and> p = length (block_entries blk ix) \<or>
     (\<exists>j q. j < length ix \<and> opened t j q \<and> q < length (blk (snd (ix ! j))) \<and> p = block_pos blk ix j + q)"

lemma index_at: "base t j \<Longrightarrow> \<exists>s. iw_iter (tl_index_iter t) = Some s \<and> at_i s j \<and> j \<le> length ix \<and>
    iw_valid (tl_index_iter t) = (j < length ix)"
  using index.at_le by (auto simp: base_def wrapped_at_def)

lemma data_iterator: "base t j \<Longrightarrow> h \<in> snd ` set ix \<Longrightarrow> iterator J C (blk h) good (at_d h)"
  using index_at data by blast

lemma save_status: "base t j \<Longrightarrow> (case iw_iter (tl_data_iter t) of None \<Rightarrow> Some t'
    | Some d \<Rightarrow> do { s \<leftarrow> it_status J d; Some (SaveError s t') }) = Some t'"
proof (cases "iw_iter (tl_data_iter t)")
  case (Some d)
  assume t: "base t j"
  then obtain h q where "h \<in> snd ` set ix" "at_d h d q" using Some by (auto simp: base_def no_data_def data_at_def wrapped_at_def)
  then have "it_status J d = Some OK" using iterator.status_eq [OF data_iterator [OF t]] by blast
  then show ?thesis using Some by (simp add: SaveError_def)
qed simp

lemma SetDataIterator_None: "base t j \<Longrightarrow> \<exists>t'. SetDataIterator J None t = Some t' \<and> base t' j \<and> no_data t'"
  using save_status [of t j t] by (simp add: SetDataIterator_def wrapper_Set_def base_def no_data_def)

lemma SetDataIterator_Some:
  assumes "base t j" "h \<in> snd ` set ix" "at_d h d q"
  shows "\<exists>t'. SetDataIterator J (Some d) (t\<lparr>tl_data_block_handle := h\<rparr>) = Some t' \<and> base t' j \<and> data_at h t' q"
proof -
  obtain w where "wrapper_Set J (Some d) (tl_data_iter t) = Some w" "wrapped_at (blk h) (at_d h) w q"
    using iterator.wrapper_Set_at [OF data_iterator [OF assms(1,2)] assms(3)] by blast
  then show ?thesis
    using save_status [OF assms(1), of "t\<lparr>tl_data_block_handle := h\<rparr>"] assms
    by (auto simp: SetDataIterator_def base_def data_at_def)
qed

lemma slice_compare_0: "slice_compare h k = Some 0 \<longleftrightarrow> h = k"
  using slice_compare_lex [of h k] by auto

lemma InitDataBlock_opened:
  assumes "base t j"
  shows "\<exists>t' q. InitDataBlock I J block_function t = Some t' \<and> opened t' j q"
proof (cases "j < length ix")
  case True
  define h where "h = snd (ix ! j)"
  have h: "h \<in> snd ` set ix" using True by (simp add: h_def)
  obtain s where s: "iw_iter (tl_index_iter t) = Some s" "at_i s j" "iw_valid (tl_index_iter t)" using index_at [OF assms] True by blast
  then have handle: "wrapper_value I (tl_index_iter t) = Some h" using index.value_eq [OF s(2) True] by (simp add: wrapper_value_def h_def)
  show ?thesis
  proof (cases "iw_iter (tl_data_iter t) \<noteq> None \<and> h = tl_data_block_handle t")
    case same: True
    then have "\<exists>q. data_at h t q" using assms by (auto simp: base_def no_data_def data_at_def)
    then show ?thesis using same handle s assms True by (auto simp: InitDataBlock_def slice_compare_0 opened_def h_def)
  next
    case False
    obtain d where d: "block_function h = Some d" "at_d h d (length (blk h))" using block [OF s(2) h] by blast
    then obtain t' where "SetDataIterator J (Some d) (t\<lparr>tl_data_block_handle := h\<rparr>) = Some t'" "base t' j" "data_at h t' (length (blk h))"
      using SetDataIterator_Some [OF assms h] by blast
    then have "InitDataBlock I J block_function t = Some t'" "opened t' j (length (blk h))"
      using False handle s d True by (auto simp: InitDataBlock_def slice_compare_0 opened_def h_def)
    then show ?thesis by blast
  qed
next
  case False
  then show ?thesis using SetDataIterator_None [OF assms] index_at [OF assms] by (auto simp: InitDataBlock_def opened_def)
qed

lemma on_index_base:
  assumes "base t j" "\<And>s. at_i s j \<Longrightarrow> \<exists>s'. f s = Some s' \<and> at_i s' k"
  shows "\<exists>t'. on_index I f t = Some t' \<and> base t' k"
proof -
  obtain s where s: "iw_iter (tl_index_iter t) = Some s" "at_i s j" using index_at [OF assms(1)] by blast
  obtain w where "wrapper_call I f (tl_index_iter t) = Some w" "wrapped_at ix at_i w k"
    using index.wrapper_call_at [where f = f, OF s(1) assms(2) [OF s(2)]] by blast
  then show ?thesis using assms(1) by (auto simp: on_index_def base_def no_data_def data_at_def)
qed

lemma on_data_opened:
  assumes "opened t j q" "\<And>d. j < length ix \<Longrightarrow> at_d (snd (ix ! j)) d q \<Longrightarrow> \<exists>d'. f d = Some d' \<and> at_d (snd (ix ! j)) d' r"
  shows "\<exists>t'. on_data J f t = Some t' \<and> opened t' j r"
proof (cases "j < length ix")
  case True
  define h where "h = snd (ix ! j)"
  have t: "base t j" "data_at h t q" using assms(1) True by (simp_all add: opened_def h_def)
  then obtain d where d: "iw_iter (tl_data_iter t) = Some d" "at_d h d q" "h \<in> snd ` set ix" by (auto simp: data_at_def wrapped_at_def)
  obtain w where "wrapper_call J f (tl_data_iter t) = Some w" "wrapped_at (blk h) (at_d h) w r"
    using iterator.wrapper_call_at [where f = f, OF data_iterator [OF t(1) d(3)] d(1)] assms(2) [OF True, of d] d(2) by (auto simp: h_def)
  then show ?thesis using t d True by (auto simp: on_data_def opened_def base_def data_at_def h_def)
next
  case False
  then show ?thesis using assms(1) by (auto simp: on_data_def opened_def no_data_def)
qed

lemma opened_le: "opened t j q \<Longrightarrow> j < length ix \<Longrightarrow> q \<le> length (blk (snd (ix ! j)))"
  using iterator.at_le [OF data_iterator] by (fastforce simp: opened_def data_at_def wrapped_at_def)

lemma opened_invalid: "opened t j q \<Longrightarrow> data_invalid t \<longleftrightarrow> \<not> (j < length ix \<and> q < length (blk (snd (ix ! j))))"
  by (cases "j < length ix") (auto simp: opened_def data_invalid_def no_data_def data_at_def wrapped_at_def)

text \<open>A move of the index followed by one in the block it then points to.\<close>

lemma index_then_data:
  assumes "base t j" "\<And>s. at_i s j \<Longrightarrow> \<exists>s'. f s = Some s' \<and> at_i s' k"
    and "\<And>d q. k < length ix \<Longrightarrow> at_d (snd (ix ! k)) d q \<Longrightarrow> \<exists>d'. g d = Some d' \<and> at_d (snd (ix ! k)) d' r"
  shows "\<exists>u v w. on_index I f t = Some u \<and> InitDataBlock I J block_function u = Some v \<and>
    on_data J g v = Some w \<and> opened w k r"
  using on_index_base [OF assms(1,2)] InitDataBlock_opened on_data_opened assms(3) by meson

end


context two_level
begin

lemma first_in_block: "base t j \<Longrightarrow> k < length ix \<Longrightarrow> at_d (snd (ix ! k)) d q \<Longrightarrow>
    \<exists>d'. it_SeekToFirst J d = Some d' \<and> at_d (snd (ix ! k)) d' 0"
  by (rule iterator.first_at [OF data_iterator, of t j "snd (ix ! k)"]) simp_all

lemma last_in_block: "base t j \<Longrightarrow> k < length ix \<Longrightarrow> at_d (snd (ix ! k)) d q \<Longrightarrow>
    \<exists>d'. it_SeekToLast J d = Some d' \<and> at_d (snd (ix ! k)) d' (last_pos (blk (snd (ix ! k))))"
  by (rule iterator.last_at [OF data_iterator, of t j "snd (ix ! k)"]) simp_all

lemma opened_level: "opened t j q \<Longrightarrow> j < length ix \<Longrightarrow> q < length (blk (snd (ix ! j))) \<Longrightarrow> level_at t (block_pos blk ix j + q)"
  by (auto simp: level_at_def)

lemma opened_parts: "opened t j q \<Longrightarrow> base t j \<and> j \<le> length ix \<and> iw_valid (tl_index_iter t) = (j < length ix)"
  using index_at [of t j] by (auto simp: opened_def)

lemma closed_level:
  assumes "opened t (length ix) q"
  shows "\<exists>t'. SetDataIterator J None t = Some t' \<and> level_at t' (length (block_entries blk ix))"
proof -
  have "base t (length ix)" using opened_parts [OF assms] by blast
  then obtain t' where "SetDataIterator J None t = Some t'" "base t' (length ix)" "no_data t'" using SetDataIterator_None by blast
  then show ?thesis unfolding level_at_def by blast
qed

lemma skip_forward:
  "opened t j q \<Longrightarrow> \<exists>t'. SkipEmptyDataBlocksForward I J block_function t = Some t' \<and>
    level_at t' (if j < length ix then block_pos blk ix j + q else length (block_entries blk ix))"
proof (induction "length ix - j" arbitrary: t j q)
  case 0
  note step = SkipEmptyDataBlocksForward.simps [of I J block_function t]
  have j: "j = length ix" using opened_parts [OF 0(2)] 0(1) by simp
  then have "SkipEmptyDataBlocksForward I J block_function t = SetDataIterator J None t"
    using step opened_parts [OF 0(2)] opened_invalid [OF 0(2)] by simp
  then show ?case using closed_level 0(2) j by simp
next
  case (Suc n)
  note step = SkipEmptyDataBlocksForward.simps [of I J block_function t]
  have j: "j < length ix" using Suc(2) by simp
  show ?case
  proof (cases "q < length (blk (snd (ix ! j)))")
    case True
    then have "SkipEmptyDataBlocksForward I J block_function t = Some t" using step opened_invalid [OF Suc(3)] j by simp
    then show ?thesis using opened_level [OF Suc(3) j True] j by simp
  next
    case False
    then have q: "q = length (blk (snd (ix ! j)))" using opened_le [OF Suc(3) j] by simp
    have b: "base t j" "iw_valid (tl_index_iter t)" using opened_parts [OF Suc(3)] j by simp_all
    obtain u v w where s: "on_index I (it_Next I) t = Some u" "InitDataBlock I J block_function u = Some v"
        "on_data J (it_SeekToFirst J) v = Some w" "opened w (Suc j) 0"
      using index_then_data [OF b(1), of "it_Next I" "Suc j" "it_SeekToFirst J" 0] index.next_at first_in_block [OF b(1)] j by blast
    have "SkipEmptyDataBlocksForward I J block_function t = SkipEmptyDataBlocksForward I J block_function w"
      using step s b opened_invalid [OF Suc(3)] False by simp
    moreover have "block_pos blk ix j + q = (if Suc j < length ix then block_pos blk ix (Suc j) + 0 else length (block_entries blk ix))"
      using block_pos_simps(2) [OF j, of blk] block_pos_simps(3) [of ix "Suc j" blk] q by simp
    moreover have "n = length ix - Suc j" using Suc(2) by simp
    ultimately show ?thesis using Suc(1) [OF _ s(4)] j by simp
  qed
qed

lemma skip_backward:
  "opened t j q \<Longrightarrow> \<exists>t'. SkipEmptyDataBlocksBackward I J block_function t = Some t' \<and>
    level_at t' (if j < length ix then if q < length (blk (snd (ix ! j))) then block_pos blk ix j + q
      else prev_pos (block_entries blk ix) (block_pos blk ix j) else length (block_entries blk ix))"
proof (induction "if j < length ix then Suc j else 0" arbitrary: t j q)
  case 0
  note step = SkipEmptyDataBlocksBackward.simps [of I J block_function t]
  have j: "j = length ix" using opened_parts [OF 0(2)] 0(1) by (simp split: if_splits)
  then have "SkipEmptyDataBlocksBackward I J block_function t = SetDataIterator J None t"
    using step opened_parts [OF 0(2)] opened_invalid [OF 0(2)] by simp
  then show ?case using closed_level 0(2) j by simp
next
  case (Suc n)
  note step = SkipEmptyDataBlocksBackward.simps [of I J block_function t]
  have j: "j < length ix" "n = j" using Suc(2) by (simp_all split: if_splits)
  show ?case
  proof (cases "q < length (blk (snd (ix ! j)))")
    case True
    then have "SkipEmptyDataBlocksBackward I J block_function t = Some t" using step opened_invalid [OF Suc(3)] j by simp
    then show ?thesis using opened_level [OF Suc(3) j(1) True] j True by simp
  next
    case False
    define k where "k = prev_pos ix j"
    have b: "base t j" "iw_valid (tl_index_iter t)" using opened_parts [OF Suc(3)] j by simp_all
    obtain u v w where s: "on_index I (it_Prev I) t = Some u" "InitDataBlock I J block_function u = Some v"
        "on_data J (it_SeekToLast J) v = Some w" "opened w k (last_pos (blk (snd (ix ! k))))"
      using index_then_data [OF b(1), of "it_Prev I" k "it_SeekToLast J" "last_pos (blk (snd (ix ! k)))"]
        index.prev_at last_in_block [OF b(1)] j by (auto simp: k_def)
    have k: "n = (if k < length ix then Suc k else 0)" using j by (auto simp: k_def prev_pos_def)
    have "SkipEmptyDataBlocksBackward I J block_function t = SkipEmptyDataBlocksBackward I J block_function w"
      using step s b opened_invalid [OF Suc(3)] False by simp
    moreover have "prev_pos (block_entries blk ix) (block_pos blk ix j) = (if k < length ix
        then if last_pos (blk (snd (ix ! k))) < length (blk (snd (ix ! k))) then block_pos blk ix k + last_pos (blk (snd (ix ! k)))
          else prev_pos (block_entries blk ix) (block_pos blk ix k) else length (block_entries blk ix))"
      using j block_pos_simps(2) [of k ix blk] block_pos_simps(1) [of blk ix]
      by (cases j) (auto simp: k_def prev_pos_def last_pos_def)
    ultimately show ?thesis using Suc(1) [OF k s(4)] j False by simp
  qed
qed

end


section \<open>Seeking across the blocks\<close>

lemma lower_bound_append:
  "\<forall>e \<in> set xs. key_less C (fst e) target \<Longrightarrow> lower_bound C (xs @ ys) target = length xs + lower_bound C ys target"
  "\<forall>e \<in> set ys. \<not> key_less C (fst e) target \<Longrightarrow> lower_bound C (xs @ ys) target = lower_bound C xs target"
  unfolding lower_bound_def
  subgoal by simp
  subgoal by (induction xs) (auto simp: takeWhile_eq_Nil_iff neq_Nil_conv)
  done

lemma block_entries_set: "e \<in> set (block_entries blk ix) \<longleftrightarrow> (\<exists>i \<in> set ix. e \<in> set (blk (snd i)))"
  by (simp add: block_entries_def)

lemma lower_bound_blocks:
  assumes o: "blocks_ordered C good blk ix" and good: "good target" and k: "k = lower_bound C ix target"
  shows "lower_bound C (block_entries blk ix) target = (if k < length ix
    then block_pos blk ix k + lower_bound C (blk (snd (ix ! k))) target else length (block_entries blk ix))"
proof -
  have c: "comparator C good" and g: "\<And>i. i \<in> set ix \<Longrightarrow> good (fst i)"
      "\<And>i e. i \<in> set ix \<Longrightarrow> e \<in> set (blk (snd i)) \<Longrightarrow> good (fst e) \<and> key_le C (fst e) (fst i)"
    using o by (auto simp: blocks_ordered_def)
  have behind: "key_less C (fst (ix ! i)) (fst e)" if "i < j" "j < length ix" "e \<in> set (blk (snd (ix ! j)))" for i j e
    using o that by (auto simp: blocks_ordered_def sorted_wrt_iff_nth_less)
  have before: "key_less C (fst e) target" if e: "e \<in> set (block_entries blk (take k ix))" for e
  proof -
    obtain i where i: "i < k" "i < length ix" "e \<in> set (blk (snd (ix ! i)))"
      using e unfolding block_entries_set by (auto simp: in_set_conv_nth [of _ "take k ix"])
    then have m: "ix ! i \<in> set ix" by simp
    show ?thesis
      using key_order.le_less_trans [OF comparator.axioms(1) [OF c] _ g(1) [OF m] good] g(2) [OF m i(3)] lower_bound_less [of i C ix target] i(1) k by blast
  qed
  show ?thesis
  proof (cases "k < length ix")
    case True
    then have m: "ix ! k \<in> set ix" by simp
    have "\<not> key_less C (fst (ix ! k)) target" using lower_bound_at True k by blast
    then have ge: "key_le C target (fst (ix ! k))" using key_order.not_less [OF comparator.axioms(1) [OF c] g(1) [OF m] good] by blast
    have "\<not> key_less C (fst e) target" if e: "e \<in> set (block_entries blk (drop (Suc k) ix))" for e
    proof -
      obtain i where "i < length (drop (Suc k) ix)" "e \<in> set (blk (snd (drop (Suc k) ix ! i)))"
        using e unfolding block_entries_set by (metis in_set_conv_nth)
      then obtain j where j: "k < j" "j < length ix" "e \<in> set (blk (snd (ix ! j)))"
        using that [of "Suc (k + i)"] by simp
      then have "good (fst e)" "key_less C (fst (ix ! k)) (fst e)" using g(2) [of "ix ! j" e] behind by simp_all
      then have "key_less C target (fst e)" using key_order.le_less_trans [OF comparator.axioms(1) [OF c] good g(1) [OF m]] ge by blast
      then show ?thesis using key_order.not_less [OF comparator.axioms(1) [OF c] _ good] key_order.less_imp_le [OF comparator.axioms(1) [OF c]] \<open>good (fst e)\<close> by blast
    qed
    then show ?thesis
      using True before block_entries_split [OF True, of blk] by (simp add: lower_bound_append block_pos_def)
  next
    case False
    then have "take k ix = ix" using lower_bound_le [of C ix target] k by simp
    then show ?thesis using False before lower_bound_append(1) [of "block_entries blk ix" C target "[]"] by (simp add: lower_bound_def)
  qed
qed

section \<open>The operations\<close>

lemma last_pos_less: "last_pos es < length es \<longleftrightarrow> es \<noteq> []"
  by (cases es) (simp_all add: last_pos_def)

lemma last_blocks: "last_pos (block_entries blk ix) = (if last_pos ix < length ix then
    if last_pos (blk (snd (ix ! last_pos ix))) < length (blk (snd (ix ! last_pos ix)))
    then block_pos blk ix (last_pos ix) + last_pos (blk (snd (ix ! last_pos ix)))
    else prev_pos (block_entries blk ix) (block_pos blk ix (last_pos ix)) else length (block_entries blk ix))"
  using block_entries_split [of "last_pos ix" ix blk]
  by (cases "ix = []"; cases "blk (snd (ix ! last_pos ix)) = []")
    (simp_all add: last_pos_less, auto simp: last_pos_def prev_pos_def block_pos_def neq_Nil_conv)

context two_level
begin

lemma seek_in_block: "base t j \<Longrightarrow> good target \<Longrightarrow> k < length ix \<Longrightarrow> at_d (snd (ix ! k)) d q \<Longrightarrow>
    \<exists>d'. it_Seek J target d = Some d' \<and> at_d (snd (ix ! k)) d' (lower_bound C (blk (snd (ix ! k))) target)"
  by (rule iterator.seek_at [OF data_iterator, of t j "snd (ix ! k)"]) simp_all

lemma level_base: "level_at t p \<Longrightarrow> \<exists>j. base t j"
  by (auto simp: level_at_def opened_def)

lemma level_first:
  assumes "level_at t p"
  shows "\<exists>t'. two_level_SeekToFirst I J block_function t = Some t' \<and> level_at t' 0"
proof -
  obtain j where b: "base t j" using level_base assms by blast
  obtain u v w where s: "on_index I (it_SeekToFirst I) t = Some u" "InitDataBlock I J block_function u = Some v"
      "on_data J (it_SeekToFirst J) v = Some w" "opened w 0 0"
    using index_then_data [OF b, of "it_SeekToFirst I" 0 "it_SeekToFirst J" 0] index.first_at first_in_block [OF b] by blast
  then show ?thesis using skip_forward [OF s(4)] by (cases ix) (simp_all add: two_level_SeekToFirst_def block_pos_simps)
qed

lemma level_last:
  assumes "level_at t p"
  shows "\<exists>t'. two_level_SeekToLast I J block_function t = Some t' \<and> level_at t' (last_pos (block_entries blk ix))"
proof -
  obtain j where b: "base t j" using level_base assms by blast
  define k where "k = last_pos ix"
  obtain u v w where s: "on_index I (it_SeekToLast I) t = Some u" "InitDataBlock I J block_function u = Some v"
      "on_data J (it_SeekToLast J) v = Some w" "opened w k (last_pos (blk (snd (ix ! k))))"
    using index_then_data [OF b, of "it_SeekToLast I" k "it_SeekToLast J" "last_pos (blk (snd (ix ! k)))"]
      index.last_at last_in_block [OF b] by (auto simp: k_def)
  then show ?thesis using skip_backward [OF s(4)] unfolding last_blocks k_def [symmetric] by (simp add: two_level_SeekToLast_def)
qed

lemma level_seek:
  assumes "level_at t p" "good target"
  shows "\<exists>t'. two_level_Seek I J block_function target t = Some t' \<and> level_at t' (lower_bound C (block_entries blk ix) target)"
proof -
  obtain j where b: "base t j" using level_base assms by blast
  then obtain s where at: "at_i s j" using index_at by blast
  define k where "k = lower_bound C ix target"
  obtain u v w where s: "on_index I (it_Seek I target) t = Some u" "InitDataBlock I J block_function u = Some v"
      "on_data J (it_Seek J target) v = Some w" "opened w k (lower_bound C (blk (snd (ix ! k))) target)"
    using index_then_data [OF b, of "it_Seek I target" k "it_Seek J target" "lower_bound C (blk (snd (ix ! k))) target"]
      index.seek_at seek_in_block [OF b] assms(2) by (auto simp: k_def)
  then show ?thesis
    using skip_forward [OF s(4)] lower_bound_blocks [OF ordered [OF at] assms(2) k_def] by (simp add: two_level_Seek_def)
qed

end


context two_level
begin

lemma data_call_opened:
  assumes "opened t j q" "j < length ix" "\<And>d. at_d (snd (ix ! j)) d q \<Longrightarrow> \<exists>d'. f d = Some d' \<and> at_d (snd (ix ! j)) d' r"
  shows "\<exists>w. wrapper_call J f (tl_data_iter t) = Some w \<and> opened (t\<lparr>tl_data_iter := w\<rparr>) j r"
proof -
  have "iw_iter (tl_data_iter t) \<noteq> None" using assms(1,2) by (auto simp: opened_def data_at_def wrapped_at_def)
  then show ?thesis using on_data_opened [where f = f, OF assms(1) assms(3)] by (auto simp: on_data_def bind_Some_iff)
qed

text \<open>A valid position: an index entry and a place in its block.\<close>

lemma level_valid:
  "level_at t p \<Longrightarrow> two_level_Valid t \<longleftrightarrow> p < length (block_entries blk ix)"
  "level_at t p \<Longrightarrow> p < length (block_entries blk ix) \<Longrightarrow>
    \<exists>j q. j < length ix \<and> opened t j q \<and> q < length (blk (snd (ix ! j))) \<and> p = block_pos blk ix j + q"
  by (auto simp: level_at_def two_level_Valid_def no_data_def opened_def data_at_def wrapped_at_def block_entries_nth)

lemma level_next:
  assumes "level_at t p" "p < length (block_entries blk ix)"
  shows "\<exists>t'. two_level_Next I J block_function t = Some t' \<and> level_at t' (Suc p)"
proof -
  obtain j q where j: "j < length ix" "opened t j q" "q < length (blk (snd (ix ! j)))" "p = block_pos blk ix j + q"
    using level_valid(2) [OF assms] by blast
  have "base t j" "snd (ix ! j) \<in> snd ` set ix" using j opened_parts by (simp_all add: opened_def)
  note d = iterator.next_at [OF data_iterator [OF this]]
  obtain w where w: "wrapper_call J (it_Next J) (tl_data_iter t) = Some w" "opened (t\<lparr>tl_data_iter := w\<rparr>) j (Suc q)"
    using data_call_opened [where f = "it_Next J", OF j(2,1) d] j(3) by blast
  then show ?thesis
    using skip_forward [OF w(2)] level_valid(1) [OF assms(1)] assms(2) j by (simp add: two_level_Next_def)
qed

lemma level_prev:
  assumes "level_at t p" "p < length (block_entries blk ix)"
  shows "\<exists>t'. two_level_Prev I J block_function t = Some t' \<and> level_at t' (prev_pos (block_entries blk ix) p)"
proof -
  obtain j q where j: "j < length ix" "opened t j q" "q < length (blk (snd (ix ! j)))" "p = block_pos blk ix j + q"
    using level_valid(2) [OF assms] by blast
  have "base t j" "snd (ix ! j) \<in> snd ` set ix" using j opened_parts by (simp_all add: opened_def)
  note d = iterator.prev_at [OF data_iterator [OF this]]
  obtain w where w: "wrapper_call J (it_Prev J) (tl_data_iter t) = Some w"
      "opened (t\<lparr>tl_data_iter := w\<rparr>) j (prev_pos (blk (snd (ix ! j))) q)"
    using data_call_opened [where f = "it_Prev J", OF j(2,1) d] j(3) by blast
  have "prev_pos (block_entries blk ix) p = (if prev_pos (blk (snd (ix ! j))) q < length (blk (snd (ix ! j)))
      then block_pos blk ix j + prev_pos (blk (snd (ix ! j))) q else prev_pos (block_entries blk ix) (block_pos blk ix j))"
    using j by (auto simp: prev_pos_def)
  then show ?thesis
    using w skip_backward [OF w(2)] level_valid(1) [OF assms(1)] assms(2) j(1) by (simp add: two_level_Prev_def)
qed

lemma level_entry:
  assumes "level_at t p" "p < length (block_entries blk ix)"
  shows "wrapper_key (tl_data_iter t) = Some (fst (block_entries blk ix ! p))"
    "wrapper_value J (tl_data_iter t) = Some (snd (block_entries blk ix ! p))"
proof -
  obtain j q where j: "j < length ix" "opened t j q" "q < length (blk (snd (ix ! j)))" "p = block_pos blk ix j + q"
    using level_valid(2) [OF assms] by blast
  define h where "h = snd (ix ! j)"
  have h: "base t j" "h \<in> snd ` set ix" "wrapped_at (blk h) (at_d h) (tl_data_iter t) q"
    using j by (auto simp: opened_def data_at_def h_def)
  show "wrapper_key (tl_data_iter t) = Some (fst (block_entries blk ix ! p))"
    "wrapper_value J (tl_data_iter t) = Some (snd (block_entries blk ix ! p))"
    using iterator.key_eq [OF iterator.wrapper_iterator [OF data_iterator [OF h(1,2)]] h(3)]
      iterator.value_eq [OF iterator.wrapper_iterator [OF data_iterator [OF h(1,2)]] h(3)]
      j block_entries_nth [of j ix q blk] by (simp_all add: WrapperIterator_def h_def)
qed

lemma level_status:
  assumes "level_at t p"
  shows "two_level_status I J t = Some OK"
proof -
  obtain j where b: "base t j" using level_base assms by blast
  then obtain s where s: "iw_iter (tl_index_iter t) = Some s" "at_i s j" using index_at by blast
  have "it_status J d = Some OK" if d: "iw_iter (tl_data_iter t) = Some d" for d
  proof -
    obtain h q where h: "h \<in> snd ` set ix" "at_d h d q" using d b by (auto simp: base_def no_data_def data_at_def wrapped_at_def)
    show ?thesis by (rule iterator.status_eq [OF data_iterator [OF b h(1)] h(2)])
  qed
  then show ?thesis
    using s index.status_eq [OF s(2)] b by (auto simp: two_level_status_def base_def split: option.splits)
qed

lemma level_iterator: "iterator (TwoLevel I J block_function) C (block_entries blk ix) good level_at"
proof
  show "p \<le> length (block_entries blk ix)" if "level_at t p" for t p
    using that block_entries_nth(2) by (fastforce simp: level_at_def)
qed (simp_all add: TwoLevel_def level_valid(1) level_entry level_status level_first level_last level_seek level_next level_prev)

lemma new_level:
  assumes "at_i s (length ix)"
  shows "\<exists>t. new_TwoLevelIterator I s = Some t \<and> level_at t (length (block_entries blk ix))"
  using index.wrapper_Set_at [OF assms, of new_IteratorWrapper]
  by (auto simp: new_TwoLevelIterator_def level_at_def base_def no_data_def new_IteratorWrapper_def)

end

end
