(* ===== verification/Ldb_Options.thy ===== *)
theory Ldb_Options
  imports Ldb_Comparator Ldb_Bloom
begin

text \<open>
  The options that tables and blocks depend on, \<open>include/leveldb/options.h\<close> and
  \<open>util/options.cc\<close>. The environment, the logger and the block cache are objects that the
  components here do not reach through the options.
\<close>

datatype CompressionType = kNoCompression | kSnappyCompression

definition CompressionType_num :: "CompressionType \<Rightarrow> byte" where
  "CompressionType_num t = (case t of kNoCompression \<Rightarrow> 0 | kSnappyCompression \<Rightarrow> 1)"

record Options =
  op_comparator :: Comparator
  op_create_if_missing :: bool
  op_error_if_exists :: bool
  op_paranoid_checks :: bool
  op_write_buffer_size :: nat
  op_max_open_files :: int
  op_block_size :: nat
  op_block_restart_interval :: int
  op_max_file_size :: nat
  op_compression :: CompressionType
  op_reuse_logs :: bool
  op_filter_policy :: "FilterPolicy option"

definition new_Options :: Options where
  "new_Options = \<lparr>op_comparator = BytewiseComparator, op_create_if_missing = False, op_error_if_exists = False,
     op_paranoid_checks = False, op_write_buffer_size = 4 * 1024 * 1024, op_max_open_files = 1000,
     op_block_size = 4 * 1024, op_block_restart_interval = 16, op_max_file_size = 2 * 1024 * 1024,
     op_compression = kSnappyCompression, op_reuse_logs = False, op_filter_policy = None\<rparr>"

record ReadOptions =
  ro_verify_checksums :: bool
  ro_fill_cache :: bool
  ro_snapshot :: "u64 option"

definition new_ReadOptions :: ReadOptions where
  "new_ReadOptions = \<lparr>ro_verify_checksums = False, ro_fill_cache = True, ro_snapshot = None\<rparr>"

end
