(* ===== verification/Ldb_Format.thy ===== *)
theory Ldb_Format
  imports Ldb_Env Ldb_Options Ldb_Crc32c Ldb_Logging
begin

text \<open>
  The format of table files, \<open>table/format.h\<close> and \<open>table/format.cc\<close>: block handles, the footer
  and reading a block with its trailer; and the Snappy functions of \<open>port/port_stdcxx.h\<close>,
  which the build leaves without an implementation.
\<close>

section \<open>Compression\<close>

text \<open>\<open>None\<close> is the result \<open>false\<close>.\<close>

definition Snappy_Compress :: "byte list \<Rightarrow> byte list option" where
  "Snappy_Compress input = None"

definition Snappy_GetUncompressedLength :: "byte list \<Rightarrow> nat option" where
  "Snappy_GetUncompressedLength input = None"

definition Snappy_Uncompress :: "byte list \<Rightarrow> byte list option" where
  "Snappy_Uncompress input = None"

section \<open>Block handles\<close>

record BlockHandle =
  bh_offset :: u64
  bh_size :: u64

definition new_BlockHandle :: BlockHandle where
  "new_BlockHandle = \<lparr>bh_offset = NOT 0, bh_size = NOT 0\<rparr>"

definition BlockHandle_EncodeTo :: "BlockHandle \<Rightarrow> byte list \<Rightarrow> byte list option" where
  "BlockHandle_EncodeTo h dst = (if bh_offset h \<noteq> NOT 0 \<and> bh_size h \<noteq> NOT 0
     then Some (PutVarint64 (PutVarint64 dst (bh_offset h)) (bh_size h)) else None)"

text \<open>The offset is assigned even when the size cannot be read.\<close>

definition BlockHandle_DecodeFrom :: "byte list \<Rightarrow> BlockHandle \<Rightarrow> Status \<times> BlockHandle \<times> byte list" where
  "BlockHandle_DecodeFrom input h = (case GetVarint64 input of
     (Some offset, input) \<Rightarrow> (let h = h\<lparr>bh_offset := offset\<rparr> in
       case GetVarint64 input of
         (Some sz, input) \<Rightarrow> (OK, h\<lparr>bh_size := sz\<rparr>, input)
       | (None, input) \<Rightarrow> (Corruption (ascii ''bad block handle''), h, input))
   | (None, input) \<Rightarrow> (Corruption (ascii ''bad block handle''), h, input))"

section \<open>The footer\<close>

definition kMaxEncodedLength :: nat where "kMaxEncodedLength = 20"
definition kEncodedLength :: nat where "kEncodedLength = 2 * kMaxEncodedLength + 8"
definition kTableMagicNumber :: u64 where "kTableMagicNumber = 0xdb4775248b80fb57"
definition kBlockTrailerSize :: nat where "kBlockTrailerSize = 5"

lemmas format_sizes = kMaxEncodedLength_def kEncodedLength_def kBlockTrailerSize_def

record Footer =
  ft_metaindex_handle :: BlockHandle
  ft_index_handle :: BlockHandle

definition new_Footer :: Footer where
  "new_Footer = \<lparr>ft_metaindex_handle = new_BlockHandle, ft_index_handle = new_BlockHandle\<rparr>"

text \<open>\<open>std::string::resize\<close>. The footer is padded to its own size, whatever was in the string before.\<close>

definition resize :: "nat \<Rightarrow> byte list \<Rightarrow> byte list" where
  "resize n xs = take n xs @ replicate (n - length xs) 0"

definition Footer_EncodeTo :: "Footer \<Rightarrow> byte list \<Rightarrow> byte list option" where
  "Footer_EncodeTo f dst = do {
     let original_size = length dst;
     dst \<leftarrow> BlockHandle_EncodeTo (ft_metaindex_handle f) dst;
     dst \<leftarrow> BlockHandle_EncodeTo (ft_index_handle f) dst;
     let dst = resize (2 * kMaxEncodedLength) dst;
     let dst = PutFixed32 dst (ucast (kTableMagicNumber AND 0xffffffff));
     let dst = PutFixed32 dst (ucast (drop_bit 32 kTableMagicNumber));
     if length dst = original_size + kEncodedLength then Some dst else None }"

definition Footer_DecodeFrom :: "byte list \<Rightarrow> Footer \<Rightarrow> (Status \<times> Footer \<times> byte list) option" where
  "Footer_DecodeFrom input f = do {
     let magic_ptr = drop (kEncodedLength - 8) input;
     magic_lo \<leftarrow> DecodeFixed32 magic_ptr;
     magic_hi \<leftarrow> DecodeFixed32 (drop 4 magic_ptr);
     let magic = push_bit 32 (ucast magic_hi) OR ucast magic_lo;
     if magic \<noteq> kTableMagicNumber then Some (Corruption (ascii ''not an sstable (bad magic number)''), f, input)
     else case BlockHandle_DecodeFrom input (ft_metaindex_handle f) of (s, h, input') \<Rightarrow>
       let f = f\<lparr>ft_metaindex_handle := h\<rparr> in
       if \<not> ok s then Some (s, f, input')
       else case BlockHandle_DecodeFrom input' (ft_index_handle f) of (s, h, input'') \<Rightarrow>
         let f = f\<lparr>ft_index_handle := h\<rparr> in
         if \<not> ok s then Some (s, f, input'') else Some (s, f, drop 8 magic_ptr) }"

section \<open>Reading a block\<close>

record BlockContents =
  bc_data :: "byte list"
  bc_cachable :: bool
  bc_heap_allocated :: bool

definition no_contents :: BlockContents where
  "no_contents = \<lparr>bc_data = [], bc_cachable = False, bc_heap_allocated = False\<rparr>"

text \<open>The checksum of the contents and the type byte against the stored one; \<open>buf\<close> is the address
  of the data.\<close>

definition block_crc_ok :: "u64 \<Rightarrow> byte list \<Rightarrow> nat \<Rightarrow> bool option" where
  "block_crc_ok buf data n = do {
     stored \<leftarrow> DecodeFixed32 (drop (n + 1) data);
     actual \<leftarrow> Value buf (take (n + 1) data);
     Some (actual = Unmask stored) }"

text \<open>The switch over the type byte.\<close>

definition block_payload :: "bool \<Rightarrow> byte list \<Rightarrow> nat \<Rightarrow> (Status \<times> BlockContents) option" where
  "block_payload scratch data n = (if n < length data then
     (if data ! n = CompressionType_num kNoCompression then
        Some (OK, \<lparr>bc_data = take n data, bc_cachable = scratch, bc_heap_allocated = scratch\<rparr>)
      else if data ! n = CompressionType_num kSnappyCompression then
        (case Snappy_GetUncompressedLength (take n data) of
           None \<Rightarrow> Some (Corruption (ascii ''corrupted compressed block contents''), no_contents)
         | Some ulength \<Rightarrow> (case Snappy_Uncompress (take n data) of
             None \<Rightarrow> Some (Corruption (ascii ''corrupted compressed block contents''), no_contents)
           | Some ubuf \<Rightarrow> Some (OK, \<lparr>bc_data = take ulength ubuf, bc_cachable = True, bc_heap_allocated = True\<rparr>)))
      else Some (Corruption (ascii ''bad block type''), no_contents))
     else None)"

definition ReadBlock :: "u64 \<Rightarrow> RandomAccessFile \<Rightarrow> ReadOptions \<Rightarrow> BlockHandle \<Rightarrow> (Status \<times> BlockContents) option" where
  "ReadBlock buf file options h = do {
     let n = bh_size h;
     (s, contents) \<leftarrow> rf_Read file (bh_offset h) (n + of_nat kBlockTrailerSize);
     if \<not> ok s then Some (s, no_contents)
     else if of_nat (length contents) \<noteq> n + of_nat kBlockTrailerSize
       then Some (Corruption (ascii ''truncated block read''), no_contents)
     else do {
       crc_ok \<leftarrow> (if ro_verify_checksums options then block_crc_ok buf contents (unat n) else Some True);
       if \<not> crc_ok then Some (Corruption (ascii ''block checksum mismatch''), no_contents)
       else block_payload (rf_scratch file) contents (unat n) } }"

section \<open>Handles and footers come back\<close>

definition handle_ok :: "BlockHandle \<Rightarrow> bool" where
  "handle_ok h \<longleftrightarrow> bh_offset h \<noteq> NOT 0 \<and> bh_size h \<noteq> NOT 0"

definition handle_bytes :: "BlockHandle \<Rightarrow> byte list" where
  "handle_bytes h = leb128 (bh_offset h) @ leb128 (bh_size h)"

lemma BlockHandle_EncodeTo_bytes: "handle_ok h \<Longrightarrow> BlockHandle_EncodeTo h dst = Some (dst @ handle_bytes h)"
  by (simp add: handle_ok_def BlockHandle_EncodeTo_def handle_bytes_def PutVarint64_def EncodeVarint64_leb128)

lemma BlockHandle_DecodeFrom_bytes: "BlockHandle_DecodeFrom (handle_bytes h @ p) h' = (OK, h, p)"
  by (simp add: BlockHandle_DecodeFrom_def handle_bytes_def)

lemma handle_bytes_length: "length (handle_bytes h) \<le> kMaxEncodedLength" "handle_bytes h \<noteq> []"
  using length_leb128_bound(1) [of "bh_offset h"] length_leb128_bound(1) [of "bh_size h"] length_leb128_bound(2) [of "bh_size h"]
  by (simp_all add: handle_bytes_def kMaxEncodedLength_def)

definition magic_bytes :: "byte list" where
  "magic_bytes = EncodeFixed32 0x8b80fb57 @ EncodeFixed32 0xdb477524"

definition footer_bytes :: "Footer \<Rightarrow> byte list" where
  "footer_bytes f = (let hs = handle_bytes (ft_metaindex_handle f) @ handle_bytes (ft_index_handle f) in
     hs @ replicate (40 - length hs) 0 @ magic_bytes)"

lemma magic_parts: "(ucast (kTableMagicNumber AND 0xffffffff) :: u32) = 0x8b80fb57" "(ucast (drop_bit 32 kTableMagicNumber) :: u32) = 0xdb477524"
  "(push_bit 32 (ucast (0xdb477524 :: u32)) OR ucast (0x8b80fb57 :: u32)) = kTableMagicNumber"
  by (simp_all add: kTableMagicNumber_def)

lemma footer_bytes_length: "length (footer_bytes f) = 48"
  using handle_bytes_length(1) [of "ft_metaindex_handle f"] handle_bytes_length(1) [of "ft_index_handle f"]
  by (simp add: footer_bytes_def magic_bytes_def Let_def format_sizes)

lemma Footer_EncodeTo_bytes:
  assumes "handle_ok (ft_metaindex_handle f)" "handle_ok (ft_index_handle f)"
  shows "Footer_EncodeTo f [] = Some (footer_bytes f)"
  using assms handle_bytes_length(1) [of "ft_metaindex_handle f"] handle_bytes_length(1) [of "ft_index_handle f"]
  by (simp add: Footer_EncodeTo_def BlockHandle_EncodeTo_bytes resize_def PutFixed32_def footer_bytes_def magic_bytes_def
      magic_parts Let_def format_sizes)

lemma Footer_DecodeFrom_bytes: "Footer_DecodeFrom (footer_bytes f @ p) g = Some (OK, f, p)"
proof -
  define hs where "hs = handle_bytes (ft_metaindex_handle f) @ handle_bytes (ft_index_handle f)"
  have "length hs \<le> 40"
    using handle_bytes_length(1) [of "ft_metaindex_handle f"] handle_bytes_length(1) [of "ft_index_handle f"]
    by (simp add: hs_def format_sizes)
  then have "drop (kEncodedLength - 8) (footer_bytes f @ p) = magic_bytes @ p"
    by (simp add: footer_bytes_def Let_def hs_def [symmetric] format_sizes)
  moreover have "footer_bytes f = handle_bytes (ft_metaindex_handle f) @ handle_bytes (ft_index_handle f) @
      replicate (40 - length hs) 0 @ magic_bytes"
    by (simp add: footer_bytes_def hs_def Let_def)
  ultimately show ?thesis
    by (cases f; cases g) (simp add: Footer_DecodeFrom_def magic_bytes_def kTableMagicNumber_def BlockHandle_DecodeFrom_bytes ok_def Let_def)
qed


section \<open>Blocks come back\<close>

text \<open>What \<open>TableBuilder\<close> writes for a block.\<close>

definition block_image :: "byte list \<Rightarrow> CompressionType \<Rightarrow> byte list" where
  "block_image contents t = contents @ CompressionType_num t # EncodeFixed32 (Mask (crc32c 0 (contents @ [CompressionType_num t])))"

lemma block_image_length: "length (block_image contents t) = length contents + kBlockTrailerSize"
  by (simp add: block_image_def kBlockTrailerSize_def)

lemma block_image_crc: "block_crc_ok buf (block_image contents t) (length contents) = Some True"
  by (simp add: block_crc_ok_def block_image_def Value_def crc32c_extend_eq Unmask_Mask
      DecodeFixed32_Encode [where p = "[]", simplified])

lemma block_image_payload: "block_payload scratch (block_image data kNoCompression) (length data) =
    Some (OK, \<lparr>bc_data = data, bc_cachable = scratch, bc_heap_allocated = scratch\<rparr>)"
  by (simp add: block_payload_def block_image_def)

context random_access_file
begin

lemma ReadBlock_image:
  assumes "length contents < 2 ^ 63" "contents = a @ block_image data kNoCompression @ c"
  shows "ReadBlock buf F options \<lparr>bh_offset = of_nat (length a), bh_size = of_nat (length data)\<rparr> =
    Some (OK, \<lparr>bc_data = data, bc_cachable = rf_scratch F, bc_heap_allocated = rf_scratch F\<rparr>)"
proof -
  have small: "length data + kBlockTrailerSize < 2 ^ 63" using assms block_image_length [of data] by simp
  have "rf_Read F (of_nat (length a)) (of_nat (length data + kBlockTrailerSize)) = Some (OK, block_image data kNoCompression)"
    using read_part [of a "block_image data kNoCompression" c] assms by (simp add: block_image_length)
  moreover have "unat (of_nat (length data) :: u64) = length data" using small by (simp add: unat_of_nat_small)
  ultimately show ?thesis
    by (simp add: ReadBlock_def block_image_crc block_image_length block_image_payload kBlockTrailerSize_def ok_def Let_def)
qed

end

text \<open>A table footer survives its 48 bytes: with both handles set, \<open>EncodeTo\<close> an empty string
  makes exactly 48 bytes, from which \<open>DecodeFrom\<close> recovers both handles and steps over the
  padding and the magic number.\<close>

theorem footer_roundtrip:
  assumes "handle_ok (ft_metaindex_handle f)" and "handle_ok (ft_index_handle f)"
  shows "\<exists>bs. Footer_EncodeTo f [] = Some bs \<and> length bs = kEncodedLength \<and>
    Footer_DecodeFrom (bs @ p) new_Footer = Some (OK, f, p)"
  using Footer_EncodeTo_bytes [OF assms] Footer_DecodeFrom_bytes [of f p] footer_bytes_length [of f] by (simp add: format_sizes)

theorem footer_roundtrip_witness:
  "\<exists>bs. Footer_EncodeTo \<lparr>ft_metaindex_handle = \<lparr>bh_offset = 300, bh_size = 7\<rparr>, ft_index_handle = \<lparr>bh_offset = 0, bh_size = 2 ^ 40\<rparr>\<rparr> [] = Some bs \<and>
    length bs = kEncodedLength \<and> Footer_DecodeFrom (bs @ [1, 2]) new_Footer =
    Some (OK, \<lparr>ft_metaindex_handle = \<lparr>bh_offset = 300, bh_size = 7\<rparr>, ft_index_handle = \<lparr>bh_offset = 0, bh_size = 2 ^ 40\<rparr>\<rparr>, [1, 2])"
  by (rule footer_roundtrip) (simp_all add: handle_ok_def)

lemma EncodeFixed32_Decode: "DecodeFixed32 p = Some w \<Longrightarrow> length p = 4 \<Longrightarrow> EncodeFixed32 w = p"
  using le_bytes_le_word [of p, where 'a = 32] by (auto simp: DecodeFixed32_def EncodeFixed32_def kLittleEndian_def)

lemma block_payload_OK: "block_payload scratch d n = Some (OK, r) \<Longrightarrow> n < length d \<and> d ! n = CompressionType_num kNoCompression \<and> bc_data r = take n d"
  by (auto simp: block_payload_def Snappy_GetUncompressedLength_def split: if_splits)

text \<open>C20. With \<open>verify_checksums\<close>, no damaged block is accepted: if \<open>ReadBlock\<close> reports \<open>OK\<close>, what
  the file returned is the contents, of the size in the handle, followed by the type byte of an
  uncompressed block and the masked CRC-32C of both.\<close>

theorem read_block_verified:
  assumes "ro_verify_checksums options" and "ReadBlock buf file options h = Some (OK, r)"
    and "rf_Read file (bh_offset h) (bh_size h + 5) = Some (s, d)" and "length d < 2 ^ 64"
  shows "s = OK \<and> d = block_image (bc_data r) kNoCompression \<and> length (bc_data r) = unat (bh_size h)"
proof -
  define n where "n = unat (bh_size h)"
  have r: "s = OK" "of_nat (length d) = bh_size h + 5" "block_crc_ok buf d n = Some True"
      "block_payload (rf_scratch file) d n = Some (OK, r)"
    using assms by (auto simp: ReadBlock_def kBlockTrailerSize_def ok_def n_def Let_def bind_Some_iff split: if_splits)
  obtain w where w: "DecodeFixed32 (drop (n + 1) d) = Some w" "crc32c 0 (take (n + 1) d) = Unmask w"
    using r(3) by (auto simp: block_crc_ok_def bind_Some_iff Value_def crc32c_extend_eq)
  then have ge: "n + 5 \<le> length d" by (auto simp: DecodeFixed32_def split: if_splits)
  then have "unat (bh_size h + 5) = n + 5" using assms(4) by (subst unat_add_small) (simp_all add: n_def)
  moreover have "unat (of_nat (length d) :: u64) = length d" using assms(4) by (simp add: unat_of_nat_small)
  ultimately have len: "length d = n + 5" using r(2) by simp
  note p = block_payload_OK [OF r(4)]
  have "EncodeFixed32 (Mask (crc32c 0 (take (n + 1) d))) = drop (n + 1) d"
    using EncodeFixed32_Decode [OF w(1)] len w(2) by (simp add: Mask_Unmask)
  moreover have "take (n + 1) d = take n d @ [d ! n]" using p by (simp add: take_Suc_conv_app_nth)
  moreover have "d = take n d @ d ! n # drop (n + 1) d" using id_take_nth_drop [of n d] p by simp
  ultimately show ?thesis using r(1) p len by (simp add: block_image_def n_def)
qed

definition sample_file :: RandomAccessFile where
  "sample_file = PosixMmapReadable os_calls \<lparr>pm_base = 9 # block_image [1, 2, 3] kNoCompression, pm_filename = []\<rparr>"

theorem read_block_verified_witness:
  "\<exists>r. ReadBlock 0 sample_file (new_ReadOptions\<lparr>ro_verify_checksums := True\<rparr>) \<lparr>bh_offset = 1, bh_size = 3\<rparr> = Some (OK, r) \<and>
    block_image [1, 2, 3] kNoCompression = block_image (bc_data r) kNoCompression \<and> length (bc_data r) = 3"
proof -
  define r where "r = \<lparr>bc_data = [1, 2, 3 :: byte], bc_cachable = False, bc_heap_allocated = False\<rparr>"
  have "ReadBlock 0 sample_file (new_ReadOptions\<lparr>ro_verify_checksums := True\<rparr>) \<lparr>bh_offset = 1, bh_size = 3\<rparr> = Some (OK, r)"
    using mmap_file.ReadBlock_image [of "\<lparr>pm_base = 9 # block_image [1, 2, 3] kNoCompression, pm_filename = []\<rparr>" "[9]" "[1, 2, 3]" "[]"
        0 os_calls "new_ReadOptions\<lparr>ro_verify_checksums := True\<rparr>"]
    by (simp add: sample_file_def r_def block_image_length kBlockTrailerSize_def PosixMmapReadable_def)
  moreover have "rf_Read sample_file 1 8 = Some (OK, block_image [1, 2, 3] kNoCompression)"
    using mmap_file.read_part [of "[9]" "block_image [1, 2, 3] kNoCompression" "[]"
        "\<lparr>pm_base = 9 # block_image [1, 2, 3] kNoCompression, pm_filename = []\<rparr>" os_calls]
    by (simp add: sample_file_def block_image_length kBlockTrailerSize_def)
  ultimately show ?thesis
    using read_block_verified [of "new_ReadOptions\<lparr>ro_verify_checksums := True\<rparr>" 0 sample_file "\<lparr>bh_offset = 1, bh_size = 3\<rparr>" r OK
        "block_image [1, 2, 3] kNoCompression"]
    by (auto simp: block_image_length kBlockTrailerSize_def)
qed

text \<open>The size in a handle is not checked before the size of the trailer is added to it: with a
  size of \<open>2 ^ 64 - 1\<close>, four bytes are read and accepted, and the type byte is looked up behind them.\<close>

lemma read_block_size_wraps:
  "ReadBlock buf (PosixMmapReadable os_calls \<lparr>pm_base = [1, 2, 3, 4], pm_filename = []\<rparr>) new_ReadOptions
    \<lparr>bh_offset = 0, bh_size = NOT 0\<rparr> = None"
proof -
  have "unat (- 1 :: u64) = 18446744073709551615" by (simp add: unsigned_minus_1_eq_mask mask_eq_exp_minus_1)
  then show ?thesis
    by (simp add: ReadBlock_def PosixMmapReadable_def PosixMmapReadableFile_Read_def kBlockTrailerSize_def new_ReadOptions_def ok_def
        block_payload_def word_less_nat_alt Let_def)
qed

end
