(* ===== verification/Ldb_Block.thy ===== *)
theory Ldb_Block
  imports Ldb_Options Ldb_Iterator Ldb_Coding
begin

text \<open>
  Blocks, \<open>table/block_builder.cc\<close>, \<open>table/block.h\<close> and \<open>table/block.cc\<close>: the builder of
  prefix-compressed blocks and the iterator over their contents.

  Pointers into a block are offsets. \<open>value_\<close> is an offset and a length, or \<open>None\<close> when the
  slice does not point into the block. Operations return \<open>None\<close> where the source fails an
  assertion, reads outside the block or subtracts pointers of different objects.
\<close>

section \<open>The builder\<close>

record BlockBuilder =
  bb_buffer :: "byte list"
  bb_restarts :: "u32 list"
  bb_counter :: int
  bb_finished :: bool
  bb_last_key :: "byte list"

definition new_BlockBuilder :: "Options \<Rightarrow> BlockBuilder option" where
  "new_BlockBuilder opts = (if op_block_restart_interval opts \<ge> 1
     then Some \<lparr>bb_buffer = [], bb_restarts = [0], bb_counter = 0, bb_finished = False, bb_last_key = []\<rparr> else None)"

definition BlockBuilder_Reset :: "BlockBuilder \<Rightarrow> BlockBuilder" where
  "BlockBuilder_Reset b = b\<lparr>bb_buffer := [], bb_restarts := [0], bb_counter := 0, bb_finished := False, bb_last_key := []\<rparr>"

definition BlockBuilder_empty :: "BlockBuilder \<Rightarrow> bool" where
  "BlockBuilder_empty b \<longleftrightarrow> bb_buffer b = []"

definition CurrentSizeEstimate :: "BlockBuilder \<Rightarrow> nat" where
  "CurrentSizeEstimate b = length (bb_buffer b) + length (bb_restarts b) * 4 + 4"

definition BlockBuilder_Finish :: "BlockBuilder \<Rightarrow> byte list \<times> BlockBuilder" where
  "BlockBuilder_Finish b = (
     let buffer = PutFixed32 (fold (\<lambda>r buffer. PutFixed32 buffer r) (bb_restarts b) (bb_buffer b)) (of_nat (length (bb_restarts b)))
     in (buffer, b\<lparr>bb_buffer := buffer, bb_finished := True\<rparr>))"

text \<open>The number of bytes shared with the last key, or a new restart point.\<close>

definition builder_share :: "Options \<Rightarrow> byte list \<Rightarrow> BlockBuilder \<Rightarrow> nat \<times> BlockBuilder" where
  "builder_share opts key b = (if bb_counter b < op_block_restart_interval opts then (diff_index (bb_last_key b) key, b)
     else (0, b\<lparr>bb_restarts := bb_restarts b @ [of_nat (length (bb_buffer b))], bb_counter := 0\<rparr>))"

definition put_entry :: "nat \<Rightarrow> byte list \<Rightarrow> byte list \<Rightarrow> byte list \<Rightarrow> byte list" where
  "put_entry shared key val buffer = (
     let buffer = PutVarint32 buffer (of_nat shared);
         buffer = PutVarint32 buffer (of_nat (length key - shared));
         buffer = PutVarint32 buffer (of_nat (length val)) in
     buffer @ drop shared key @ val)"

definition BlockBuilder_Add :: "Options \<Rightarrow> byte list \<Rightarrow> byte list \<Rightarrow> BlockBuilder \<Rightarrow> BlockBuilder option" where
  "BlockBuilder_Add opts key val b = (
     if bb_finished b \<or> bb_counter b > op_block_restart_interval opts then None
     else do {
       ordered \<leftarrow> (if bb_buffer b = [] then Some True
         else do { c \<leftarrow> cmp_Compare (op_comparator opts) key (bb_last_key b); Some (c > 0) });
       if \<not> ordered then None
       else let (shared, b) = builder_share opts key b;
           last_key = take shared (bb_last_key b) @ drop shared key in
         if last_key \<noteq> key then None
         else Some (b\<lparr>bb_buffer := put_entry shared key val (bb_buffer b), bb_last_key := last_key,
           bb_counter := bb_counter b + 1\<rparr>) })"

section \<open>Block contents\<close>

record Block =
  bk_data :: "byte list"
  bk_size :: nat
  bk_restart_offset :: "u32 option"

definition NumRestarts :: "Block \<Rightarrow> u32 option" where
  "NumRestarts b = (if 4 \<le> bk_size b then DecodeFixed32 (drop (bk_size b - 4) (bk_data b)) else None)"

text \<open>\<open>restart_offset_\<close> stays uninitialised when the contents are damaged.\<close>

definition new_Block :: "byte list \<Rightarrow> Block option" where
  "new_Block contents = (
     let b = \<lparr>bk_data = contents, bk_size = length contents, bk_restart_offset = None\<rparr> in
     if bk_size b < 4 then Some (b\<lparr>bk_size := 0\<rparr>)
     else do {
       n \<leftarrow> NumRestarts b;
       let max_restarts_allowed = (bk_size b - 4) div 4;
       if unat n > max_restarts_allowed then Some (b\<lparr>bk_size := 0\<rparr>)
       else Some (b\<lparr>bk_restart_offset := Some (of_nat (bk_size b - unat (1 + n) * 4))\<rparr>) })"

text \<open>\<open>DecodeEntry\<close> gets the bytes from \<open>p\<close> to \<open>limit\<close> and returns the ones from the key delta on.\<close>

definition DecodeEntry :: "byte list \<Rightarrow> (u32 \<times> u32 \<times> u32 \<times> byte list) option" where
  "DecodeEntry p = (case p of
     a # b # c # q \<Rightarrow> do {
       (shared, non_shared, value_length, q) \<leftarrow>
         (let shared = ucast a; non_shared = ucast b; value_length = ucast c in
          if shared OR non_shared OR value_length < (128 :: u32) then Some (shared, non_shared, value_length, q)
          else do {
            (shared, q) \<leftarrow> GetVarint32Ptr p;
            (non_shared, q) \<leftarrow> GetVarint32Ptr q;
            (value_length, q) \<leftarrow> GetVarint32Ptr q;
            Some (shared, non_shared, value_length, q) });
       if (of_nat (length q) :: u32) < non_shared + value_length then None
       else Some (shared, non_shared, value_length, q) }
   | _ \<Rightarrow> None)"

section \<open>The iterator\<close>

record Iter =
  bi_data :: "byte list"
  bi_restarts :: u32
  bi_num_restarts :: u32
  bi_current :: u32
  bi_restart_index :: u32
  bi_key :: "byte list"
  bi_value :: "(nat \<times> nat) option"
  bi_status :: Status

definition read_bytes :: "byte list \<Rightarrow> nat \<Rightarrow> nat \<Rightarrow> byte list option" where
  "read_bytes data off n = (if off + n \<le> length data then Some (take n (drop off data)) else None)"

definition NextEntryOffset :: "Iter \<Rightarrow> u32 option" where
  "NextEntryOffset it = (case bi_value it of None \<Rightarrow> None | Some (off, n) \<Rightarrow> Some (of_nat (off + n)))"

definition GetRestartPoint :: "u32 \<Rightarrow> Iter \<Rightarrow> u32 option" where
  "GetRestartPoint index it = (if index < bi_num_restarts it
     then DecodeFixed32 (drop (unat (bi_restarts it) + unat index * 4) (bi_data it)) else None)"

definition SeekToRestartPoint :: "u32 \<Rightarrow> Iter \<Rightarrow> Iter option" where
  "SeekToRestartPoint index it = do {
     offset \<leftarrow> GetRestartPoint index it;
     Some (it\<lparr>bi_key := [], bi_restart_index := index, bi_value := Some (unat offset, 0)\<rparr>) }"

definition new_Iter :: "byte list \<Rightarrow> u32 \<Rightarrow> u32 \<Rightarrow> Iter option" where
  "new_Iter data restarts num_restarts = (if num_restarts > 0
     then Some \<lparr>bi_data = data, bi_restarts = restarts, bi_num_restarts = num_restarts, bi_current = restarts,
       bi_restart_index = num_restarts, bi_key = [], bi_value = None, bi_status = OK\<rparr> else None)"

definition Iter_Valid :: "Iter \<Rightarrow> bool" where
  "Iter_Valid it \<longleftrightarrow> bi_current it < bi_restarts it"

definition Iter_key :: "Iter \<Rightarrow> byte list option" where
  "Iter_key it = (if Iter_Valid it then Some (bi_key it) else None)"

definition Iter_value :: "Iter \<Rightarrow> byte list option" where
  "Iter_value it = (if Iter_Valid it
     then (case bi_value it of None \<Rightarrow> None | Some (off, n) \<Rightarrow> read_bytes (bi_data it) off n) else None)"

definition CorruptionError :: "Iter \<Rightarrow> Iter" where
  "CorruptionError it = it\<lparr>bi_current := bi_restarts it, bi_restart_index := bi_num_restarts it,
     bi_status := Corruption (ascii ''bad entry in block''), bi_key := [], bi_value := None\<rparr>"

definition mark_invalid :: "Iter \<Rightarrow> Iter" where
  "mark_invalid it = it\<lparr>bi_current := bi_restarts it, bi_restart_index := bi_num_restarts it\<rparr>"

lemma unat_succ: "w < v \<Longrightarrow> unat (w + 1) = Suc (unat w)" for w v :: u32
  using unat_lt [of v] by (subst unat_add_small) (auto simp: word_less_nat_alt)

text \<open>The restart index follows the current entry.\<close>

function advance_restart :: "Iter \<Rightarrow> Iter option" where
  "advance_restart it = (if bi_restart_index it + 1 < bi_num_restarts it then do {
     r \<leftarrow> GetRestartPoint (bi_restart_index it + 1) it;
     if r < bi_current it then advance_restart (it\<lparr>bi_restart_index := bi_restart_index it + 1\<rparr>) else Some it }
   else Some it)"
  by pat_completeness auto
termination
proof (relation "measure (\<lambda>it. unat (bi_num_restarts it) - unat (bi_restart_index it + 1))", goal_cases)
  case (2 it r)
  then have "unat (bi_restart_index it + 1) < unat (bi_num_restarts it)" by (simp add: word_less_nat_alt)
  with 2(1) show ?case using unat_succ [OF 2(1)] by (simp add: add.assoc)
qed simp

declare advance_restart.simps [simp del]

definition ParseNextKey :: "Iter \<Rightarrow> (bool \<times> Iter) option" where
  "ParseNextKey it = do {
     current \<leftarrow> NextEntryOffset it;
     let it = it\<lparr>bi_current := current\<rparr>;
     if current \<ge> bi_restarts it then Some (False, mark_invalid it)
     else let entry = drop (unat current) (take (unat (bi_restarts it)) (bi_data it)) in
       case DecodeEntry entry of
       None \<Rightarrow> Some (False, CorruptionError it)
     | Some (shared, non_shared, value_length, q) \<Rightarrow>
         if length (bi_key it) < unat shared then Some (False, CorruptionError it)
         else do {
           let p = unat current + (length entry - length q);
           delta \<leftarrow> read_bytes (bi_data it) p (unat non_shared);
           it \<leftarrow> advance_restart (it\<lparr>bi_key := take (unat shared) (bi_key it) @ delta,
             bi_value := Some (p + unat non_shared, unat value_length)\<rparr>);
           Some (True, it) } }"

definition Iter_Next :: "Iter \<Rightarrow> Iter option" where
  "Iter_Next it = (if Iter_Valid it then do { (_, it) \<leftarrow> ParseNextKey it; Some it } else None)"

text \<open>\<open>do { } while (ParseNextKey() && NextEntryOffset() < original)\<close>, also the loop of \<open>SeekToLast\<close>;
  each turn moves \<open>value_\<close> forward.\<close>

lemma GetVarint32Ptr_suffix: "GetVarint32Ptr p = Some (v, q) \<Longrightarrow> \<exists>w. w \<noteq> [] \<and> p = w @ q"
  using GetVarint32_suffix [of p v q] by (auto simp: GetVarint32_def)

text \<open>The fast path reads what the general one would.\<close>

lemma less_128: "w < 128 \<longleftrightarrow> drop_bit 7 w = 0" for w :: u32
proof -
  have "drop_bit 7 w = 0 \<longleftrightarrow> unat w div 128 = 0" by (simp add: drop_bit_eq_div unat_div flip: unat_eq_zero)
  then show ?thesis by (simp add: word_less_nat_alt div_eq_0_iff)
qed

lemma or_less_128: "a OR b < 128 \<longleftrightarrow> a < 128 \<and> b < 128" for a b :: u32
  by (simp add: less_128 or_eq_0_iff)

lemma and_128: "drop_bit 7 w = 0 \<Longrightarrow> w AND 128 = 0" for w :: u32
proof -
  assume "drop_bit 7 w = 0"
  then have "w AND 128 = (w AND 0x7F) AND 128" by (simp add: small_and)
  then show ?thesis by (simp add: and.assoc)
qed

lemma GetVarint32Ptr_small: "(ucast a :: u32) < 128 \<Longrightarrow> GetVarint32Ptr (a # q) = Some (ucast a, q)"
  by (simp add: GetVarint32Ptr_def Let_def less_128 and_128)

lemma DecodeEntry_varints:
  "DecodeEntry p = (if length p < 3 then None else do {
     (shared, q) \<leftarrow> GetVarint32Ptr p;
     (non_shared, q) \<leftarrow> GetVarint32Ptr q;
     (value_length, q) \<leftarrow> GetVarint32Ptr q;
     if (of_nat (length q) :: u32) < non_shared + value_length then None else Some (shared, non_shared, value_length, q) })"
  by (auto simp: DecodeEntry_def or_less_128 GetVarint32Ptr_small Let_def split: list.split Option.bind_split)

lemma DecodeEntry_suffix:
  assumes "DecodeEntry p = Some (shared, non_shared, value_length, q)"
  shows "\<exists>w. w \<noteq> [] \<and> p = w @ q" "non_shared + value_length \<le> of_nat (length q)"
  using assms
  by (auto simp: DecodeEntry_varints bind_Some_iff not_less dest!: GetVarint32Ptr_suffix split: if_splits prod.splits)

lemma advance_restart_same:
  "advance_restart it = Some it' \<Longrightarrow> \<exists>i. it' = it\<lparr>bi_restart_index := i\<rparr>"
proof (induction it rule: advance_restart.induct)
  case (1 it)
  have same: "\<exists>i. x = x\<lparr>bi_restart_index := i\<rparr>" for x :: Iter by (rule exI [of _ "bi_restart_index x"]) simp
  show ?case
  proof (cases "bi_restart_index it + 1 < bi_num_restarts it \<and> (\<exists>r. GetRestartPoint (bi_restart_index it + 1) it = Some r \<and> r < bi_current it)")
    case True
    then show ?thesis using 1 by (auto simp: advance_restart.simps [of it])
  next
    case False
    then show ?thesis using 1(2) same by (auto simp: advance_restart.simps [of it] bind_Some_iff split: if_splits)
  qed
qed

lemma ParseNextKey_TrueD:
  assumes "ParseNextKey it = Some (True, it')"
  obtains cur w q delta i and shared non_shared value_length :: u32 where "NextEntryOffset it = Some cur" "cur < bi_restarts it"
    "drop (unat cur) (take (unat (bi_restarts it)) (bi_data it)) = w @ q" "w \<noteq> []"
    "non_shared + value_length \<le> of_nat (length q)"
    "read_bytes (bi_data it) (unat cur + length w) (unat non_shared) = Some delta"
    "it' = it\<lparr>bi_current := cur, bi_key := take (unat shared) (bi_key it) @ delta,
      bi_value := Some (unat cur + length w + unat non_shared, unat value_length), bi_restart_index := i\<rparr>"
proof -
  define entry where "entry cur = drop (unat cur) (take (unat (bi_restarts it)) (bi_data it))" for cur :: u32
  from assms obtain cur shared non_shared value_length q delta where
    r: "NextEntryOffset it = Some cur" "cur < bi_restarts it" "DecodeEntry (entry cur) = Some (shared, non_shared, value_length, q)"
      "read_bytes (bi_data it) (unat cur + (length (entry cur) - length q)) (unat non_shared) = Some delta"
      "advance_restart (it\<lparr>bi_current := cur, bi_key := take (unat shared) (bi_key it) @ delta,
        bi_value := Some (unat cur + (length (entry cur) - length q) + unat non_shared, unat value_length)\<rparr>) = Some it'"
    by (fastforce simp: ParseNextKey_def Let_def bind_Some_iff not_le entry_def split: if_splits option.splits prod.splits)
  obtain w where w: "w \<noteq> []" "entry cur = w @ q" using DecodeEntry_suffix(1) [OF r(3)] by blast
  then have n: "length (entry cur) - length q = length w" by simp
  obtain i where "it' = it\<lparr>bi_current := cur, bi_key := take (unat shared) (bi_key it) @ delta,
      bi_value := Some (unat cur + length w + unat non_shared, unat value_length), bi_restart_index := i\<rparr>"
    using advance_restart_same [OF r(5)] unfolding n by blast
  then show thesis
    using that [OF r(1,2) w(2) [unfolded entry_def] w(1) DecodeEntry_suffix(2) [OF r(3)]] r(4) [unfolded n] by blast
qed

lemma ParseNextKey_forward:
  assumes "ParseNextKey it = Some (True, it')"
  shows "\<exists>cur cur'. NextEntryOffset it = Some cur \<and> NextEntryOffset it' = Some cur' \<and> cur < cur' \<and> cur' \<le> bi_restarts it'
    \<and> bi_restarts it' = bi_restarts it"
proof -
  obtain cur w q and non_shared value_length :: u32 where
    r: "NextEntryOffset it = Some cur" "cur < bi_restarts it" "drop (unat cur) (take (unat (bi_restarts it)) (bi_data it)) = w @ q"
      "w \<noteq> []" "non_shared + value_length \<le> of_nat (length q)"
      "NextEntryOffset it' = Some (of_nat (unat cur + length w + unat non_shared + unat value_length))" "bi_restarts it' = bi_restarts it"
    by (rule ParseNextKey_TrueD [OF assms]) (simp add: NextEntryOffset_def)
  have "length (w @ q) \<le> unat (bi_restarts it) - unat cur" unfolding r(3) [symmetric] by simp
  then have len: "unat cur + length w + length q \<le> unat (bi_restarts it)" using r(2) by (simp add: word_less_nat_alt)
  then have small: "length q < 2 ^ 32" "unat cur + length w + length q < 2 ^ 32" using unat_lt [of "bi_restarts it"] by simp_all
  then have "unat (non_shared + value_length) \<le> length q" using r(5) by (simp only: word_le_nat_alt leb128_length_u32)
  moreover from this have "unat (of_nat (unat cur + length w) + (non_shared + value_length)) = unat cur + length w + unat (non_shared + value_length)"
    using small by (subst unat_add_small) (simp_all add: leb128_length_u32 del: of_nat_add)
  ultimately show ?thesis
    using r len by (auto simp: word_less_nat_alt word_le_nat_alt add.assoc)
qed


definition next_offset :: "Iter \<Rightarrow> nat" where
  "next_offset it = (case NextEntryOffset it of None \<Rightarrow> 0 | Some n \<Rightarrow> unat n)"

lemma ParseNextKey_measure:
  "ParseNextKey it = Some (True, it') \<Longrightarrow>
    unat (bi_restarts it') - next_offset it' < unat (bi_restarts it) - next_offset it"
  using ParseNextKey_forward [of it it'] by (auto simp: next_offset_def word_less_nat_alt word_le_nat_alt)

function scan_to :: "u32 \<Rightarrow> Iter \<Rightarrow> Iter option" where
  "scan_to original it = do {
     (parsed, it) \<leftarrow> ParseNextKey it;
     if parsed then do {
       n \<leftarrow> NextEntryOffset it;
       if n < original then scan_to original it else Some it }
     else Some it }"
  by pat_completeness auto
termination
  by (relation "measure (\<lambda>(original, it). unat (bi_restarts it) - next_offset it)") (auto dest: ParseNextKey_measure)

declare scan_to.simps [simp del]

text \<open>Backwards to a restart point before the entry; \<open>None\<close> inside means that there is none.\<close>

function prev_restart :: "u32 \<Rightarrow> Iter \<Rightarrow> Iter option option" where
  "prev_restart original it = do {
     r \<leftarrow> GetRestartPoint (bi_restart_index it) it;
     if r \<ge> original then
       (if bi_restart_index it = 0 then Some None
        else prev_restart original (it\<lparr>bi_restart_index := bi_restart_index it - 1\<rparr>))
     else Some (Some it) }"
  by pat_completeness auto
termination
proof (relation "measure (\<lambda>(original, it). unat (bi_restart_index it))", goal_cases)
  case (2 original it r)
  then have "unat (bi_restart_index it - 1) < unat (bi_restart_index it)"
    using unat_gt_0 [of "bi_restart_index it"] by (simp add: unat_minus_one)
  then show ?case by simp
qed simp

declare prev_restart.simps [simp del]

definition Iter_Prev :: "Iter \<Rightarrow> Iter option" where
  "Iter_Prev it = (if Iter_Valid it then do {
     let original = bi_current it;
     found \<leftarrow> prev_restart original it;
     case found of
       None \<Rightarrow> Some (mark_invalid it)
     | Some it \<Rightarrow> do { it \<leftarrow> SeekToRestartPoint (bi_restart_index it) it; scan_to original it } }
   else None)"

text \<open>The binary search over the restart points; \<open>Inl\<close> is the iterator after a corruption.\<close>

partial_function (option) binary_search :: "Comparator \<Rightarrow> byte list \<Rightarrow> Iter \<Rightarrow> u32 \<Rightarrow> u32 \<Rightarrow> (Iter + u32) option" where
  "binary_search C target it left right = (if left < right then do {
     let mid = (left + right + 1) div 2;
     region_offset \<leftarrow> GetRestartPoint mid it;
     let entry = drop (unat region_offset) (take (unat (bi_restarts it)) (bi_data it));
     case DecodeEntry entry of
       None \<Rightarrow> Some (Inl (CorruptionError it))
     | Some (shared, non_shared, value_length, q) \<Rightarrow>
         if shared \<noteq> 0 then Some (Inl (CorruptionError it))
         else do {
           mid_key \<leftarrow> read_bytes (bi_data it) (unat region_offset + (length entry - length q)) (unat non_shared);
           c \<leftarrow> cmp_Compare C mid_key target;
           if c < 0 then binary_search C target it mid right else binary_search C target it left (mid - 1) } }
   else Some (Inr left))"

function linear_search :: "Comparator \<Rightarrow> byte list \<Rightarrow> Iter \<Rightarrow> Iter option" where
  "linear_search C target it = do {
     (parsed, it) \<leftarrow> ParseNextKey it;
     if \<not> parsed then Some it
     else do {
       c \<leftarrow> cmp_Compare C (bi_key it) target;
       if c \<ge> 0 then Some it else linear_search C target it } }"
  by pat_completeness auto
termination
  by (relation "measure (\<lambda>(C, target, it). unat (bi_restarts it) - next_offset it)") (auto dest: ParseNextKey_measure)

declare linear_search.simps [simp del]

definition Iter_Seek :: "Comparator \<Rightarrow> byte list \<Rightarrow> Iter \<Rightarrow> Iter option" where
  "Iter_Seek C target it = do {
     found \<leftarrow> binary_search C target it 0 (bi_num_restarts it - 1);
     case found of
       Inl it \<Rightarrow> Some it
     | Inr left \<Rightarrow> do { it \<leftarrow> SeekToRestartPoint left it; linear_search C target it } }"

definition Iter_SeekToFirst :: "Iter \<Rightarrow> Iter option" where
  "Iter_SeekToFirst it = do { it \<leftarrow> SeekToRestartPoint 0 it; (_, it) \<leftarrow> ParseNextKey it; Some it }"

definition Iter_SeekToLast :: "Iter \<Rightarrow> Iter option" where
  "Iter_SeekToLast it = do { it \<leftarrow> SeekToRestartPoint (bi_num_restarts it - 1) it; scan_to (bi_restarts it) it }"

definition BlockIter :: "Comparator \<Rightarrow> Iter Iterator" where
  "BlockIter C = \<lparr>it_Valid = Iter_Valid, it_SeekToFirst = Iter_SeekToFirst, it_SeekToLast = Iter_SeekToLast,
     it_Seek = Iter_Seek C, it_Next = Iter_Next, it_Prev = Iter_Prev, it_key = Iter_key, it_value = Iter_value,
     it_status = \<lambda>it. Some (bi_status it)\<rparr>"

text \<open>An empty iterator (\<open>Inl\<close>, its status) or a block iterator.\<close>

definition Block_NewIterator :: "Block \<Rightarrow> (Status + Iter) option" where
  "Block_NewIterator b = (if bk_size b < 4 then Some (Inl (NewErrorIterator (Corruption (ascii ''bad block contents''))))
     else do {
       num_restarts \<leftarrow> NumRestarts b;
       if num_restarts = 0 then Some (Inl NewEmptyIterator)
       else do { r \<leftarrow> bk_restart_offset b; it \<leftarrow> new_Iter (bk_data b) r num_restarts; Some (Inr it) } })"

end
