(* ===== verification/Ldb_Block_Correct.thy ===== *)
theory Ldb_Block_Correct
  imports Ldb_Block
begin

text \<open>
  Correctness of blocks: the contents a builder makes describe the entries added to it, and
  the iterator over such contents is a cursor into the entries, under any comparator that
  keeps its contract.
\<close>

section \<open>The format\<close>

type_synonym item = "nat \<times> entry"

text \<open>An entry with the number of bytes its key shares with the key before it.\<close>

definition u32_bytes :: "nat \<Rightarrow> byte list" where
  "u32_bytes n = leb128 (ucast (of_nat n :: u32))"

definition item_bytes :: "item \<Rightarrow> byte list" where
  "item_bytes x = (case x of (s, k, v) \<Rightarrow>
     u32_bytes s @ u32_bytes (length k - s) @ u32_bytes (length v) @ drop s k @ v)"

definition body :: "item list \<Rightarrow> byte list" where
  "body xs = concat (map item_bytes xs)"

definition off :: "item list \<Rightarrow> nat \<Rightarrow> nat" where
  "off xs i = length (body (take i xs))"

definition restart_bytes :: "item list \<Rightarrow> nat list \<Rightarrow> byte list" where
  "restart_bytes xs rs = concat (map (\<lambda>r. EncodeFixed32 (of_nat (off xs r))) rs)"

definition block_data :: "item list \<Rightarrow> nat list \<Rightarrow> byte list" where
  "block_data xs rs = body xs @ restart_bytes xs rs @ EncodeFixed32 (of_nat (length rs))"

text \<open>The key of an item is complete given the key before it.\<close>

definition extends :: "byte list \<Rightarrow> item \<Rightarrow> bool" where
  "extends prev x \<longleftrightarrow> fst x \<le> length prev \<and> fst x \<le> length (fst (snd x)) \<and> take (fst x) prev = take (fst x) (fst (snd x))"

definition item_key :: "item list \<Rightarrow> nat \<Rightarrow> byte list" where
  "item_key xs i = fst (snd (xs ! i))"

definition wf_block :: "item list \<Rightarrow> nat list \<Rightarrow> bool" where
  "wf_block xs rs \<longleftrightarrow> rs \<noteq> [] \<and> rs ! 0 = 0 \<and> (\<forall>r \<in> set rs. r = 0 \<or> r < length xs) \<and> (xs = [] \<longrightarrow> length rs = 1) \<and>
     (\<forall>r \<in> set rs. r < length xs \<longrightarrow> fst (xs ! r) = 0) \<and>
     (\<forall>i. Suc i < length xs \<longrightarrow> extends (item_key xs i) (xs ! Suc i)) \<and>
     length (block_data xs rs) < 2 ^ 32"

section \<open>Offsets\<close>

lemma body_append [simp]: "body (xs @ ys) = body xs @ body ys" "body [] = []" "body (x # xs) = item_bytes x @ body xs"
  by (simp_all add: body_def)

lemma item_bytes_length: "3 \<le> length (item_bytes x)"
proof -
  have "1 \<le> length (u32_bytes n)" for n using length_leb128_bound(2) by (simp add: u32_bytes_def Suc_leI)
  from this this this show ?thesis
    by (cases x) (simp add: item_bytes_def, metis (no_types, lifting) One_nat_def Suc_1 add.assoc add_mono numeral_3_eq_3 plus_1_eq_Suc trans_le_add1)
qed

lemma off_le: "off xs i \<le> length (body xs)"
  by (metis append_take_drop_id body_append(1) le_add1 length_append off_def)

lemma off_all: "length xs \<le> i \<Longrightarrow> off xs i = length (body xs)"
  by (simp add: off_def)

lemma off_0 [simp]: "off xs 0 = 0"
  by (simp add: off_def)

lemma off_Suc: "i < length xs \<Longrightarrow> off xs (Suc i) = off xs i + length (item_bytes (xs ! i))"
  by (simp add: off_def take_Suc_conv_app_nth)

lemma off_mono: "i \<le> j \<Longrightarrow> off xs i \<le> off xs j"
proof -
  assume "i \<le> j"
  then have "take j xs = take i xs @ drop i (take j xs)" by (metis append_take_drop_id min.absorb1 take_take)
  then have "off xs j = off xs i + length (body (drop i (take j xs)))" by (metis body_append(1) length_append off_def)
  then show ?thesis by simp
qed

lemma off_strict: "i < j \<Longrightarrow> i < length xs \<Longrightarrow> off xs i < off xs j"
  using off_mono [of "Suc i" j xs] off_Suc [of i xs] item_bytes_length [of "xs ! i"] by simp

lemma off_less_iff: "i \<le> length xs \<Longrightarrow> j \<le> length xs \<Longrightarrow> off xs i < off xs j \<longleftrightarrow> i < j"
  using off_strict [of i j xs] off_mono [of j i xs] by (metis dual_order.strict_trans2 linorder_not_le)

lemma body_drop: "drop (off xs i) (body xs) = body (drop i xs)"
  by (metis append_eq_conv_conj append_take_drop_id body_append(1) off_def)

section \<open>Decoding an item\<close>

lemma DecodeEntry_item:
  assumes "s \<le> length k" and "length (item_bytes (s, k, v)) + length p < 2 ^ 32"
  shows "DecodeEntry (item_bytes (s, k, v) @ p) = Some (of_nat s, of_nat (length k - s), of_nat (length v), drop s k @ v @ p)"
proof -
  have "length k - s + length v + length p < 2 ^ 32" using assms(2) by (simp add: item_bytes_def)
  then have "unat (of_nat (length k - s) + of_nat (length v) :: u32) = length k - s + length v"
    and "unat (of_nat (length k - s + length v + length p) :: u32) = length k - s + length v + length p"
    by (simp_all add: leb128_length_u32 flip: of_nat_add)
  then have "\<not> (of_nat (length (drop s k @ v @ p)) :: u32) < of_nat (length k - s) + of_nat (length v)"
    by (simp add: word_less_nat_alt add.assoc flip: of_nat_add)
  moreover have "\<not> length (item_bytes (s, k, v) @ p) < 3" using item_bytes_length [of "(s, k, v)"] by simp
  ultimately show ?thesis
    by (simp add: DecodeEntry_varints item_bytes_def u32_bytes_def)
qed


section \<open>Positions\<close>

definition in_block :: "item list \<Rightarrow> nat list \<Rightarrow> Iter \<Rightarrow> bool" where
  "in_block xs rs it \<longleftrightarrow> bi_data it = block_data xs rs \<and> bi_restarts it = of_nat (length (body xs)) \<and>
     bi_num_restarts it = of_nat (length rs) \<and> bi_status it = OK"

text \<open>The restart index is at or before the item \<open>i\<close>.\<close>

definition restart_before :: "nat list \<Rightarrow> nat \<Rightarrow> Iter \<Rightarrow> bool" where
  "restart_before rs i it \<longleftrightarrow> unat (bi_restart_index it) < length rs \<and> rs ! unat (bi_restart_index it) \<le> i"

text \<open>The next item to parse is \<open>j\<close>.\<close>

definition item_next :: "item list \<Rightarrow> nat list \<Rightarrow> Iter \<Rightarrow> nat \<Rightarrow> bool" where
  "item_next xs rs it j \<longleftrightarrow> in_block xs rs it \<and> j \<le> length xs \<and> restart_before rs j it \<and>
     NextEntryOffset it = Some (of_nat (off xs j)) \<and> (j < length xs \<longrightarrow> extends (bi_key it) (xs ! j))"

definition item_at :: "item list \<Rightarrow> nat list \<Rightarrow> Iter \<Rightarrow> nat \<Rightarrow> bool" where
  "item_at xs rs it i \<longleftrightarrow> in_block xs rs it \<and> i \<le> length xs \<and> bi_current it = of_nat (off xs i) \<and>
     (i < length xs \<longrightarrow> restart_before rs i it \<and> bi_key it = item_key xs i \<and>
       bi_value it = Some (off xs (Suc i) - length (snd (snd (xs ! i))), length (snd (snd (xs ! i)))))"

lemma block_data_length: "length (block_data xs rs) = length (body xs) + 4 * length rs + 4"
  by (simp add: block_data_def restart_bytes_def length_concat comp_def sum_list_triv)

lemma wf_small:
  assumes "wf_block xs rs"
  shows "unat (of_nat (off xs i) :: u32) = off xs i" "unat (of_nat (length (body xs)) :: u32) = length (body xs)"
    "unat (of_nat (length rs) :: u32) = length rs" "length (body xs) < 2 ^ 32" "length rs < 2 ^ 30"
proof -
  have small: "length (body xs) + 4 * length rs + 4 < 2 ^ 32" using assms by (simp add: wf_block_def block_data_length)
  then show "unat (of_nat (length (body xs)) :: u32) = length (body xs)" "unat (of_nat (length rs) :: u32) = length rs"
    "length (body xs) < 2 ^ 32" "length rs < 2 ^ 30"
    by (simp_all add: leb128_length_u32)
  then show "unat (of_nat (off xs i) :: u32) = off xs i" using off_le [of xs i] by (simp add: leb128_length_u32)
qed

lemma restart_bytes_drop: "j < length rs \<Longrightarrow> drop (j * 4) (restart_bytes xs rs) = restart_bytes xs (drop j rs)"
proof (induction rs arbitrary: j)
  case (Cons r rs)
  then show ?case by (cases j) (simp_all add: restart_bytes_def)
qed simp

lemma GetRestartPoint_block:
  assumes "wf_block xs rs" "in_block xs rs it" "unat index < length rs"
  shows "GetRestartPoint index it = Some (of_nat (off xs (rs ! unat index)))"
proof -
  have "drop (unat (bi_restarts it) + unat index * 4) (bi_data it) =
      drop (unat index * 4) (restart_bytes xs rs) @ drop (unat index * 4 - length (restart_bytes xs rs)) (EncodeFixed32 (of_nat (length rs)))"
    using assms wf_small [OF assms(1)] by (simp add: in_block_def block_data_def)
  then have "DecodeFixed32 (drop (unat (bi_restarts it) + unat index * 4) (bi_data it)) = Some (of_nat (off xs (rs ! unat index)))"
    using assms(3) by (simp add: restart_bytes_drop) (simp add: restart_bytes_def Cons_nth_drop_Suc [symmetric])
  moreover have "index < bi_num_restarts it"
    using assms wf_small [OF assms(1)] by (simp add: in_block_def word_less_nat_alt)
  ultimately show ?thesis by (simp add: GetRestartPoint_def)
qed

lemma in_block_update [simp]:
  "in_block xs rs (it\<lparr>bi_restart_index := i\<rparr>) = in_block xs rs it" "in_block xs rs (it\<lparr>bi_key := k\<rparr>) = in_block xs rs it"
  "in_block xs rs (it\<lparr>bi_value := v\<rparr>) = in_block xs rs it" "in_block xs rs (it\<lparr>bi_current := c\<rparr>) = in_block xs rs it"
  "in_block xs rs (mark_invalid it) = in_block xs rs it"
  by (simp_all add: in_block_def mark_invalid_def)

lemma SeekToRestartPoint_next:
  assumes "wf_block xs rs" "in_block xs rs it" "unat index < length rs"
  shows "\<exists>it'. SeekToRestartPoint index it = Some it' \<and> item_next xs rs it' (rs ! unat index)"
proof -
  have r: "rs ! unat index \<in> set rs" using assms(3) by simp
  then have "rs ! unat index \<le> length xs" "rs ! unat index < length xs \<Longrightarrow> extends [] (xs ! (rs ! unat index))"
    using assms(1) by (fastforce simp: wf_block_def extends_def)+
  then show ?thesis
    using assms GetRestartPoint_block [OF assms]
    by (simp add: SeekToRestartPoint_def item_next_def restart_before_def NextEntryOffset_def)
qed

lemma advance_restart_before:
  assumes "wf_block xs rs"
  shows "in_block xs rs it \<Longrightarrow> restart_before rs i it \<Longrightarrow> i \<le> length xs \<Longrightarrow> bi_current it = of_nat (off xs i) \<Longrightarrow>
    \<exists>n. advance_restart it = Some (it\<lparr>bi_restart_index := n\<rparr>) \<and> restart_before rs i (it\<lparr>bi_restart_index := n\<rparr>)"
proof (induction it rule: advance_restart.induct)
  case (1 it)
  have index: "unat (bi_restart_index it) < length rs" using 1(3) by (simp add: restart_before_def)
  have stop: "\<exists>n. it = it\<lparr>bi_restart_index := n\<rparr> \<and> restart_before rs i (it\<lparr>bi_restart_index := n\<rparr>)"
    by (rule exI [of _ "bi_restart_index it"]) (use 1(3) in simp)
  show ?case
  proof (cases "bi_restart_index it + 1 < bi_num_restarts it")
    case True
    have "bi_restart_index it < of_nat (length rs)" using index wf_small [OF assms] by (simp add: word_less_nat_alt)
    note succ = unat_succ [OF this]
    then have r: "GetRestartPoint (bi_restart_index it + 1) it = Some (of_nat (off xs (rs ! Suc (unat (bi_restart_index it)))))"
      and less: "Suc (unat (bi_restart_index it)) < length rs"
      using GetRestartPoint_block [OF assms 1(2), of "bi_restart_index it + 1"] True wf_small [OF assms] 1(2)
      by (simp_all add: in_block_def word_less_nat_alt)
    have "rs ! Suc (unat (bi_restart_index it)) \<le> length xs"
      using nth_mem [OF less] assms by (fastforce simp: wf_block_def)
    then have "(of_nat (off xs (rs ! Suc (unat (bi_restart_index it)))) :: u32) < bi_current it \<longleftrightarrow> rs ! Suc (unat (bi_restart_index it)) < i"
      using 1(4,5) wf_small [OF assms] by (simp add: word_less_nat_alt off_less_iff)
    note step = this
    show ?thesis
    proof (cases "rs ! Suc (unat (bi_restart_index it)) < i")
      case next_restart: True
      then show ?thesis
        using 1(1) [OF True r] 1(2-5) True r less succ step by (simp add: advance_restart.simps [of it] restart_before_def)
    next
      case False
      then show ?thesis using True r step stop by (simp add: advance_restart.simps [of it])
    qed
  next
    case False
    then show ?thesis using stop by (simp add: advance_restart.simps [of it])
  qed
qed


section \<open>Parsing\<close>

lemma entry_at:
  assumes "wf_block xs rs" "in_block xs rs it" "j < length xs"
  shows "drop (off xs j) (take (unat (bi_restarts it)) (bi_data it)) = item_bytes (xs ! j) @ body (drop (Suc j) xs)"
    "off xs (Suc j) + length (body (drop (Suc j) xs)) = length (body xs)"
proof -
  have "take (unat (bi_restarts it)) (bi_data it) = body xs"
    using assms wf_small [OF assms(1)] by (simp add: in_block_def block_data_def)
  then show "drop (off xs j) (take (unat (bi_restarts it)) (bi_data it)) = item_bytes (xs ! j) @ body (drop (Suc j) xs)"
    using assms(3) by (simp add: body_drop Cons_nth_drop_Suc [symmetric])
  show "off xs (Suc j) + length (body (drop (Suc j) xs)) = length (body xs)"
    using off_le [of xs "Suc j"] by (simp flip: body_drop)
qed

lemma DecodeEntry_at:
  assumes "wf_block xs rs" "in_block xs rs it" "j < length xs" "xs ! j = (s, k, v)" "s \<le> length k"
  shows "DecodeEntry (drop (off xs j) (take (unat (bi_restarts it)) (bi_data it))) =
    Some (of_nat s, of_nat (length k - s), of_nat (length v), drop s k @ v @ body (drop (Suc j) xs))"
  using entry_at [OF assms(1-3)] assms off_Suc [OF assms(3)] wf_small [OF assms(1)] by (simp add: DecodeEntry_item)

lemma read_bytes_body: "a + n \<le> length (body xs) \<Longrightarrow> read_bytes (block_data xs rs) a n = Some (take n (drop a (body xs)))"
  by (simp add: read_bytes_def block_data_def)

lemma header_length: "s \<le> length k \<Longrightarrow>
    length (item_bytes (s, k, v)) = length (item_bytes (s, k, v)) - (length k - s + length v) + (length k - s + length v)"
  by (simp add: item_bytes_def)

lemma item_parts:
  assumes "j < length xs" "xs ! j = (s, k, v)" "s \<le> length k"
  defines "h \<equiv> off xs (Suc j) - (length k - s + length v)"
  shows "off xs j + (length (item_bytes (s, k, v)) - (length k - s + length v)) = h" "h + (length k - s) + length v = off xs (Suc j)"
    "take (length k - s) (drop h (body xs)) = drop s k" "take (length v) (drop (h + (length k - s)) (body xs)) = v"
proof -
  define n where "n = length (item_bytes (s, k, v)) - (length k - s + length v)"
  have len: "length (item_bytes (s, k, v)) = n + (length k - s + length v)" using header_length [OF assms(3)] by (simp add: n_def)
  then show h: "off xs j + (length (item_bytes (s, k, v)) - (length k - s + length v)) = h" "h + (length k - s) + length v = off xs (Suc j)"
    using assms(1,2) by (simp_all add: h_def off_Suc)
  have "drop n (item_bytes (s, k, v)) = drop s k @ v"
    using len by (simp add: item_bytes_def)
  moreover have "drop h (body xs) = drop n (item_bytes (s, k, v) @ body (drop (Suc j) xs))"
  proof -
    have "drop h (body xs) = drop n (drop (off xs j) (body xs))" using h(1) by (simp add: n_def add.commute)
    also have "drop (off xs j) (body xs) = item_bytes (s, k, v) @ body (drop (Suc j) xs)"
      using assms(1,2) by (simp add: body_drop Cons_nth_drop_Suc [symmetric])
    finally show ?thesis .
  qed
  moreover have "n \<le> length (item_bytes (s, k, v))" by (simp add: n_def)
  ultimately have "drop h (body xs) = drop s k @ v @ body (drop (Suc j) xs)" by simp
  moreover have "drop (h + (length k - s)) (body xs) = drop (length k - s) (drop h (body xs))" by (simp add: add.commute)
  ultimately show "take (length k - s) (drop h (body xs)) = drop s k" "take (length v) (drop (h + (length k - s)) (body xs)) = v"
    by simp_all
qed

lemma item_key_length: "wf_block xs rs \<Longrightarrow> i < length xs \<Longrightarrow> length (item_key xs i) \<le> off xs (Suc i)"
proof (induction i)
  case 0
  then have "fst (xs ! 0) = 0" by (metis length_greater_0_conv nth_mem wf_block_def)
  with 0 show ?case by (cases "xs ! 0") (simp add: off_Suc item_key_def item_bytes_def)
next
  case (Suc i)
  then have "fst (xs ! Suc i) \<le> off xs (Suc i)" by (fastforce simp: wf_block_def extends_def)
  with Suc show ?case by (cases "xs ! Suc i") (simp add: off_Suc [of "Suc i"] item_key_def item_bytes_def)
qed

lemma ParseNextKey_at:
  assumes "wf_block xs rs" "item_next xs rs it j" "j < length xs"
  shows "\<exists>it'. ParseNextKey it = Some (True, it') \<and> item_at xs rs it' j"
proof -
  obtain s k v where x: "xs ! j = (s, k, v)" by (cases "xs ! j") auto
  define h where "h = off xs (Suc j) - (length k - s + length v)"
  define it' where "it' = it\<lparr>bi_current := of_nat (off xs j), bi_key := k, bi_value := Some (h + (length k - s), length v)\<rparr>"
  have it: "in_block xs rs it" "restart_before rs j it" "NextEntryOffset it = Some (of_nat (off xs j))" "extends (bi_key it) (s, k, v)"
    using assms x by (simp_all add: item_next_def)
  then have sk: "s \<le> length k" "s \<le> length (bi_key it)" "take s (bi_key it) = take s k" by (simp_all add: extends_def)
  note small = wf_small [OF assms(1)] and parts = item_parts [OF assms(3) x sk(1), folded h_def]
  have end_le: "h + (length k - s) + length v \<le> length (body xs)" using parts(2) off_le [of xs "Suc j"] by simp
  have "length k < 2 ^ 32" using item_key_length [OF assms(1,3)] off_le [of xs "Suc j"] small(4) x by (simp add: item_key_def)
  then have le: "unat (of_nat (length k - s) :: u32) = length k - s" "unat (of_nat (length v) :: u32) = length v"
    "unat (of_nat s :: u32) = s"
    using small(4) sk(1) end_le by (simp_all add: leb128_length_u32 del: of_nat_diff)
  have entry: "drop (off xs j) (take (unat (bi_restarts it)) (bi_data it)) = item_bytes (s, k, v) @ body (drop (Suc j) xs)"
    using entry_at(1) [OF assms(1) it(1) assms(3)] x by simp
  have in_data: "\<not> bi_restarts it \<le> of_nat (off xs j)"
    using it(1) small off_strict [of j "length xs" xs] assms(3) by (simp add: in_block_def word_le_nat_alt off_all)
  have delta: "read_bytes (bi_data it) h (length k - s) = Some (drop s k)"
    using it(1) end_le parts(3) by (simp add: in_block_def read_bytes_body)
  obtain n where adv: "advance_restart it' = Some (it'\<lparr>bi_restart_index := n\<rparr>)" "restart_before rs j (it'\<lparr>bi_restart_index := n\<rparr>)"
    using advance_restart_before [OF assms(1), of it' j] it(1,2) assms(3) by (auto simp: it'_def restart_before_def)
  have "ParseNextKey it = Some (True, it'\<lparr>bi_restart_index := n\<rparr>)"
    using it(3) in_data entry DecodeEntry_at [OF assms(1) it(1) assms(3) x sk(1)] delta adv(1) sk le parts(1) small
    by (simp add: ParseNextKey_def it'_def flip: diff_diff_eq2)
  moreover have "item_at xs rs (it'\<lparr>bi_restart_index := n\<rparr>) j"
    using it adv(2) x parts(2) assms(3) by (simp add: item_at_def it'_def item_key_def)
  ultimately show ?thesis by blast
qed

lemma ParseNextKey_end:
  assumes "wf_block xs rs" "item_next xs rs it (length xs)"
  shows "\<exists>it'. ParseNextKey it = Some (False, it') \<and> item_at xs rs it' (length xs)"
  using assms by (simp add: item_next_def ParseNextKey_def off_all item_at_def) (simp add: in_block_def mark_invalid_def)

lemma item_at_next:
  assumes "wf_block xs rs" "item_at xs rs it i" "i < length xs"
  shows "item_next xs rs it (Suc i)"
proof -
  obtain s k v where x: "xs ! i = (s, k, v)" by (cases "xs ! i") auto
  have "length v \<le> off xs (Suc i)" using off_Suc [OF assms(3)] x by (simp add: item_bytes_def)
  then have "NextEntryOffset it = Some (of_nat (off xs (Suc i)))" using assms x by (simp add: item_at_def NextEntryOffset_def)
  then show ?thesis
    using assms by (simp add: item_next_def item_at_def restart_before_def wf_block_def)
qed


section \<open>The operations of the iterator\<close>

lemma Next_at:
  assumes "wf_block xs rs" "item_at xs rs it i" "i < length xs"
  shows "\<exists>it'. Iter_Next it = Some it' \<and> item_at xs rs it' (Suc i)"
proof -
  have "Iter_Valid it"
    using assms off_strict [of i "length xs" xs] wf_small [OF assms(1)]
    by (simp add: Iter_Valid_def item_at_def in_block_def word_less_nat_alt off_all)
  moreover have "\<exists>b it'. ParseNextKey it = Some (b, it') \<and> item_at xs rs it' (Suc i)"
    using item_at_next [OF assms] ParseNextKey_at [OF assms(1)] ParseNextKey_end [OF assms(1)] assms(3)
    by (metis Suc_lessI)
  ultimately show ?thesis by (auto simp: Iter_Next_def)
qed

lemma Iter_Valid_at: "wf_block xs rs \<Longrightarrow> item_at xs rs it i \<Longrightarrow> Iter_Valid it \<longleftrightarrow> i < length xs"
  using off_less_iff [of i xs "length xs"] wf_small [of xs rs]
  by (auto simp: Iter_Valid_def item_at_def in_block_def word_less_nat_alt off_all)

text \<open>The scan that ends behind item \<open>i\<close>.\<close>

lemma scan_to_at:
  assumes "wf_block xs rs" "item_next xs rs it j" "j \<le> i" "i < length xs"
  shows "\<exists>it'. scan_to (of_nat (off xs (Suc i))) it = Some it' \<and> item_at xs rs it' i"
  using assms(2,3)
proof (induction "i - j" arbitrary: it j)
  case 0
  then have "j = i" by simp
  then obtain it' where it': "ParseNextKey it = Some (True, it')" "item_at xs rs it' i"
    using ParseNextKey_at [OF assms(1) 0(2)] assms(4) by blast
  then have "NextEntryOffset it' = Some (of_nat (off xs (Suc i)))"
    using item_at_next [OF assms(1) it'(2) assms(4)] by (simp add: item_next_def)
  with it' show ?case by (simp add: scan_to.simps [of _ it])
next
  case (Suc d)
  then have "j < i" by simp
  then obtain it' where it': "ParseNextKey it = Some (True, it')" "item_at xs rs it' j"
    using ParseNextKey_at [OF assms(1) Suc(3)] assms(4) by auto
  then have nx: "item_next xs rs it' (Suc j)" using item_at_next [OF assms(1) it'(2)] \<open>j < i\<close> assms(4) by simp
  then have "NextEntryOffset it' = Some (of_nat (off xs (Suc j)))" by (simp add: item_next_def)
  moreover have "(of_nat (off xs (Suc j)) :: u32) < of_nat (off xs (Suc i))"
    using off_strict [of "Suc j" "Suc i" xs] \<open>j < i\<close> assms(4) wf_small [OF assms(1)] by (simp add: word_less_nat_alt)
  ultimately show ?case
    using Suc.hyps(1) [OF _ nx] Suc.hyps(2) \<open>j < i\<close> it'(1) by (simp add: scan_to.simps [of _ it])
qed

lemma prev_restart_at:
  assumes "wf_block xs rs" "i < length xs"
  shows "in_block xs rs it \<Longrightarrow> unat (bi_restart_index it) < length rs \<Longrightarrow>
    (if i = 0 then prev_restart (of_nat (off xs i)) it = Some None
     else \<exists>n. prev_restart (of_nat (off xs i)) it = Some (Some (it\<lparr>bi_restart_index := n\<rparr>)) \<and>
       unat n < length rs \<and> rs ! unat n < i)"
proof (induction "unat (bi_restart_index it)" arbitrary: it)
  case (0 it)
  then have index: "bi_restart_index it = 0" by (simp add: unat_eq_zero)
  then have "GetRestartPoint (bi_restart_index it) it = Some 0" "rs ! 0 = 0"
    using GetRestartPoint_block [OF assms(1) 0(2,3)] assms(1) by (simp_all add: wf_block_def)
  moreover have "\<exists>n. it = it\<lparr>bi_restart_index := n\<rparr> \<and> unat n < length rs \<and> rs ! unat n < i" if "0 < i"
    by (rule exI [of _ "bi_restart_index it"]) (use 0 that index \<open>rs ! 0 = 0\<close> in simp)
  moreover have "(of_nat (off xs i) :: u32) \<le> 0 \<longleftrightarrow> i = 0"
    using wf_small(1) [OF assms(1), of i] off_strict [of 0 i xs] assms(2) by (cases "i = 0"; cases "xs = []") (auto simp: word_le_nat_alt)
  ultimately show ?case using index by (simp add: prev_restart.simps [of _ it])
next
  case (Suc m it)
  define r where "r = rs ! unat (bi_restart_index it)"
  have "r \<in> set rs" using Suc(4) by (simp add: r_def)
  then have "r \<le> length xs" using assms(1) by (fastforce simp: wf_block_def)
  then have ge: "(of_nat (off xs i) :: u32) \<le> of_nat (off xs r) \<longleftrightarrow> i \<le> r"
    using wf_small(1) [OF assms(1)] assms(2) off_less_iff [of r xs i] by (simp add: word_le_nat_alt) linarith
  have point: "GetRestartPoint (bi_restart_index it) it = Some (of_nat (off xs r))"
    using GetRestartPoint_block [OF assms(1) Suc(3,4)] by (simp add: r_def)
  have index: "bi_restart_index it \<noteq> 0" using Suc(2) by auto
  then have m: "unat (bi_restart_index it - 1) = m" using Suc(2) by (simp add: unat_minus_one)
  show ?case
  proof (cases "i \<le> r")
    case True
    then show ?thesis
      using Suc(1) [of "it\<lparr>bi_restart_index := bi_restart_index it - 1\<rparr>"] Suc(2-4) m index point ge
      by (cases "i = 0") (simp_all add: prev_restart.simps [of _ it])
  next
    case False
    moreover have "\<exists>n. it = it\<lparr>bi_restart_index := n\<rparr> \<and> unat n < length rs \<and> rs ! unat n < i"
      by (rule exI [of _ "bi_restart_index it"]) (use False Suc(4) in \<open>simp add: r_def\<close>)
    ultimately show ?thesis using point ge by (simp add: prev_restart.simps [of _ it])
  qed
qed

lemma Prev_at:
  assumes "wf_block xs rs" "item_at xs rs it i" "i < length xs"
  shows "\<exists>it'. Iter_Prev it = Some it' \<and> item_at xs rs it' (prev_pos xs i)"
proof (cases i)
  case 0
  then have "prev_restart (bi_current it) it = Some None"
    using prev_restart_at [OF assms(1,3), of it] assms by (simp add: item_at_def restart_before_def)
  moreover have "item_at xs rs (mark_invalid it) (length xs)"
    using assms(2) by (simp add: item_at_def off_all) (simp add: mark_invalid_def in_block_def)
  ultimately show ?thesis using 0 assms Iter_Valid_at [OF assms(1,2)] by (simp add: Iter_Prev_def prev_pos_def)
next
  case (Suc k)
  then obtain n where n: "prev_restart (bi_current it) it = Some (Some (it\<lparr>bi_restart_index := n\<rparr>))" "unat n < length rs" "rs ! unat n \<le> k"
    using prev_restart_at [OF assms(1,3), of it] assms by (auto simp: item_at_def restart_before_def)
  then obtain it' where "SeekToRestartPoint n (it\<lparr>bi_restart_index := n\<rparr>) = Some it'" "item_next xs rs it' (rs ! unat n)"
    using SeekToRestartPoint_next [OF assms(1), of "it\<lparr>bi_restart_index := n\<rparr>" n] assms(2) by (auto simp: item_at_def)
  then show ?thesis
    using scan_to_at [OF assms(1) _ n(3), of it'] assms Suc n(1) Iter_Valid_at [OF assms(1,2)]
    by (simp add: Iter_Prev_def prev_pos_def item_at_def)
qed

lemma last_restart: "wf_block xs rs \<Longrightarrow> unat (of_nat (length rs) - 1 :: u32) = length rs - 1"
  using wf_small(3) [of xs rs] word_sub_le_unat [of 1 "of_nat (length rs) :: u32"] by (simp add: wf_block_def word_le_nat_alt Suc_le_eq)

lemma block_start:
  assumes "wf_block xs rs" "in_block xs rs it"
  shows "\<exists>it'. SeekToRestartPoint 0 it = Some it' \<and> item_next xs rs it' 0"
  using SeekToRestartPoint_next [OF assms, of 0] assms(1) by (simp add: wf_block_def)

lemma SeekToFirst_at:
  assumes "wf_block xs rs" "in_block xs rs it"
  shows "\<exists>it'. Iter_SeekToFirst it = Some it' \<and> item_at xs rs it' 0"
  using block_start [OF assms] ParseNextKey_at [OF assms(1)] ParseNextKey_end [OF assms(1)]
  by (cases xs) (fastforce simp: Iter_SeekToFirst_def)+

lemma SeekToLast_at:
  assumes "wf_block xs rs" "in_block xs rs it"
  shows "\<exists>it'. Iter_SeekToLast it = Some it' \<and> item_at xs rs it' (last_pos xs)"
proof -
  have last: "unat (bi_num_restarts it - 1) = length rs - 1" "length rs - 1 < length rs"
    using assms last_restart [OF assms(1)] by (simp_all add: in_block_def wf_block_def)
  then obtain it' where it': "SeekToRestartPoint (bi_num_restarts it - 1) it = Some it'" "item_next xs rs it' (rs ! (length rs - 1))"
    using SeekToRestartPoint_next [OF assms, of "bi_num_restarts it - 1"] by auto
  have r: "rs ! (length rs - 1) = 0 \<or> rs ! (length rs - 1) < length xs"
    using assms(1) nth_mem [OF last(2)] by (auto simp: wf_block_def)
  show ?thesis
  proof (cases "xs = []")
    case True
    then show ?thesis
      using it' r ParseNextKey_end [OF assms(1), of it'] by (auto simp: Iter_SeekToLast_def scan_to.simps [of _ it'] last_pos_def)
  next
    case False
    then have "\<exists>it''. scan_to (of_nat (off xs (Suc (length xs - 1)))) it' = Some it'' \<and> item_at xs rs it'' (length xs - 1)"
      using scan_to_at [OF assms(1) it'(2), of "length xs - 1"] r by fastforce
    moreover have "bi_restarts it' = of_nat (off xs (Suc (length xs - 1)))"
      using it'(2) False by (simp add: item_next_def in_block_def off_all)
    ultimately show ?thesis using it'(1) by (simp add: Iter_SeekToLast_def last_pos_def)
  qed
qed


section \<open>Seeking\<close>

lemma restart_entry:
  assumes "wf_block xs rs" "in_block xs rs it" "j < length xs" "fst (xs ! j) = 0"
  defines "entry \<equiv> drop (off xs j) (take (unat (bi_restarts it)) (bi_data it))"
  shows "\<exists>n m q. DecodeEntry entry = Some (0, n, m, q) \<and>
    read_bytes (bi_data it) (off xs j + (length entry - length q)) (unat n) = Some (item_key xs j)"
proof -
  obtain k v where x: "xs ! j = (0, k, v)" using assms(4) by (cases "xs ! j") auto
  have "length k < 2 ^ 32"
    using item_key_length [OF assms(1,3)] off_le [of xs "Suc j"] wf_small(4) [OF assms(1)] x by (simp add: item_key_def)
  then have n: "unat (of_nat (length k) :: u32) = length k" by (rule leb128_length_u32)
  have e: "entry = item_bytes (0, k, v) @ body (drop (Suc j) xs)"
    using entry_at(1) [OF assms(1-3)] x by (simp add: entry_def)
  have d: "DecodeEntry entry = Some (0, of_nat (length k), of_nat (length v), k @ v @ body (drop (Suc j) xs))"
    using DecodeEntry_at [OF assms(1-3) x] by (simp add: entry_def)
  have "read_bytes (bi_data it) (off xs j + (length entry - length (k @ v @ body (drop (Suc j) xs)))) (length k) = Some k"
    using item_parts [OF assms(3) x] off_le [of xs "Suc j"] assms(2) by (simp add: e in_block_def read_bytes_body)
  then show ?thesis using d x n by (simp add: item_key_def)
qed

lemma wf_restart: "wf_block xs rs \<Longrightarrow> 0 < m \<Longrightarrow> m < length rs \<Longrightarrow> rs ! m < length xs \<and> fst (xs ! (rs ! m)) = 0"
proof -
  assume a: "wf_block xs rs" "0 < m" "m < length rs"
  then have "xs \<noteq> []" "rs ! m \<in> set rs" by (auto simp: wf_block_def)
  then show ?thesis using a(1) by (metis length_greater_0_conv wf_block_def)
qed

lemma unat_mid:
  assumes "l < r" "unat r < 2 ^ 30"
  shows "unat ((l + r + 1) div 2 :: u32) = (unat l + unat r + 1) div 2"
proof -
  have "unat l < 2 ^ 30" using assms by (simp add: word_less_nat_alt)
  then have "unat (l + r) = unat l + unat r" using assms(2) by (subst unat_add_small) simp_all
  then have "unat (l + r + 1) = unat l + unat r + 1" using assms(2) \<open>unat l < 2 ^ 30\<close> by (subst unat_add_small) simp_all
  then show ?thesis by (simp add: unat_div)
qed

context comparator
begin

lemma compare_sign:
  assumes "valid a" "valid b"
  obtains c where "cmp_Compare C a b = Some c" "c < 0 \<longleftrightarrow> key_less C a b"
  using compare_total [OF assms] by (auto simp: key_less_def)

lemma binary_search_at:
  assumes "wf_block xs rs" "in_block xs rs it" "valid target" "\<forall>j < length xs. valid (item_key xs j)"
  shows "left \<le> right \<Longrightarrow> unat right < length rs \<Longrightarrow>
      left = 0 \<or> key_less C (item_key xs (rs ! unat left)) target \<Longrightarrow>
    \<exists>n. binary_search C target it left right = Some (Inr n) \<and> unat n < length rs \<and>
      (n = 0 \<or> key_less C (item_key xs (rs ! unat n)) target)"
proof (induction "unat right - unat left" arbitrary: left right rule: less_induct)
  case less
  show ?case
  proof (cases "left < right")
    case True
    define mid where "mid = (left + right + 1) div 2"
    have mid: "unat mid = (unat left + unat right + 1) div 2"
      using unat_mid [OF True] less(3) wf_small(5) [OF assms(1)] by (simp add: mid_def)
    then have range: "unat left < unat mid" "unat mid \<le> unat right" using True by (auto simp: word_less_nat_alt)
    then have pred: "unat (mid - 1) = unat mid - 1" using unat_minus_one [of mid] by fastforce
    then have r: "rs ! unat mid < length xs" "fst (xs ! (rs ! unat mid)) = 0" "unat mid < length rs"
      using wf_restart [OF assms(1), of "unat mid"] less(3) range by auto
    note point = GetRestartPoint_block [OF assms(1,2) r(3)]
    obtain n m q where e: "DecodeEntry (drop (off xs (rs ! unat mid)) (take (unat (bi_restarts it)) (bi_data it))) = Some (0, n, m, q)"
      "read_bytes (bi_data it) (off xs (rs ! unat mid) + (length (drop (off xs (rs ! unat mid)) (take (unat (bi_restarts it)) (bi_data it))) - length q)) (unat n)
        = Some (item_key xs (rs ! unat mid))"
      using restart_entry [OF assms(1,2) r(1,2)] by blast
    obtain c where c: "cmp_Compare C (item_key xs (rs ! unat mid)) target = Some c"
        "c < 0 \<longleftrightarrow> key_less C (item_key xs (rs ! unat mid)) target"
      using compare_sign assms(3,4) r(1) by blast
    have step: "binary_search C target it left right = (if c < 0 then binary_search C target it mid right else binary_search C target it left (mid - 1))"
      using True point e c(1) wf_small(1) [OF assms(1)] by (subst binary_search.simps) (simp add: mid_def [symmetric] Let_def)
    show ?thesis
    proof (cases "c < 0")
      case lower: True
      then show ?thesis
        using less(1) [of right mid] less(3) range c(2) step by (simp add: word_le_nat_alt)
    next
      case False
      then show ?thesis
        using less(1) [of "mid - 1" left] less(3,4) range pred step by (simp add: word_le_nat_alt)
    qed
  next
    case False
    then show ?thesis
      using less(2-4) by (subst binary_search.simps) auto
  qed
qed

end


context comparator
begin

lemma linear_search_at:
  assumes "wf_block xs rs" "valid target" "\<forall>j < length xs. valid (item_key xs j)"
  shows "item_next xs rs it j \<Longrightarrow> \<forall>i < j. key_less C (item_key xs i) target \<Longrightarrow>
    \<exists>it'. linear_search C target it = Some it' \<and> item_at xs rs it' (lower_bound C (map snd xs) target)"
proof (induction "length xs - j" arbitrary: it j)
  case 0
  then have j: "j = length xs" by (simp add: item_next_def)
  then have "lower_bound C (map snd xs) target = length xs"
    using 0(3) by (intro lower_bound_eqI) (simp_all add: item_key_def)
  then show ?case using ParseNextKey_end [OF assms(1)] 0(2) j by (fastforce simp: linear_search.simps [of _ _ it])
next
  case (Suc d)
  then have j: "j < length xs" by simp
  obtain it' where it': "ParseNextKey it = Some (True, it')" "item_at xs rs it' j"
    using ParseNextKey_at [OF assms(1) Suc(3) j] by blast
  have key: "bi_key it' = item_key xs j" using it'(2) j by (simp add: item_at_def)
  obtain c where c: "cmp_Compare C (item_key xs j) target = Some c" "c < 0 \<longleftrightarrow> key_less C (item_key xs j) target"
    using compare_sign assms(2,3) j by blast
  show ?case
  proof (cases "c < 0")
    case True
    then have "\<forall>i < Suc j. key_less C (item_key xs i) target" using Suc(4) c(2) by (auto simp: less_Suc_eq)
    then show ?thesis
      using Suc(1) [OF _ item_at_next [OF assms(1) it'(2) j]] Suc(2) it'(1) key c(1) True
      by (simp add: linear_search.simps [of _ _ it])
  next
    case False
    then have "lower_bound C (map snd xs) target = j"
      using Suc(4) c(2) j by (intro lower_bound_eqI) (simp_all add: item_key_def)
    then show ?thesis using it' key c(1) False by (simp add: linear_search.simps [of _ _ it])
  qed
qed

lemma Seek_at:
  assumes "wf_block xs rs" "in_block xs rs it" "valid target" "\<forall>j < length xs. valid (item_key xs j)"
    and sorted: "\<forall>i j. i < j \<longrightarrow> j < length xs \<longrightarrow> key_less C (item_key xs i) (item_key xs j)"
  shows "\<exists>it'. Iter_Seek C target it = Some it' \<and> item_at xs rs it' (lower_bound C (map snd xs) target)"
proof -
  have num: "bi_num_restarts it - 1 = of_nat (length rs) - 1" using assms(2) by (simp add: in_block_def)
  obtain n where n: "binary_search C target it 0 (bi_num_restarts it - 1) = Some (Inr n)" "unat n < length rs"
      "n = 0 \<or> key_less C (item_key xs (rs ! unat n)) target"
    using binary_search_at [OF assms(1-4), of 0 "bi_num_restarts it - 1"] last_restart [OF assms(1)] assms(1) num
    by (auto simp: wf_block_def)
  obtain it' where it': "SeekToRestartPoint n it = Some it'" "item_next xs rs it' (rs ! unat n)"
    using SeekToRestartPoint_next [OF assms(1,2) n(2)] by blast
  have "key_less C (item_key xs i) target" if "i < rs ! unat n" for i
  proof (cases "n = 0")
    case False
    then have "key_less C (item_key xs (rs ! unat n)) target" "rs ! unat n < length xs"
      using n(2,3) wf_restart [OF assms(1), of "unat n"] unat_gt_0 [of n] by auto
    then show ?thesis using sorted that assms(3,4) less_trans [of "item_key xs i" "item_key xs (rs ! unat n)" target] by simp
  qed (use that assms(1) in \<open>simp add: wf_block_def\<close>)
  then show ?thesis
    using linear_search_at [OF assms(1,3,4) it'(2)] n(1) it'(1) by (simp add: Iter_Seek_def)
qed

end

section \<open>The block iterator is an iterator\<close>

definition block_at :: "Comparator \<Rightarrow> (byte list \<Rightarrow> bool) \<Rightarrow> entry list \<Rightarrow> Iter \<Rightarrow> nat \<Rightarrow> bool" where
  "block_at C valid es it i \<longleftrightarrow> comparator C valid \<and> (\<forall>e \<in> set es. valid (fst e)) \<and>
     sorted_wrt (\<lambda>a b. key_less C (fst a) (fst b)) es \<and>
     (\<exists>xs rs. wf_block xs rs \<and> map snd xs = es \<and> item_at xs rs it i)"

lemma item_at_in_block: "item_at xs rs it i \<Longrightarrow> in_block xs rs it \<and> i \<le> length xs"
  by (simp add: item_at_def)

lemma Iter_value_at:
  assumes "wf_block xs rs" "item_at xs rs it i" "i < length xs"
  shows "Iter_value it = Some (snd (snd (xs ! i)))"
proof -
  obtain s k v where x: "xs ! i = (s, k, v)" by (cases "xs ! i") auto
  have n: "length v \<le> off xs (Suc i)" using off_Suc [OF assms(3)] x by (simp add: item_bytes_def)
  have "drop (length (item_bytes (s, k, v)) - length v) (item_bytes (s, k, v)) = v" by (simp add: item_bytes_def)
  moreover have "off xs (Suc i) - length v = (length (item_bytes (s, k, v)) - length v) + off xs i"
    using off_Suc [OF assms(3)] x by (simp add: item_bytes_def)
  moreover have "drop (off xs i) (body xs) = item_bytes (s, k, v) @ body (drop (Suc i) xs)"
    using assms(3) x by (simp add: body_drop Cons_nth_drop_Suc [symmetric])
  ultimately have "drop (off xs (Suc i) - length v) (body xs) = v @ body (drop (Suc i) xs)"
    by (simp flip: drop_drop)
  then have "read_bytes (bi_data it) (off xs (Suc i) - length v) (length v) = Some v"
    using assms(2) off_le [of xs "Suc i"] n by (simp add: item_at_def in_block_def read_bytes_body)
  then show ?thesis using assms x Iter_Valid_at [OF assms(1,2)] by (simp add: Iter_value_def item_at_def)
qed

lemma block_atD:
  assumes "block_at C valid es it i"
  shows "\<exists>xs rs. wf_block xs rs \<and> item_at xs rs it i \<and> in_block xs rs it \<and> es = map snd xs \<and>
    (\<forall>it' j. item_at xs rs it' j \<longrightarrow> block_at C valid es it' j)"
  using assms unfolding block_at_def by (metis item_at_in_block)

lemma block_seek:
  assumes "block_at C valid es it i" "valid target"
  shows "\<exists>it'. Iter_Seek C target it = Some it' \<and> block_at C valid es it' (lower_bound C es target)"
proof -
  obtain xs rs where x: "wf_block xs rs" "in_block xs rs it" "es = map snd xs"
      "\<And>it' j. item_at xs rs it' j \<Longrightarrow> block_at C valid es it' j"
    using block_atD [OF assms(1)] by blast
  have c: "comparator C valid" "\<forall>e \<in> set es. valid (fst e)" "sorted_wrt (\<lambda>a b. key_less C (fst a) (fst b)) es"
    using assms(1) by (simp_all add: block_at_def)
  have "\<forall>j < length xs. valid (item_key xs j)" using c(2) x(3) by (simp add: item_key_def)
  moreover have "\<forall>i j. i < j \<longrightarrow> j < length xs \<longrightarrow> key_less C (item_key xs i) (item_key xs j)"
    using c(3) x(3) by (simp add: item_key_def sorted_wrt_iff_nth_less)
  ultimately show ?thesis using comparator.Seek_at [OF c(1) x(1,2) assms(2)] x(3,4) by blast
qed

lemma block_op_at:
  assumes "block_at C valid es it i"
    and "\<And>xs rs. wf_block xs rs \<Longrightarrow> item_at xs rs it i \<Longrightarrow> in_block xs rs it \<Longrightarrow> length xs = length es \<Longrightarrow>
      \<exists>it'. f it = Some it' \<and> item_at xs rs it' j"
  shows "\<exists>it'. f it = Some it' \<and> block_at C valid es it' j"
  using block_atD [OF assms(1)] assms(2) by (metis length_map)

interpretation block_iter: iterator "BlockIter C" C es valid "block_at C valid es"
proof (unfold_locales, goal_cases)
  case (1 it i)
  then show ?case using item_at_in_block by (fastforce dest!: block_atD)
next
  case (2 it i)
  then show ?case by (auto simp: BlockIter_def Iter_Valid_at dest!: block_atD)
next
  case (3 it i)
  then show ?case
    by (auto simp: BlockIter_def Iter_key_def Iter_Valid_at dest!: block_atD) (auto simp: item_at_def item_key_def)
next
  case (4 it i)
  then show ?case by (auto simp: BlockIter_def Iter_value_at dest!: block_atD)
next
  case (5 it i)
  then show ?case by (auto simp: BlockIter_def in_block_def dest!: block_atD)
next
  case (6 it i)
  then show ?case using SeekToFirst_at by (auto simp: BlockIter_def intro!: block_op_at)
next
  case (7 it i)
  then show ?case using SeekToLast_at by (force simp: BlockIter_def last_pos_def intro!: block_op_at)
next
  case (8 it i target)
  then show ?case by (simp add: BlockIter_def block_seek)
next
  case (9 it i)
  then show ?case using Next_at by (force simp: BlockIter_def intro!: block_op_at)
next
  case (10 it i)
  then show ?case using Prev_at by (force simp: BlockIter_def prev_pos_def intro!: block_op_at)
qed


section \<open>The builder makes well-formed contents\<close>

definition wf_items :: "item list \<Rightarrow> nat list \<Rightarrow> bool" where
  "wf_items xs rs \<longleftrightarrow> rs \<noteq> [] \<and> rs ! 0 = 0 \<and> (\<forall>r \<in> set rs. r = 0 \<or> r < length xs) \<and> (xs = [] \<longrightarrow> length rs = 1) \<and>
     (\<forall>r \<in> set rs. r < length xs \<longrightarrow> fst (xs ! r) = 0) \<and>
     (\<forall>i. Suc i < length xs \<longrightarrow> extends (item_key xs i) (xs ! Suc i)) \<and> length rs \<le> Suc (length xs)"

definition last_key :: "item list \<Rightarrow> byte list" where
  "last_key xs = (if xs = [] then [] else item_key xs (length xs - 1))"

definition built :: "Options \<Rightarrow> item list \<Rightarrow> nat list \<Rightarrow> BlockBuilder \<Rightarrow> bool" where
  "built opts xs rs b \<longleftrightarrow> wf_items xs rs \<and> bb_buffer b = body xs \<and> bb_restarts b = map (\<lambda>r. of_nat (off xs r)) rs \<and>
     \<not> bb_finished b \<and> bb_last_key b = last_key xs \<and> 0 \<le> bb_counter b \<and> bb_counter b \<le> op_block_restart_interval opts \<and>
     1 \<le> op_block_restart_interval opts \<and> (xs = [] \<longrightarrow> bb_counter b = 0)"

lemma diff_index_extends: "extends a (diff_index a k, k, v)"
  by (induction a k rule: diff_index.induct) (auto simp: extends_def)

lemma off_append: "r \<le> length xs \<Longrightarrow> off (xs @ ys) r = off xs r"
  by (simp add: off_def)

lemma wf_items_snoc:
  assumes "wf_items xs rs" "extends (last_key xs) x" "rs' = rs \<or> xs \<noteq> [] \<and> rs' = rs @ [length xs] \<and> fst x = 0"
  shows "wf_items (xs @ [x]) rs'"
proof -
  have key: "item_key (xs @ [x]) i = item_key xs i" if "i < length xs" for i using that by (simp add: item_key_def nth_append)
  have "extends (item_key (xs @ [x]) i) ((xs @ [x]) ! Suc i)" if "i < length xs" for i
  proof (cases "Suc i < length xs")
    case True
    then show ?thesis using assms(1) key by (simp add: wf_items_def nth_append)
  next
    case False
    then have "length xs - 1 = i" "Suc i = length xs" "xs \<noteq> []" using that by auto
    then have "last_key xs = item_key xs i" "Suc i = length xs" by (simp_all add: last_key_def)
    then show ?thesis using assms(2) key [OF that] by (simp add: nth_append)
  qed
  moreover have "fst ((xs @ [x]) ! r) = 0" if "r \<in> set rs" for r
    using assms that by (cases "xs = []") (auto simp: wf_items_def nth_append last_key_def extends_def length_Suc_conv)
  moreover have "(rs @ qs) ! 0 = 0" for qs using assms(1) by (simp add: wf_items_def nth_append)
  ultimately show ?thesis
    using assms(1,3) by (auto simp: wf_items_def)
qed

lemma built_restarts: "wf_items xs rs \<Longrightarrow> map (\<lambda>r. of_nat (off (xs @ ys) r)) rs = (map (\<lambda>r. of_nat (off xs r)) rs :: u32 list)"
  by (auto simp: wf_items_def off_append)

lemma put_entry_bytes: "put_entry s k v buffer = buffer @ item_bytes (s, k, v)"
  by (simp add: put_entry_def item_bytes_def u32_bytes_def PutVarint32_def EncodeVarint32_leb128)

lemma new_BlockBuilder_built: "1 \<le> op_block_restart_interval opts \<Longrightarrow> \<exists>b. new_BlockBuilder opts = Some b \<and> built opts [] [0] b"
  by (simp add: new_BlockBuilder_def built_def wf_items_def last_key_def)

lemma Reset_built: "built opts xs rs b \<Longrightarrow> built opts [] [0] (BlockBuilder_Reset b)"
  by (simp add: BlockBuilder_Reset_def built_def wf_items_def last_key_def)

lemma Add_built:
  assumes "built opts xs rs b"
    and order: "xs = [] \<or> (\<exists>c. cmp_Compare (op_comparator opts) key (last_key xs) = Some c \<and> c > 0)"
  shows "\<exists>b' s rs'. BlockBuilder_Add opts key val b = Some b' \<and> built opts (xs @ [(s, key, val)]) rs' b'"
proof -
  define restart where "restart \<longleftrightarrow> \<not> bb_counter b < op_block_restart_interval opts"
  define s where "s = (if restart then 0 else diff_index (bb_last_key b) key)"
  define rs' where "rs' = (if restart then rs @ [length xs] else rs)"
  have b: "wf_items xs rs" "bb_buffer b = body xs" "bb_last_key b = last_key xs" "bb_restarts b = map (\<lambda>r. of_nat (off xs r)) rs"
    using assms(1) by (simp_all add: built_def)
  have ext: "extends (last_key xs) (s, key, val)"
    using diff_index_extends [of "last_key xs" key val] b(3) by (simp add: s_def extends_def)
  have nonempty: "restart \<Longrightarrow> xs \<noteq> []" using assms(1) by (auto simp: built_def restart_def)
  have wf: "wf_items (xs @ [(s, key, val)]) rs'"
    using wf_items_snoc [OF b(1) ext] nonempty by (auto simp: rs'_def s_def)
  have empty: "body xs = [] \<longleftrightarrow> xs = []" using item_bytes_length [of "hd xs"] by (cases xs) auto
  have key: "take s (last_key xs) @ drop s key = key" using ext by (simp add: extends_def)
  have share: "builder_share opts key b = (s, if restart then b\<lparr>bb_restarts := bb_restarts b @ [of_nat (length (body xs))], bb_counter := 0\<rparr> else b)"
    using b by (simp add: builder_share_def restart_def s_def)
  have ordered: "(if bb_buffer b = [] then Some True
      else do { c \<leftarrow> cmp_Compare (op_comparator opts) key (bb_last_key b); Some (c > 0) }) = Some True"
    using order empty b by auto
  define b' where "b' = b\<lparr>bb_restarts := (if restart then bb_restarts b @ [of_nat (length (body xs))] else bb_restarts b),
      bb_buffer := body xs @ item_bytes (s, key, val), bb_last_key := key, bb_counter := (if restart then 0 else bb_counter b) + 1\<rparr>"
  have "BlockBuilder_Add opts key val b = Some b'"
    unfolding BlockBuilder_Add_def ordered share using assms(1) key b by (simp add: Let_def put_entry_bytes built_def b'_def)
  moreover have "(if restart then bb_restarts b @ [of_nat (length (body xs))] else bb_restarts b) = map (\<lambda>r. of_nat (off (xs @ [(s, key, val)]) r)) rs'"
    using b(1,4) built_restarts [OF b(1), of "[(s, key, val)]"] by (simp add: rs'_def off_append off_all)
  then have "built opts (xs @ [(s, key, val)]) rs' b'"
    using assms(1) wf by (auto simp: built_def restart_def last_key_def item_key_def nth_append b'_def)
  ultimately show ?thesis by blast
qed

lemma Finish_built: "built opts xs rs b \<Longrightarrow> fst (BlockBuilder_Finish b) = block_data xs rs"
proof -
  have fold: "fold (\<lambda>r buffer. buffer @ EncodeFixed32 r) ws buffer = buffer @ concat (map EncodeFixed32 ws)" for ws buffer
    by (induction ws arbitrary: buffer) simp_all
  assume "built opts xs rs b"
  then show ?thesis
    by (simp add: built_def BlockBuilder_Finish_def fold block_data_def restart_bytes_def PutFixed32_def comp_def Let_def)
qed

lemma CurrentSizeEstimate_built: "built opts xs rs b \<Longrightarrow> CurrentSizeEstimate b = length (block_data xs rs)"
  by (simp add: built_def CurrentSizeEstimate_def block_data_length)

text \<open>The entries, one after the other.\<close>

primrec add_entries :: "Options \<Rightarrow> entry list \<Rightarrow> BlockBuilder \<Rightarrow> BlockBuilder option" where
  "add_entries opts [] b = Some b"
| "add_entries opts (e # es) b = do { b \<leftarrow> BlockBuilder_Add opts (fst e) (snd e) b; add_entries opts es b }"

definition build_block :: "Options \<Rightarrow> entry list \<Rightarrow> byte list option" where
  "build_block opts es = do { b \<leftarrow> new_BlockBuilder opts; b \<leftarrow> add_entries opts es b; Some (fst (BlockBuilder_Finish b)) }"

definition size_bound :: "entry list \<Rightarrow> nat" where
  "size_bound es = sum_list (map (\<lambda>e. length (fst e) + length (snd e) + 19) es) + 8"


lemma block_data_bound:
  assumes "wf_items xs rs"
  shows "length (block_data xs rs) \<le> size_bound (map snd xs)"
proof -
  have varint: "length (u32_bytes n) \<le> 5" for n
    using length_EncodeVarint32 [of "of_nat n"] by (simp add: u32_bytes_def EncodeVarint32_leb128)
  have "length (item_bytes x) \<le> length (fst (snd x)) + length (snd (snd x)) + 15" for x
    using varint [of "fst x"] varint [of "length (fst (snd x)) - fst x"] varint [of "length (snd (snd x))"]
    by (cases x) (simp add: item_bytes_def)
  then have "length (body xs) + 4 * length xs \<le> sum_list (map (\<lambda>e. length (fst e) + length (snd e) + 19) (map snd xs))"
  proof (induction xs)
    case (Cons x xs)
    from Cons.IH [OF Cons.prems] Cons.prems [of x] show ?case by simp
  qed simp
  then show ?thesis using assms by (simp add: block_data_length size_bound_def wf_items_def)
qed

lemma wf_blockI: "wf_items xs rs \<Longrightarrow> size_bound (map snd xs) < 2 ^ 32 \<Longrightarrow> wf_block xs rs"
  using block_data_bound [of xs rs] by (simp add: wf_block_def wf_items_def)

lemma new_iterator_at:
  assumes "wf_block xs rs"
  shows "\<exists>b it. new_Block (block_data xs rs) = Some b \<and> Block_NewIterator b = Some (Inr it) \<and> item_at xs rs it (length xs)"
proof -
  define n :: u32 where "n = of_nat (length rs)"
  define b where "b = \<lparr>bk_data = block_data xs rs, bk_size = length (block_data xs rs), bk_restart_offset = None\<rparr>"
  note small = wf_small [OF assms]
  have len: "length (block_data xs rs) = length (body xs) + 4 * length rs + 4" by (rule block_data_length)
  have "drop (length (block_data xs rs) - 4) (block_data xs rs) = EncodeFixed32 n @ []"
    using len by (simp add: block_data_def n_def restart_bytes_def length_concat comp_def sum_list_triv)
  then have num: "DecodeFixed32 (drop (length (block_data xs rs) - 4) (block_data xs rs)) = Some n" by (simp only: DecodeFixed32_Encode)
  have "n \<noteq> 0" "unat n = length rs" using small(3) assms unfolding n_def by (auto simp: wf_block_def)
  moreover have "unat (1 + n) = Suc (length rs)"
    using small(5) \<open>unat n = length rs\<close> by (subst unat_add_small) simp_all
  ultimately have "new_Block (block_data xs rs) = Some (b\<lparr>bk_restart_offset := Some (of_nat (length (body xs)))\<rparr>)"
    using len num by (simp add: new_Block_def NumRestarts_def b_def Let_def)
  moreover have "Block_NewIterator (b\<lparr>bk_restart_offset := Some (of_nat (length (body xs)))\<rparr>) =
      Some (Inr \<lparr>bi_data = block_data xs rs, bi_restarts = of_nat (length (body xs)), bi_num_restarts = n,
        bi_current = of_nat (length (body xs)), bi_restart_index = n, bi_key = [], bi_value = None, bi_status = OK\<rparr>)"
    using len num \<open>n \<noteq> 0\<close> by (simp add: Block_NewIterator_def NumRestarts_def b_def new_Iter_def word_neq_0_conv)
  ultimately show ?thesis by (simp add: item_at_def in_block_def off_all n_def)
qed

context comparator
begin

lemma less_compare: "valid a \<Longrightarrow> valid b \<Longrightarrow> key_less C a b \<Longrightarrow> \<exists>c. cmp_Compare C b a = Some c \<and> c > 0"
  using compare_total [of b a] compare_swap [of a b] by (fastforce simp: key_less_def sgn_if split: if_splits)

lemma add_entries_built:
  assumes "op_comparator opts = C"
  shows "built opts xs rs b \<Longrightarrow> \<forall>e \<in> set (map snd xs @ es). valid (fst e) \<Longrightarrow>
    sorted_wrt (\<lambda>a b. key_less C (fst a) (fst b)) (map snd xs @ es) \<Longrightarrow>
    \<exists>b' ys rs'. add_entries opts es b = Some b' \<and> built opts ys rs' b' \<and> map snd ys = map snd xs @ es"
proof (induction es arbitrary: xs rs b)
  case (Cons e es)
  have "\<exists>c. cmp_Compare C (fst e) (last_key xs) = Some c \<and> c > 0" if "xs \<noteq> []"
  proof -
    from that have "last_key xs = fst (last (map snd xs))" "last (map snd xs) \<in> set (map snd xs)"
      by (simp_all add: last_key_def item_key_def last_map last_conv_nth)
    then have "valid (last_key xs)" "key_less C (last_key xs) (fst e)"
      using Cons.prems(2,3) by (auto simp: sorted_wrt_append simp del: set_map)
    then show ?thesis using less_compare Cons.prems(2) by simp
  qed
  then obtain b' s rs' where "BlockBuilder_Add opts (fst e) (snd e) b = Some b'" "built opts (xs @ [(s, fst e, snd e)]) rs' b'"
    using Add_built [OF Cons.prems(1), of "fst e" "snd e"] assms by blast
  then show ?case
    using Cons.IH [of "xs @ [(s, fst e, snd e)]" rs' b'] Cons.prems by auto
qed auto

lemma build_block_wf:
  assumes "op_comparator opts = C" "1 \<le> op_block_restart_interval opts" "\<forall>e \<in> set es. valid (fst e)"
    and "sorted_wrt (\<lambda>a b. key_less C (fst a) (fst b)) es" "size_bound es < 2 ^ 32"
  shows "\<exists>xs rs. build_block opts es = Some (block_data xs rs) \<and> wf_block xs rs \<and> map snd xs = es"
proof -
  obtain b where b: "new_BlockBuilder opts = Some b" "built opts [] [0] b" using new_BlockBuilder_built [OF assms(2)] by blast
  obtain b' xs rs where b': "add_entries opts es b = Some b'" "built opts xs rs b'" "map snd xs = es"
    using add_entries_built [OF assms(1) b(2), of es] assms(3,4) by auto
  have "wf_block xs rs" using wf_blockI [of xs rs] b'(2,3) assms(5) by (simp add: built_def)
  then show ?thesis using b b' Finish_built [OF b'(2)] by (auto simp: build_block_def)
qed

end

text \<open>A block built from ascending entries opens with an iterator at no entry.\<close>

lemma build_block_at:
  assumes "comparator C valid" "op_comparator opts = C" "1 \<le> op_block_restart_interval opts" "\<forall>e \<in> set es. valid (fst e)"
    and "sorted_wrt (\<lambda>a b. key_less C (fst a) (fst b)) es" "size_bound es < 2 ^ 32"
  shows "\<exists>contents b it. build_block opts es = Some contents \<and> new_Block contents = Some b \<and>
    Block_NewIterator b = Some (Inr it) \<and> block_at C valid es it (length es)"
proof -
  obtain xs rs where x: "build_block opts es = Some (block_data xs rs)" "wf_block xs rs" "map snd xs = es"
    using comparator.build_block_wf [OF assms] by blast
  then show ?thesis using new_iterator_at [OF x(2)] assms unfolding block_at_def by (metis length_map)
qed


section \<open>Properties\<close>

text \<open>C19. Blocks refine sorted lists: for any comparator that keeps its contract, the contents that
  \<open>BlockBuilder\<close> makes from ascending entries are accepted by \<open>Block\<close>, and after any sequence of
  \<open>SeekToFirst\<close>, \<open>SeekToLast\<close>, \<open>Seek\<close>, \<open>Next\<close> and \<open>Prev\<close> that the interface allows, the iterator
  is at the entry at which a cursor into the list is (the first entry not before the target
  after a \<open>Seek\<close>), with the status \<open>OK\<close>, or not valid where the cursor is past the end. No
  operation fails an assertion or leaves the block.\<close>

theorem block_iterator_refines:
  assumes "comparator (op_comparator opts) valid" and "1 \<le> op_block_restart_interval opts" and "\<forall>e \<in> set es. valid (fst e)"
    and "sorted_wrt (\<lambda>a b. key_less (op_comparator opts) (fst a) (fst b)) es" and "size_bound es < 2 ^ 32"
    and "\<forall>m \<in> set ms. move_target_ok valid m" and "run_moves (move_pos (op_comparator opts) es) ms (length es) = Some j"
  shows "\<exists>contents b it it'. build_block opts es = Some contents \<and> new_Block contents = Some b \<and>
    Block_NewIterator b = Some (Inr it) \<and> run_moves (move_iter (BlockIter (op_comparator opts))) ms it = Some it' \<and>
    observe (BlockIter (op_comparator opts)) it' = Some (entry_at_pos es j, OK)"
proof -
  obtain contents b it where r: "build_block opts es = Some contents" "new_Block contents = Some b"
      "Block_NewIterator b = Some (Inr it)" "block_at (op_comparator opts) valid es it (length es)"
    using build_block_at [OF assms(1) refl assms(2-5)] by blast
  then show ?thesis
    using block_iter.run_moves_at [OF r(4) assms(6,7)] block_iter.observe_at by blast
qed

definition sample_entries :: "entry list" where
  "sample_entries = [([97], [1]), ([97, 98], [2, 3]), ([97, 99], []), ([98], [4])]"

theorem block_iterator_refines_witness:
  "\<exists>contents b it it'. build_block (new_Options\<lparr>op_block_restart_interval := 2\<rparr>) sample_entries = Some contents \<and>
    new_Block contents = Some b \<and> Block_NewIterator b = Some (Inr it) \<and>
    run_moves (move_iter (BlockIter BytewiseComparator)) [To [97, 98, 0], Backward] it = Some it' \<and>
    observe (BlockIter BytewiseComparator) it' = Some (Some ([97, 98], [2, 3]), OK)"
proof -
  have less: "key_less BytewiseComparator a b \<longleftrightarrow> (case slice_compare a b of None \<Rightarrow> False | Some r \<Rightarrow> r < 0)" for a b
    by (simp add: key_less_def BytewiseComparator_def bytewise_Compare_def split: option.split)
  have sorted: "sorted_wrt (\<lambda>a b. key_less BytewiseComparator (fst a) (fst b)) sample_entries"
    unfolding sample_entries_def less by code_simp
  have pos: "run_moves (move_pos BytewiseComparator sample_entries) [To [97, 98, 0], Backward] (length sample_entries) = Some 1"
    unfolding sample_entries_def by (simp add: lower_bound_def less slice_compare_def prev_pos_def)
  show ?thesis
    using block_iterator_refines [of "new_Options\<lparr>op_block_restart_interval := 2\<rparr>" "\<lambda>_. True" sample_entries "[To [97, 98, 0], Backward]" 1]
      bytewise.comparator_axioms sorted pos
    by (simp add: new_Options_def size_bound_def entry_at_pos_def) (simp add: sample_entries_def)
qed

text \<open>Contents that no builder makes: the lengths of the key delta and of the value are added in 32
  bits, so that this entry passes the check in \<open>DecodeEntry\<close> although its value would end
  4 GB behind the block. The iterator is valid and reports no error.\<close>

definition damaged_block :: "byte list" where
  "damaged_block = [0, 1, 0xFF, 0xFF, 0xFF, 0xFF, 0x0F, 97] @ EncodeFixed32 0 @ EncodeFixed32 1"

lemma damaged_entry: "DecodeEntry [0, 1, 0xFF, 0xFF, 0xFF, 0xFF, 0x0F, 97] = Some (0, 1, 0xFFFFFFFF, [97])"
proof -
  have "\<not> (1 :: u32) < 4294967296" by code_simp
  then show ?thesis by (simp add: DecodeEntry_varints GetVarint32Ptr_def GetVarint32PtrFallback_def)
qed

lemma block_value_outside:
  "\<exists>b it it'. new_Block damaged_block = Some b \<and> Block_NewIterator b = Some (Inr it) \<and> Iter_SeekToFirst it = Some it' \<and>
    Iter_Valid it' \<and> bi_status it' = OK \<and> bi_value it' = Some (8, 0xFFFFFFFF) \<and> Iter_value it' = None"
proof -
  define it where "it = \<lparr>bi_data = damaged_block, bi_restarts = 8, bi_num_restarts = 1, bi_current = 8,
    bi_restart_index = 1, bi_key = [], bi_value = None, bi_status = OK\<rparr>"
  have words: "EncodeFixed32 0 = [0, 0, 0, 0]" "EncodeFixed32 1 = [1, 0, 0, 0]" by code_simp+
  then have fixed: "DecodeFixed32 [0, 0, 0, 0, 1, 0, 0, 0] = Some 0" "DecodeFixed32 [1, 0, 0, 0] = Some 1"
    using DecodeFixed32_Encode [of 0 "[1, 0, 0, 0]"] DecodeFixed32_Encode [of 1 "[]"] by simp_all
  define b where "b = \<lparr>bk_data = damaged_block, bk_size = 16, bk_restart_offset = Some 8\<rparr>"
  have "new_Block damaged_block = Some b" "Block_NewIterator b = Some (Inr it)"
    using fixed by (simp_all add: new_Block_def damaged_block_def words NumRestarts_def b_def Block_NewIterator_def new_Iter_def it_def Let_def)
  moreover have "Iter_SeekToFirst it = Some (it\<lparr>bi_key := [97], bi_restart_index := 0, bi_current := 0, bi_value := Some (8, 0xFFFFFFFF)\<rparr>)"
    using fixed damaged_entry
    by (simp add: Iter_SeekToFirst_def SeekToRestartPoint_def GetRestartPoint_def it_def damaged_block_def words ParseNextKey_def
        NextEntryOffset_def read_bytes_def advance_restart.simps Let_def)
  ultimately show ?thesis by (simp add: it_def damaged_block_def words Iter_Valid_def Iter_value_def read_bytes_def)
qed

end
