(* ===== verification/Ldb_Table_Builder.thy ===== *)
theory Ldb_Table_Builder
  imports Ldb_Format Ldb_Block_Correct Ldb_Filter_Block
begin

text \<open>
  The builder of table files, \<open>table/table_builder.cc\<close>, over any writable file. A failing
  assertion is \<open>None\<close>. The builders for data and index blocks read the options of the table
  builder, which are passed to them. A pointer to a block builder is a value that is given
  back; the filter block builder comes with the policy it was made for.
\<close>

section \<open>The builder\<close>

record 'f TableBuilder =
  tb_options :: Options
  tb_index_block_options :: Options
  tb_file :: 'f
  tb_offset :: u64
  tb_status :: Status
  tb_data_block :: BlockBuilder
  tb_index_block :: BlockBuilder
  tb_last_key :: "byte list"
  tb_num_entries :: int
  tb_closed :: bool
  tb_filter_block :: "(FilterPolicy \<times> FilterBlockBuilder) option"
  tb_pending_index_entry :: bool
  tb_pending_handle :: BlockHandle
  tb_compressed_output :: "byte list"

abbreviation tb_ok :: "'f TableBuilder \<Rightarrow> bool" where
  "tb_ok r \<equiv> ok (tb_status r)"

definition new_TableBuilder :: "Options \<Rightarrow> 'f \<Rightarrow> 'f TableBuilder option" where
  "new_TableBuilder options file = do {
     data_block \<leftarrow> new_BlockBuilder options;
     index_block \<leftarrow> new_BlockBuilder options;
     filter_block \<leftarrow> (case op_filter_policy options of None \<Rightarrow> Some None
       | Some P \<Rightarrow> do { b \<leftarrow> StartBlock P 0 new_FilterBlockBuilder; Some (Some (P, b)) });
     Some \<lparr>tb_options = options, tb_index_block_options = options\<lparr>op_block_restart_interval := 1\<rparr>,
       tb_file = file, tb_offset = 0, tb_status = OK, tb_data_block = data_block, tb_index_block = index_block,
       tb_last_key = [], tb_num_entries = 0, tb_closed = False, tb_filter_block = filter_block,
       tb_pending_index_entry = False, tb_pending_handle = new_BlockHandle, tb_compressed_output = []\<rparr> }"

text \<open>The destructor only checks that \<open>Finish\<close> or \<open>Abandon\<close> has been called.\<close>

definition delete_TableBuilder :: "'f TableBuilder \<Rightarrow> 'f option" where
  "delete_TableBuilder r = (if tb_closed r then Some (tb_file r) else None)"

text \<open>The source compares pointers to comparators; two objects that behave alike are the same here.\<close>

definition ChangeOptions :: "Options \<Rightarrow> 'f TableBuilder \<Rightarrow> Status \<times> 'f TableBuilder" where
  "ChangeOptions options r = (if op_comparator options \<noteq> op_comparator (tb_options r)
     then (InvalidArgument (ascii ''changing comparator while building table''), r)
     else (OK, r\<lparr>tb_options := options, tb_index_block_options := options\<lparr>op_block_restart_interval := 1\<rparr>\<rparr>))"

definition WriteRawBlock :: "'f WritableFile \<Rightarrow> byte list \<Rightarrow> CompressionType \<Rightarrow> 'f TableBuilder \<Rightarrow>
    (BlockHandle \<times> 'f TableBuilder) option" where
  "WriteRawBlock F block_contents type r = do {
     let handle = \<lparr>bh_offset = tb_offset r, bh_size = of_nat (length block_contents)\<rparr>;
     (s, f) \<leftarrow> wf_Append F block_contents (tb_file r);
     let r = r\<lparr>tb_status := s, tb_file := f\<rparr>;
     if tb_ok r then do {
       crc \<leftarrow> Value 0 block_contents;
       crc \<leftarrow> Extend 0 crc [CompressionType_num type];
       let trailer = CompressionType_num type # EncodeFixed32 (Mask crc);
       (s, f) \<leftarrow> wf_Append F trailer (tb_file r);
       let r = r\<lparr>tb_status := s, tb_file := f\<rparr>;
       Some (handle, if tb_ok r
         then r\<lparr>tb_offset := tb_offset r + of_nat (length block_contents + kBlockTrailerSize)\<rparr> else r) }
     else Some (handle, r) }"

text \<open>The switch over the compression.\<close>

definition compress :: "byte list \<Rightarrow> 'f TableBuilder \<Rightarrow> byte list \<times> CompressionType \<times> 'f TableBuilder" where
  "compress raw r = (case op_compression (tb_options r) of
     kNoCompression \<Rightarrow> (raw, kNoCompression, r)
   | kSnappyCompression \<Rightarrow> (case Snappy_Compress raw of
       Some compressed \<Rightarrow> (let r = r\<lparr>tb_compressed_output := compressed\<rparr> in
         if length compressed < length raw - length raw div 8 then (compressed, kSnappyCompression, r)
         else (raw, kNoCompression, r))
     | None \<Rightarrow> (raw, kNoCompression, r)))"

definition WriteBlock :: "'f WritableFile \<Rightarrow> BlockBuilder \<Rightarrow> 'f TableBuilder \<Rightarrow>
    (BlockHandle \<times> BlockBuilder \<times> 'f TableBuilder) option" where
  "WriteBlock F block r = (if \<not> tb_ok r then None
     else case BlockBuilder_Finish block of (raw, block) \<Rightarrow>
       case compress raw r of (block_contents, type, r) \<Rightarrow> do {
         (handle, r) \<leftarrow> WriteRawBlock F block_contents type r;
         Some (handle, BlockBuilder_Reset block, r\<lparr>tb_compressed_output := []\<rparr>) })"

definition filter_start :: "u64 \<Rightarrow> 'f TableBuilder \<Rightarrow> 'f TableBuilder option" where
  "filter_start offset r = (case tb_filter_block r of None \<Rightarrow> Some r
     | Some (P, b) \<Rightarrow> do { b \<leftarrow> StartBlock P offset b; Some (r\<lparr>tb_filter_block := Some (P, b)\<rparr>) })"

definition TableBuilder_Flush :: "'f WritableFile \<Rightarrow> 'f TableBuilder \<Rightarrow> 'f TableBuilder option" where
  "TableBuilder_Flush F r = (if tb_closed r then None
     else if \<not> tb_ok r then Some r
     else if BlockBuilder_empty (tb_data_block r) then Some r
     else if tb_pending_index_entry r then None
     else do {
       (handle, block, r) \<leftarrow> WriteBlock F (tb_data_block r) r;
       let r = r\<lparr>tb_data_block := block, tb_pending_handle := handle\<rparr>;
       r \<leftarrow> (if tb_ok r then do {
           (s, f) \<leftarrow> wf_Flush F (tb_file r);
           Some (r\<lparr>tb_pending_index_entry := True, tb_status := s, tb_file := f\<rparr>) }
         else Some r);
       filter_start (tb_offset r) r })"

text \<open>The index entry of the block before, with the key \<open>last_key\<close>.\<close>

definition add_index_entry :: "'f TableBuilder \<Rightarrow> 'f TableBuilder option" where
  "add_index_entry r = do {
     handle_encoding \<leftarrow> BlockHandle_EncodeTo (tb_pending_handle r) [];
     b \<leftarrow> BlockBuilder_Add (tb_index_block_options r) (tb_last_key r) handle_encoding (tb_index_block r);
     Some (r\<lparr>tb_index_block := b, tb_pending_index_entry := False\<rparr>) }"

definition TableBuilder_Add :: "'f WritableFile \<Rightarrow> byte list \<Rightarrow> byte list \<Rightarrow> 'f TableBuilder \<Rightarrow> 'f TableBuilder option" where
  "TableBuilder_Add F key val r = (if tb_closed r then None
     else if \<not> tb_ok r then Some r
     else do {
       ordered \<leftarrow> (if tb_num_entries r > 0
         then do { c \<leftarrow> cmp_Compare (op_comparator (tb_options r)) key (tb_last_key r); Some (c > 0) } else Some True);
       if \<not> ordered then None
       else do {
         r \<leftarrow> (if tb_pending_index_entry r then
             (if BlockBuilder_empty (tb_data_block r) then do {
                last_key \<leftarrow> cmp_FindShortestSeparator (op_comparator (tb_options r)) (tb_last_key r) key;
                add_index_entry (r\<lparr>tb_last_key := last_key\<rparr>) } else None)
           else Some r);
         let r = (case tb_filter_block r of None \<Rightarrow> r
           | Some (P, b) \<Rightarrow> r\<lparr>tb_filter_block := Some (P, AddKey key b)\<rparr>);
         let r = r\<lparr>tb_last_key := key, tb_num_entries := tb_num_entries r + 1\<rparr>;
         b \<leftarrow> BlockBuilder_Add (tb_options r) key val (tb_data_block r);
         let r = r\<lparr>tb_data_block := b\<rparr>;
         if CurrentSizeEstimate b \<ge> op_block_size (tb_options r) then TableBuilder_Flush F r else Some r } })"

text \<open>The parts of \<open>Finish\<close>: each is skipped after an error.\<close>

definition write_filter :: "'f WritableFile \<Rightarrow> 'f TableBuilder \<Rightarrow> (BlockHandle \<times> 'f TableBuilder) option" where
  "write_filter F r = (case tb_filter_block r of
     Some (P, b) \<Rightarrow> if tb_ok r then do {
         b \<leftarrow> Finish P b;
         WriteRawBlock F (fb_result b) kNoCompression (r\<lparr>tb_filter_block := Some (P, b)\<rparr>) }
       else Some (new_BlockHandle, r)
   | None \<Rightarrow> Some (new_BlockHandle, r))"

definition write_metaindex :: "'f WritableFile \<Rightarrow> BlockHandle \<Rightarrow> 'f TableBuilder \<Rightarrow> (BlockHandle \<times> 'f TableBuilder) option" where
  "write_metaindex F filter_block_handle r = (if tb_ok r then do {
     b \<leftarrow> new_BlockBuilder (tb_options r);
     b \<leftarrow> (if tb_filter_block r \<noteq> None then do {
         P \<leftarrow> op_filter_policy (tb_options r);
         handle_encoding \<leftarrow> BlockHandle_EncodeTo filter_block_handle [];
         BlockBuilder_Add (tb_options r) (ascii (''filter.'' @ fp_Name P)) handle_encoding b }
       else Some b);
     (handle, _, r) \<leftarrow> WriteBlock F b r;
     Some (handle, r) }
   else Some (new_BlockHandle, r))"

definition write_index :: "'f WritableFile \<Rightarrow> 'f TableBuilder \<Rightarrow> (BlockHandle \<times> 'f TableBuilder) option" where
  "write_index F r = (if tb_ok r then do {
     r \<leftarrow> (if tb_pending_index_entry r then do {
         last_key \<leftarrow> cmp_FindShortSuccessor (op_comparator (tb_options r)) (tb_last_key r);
         add_index_entry (r\<lparr>tb_last_key := last_key\<rparr>) }
       else Some r);
     (handle, b, r) \<leftarrow> WriteBlock F (tb_index_block r) r;
     Some (handle, r\<lparr>tb_index_block := b\<rparr>) }
   else Some (new_BlockHandle, r))"

definition write_footer :: "'f WritableFile \<Rightarrow> BlockHandle \<Rightarrow> BlockHandle \<Rightarrow> 'f TableBuilder \<Rightarrow> 'f TableBuilder option" where
  "write_footer F metaindex_block_handle index_block_handle r = (if tb_ok r then do {
     footer_encoding \<leftarrow> Footer_EncodeTo \<lparr>ft_metaindex_handle = metaindex_block_handle, ft_index_handle = index_block_handle\<rparr> [];
     (s, f) \<leftarrow> wf_Append F footer_encoding (tb_file r);
     let r = r\<lparr>tb_status := s, tb_file := f\<rparr>;
     Some (if tb_ok r then r\<lparr>tb_offset := tb_offset r + of_nat (length footer_encoding)\<rparr> else r) }
   else Some r)"

definition TableBuilder_Finish :: "'f WritableFile \<Rightarrow> 'f TableBuilder \<Rightarrow> (Status \<times> 'f TableBuilder) option" where
  "TableBuilder_Finish F r = do {
     r \<leftarrow> TableBuilder_Flush F r;
     if tb_closed r then None
     else do {
       (filter_block_handle, r) \<leftarrow> write_filter F (r\<lparr>tb_closed := True\<rparr>);
       (metaindex_block_handle, r) \<leftarrow> write_metaindex F filter_block_handle r;
       (index_block_handle, r) \<leftarrow> write_index F r;
       r \<leftarrow> write_footer F metaindex_block_handle index_block_handle r;
       Some (tb_status r, r) } }"

definition Abandon :: "'f TableBuilder \<Rightarrow> 'f TableBuilder option" where
  "Abandon r = (if tb_closed r then None else Some (r\<lparr>tb_closed := True\<rparr>))"

definition NumEntries :: "'f TableBuilder \<Rightarrow> u64" where
  "NumEntries r = of_int (tb_num_entries r)"

definition FileSize :: "'f TableBuilder \<Rightarrow> u64" where
  "FileSize r = tb_offset r"

text \<open>The entries, one after the other.\<close>

primrec table_entries :: "'f WritableFile \<Rightarrow> entry list \<Rightarrow> 'f TableBuilder \<Rightarrow> 'f TableBuilder option" where
  "table_entries F [] r = Some r"
| "table_entries F (e # es) r = do { r \<leftarrow> TableBuilder_Add F (fst e) (snd e) r; table_entries F es r }"

definition build_table :: "'f WritableFile \<Rightarrow> Options \<Rightarrow> entry list \<Rightarrow> 'f \<Rightarrow> (Status \<times> 'f TableBuilder) option" where
  "build_table F options es f = do {
     r \<leftarrow> new_TableBuilder options f;
     r \<leftarrow> table_entries F es r;
     TableBuilder_Finish F r }"

end
