(* ===== verification/Ldb_Table_Build.thy ===== *)
theory Ldb_Table_Build
  imports Ldb_Table_Builder
begin

text \<open>
  What the table builder writes. The state of the builder is related to the blocks that are
  in the file, the entries of the block being filled, the keys of the index and the groups of
  keys of the filters. Every operation keeps the relation or ends with an error status; a
  file that reports no errors gets a complete table.
\<close>

section \<open>The filter builder between two blocks\<close>

text \<open>The keys of the blocks are in the filters or wait for the one at the offset.\<close>

definition filtering :: "FilterPolicy \<Rightarrow> (u64 \<times> byte list list) list \<Rightarrow> u64 \<Rightarrow> FilterBlockBuilder \<Rightarrow> bool" where
  "filtering P blocks ofs b \<longleftrightarrow> (\<exists>dn pd. builds P b (dn, pd) \<and> covers blocks (dn, pd) \<and> length dn = filter_index ofs)"

lemma filtering_add:
  assumes "filtering P (blocks @ [(ofs, ks)]) ofs b"
  shows "filtering P (blocks @ [(ofs, ks @ [k])]) ofs (AddKey k b)"
proof -
  obtain dn pd where s: "builds P b (dn, pd)" "covers (blocks @ [(ofs, ks)]) (dn, pd)" "length dn = filter_index ofs"
    using assms by (auto simp: filtering_def)
  have "builds P (AddKey k b) (dn, pd @ [k])" using AddKey_builds [OF s(1), of k] by simp
  moreover have "covers (blocks @ [(ofs, ks @ [k])]) (dn, pd @ [k])" using s(2,3) by fastforce
  ultimately show ?thesis using s(3) unfolding filtering_def by blast
qed

context filter_policy
begin

lemma fits_concat: "fits (concat gs) \<Longrightarrow> g \<in> set gs \<Longrightarrow> fits g"
  using fits_part by (metis concat.simps(2) concat_append split_list)

lemma filtering_start:
  assumes "filtering P blocks ofs b" "fits (concat (map snd blocks))" "filter_index ofs \<le> filter_index ofs'"
  shows "\<exists>b'. StartBlock P ofs' b = Some b' \<and> filtering P (blocks @ [(ofs', [])]) ofs' b'"
proof -
  obtain dn pd where s: "builds P b (dn, pd)" "covers blocks (dn, pd)" "length dn = filter_index ofs"
    using assms(1) by (auto simp: filtering_def)
  have "concat dn @ pd @ [] = concat (map snd blocks)" using s(2) by simp
  then have "fits pd" using fits_part assms(2) by metis
  obtain dn' pd' where t: "spec_StartBlock (filter_index ofs') (dn, pd) = (dn', pd')" by fastforce
  obtain b' where b': "generate_until P (filter_index ofs') b = Some b'" "builds P b' (dn', pd')"
    using generate_until_builds [OF s(1) \<open>fits pd\<close>] t by metis
  have "covers (blocks @ [(ofs', [])]) (dn', pd' @ []) \<and> length dn' = filter_index ofs'"
    using covers_step [OF s(2) _ t, of "[]"] s(3) assms(3) by (simp del: covers.simps)
  moreover have "length (fb_filter_offsets b) = length dn" using s(1) by simp
  ultimately show ?thesis using b' s(3) assms(3) unfolding filtering_def StartBlock_def by (auto simp: Let_def simp del: covers.simps)
qed

lemma filtering_new: "fits [] \<Longrightarrow> \<exists>b. StartBlock P 0 new_FilterBlockBuilder = Some b \<and> filtering P [(0, [])] 0 b"
  using filtering_start [of "[]" 0 new_FilterBlockBuilder 0] by (simp add: filtering_def new_FilterBlockBuilder_def)

lemma filtering_finish:
  assumes "filtering P blocks ofs b" "fits (concat (map snd blocks))"
  shows "\<exists>b' gs. Finish P b = Some b' \<and> fb_result b' = filter_contents (map (filter_of P) gs) \<and>
    concat gs = concat (map snd blocks) \<and> length gs \<le> Suc (filter_index ofs) \<and>
    (\<forall>(o', ks) \<in> set blocks. \<forall>k \<in> set ks. filter_index o' < length gs \<and> k \<in> set (gs ! filter_index o'))"
proof -
  obtain dn pd where s: "builds P b (dn, pd)" "covers blocks (dn, pd)" "length dn = filter_index ofs"
    using assms(1) by (auto simp: filtering_def)
  have "concat dn @ pd @ [] = concat (map snd blocks)" using s(2) by simp
  then have "fits pd" using fits_part assms(2) by metis
  let ?gs = "spec_Finish (dn, pd)"
  obtain b' where "Finish P b = Some b'" "fb_result b' = filter_contents (map (filter_of P) ?gs)"
    using Finish_builds [OF s(1) \<open>fits pd\<close>] by (auto simp: filter_contents_def Let_def)
  moreover have "concat ?gs = concat (map snd blocks)" "length ?gs \<le> Suc (filter_index ofs)" using s(2,3) by auto
  moreover have "\<forall>(o', ks) \<in> set blocks. \<forall>k \<in> set ks. filter_index o' < length ?gs \<and> k \<in> set (?gs ! filter_index o')"
    using s(2) by (fastforce simp: nth_append)
  ultimately show ?thesis by blast
qed

end

context sized_filter_policy
begin

lemma encoded_starts: "length (concat (map (EncodeFixed32 \<circ> of_nat) ns)) = 4 * length ns"
  by (induction ns) simp_all

lemma filter_of_length: "fits g \<Longrightarrow> length (filter_of P g) \<le> 2 * w * length g"
proof (cases g)
  case (Cons k ks)
  assume "fits g"
  then obtain f where f: "fp_CreateFilter P g [] = Some f" using create_appends by fastforce
  then have "length (filter_of P g) \<le> w * Suc (length g)" using create_length [OF \<open>fits g\<close> f] Cons by (simp add: filter_of_def)
  also have "\<dots> \<le> w * (2 * length g)" using Cons by (intro mult_le_mono) simp_all
  finally show ?thesis by (simp add: mult.assoc mult.left_commute)
qed (simp add: filter_of_def)

lemma filter_contents_length:
  assumes "fits (concat gs)"
  shows "length (filter_contents (map (filter_of P) gs)) \<le> 2 * w * length (concat gs) + 4 * length gs + 5"
proof -
  have "length (concat (map (filter_of P) gs)) \<le> 2 * w * length (concat gs)"
    using fits_concat [OF assms] filter_of_length by (induction gs) (fastforce simp: add_mult_distrib2)+
  then show ?thesis by (simp add: filter_contents_def encoded_starts)
qed

text \<open>The reader gives an answer for every key, and the right one for the keys of a block.\<close>

lemma filter_answers:
  assumes "fits (concat gs)" "length (filter_contents (map (filter_of P) gs)) < 2 ^ 32"
    and "filter_index o' < length gs" "gs ! filter_index o' \<noteq> []"
  shows "\<exists>r. new_FilterBlockReader (filter_contents (map (filter_of P) gs)) = Some r \<and>
    (\<forall>key. valid key \<longrightarrow> (\<exists>b. reader_KeyMayMatch P r o' key = Some b \<and> (key \<in> set (gs ! filter_index o') \<longrightarrow> b)))"
proof -
  let ?fs = "map (filter_of P) gs" and ?g = "gs ! filter_index o'"
  have small: "length (concat ?fs) < 2 ^ 32" using assms(2) by (simp add: filter_contents_def)
  obtain r where r: "new_FilterBlockReader (filter_contents ?fs) = Some r" using new_reader_contents [OF small] by blast
  have "fits ?g" using fits_concat assms(1,3) by simp
  then obtain f where f: "fp_CreateFilter P ?g [] = Some f" using create_appends by fastforce
  have "filter_of P ?g = f" using f assms(4) by (simp add: filter_of_def)
  moreover have "length f < 2 ^ 32"
    using small concat_take_mono [of "Suc (filter_index o')" "length ?fs" ?fs] assms(3) calculation
    by (simp add: take_Suc_conv_app_nth del: length_concat)
  ultimately show ?thesis
    using r reader_contents [OF refl _ small r, of o' P] assms(3) match_total [OF _ \<open>fits ?g\<close> f] create_matches [OF \<open>fits ?g\<close> f]
    by (metis length_map nth_map option.inject)
qed

end


section \<open>The blocks in the file\<close>

type_synonym built_block = "item list \<times> nat list"

definition block_es :: "built_block \<Rightarrow> entry list" where
  "block_es b = map snd (fst b)"

definition data_bytes :: "built_block \<Rightarrow> byte list" where
  "data_bytes b = block_data (fst b) (snd b)"

definition blocks_image :: "built_block list \<Rightarrow> byte list" where
  "blocks_image bs = concat (map (\<lambda>b. block_image (data_bytes b) kNoCompression) bs)"

definition handle_of :: "built_block list \<Rightarrow> nat \<Rightarrow> BlockHandle" where
  "handle_of bs i = \<lparr>bh_offset = of_nat (length (blocks_image (take i bs))), bh_size = of_nat (length (data_bytes (bs ! i)))\<rparr>"

definition table_es :: "built_block list \<Rightarrow> entry list" where
  "table_es bs = concat (map block_es bs)"

definition index_entries :: "byte list list \<Rightarrow> built_block list \<Rightarrow> entry list" where
  "index_entries seps bs = map (\<lambda>i. (seps ! i, handle_bytes (handle_of bs i))) [0..<length seps]"

definition filter_blocks :: "built_block list \<Rightarrow> (u64 \<times> byte list list) list" where
  "filter_blocks bs = map (\<lambda>i. (bh_offset (handle_of bs i), map fst (block_es (bs ! i)))) [0..<length bs]"

definition wf_built :: "built_block \<Rightarrow> bool" where
  "wf_built b \<longleftrightarrow> wf_items (fst b) (snd b) \<and> fst b \<noteq> []"

definition data_bound :: "entry list \<Rightarrow> nat" where
  "data_bound es = sum_list (map (\<lambda>e. length (fst e) + length (snd e) + 32) es)"

lemma blocks_image_simps [simp]: "blocks_image [] = []"
  "blocks_image (bs @ cs) = blocks_image bs @ blocks_image cs" "blocks_image [b] = block_image (data_bytes b) kNoCompression"
  by (simp_all add: blocks_image_def)

lemma table_es_simps [simp]: "table_es [] = []" "table_es (bs @ cs) = table_es bs @ table_es cs" "table_es [b] = block_es b"
  "block_es ([], rs) = []"
  by (simp_all add: table_es_def block_es_def)

lemma data_bound_append [simp]: "data_bound (xs @ ys) = data_bound xs + data_bound ys"
  by (simp add: data_bound_def)

lemma handle_of_append: "i < length bs \<Longrightarrow> handle_of (bs @ cs) i = handle_of bs i"
  by (simp add: handle_of_def nth_append)

lemma index_entries_append: "length seps \<le> length bs \<Longrightarrow> index_entries seps (bs @ cs) = index_entries seps bs"
  by (simp add: index_entries_def handle_of_append)

lemma index_entries_snoc: "index_entries (seps @ [s]) bs = index_entries seps bs @ [(s, handle_bytes (handle_of bs (length seps)))]"
  by (simp add: index_entries_def nth_append)

lemma filter_blocks_snoc:
  "filter_blocks (bs @ [b]) = filter_blocks bs @ [(of_nat (length (blocks_image bs)), map fst (block_es b))]"
  by (simp add: filter_blocks_def handle_of_append nth_append) (simp add: handle_of_def)

lemma filter_blocks_keys: "concat (map snd (filter_blocks bs)) = map fst (table_es bs)"
  by (induction bs rule: rev_induct) (simp_all add: filter_blocks_snoc, simp add: filter_blocks_def)

lemma blocks_image_bound: "\<forall>b \<in> set bs. wf_built b \<Longrightarrow> length (blocks_image bs) \<le> data_bound (table_es bs)"
proof (induction bs)
  case (Cons b bs)
  have "length (data_bytes b) \<le> size_bound (block_es b)"
    using block_data_bound Cons.prems by (simp add: wf_built_def data_bytes_def block_es_def)
  also have "\<dots> + 5 \<le> data_bound (block_es b)"
    using Cons.prems by (cases "fst b") (auto simp: wf_built_def size_bound_def data_bound_def block_es_def intro!: sum_list_mono)
  finally show ?case
    using Cons.IH Cons.prems table_es_simps(2) [of "[b]" bs] blocks_image_simps(2) [of "[b]" bs]
    by (simp add: block_image_length kBlockTrailerSize_def)
qed simp

lemma filter_index_of_nat: "n < 2 ^ 64 \<Longrightarrow> filter_index (of_nat n) = n div 2048"
  by (simp add: unat_div unat_of_nat_small kFilterBase_def kFilterBaseLg_def push_bit_eq_mult)

section \<open>What is asked of the entries\<close>

definition policy_name :: "Options \<Rightarrow> string" where
  "policy_name opts = (case op_filter_policy opts of None \<Rightarrow> [] | Some P \<Rightarrow> fp_Name P)"

text \<open>A bound for the size of the table.\<close>

definition table_bound :: "nat \<Rightarrow> Options \<Rightarrow> entry list \<Rightarrow> nat" where
  "table_bound w opts es = sum_list (map (\<lambda>e. 3 * length (fst e) + 2 * length (snd e) + 2 * w + 150) es) +
     length (policy_name opts) + 300"

definition policy_ok :: "Options \<Rightarrow> (byte list \<Rightarrow> bool) \<Rightarrow> (byte list list \<Rightarrow> bool) \<Rightarrow> nat \<Rightarrow> byte list list \<Rightarrow> bool" where
  "policy_ok opts valid fits w keys \<longleftrightarrow> (case op_filter_policy opts of None \<Rightarrow> True
     | Some P \<Rightarrow> sized_filter_policy P fits valid w \<and> fits keys)"

definition entries_ok :: "Options \<Rightarrow> (byte list \<Rightarrow> bool) \<Rightarrow> (byte list list \<Rightarrow> bool) \<Rightarrow> nat \<Rightarrow> entry list \<Rightarrow> bool" where
  "entries_ok opts valid fits w es \<longleftrightarrow> short_comparator (op_comparator opts) valid \<and> 1 \<le> op_block_restart_interval opts \<and>
     (\<forall>e \<in> set es. valid (fst e)) \<and> sorted_wrt (\<lambda>a b. key_less (op_comparator opts) (fst a) (fst b)) es \<and>
     policy_ok opts valid fits w (map fst es) \<and> table_bound w opts es < 2 ^ 32"

lemma policy_ok_prefix: "policy_ok opts valid fits w (ks @ ls) \<Longrightarrow> policy_ok opts valid fits w ks"
  using filter_policy.fits_part [of _ fits "[]" ks ls]
  by (auto simp: policy_ok_def sized_filter_policy_def split: option.splits)

lemma entries_ok_prefix: "entries_ok opts valid fits w (es @ fs) \<Longrightarrow> entries_ok opts valid fits w es"
  using policy_ok_prefix [of opts valid fits w "map fst es" "map fst fs"]
  by (simp add: entries_ok_def sorted_wrt_append table_bound_def)

lemma data_bound_le: "data_bound es \<le> table_bound w opts es"
  by (induction es) (simp_all add: data_bound_def table_bound_def)

section \<open>The state of the builder\<close>

text \<open>The keys of the index lie between the blocks.\<close>

definition separated :: "Comparator \<Rightarrow> (byte list \<Rightarrow> bool) \<Rightarrow> byte list list \<Rightarrow> built_block list \<Rightarrow> entry list \<Rightarrow> bool" where
  "separated C valid seps bs es \<longleftrightarrow> (\<forall>i < length seps. valid (seps ! i) \<and>
     length (seps ! i) \<le> length (fst (last (block_es (bs ! i)))) \<and>
     (\<forall>e \<in> set (block_es (bs ! i)). key_le C (fst e) (seps ! i)) \<and>
     (\<forall>e \<in> set (table_es (drop (Suc i) bs) @ es). key_less C (seps ! i) (fst e)))"

abbreviation index_options :: "Options \<Rightarrow> Options" where
  "index_options opts \<equiv> opts\<lparr>op_block_restart_interval := 1\<rparr>"

definition filter_state :: "Options \<Rightarrow> (u64 \<times> byte list list) list \<Rightarrow> 'f TableBuilder \<Rightarrow> bool" where
  "filter_state opts blocks r \<longleftrightarrow> (case tb_filter_block r of None \<Rightarrow> op_filter_policy opts = None
     | Some (P, b) \<Rightarrow> op_filter_policy opts = Some P \<and> filtering P blocks (tb_offset r) b)"

definition building_core :: "Options \<Rightarrow> (byte list \<Rightarrow> bool) \<Rightarrow> built_block list \<Rightarrow> byte list list \<Rightarrow> built_block \<Rightarrow> entry list \<Rightarrow>
    'f TableBuilder \<Rightarrow> bool" where
  "building_core opts valid bs seps cur es r \<longleftrightarrow>
     tb_options r = opts \<and> tb_index_block_options r = index_options opts \<and> tb_status r = OK \<and> \<not> tb_closed r \<and>
     tb_num_entries r = int (length (table_es bs @ block_es cur)) \<and>
     tb_offset r = of_nat (length (blocks_image bs)) \<and>
     built opts (fst cur) (snd cur) (tb_data_block r) \<and> (\<forall>b \<in> set bs. wf_built b) \<and>
     (\<exists>xs rs. built (index_options opts) xs rs (tb_index_block r) \<and> map snd xs = index_entries seps bs) \<and>
     separated (op_comparator opts) valid seps bs es \<and>
     filter_state opts (filter_blocks bs @ [(tb_offset r, map fst (block_es cur))]) r"

text \<open>The block being filled is empty when there is a pending index entry, and otherwise only
  before the first entry.\<close>

definition building :: "Options \<Rightarrow> (byte list \<Rightarrow> bool) \<Rightarrow> built_block list \<Rightarrow> byte list list \<Rightarrow> built_block \<Rightarrow> 'f TableBuilder \<Rightarrow> bool" where
  "building opts valid bs seps cur r \<longleftrightarrow> building_core opts valid bs seps cur (block_es cur) r \<and>
     (table_es bs @ block_es cur \<noteq> [] \<longrightarrow> tb_last_key r = fst (last (table_es bs @ block_es cur))) \<and>
     (if tb_pending_index_entry r
      then fst cur = [] \<and> length bs = Suc (length seps) \<and> tb_pending_handle r = handle_of bs (length seps)
      else length bs = length seps \<and> (fst cur = [] \<longrightarrow> bs = []))"

section \<open>The operations\<close>

lemma ok_iff [simp]: "ok s \<longleftrightarrow> s = OK"
  by (simp add: ok_def)

definition wrote :: "nat \<Rightarrow> Status \<Rightarrow> 'f \<Rightarrow> 'f TableBuilder \<Rightarrow> 'f TableBuilder" where
  "wrote n s f r = r\<lparr>tb_status := s, tb_file := f,
     tb_offset := if s = OK then tb_offset r + of_nat (n + kBlockTrailerSize) else tb_offset r\<rparr>"

lemma compress_none: "compress raw r = (raw, kNoCompression, r)"
  by (simp add: compress_def Snappy_Compress_def split: CompressionType.split)

lemma built_new: "1 \<le> op_block_restart_interval opts \<Longrightarrow> built opts [] [0] (BlockBuilder_Reset b)"
  by (simp add: BlockBuilder_Reset_def built_def wf_items_def last_key_def)

context writable_file
begin

definition outcome :: "'f \<Rightarrow> 'f \<Rightarrow> Status \<Rightarrow> byte list \<Rightarrow> bool" where
  "outcome f f' s data \<longleftrightarrow> inv f' \<and> (reliable f \<longrightarrow> s = OK \<and> reliable f') \<and> (s = OK \<longrightarrow> written f' = written f @ data)"

lemma append_outcome: "inv f \<Longrightarrow> \<exists>s f'. wf_Append F data f = Some (s, f') \<and> outcome f f' s data"
  unfolding outcome_def using append_total append_inv append_ok append_reliable by metis

lemma flush_outcome: "inv f \<Longrightarrow> \<exists>s f'. wf_Flush F f = Some (s, f') \<and> outcome f f' s []"
  unfolding outcome_def using flush_total flush_inv flush_ok flush_reliable by (metis append_Nil2)

lemma outcome_then: "outcome f g OK a \<Longrightarrow> outcome g h s b \<Longrightarrow> outcome f h s (a @ b)"
  by (simp add: outcome_def)

lemma outcome_error: "outcome f g s a \<Longrightarrow> s \<noteq> OK \<Longrightarrow> outcome f g s b"
  by (simp add: outcome_def)

lemma WriteRawBlock_outcome:
  assumes "inv (tb_file r)"
  shows "\<exists>s f. WriteRawBlock F c t r = Some (\<lparr>bh_offset = tb_offset r, bh_size = of_nat (length c)\<rparr>, wrote (length c) s f r) \<and>
    outcome (tb_file r) f s (block_image c t)"
proof -
  define trailer where "trailer = CompressionType_num t # EncodeFixed32 (Mask (crc32c 0 (c @ [CompressionType_num t])))"
  obtain s f where f: "wf_Append F c (tb_file r) = Some (s, f)" "outcome (tb_file r) f s c" using append_outcome assms by blast
  show ?thesis
  proof (cases "s = OK")
    case True
    have "inv f" using f(2) by (simp add: outcome_def)
    then obtain s' f' where f': "wf_Append F trailer f = Some (s', f')" "outcome f f' s' trailer" using append_outcome by blast
    have "crc32c (crc32c 0 c) [CompressionType_num t] = crc32c 0 (c @ [CompressionType_num t])"
      by (simp add: crc32c_def crc_feed_append)
    then have "WriteRawBlock F c t r = Some (\<lparr>bh_offset = tb_offset r, bh_size = of_nat (length c)\<rparr>, wrote (length c) s' f' r)"
      using f f' True by (simp add: WriteRawBlock_def Value_def crc32c_extend_eq wrote_def Let_def trailer_def)
    moreover have "outcome (tb_file r) f' s' (block_image c t)"
      using outcome_then [OF f(2) [unfolded True] f'(2)] by (simp add: block_image_def trailer_def)
    ultimately show ?thesis by blast
  next
    case False
    then show ?thesis using f outcome_error [OF f(2) False] by (auto simp: WriteRawBlock_def wrote_def Let_def)
  qed
qed

lemma WriteBlock_outcome:
  assumes "inv (tb_file r)" "tb_status r = OK" "built opts xs rs b"
  shows "\<exists>s f b'. WriteBlock F b r = Some (\<lparr>bh_offset = tb_offset r, bh_size = of_nat (length (block_data xs rs))\<rparr>, b',
      (wrote (length (block_data xs rs)) s f r)\<lparr>tb_compressed_output := []\<rparr>) \<and>
    outcome (tb_file r) f s (block_image (block_data xs rs) kNoCompression) \<and> built opts [] [0] b'"
proof -
  obtain s f where "WriteRawBlock F (block_data xs rs) kNoCompression r =
      Some (\<lparr>bh_offset = tb_offset r, bh_size = of_nat (length (block_data xs rs))\<rparr>, wrote (length (block_data xs rs)) s f r)"
      "outcome (tb_file r) f s (block_image (block_data xs rs) kNoCompression)"
    using WriteRawBlock_outcome [OF assms(1)] by blast
  moreover have "1 \<le> op_block_restart_interval opts" using assms(3) by (simp add: built_def)
  ultimately show ?thesis
    using assms(2) Finish_built [OF assms(3)] built_new
    by (cases "BlockBuilder_Finish b") (auto simp: WriteBlock_def compress_none)
qed

end


lemma built_empty: "built opts xs rs b \<Longrightarrow> BlockBuilder_empty b \<longleftrightarrow> xs = []"
  using item_bytes_length [of "hd xs"] by (cases xs) (auto simp: built_def BlockBuilder_empty_def)

lemma separated_flush:
  assumes "length seps \<le> length bs" "separated C valid seps bs (block_es b)"
  shows "separated C valid seps (bs @ [b]) []"
  unfolding separated_def
proof (intro allI impI)
  fix i assume i: "i < length seps"
  have "(bs @ [b]) ! i = bs ! i" "drop (Suc i) (bs @ [b]) = drop (Suc i) bs @ [b]" using i assms(1) by (simp_all add: nth_append)
  then show "valid (seps ! i) \<and> length (seps ! i) \<le> length (fst (last (block_es ((bs @ [b]) ! i)))) \<and>
      (\<forall>e \<in> set (block_es ((bs @ [b]) ! i)). key_le C (fst e) (seps ! i)) \<and>
      (\<forall>e \<in> set (table_es (drop (Suc i) (bs @ [b])) @ []). key_less C (seps ! i) (fst e))"
    using assms(2) i by (simp add: separated_def)
qed

lemma filter_start_state:
  assumes "filter_state opts blocks r0" "tb_filter_block r = tb_filter_block r0"
    and "policy_ok opts valid fits w (concat (map snd blocks))" "filter_index (tb_offset r0) \<le> filter_index (tb_offset r)"
  shows "\<exists>x. filter_start (tb_offset r) r = Some (r\<lparr>tb_filter_block := x\<rparr>) \<and>
    filter_state opts (blocks @ [(tb_offset r, [])]) (r\<lparr>tb_filter_block := x\<rparr>)"
proof (cases "tb_filter_block r")
  case None
  then have "r\<lparr>tb_filter_block := None\<rparr> = r" by simp
  then show ?thesis using assms None by (intro exI [of _ None]) (simp add: filter_start_def filter_state_def)
next
  case (Some pb)
  obtain P b where pb: "pb = (P, b)" by fastforce
  have "tb_filter_block r0 = Some (P, b)" using assms(2) Some pb by simp
  then have P: "op_filter_policy opts = Some P" "filtering P blocks (tb_offset r0) b" using assms(1) by (simp_all add: filter_state_def)
  have "filter_policy P fits" "fits (concat (map snd blocks))"
    using assms(3) P(1) by (auto simp: policy_ok_def sized_filter_policy_def)
  then obtain b' where "StartBlock P (tb_offset r) b = Some b'" "filtering P (blocks @ [(tb_offset r, [])]) (tb_offset r) b'"
    using filter_policy.filtering_start [OF _ P(2) _ assms(4)] by blast
  then show ?thesis using Some pb P(1) by (intro exI [of _ "Some (P, b')"]) (simp add: filter_start_def filter_state_def)
qed

text \<open>The image of the next block stays small.\<close>

lemma next_block_small:
  assumes "\<forall>b \<in> set bs. wf_built b" "wf_built b" "entries_ok opts valid fits w (table_es bs @ block_es b)"
  shows "length (blocks_image (bs @ [b])) < 2 ^ 32"
  using blocks_image_bound [of "bs @ [b]"] data_bound_le [of "table_es bs @ block_es b" w opts] assms
  by (simp add: entries_ok_def)

lemma handle_of_last: "handle_of (bs @ [b]) (length bs) =
    \<lparr>bh_offset = of_nat (length (blocks_image bs)), bh_size = of_nat (length (data_bytes b))\<rparr>"
  by (simp add: handle_of_def)

context writable_file
begin

definition advanced :: "'f TableBuilder \<Rightarrow> 'f TableBuilder \<Rightarrow> bool" where
  "advanced r r' \<longleftrightarrow> inv (tb_file r') \<and> \<not> tb_closed r' \<and> (reliable (tb_file r) \<longrightarrow> tb_status r' = OK \<and> reliable (tb_file r'))"

definition holds :: "built_block list \<Rightarrow> 'f TableBuilder \<Rightarrow> bool" where
  "holds bs r \<longleftrightarrow> inv (tb_file r) \<and> written (tb_file r) = blocks_image bs"

lemma Flush_step:
  assumes b: "building opts valid bs seps cur r" "fst cur \<noteq> []" and h: "holds bs r"
    and e: "entries_ok opts valid fits w (table_es bs @ block_es cur)"
  shows "\<exists>r'. TableBuilder_Flush F r = Some r' \<and> advanced r r' \<and>
    (tb_status r' = OK \<longrightarrow> building opts valid (bs @ [cur]) seps ([], [0]) r' \<and> holds (bs @ [cur]) r')"
proof -
  have st: "tb_status r = OK" "\<not> tb_closed r" "\<not> tb_pending_index_entry r" "length bs = length seps"
      "built opts (fst cur) (snd cur) (tb_data_block r)" "tb_offset r = of_nat (length (blocks_image bs))"
      "\<forall>b \<in> set bs. wf_built b" "filter_state opts (filter_blocks bs @ [(tb_offset r, map fst (block_es cur))]) r"
    using b by (auto simp: building_def building_core_def split: if_splits)
  have wf: "wf_built cur" using st(5) b(2) by (simp add: wf_built_def built_def)
  note small = next_block_small [OF st(7) wf e]
  have len: "length (blocks_image (bs @ [cur])) = length (blocks_image bs) + length (data_bytes cur) + kBlockTrailerSize"
    by (simp add: block_image_length)
  have "inv (tb_file r)" using h by (simp add: holds_def)
  then obtain s f b' where w: "WriteBlock F (tb_data_block r) r = Some (\<lparr>bh_offset = tb_offset r, bh_size = of_nat (length (data_bytes cur))\<rparr>, b',
        (wrote (length (data_bytes cur)) s f r)\<lparr>tb_compressed_output := []\<rparr>)"
      "outcome (tb_file r) f s (block_image (data_bytes cur) kNoCompression)" "built opts [] [0] b'"
    using WriteBlock_outcome [OF _ st(1,5)] unfolding data_bytes_def by blast
  define r1 where "r1 = (wrote (length (data_bytes cur)) s f r)\<lparr>tb_compressed_output := [], tb_data_block := b',
    tb_pending_handle := \<lparr>bh_offset = tb_offset r, bh_size = of_nat (length (data_bytes cur))\<rparr>\<rparr>"
  have keys: "policy_ok opts valid fits w (concat (map snd (filter_blocks bs @ [(tb_offset r, map fst (block_es cur))])))"
    using e by (simp add: filter_blocks_keys entries_ok_def)
  have mono: "filter_index (tb_offset r) \<le> filter_index (tb_offset r1)"
  proof (cases "s = OK")
    case True
    then have "tb_offset r1 = of_nat (length (blocks_image (bs @ [cur])))" using len st(6) by (simp add: r1_def wrote_def)
    then have "filter_index (tb_offset r1) = length (blocks_image (bs @ [cur])) div 2048"
      using small filter_index_of_nat [of "length (blocks_image (bs @ [cur]))"] by simp
    then show ?thesis
      using st(6) small len filter_index_of_nat [of "length (blocks_image bs)"] div_le_mono [of "length (blocks_image bs)" _ 2048] by simp
  qed (simp add: r1_def wrote_def)
  show ?thesis
  proof (cases "s = OK")
    case True
    have "inv f" using w(2) by (simp add: outcome_def)
    then obtain s' f' where f': "wf_Flush F f = Some (s', f')" "outcome f f' s' []" using flush_outcome by blast
    define r2 where "r2 = r1\<lparr>tb_pending_index_entry := True, tb_status := s', tb_file := f'\<rparr>"
    obtain x where x: "filter_start (tb_offset r2) r2 = Some (r2\<lparr>tb_filter_block := x\<rparr>)"
        "filter_state opts (filter_blocks (bs @ [cur]) @ [(tb_offset r2, [])]) (r2\<lparr>tb_filter_block := x\<rparr>)"
      using filter_start_state [OF st(8) _ keys, of r2] mono st(6) by (auto simp: r2_def r1_def wrote_def filter_blocks_snoc)
    define r' where "r' = r2\<lparr>tb_filter_block := x\<rparr>"
    have "TableBuilder_Flush F r = Some r'"
      using w(1) st(1-3) built_empty [OF st(5)] b(2) f'(1) x(1) True
      by (simp add: TableBuilder_Flush_def r2_def r1_def wrote_def r'_def Let_def)
    moreover have out: "outcome (tb_file r) f' s' (block_image (data_bytes cur) kNoCompression)"
      using outcome_then [OF w(2) [unfolded True] f'(2)] by simp
    then have "advanced r r'" using st(2) by (simp add: advanced_def outcome_def r'_def r2_def r1_def wrote_def)
    moreover have "holds (bs @ [cur]) r'" if "s' = OK" using out that h by (simp add: holds_def outcome_def r'_def r2_def)
    moreover have "tb_offset r2 = of_nat (length (blocks_image (bs @ [cur])))"
      using len st(6) True by (simp add: r2_def r1_def wrote_def)
    then have "building opts valid (bs @ [cur]) seps ([], [0]) r'" if "s' = OK"
      using b st x(2) that w(3) wf separated_flush [of seps bs] index_entries_append [of seps bs "[cur]"] handle_of_last [of bs cur]
      unfolding building_def building_core_def r'_def by (simp add: r2_def r1_def wrote_def)
    ultimately show ?thesis by (auto simp: r'_def r2_def)
  next
    case False
    obtain x where x: "filter_start (tb_offset r1) r1 = Some (r1\<lparr>tb_filter_block := x\<rparr>)"
      using filter_start_state [OF st(8) _ keys, of r1] mono by (auto simp: r1_def wrote_def)
    then have "TableBuilder_Flush F r = Some (r1\<lparr>tb_filter_block := x\<rparr>)"
      using w(1) st(1-3) built_empty [OF st(5)] b(2) False by (simp add: TableBuilder_Flush_def r1_def wrote_def Let_def)
    then show ?thesis using w(2) st(2) False by (simp add: advanced_def outcome_def r1_def wrote_def)
  qed
qed

end

end
