(* ===== verification/Ldb_Table_Written.thy ===== *)
theory Ldb_Table_Written
  imports Ldb_Table_Build
begin

text \<open>
  Adding entries to a table and finishing it: the builder never fails an assertion on ascending
  entries, and if \<open>Finish\<close> reports no error the file is a table of exactly these entries.
\<close>

section \<open>Adding an entry\<close>

lemma of_nat_not_max: "n < 2 ^ 32 \<Longrightarrow> (of_nat n :: u64) \<noteq> NOT 0"
proof
  assume "n < 2 ^ 32" "(of_nat n :: u64) = NOT 0"
  then have "unat (of_nat n :: u64) = unat (- 1 :: u64)" by simp
  then show False using \<open>n < 2 ^ 32\<close> by (simp add: unat_of_nat_small unsigned_minus_1_eq_mask mask_eq_exp_minus_1)
qed

lemma blocks_small:
  assumes "\<forall>b \<in> set bs. wf_built b" "entries_ok opts valid fits w (table_es bs @ es)"
  shows "length (blocks_image bs) < 2 ^ 32"
  using blocks_image_bound [OF assms(1)] data_bound_le [of "table_es bs @ es" w opts] assms(2) by (simp add: entries_ok_def)

lemma blocks_image_split: "i < length bs \<Longrightarrow>
    blocks_image bs = blocks_image (take i bs) @ block_image (data_bytes (bs ! i)) kNoCompression @ blocks_image (drop (Suc i) bs)"
  by (metis append.assoc append_Cons append_Nil blocks_image_simps(2,3) id_take_nth_drop)

lemma handle_of_ok:
  assumes "\<forall>b \<in> set bs. wf_built b" "entries_ok opts valid fits w (table_es bs @ es)" "i < length bs"
  shows "handle_ok (handle_of bs i)"
proof -
  have "length (blocks_image (take i bs)) + length (data_bytes (bs ! i)) < 2 ^ 32"
    using blocks_small [OF assms(1,2)] arg_cong [OF blocks_image_split [OF assms(3)], of length] by (simp add: block_image_length)
  then show ?thesis using of_nat_not_max by (simp add: handle_ok_def handle_of_def)
qed

lemma entries_okD:
  assumes "entries_ok opts valid fits w es"
  shows "comparator (op_comparator opts) valid" "short_comparator (op_comparator opts) valid" "1 \<le> op_block_restart_interval opts"
    "\<And>e. e \<in> set es \<Longrightarrow> valid (fst e)"
  using assms by (simp_all add: entries_ok_def short_comparator_def)

lemma entries_le_last:
  assumes "entries_ok opts valid fits w (es @ fs)" "e \<in> set es"
  shows "key_le (op_comparator opts) (fst e) (fst (last es))"
proof -
  note c = entries_okD [OF assms(1)]
  have "es = butlast es @ [last es]" using assms(2) by (cases es rule: rev_cases) simp_all
  moreover have "sorted_wrt (\<lambda>a b. key_less (op_comparator opts) (fst a) (fst b)) es"
    using assms(1) by (simp add: entries_ok_def sorted_wrt_append)
  ultimately have "e = last es \<or> key_less (op_comparator opts) (fst e) (fst (last es))"
    using assms(2) by (metis (no_types, lifting) Un_iff empty_iff empty_set list.set_intros(1) set_ConsD set_append sorted_wrt_append)
  moreover have "valid (fst e)" using c(4) [of e] assms(2) by simp
  ultimately show ?thesis using key_order.less_imp_le [OF comparator.axioms(1) [OF c(1)]] key_order.le_refl [OF comparator.axioms(1) [OF c(1)]] by auto
qed

lemma new_key_greater:
  "entries_ok opts valid fits w (es @ [(k, v)]) \<Longrightarrow> e \<in> set es \<Longrightarrow> valid (fst e) \<and> valid k \<and> key_less (op_comparator opts) (fst e) k"
  by (simp add: entries_ok_def sorted_wrt_append)

text \<open>The next key is behind all separators if an entry is.\<close>

lemma separated_extend:
  assumes s: "separated C valid seps bs es" and c: "comparator C valid" and k: "valid k"
    and new: "\<And>e. e \<in> set (table_es bs @ es) \<Longrightarrow> valid (fst e) \<and> key_less C (fst e) k"
    and between: "\<And>i. i < length seps \<Longrightarrow> table_es (drop (Suc i) bs) @ es \<noteq> [] \<or> key_less C (seps ! i) k"
  shows "separated C valid seps bs (es @ [(k, v)])"
  unfolding separated_def
proof (intro allI impI)
  fix i assume i: "i < length seps"
  have old: "valid (seps ! i)" "length (seps ! i) \<le> length (fst (last (block_es (bs ! i))))"
      "\<forall>e \<in> set (block_es (bs ! i)). key_le C (fst e) (seps ! i)"
      "\<forall>e \<in> set (table_es (drop (Suc i) bs) @ es). key_less C (seps ! i) (fst e)"
    using s i by (simp_all add: separated_def)
  have "key_less C (seps ! i) k"
  proof (cases "table_es (drop (Suc i) bs) @ es = []")
    case False
    then obtain e where e: "e \<in> set (table_es (drop (Suc i) bs) @ es)" by (metis last_in_set)
    have "set (table_es (drop (Suc i) bs)) \<subseteq> set (table_es bs)"
      by (metis append_take_drop_id set_append sup_ge2 table_es_simps(2))
    then show ?thesis using key_order.less_trans [OF comparator.axioms(1) [OF c] old(1) _ k] old(4) e new [of e] by auto
  qed (use between [OF i] in simp)
  then show "valid (seps ! i) \<and> length (seps ! i) \<le> length (fst (last (block_es (bs ! i)))) \<and>
      (\<forall>e \<in> set (block_es (bs ! i)). key_le C (fst e) (seps ! i)) \<and>
      (\<forall>e \<in> set (table_es (drop (Suc i) bs) @ es @ [(k, v)]). key_less C (seps ! i) (fst e))"
    using old by auto
qed

lemma separated_snoc:
  assumes "separated C valid seps bs []" "length bs = Suc (length seps)" "valid sep"
    and "length sep \<le> length (fst (last (block_es (last bs))))" "\<forall>e \<in> set (block_es (last bs)). key_le C (fst e) sep"
  shows "separated C valid (seps @ [sep]) bs []"
proof -
  have "bs ! length seps = last bs" using assms(2) by (metis diff_Suc_1 last_conv_nth length_0_conv nat.distinct(1))
  then show ?thesis
    using assms by (auto simp: separated_def nth_append less_Suc_eq)
qed

lemma last_block:
  assumes "\<forall>b \<in> set bs. wf_built b" "bs \<noteq> []"
  shows "block_es (last bs) \<noteq> []" "last (table_es bs) = last (block_es (last bs))" "set (block_es (last bs)) \<subseteq> set (table_es bs)"
proof -
  have bs: "bs = butlast bs @ [last bs]" using assms(2) by simp
  show n: "block_es (last bs) \<noteq> []" using assms by (auto simp: wf_built_def block_es_def)
  show "last (table_es bs) = last (block_es (last bs))" "set (block_es (last bs)) \<subseteq> set (table_es bs)"
    using arg_cong [OF bs, of table_es] n by simp_all
qed

lemma index_step:
  assumes b: "building opts valid bs seps cur r" and p: "tb_pending_index_entry r"
    and e: "entries_ok opts valid fits w (table_es bs @ es)"
    and sep: "valid sep" "length sep \<le> length (tb_last_key r)" "key_le (op_comparator opts) (tb_last_key r) sep"
  shows "\<exists>b xs rs. add_index_entry (r\<lparr>tb_last_key := sep\<rparr>) =
      Some (r\<lparr>tb_last_key := sep, tb_index_block := b, tb_pending_index_entry := False\<rparr>) \<and>
    built (index_options opts) xs rs b \<and> map snd xs = index_entries (seps @ [sep]) bs \<and>
    separated (op_comparator opts) valid (seps @ [sep]) bs []"
proof -
  let ?C = "op_comparator opts"
  have st: "fst cur = []" "length bs = Suc (length seps)" "tb_pending_handle r = handle_of bs (length seps)" "\<forall>b \<in> set bs. wf_built b"
      "tb_index_block_options r = index_options opts" "separated ?C valid seps bs []"
    using b p by (auto simp: building_def building_core_def block_es_def)
  obtain xs rs where ix: "built (index_options opts) xs rs (tb_index_block r)" "map snd xs = index_entries seps bs"
    using b by (auto simp: building_def building_core_def)
  have ne: "bs \<noteq> []" using st(2) by auto
  note last = last_block [OF st(4) ne]
  have key: "tb_last_key r = fst (last (block_es (last bs)))"
    using b st(1) last by (auto simp: building_def block_es_def)
  note c = entries_okD [OF e]
  have le: "key_le ?C (fst x) sep" if "x \<in> set (block_es (last bs))" for x
  proof -
    have x: "x \<in> set (table_es bs)" "last (table_es bs) \<in> set (table_es bs)" using that last by auto
    have "key_le ?C (fst x) (tb_last_key r)" using entries_le_last [OF e x(1)] key last(2) by simp
    moreover have "valid (fst x)" "valid (tb_last_key r)" using c(4) x key last(2) by auto
    ultimately show ?thesis using key_order.compare_trans [OF comparator.axioms(1) [OF c(1)] _ _ sep(1)] sep(3) by blast
  qed
  have "\<exists>c. cmp_Compare ?C sep (last_key xs) = Some c \<and> c > 0" if "xs \<noteq> []"
  proof -
    have "length xs = length seps" using arg_cong [OF ix(2), of length] by (simp add: index_entries_def)
    moreover from this that have "length seps - 1 < length xs" "seps \<noteq> []" by (cases xs; auto)+
    ultimately have "seps \<noteq> []" "last_key xs = fst (map snd xs ! (length seps - 1))"
      using that by (simp_all add: last_key_def item_key_def)
    then have "seps \<noteq> []" "last_key xs = fst (index_entries seps bs ! (length seps - 1))" unfolding ix(2) by simp_all
    then have lk: "last_key xs = seps ! (length seps - 1)" "length seps - 1 < length seps"
      by (simp_all add: index_entries_def)
    have "drop (Suc (length seps - 1)) bs = [last bs]"
      using st(2) \<open>seps \<noteq> []\<close> ne by (cases bs rule: rev_cases) simp_all
    then have "valid (last_key xs)" "\<forall>x \<in> set (block_es (last bs)). key_less ?C (last_key xs) (fst x)"
      using st(6) lk unfolding separated_def by simp_all
    moreover have "last (block_es (last bs)) \<in> set (block_es (last bs))" "valid (fst (last (block_es (last bs))))"
      using last_in_set [OF last(1)] last(3) c(4) [of "last (block_es (last bs))"] by auto
    ultimately have "key_less ?C (last_key xs) sep" using key_order.less_le_trans [OF comparator.axioms(1) [OF c(1)] _ _ sep(1)] le by blast
    then show ?thesis using comparator.less_compare [OF c(1) _ sep(1)] \<open>valid (last_key xs)\<close> by blast
  qed
  then obtain b' s rs' where add: "BlockBuilder_Add (index_options opts) sep (handle_bytes (handle_of bs (length seps))) (tb_index_block r) = Some b'"
      "built (index_options opts) (xs @ [(s, sep, handle_bytes (handle_of bs (length seps)))]) rs' b'"
    using Add_built [OF ix(1), of sep "handle_bytes (handle_of bs (length seps))"] by auto
  have "handle_ok (handle_of bs (length seps))" using handle_of_ok [OF st(4) e] st(2) by simp
  then have "add_index_entry (r\<lparr>tb_last_key := sep\<rparr>) =
      Some (r\<lparr>tb_last_key := sep, tb_index_block := b', tb_pending_index_entry := False\<rparr>)"
    using add(1) st(3,5) by (simp add: add_index_entry_def BlockHandle_EncodeTo_bytes)
  moreover have "separated ?C valid (seps @ [sep]) bs []"
    using separated_snoc [OF st(6,2) sep(1)] sep(2) key le by simp
  moreover have "map snd (xs @ [(s, sep, handle_bytes (handle_of bs (length seps)))]) = index_entries (seps @ [sep]) bs"
    using ix(2) by (simp add: index_entries_snoc)
  ultimately show ?thesis using add(2) by blast
qed


lemma filter_state_update [simp]:
  "filter_state opts blocks (r\<lparr>tb_last_key := a\<rparr>) = filter_state opts blocks r"
  "filter_state opts blocks (r\<lparr>tb_index_block := b\<rparr>) = filter_state opts blocks r"
  "filter_state opts blocks (r\<lparr>tb_pending_index_entry := p\<rparr>) = filter_state opts blocks r"
  "filter_state opts blocks (r\<lparr>tb_num_entries := n\<rparr>) = filter_state opts blocks r"
  "filter_state opts blocks (r\<lparr>tb_data_block := b\<rparr>) = filter_state opts blocks r"
  "filter_state opts blocks (r\<lparr>tb_closed := p\<rparr>) = filter_state opts blocks r"
  by (simp_all add: filter_state_def split: option.split)

lemma filter_state_add:
  assumes "filter_state opts (blocks @ [(tb_offset r, ks)]) r"
  shows "filter_state opts (blocks @ [(tb_offset r, ks @ [k])])
    (case tb_filter_block r of None \<Rightarrow> r | Some (P, b) \<Rightarrow> r\<lparr>tb_filter_block := Some (P, AddKey k b)\<rparr>)"
  using assms filtering_add by (auto simp: filter_state_def split: option.splits)

definition with_key :: "byte list \<Rightarrow> 'f TableBuilder \<Rightarrow> 'f TableBuilder" where
  "with_key key r = (case tb_filter_block r of None \<Rightarrow> r | Some (P, b) \<Rightarrow> r\<lparr>tb_filter_block := Some (P, AddKey key b)\<rparr>)"

lemma with_key_same: "\<exists>x. with_key key r = r\<lparr>tb_filter_block := x\<rparr>"
proof (cases "tb_filter_block r")
  case None
  then have "r\<lparr>tb_filter_block := None\<rparr> = r" by simp
  then show ?thesis using None by (metis option.simps(4) with_key_def)
qed (auto simp: with_key_def)

text \<open>The index entry that waits is written before the first key of the next block.\<close>

lemma Add_index:
  assumes b: "building opts valid bs seps cur r"
    and e: "entries_ok opts valid fits w ((table_es bs @ block_es cur) @ [(k, v)])"
  shows "\<exists>r' seps'. (if tb_pending_index_entry r then
      (if BlockBuilder_empty (tb_data_block r) then do {
         last_key \<leftarrow> cmp_FindShortestSeparator (op_comparator (tb_options r)) (tb_last_key r) k;
         add_index_entry (r\<lparr>tb_last_key := last_key\<rparr>) } else None)
      else Some r) = Some r' \<and> building_core opts valid bs seps' cur (block_es cur @ [(k, v)]) r' \<and> \<not> tb_pending_index_entry r' \<and>
    length bs = length seps' \<and> tb_file r' = tb_file r"
proof (cases "tb_pending_index_entry r")
  case True
  note c = entries_okD [OF e]
  have st: "fst cur = []" "length bs = Suc (length seps)" "\<forall>b \<in> set bs. wf_built b" "built opts (fst cur) (snd cur) (tb_data_block r)"
      "tb_options r = opts" and cur: "block_es cur = []"
    using b True by (auto simp: building_def building_core_def block_es_def)
  have ne: "bs \<noteq> []" using st(2) by auto
  note last = last_block [OF st(3) ne]
  have "table_es bs \<noteq> []" using last(1,3) by auto
  then have key: "tb_last_key r = fst (last (table_es bs))" "last (table_es bs) \<in> set (table_es bs)" using b cur by (simp_all add: building_def)
  then have lt: "valid (tb_last_key r)" "valid k" "key_less (op_comparator opts) (tb_last_key r) k"
    using new_key_greater [OF e, of "last (table_es bs)"] by simp_all
  obtain sep where sep: "cmp_FindShortestSeparator (op_comparator opts) (tb_last_key r) k = Some sep" "valid sep"
      "key_le (op_comparator opts) (tb_last_key r) sep" "key_less (op_comparator opts) sep k"
    using comparator.separator [OF c(1) lt] by blast
  have "length sep \<le> length (tb_last_key r)" using short_comparator.separator_length [OF c(2) lt(1,2) sep(1)] .
  moreover have "entries_ok opts valid fits w (table_es bs @ [(k, v)])" using e cur by simp
  ultimately obtain b' xs rs where ix: "add_index_entry (r\<lparr>tb_last_key := sep\<rparr>) =
        Some (r\<lparr>tb_last_key := sep, tb_index_block := b', tb_pending_index_entry := False\<rparr>)"
      "built (index_options opts) xs rs b'" "map snd xs = index_entries (seps @ [sep]) bs"
      "separated (op_comparator opts) valid (seps @ [sep]) bs []"
    using index_step [OF b True _ sep(2) _ sep(3)] by blast
  have "separated (op_comparator opts) valid (seps @ [sep]) bs ([] @ [(k, v)])"
  proof (rule separated_extend [OF ix(4) c(1) lt(2)])
    fix i assume i: "i < length (seps @ [sep])"
    show "table_es (drop (Suc i) bs) @ [] \<noteq> [] \<or> key_less (op_comparator opts) ((seps @ [sep]) ! i) k"
    proof (cases "i = length seps")
      case False
      then have "drop (Suc i) bs \<noteq> []" "set (drop (Suc i) bs) \<subseteq> set bs" using i st(2) by (auto dest: in_set_dropD)
      then have "block_es (last (drop (Suc i) bs)) \<noteq> []" "set (block_es (last (drop (Suc i) bs))) \<subseteq> set (table_es (drop (Suc i) bs))"
        using last_block [of "drop (Suc i) bs"] st(3) by auto
      then show ?thesis by auto
    qed (use sep(4) in simp)
  qed (use new_key_greater [OF e] cur in auto)
  then have "building_core opts valid bs (seps @ [sep]) cur (block_es cur @ [(k, v)])
      (r\<lparr>tb_last_key := sep, tb_index_block := b', tb_pending_index_entry := False\<rparr>)"
    using b ix(2,3) cur unfolding building_def building_core_def by auto
  then show ?thesis
    using True ix(1) st sep(1) built_empty [OF st(4)]
    by (intro exI [of _ "r\<lparr>tb_last_key := sep, tb_index_block := b', tb_pending_index_entry := False\<rparr>"] exI [of _ "seps @ [sep]"]) simp
next
  case False
  have "separated (op_comparator opts) valid seps bs (block_es cur)" "fst cur = [] \<longrightarrow> bs = []" "length bs = length seps"
    using b False by (auto simp: building_def building_core_def)
  then have "separated (op_comparator opts) valid seps bs (block_es cur @ [(k, v)])"
    using new_key_greater [OF e] entries_okD(1) [OF e] entries_okD(4) [OF e, of "(k, v)"]
    by (intro separated_extend) (auto simp: block_es_def)
  then have "building_core opts valid bs seps cur (block_es cur @ [(k, v)]) r" "length bs = length seps"
    using False b unfolding building_def building_core_def by auto
  then show ?thesis using False by (intro exI [of _ r] exI [of _ seps]) simp
qed

lemma with_key_filter: "filter_state opts (blocks @ [(tb_offset r, ks)]) r \<Longrightarrow>
    filter_state opts (blocks @ [(tb_offset r, ks @ [k])]) (with_key k r)"
  using filter_state_add by (simp add: with_key_def)

text \<open>The entry is added to the block.\<close>

lemma Add_data:
  assumes b: "building_core opts valid bs seps cur (block_es cur @ [(k, v)]) r" "\<not> tb_pending_index_entry r" "length bs = length seps"
    and e: "entries_ok opts valid fits w ((table_es bs @ block_es cur) @ [(k, v)])"
  shows "\<exists>b' cur'. BlockBuilder_Add opts k v (tb_data_block r) = Some b' \<and> block_es cur' = block_es cur @ [(k, v)] \<and>
    building opts valid bs seps cur' ((with_key k r)\<lparr>tb_last_key := k, tb_num_entries := tb_num_entries r + 1, tb_data_block := b'\<rparr>)"
proof -
  note c = entries_okD [OF e]
  have st: "built opts (fst cur) (snd cur) (tb_data_block r)" using b(1) by (simp add: building_core_def)
  have "\<exists>c. cmp_Compare (op_comparator opts) k (last_key (fst cur)) = Some c \<and> c > 0" if "fst cur \<noteq> []"
  proof -
    have "last_key (fst cur) = fst (last (block_es cur))" "last (block_es cur) \<in> set (table_es bs @ block_es cur)"
      using that by (simp_all add: last_key_def item_key_def block_es_def last_map last_conv_nth)
    then show ?thesis using comparator.less_compare [OF c(1)] new_key_greater [OF e] by metis
  qed
  then obtain b' s rs' where add: "BlockBuilder_Add opts k v (tb_data_block r) = Some b'" "built opts (fst cur @ [(s, k, v)]) rs' b'"
    using Add_built [OF st, of k v] by blast
  obtain x where x: "with_key k r = r\<lparr>tb_filter_block := x\<rparr>" using with_key_same by blast
  have "filter_state opts (filter_blocks bs @ [(tb_offset r, map fst (block_es cur) @ [k])]) (r\<lparr>tb_filter_block := x\<rparr>)"
    using with_key_filter [of opts "filter_blocks bs" r "map fst (block_es cur)" k] b(1) x unfolding building_core_def by metis
  then have "building opts valid bs seps (fst cur @ [(s, k, v)], rs')
      (r\<lparr>tb_filter_block := x, tb_last_key := k, tb_num_entries := tb_num_entries r + 1, tb_data_block := b'\<rparr>)"
    using b add(2) by (simp add: building_def building_core_def block_es_def)
  then show ?thesis using add(1) x by (intro exI [of _ b'] exI [of _ "(fst cur @ [(s, k, v)], rs')"]) (simp add: block_es_def)
qed


context writable_file
begin

lemma Add_step:
  assumes b: "building opts valid bs seps cur r" and h: "holds bs r"
    and e: "entries_ok opts valid fits w ((table_es bs @ block_es cur) @ [(k, v)])"
  shows "\<exists>r'. TableBuilder_Add F k v r = Some r' \<and> advanced r r' \<and>
    (tb_status r' = OK \<longrightarrow> (\<exists>bs' seps' cur'. building opts valid bs' seps' cur' r' \<and> holds bs' r' \<and>
      table_es bs' @ block_es cur' = (table_es bs @ block_es cur) @ [(k, v)]))"
proof -
  let ?es = "table_es bs @ block_es cur"
  have st: "tb_status r = OK" "\<not> tb_closed r" "tb_options r = opts" "tb_num_entries r = int (length ?es)"
    using b by (simp_all add: building_def building_core_def)
  have ordered: "(if tb_num_entries r > 0
      then do { c \<leftarrow> cmp_Compare (op_comparator (tb_options r)) k (tb_last_key r); Some (c > 0) } else Some True) = Some True"
  proof (cases "?es = []")
    case False
    then have "tb_last_key r = fst (last ?es)" "last ?es \<in> set ?es" using b last_in_set [OF False] by (auto simp: building_def)
    then obtain c where "cmp_Compare (op_comparator opts) k (tb_last_key r) = Some c" "c > 0"
      using comparator.less_compare [OF entries_okD(1) [OF e]] new_key_greater [OF e] by metis
    then show ?thesis using st(3,4) by simp
  qed (use st in simp)
  obtain r1 seps' where r1: "(if tb_pending_index_entry r then
      (if BlockBuilder_empty (tb_data_block r) then do {
         last_key \<leftarrow> cmp_FindShortestSeparator (op_comparator (tb_options r)) (tb_last_key r) k;
         add_index_entry (r\<lparr>tb_last_key := last_key\<rparr>) } else None)
      else Some r) = Some r1" and c1: "building_core opts valid bs seps' cur (block_es cur @ [(k, v)]) r1"
      "\<not> tb_pending_index_entry r1" "length bs = length seps'" "tb_file r1 = tb_file r"
    using Add_index [OF b e] by blast
  obtain b' cur' where c2: "BlockBuilder_Add opts k v (tb_data_block r1) = Some b'" "block_es cur' = block_es cur @ [(k, v)]"
      "building opts valid bs seps' cur' ((with_key k r1)\<lparr>tb_last_key := k, tb_num_entries := tb_num_entries r1 + 1, tb_data_block := b'\<rparr>)"
    using Add_data [OF c1(1-3) e] by blast
  define r2 where "r2 = (with_key k r1)\<lparr>tb_last_key := k, tb_num_entries := tb_num_entries r1 + 1, tb_data_block := b'\<rparr>"
  obtain x where x: "with_key k r1 = r1\<lparr>tb_filter_block := x\<rparr>" using with_key_same by blast
  have opt: "tb_options r1 = opts" using c1(1) by (simp add: building_core_def)
  have add: "TableBuilder_Add F k v r = (if CurrentSizeEstimate b' \<ge> op_block_size opts then TableBuilder_Flush F r2 else Some r2)"
    unfolding TableBuilder_Add_def ordered r1 using st(1,2) c2(1) opt x
    by (simp add: r2_def Let_def flip: with_key_def)
  have fl: "tb_file r2 = tb_file r" "holds bs r2" using c1(4) x h by (simp_all add: r2_def holds_def)
  have "entries_ok opts valid fits w (table_es bs @ block_es cur')" "fst cur' \<noteq> []" using e c2(2) by (auto simp: block_es_def)
  then obtain r3 where r3: "TableBuilder_Flush F r2 = Some r3" "advanced r2 r3"
      "tb_status r3 = OK \<longrightarrow> building opts valid (bs @ [cur']) seps' ([], [0]) r3 \<and> holds (bs @ [cur']) r3"
    using Flush_step [OF c2(3) [folded r2_def] _ fl(2)] by blast
  show ?thesis
  proof (cases "CurrentSizeEstimate b' \<ge> op_block_size opts")
    case True
    moreover have "table_es (bs @ [cur']) @ block_es ([], [0]) = ?es @ [(k, v)]" using c2(2) by simp
    moreover have "advanced r r3" using r3(2) fl(1) by (simp add: advanced_def)
    moreover have "TableBuilder_Add F k v r = Some r3" using add r3(1) True by simp
    ultimately show ?thesis using r3(3) by (metis (no_types, lifting))
  next
    case False
    have "tb_status r2 = OK" "\<not> tb_closed r2" using c2(3) [folded r2_def] by (simp_all add: building_def building_core_def)
    then have "advanced r r2" using fl h by (simp add: advanced_def holds_def)
    moreover have "table_es bs @ block_es cur' = ?es @ [(k, v)]" using c2(2) by simp
    moreover have "TableBuilder_Add F k v r = Some r2" using add False by simp
    ultimately show ?thesis using c2(3) [folded r2_def] fl(2) by (metis (no_types, lifting))
  qed
qed

lemma builder_advanced_trans: "advanced r r' \<Longrightarrow> advanced r' r'' \<Longrightarrow> advanced r r''"
  by (simp add: advanced_def)

lemma table_entries_failed:
  "tb_status r \<noteq> OK \<Longrightarrow> \<not> tb_closed r \<Longrightarrow> table_entries F es r = Some r"
  by (induction es) (simp_all add: TableBuilder_Add_def)

lemma table_entries_step:
  "building opts valid bs seps cur r \<Longrightarrow> holds bs r \<Longrightarrow> entries_ok opts valid fits w ((table_es bs @ block_es cur) @ es) \<Longrightarrow>
    \<exists>r'. table_entries F es r = Some r' \<and> advanced r r' \<and>
    (tb_status r' = OK \<longrightarrow> (\<exists>bs' seps' cur'. building opts valid bs' seps' cur' r' \<and> holds bs' r' \<and>
      table_es bs' @ block_es cur' = (table_es bs @ block_es cur) @ es))"
proof (induction es arbitrary: bs seps cur r)
  case Nil
  then have "tb_status r = OK" "\<not> tb_closed r" by (simp_all add: building_def building_core_def)
  then have "advanced r r" using Nil(2) by (simp add: advanced_def holds_def)
  then show ?case using Nil(1,2) by (intro exI [of _ r] conjI impI exI [of _ bs] exI [of _ seps] exI [of _ cur]) simp_all
next
  case (Cons e es)
  have "entries_ok opts valid fits w ((table_es bs @ block_es cur) @ [(fst e, snd e)])"
    using entries_ok_prefix [of opts valid fits w "(table_es bs @ block_es cur) @ [e]" es] Cons.prems(3) by simp
  then obtain r1 where r1: "TableBuilder_Add F (fst e) (snd e) r = Some r1" "advanced r r1"
      "tb_status r1 = OK \<longrightarrow> (\<exists>bs' seps' cur'. building opts valid bs' seps' cur' r1 \<and> holds bs' r1 \<and>
        table_es bs' @ block_es cur' = (table_es bs @ block_es cur) @ [(fst e, snd e)])"
    using Add_step [OF Cons.prems(1,2)] by blast
  show ?case
  proof (cases "tb_status r1 = OK")
    case True
    then obtain bs' seps' cur' where c: "building opts valid bs' seps' cur' r1" "holds bs' r1"
        "table_es bs' @ block_es cur' = (table_es bs @ block_es cur) @ [e]"
      using r1(3) by auto
    then have "entries_ok opts valid fits w ((table_es bs' @ block_es cur') @ es)" using Cons.prems(3) by simp
    then obtain r' where r': "table_entries F es r1 = Some r'" "advanced r1 r'"
        "tb_status r' = OK \<longrightarrow> (\<exists>bs'' seps'' cur''. building opts valid bs'' seps'' cur'' r' \<and> holds bs'' r' \<and>
          table_es bs'' @ block_es cur'' = (table_es bs' @ block_es cur') @ es)"
      using Cons.IH [OF c(1,2)] by blast
    have "table_entries F (e # es) r = Some r'" "advanced r r'" using r1(1) r'(1) builder_advanced_trans [OF r1(2) r'(2)] by simp_all
    moreover have "(table_es bs' @ block_es cur') @ es = (table_es bs @ block_es cur) @ e # es" using c(3) by simp
    ultimately show ?thesis using r'(3) by metis
  next
    case False
    then have "table_entries F es r1 = Some r1" using table_entries_failed r1(2) by (simp add: advanced_def)
    then show ?thesis using r1 False by simp
  qed
qed

lemma new_TableBuilder_building:
  assumes "inv f" "written f = []" "entries_ok opts valid fits w es"
  shows "\<exists>r. new_TableBuilder opts f = Some r \<and> building opts valid [] [] ([], [0]) r \<and> holds [] r \<and> tb_file r = f"
proof -
  note c = entries_okD [OF assms(3)]
  obtain b where b: "new_BlockBuilder opts = Some b" "built opts [] [0] b" using new_BlockBuilder_built [OF c(3)] by blast
  have bi: "built (index_options opts) [] [0] b" using b(2) by (simp add: built_def)
  have "\<exists>x. (case op_filter_policy opts of None \<Rightarrow> Some None
       | Some P \<Rightarrow> do { b \<leftarrow> StartBlock P 0 new_FilterBlockBuilder; Some (Some (P, b)) }) = Some x \<and>
     (case x of None \<Rightarrow> op_filter_policy opts = None | Some (P, b) \<Rightarrow> op_filter_policy opts = Some P \<and> filtering P [(0, [])] 0 b)"
  proof (cases "op_filter_policy opts")
    case (Some P)
    have "filter_policy P fits" "fits (map fst es)"
      using assms(3) Some by (auto simp: entries_ok_def policy_ok_def sized_filter_policy_def)
    then have "fits []" using filter_policy.fits_part [of P fits "[]" "[]" "map fst es"] by simp
    then obtain fb where "StartBlock P 0 new_FilterBlockBuilder = Some fb" "filtering P [(0, [])] 0 fb"
      using filter_policy.filtering_new [OF \<open>filter_policy P fits\<close>] by blast
    then show ?thesis using Some by simp
  qed simp
  then obtain x where x: "(case op_filter_policy opts of None \<Rightarrow> Some None
       | Some P \<Rightarrow> do { b \<leftarrow> StartBlock P 0 new_FilterBlockBuilder; Some (Some (P, b)) }) = Some x"
     "case x of None \<Rightarrow> op_filter_policy opts = None | Some (P, b) \<Rightarrow> op_filter_policy opts = Some P \<and> filtering P [(0, [])] 0 b"
    by blast
  define r where "r = \<lparr>tb_options = opts, tb_index_block_options = index_options opts, tb_file = f, tb_offset = 0, tb_status = OK,
    tb_data_block = b, tb_index_block = b, tb_last_key = [], tb_num_entries = 0, tb_closed = False, tb_filter_block = x,
    tb_pending_index_entry = False, tb_pending_handle = new_BlockHandle, tb_compressed_output = []\<rparr>"
  have "new_TableBuilder opts f = Some r" using b x(1) by (simp add: new_TableBuilder_def r_def)
  moreover have "filter_state opts [(0, [])] r" using x(2) by (auto simp: filter_state_def r_def split: option.splits)
  then have "building opts valid [] [] ([], [0]) r"
    using b bi by (auto simp: building_def building_core_def separated_def index_entries_def filter_blocks_def r_def)
  moreover have "holds [] r" using assms(1,2) by (simp add: holds_def r_def)
  ultimately show ?thesis by (auto simp: r_def)
qed

end

end
