(* ===== verification/Ldb_Table_Finish.thy ===== *)
theory Ldb_Table_Finish
  imports Ldb_Table_Written
begin

text \<open>
  The end of a table: the filter block, the metaindex block, the index block and the footer
  that \<open>Finish\<close> writes behind the data blocks, and the shape of the complete file.
\<close>

section \<open>The shape of a table file\<close>

text \<open>The filter block with its groups of keys, and the entry for it in the metaindex.\<close>

definition filter_key :: "FilterPolicy \<Rightarrow> byte list" where
  "filter_key P = ascii (''filter.'' @ fp_Name P)"

definition filter_part :: "Options \<Rightarrow> (byte list list \<Rightarrow> bool) \<Rightarrow> built_block list \<Rightarrow> byte list \<Rightarrow> entry list \<Rightarrow> bool" where
  "filter_part opts fits bs fimg meta \<longleftrightarrow> (case op_filter_policy opts of None \<Rightarrow> fimg = [] \<and> meta = []
     | Some P \<Rightarrow> \<exists>gs. fits (concat gs) \<and>
         (\<forall>i < length bs. \<forall>e \<in> set (block_es (bs ! i)). filter_index (bh_offset (handle_of bs i)) < length gs \<and>
            fst e \<in> set (gs ! filter_index (bh_offset (handle_of bs i)))) \<and>
         fimg = block_image (filter_contents (map (filter_of P) gs)) kNoCompression \<and>
         meta = [(filter_key P, handle_bytes \<lparr>bh_offset = of_nat (length (blocks_image bs)),
           bh_size = of_nat (length (filter_contents (map (filter_of P) gs)))\<rparr>)])"

definition handle_at :: "byte list \<Rightarrow> byte list \<Rightarrow> BlockHandle" where
  "handle_at before data = \<lparr>bh_offset = of_nat (length before), bh_size = of_nat (length data)\<rparr>"

definition table_image :: "byte list \<Rightarrow> byte list \<Rightarrow> byte list \<Rightarrow> byte list" where
  "table_image before meta index = (
     let a = before; b = a @ block_image meta kNoCompression; c = b @ block_image index kNoCompression in
     c @ footer_bytes \<lparr>ft_metaindex_handle = handle_at a meta, ft_index_handle = handle_at b index\<rparr>)"

definition is_table :: "Options \<Rightarrow> (byte list \<Rightarrow> bool) \<Rightarrow> (byte list list \<Rightarrow> bool) \<Rightarrow> entry list \<Rightarrow> byte list \<Rightarrow> bool" where
  "is_table opts valid fits es T \<longleftrightarrow> length T < 2 ^ 32 \<and> (\<exists>bs seps fimg xs rs mxs mrs.
     table_es bs = es \<and> length seps = length bs \<and> (\<forall>b \<in> set bs. wf_built b) \<and> separated (op_comparator opts) valid seps bs [] \<and>
     wf_items xs rs \<and> map snd xs = index_entries seps bs \<and>
     wf_items mxs mrs \<and> filter_part opts fits bs fimg (map snd mxs) \<and>
     T = table_image (blocks_image bs @ fimg) (block_data mxs mrs) (block_data xs rs))"

section \<open>The size of a table\<close>

lemma index_size:
  assumes "length seps = length bs" "\<forall>b \<in> set bs. wf_built b" "separated C valid seps bs es"
  shows "size_bound (index_entries seps bs) \<le> sum_list (map (\<lambda>e. length (fst e) + 39) (table_es bs)) + 8"
proof -
  let ?k = "\<lambda>e :: entry. length (fst e) + 39"
  have entry: "length (seps ! i) + length (handle_bytes (handle_of bs i)) + 19 \<le> sum_list (map ?k (block_es (bs ! i)))"
    if i: "i < length bs" for i
  proof -
    have "block_es (bs ! i) \<noteq> []" using assms(2) i by (simp add: wf_built_def block_es_def)
    then have "?k (last (block_es (bs ! i))) \<le> sum_list (map ?k (block_es (bs ! i)))" by (intro member_le_sum_list) auto
    moreover have "length (seps ! i) \<le> length (fst (last (block_es (bs ! i))))" using assms(1,3) i by (simp add: separated_def)
    ultimately show ?thesis using handle_bytes_length(1) [of "handle_of bs i"] by (simp add: kMaxEncodedLength_def)
  qed
  have "size_bound (index_entries seps bs) = (\<Sum>i \<leftarrow> [0..<length bs]. length (seps ! i) + length (handle_bytes (handle_of bs i)) + 19) + 8"
    using assms(1) by (simp add: size_bound_def index_entries_def comp_def)
  also have "(\<Sum>i \<leftarrow> [0..<length bs]. length (seps ! i) + length (handle_bytes (handle_of bs i)) + 19) \<le>
      (\<Sum>i \<leftarrow> [0..<length bs]. sum_list (map ?k (block_es (bs ! i))))"
    using entry by (intro sum_list_mono) simp
  also have "\<dots> = sum_list (map (\<lambda>b. sum_list (map ?k (block_es b))) (map ((!) bs) [0..<length bs]))" by (simp add: comp_def)
  also have "\<dots> = sum_list (map ?k (table_es bs))"
    unfolding map_nth by (induction bs) (simp_all add: table_es_def)
  finally show ?thesis by simp
qed

text \<open>The parts of a table, whatever comes of them, fit into the bound.\<close>

lemma bound_parts:
  "data_bound es + (2 * w * length es + data_bound es + 14) + (length (policy_name opts) + 59) +
    (sum_list (map (\<lambda>e. length (fst e) + 39) es) + 13) + 48 \<le> table_bound w opts es"
  by (induction es) (simp_all add: data_bound_def table_bound_def)


section \<open>The parts of Finish\<close>

definition same_index :: "'f TableBuilder \<Rightarrow> 'f TableBuilder \<Rightarrow> bool" where
  "same_index r r' \<longleftrightarrow> tb_options r' = tb_options r \<and> tb_index_block_options r' = tb_index_block_options r \<and>
     tb_index_block r' = tb_index_block r \<and> tb_last_key r' = tb_last_key r \<and>
     tb_pending_index_entry r' = tb_pending_index_entry r \<and> tb_pending_handle r' = tb_pending_handle r \<and>
     (tb_filter_block r' = None \<longleftrightarrow> tb_filter_block r = None)"

lemma same_index_trans: "same_index a b \<Longrightarrow> same_index b c \<Longrightarrow> same_index a c"
  by (simp add: same_index_def)

text \<open>After an error nothing more is written.\<close>

lemma skip_parts:
  assumes "tb_status r \<noteq> OK"
  shows "write_filter F r = Some (new_BlockHandle, r)" "write_metaindex F h r = Some (new_BlockHandle, r)"
    "write_index F r = Some (new_BlockHandle, r)" "write_footer F h h' r = Some r"
  using assms by (auto simp: write_filter_def write_metaindex_def write_index_def write_footer_def split: option.splits)

lemma add_index_entry_same:
  assumes "same_index r0 r" "add_index_entry (r0\<lparr>tb_last_key := sep\<rparr>) =
    Some (r0\<lparr>tb_last_key := sep, tb_index_block := b, tb_pending_index_entry := False\<rparr>)"
  shows "add_index_entry (r\<lparr>tb_last_key := sep\<rparr>) = Some (r\<lparr>tb_last_key := sep, tb_index_block := b, tb_pending_index_entry := False\<rparr>)"
proof -
  obtain e b' where "BlockHandle_EncodeTo (tb_pending_handle r) [] = Some e"
      "BlockBuilder_Add (tb_index_block_options r) sep e (tb_index_block r) = Some b'"
      "r0\<lparr>tb_last_key := sep, tb_index_block := b', tb_pending_index_entry := False\<rparr> =
        r0\<lparr>tb_last_key := sep, tb_index_block := b, tb_pending_index_entry := False\<rparr>"
    using assms by (auto simp: add_index_entry_def same_index_def bind_Some_iff)
  moreover from this(3) have "b' = b" by (metis TableBuilder.select_convs(7) TableBuilder.surjective TableBuilder.update_convs(7,8,12))
  ultimately show ?thesis by (simp add: add_index_entry_def)
qed

context writable_file
begin

definition stage :: "'f TableBuilder \<Rightarrow> 'f TableBuilder \<Rightarrow> byte list \<Rightarrow> bool" where
  "stage r r' data \<longleftrightarrow> inv (tb_file r') \<and> (reliable (tb_file r) \<longrightarrow> tb_status r' = OK \<and> reliable (tb_file r')) \<and>
     (tb_status r' = OK \<longrightarrow> written (tb_file r') = written (tb_file r) @ data \<and> tb_offset r' = tb_offset r + of_nat (length data))"

lemma wrote_stage: "outcome (tb_file r) f s (block_image c t) \<Longrightarrow> stage r (wrote (length c) s f r) (block_image c t)"
  by (simp add: outcome_def stage_def wrote_def block_image_length)

lemma stage_update: "stage r r' d \<Longrightarrow> tb_file r0 = tb_file r \<Longrightarrow> tb_offset r0 = tb_offset r \<Longrightarrow>
    tb_file r1 = tb_file r' \<Longrightarrow> tb_offset r1 = tb_offset r' \<Longrightarrow> tb_status r1 = tb_status r' \<Longrightarrow> stage r0 r1 d"
  by (simp add: stage_def)

lemma write_filter_stage:
  assumes r: "tb_status r = OK" "inv (tb_file r)" "tb_offset r = of_nat (length (blocks_image bs))"
    and f: "filter_state opts (filter_blocks bs @ [(tb_offset r, [])]) r"
    and e: "entries_ok opts valid fits w (table_es bs)" and wf: "\<forall>b \<in> set bs. wf_built b"
  shows "\<exists>h r' fimg. write_filter F r = Some (h, r') \<and> same_index r r' \<and> stage r r' fimg \<and>
    length fimg \<le> 2 * w * length (table_es bs) + data_bound (table_es bs) + 14 \<and>
    filter_part opts fits bs fimg (case op_filter_policy opts of None \<Rightarrow> [] | Some P \<Rightarrow> [(filter_key P, handle_bytes h)]) \<and>
    (op_filter_policy opts \<noteq> None \<longrightarrow> handle_ok h)"
proof (cases "tb_filter_block r")
  case None
  then have "op_filter_policy opts = None" using f by (simp add: filter_state_def)
  then show ?thesis
    using None r by (intro exI [of _ new_BlockHandle] exI [of _ r] exI [of _ "[]"])
      (simp add: write_filter_def same_index_def stage_def filter_part_def)
next
  case (Some pb)
  obtain P b where pb: "pb = (P, b)" by fastforce
  have P: "op_filter_policy opts = Some P" "filtering P (filter_blocks bs @ [(tb_offset r, [])]) (tb_offset r) b"
    using f Some pb by (simp_all add: filter_state_def)
  have sized: "sized_filter_policy P fits valid w" and fits: "fits (map fst (table_es bs))"
    using e P(1) by (simp_all add: entries_ok_def policy_ok_def)
  have fp: "filter_policy P fits" using sized by (simp add: sized_filter_policy_def)
  have keys: "concat (map snd (filter_blocks bs @ [(tb_offset r, [])])) = map fst (table_es bs)" by (simp add: filter_blocks_keys)
  obtain b' gs where fin: "Finish P b = Some b'" "fb_result b' = filter_contents (map (filter_of P) gs)"
      "concat gs = map fst (table_es bs)" "length gs \<le> Suc (filter_index (tb_offset r))"
      "\<forall>(o', ks) \<in> set (filter_blocks bs). \<forall>k \<in> set ks. filter_index o' < length gs \<and> k \<in> set (gs ! filter_index o')"
    using filter_policy.filtering_finish [OF fp P(2)] fits unfolding keys by auto
  let ?fc = "filter_contents (map (filter_of P) gs)"
  define h where "h = \<lparr>bh_offset = tb_offset r, bh_size = of_nat (length ?fc)\<rparr>"
  obtain s f' where w: "WriteRawBlock F ?fc kNoCompression (r\<lparr>tb_filter_block := Some (P, b')\<rparr>) =
        Some (h, wrote (length ?fc) s f' (r\<lparr>tb_filter_block := Some (P, b')\<rparr>))"
      "outcome (tb_file r) f' s (block_image ?fc kNoCompression)"
    using WriteRawBlock_outcome [of "r\<lparr>tb_filter_block := Some (P, b')\<rparr>" ?fc kNoCompression] r(2) by (auto simp: h_def)
  define r' where "r' = wrote (length ?fc) s f' (r\<lparr>tb_filter_block := Some (P, b')\<rparr>)"
  have small: "length (blocks_image bs) \<le> data_bound (table_es bs)" "length (blocks_image bs) < 2 ^ 32"
    using blocks_image_bound [OF wf] blocks_small [OF wf, of opts valid fits w "[]"] e by simp_all
  then have "filter_index (tb_offset r) = length (blocks_image bs) div 2048" using r(3) filter_index_of_nat by simp
  moreover have "length ?fc \<le> 2 * w * length (table_es bs) + 4 * length gs + 5"
    using sized_filter_policy.filter_contents_length [OF sized, of gs] fin(3) fits by simp
  ultimately have len: "length ?fc + 5 \<le> 2 * w * length (table_es bs) + data_bound (table_es bs) + 14" using fin(4) small(1) by simp
  then have "length ?fc < 2 ^ 32" using e bound_parts [where es = "table_es bs" and w = w and opts = opts] by (simp add: entries_ok_def)
  then have "handle_ok h" using of_nat_not_max small(2) r(3) by (simp add: h_def handle_ok_def)
  moreover have "write_filter F r = Some (h, r')" using Some pb r(1) fin(1,2) w(1) by (simp add: write_filter_def r'_def)
  moreover have "same_index r r'" using Some by (simp add: same_index_def r'_def wrote_def)
  moreover have "stage r r' (block_image ?fc kNoCompression)"
    using wrote_stage [of "r\<lparr>tb_filter_block := Some (P, b')\<rparr>"] w(2) by (simp add: r'_def stage_def)
  moreover have "filter_part opts fits bs (block_image ?fc kNoCompression)
      (case op_filter_policy opts of None \<Rightarrow> [] | Some P \<Rightarrow> [(filter_key P, handle_bytes h)])"
    using P(1) fin(3,5) fits r(3) by (auto simp: filter_part_def h_def filter_blocks_def intro!: exI [of _ gs])
  ultimately show ?thesis using len P(1) by (auto simp: block_image_length kBlockTrailerSize_def)
qed

lemma write_metaindex_stage:
  assumes r: "tb_status r = OK" "inv (tb_file r)" "tb_options r = opts" "tb_filter_block r = None \<longleftrightarrow> op_filter_policy opts = None"
    and "1 \<le> op_block_restart_interval opts" and h: "op_filter_policy opts \<noteq> None \<longrightarrow> handle_ok h"
  shows "\<exists>r' xs rs. write_metaindex F h r = Some (\<lparr>bh_offset = tb_offset r, bh_size = of_nat (length (block_data xs rs))\<rparr>, r') \<and>
    same_index r r' \<and> stage r r' (block_image (block_data xs rs) kNoCompression) \<and> wf_items xs rs \<and>
    map snd xs = (case op_filter_policy opts of None \<Rightarrow> [] | Some P \<Rightarrow> [(filter_key P, handle_bytes h)])"
proof -
  obtain b where b: "new_BlockBuilder opts = Some b" "built opts [] [0] b" using new_BlockBuilder_built assms(5) by blast
  have "\<exists>b' xs rs. (if tb_filter_block r \<noteq> None then do {
         P \<leftarrow> op_filter_policy (tb_options r);
         handle_encoding \<leftarrow> BlockHandle_EncodeTo h [];
         BlockBuilder_Add (tb_options r) (ascii (''filter.'' @ fp_Name P)) handle_encoding b } else Some b) = Some b' \<and> built opts xs rs b' \<and>
    map snd xs = (case op_filter_policy opts of None \<Rightarrow> [] | Some P \<Rightarrow> [(filter_key P, handle_bytes h)])"
  proof (cases "op_filter_policy opts")
    case (Some P)
    then show ?thesis
      using Add_built [OF b(2), of "filter_key P" "handle_bytes h"] r(3,4) h
      by (auto simp: BlockHandle_EncodeTo_bytes filter_key_def) fastforce
  qed (use b r in auto)
  then obtain b' xs rs where b': "(if tb_filter_block r \<noteq> None then do {
         P \<leftarrow> op_filter_policy (tb_options r);
         handle_encoding \<leftarrow> BlockHandle_EncodeTo h [];
         BlockBuilder_Add (tb_options r) (ascii (''filter.'' @ fp_Name P)) handle_encoding b } else Some b) = Some b'" "built opts xs rs b'"
    "map snd xs = (case op_filter_policy opts of None \<Rightarrow> [] | Some P \<Rightarrow> [(filter_key P, handle_bytes h)])"
    by blast
  obtain s f b'' where w: "WriteBlock F b' r = Some (\<lparr>bh_offset = tb_offset r, bh_size = of_nat (length (block_data xs rs))\<rparr>, b'',
        (wrote (length (block_data xs rs)) s f r)\<lparr>tb_compressed_output := []\<rparr>)"
      "outcome (tb_file r) f s (block_image (block_data xs rs) kNoCompression)"
    using WriteBlock_outcome [OF r(2,1) b'(2)] by blast
  define r' where "r' = (wrote (length (block_data xs rs)) s f r)\<lparr>tb_compressed_output := []\<rparr>"
  have "write_metaindex F h r = Some (\<lparr>bh_offset = tb_offset r, bh_size = of_nat (length (block_data xs rs))\<rparr>, r')"
    by (simp only: write_metaindex_def r(1,3) ok_iff simp_thms if_True b(1) Option.bind_lunit b'(1) [unfolded r(3)] w(1) prod.case r'_def)
  moreover have "same_index r r'" by (simp add: same_index_def r'_def wrote_def)
  moreover have "stage r r' (block_image (block_data xs rs) kNoCompression)" using wrote_stage [OF w(2)] by (simp add: r'_def stage_def)
  ultimately show ?thesis using b'(2,3) by (auto simp: built_def)
qed

end


context writable_file
begin

lemma write_index_stage:
  assumes b: "building opts valid bs seps cur r0" "fst cur = []" and same: "same_index r0 r"
    and r: "tb_status r = OK" "inv (tb_file r)" and e: "entries_ok opts valid fits w (table_es bs)"
  shows "\<exists>r' xs rs seps'. write_index F r = Some (\<lparr>bh_offset = tb_offset r, bh_size = of_nat (length (block_data xs rs))\<rparr>, r') \<and>
    stage r r' (block_image (block_data xs rs) kNoCompression) \<and> wf_items xs rs \<and>
    map snd xs = index_entries seps' bs \<and> length seps' = length bs \<and> separated (op_comparator opts) valid seps' bs []"
proof -
  have st: "tb_options r = opts" "\<forall>b \<in> set bs. wf_built b" "separated (op_comparator opts) valid seps bs []" "block_es cur = []"
    using b same by (auto simp: building_def building_core_def same_index_def block_es_def)
  have "\<exists>r1 xs rs seps'. (if tb_pending_index_entry r then do {
         last_key \<leftarrow> cmp_FindShortSuccessor (op_comparator (tb_options r)) (tb_last_key r);
         add_index_entry (r\<lparr>tb_last_key := last_key\<rparr>) } else Some r) = Some r1 \<and>
     built (index_options opts) xs rs (tb_index_block r1) \<and> map snd xs = index_entries seps' bs \<and> length seps' = length bs \<and>
     separated (op_comparator opts) valid seps' bs [] \<and> tb_file r1 = tb_file r \<and> tb_offset r1 = tb_offset r \<and> tb_status r1 = OK"
  proof (cases "tb_pending_index_entry r")
    case True
    then have p: "tb_pending_index_entry r0" using same by (simp add: same_index_def)
    have n: "length bs = Suc (length seps)" using b p by (simp add: building_def)
    then have ne: "bs \<noteq> []" by auto
    note last = last_block [OF st(2) ne]
    have "last (table_es bs) \<in> set (table_es bs)" "tb_last_key r0 = fst (last (table_es bs))"
      using last b(1) st(4) by (auto simp: building_def)
    then have v: "valid (tb_last_key r0)" using entries_okD(4) [OF e] by simp
    obtain sep where sep: "cmp_FindShortSuccessor (op_comparator opts) (tb_last_key r0) = Some sep" "valid sep"
        "key_le (op_comparator opts) (tb_last_key r0) sep"
      using comparator.successor [OF entries_okD(1) [OF e] v] by blast
    have "length sep \<le> length (tb_last_key r0)" using short_comparator.successor_length [OF entries_okD(2) [OF e] v sep(1)] .
    then obtain b' xs rs where ix: "add_index_entry (r0\<lparr>tb_last_key := sep\<rparr>) =
          Some (r0\<lparr>tb_last_key := sep, tb_index_block := b', tb_pending_index_entry := False\<rparr>)"
        "built (index_options opts) xs rs b'" "map snd xs = index_entries (seps @ [sep]) bs"
        "separated (op_comparator opts) valid (seps @ [sep]) bs []"
      using index_step [OF b(1) p, of fits w "[]" sep] e sep by auto
    have "tb_last_key r = tb_last_key r0" using same by (simp add: same_index_def)
    then show ?thesis
      using add_index_entry_same [OF same ix(1)] ix(2-4) sep(1) n True r st(1)
      by (intro exI [of _ "r\<lparr>tb_last_key := sep, tb_index_block := b', tb_pending_index_entry := False\<rparr>"] exI [of _ xs] exI [of _ rs]
          exI [of _ "seps @ [sep]"]) simp
  next
    case False
    then have "length bs = length seps" "tb_index_block r = tb_index_block r0" using b same by (auto simp: building_def same_index_def)
    then show ?thesis using b(1) st False r by (auto simp: building_def building_core_def)
  qed
  then obtain r1 xs rs seps' where r1: "(if tb_pending_index_entry r then do {
         last_key \<leftarrow> cmp_FindShortSuccessor (op_comparator (tb_options r)) (tb_last_key r);
         add_index_entry (r\<lparr>tb_last_key := last_key\<rparr>) } else Some r) = Some r1"
     "built (index_options opts) xs rs (tb_index_block r1)" "map snd xs = index_entries seps' bs" "length seps' = length bs"
     "separated (op_comparator opts) valid seps' bs []" "tb_file r1 = tb_file r" "tb_offset r1 = tb_offset r" "tb_status r1 = OK"
    by blast
  obtain s f b'' where w: "WriteBlock F (tb_index_block r1) r1 = Some (\<lparr>bh_offset = tb_offset r1, bh_size = of_nat (length (block_data xs rs))\<rparr>, b'',
        (wrote (length (block_data xs rs)) s f r1)\<lparr>tb_compressed_output := []\<rparr>)"
      "outcome (tb_file r1) f s (block_image (block_data xs rs) kNoCompression)"
    using WriteBlock_outcome [OF _ r1(8,2)] r(2) r1(6) by auto
  define r' where "r' = (wrote (length (block_data xs rs)) s f r1)\<lparr>tb_compressed_output := [], tb_index_block := b''\<rparr>"
  have "write_index F r = Some (\<lparr>bh_offset = tb_offset r, bh_size = of_nat (length (block_data xs rs))\<rparr>, r')"
    by (simp only: write_index_def r(1) ok_iff simp_thms if_True r1(1,7) Option.bind_lunit w(1) prod.case r'_def)
  moreover have "stage r r' (block_image (block_data xs rs) kNoCompression)"
    by (rule stage_update [OF wrote_stage [OF w(2)]]) (simp_all add: r1 r'_def)
  moreover have "wf_items xs rs" using r1(2) by (simp add: built_def)
  ultimately show ?thesis using r1(3-5) by blast
qed

lemma write_footer_stage:
  assumes "tb_status r = OK" "inv (tb_file r)" "handle_ok hm" "handle_ok hi"
  shows "\<exists>r'. write_footer F hm hi r = Some r' \<and> stage r r' (footer_bytes \<lparr>ft_metaindex_handle = hm, ft_index_handle = hi\<rparr>)"
proof -
  let ?ft = "\<lparr>ft_metaindex_handle = hm, ft_index_handle = hi\<rparr>"
  have enc: "Footer_EncodeTo ?ft [] = Some (footer_bytes ?ft)" using Footer_EncodeTo_bytes assms(3,4) by simp
  obtain s f where f: "wf_Append F (footer_bytes ?ft) (tb_file r) = Some (s, f)" "outcome (tb_file r) f s (footer_bytes ?ft)"
    using append_outcome assms(2) by blast
  then show ?thesis
    using enc assms(1) by (cases "s = OK") (auto simp: write_footer_def stage_def outcome_def Let_def)
qed

lemma Flush_final:
  assumes b: "building opts valid bs seps cur r" and h: "holds bs r" and e: "entries_ok opts valid fits w (table_es bs @ block_es cur)"
  shows "\<exists>r'. TableBuilder_Flush F r = Some r' \<and> advanced r r' \<and>
    (tb_status r' = OK \<longrightarrow> (\<exists>bs' cur'. building opts valid bs' seps cur' r' \<and> fst cur' = [] \<and> holds bs' r' \<and>
      table_es bs' = table_es bs @ block_es cur))"
proof (cases "fst cur = []")
  case True
  have st: "tb_status r = OK" "\<not> tb_closed r" "built opts (fst cur) (snd cur) (tb_data_block r)"
    using b by (simp_all add: building_def building_core_def)
  then have "TableBuilder_Flush F r = Some r" using True built_empty [OF st(3)] by (simp add: TableBuilder_Flush_def)
  moreover have "advanced r r" using st h by (simp add: advanced_def holds_def)
  moreover have "block_es cur = []" using True by (simp add: block_es_def)
  ultimately show ?thesis using b h True by (metis append_Nil2)
next
  case False
  show ?thesis using Flush_step [OF b False h e] by (metis fst_conv table_es_simps(2,3))
qed

end


section \<open>The complete table\<close>

context writable_file
begin

lemma same_index_closed: "same_index r (r\<lparr>tb_closed := True\<rparr>)"
  by (simp add: same_index_def)

lemma Finish_parts:
  assumes b: "building opts valid bs seps cur r0" "fst cur = []" and h: "holds bs r0"
    and e: "entries_ok opts valid fits w (table_es bs)"
  shows "\<exists>r'. do { (hf, r) \<leftarrow> write_filter F (r0\<lparr>tb_closed := True\<rparr>); (hm, r) \<leftarrow> write_metaindex F hf r;
      (hi, r) \<leftarrow> write_index F r; write_footer F hm hi r } = Some r' \<and> inv (tb_file r') \<and>
    (reliable (tb_file r0) \<longrightarrow> tb_status r' = OK) \<and>
    (tb_status r' = OK \<longrightarrow> is_table opts valid fits (table_es bs) (written (tb_file r')))"
proof -
  let ?r0 = "r0\<lparr>tb_closed := True\<rparr>"
  have st: "tb_status r0 = OK" "tb_options r0 = opts" "tb_offset r0 = of_nat (length (blocks_image bs))" "\<forall>b \<in> set bs. wf_built b"
      "filter_state opts (filter_blocks bs @ [(tb_offset r0, [])]) r0"
    using b by (auto simp: building_def building_core_def block_es_def)
  have fl: "inv (tb_file r0)" "written (tb_file r0) = blocks_image bs" using h by (simp_all add: holds_def)
  obtain hf r1 fimg where r1: "write_filter F ?r0 = Some (hf, r1)" "same_index ?r0 r1" "stage ?r0 r1 fimg"
      "length fimg \<le> 2 * w * length (table_es bs) + data_bound (table_es bs) + 14"
      "filter_part opts fits bs fimg (case op_filter_policy opts of None \<Rightarrow> [] | Some P \<Rightarrow> [(filter_key P, handle_bytes hf)])"
      "op_filter_policy opts \<noteq> None \<longrightarrow> handle_ok hf"
    using write_filter_stage [of ?r0 bs opts valid fits w] st fl e by auto
  show ?thesis
  proof (cases "tb_status r1 = OK")
    case False
    then show ?thesis using r1(1,3) skip_parts [OF False] by (simp add: stage_def)
  next
    case ok1: True
    have m1: "inv (tb_file r1)" "tb_options r1 = opts" "tb_filter_block r1 = None \<longleftrightarrow> op_filter_policy opts = None"
      using r1(2,3) st(2,5) by (auto simp: same_index_def stage_def filter_state_def split: option.splits)
    obtain r2 mxs mrs where r2: "write_metaindex F hf r1 =
          Some (\<lparr>bh_offset = tb_offset r1, bh_size = of_nat (length (block_data mxs mrs))\<rparr>, r2)"
        "same_index r1 r2" "stage r1 r2 (block_image (block_data mxs mrs) kNoCompression)" "wf_items mxs mrs"
        "map snd mxs = (case op_filter_policy opts of None \<Rightarrow> [] | Some P \<Rightarrow> [(filter_key P, handle_bytes hf)])"
      using write_metaindex_stage [OF ok1 m1 entries_okD(3) [OF e] r1(6)] by blast
    show ?thesis
    proof (cases "tb_status r2 = OK")
      case False
      then show ?thesis using r1(1,3) r2(1,3) skip_parts [OF False] by (auto simp: stage_def)
    next
      case ok2: True
      have "same_index r0 r2" using same_index_trans same_index_closed r1(2) r2(2) by blast
      moreover have "inv (tb_file r2)" using r2(3) by (simp add: stage_def)
      ultimately obtain r3 xs rs seps' where r3: "write_index F r2 =
            Some (\<lparr>bh_offset = tb_offset r2, bh_size = of_nat (length (block_data xs rs))\<rparr>, r3)"
          "stage r2 r3 (block_image (block_data xs rs) kNoCompression)" "wf_items xs rs" "map snd xs = index_entries seps' bs"
          "length seps' = length bs" "separated (op_comparator opts) valid seps' bs []"
        using write_index_stage [OF b _ ok2 _ e] by blast
      define a where "a = blocks_image bs @ fimg"
      define m where "m = a @ block_image (block_data mxs mrs) kNoCompression"
      have off: "tb_offset r1 = of_nat (length a)" "tb_offset r2 = of_nat (length m)"
        using r1(3) r2(3) ok1 ok2 st(3) by (simp_all add: stage_def a_def m_def)
      define T where "T = table_image a (block_data mxs mrs) (block_data xs rs)"
      have meta: "length (block_data mxs mrs) \<le> length (policy_name opts) + 54"
        using block_data_bound [OF r2(4)] r2(5) handle_bytes_length(1) [of hf]
        by (auto simp: size_bound_def policy_name_def filter_key_def ascii_def kMaxEncodedLength_def split: option.splits)
      have index: "length (block_data xs rs) \<le> sum_list (map (\<lambda>e. length (fst e) + 39) (table_es bs)) + 8"
        using block_data_bound [OF r3(3)] index_size [OF r3(5) st(4) r3(6)] r3(4) by simp
      have "length T \<le> table_bound w opts (table_es bs)"
        using bound_parts [where es = "table_es bs" and w = w and opts = opts] blocks_image_bound [OF st(4)] r1(4) meta index
        by (simp add: T_def table_image_def Let_def block_image_length kBlockTrailerSize_def footer_bytes_length a_def)
      then have small: "length T < 2 ^ 32" using e by (simp add: entries_ok_def)
      then have "length m < 2 ^ 32" "length a < 2 ^ 32" "length (block_data mxs mrs) < 2 ^ 32" "length (block_data xs rs) < 2 ^ 32"
        by (simp_all add: T_def table_image_def Let_def m_def block_image_length)
      then have ok: "handle_ok (handle_at a (block_data mxs mrs))" "handle_ok (handle_at m (block_data xs rs))"
        using of_nat_not_max by (simp_all add: handle_ok_def handle_at_def)
      show ?thesis
      proof (cases "tb_status r3 = OK")
        case False
        then show ?thesis using r1(1,3) r2(1,3) r3(1,2) skip_parts [OF False] by (auto simp: stage_def)
      next
        case ok3: True
        have "inv (tb_file r3)" using r3(2) by (simp add: stage_def)
        then obtain r4 where r4: "write_footer F (handle_at a (block_data mxs mrs)) (handle_at m (block_data xs rs)) r3 = Some r4"
            "stage r3 r4 (footer_bytes \<lparr>ft_metaindex_handle = handle_at a (block_data mxs mrs), ft_index_handle = handle_at m (block_data xs rs)\<rparr>)"
          using write_footer_stage [OF ok3 _ ok] by blast
        have "written (tb_file r4) = T" if "tb_status r4 = OK"
          using that r1(3) r2(3) r3(2) r4(2) ok1 ok2 ok3 fl(2) by (simp add: stage_def T_def table_image_def Let_def m_def a_def)
        then have "tb_status r4 = OK \<longrightarrow> is_table opts valid fits (table_es bs) (written (tb_file r4))"
          using small st(4) r3(3-6) r2(4,5) r1(5) unfolding is_table_def T_def a_def by metis
        then show ?thesis
          using r1(1,3) r2(1,3) r3(1,2) r4 off by (auto simp: stage_def handle_at_def)
      qed
    qed
  qed
qed

lemma Finish_table:
  assumes b: "building opts valid bs seps cur r" and h: "holds bs r" and e: "entries_ok opts valid fits w (table_es bs @ block_es cur)"
  shows "\<exists>s r'. TableBuilder_Finish F r = Some (s, r') \<and> inv (tb_file r') \<and> (reliable (tb_file r) \<longrightarrow> s = OK) \<and>
    (s = OK \<longrightarrow> is_table opts valid fits (table_es bs @ block_es cur) (written (tb_file r')))"
proof -
  obtain r1 where r1: "TableBuilder_Flush F r = Some r1" "advanced r r1"
      "tb_status r1 = OK \<longrightarrow> (\<exists>bs' cur'. building opts valid bs' seps cur' r1 \<and> fst cur' = [] \<and> holds bs' r1 \<and>
        table_es bs' = table_es bs @ block_es cur)"
    using Flush_final [OF b h e] by blast
  have open1: "\<not> tb_closed r1" using r1(2) by (simp add: advanced_def)
  have finish: "TableBuilder_Finish F r = do { r \<leftarrow> do { (hf, r) \<leftarrow> write_filter F (r1\<lparr>tb_closed := True\<rparr>); (hm, r) \<leftarrow> write_metaindex F hf r;
      (hi, r) \<leftarrow> write_index F r; write_footer F hm hi r }; Some (tb_status r, r) }"
    using r1(1) open1 by (simp add: TableBuilder_Finish_def split: option.split)
      (auto split: Option.bind_splits prod.splits)
  show ?thesis
  proof (cases "tb_status r1 = OK")
    case True
    then obtain bs' cur' where c: "building opts valid bs' seps cur' r1" "fst cur' = []" "holds bs' r1"
        "table_es bs' = table_es bs @ block_es cur"
      using r1(3) by blast
    have "entries_ok opts valid fits w (table_es bs')" using e c(4) by simp
    then obtain r' where r': "do { (hf, r) \<leftarrow> write_filter F (r1\<lparr>tb_closed := True\<rparr>); (hm, r) \<leftarrow> write_metaindex F hf r;
          (hi, r) \<leftarrow> write_index F r; write_footer F hm hi r } = Some r'"
        "inv (tb_file r')" "reliable (tb_file r1) \<longrightarrow> tb_status r' = OK"
        "tb_status r' = OK \<longrightarrow> is_table opts valid fits (table_es bs') (written (tb_file r'))"
      using Finish_parts [OF c(1-3)] by blast
    have "TableBuilder_Finish F r = Some (tb_status r', r')" unfolding finish r'(1) by simp
    then show ?thesis using r'(2-4) r1(2) c(4) by (simp add: advanced_def)
  next
    case False
    then have "TableBuilder_Finish F r = Some (tb_status r1, r1\<lparr>tb_closed := True\<rparr>)"
      unfolding finish using skip_parts [of "r1\<lparr>tb_closed := True\<rparr>" F] by simp
    then show ?thesis using r1(2) False by (simp add: advanced_def)
  qed
qed

lemma build_table_result:
  assumes "inv f" "written f = []" "entries_ok opts valid fits w es"
  shows "\<exists>s r. build_table F opts es f = Some (s, r) \<and> inv (tb_file r) \<and> (reliable f \<longrightarrow> s = OK) \<and>
    (s = OK \<longrightarrow> is_table opts valid fits es (written (tb_file r)))"
proof -
  obtain r0 where r0: "new_TableBuilder opts f = Some r0" "building opts valid [] [] ([], [0]) r0" "holds [] r0" "tb_file r0 = f"
    using new_TableBuilder_building [OF assms] by blast
  obtain r1 where r1: "table_entries F es r0 = Some r1" "advanced r0 r1"
      "tb_status r1 = OK \<longrightarrow> (\<exists>bs' seps' cur'. building opts valid bs' seps' cur' r1 \<and> holds bs' r1 \<and>
        table_es bs' @ block_es cur' = es)"
    using table_entries_step [OF r0(2,3), of fits w es] assms(3) unfolding table_es_simps append_Nil by blast
  show ?thesis
  proof (cases "tb_status r1 = OK")
    case True
    then obtain bs seps cur where c: "building opts valid bs seps cur r1" "holds bs r1" "table_es bs @ block_es cur = es"
      using r1(3) by blast
    then show ?thesis
      using Finish_table [OF c(1,2), of fits w] assms(3) r0(1,4) r1(1,2) by (auto simp: build_table_def advanced_def)
  next
    case False
    then have "TableBuilder_Finish F r1 = Some (tb_status r1, r1\<lparr>tb_closed := True\<rparr>)"
      using r1(2) skip_parts [of "r1\<lparr>tb_closed := True\<rparr>"] by (simp add: TableBuilder_Finish_def TableBuilder_Flush_def advanced_def)
    then show ?thesis using False r0(1,4) r1(1,2) by (auto simp: build_table_def advanced_def)
  qed
qed

end

end
