(* ===== verification/Ldb_Table.thy ===== *)
theory Ldb_Table
  imports Ldb_Two_Level Ldb_Table_Finish
begin

text \<open>
  Reading tables, \<open>table/table.cc\<close>, without a block cache (\<open>options.block_cache == nullptr\<close>).
  The blocks are values, so that nothing is to be deleted. \<open>addr\<close> gives the address at
  which the block of a handle ends up, on which the checksum does not depend. The call of
  \<open>handle_result\<close> in \<open>InternalGet\<close> is part of the result.
\<close>

section \<open>Iterators over blocks\<close>

text \<open>\<open>Block::NewIterator\<close> returns an empty iterator with a status, or one over the entries.\<close>

abbreviation block_iterator :: "Comparator \<Rightarrow> (Status + Iter) Iterator" where
  "block_iterator C \<equiv> either_iterator EmptyIterator (BlockIter C)"

section \<open>Tables\<close>

record Table =
  tr_options :: Options
  tr_status :: Status
  tr_file :: RandomAccessFile
  tr_cache_id :: u64
  tr_filter :: "(FilterPolicy \<times> FilterBlockReader) option"
  tr_filter_data :: "byte list option"
  tr_metaindex_handle :: BlockHandle
  tr_index_block :: Block

abbreviation table_comparator :: "Table \<Rightarrow> Comparator" where
  "table_comparator t \<equiv> op_comparator (tr_options t)"

text \<open>The options for reading the index, the metaindex and the filter.\<close>

definition paranoid :: "Options \<Rightarrow> ReadOptions" where
  "paranoid options = (if op_paranoid_checks options then new_ReadOptions\<lparr>ro_verify_checksums := True\<rparr> else new_ReadOptions)"

definition ReadFilter :: "(BlockHandle \<Rightarrow> u64) \<Rightarrow> byte list \<Rightarrow> Table \<Rightarrow> Table option" where
  "ReadFilter addr filter_handle_value t = (case BlockHandle_DecodeFrom filter_handle_value new_BlockHandle of (s, filter_handle, _) \<Rightarrow>
     if \<not> ok s then Some t
     else do {
       (s, block) \<leftarrow> ReadBlock (addr filter_handle) (tr_file t) (paranoid (tr_options t)) filter_handle;
       if \<not> ok s then Some t
       else do {
         let t = (if bc_heap_allocated block then t\<lparr>tr_filter_data := Some (bc_data block)\<rparr> else t);
         P \<leftarrow> op_filter_policy (tr_options t);
         reader \<leftarrow> new_FilterBlockReader (bc_data block);
         Some (t\<lparr>tr_filter := Some (P, reader)\<rparr>) } })"

definition ReadMeta :: "(BlockHandle \<Rightarrow> u64) \<Rightarrow> Footer \<Rightarrow> Table \<Rightarrow> Table option" where
  "ReadMeta addr footer t = (case op_filter_policy (tr_options t) of
     None \<Rightarrow> Some t
   | Some P \<Rightarrow> do {
       let h = ft_metaindex_handle footer;
       (s, contents) \<leftarrow> ReadBlock (addr h) (tr_file t) (paranoid (tr_options t)) h;
       if \<not> ok s then Some t
       else do {
         meta \<leftarrow> new_Block (bc_data contents);
         iter \<leftarrow> Block_NewIterator meta;
         let I = block_iterator BytewiseComparator;
         let key = ascii (''filter.'' @ fp_Name P);
         iter \<leftarrow> it_Seek I key iter;
         if it_Valid I iter then do {
           k \<leftarrow> it_key I iter;
           if k = key then do { v \<leftarrow> it_value I iter; ReadFilter addr v t } else Some t }
         else Some t } })"

definition Table_Open :: "(BlockHandle \<Rightarrow> u64) \<Rightarrow> Options \<Rightarrow> RandomAccessFile \<Rightarrow> u64 \<Rightarrow> (Status \<times> Table option) option" where
  "Table_Open addr options file sz = (
     if sz < of_nat kEncodedLength then Some (Corruption (ascii ''file is too short to be an sstable''), None)
     else do {
       (s, footer_input) \<leftarrow> rf_Read file (sz - of_nat kEncodedLength) (of_nat kEncodedLength);
       if \<not> ok s then Some (s, None)
       else do {
         (s, footer, _) \<leftarrow> Footer_DecodeFrom footer_input new_Footer;
         if \<not> ok s then Some (s, None)
         else do {
           let h = ft_index_handle footer;
           (s, index_block_contents) \<leftarrow> ReadBlock (addr h) file (paranoid options) h;
           if \<not> ok s then Some (s, None)
           else do {
             index_block \<leftarrow> new_Block (bc_data index_block_contents);
             t \<leftarrow> ReadMeta addr footer \<lparr>tr_options = options, tr_status = OK, tr_file = file, tr_cache_id = 0, tr_filter = None,
               tr_filter_data = None, tr_metaindex_handle = ft_metaindex_handle footer, tr_index_block = index_block\<rparr>;
             Some (s, Some t) } } } })"

definition BlockReader :: "(BlockHandle \<Rightarrow> u64) \<Rightarrow> ReadOptions \<Rightarrow> Table \<Rightarrow> byte list \<Rightarrow> (Status + Iter) option" where
  "BlockReader addr options t index_value = (case BlockHandle_DecodeFrom index_value new_BlockHandle of (s, handle, _) \<Rightarrow>
     if \<not> ok s then Some (Inl (NewErrorIterator s))
     else do {
       (s, contents) \<leftarrow> ReadBlock (addr handle) (tr_file t) options handle;
       if \<not> ok s then Some (Inl (NewErrorIterator s))
       else do { block \<leftarrow> new_Block (bc_data contents); Block_NewIterator block } })"

type_synonym table_iter = "(Status + Iter, Status + Iter) TwoLevelIterator"

definition TableIter :: "(BlockHandle \<Rightarrow> u64) \<Rightarrow> ReadOptions \<Rightarrow> Table \<Rightarrow> table_iter Iterator" where
  "TableIter addr options t = TwoLevel (block_iterator (table_comparator t)) (block_iterator (table_comparator t)) (BlockReader addr options t)"

definition Table_NewIterator :: "Table \<Rightarrow> table_iter option" where
  "Table_NewIterator t = do {
     index_iter \<leftarrow> Block_NewIterator (tr_index_block t);
     new_TwoLevelIterator (block_iterator (table_comparator t)) index_iter }"

text \<open>\<open>filter != nullptr && handle.DecodeFrom(...).ok() && !filter->KeyMayMatch(...)\<close>\<close>

definition filtered_out :: "Table \<Rightarrow> byte list \<Rightarrow> byte list \<Rightarrow> bool option" where
  "filtered_out t handle_value k = (case tr_filter t of None \<Rightarrow> Some False
     | Some (P, reader) \<Rightarrow> (case BlockHandle_DecodeFrom handle_value new_BlockHandle of (s, handle, _) \<Rightarrow>
         if ok s then do { may \<leftarrow> reader_KeyMayMatch P reader (bh_offset handle) k; Some (\<not> may) } else Some False))"

definition InternalGet :: "(BlockHandle \<Rightarrow> u64) \<Rightarrow> ReadOptions \<Rightarrow> byte list \<Rightarrow> Table \<Rightarrow> (Status \<times> entry option) option" where
  "InternalGet addr options k t = do {
     let I = block_iterator (table_comparator t);
     iiter \<leftarrow> Block_NewIterator (tr_index_block t);
     iiter \<leftarrow> it_Seek I k iiter;
     (s, call) \<leftarrow> (if it_Valid I iiter then do {
         handle_value \<leftarrow> it_value I iiter;
         out \<leftarrow> filtered_out t handle_value k;
         if out then Some (OK, None)
         else do {
           block_iter \<leftarrow> BlockReader addr options t handle_value;
           block_iter \<leftarrow> it_Seek I k block_iter;
           call \<leftarrow> (if it_Valid I block_iter
             then do { key \<leftarrow> it_key I block_iter; v \<leftarrow> it_value I block_iter; Some (Some (key, v)) } else Some None);
           s \<leftarrow> it_status I block_iter;
           Some (s, call) } }
       else Some (OK, None));
     s \<leftarrow> (if ok s then it_status I iiter else Some s);
     Some (s, call) }"

definition ApproximateOffsetOf :: "byte list \<Rightarrow> Table \<Rightarrow> u64 option" where
  "ApproximateOffsetOf key t = do {
     let I = block_iterator (table_comparator t);
     index_iter \<leftarrow> Block_NewIterator (tr_index_block t);
     index_iter \<leftarrow> it_Seek I key index_iter;
     if it_Valid I index_iter then do {
       input \<leftarrow> it_value I index_iter;
       case BlockHandle_DecodeFrom input new_BlockHandle of (s, handle, _) \<Rightarrow>
         Some (if ok s then bh_offset handle else bh_offset (tr_metaindex_handle t)) }
     else Some (bh_offset (tr_metaindex_handle t)) }"

section \<open>The iterator over a block as a cursor\<close>

definition right_at :: "Comparator \<Rightarrow> (byte list \<Rightarrow> bool) \<Rightarrow> entry list \<Rightarrow> Status + Iter \<Rightarrow> nat \<Rightarrow> bool" where
  "right_at C valid es s i \<longleftrightarrow> (\<exists>it. s = Inr it \<and> block_at C valid es it i)"

interpretation block_or_error: iterator "block_iterator C" C es valid "right_at C valid es"
  using block_iter.either_right [of EmptyIterator C es valid] by (simp add: right_at_def [abs_def])

end
