(* ===== verification/Ldb_Table_Correct.thy ===== *)
theory Ldb_Table_Correct
  imports Ldb_Table Ldb_Dbformat
begin

text \<open>
  What is written to a table is read from it. A table that has been opened serves an index and
  the blocks its entries lead to; the two-level iterator over them is an iterator over the
  entries of the table, and \<open>InternalGet\<close> finds every key, with or without a filter.
\<close>

section \<open>What an open table serves\<close>

text \<open>\<open>ix\<close> is the index and \<open>blk h\<close> the entries of the block with the encoded handle \<open>h\<close>.\<close>

definition serves_blocks :: "(BlockHandle \<Rightarrow> u64) \<Rightarrow> Comparator \<Rightarrow> (byte list \<Rightarrow> bool) \<Rightarrow> entry list \<Rightarrow> (byte list \<Rightarrow> entry list) \<Rightarrow> Table \<Rightarrow> bool" where
  "serves_blocks addr C valid ix blk t \<longleftrightarrow> blocks_ordered C valid blk ix \<and>
     (\<forall>h \<in> snd ` set ix. \<forall>options. \<exists>s. BlockReader addr options t h = Some s \<and> right_at C valid (blk h) s (length (blk h)))"

definition serves_filter :: "(byte list \<Rightarrow> bool) \<Rightarrow> entry list \<Rightarrow> (byte list \<Rightarrow> entry list) \<Rightarrow> Table \<Rightarrow> bool" where
  "serves_filter valid ix blk t \<longleftrightarrow> (\<forall>i \<in> set ix. \<forall>key. valid key \<longrightarrow>
     (\<exists>out. filtered_out t (snd i) key = Some out \<and> (key \<in> fst ` set (blk (snd i)) \<longrightarrow> \<not> out)))"

definition serves :: "(BlockHandle \<Rightarrow> u64) \<Rightarrow> Comparator \<Rightarrow> (byte list \<Rightarrow> bool) \<Rightarrow> entry list \<Rightarrow> (byte list \<Rightarrow> entry list) \<Rightarrow> Table \<Rightarrow> bool" where
  "serves addr C valid ix blk t \<longleftrightarrow> table_comparator t = C \<and> serves_blocks addr C valid ix blk t \<and> serves_filter valid ix blk t \<and>
     (\<exists>s. Block_NewIterator (tr_index_block t) = Some s \<and> right_at C valid ix s (length ix))"

definition index_at_pos :: "(BlockHandle \<Rightarrow> u64) \<Rightarrow> Comparator \<Rightarrow> (byte list \<Rightarrow> bool) \<Rightarrow> entry list \<Rightarrow> (byte list \<Rightarrow> entry list) \<Rightarrow> Table \<Rightarrow>
    Status + Iter \<Rightarrow> nat \<Rightarrow> bool" where
  "index_at_pos addr C valid ix blk t s i \<longleftrightarrow> serves_blocks addr C valid ix blk t \<and> right_at C valid ix s i"

interpretation table_index: iterator "block_iterator C" C ix valid "index_at_pos addr C valid ix blk t"
proof (unfold_locales, goal_cases)
  case (1 s i) then show ?case using block_or_error.at_le by (auto simp: index_at_pos_def)
next
  case (2 s i) then show ?case using block_or_error.valid_iff by (auto simp: index_at_pos_def)
next
  case (3 s i) then show ?case using block_or_error.key_eq by (auto simp: index_at_pos_def)
next
  case (4 s i) then show ?case using block_or_error.value_eq by (auto simp: index_at_pos_def)
next
  case (5 s i) then show ?case using block_or_error.status_eq by (auto simp: index_at_pos_def)
next
  case (6 s i) then show ?case using block_or_error.first_at [of C valid ix s i] by (auto simp: index_at_pos_def)
next
  case (7 s i) then show ?case using block_or_error.last_at [of C valid ix s i] by (auto simp: index_at_pos_def)
next
  case (8 s i target) then show ?case using block_or_error.seek_at [of C valid ix s i target] by (auto simp: index_at_pos_def)
next
  case (9 s i) then show ?case using block_or_error.next_at [of C valid ix s i] by (auto simp: index_at_pos_def)
next
  case (10 s i) then show ?case using block_or_error.prev_at [of C valid ix s i] by (auto simp: index_at_pos_def)
qed

interpretation table_iter: two_level "block_iterator C" C ix valid "index_at_pos addr C valid ix blk t"
  "block_iterator C" "BlockReader addr options t" blk "\<lambda>h. right_at C valid (blk h)"
proof (unfold_locales, goal_cases)
  case (1 s i h)
  then show ?case unfolding index_at_pos_def serves_blocks_def by blast
next
  case (2 s i)
  then show ?case by (simp add: index_at_pos_def serves_blocks_def)
qed

interpretation table_entries: iterator "TwoLevel (block_iterator C) (block_iterator C) (BlockReader addr options t)" C "block_entries blk ix" valid
  "table_iter.level_at ix addr C valid blk t"
  by (rule table_iter.level_iterator)

lemma table_iterator_at:
  assumes "serves addr C valid ix blk t"
  shows "\<exists>it. Table_NewIterator t = Some it \<and> table_iter.level_at ix addr C valid blk t it (length (block_entries blk ix))"
proof -
  obtain s where s: "Block_NewIterator (tr_index_block t) = Some s" "right_at C valid ix s (length ix)"
    using assms by (auto simp: serves_def)
  then have "index_at_pos addr C valid ix blk t s (length ix)" using assms by (simp add: index_at_pos_def serves_def)
  then show ?thesis using table_iter.new_level s(1) assms by (auto simp: Table_NewIterator_def serves_def)
qed

section \<open>Looking up a key\<close>

lemma lower_bound_member:
  assumes "comparator C valid" "valid key" "sorted_wrt (\<lambda>a b. key_less C (fst a) (fst b)) es" "(key, v) \<in> set es"
  shows "lower_bound C es key < length es" "es ! lower_bound C es key = (key, v)"
proof -
  obtain p where p: "p < length es" "es ! p = (key, v)" using assms(4) by (auto simp: in_set_conv_nth)
  have "lower_bound C es key = p"
  proof (rule lower_bound_eqI)
    show "key_less C (fst (es ! j)) key" if "j < p" for j
      using assms(3) p that by (fastforce simp: sorted_wrt_iff_nth_less)
  qed (use p key_order.less_irrefl [OF comparator.axioms(1) [OF assms(1)] assms(2)] in simp_all)
  then show "lower_bound C es key < length es" "es ! lower_bound C es key = (key, v)" using p by simp_all
qed

text \<open>The index leads to the block of a key.\<close>

lemma key_block:
  assumes o: "blocks_ordered C valid blk ix" and "valid key" "(key, v) \<in> set (block_entries blk ix)"
  shows "lower_bound C ix key < length ix" "(key, v) \<in> set (blk (snd (ix ! lower_bound C ix key)))"
proof -
  obtain j where j: "j < length ix" "(key, v) \<in> set (blk (snd (ix ! j)))"
    using assms(3) by (auto simp: block_entries_set in_set_conv_nth [of _ ix])
  have "ix ! j \<in> set ix" using j(1) by simp
  then have c: "comparator C valid" "valid (fst (ix ! j))" "\<forall>e \<in> set (blk (snd (ix ! j))). key_le C (fst e) (fst (ix ! j))"
    using o by (simp_all add: blocks_ordered_def)
  have le: "key_le C key (fst (ix ! j))" using bspec [OF c(3) j(2)] by simp
  have "lower_bound C ix key = j"
  proof (rule lower_bound_eqI)
    show "key_less C (fst (ix ! i)) key" if "i < j" for i
      using o j that by (fastforce simp: blocks_ordered_def sorted_wrt_iff_nth_less)
    show "\<not> key_less C (fst (ix ! j)) key" using le key_order.not_less [OF comparator.axioms(1) [OF c(1)] c(2) assms(2)] by blast
  qed (use j in simp)
  then show "lower_bound C ix key < length ix" "(key, v) \<in> set (blk (snd (ix ! lower_bound C ix key)))" using j by simp_all
qed

lemma InternalGet_correct:
  assumes t: "serves addr C valid ix blk t" and key: "valid key"
  shows "\<exists>call. InternalGet addr options key t = Some (OK, call) \<and>
    (\<forall>e. call = Some e \<longrightarrow> entry_at_pos (block_entries blk ix) (lower_bound C (block_entries blk ix) key) = Some e) \<and>
    (\<forall>v. (key, v) \<in> set (block_entries blk ix) \<longrightarrow> call = Some (key, v))"
proof -
  define k where "k = lower_bound C ix key"
  have C: "table_comparator t = C" and o: "blocks_ordered C valid blk ix" using t by (simp_all add: serves_def serves_blocks_def)
  have c: "comparator C valid" using o by (simp add: blocks_ordered_def)
  obtain s where s: "Block_NewIterator (tr_index_block t) = Some s" "right_at C valid ix s (length ix)" using t by (auto simp: serves_def)
  obtain s' where s': "it_Seek (block_iterator C) key s = Some s'" "right_at C valid ix s' k"
    using block_or_error.seek_at [OF s(2) key] by (auto simp: k_def)
  note at = block_or_error.valid_iff [OF s'(2)] block_or_error.status_eq [OF s'(2)]
  note lb = lower_bound_blocks [OF o key k_def]
  show ?thesis
  proof (cases "k < length ix")
    case False
    then show ?thesis
      using C s(1) s'(1) at key_block [OF o key] by (auto simp: InternalGet_def Let_def k_def)
  next
    case True
    define h where "h = snd (ix ! k)"
    have hv: "it_value (block_iterator C) s' = Some h" using block_or_error.value_eq [OF s'(2) True] by (simp add: h_def)
    obtain out where out: "filtered_out t h key = Some out" "key \<in> fst ` set (blk h) \<longrightarrow> \<not> out"
      using t key nth_mem [OF True] unfolding serves_def serves_filter_def h_def by blast
    obtain d where d: "BlockReader addr options t h = Some d" "right_at C valid (blk h) d (length (blk h))"
      using t True unfolding serves_def serves_blocks_def h_def by (metis imageI nth_mem)
    define q where "q = lower_bound C (blk h) key"
    obtain d' where d': "it_Seek (block_iterator C) key d = Some d'" "right_at C valid (blk h) d' q"
      using block_or_error.seek_at [OF d(2) key] by (auto simp: q_def)
    note dat = block_or_error.valid_iff [OF d'(2)] block_or_error.status_eq [OF d'(2)]
      block_or_error.key_eq [OF d'(2)] block_or_error.value_eq [OF d'(2)]
    define call where "call = (if out then None else entry_at_pos (blk h) q)"
    have "InternalGet addr options key t = Some (OK, call)"
      using C s(1) s'(1) at True hv out(1) d(1) d'(1) dat
      by (simp add: InternalGet_def Let_def call_def entry_at_pos_def)
    moreover have "entry_at_pos (block_entries blk ix) (lower_bound C (block_entries blk ix) key) = Some e" if "call = Some e" for e
      using that True lb block_entries_nth [OF True, of q blk]
      by (auto simp: call_def entry_at_pos_def q_def h_def split: if_splits)
    moreover have "call = Some (key, v)" if "(key, v) \<in> set (block_entries blk ix)" for v
    proof -
      have m: "(key, v) \<in> set (blk h)" using key_block [OF o key that] by (simp add: h_def k_def)
      have "sorted_wrt (\<lambda>a b. key_less C (fst a) (fst b)) (blk h)" using d(2) by (auto simp: right_at_def block_at_def)
      then show ?thesis using lower_bound_member [OF c key _ m] out(2) m by (force simp: call_def entry_at_pos_def q_def)
    qed
    ultimately show ?thesis by blast
  qed
qed


section \<open>The blocks of a table file\<close>

definition blk_of :: "built_block list \<Rightarrow> byte list \<Rightarrow> entry list" where
  "blk_of bs h = (case map_of (map (\<lambda>i. (handle_bytes (handle_of bs i), block_es (bs ! i))) [0..<length bs]) h of
     None \<Rightarrow> [] | Some es \<Rightarrow> es)"

lemma handle_bytes_inj: "handle_bytes h = handle_bytes h' \<longleftrightarrow> h = h'"
  by (metis BlockHandle_DecodeFrom_bytes Pair_inject)

lemma blocks_image_grows:
  assumes "i < j" "j < length bs"
  shows "length (blocks_image (take i bs)) < length (blocks_image (take j bs))"
proof -
  have eq: "take j bs = take i bs @ [bs ! i] @ drop (Suc i) (take j bs)"
    using id_take_nth_drop [of i "take j bs"] assms by (simp add: min_def)
  have "blocks_image (take j bs) = blocks_image (take i bs) @ blocks_image [bs ! i] @ blocks_image (drop (Suc i) (take j bs))"
    by (subst eq) (simp only: blocks_image_simps(2))
  then show ?thesis by (simp add: block_image_length kBlockTrailerSize_def)
qed

lemma handle_of_inj:
  assumes "length (blocks_image bs) < 2 ^ 32" "i < length bs" "j < length bs" "handle_of bs i = handle_of bs j"
  shows "i = j"
proof -
  have small: "unat (of_nat (length (blocks_image (take n bs))) :: u64) = length (blocks_image (take n bs))" for n
  proof -
    have "length (blocks_image (take n bs)) \<le> length (blocks_image bs)"
      by (metis append_take_drop_id blocks_image_simps(2) le_add1 length_append)
    then show ?thesis using assms(1) by (simp add: unat_of_nat_small)
  qed
  have "(of_nat (length (blocks_image (take i bs))) :: u64) = of_nat (length (blocks_image (take j bs)))"
    using arg_cong [OF assms(4), of bh_offset] by (simp only: handle_of_def BlockHandle.select_convs)
  then have "length (blocks_image (take i bs)) = length (blocks_image (take j bs))" using small [of i] small [of j] by metis
  then have "\<not> i < j" "\<not> j < i" using blocks_image_grows [of i j bs] blocks_image_grows [of j i bs] assms(2,3) by fastforce+
  then show ?thesis by simp
qed

lemma blk_of_handle:
  assumes "length (blocks_image bs) < 2 ^ 32" "i < length bs"
  shows "blk_of bs (handle_bytes (handle_of bs i)) = block_es (bs ! i)"
proof -
  have "distinct (map fst (map (\<lambda>i. (handle_bytes (handle_of bs i), block_es (bs ! i))) [0..<length bs]))"
    using handle_of_inj [OF assms(1)] by (auto simp: distinct_map inj_on_def handle_bytes_inj)
  moreover have "(handle_bytes (handle_of bs i), block_es (bs ! i)) \<in> set (map (\<lambda>i. (handle_bytes (handle_of bs i), block_es (bs ! i))) [0..<length bs])"
    using assms(2) by auto
  ultimately show ?thesis by (simp add: blk_of_def del: map_map)
qed

lemma block_entries_table:
  assumes "length (blocks_image bs) < 2 ^ 32" "length seps = length bs"
  shows "block_entries (blk_of bs) (index_entries seps bs) = table_es bs"
proof -
  have "map (\<lambda>i. blk_of bs (snd i)) (index_entries seps bs) = map (\<lambda>i. block_es (bs ! i)) [0..<length bs]"
    using assms by (simp add: index_entries_def blk_of_handle)
  also have "\<dots> = map block_es bs" by (rule nth_equalityI) simp_all
  finally show ?thesis by (simp add: block_entries_def table_es_def)
qed

lemma index_entries_set: "i \<in> set (index_entries seps bs) \<longleftrightarrow> (\<exists>j < length seps. i = (seps ! j, handle_bytes (handle_of bs j)))"
  by (auto simp: index_entries_def)

lemma block_es_member: "j < length bs \<Longrightarrow> e \<in> set (block_es (bs ! j)) \<Longrightarrow> e \<in> set (table_es bs)"
  by (auto simp: table_es_def)

lemma block_es_behind: "i < j \<Longrightarrow> j < length bs \<Longrightarrow> e \<in> set (block_es (bs ! j)) \<Longrightarrow> e \<in> set (table_es (drop (Suc i) bs))"
  using block_es_member [of "j - Suc i" "drop (Suc i) bs" e] by (simp add: less_diff_conv2)

lemma table_ordered:
  assumes c: "comparator C valid" and small: "length (blocks_image bs) < 2 ^ 32" and n: "length seps = length bs"
    and wf: "\<forall>b \<in> set bs. wf_built b" and s: "separated C valid seps bs []" and v: "\<forall>e \<in> set (table_es bs). valid (fst e)"
  shows "blocks_ordered C valid (blk_of bs) (index_entries seps bs)"
proof -
  have less: "key_less C (seps ! i) (fst e)" if "i < j" "j < length bs" "e \<in> set (block_es (bs ! j))" for i j e
    using s n that block_es_behind [OF that] by (auto simp: separated_def)
  have seps: "key_less C (seps ! i) (seps ! j)" if "i < j" "j < length bs" for i j
  proof -
    have "block_es (bs ! j) \<noteq> []" using wf that by (simp add: wf_built_def block_es_def)
    then have m: "last (block_es (bs ! j)) \<in> set (block_es (bs ! j))" by simp
    have "valid (fst (last (block_es (bs ! j))))" using v block_es_member [OF that(2) m] by blast
    moreover have "valid (seps ! i)" "valid (seps ! j)" "key_le C (fst (last (block_es (bs ! j)))) (seps ! j)"
      using s n that m by (simp_all add: separated_def)
    ultimately show ?thesis using key_order.less_le_trans [OF comparator.axioms(1) [OF c]] less [OF that m] by blast
  qed
  have v': "\<forall>j < length bs. \<forall>e \<in> set (block_es (bs ! j)). valid (fst e)" using v block_es_member by blast
  have block: "valid (seps ! j)" "\<forall>e \<in> set (blk_of bs (handle_bytes (handle_of bs j))). valid (fst e)"
      "\<forall>e \<in> set (blk_of bs (handle_bytes (handle_of bs j))). key_le C (fst e) (seps ! j)" if "j < length bs" for j
    using s n v' that by (simp_all add: blk_of_handle [OF small] separated_def)
  have "\<forall>i \<in> set (index_entries seps bs). valid (fst i) \<and> (\<forall>e \<in> set (blk_of bs (snd i)). valid (fst e))"
    using block by (metis fst_conv snd_conv index_entries_set n)
  moreover have "\<forall>i \<in> set (index_entries seps bs). \<forall>e \<in> set (blk_of bs (snd i)). key_le C (fst e) (fst i)"
    using block by (metis fst_conv snd_conv index_entries_set n)
  moreover have "sorted_wrt (\<lambda>i j. key_less C (fst i) (fst j) \<and> (\<forall>e \<in> set (blk_of bs (snd j)). key_less C (fst i) (fst e))) (index_entries seps bs)"
    using n less seps blk_of_handle [OF small] by (simp add: sorted_wrt_iff_nth_less index_entries_def)
  ultimately show ?thesis using c by (simp add: blocks_ordered_def)
qed

lemma wf_block_items: "wf_items xs rs \<Longrightarrow> length (block_data xs rs) < 2 ^ 32 \<Longrightarrow> wf_block xs rs"
  by (simp add: wf_items_def wf_block_def)

lemma open_block:
  assumes "comparator C valid" "wf_items xs rs" "length (block_data xs rs) < 2 ^ 32" "\<forall>e \<in> set (map snd xs). valid (fst e)"
    and "sorted_wrt (\<lambda>a b. key_less C (fst a) (fst b)) (map snd xs)"
  shows "\<exists>b s. new_Block (block_data xs rs) = Some b \<and> Block_NewIterator b = Some s \<and> right_at C valid (map snd xs) s (length xs)"
proof -
  have wf: "wf_block xs rs" using wf_block_items assms(2,3) by blast
  obtain b it where "new_Block (block_data xs rs) = Some b" "Block_NewIterator b = Some (Inr it)" "item_at xs rs it (length xs)"
    using new_iterator_at [OF wf] by blast
  then show ?thesis using wf assms(1,4,5) unfolding right_at_def block_at_def by blast
qed


section \<open>Opening a table\<close>

text \<open>The filter that a table has been opened with, if any, and policies of the same name that are
  the same.\<close>

definition filter_found :: "Options \<Rightarrow> (byte list list \<Rightarrow> bool) \<Rightarrow> built_block list \<Rightarrow> (FilterPolicy \<times> FilterBlockReader) option \<Rightarrow> bool" where
  "filter_found opts fits bs x \<longleftrightarrow> x = None \<or> (\<exists>P gs reader. x = Some (P, reader) \<and> op_filter_policy opts = Some P \<and> fits (concat gs) \<and>
      (\<forall>i < length bs. \<forall>e \<in> set (block_es (bs ! i)). filter_index (bh_offset (handle_of bs i)) < length gs \<and>
            fst e \<in> set (gs ! filter_index (bh_offset (handle_of bs i)))) \<and>
      length (filter_contents (map (filter_of P) gs)) < 2 ^ 32 \<and>
      new_FilterBlockReader (filter_contents (map (filter_of P) gs)) = Some reader)"

definition policies_agree :: "Options \<Rightarrow> Options \<Rightarrow> bool" where
  "policies_agree opts ropts \<longleftrightarrow> (\<forall>P Q. op_filter_policy opts = Some P \<longrightarrow> op_filter_policy ropts = Some Q \<longrightarrow>
     filter_key P = filter_key Q \<longrightarrow> P = Q)"

context random_access_file
begin

lemma read_at:
  assumes "length contents < 2 ^ 32" "contents = a @ block_image data kNoCompression @ c"
  shows "\<exists>r. ReadBlock buf F options (handle_at a data) = Some (OK, r) \<and> bc_data r = data"
  using ReadBlock_image [OF _ assms(2), of buf options] assms(1) by (simp add: handle_at_def)

lemma read_footer:
  assumes "length contents < 2 ^ 32" "contents = a @ footer_bytes f"
  shows "\<not> (of_nat (length contents) :: u64) < of_nat kEncodedLength"
    "rf_Read F (of_nat (length contents) - of_nat kEncodedLength) (of_nat kEncodedLength) = Some (OK, footer_bytes f)"
proof -
  have len: "length contents = length a + kEncodedLength" using assms(2) by (simp add: footer_bytes_length format_sizes)
  have "unat (of_nat (length contents) :: u64) = length contents" using assms(1) by (simp add: unat_of_nat_small)
  then show "\<not> (of_nat (length contents) :: u64) < of_nat kEncodedLength"
    using len by (simp add: word_less_nat_alt format_sizes)
  have "(of_nat (length contents) :: u64) - of_nat kEncodedLength = of_nat (length a)" using len by simp
  then show "rf_Read F (of_nat (length contents) - of_nat kEncodedLength) (of_nat kEncodedLength) = Some (OK, footer_bytes f)"
    using read_part [of a "footer_bytes f" "[]"] assms by (simp add: footer_bytes_length format_sizes)
qed

text \<open>The filter is found if and only if the table has one of the name.\<close>

lemma ReadFilter_image:
  assumes "length contents < 2 ^ 32" "contents = a @ block_image fc kNoCompression @ c" "tr_file t = F"
    and "op_filter_policy (tr_options t) = Some P" "new_FilterBlockReader fc = Some reader"
  shows "\<exists>x. ReadFilter addr (handle_bytes (handle_at a fc)) t = Some (t\<lparr>tr_filter := Some (P, reader), tr_filter_data := x\<rparr>)"
proof -
  have "BlockHandle_DecodeFrom (handle_bytes (handle_at a fc)) new_BlockHandle = (OK, handle_at a fc, [])"
    using BlockHandle_DecodeFrom_bytes [of "handle_at a fc" "[]"] by simp
  moreover obtain r where "ReadBlock (addr (handle_at a fc)) F (paranoid (tr_options t)) (handle_at a fc) = Some (OK, r)" "bc_data r = fc"
    using read_at [OF assms(1,2)] by blast
  ultimately show ?thesis
    using assms(3-5) by (cases "bc_heap_allocated r"; cases t) (auto simp: ReadFilter_def Let_def)
qed

lemma ReadMeta_image:
  assumes T: "length contents < 2 ^ 32" "contents = (before @ fimg) @ block_image (block_data mxs mrs) kNoCompression @ c"
    and wf: "wf_items mxs mrs" and p: "filter_part opts fits bs fimg (map snd mxs)" "before = blocks_image bs"
    and t: "tr_file t = F" "tr_options t = ropts" "policies_agree opts ropts" "tr_filter t = None"
    and ft: "ft_metaindex_handle footer = handle_at (before @ fimg) (block_data mxs mrs)"
    and policy: "policy_ok opts valid fits w (map fst (table_es bs))"
  shows "\<exists>x y. ReadMeta addr footer t = Some (t\<lparr>tr_filter := x, tr_filter_data := y\<rparr>) \<and>
    filter_found opts fits bs x"
proof -
  have skip: "t\<lparr>tr_filter := None, tr_filter_data := tr_filter_data t\<rparr> = t" using t(4) by simp
  show ?thesis
  proof (cases "op_filter_policy ropts")
    case None
    then have "ReadMeta addr footer t = Some t" using t by (simp add: ReadMeta_def)
    then show ?thesis using skip unfolding filter_found_def by metis
  next
    case (Some Q)
    let ?C = BytewiseComparator and ?es = "map snd mxs"
    obtain r where r: "ReadBlock (addr (ft_metaindex_handle footer)) F (paranoid ropts) (ft_metaindex_handle footer) = Some (OK, r)"
        "bc_data r = block_data mxs mrs"
      using read_at [OF T] ft by metis
    have "length (block_data mxs mrs) < 2 ^ 32" using T by (simp add: block_image_length)
    moreover have "sorted_wrt (\<lambda>a b. key_less ?C (fst a) (fst b)) ?es"
      using p(1) unfolding filter_part_def by (cases "op_filter_policy opts") auto
    ultimately obtain b s where s: "new_Block (block_data mxs mrs) = Some b" "Block_NewIterator b = Some s"
        "right_at ?C (\<lambda>_. True) ?es s (length ?es)"
      using open_block [OF bytewise.comparator_axioms wf] by auto
    obtain s' where s': "it_Seek (block_iterator ?C) (filter_key Q) s = Some s'" "right_at ?C (\<lambda>_. True) ?es s' (lower_bound ?C ?es (filter_key Q))"
      using block_or_error.seek_at [OF s(3)] by blast
    define j where "j = lower_bound ?C ?es (filter_key Q)"
    note at = s'(2) [folded j_def]
    have step: "ReadMeta addr footer t = (if j < length ?es \<and> fst (?es ! j) = filter_key Q then ReadFilter addr (snd (?es ! j)) t else Some t)"
      using t(1,2) Some r s s'(1) block_or_error.valid_iff [OF at] block_or_error.key_eq [OF at] block_or_error.value_eq [OF at]
      unfolding ReadMeta_def filter_key_def [symmetric] by (cases "j < length ?es") (simp_all add: Let_def)
    show ?thesis
    proof (cases "j < length ?es \<and> fst (?es ! j) = filter_key Q")
      case False
      then show ?thesis using step skip unfolding filter_found_def by metis
    next
      case True
      then obtain P where P: "op_filter_policy opts = Some P" using p(1) by (auto simp: filter_part_def split: option.splits)
      obtain gs where gs: "fits (concat gs)"
          "\<forall>i < length bs. \<forall>e \<in> set (block_es (bs ! i)). filter_index (bh_offset (handle_of bs i)) < length gs \<and>
            fst e \<in> set (gs ! filter_index (bh_offset (handle_of bs i)))"
          "fimg = block_image (filter_contents (map (filter_of P) gs)) kNoCompression"
          "?es = [(filter_key P, handle_bytes \<lparr>bh_offset = of_nat (length (blocks_image bs)), bh_size = of_nat (length (filter_contents (map (filter_of P) gs)))\<rparr>)]"
        using p(1) P by (auto simp: filter_part_def)
      let ?fc = "filter_contents (map (filter_of P) gs)"
      have j: "j = 0" "filter_key P = filter_key Q" "snd (?es ! j) = handle_bytes (handle_at before ?fc)"
        using True gs(4) p(2) by (auto simp: handle_at_def simp del: nth_map)
      then have Q: "op_filter_policy (tr_options t) = Some P" using t(2,3) P Some by (simp add: policies_agree_def)
      have small: "length ?fc < 2 ^ 32" using T gs(3) by (simp add: block_image_length)
      then have "length (concat (map (filter_of P) gs)) < 2 ^ 32" by (simp add: filter_contents_def)
      then obtain reader where reader: "new_FilterBlockReader ?fc = Some reader" using new_reader_contents by blast
      have "contents = before @ block_image ?fc kNoCompression @ block_image (block_data mxs mrs) kNoCompression @ c"
        using T(2) gs(3) by simp
      then obtain x where "ReadFilter addr (handle_bytes (handle_at before ?fc)) t = Some (t\<lparr>tr_filter := Some (P, reader), tr_filter_data := x\<rparr>)"
        using ReadFilter_image [OF T(1) _ t(1) Q reader] by blast
      then show ?thesis using step True j(3) P gs(1,2) small reader unfolding filter_found_def by auto
    qed
  qed
qed

end


lemma table_image_parts:
  assumes "T = table_image (blocks_image bs @ fimg) m x"
  defines "a \<equiv> blocks_image bs @ fimg" and "b \<equiv> (blocks_image bs @ fimg) @ block_image m kNoCompression"
  shows "T = a @ block_image m kNoCompression @ block_image x kNoCompression @
      footer_bytes \<lparr>ft_metaindex_handle = handle_at a m, ft_index_handle = handle_at b x\<rparr>"
    "T = b @ block_image x kNoCompression @ footer_bytes \<lparr>ft_metaindex_handle = handle_at a m, ft_index_handle = handle_at b x\<rparr>"
    "T = (b @ block_image x kNoCompression) @ footer_bytes \<lparr>ft_metaindex_handle = handle_at a m, ft_index_handle = handle_at b x\<rparr>"
    "\<exists>c. T = blocks_image bs @ c" "length m < length T" "length x < length T" "length (blocks_image bs) < length T"
  using assms(1) by (simp_all add: a_def b_def table_image_def Let_def block_image_length kBlockTrailerSize_def footer_bytes_length)

lemma serves_filterI:
  assumes x: "filter_found opts fits bs x"
    and policy: "policy_ok opts valid fits w keys" and t: "tr_filter t = x" and n: "length seps = length bs"
    and wf: "\<forall>b \<in> set bs. wf_built b" and small: "length (blocks_image bs) < 2 ^ 32"
  shows "serves_filter valid (index_entries seps bs) (blk_of bs) t"
proof -
  have "\<exists>out. filtered_out t (handle_bytes (handle_of bs i)) key = Some out \<and> (key \<in> fst ` set (block_es (bs ! i)) \<longrightarrow> \<not> out)"
    if i: "i < length bs" and key: "valid key" for i key
  proof (cases x)
    case None
    then show ?thesis using t by (intro exI [of _ False]) (simp add: filtered_out_def)
  next
    case (Some z)
    then obtain P gs reader where f: "x = Some (P, reader)" "op_filter_policy opts = Some P" "fits (concat gs)"
        "\<forall>e \<in> set (block_es (bs ! i)). filter_index (bh_offset (handle_of bs i)) < length gs \<and>
            fst e \<in> set (gs ! filter_index (bh_offset (handle_of bs i)))"
        "length (filter_contents (map (filter_of P) gs)) < 2 ^ 32"
        "new_FilterBlockReader (filter_contents (map (filter_of P) gs)) = Some reader"
      using x i Some unfolding filter_found_def by blast
    let ?o = "bh_offset (handle_of bs i)"
    have "block_es (bs ! i) \<noteq> []" using wf i by (simp add: wf_built_def block_es_def)
    then have "last (block_es (bs ! i)) \<in> set (block_es (bs ! i))" by simp
    then have g: "filter_index ?o < length gs" "gs ! filter_index ?o \<noteq> []" using bspec [OF f(4)] by (simp, fastforce)
    have sized: "sized_filter_policy P fits valid w" using policy f(2) by (simp add: policy_ok_def)
    obtain b where b: "reader_KeyMayMatch P reader ?o key = Some b" "key \<in> set (gs ! filter_index ?o) \<longrightarrow> b"
      using sized_filter_policy.filter_answers [OF sized f(3,5) g] f(6) key by fastforce
    have "BlockHandle_DecodeFrom (handle_bytes (handle_of bs i)) new_BlockHandle = (OK, handle_of bs i, [])"
      using BlockHandle_DecodeFrom_bytes [of "handle_of bs i" "[]"] by simp
    then have "filtered_out t (handle_bytes (handle_of bs i)) key = Some (\<not> b)" using t f(1) b(1) by (simp add: filtered_out_def)
    then show ?thesis using b(2) f(4) by auto
  qed
  then show ?thesis
    unfolding serves_filter_def using blk_of_handle [OF small] n by (metis index_entries_set snd_conv)
qed

context random_access_file
begin

lemma BlockReader_at:
  assumes T: "length contents < 2 ^ 32" "contents = blocks_image bs @ c" and i: "i < length bs" and wf: "wf_built (bs ! i)"
    and c: "comparator C valid" "\<forall>e \<in> set (block_es (bs ! i)). valid (fst e)"
      "sorted_wrt (\<lambda>a b. key_less C (fst a) (fst b)) (block_es (bs ! i))" and t: "tr_file t = F"
  shows "\<exists>s. BlockReader addr options t (handle_bytes (handle_of bs i)) = Some s \<and> right_at C valid (block_es (bs ! i)) s (length (block_es (bs ! i)))"
proof -
  let ?h = "handle_of bs i"
  have h: "?h = handle_at (blocks_image (take i bs)) (data_bytes (bs ! i))" by (simp add: handle_of_def handle_at_def)
  have "contents = blocks_image (take i bs) @ block_image (data_bytes (bs ! i)) kNoCompression @ (blocks_image (drop (Suc i) bs) @ c)"
    using T(2) blocks_image_split [OF i] by simp
  then obtain r where r: "ReadBlock (addr ?h) F options ?h = Some (OK, r)" "bc_data r = data_bytes (bs ! i)"
    and len: "length (data_bytes (bs ! i)) < 2 ^ 32"
    using read_at [OF T(1)] h T(1) by (metis (no_types, lifting) add_lessD1 block_image_length length_append less_add_same_cancel2 not_add_less2 order.strict_trans2 not_le)
  obtain b s where "new_Block (data_bytes (bs ! i)) = Some b" "Block_NewIterator b = Some s"
      "right_at C valid (block_es (bs ! i)) s (length (block_es (bs ! i)))"
    using open_block [OF c(1), of "fst (bs ! i)" "snd (bs ! i)"] wf c(2,3) len by (auto simp: wf_built_def block_es_def data_bytes_def)
  then show ?thesis
    using r t BlockHandle_DecodeFrom_bytes [of ?h "[]"] by (simp add: BlockReader_def)
qed

lemma Table_Open_serves:
  assumes T: "is_table opts valid fits es contents" and e: "entries_ok opts valid fits w es"
    and ropts: "op_comparator ropts = op_comparator opts" "policies_agree opts ropts"
  shows "\<exists>t ix blk. Table_Open addr ropts F (of_nat (length contents)) = Some (OK, Some t) \<and>
    serves addr (op_comparator opts) valid ix blk t \<and> block_entries blk ix = es"
proof -
  let ?C = "op_comparator opts"
  obtain bs seps fimg xs rs mxs mrs where st: "table_es bs = es" "length seps = length bs" "\<forall>b \<in> set bs. wf_built b"
      "separated ?C valid seps bs []" "wf_items xs rs" "map snd xs = index_entries seps bs" "wf_items mxs mrs"
      "filter_part opts fits bs fimg (map snd mxs)"
    and img: "contents = table_image (blocks_image bs @ fimg) (block_data mxs mrs) (block_data xs rs)"
    and small: "length contents < 2 ^ 32"
    using T by (auto simp: is_table_def)
  note parts = table_image_parts [OF img]
  note c = entries_okD(1) [OF e]
  have sz: "length (blocks_image bs) < 2 ^ 32" "length (block_data xs rs) < 2 ^ 32" using parts(6,7) small by linarith+
  have v: "\<forall>e \<in> set (table_es bs). valid (fst e)" "sorted_wrt (\<lambda>a b. key_less ?C (fst a) (fst b)) (table_es bs)"
      "policy_ok opts valid fits w (map fst (table_es bs))"
    using e st(1) by (simp_all add: entries_ok_def)
  note ordered = table_ordered [OF c sz(1) st(2,3,4) v(1)]
  let ?a = "blocks_image bs @ fimg" and ?m = "(blocks_image bs @ fimg) @ block_image (block_data mxs mrs) kNoCompression"
  define ft where "ft = \<lparr>ft_metaindex_handle = handle_at ?a (block_data mxs mrs), ft_index_handle = handle_at ?m (block_data xs rs)\<rparr>"
  note footer = read_footer [OF small parts(3) [folded ft_def]]
  obtain r where r: "ReadBlock (addr (ft_index_handle ft)) F (paranoid ropts) (ft_index_handle ft) = Some (OK, r)" "bc_data r = block_data xs rs"
    using read_at [OF small parts(2)] by (auto simp: ft_def)
  have ix: "\<forall>e \<in> set (map snd xs). valid (fst e)" "sorted_wrt (\<lambda>a b. key_less ?C (fst a) (fst b)) (map snd xs)"
    using ordered st(6) by (auto simp: blocks_ordered_def elim: sorted_wrt_mono_rel [rotated])
  obtain b s where b: "new_Block (block_data xs rs) = Some b" "Block_NewIterator b = Some s" "right_at ?C valid (map snd xs) s (length xs)"
    using open_block [OF c st(5) sz(2) ix] by blast
  define t0 where "t0 = \<lparr>tr_options = ropts, tr_status = OK, tr_file = F, tr_cache_id = 0, tr_filter = None,
    tr_filter_data = None, tr_metaindex_handle = ft_metaindex_handle ft, tr_index_block = b\<rparr>"
  obtain x y where x: "ReadMeta addr ft t0 = Some (t0\<lparr>tr_filter := x, tr_filter_data := y\<rparr>)"
    "filter_found opts fits bs x"
    using ReadMeta_image [OF small parts(1) st(7,8) refl _ _ ropts(2) _ _ v(3), of t0 ft addr] unfolding t0_def ft_def by fastforce
  define t where "t = t0\<lparr>tr_filter := x, tr_filter_data := y\<rparr>"
  have "Table_Open addr ropts F (of_nat (length contents)) = Some (OK, Some t)"
    using footer r b(1) x(1) Footer_DecodeFrom_bytes [of ft "[]"] by (simp add: Table_Open_def Let_def t_def t0_def)
  moreover have "serves_filter valid (index_entries seps bs) (blk_of bs) t"
    using serves_filterI [OF x(2) v(3) _ st(2,3) sz(1)] by (simp add: t_def)
  moreover have "\<exists>s. BlockReader addr options t (handle_bytes (handle_of bs i)) = Some s \<and>
      right_at ?C valid (block_es (bs ! i)) s (length (block_es (bs ! i)))" if i: "i < length bs" for i options
  proof -
    obtain c' where c': "contents = blocks_image bs @ c'" using parts(4) by blast
    have "sorted_wrt (\<lambda>a b. key_less ?C (fst a) (fst b)) (block_es (bs ! i))"
    proof -
      have "table_es bs = table_es (take i bs) @ table_es [bs ! i] @ table_es (drop (Suc i) bs)"
        using id_take_nth_drop [OF i] by (metis append_Cons append_Nil table_es_simps(2))
      then show ?thesis using v(2) by (simp add: sorted_wrt_append)
    qed
    moreover have "\<forall>e \<in> set (block_es (bs ! i)). valid (fst e)" using v(1) block_es_member [OF i] by blast
    ultimately show ?thesis
      using BlockReader_at [OF small c' i _ c] st(3) i by (simp add: t_def t0_def)
  qed
  then have "serves_blocks addr ?C valid (index_entries seps bs) (blk_of bs) t"
    using ordered blk_of_handle [OF sz(1)] st(2) by (auto simp: serves_blocks_def index_entries_set)
  moreover have "table_comparator t = ?C" "tr_index_block t = b" using ropts(1) by (simp_all add: t_def t0_def)
  moreover have "length xs = length (index_entries seps bs)" using arg_cong [OF st(6), of length] by simp
  ultimately show ?thesis
    using b(2,3) st(1,6) block_entries_table [OF sz(1) st(2)] unfolding serves_def by metis
qed

end

section \<open>Databases\<close>

text \<open>The policy under which the database keeps its tables: the Bloom filter of the user keys.\<close>

interpretation internal_bloom_sized: sized_filter_policy "InternalFilterPolicy (BloomPolicy (NewBloomFilterPolicy b product))"
  "internal_fits (bloom_fits (NewBloomFilterPolicy b product))" "internal_valid (\<lambda>_. True)"
  "unat (bf_bits_per_key (NewBloomFilterPolicy b product)) + 17"
  by (rule sized_filter_policy.internal_sized [OF bloom_sized.sized_filter_policy_axioms])


section \<open>Properties\<close>

text \<open>C3. Tables refine sorted lists, from the writer to the reader. For every comparator, every
  filter policy and every writable file that keep their contracts, \<open>TableBuilder\<close> takes
  ascending entries without failing an assertion and \<open>Finish\<close> returns; it reports \<open>OK\<close> if no
  file operation fails. Whenever it reports \<open>OK\<close>, even on a file that may fail, \<open>Table::Open\<close>
  accepts the file through any random-access file with these contents, and after any sequence
  of allowed moves the iterator of the table is at the entry at which a cursor into the list
  is, with the status \<open>OK\<close>.\<close>

theorem table_iterator_refines:
  assumes "writable_file F written good_file reliable" and "good_file f" and "written f = []"
    and "entries_ok opts valid fits w es"
    and "op_comparator ropts = op_comparator opts" and "policies_agree opts ropts"
    and "\<forall>m \<in> set ms. move_target_ok valid m" and "run_moves (move_pos (op_comparator opts) es) ms (length es) = Some j"
  shows "\<exists>s r. build_table F opts es f = Some (s, r) \<and> (reliable f \<longrightarrow> s = OK) \<and>
    (s = OK \<longrightarrow> (\<forall>R. random_access_file R (written (tb_file r)) \<longrightarrow>
      (\<exists>t it it'. Table_Open addr ropts R (of_nat (length (written (tb_file r)))) = Some (OK, Some t) \<and> Table_NewIterator t = Some it \<and>
        run_moves (move_iter (TableIter addr options t)) ms it = Some it' \<and>
        observe (TableIter addr options t) it' = Some (entry_at_pos es j, OK))))"
proof -
  let ?C = "op_comparator opts"
  obtain s r where r: "build_table F opts es f = Some (s, r)" "reliable f \<longrightarrow> s = OK"
      "s = OK \<longrightarrow> is_table opts valid fits es (written (tb_file r))"
    using writable_file.build_table_result [OF assms(1-4)] by blast
  have "\<exists>t it it'. Table_Open addr ropts R (of_nat (length (written (tb_file r)))) = Some (OK, Some t) \<and> Table_NewIterator t = Some it \<and>
      run_moves (move_iter (TableIter addr options t)) ms it = Some it' \<and>
      observe (TableIter addr options t) it' = Some (entry_at_pos es j, OK)"
    if R: "random_access_file R (written (tb_file r))" and "s = OK" for R
  proof -
    have T: "is_table opts valid fits es (written (tb_file r))" using r(3) \<open>s = OK\<close> by blast
    obtain t ix blk where t: "Table_Open addr ropts R (of_nat (length (written (tb_file r)))) = Some (OK, Some t)"
        "serves addr ?C valid ix blk t" "block_entries blk ix = es"
      using random_access_file.Table_Open_serves [OF R T assms(4-6)] by blast
    obtain it where it: "Table_NewIterator t = Some it" "table_iter.level_at ix addr ?C valid blk t it (length es)"
      using table_iterator_at [OF t(2)] t(3) by blast
    have I: "TableIter addr options t = TwoLevel (block_iterator ?C) (block_iterator ?C) (BlockReader addr options t)"
      using t(2) by (simp add: TableIter_def serves_def)
    obtain it' where "run_moves (move_iter (TableIter addr options t)) ms it = Some it'" "table_iter.level_at ix addr ?C valid blk t it' j"
      using table_entries.run_moves_at [OF it(2) assms(7), of j] assms(8) t(3) unfolding I by auto
    moreover from this(2) have "observe (TableIter addr options t) it' = Some (entry_at_pos es j, OK)"
      using table_entries.observe_at t(3) unfolding I by metis
    ultimately show ?thesis using t(1) it(1) by blast
  qed
  then show ?thesis using r(1,2) by blast
qed

text \<open>C4. Look-ups in a table: whatever the filter policy, if \<open>Finish\<close> reports \<open>OK\<close>, \<open>InternalGet\<close>
  returns \<open>OK\<close> for every key. It passes on the entry of a key that was added, so that no filter
  hides a key, and for another key nothing or the first entry behind it.\<close>

theorem table_get_correct:
  assumes "writable_file F written good_file reliable" and "good_file f" and "written f = []"
    and "entries_ok opts valid fits w es"
    and "op_comparator ropts = op_comparator opts" and "policies_agree opts ropts" and "valid key"
  shows "\<exists>s r. build_table F opts es f = Some (s, r) \<and> (reliable f \<longrightarrow> s = OK) \<and>
    (s = OK \<longrightarrow> (\<forall>R. random_access_file R (written (tb_file r)) \<longrightarrow>
      (\<exists>t call. Table_Open addr ropts R (of_nat (length (written (tb_file r)))) = Some (OK, Some t) \<and>
        InternalGet addr options key t = Some (OK, call) \<and>
        (\<forall>e. call = Some e \<longrightarrow> entry_at_pos es (lower_bound (op_comparator opts) es key) = Some e) \<and>
        (\<forall>v. (key, v) \<in> set es \<longrightarrow> call = Some (key, v)))))"
proof -
  obtain s r where r: "build_table F opts es f = Some (s, r)" "reliable f \<longrightarrow> s = OK"
      "s = OK \<longrightarrow> is_table opts valid fits es (written (tb_file r))"
    using writable_file.build_table_result [OF assms(1-4)] by blast
  have "\<exists>t call. Table_Open addr ropts R (of_nat (length (written (tb_file r)))) = Some (OK, Some t) \<and>
        InternalGet addr options key t = Some (OK, call) \<and>
        (\<forall>e. call = Some e \<longrightarrow> entry_at_pos es (lower_bound (op_comparator opts) es key) = Some e) \<and>
        (\<forall>v. (key, v) \<in> set es \<longrightarrow> call = Some (key, v))"
    if R: "random_access_file R (written (tb_file r))" and "s = OK" for R
  proof -
    have T: "is_table opts valid fits es (written (tb_file r))" using r(3) \<open>s = OK\<close> by blast
    obtain t ix blk where t: "Table_Open addr ropts R (of_nat (length (written (tb_file r)))) = Some (OK, Some t)"
        "serves addr (op_comparator opts) valid ix blk t" "block_entries blk ix = es"
      using random_access_file.Table_Open_serves [OF R T assms(4-6)] by blast
    then show ?thesis using InternalGet_correct [OF t(2) assms(7), of options] by metis
  qed
  then show ?thesis using r(1,2) by blast
qed


definition sample_policy :: FilterPolicy where
  "sample_policy = BloomPolicy (NewBloomFilterPolicy 10 6)"

text \<open>Blocks of about twenty bytes, so that the table has several.\<close>

definition sample_options :: Options where
  "sample_options = new_Options\<lparr>op_block_size := 20, op_filter_policy := Some sample_policy\<rparr>"

definition sample_writable :: "os_file PosixWritableFile" where
  "sample_writable = new_PosixWritableFile [] 3 \<lparr>of_data = [], of_pos = 0, of_script = [Inl EINTR, Inr 2]\<rparr>"

lemma sample_writable_ok: "pw_inv sample_writable" "pw_written sample_writable = []" "os_reliable (pw_os sample_writable)"
  by (simp_all add: sample_writable_def new_PosixWritableFile_def pw_inv_def pw_written_def os_reliable_def)

lemma sample_sorted: "sorted_wrt (\<lambda>a b. key_less BytewiseComparator (fst a) (fst b)) sample_entries"
  by (simp add: sample_entries_def)

lemma sample_ok: "entries_ok sample_options (\<lambda>_. True) (bloom_fits (NewBloomFilterPolicy 10 6)) 27 sample_entries"
  using sample_sorted bytewise_short.short_comparator_axioms bloom_sized.sized_filter_policy_axioms [of 10 6]
  by (simp add: entries_ok_def policy_ok_def sample_options_def new_Options_def sample_policy_def table_bound_def policy_name_def
      BloomPolicy_def) (simp add: sample_entries_def bloom_fits_def NewBloomFilterPolicy_def)

theorem table_iterator_refines_witness:
  "\<exists>r. build_table (PosixWritable False os_calls) sample_options sample_entries sample_writable = Some (OK, r) \<and>
    (\<exists>t it it'. Table_Open (\<lambda>_. 0) sample_options (PosixMmapReadable os_calls \<lparr>pm_base = pw_written (tb_file r), pm_filename = []\<rparr>)
        (of_nat (length (pw_written (tb_file r)))) = Some (OK, Some t) \<and> Table_NewIterator t = Some it \<and>
      run_moves (move_iter (TableIter (\<lambda>_. 0) new_ReadOptions t)) [To [97, 98, 0], Backward] it = Some it' \<and>
      observe (TableIter (\<lambda>_. 0) new_ReadOptions t) it' = Some (Some ([97, 98], [2, 3]), OK))"
proof -
  have pos: "run_moves (move_pos BytewiseComparator sample_entries) [To [97, 98, 0], Backward] (length sample_entries) = Some 1"
    by (simp add: lower_bound_def prev_pos_def sample_entries_def)
  have cmp: "op_comparator sample_options = BytewiseComparator" by (simp add: sample_options_def new_Options_def)
  have agree: "policies_agree sample_options sample_options" by (simp add: policies_agree_def)
  have entry: "entry_at_pos sample_entries 1 = Some ([97, 98], [2, 3])" by (simp add: entry_at_pos_def sample_entries_def)
  obtain s r where r: "build_table (PosixWritable False os_calls) sample_options sample_entries sample_writable = Some (s, r)"
      "os_reliable (pw_os sample_writable) \<longrightarrow> s = OK"
      "s = OK \<longrightarrow> (\<forall>R. random_access_file R (pw_written (tb_file r)) \<longrightarrow>
      (\<exists>t it it'. Table_Open (\<lambda>_. 0) sample_options R (of_nat (length (pw_written (tb_file r)))) = Some (OK, Some t) \<and> Table_NewIterator t = Some it \<and>
        run_moves (move_iter (TableIter (\<lambda>_. 0) new_ReadOptions t)) [To [97, 98, 0], Backward] it = Some it' \<and>
        observe (TableIter (\<lambda>_. 0) new_ReadOptions t) it' = Some (Some ([97, 98], [2, 3]), OK)))"
    using table_iterator_refines [OF posix_writable.writable_file_axioms [of False] sample_writable_ok(1,2) sample_ok refl agree,
        of "[To [97, 98, 0], Backward]" 1 "\<lambda>_. 0" new_ReadOptions] pos
    unfolding cmp entry by auto
  then show ?thesis
    using sample_writable_ok(3) mmap_file.random_access_file_axioms [of os_calls "\<lparr>pm_base = pw_written (tb_file r), pm_filename = []\<rparr>"]
    by auto
qed

theorem table_get_correct_witness:
  "\<exists>r. build_table (PosixWritable False os_calls) sample_options sample_entries sample_writable = Some (OK, r) \<and>
    (\<exists>t. Table_Open (\<lambda>_. 0) sample_options (PosixMmapReadable os_calls \<lparr>pm_base = pw_written (tb_file r), pm_filename = []\<rparr>)
        (of_nat (length (pw_written (tb_file r)))) = Some (OK, Some t) \<and>
      InternalGet (\<lambda>_. 0) new_ReadOptions [97, 99] t = Some (OK, Some ([97, 99], [])))"
proof -
  have agree: "policies_agree sample_options sample_options" by (simp add: policies_agree_def)
  have entry: "([97, 99], []) \<in> set sample_entries" by (simp add: sample_entries_def)
  obtain s r where r: "build_table (PosixWritable False os_calls) sample_options sample_entries sample_writable = Some (s, r)"
      "os_reliable (pw_os sample_writable) \<longrightarrow> s = OK"
      "s = OK \<longrightarrow> (\<forall>R. random_access_file R (pw_written (tb_file r)) \<longrightarrow>
      (\<exists>t. Table_Open (\<lambda>_. 0) sample_options R (of_nat (length (pw_written (tb_file r)))) = Some (OK, Some t) \<and>
        InternalGet (\<lambda>_. 0) new_ReadOptions [97, 99] t = Some (OK, Some ([97, 99], []))))"
    using table_get_correct [OF posix_writable.writable_file_axioms [of False] sample_writable_ok(1,2) sample_ok refl agree,
        where key = "[97, 99]" and addr = "\<lambda>_. 0" and options = new_ReadOptions] entry by fastforce
  then show ?thesis
    using sample_writable_ok(3) mmap_file.random_access_file_axioms [of os_calls "\<lparr>pm_base = pw_written (tb_file r), pm_filename = []\<rparr>"]
    by auto
qed

end
