(* ===== verification/Ldb_Random.thy ===== *)
theory Ldb_Random
  imports Pb_Prelude
begin

text \<open>
  The random number generator of leveldb, \<open>util/random.h\<close>: the multiplicative generator
  modulo \<open>2\<^sup>3\<^sup>1 - 1\<close>, with its division-free reduction.
\<close>

section \<open>The generator\<close>

type_synonym Random = u32

definition new_Random :: "u32 \<Rightarrow> Random" where
  "new_Random s = (let seed = s AND 0x7fffffff in if seed = 0 \<or> seed = 2147483647 then 1 else seed)"

definition Random_Next :: "Random \<Rightarrow> Random" where
  "Random_Next seed = (let M = (2147483647 :: u32); A = (16807 :: u64);
     product = ucast seed * A;
     seed = (ucast (drop_bit 31 product + (product AND ucast M)) :: u32) in
     if M < seed then seed - M else seed)"

text \<open>\<open>Next() % n\<close>: the \<open>int\<close> operand is converted to \<open>uint32_t\<close>. Each returns the number and the new state.\<close>

definition Uniform :: "u32 \<Rightarrow> Random \<Rightarrow> u32 \<times> Random" where
  "Uniform n seed = (let seed = Random_Next seed in (seed mod n, seed))"

definition OneIn :: "u32 \<Rightarrow> Random \<Rightarrow> bool \<times> Random" where
  "OneIn n seed = (let seed = Random_Next seed in (seed mod n = 0, seed))"

definition Skewed :: "nat \<Rightarrow> Random \<Rightarrow> u32 \<times> Random" where
  "Skewed max_log seed = (case Uniform (of_nat (max_log + 1)) seed of (base, seed) \<Rightarrow> Uniform (push_bit (unat base) 1) seed)"

section \<open>The reduction\<close>

definition random_ok :: "Random \<Rightarrow> bool" where
  "random_ok seed \<longleftrightarrow> 0 < unat seed \<and> unat seed < 2147483647"

lemma unat_div_2p31: "unat (drop_bit 31 (p :: u64)) = unat p div 2147483648"
  by (simp add: drop_bit_eq_div unat_div)

lemma unat_and_M: "unat ((p :: u64) AND 2147483647) = unat p mod 2147483648"
proof -
  have "p AND 2147483647 = take_bit 31 p" by (simp add: take_bit_eq_mask mask_eq_exp_minus_1)
  then show ?thesis by (simp add: take_bit_eq_mod unat_mod)
qed

lemma mersenne_mod: "(p div 2147483648 + p mod 2147483648) mod 2147483647 = p mod (2147483647 :: nat)"
proof -
  have "p = (p div 2147483648 + p mod 2147483648) + 2147483647 * (p div 2147483648)"
    using div_mult_mod_eq [of p 2147483648] by linarith
  then show ?thesis by (metis mod_mult_self2)
qed

lemma Random_Next_unat:
  assumes "random_ok seed" "p = unat seed * 16807" "s = p div 2147483648 + p mod 2147483648"
  shows "unat (Random_Next seed) = (if 2147483647 < s then s - 2147483647 else s)" "s < 4294967294"
proof -
  let ?p = "ucast seed * 16807 :: u64"
  have n: "p < 36092757655329" using assms by (simp add: random_ok_def)
  then have p: "unat ?p = p" using assms(2) by (simp add: unat_word_ariths)
  have hi: "p div 2147483648 < 16808" "p mod 2147483648 < 2147483648" using n by (simp_all add: less_mult_imp_div_less)
  then show s2: "s < 4294967294" unfolding assms(3) by linarith
  have "unat (drop_bit 31 ?p + (?p AND 2147483647)) = s"
    using s2 assms(3) by (subst unat_add_small) (simp_all add: unat_div_2p31 unat_and_M p)
  then have "unat (ucast (drop_bit 31 ?p + (?p AND 2147483647)) :: u32) = s"
    using s2 by (simp add: unsigned_ucast_eq take_bit_nat_eq_self)
  then show "unat (Random_Next seed) = (if 2147483647 < s then s - 2147483647 else s)"
    by (simp add: Random_Next_def Let_def word_less_nat_alt unat_sub_if')
qed

text \<open>\<open>Next\<close> multiplies by 16807 modulo the prime, so that a seed that is neither 0 nor \<open>M\<close> stays so.\<close>

lemma Random_product:
  assumes "random_ok seed"
  shows "unat seed * 16807 mod 2147483647 \<noteq> 0"
proof -
  have "coprime (2147483647 :: nat) 16807" by (simp add: coprime_iff_gcd_eq_1 gcd_non_0_nat)
  then have "\<not> 2147483647 dvd unat seed * 16807"
    using assms by (auto simp: coprime_dvd_mult_left_iff random_ok_def dest: dvd_imp_le)
  then show ?thesis by (simp add: mod_eq_0_iff_dvd)
qed

lemma Random_Next_mod:
  assumes "random_ok seed"
  shows "unat (Random_Next seed) = unat seed * 16807 mod 2147483647"
proof -
  define p where "p = unat seed * 16807"
  define s where "s = p div 2147483648 + p mod 2147483648"
  have s: "unat (Random_Next seed) = (if 2147483647 < s then s - 2147483647 else s)" "s < 4294967294"
    using Random_Next_unat [OF assms p_def s_def] .
  have mod: "s mod 2147483647 = p mod 2147483647" unfolding s_def by (rule mersenne_mod)
  then have "s \<noteq> 2147483647" using Random_product [OF assms] p_def by auto
  moreover have "s mod 2147483647 = s - 2147483647" if "2147483647 < s"
    using that s(2) by (subst le_mod_geq) simp_all
  moreover have "s mod 2147483647 = s" if "s < 2147483647" using that by simp
  ultimately show ?thesis using s(1) mod unfolding p_def [symmetric] by (cases "2147483647 < s") auto
qed

lemma Random_Next_ok: "random_ok seed \<Longrightarrow> random_ok (Random_Next seed)"
  using Random_product [of seed] unfolding random_ok_def by (simp add: Random_Next_mod random_ok_def)

lemma new_Random_ok: "random_ok (new_Random s)"
proof -
  have "s AND 0x7fffffff = take_bit 31 s" by (simp add: take_bit_eq_mask mask_eq_exp_minus_1)
  then have "unat (s AND 0x7fffffff) < 2147483648"
    using take_bit_nat_less_exp [of 31 "unat s"] by (simp add: unsigned_take_bit_eq)
  moreover have "unat (s AND 0x7fffffff) \<noteq> 2147483647" if "s AND 0x7fffffff \<noteq> 2147483647"
    using that word_unat_eq_iff [of "s AND 0x7fffffff" 2147483647] by simp
  ultimately show ?thesis by (auto simp: new_Random_def random_ok_def Let_def unat_gt_0)
qed

text \<open>Of two numbers in a row, one has a bit set in its low 21 bits.\<close>

lemma Random_low_bits:
  assumes "random_ok seed" "unat seed mod 2097152 = 0"
  shows "unat (Random_Next seed) mod 2097152 \<noteq> 0"
proof -
  obtain k where k: "unat seed = 2097152 * k" using assms(2) by auto
  have k1: "0 < k" "k < 1024" using assms(1) k by (auto simp: random_ok_def)
  define n r where "n = k * 16807 div 1024" and "r = k * 16807 mod 1024"
  have n: "0 < n" "n < 16807" using k1 by (auto simp: n_def div_greater_zero_iff less_mult_imp_div_less)
  have d: "unat seed * 16807 div 2147483648 = n" "unat seed * 16807 mod 2147483648 = 2097152 * r"
    unfolding k n_def r_def using mult_mod_right [of "2097152 :: nat" "k * 16807" 1024] div_mult_mult1 [of "2097152 :: nat" "k * 16807" 1024]
    by (simp_all add: mult.assoc)
  have s: "unat (Random_Next seed) = (if 2147483647 < n + 2097152 * r then n + 2097152 * r - 2147483647 else n + 2097152 * r)"
    using Random_Next_unat(1) [OF assms(1) refl refl] unfolding d .
  have "r < 1024" by (simp add: r_def)
  then have "n + 2097152 * r < 2147483647" using n(2) by linarith
  then show ?thesis using s n by simp
qed

end
