(* ===== verification/Ldb_Arena.thy ===== *)
theory Ldb_Arena
  imports Pb_Prelude
begin

text \<open>
  The arena, \<open>util/arena.cc\<close> and \<open>util/arena.h\<close>, from which memtables take the memory for their entries and nodes.

  A pointer is the number of a block and an offset in it. The argument \<open>base\<close> gives the address of every
  block that \<open>new char[]\<close> returns, which is all that the alignment depends on. The result is \<open>None\<close> if
  an assertion fails.
\<close>

section \<open>The arena\<close>

type_synonym arena_ptr = "nat \<times> nat"

record Arena =
  ar_alloc_ptr :: "arena_ptr option"
  ar_alloc_bytes_remaining :: size_t
  ar_blocks :: "size_t list"
  ar_memory_usage :: size_t

definition new_Arena :: Arena where
  "new_Arena = \<lparr>ar_alloc_ptr = None, ar_alloc_bytes_remaining = 0, ar_blocks = [], ar_memory_usage = 0\<rparr>"

definition arena_kBlockSize :: size_t where "arena_kBlockSize = 4096"

definition MemoryUsage :: "Arena \<Rightarrow> size_t" where
  "MemoryUsage a = ar_memory_usage a"

definition AllocateNewBlock :: "size_t \<Rightarrow> Arena \<Rightarrow> arena_ptr \<times> Arena" where
  "AllocateNewBlock block_bytes a = ((length (ar_blocks a), 0),
     a\<lparr>ar_blocks := ar_blocks a @ [block_bytes], ar_memory_usage := ar_memory_usage a + (block_bytes + 8)\<rparr>)"

definition arena_advance :: "arena_ptr \<Rightarrow> size_t \<Rightarrow> Arena \<Rightarrow> Arena" where
  "arena_advance p bytes a = a\<lparr>ar_alloc_ptr := Some (fst p, snd p + unat bytes),
     ar_alloc_bytes_remaining := ar_alloc_bytes_remaining a - bytes\<rparr>"

definition AllocateFallback :: "size_t \<Rightarrow> Arena \<Rightarrow> arena_ptr \<times> Arena" where
  "AllocateFallback bytes a = (if arena_kBlockSize div 4 < bytes then AllocateNewBlock bytes a
     else (case AllocateNewBlock arena_kBlockSize a of (result, a) \<Rightarrow>
       (result, arena_advance result bytes (a\<lparr>ar_alloc_bytes_remaining := arena_kBlockSize\<rparr>))))"

definition Allocate :: "size_t \<Rightarrow> Arena \<Rightarrow> (arena_ptr \<times> Arena) option" where
  "Allocate bytes a = (if bytes > 0 then
     (if bytes \<le> ar_alloc_bytes_remaining a then do {
        result \<leftarrow> ar_alloc_ptr a;
        Some (result, arena_advance result bytes a) }
      else Some (AllocateFallback bytes a))
   else None)"

definition arena_address :: "(nat \<Rightarrow> size_t) \<Rightarrow> arena_ptr option \<Rightarrow> size_t" where
  "arena_address base p = (case p of None \<Rightarrow> 0 | Some (b, i) \<Rightarrow> base b + of_nat i)"

definition AllocateAligned :: "(nat \<Rightarrow> size_t) \<Rightarrow> size_t \<Rightarrow> Arena \<Rightarrow> (arena_ptr \<times> Arena) option" where
  "AllocateAligned base bytes a = do {
     let align = 8;
     let current_mod = arena_address base (ar_alloc_ptr a) AND (align - 1);
     let slop = (if current_mod = 0 then 0 else align - current_mod);
     let needed = bytes + slop;
     (result, a) \<leftarrow> (if needed \<le> ar_alloc_bytes_remaining a then do {
         p \<leftarrow> ar_alloc_ptr a;
         Some ((fst p, snd p + unat slop), arena_advance p needed a) }
       else Some (AllocateFallback bytes a));
     if arena_address base (Some result) AND (align - 1) = 0 then Some (result, a) else None }"

text \<open>A sequence of requests and the pointers they return.\<close>

datatype request = Plain size_t | Aligned size_t

fun request_size :: "request \<Rightarrow> size_t" where
  "request_size (Plain n) = n"
| "request_size (Aligned n) = n"

fun serve :: "(nat \<Rightarrow> size_t) \<Rightarrow> request \<Rightarrow> Arena \<Rightarrow> (arena_ptr \<times> Arena) option" where
  "serve base (Plain n) a = Allocate n a"
| "serve base (Aligned n) a = AllocateAligned base n a"

primrec serve_all :: "(nat \<Rightarrow> size_t) \<Rightarrow> request list \<Rightarrow> Arena \<Rightarrow> (arena_ptr list \<times> Arena) option" where
  "serve_all base [] a = Some ([], a)"
| "serve_all base (r # rs) a = do { (p, a) \<leftarrow> serve base r a; (ps, a) \<leftarrow> serve_all base rs a; Some (p # ps, a) }"

section \<open>Regions\<close>

type_synonym region = "arena_ptr \<times> nat"

fun apart :: "region \<Rightarrow> region \<Rightarrow> bool" where
  "apart ((b, i), n) ((c, j), m) \<longleftrightarrow> b \<noteq> c \<or> i + n \<le> j \<or> j + m \<le> i"

fun inside :: "Arena \<Rightarrow> region \<Rightarrow> bool" where
  "inside a ((b, i), n) \<longleftrightarrow> b < length (ar_blocks a) \<and> i + n \<le> unat (ar_blocks a ! b)"

text \<open>A region that is handed out does not reach into the rest of the current block.\<close>

fun before_rest :: "Arena \<Rightarrow> region \<Rightarrow> bool" where
  "before_rest a ((b, i), n) \<longleftrightarrow> (case ar_alloc_ptr a of None \<Rightarrow> True | Some (c, j) \<Rightarrow> b \<noteq> c \<or> i + n \<le> j)"

definition rest_inside :: "Arena \<Rightarrow> bool" where
  "rest_inside a \<longleftrightarrow> (case ar_alloc_ptr a of None \<Rightarrow> ar_alloc_bytes_remaining a = 0
     | Some (b, i) \<Rightarrow> inside a ((b, i), unat (ar_alloc_bytes_remaining a)))"

definition arena_inv :: "region list \<Rightarrow> Arena \<Rightarrow> bool" where
  "arena_inv R a \<longleftrightarrow> rest_inside a \<and> (\<forall>r \<in> set R. inside a r \<and> before_rest a r) \<and> sorted_wrt apart R"

definition aligned_blocks :: "(nat \<Rightarrow> size_t) \<Rightarrow> bool" where
  "aligned_blocks base \<longleftrightarrow> (\<forall>b. base b AND 7 = 0)"

lemma new_Arena_inv: "arena_inv [] new_Arena"
  by (simp add: arena_inv_def new_Arena_def rest_inside_def)

lemma inside_block: "r \<in> set R \<Longrightarrow> arena_inv R a \<Longrightarrow> fst (fst r) < length (ar_blocks a)"
  by (cases r) (auto simp: arena_inv_def)

text \<open>Taking \<open>n\<close> bytes at \<open>i\<close> bytes behind the pointer.\<close>

lemma advance_inv:
  assumes "arena_inv R a" "ar_alloc_ptr a = Some (b, i)" "m + unat n = unat k" "k \<le> ar_alloc_bytes_remaining a"
  shows "arena_inv (R @ [((b, i + m), unat n)]) (arena_advance (b, i) k a)"
proof -
  have k: "unat k \<le> unat (ar_alloc_bytes_remaining a)" using assms(4) by (simp add: word_le_nat_alt)
  have i: "b < length (ar_blocks a)" "i + unat (ar_alloc_bytes_remaining a) \<le> unat (ar_blocks a ! b)"
    using assms(1,2) by (simp_all add: arena_inv_def rest_inside_def)
  have R: "inside a r" "before_rest (arena_advance (b, i) k a) r" "apart r ((b, i + m), unat n)" if "r \<in> set R" for r
    using assms(1,2) that by (cases r; force simp: arena_inv_def arena_advance_def)+
  have ins: "inside (arena_advance (b, i) k a) r = inside a r" for r by (cases r) (auto simp: arena_advance_def)
  have "rest_inside (arena_advance (b, i) k a)"
    using i k assms(4) by (simp add: rest_inside_def arena_advance_def word_sub_le_unat)
  moreover have "inside a ((b, i + m), unat n)" "before_rest (arena_advance (b, i) k a) ((b, i + m), unat n)"
    using i k assms(3) by (simp_all add: arena_advance_def)
  ultimately show ?thesis using R assms(1) by (auto simp: arena_inv_def ins sorted_wrt_append)
qed

lemma new_block_inv:
  assumes "arena_inv R a"
  shows "arena_inv (R @ [((length (ar_blocks a), 0), unat n)]) (snd (AllocateNewBlock n a))"
proof -
  have "inside (snd (AllocateNewBlock n a)) r \<and> before_rest (snd (AllocateNewBlock n a)) r \<and> apart r ((length (ar_blocks a), 0), unat n)"
    if "r \<in> set R" for r
    using assms that by (cases r) (auto simp: arena_inv_def AllocateNewBlock_def nth_append)
  moreover have "rest_inside (snd (AllocateNewBlock n a))" "before_rest (snd (AllocateNewBlock n a)) ((length (ar_blocks a), 0), unat n)"
    using assms by (auto simp: arena_inv_def rest_inside_def AllocateNewBlock_def nth_append split: option.splits)
  ultimately show ?thesis using assms by (auto simp: arena_inv_def sorted_wrt_append AllocateNewBlock_def nth_append)
qed

lemma AllocateFallback_inv:
  assumes "arena_inv R a" "AllocateFallback n a = (p, a')"
  shows "arena_inv (R @ [(p, unat n)]) a' \<and> snd p = 0"
proof (cases "arena_kBlockSize div 4 < n")
  case True
  then show ?thesis using assms new_block_inv [OF assms(1), of n] by (auto simp: AllocateFallback_def AllocateNewBlock_def)
next
  case False
  let ?b = "length (ar_blocks a)"
  define a1 where "a1 = (snd (AllocateNewBlock arena_kBlockSize a))\<lparr>ar_alloc_ptr := Some (?b, 0), ar_alloc_bytes_remaining := arena_kBlockSize\<rparr>"
  have "inside a1 r \<and> before_rest a1 r" if "r \<in> set R" for r
    using assms(1) that by (cases r) (auto simp: arena_inv_def a1_def AllocateNewBlock_def nth_append)
  moreover have "rest_inside a1" by (simp add: rest_inside_def a1_def AllocateNewBlock_def)
  ultimately have "arena_inv R a1" using assms(1) by (auto simp: arena_inv_def)
  moreover have "n \<le> arena_kBlockSize" using False by (simp add: arena_kBlockSize_def word_le_nat_alt word_less_nat_alt)
  ultimately have "arena_inv (R @ [((?b, 0), unat n)]) (arena_advance (?b, 0) n a1)"
    using advance_inv [of R a1 ?b 0 0 n n] by (simp add: a1_def)
  moreover have "AllocateFallback n a = ((?b, 0), arena_advance (?b, 0) n a1)"
    using False by (simp add: AllocateFallback_def AllocateNewBlock_def a1_def arena_advance_def)
  ultimately show ?thesis using assms(2) by auto
qed

section \<open>Alignment\<close>

lemma unat_and_7: "unat ((x :: size_t) AND 7) = unat x mod 8"
proof -
  have "x AND 7 = take_bit 3 x" by (simp add: take_bit_eq_mask mask_eq_exp_minus_1)
  then show ?thesis by (simp add: take_bit_eq_mod unat_mod)
qed

lemma aligned_iff: "(x :: size_t) AND 7 = 0 \<longleftrightarrow> unat x mod 8 = 0"
  using unat_and_7 [of x] by (metis unat_0 word_unat_eq_iff)

lemma slop_aligned:
  assumes "slop = (if x AND 7 = 0 then 0 else 8 - (x AND 7 :: size_t))"
  shows "(x + slop) AND 7 = 0" "unat slop < 8"
proof -
  have r: "unat (x AND 7) < 8" by (simp add: unat_and_7)
  have s: "unat slop = (if unat x mod 8 = 0 then 0 else 8 - unat x mod 8)"
    using r by (auto simp: assms aligned_iff unat_and_7 word_sub_le_unat word_le_nat_alt)
  then show "unat slop < 8" by simp
  have "unat (x + slop) mod 8 = (unat x + unat slop) mod 8"
    by (simp add: unat_word_ariths mod_mod_cancel)
  also have "\<dots> = 0" unfolding s by presburger
  finally show "(x + slop) AND 7 = 0" by (simp add: aligned_iff)
qed

lemma Allocate_inv:
  assumes "arena_inv R a" "0 < n"
  shows "\<exists>p a'. Allocate n a = Some (p, a') \<and> arena_inv (R @ [(p, unat n)]) a'"
proof (cases "n \<le> ar_alloc_bytes_remaining a")
  case True
  then obtain b i where p: "ar_alloc_ptr a = Some (b, i)"
    using assms by (cases "ar_alloc_ptr a") (auto simp: arena_inv_def rest_inside_def word_le_nat_alt word_less_nat_alt)
  then show ?thesis using advance_inv [OF assms(1) p, of 0 n n] True assms(2) by (simp add: Allocate_def)
next
  case False
  then show ?thesis using AllocateFallback_inv [OF assms(1)] assms(2) by (cases "AllocateFallback n a") (auto simp: Allocate_def)
qed

lemma AllocateAligned_inv:
  assumes "arena_inv R a" "aligned_blocks base" "unat n < 2 ^ 63" "0 < n"
  shows "\<exists>p a'. AllocateAligned base n a = Some (p, a') \<and> arena_inv (R @ [(p, unat n)]) a' \<and> arena_address base (Some p) AND 7 = 0"
proof -
  define x where "x = arena_address base (ar_alloc_ptr a)"
  define slop where "slop = (if x AND 7 = 0 then 0 else 8 - (x AND 7))"
  note slop = slop_aligned [OF slop_def]
  have seven: "(8 :: size_t) - 1 = 7" by simp
  have eq: "AllocateAligned base n a = (do {
     (result, a) \<leftarrow> (if n + slop \<le> ar_alloc_bytes_remaining a then do {
         p \<leftarrow> ar_alloc_ptr a;
         Some ((fst p, snd p + unat slop), arena_advance p (n + slop) a) }
       else Some (AllocateFallback n a));
     if arena_address base (Some result) AND 7 = 0 then Some (result, a) else None })"
    unfolding AllocateAligned_def Let_def seven slop_def x_def ..
  have needed: "unat (n + slop) = unat n + unat slop" using assms(3) slop(2) by (intro unat_add_small) simp
  show ?thesis
  proof (cases "n + slop \<le> ar_alloc_bytes_remaining a")
    case fits: True
    show ?thesis
    proof (cases "ar_alloc_ptr a")
      case None
      then have "n + slop = 0" using assms(1) fits by (auto simp: arena_inv_def rest_inside_def)
      then show ?thesis using needed assms(4) by (simp add: word_less_nat_alt)
    next
      case (Some p)
      obtain b i where p: "p = (b, i)" by (cases p)
      have "arena_address base (Some (b, i + unat slop)) AND 7 = 0"
        using slop(1) Some p by (simp add: x_def arena_address_def add.assoc)
      then show ?thesis
        using advance_inv [OF assms(1), of b i "unat slop" n "n + slop"] needed fits Some p
        by (simp add: eq add.commute)
    qed
  next
    case False
    obtain p a' where p: "AllocateFallback n a = (p, a')" by (cases "AllocateFallback n a")
    have "arena_address base (Some p) AND 7 = 0"
      using AllocateFallback_inv [OF assms(1) p] assms(2) by (cases p) (simp add: arena_address_def aligned_blocks_def)
    then show ?thesis
      using AllocateFallback_inv [OF assms(1) p] False p by (simp add: eq)
  qed
qed

lemma page_blocks: "aligned_blocks (\<lambda>b. 4096 * of_nat b)"
proof -
  have "unat (4096 * of_nat b :: size_t) mod 8 = 0" for b by (simp add: unat_word_ariths mod_mod_cancel)
  then show ?thesis by (simp add: aligned_blocks_def aligned_iff)
qed

section \<open>Properties\<close>

lemma serve_inv:
  assumes "arena_inv R a" "aligned_blocks base" "unat (request_size r) < 2 ^ 63" "0 < request_size r"
  shows "\<exists>p a'. serve base r a = Some (p, a') \<and> arena_inv (R @ [(p, unat (request_size r))]) a' \<and>
    ((\<exists>n. r = Aligned n) \<longrightarrow> arena_address base (Some p) AND 7 = 0)"
  using Allocate_inv [OF assms(1)] AllocateAligned_inv [OF assms(1,2)] assms(3,4) by (cases r) auto

lemma serve_all_inv:
  assumes "arena_inv R a" "aligned_blocks base" "\<forall>r \<in> set rs. 0 < request_size r \<and> unat (request_size r) < 2 ^ 63"
  shows "\<exists>ps a'. serve_all base rs a = Some (ps, a') \<and> length ps = length rs \<and>
    arena_inv (R @ zip ps (map (\<lambda>r. unat (request_size r)) rs)) a' \<and>
    (\<forall>i < length rs. \<forall>n. rs ! i = Aligned n \<longrightarrow> arena_address base (Some (ps ! i)) AND 7 = 0)"
  using assms(1,3)
proof (induction rs arbitrary: R a)
  case (Cons r rs)
  obtain p a1 where p: "serve base r a = Some (p, a1)" "arena_inv (R @ [(p, unat (request_size r))]) a1"
      "(\<exists>n. r = Aligned n) \<longrightarrow> arena_address base (Some p) AND 7 = 0"
    using serve_inv [OF Cons.prems(1) assms(2), of r] Cons.prems(2) by auto
  obtain ps a2 where ps: "serve_all base rs a1 = Some (ps, a2)" "length ps = length rs"
      "arena_inv ((R @ [(p, unat (request_size r))]) @ zip ps (map (\<lambda>r. unat (request_size r)) rs)) a2"
      "\<forall>i < length rs. \<forall>n. rs ! i = Aligned n \<longrightarrow> arena_address base (Some (ps ! i)) AND 7 = 0"
    using Cons.IH [OF p(2)] Cons.prems(2) by auto
  have "arena_address base (Some ((p # ps) ! i)) AND 7 = 0" if "i < length (r # rs)" "(r # rs) ! i = Aligned n" for i n
    using p(3) ps(4) that by (cases i) auto
  then show ?case using p(1) ps(1-3) by auto
qed simp

text \<open>C15. The arena: whatever sequence of requests of at least one byte is made to a new arena, each returns a
  region of the size asked for that lies inside one allocated block and has no byte in common with any other
  region returned; aligned requests return addresses that are multiples of 8, provided that \<open>new char[]\<close>
  does.\<close>

theorem arena_regions_disjoint:
  assumes "aligned_blocks base" and "\<forall>r \<in> set rs. 0 < request_size r \<and> unat (request_size r) < 2 ^ 63"
  shows "\<exists>ps a. serve_all base rs new_Arena = Some (ps, a) \<and> length ps = length rs \<and>
    (\<forall>i < length rs. inside a (ps ! i, unat (request_size (rs ! i))) \<and>
      (\<forall>n. rs ! i = Aligned n \<longrightarrow> arena_address base (Some (ps ! i)) AND 7 = 0) \<and>
      (\<forall>j < i. apart (ps ! j, unat (request_size (rs ! j))) (ps ! i, unat (request_size (rs ! i)))))"
proof -
  obtain ps a where ps: "serve_all base rs new_Arena = Some (ps, a)" "length ps = length rs"
      "arena_inv (zip ps (map (\<lambda>r. unat (request_size r)) rs)) a"
      "\<forall>i < length rs. \<forall>n. rs ! i = Aligned n \<longrightarrow> arena_address base (Some (ps ! i)) AND 7 = 0"
    using serve_all_inv [OF new_Arena_inv assms] by auto
  let ?R = "zip ps (map (\<lambda>r. unat (request_size r)) rs)"
  have R: "?R ! i = (ps ! i, unat (request_size (rs ! i)))" if "i < length rs" for i using that ps(2) by simp
  have "inside a (?R ! i)" if "i < length rs" for i
  proof -
    have "?R ! i \<in> set ?R" using that ps(2) by (intro nth_mem) simp
    then show ?thesis using ps(3) unfolding arena_inv_def by blast
  qed
  moreover have "apart (?R ! j) (?R ! i)" if "j < i" "i < length rs" for i j
    using ps(2,3) that by (auto simp: arena_inv_def sorted_wrt_iff_nth_less)
  ultimately show ?thesis using ps R by (intro exI [of _ ps] exI [of _ a]) fastforce
qed

theorem arena_regions_disjoint_witness:
  "\<exists>ps a. serve_all (\<lambda>b. 4096 * of_nat b) [Plain 5, Aligned 24, Plain 2000] new_Arena = Some (ps, a) \<and> length ps = 3 \<and>
    apart (ps ! 0, 5) (ps ! 1, 24)"
proof -
  obtain ps a where ps: "serve_all (\<lambda>b. 4096 * of_nat b) [Plain 5, Aligned 24, Plain 2000] new_Arena = Some (ps, a)" "length ps = 3"
      "\<And>i j. i < 3 \<Longrightarrow> j < i \<Longrightarrow> apart (ps ! j, unat (request_size ([Plain 5, Aligned 24, Plain 2000] ! j)))
        (ps ! i, unat (request_size ([Plain 5, Aligned 24, Plain 2000] ! i)))"
    using page_blocks arena_regions_disjoint [of "\<lambda>b. 4096 * of_nat b" "[Plain 5, Aligned 24, Plain 2000]"] by (auto simp: word_less_nat_alt)
  show ?thesis using ps(1,2) ps(3) [of 1 0] by auto
qed

end
