(* ===== verification/Ldb_Skiplist.thy ===== *)
theory Ldb_Skiplist
  imports Ldb_Iterator Ldb_Random Ldb_Arena
begin

text \<open>
  The skip list, \<open>db/skiplist.h\<close>, with keys that are strings of bytes and any comparator.

  A pointer to a node is its number, in the order of creation; the head is node 0. Reading or
  writing a link that a node does not have, or a failing assertion, is \<open>None\<close>. The list is shown to be the sorted list of its keys, also
  between the stores of an insertion, as a reader finds it that does not wait for the writer.
\<close>

section \<open>The list\<close>

record Node =
  nd_key :: "byte list"
  nd_next :: "nat option list"

record SkipList =
  sl_nodes :: "Node list"
  sl_max_height :: nat
  sl_rnd :: Random

definition kMaxHeight :: nat where "kMaxHeight = 12"

abbreviation node_key :: "SkipList \<Rightarrow> nat \<Rightarrow> byte list" where
  "node_key l n \<equiv> nd_key (sl_nodes l ! n)"

definition Node_Next :: "SkipList \<Rightarrow> nat \<Rightarrow> nat \<Rightarrow> nat option option" where
  "Node_Next l n level = (if n < length (sl_nodes l) \<and> level < length (nd_next (sl_nodes l ! n))
     then Some (nd_next (sl_nodes l ! n) ! level) else None)"

definition Node_SetNext :: "nat \<Rightarrow> nat \<Rightarrow> nat option \<Rightarrow> SkipList \<Rightarrow> SkipList option" where
  "Node_SetNext n level x l = (if n < length (sl_nodes l) \<and> level < length (nd_next (sl_nodes l ! n))
     then Some (l\<lparr>sl_nodes := (sl_nodes l)[n := (sl_nodes l ! n)\<lparr>nd_next := (nd_next (sl_nodes l ! n))[level := x]\<rparr>]\<rparr>) else None)"

text \<open>The links of a new node are written before anything reads them.\<close>

definition NewNode :: "(nat \<Rightarrow> size_t) \<Rightarrow> byte list \<Rightarrow> nat \<Rightarrow> SkipList \<times> Arena \<Rightarrow> (nat \<times> SkipList \<times> Arena) option" where
  "NewNode base key height = (\<lambda>(l, arena). do {
     (node_memory, arena) \<leftarrow> AllocateAligned base (of_nat (16 + 8 * (height - 1))) arena;
     Some (length (sl_nodes l), l\<lparr>sl_nodes := sl_nodes l @ [\<lparr>nd_key = key, nd_next = replicate height None\<rparr>]\<rparr>, arena) })"

primrec clear_head :: "nat \<Rightarrow> SkipList \<Rightarrow> SkipList option" where
  "clear_head 0 l = Some l"
| "clear_head (Suc i) l = do { l \<leftarrow> clear_head i l; Node_SetNext 0 i None l }"

definition new_SkipList :: "(nat \<Rightarrow> size_t) \<Rightarrow> Arena \<Rightarrow> (SkipList \<times> Arena) option" where
  "new_SkipList base arena = do {
     (head, l, arena) \<leftarrow> NewNode base [] kMaxHeight (\<lparr>sl_nodes = [], sl_max_height = 1, sl_rnd = new_Random 0xdeadbeef\<rparr>, arena);
     l \<leftarrow> clear_head kMaxHeight l;
     Some (l, arena) }"

function random_height :: "nat \<Rightarrow> Random \<Rightarrow> nat \<times> Random" where
  "random_height height rnd = (if height < kMaxHeight then
     (let rnd = Random_Next rnd in if rnd mod 4 = 0 then random_height (height + 1) rnd else (height, rnd))
   else (height, rnd))"
  by pat_completeness auto
termination by (relation "measure (\<lambda>(height, _). kMaxHeight - height)") auto

declare random_height.simps [simp del]

definition RandomHeight :: "SkipList \<Rightarrow> (nat \<times> SkipList) option" where
  "RandomHeight l = (case random_height 1 (sl_rnd l) of (height, rnd) \<Rightarrow>
     if height > 0 \<and> height \<le> kMaxHeight then Some (height, l\<lparr>sl_rnd := rnd\<rparr>) else None)"

definition KeyIsAfterNode :: "Comparator \<Rightarrow> byte list \<Rightarrow> nat option \<Rightarrow> SkipList \<Rightarrow> bool option" where
  "KeyIsAfterNode C key n l = (case n of None \<Rightarrow> Some False
     | Some n \<Rightarrow> do { r \<leftarrow> cmp_Compare C (node_key l n) key; Some (r < 0) })"

text \<open>The array \<open>prev\<close> is empty for \<open>nullptr\<close>: then the assignment to its element has no effect.\<close>

partial_function (option) find_ge_loop :: "Comparator \<Rightarrow> byte list \<Rightarrow> SkipList \<Rightarrow> nat \<Rightarrow> nat \<Rightarrow> nat option list \<Rightarrow>
    (nat option \<times> nat option list) option" where
  "find_ge_loop C key l x level prev = do {
     next \<leftarrow> Node_Next l x level;
     after \<leftarrow> KeyIsAfterNode C key next l;
     if after then do { x \<leftarrow> next; find_ge_loop C key l x level prev }
     else let prev = prev[level := Some x] in
       if level = 0 then Some (next, prev) else find_ge_loop C key l x (level - 1) prev }"

definition FindGreaterOrEqual :: "Comparator \<Rightarrow> byte list \<Rightarrow> nat option list \<Rightarrow> SkipList \<Rightarrow> (nat option \<times> nat option list) option" where
  "FindGreaterOrEqual C key prev l = find_ge_loop C key l 0 (sl_max_height l - 1) prev"

partial_function (option) find_lt_loop :: "Comparator \<Rightarrow> byte list \<Rightarrow> SkipList \<Rightarrow> nat \<Rightarrow> nat \<Rightarrow> nat option" where
  "find_lt_loop C key l x level = do {
     ok \<leftarrow> (if x = 0 then Some True else KeyIsAfterNode C key (Some x) l);
     if \<not> ok then None
     else do {
       next \<leftarrow> Node_Next l x level;
       before \<leftarrow> KeyIsAfterNode C key next l;
       if \<not> before then (if level = 0 then Some x else find_lt_loop C key l x (level - 1))
       else do { x \<leftarrow> next; find_lt_loop C key l x level } } }"

definition FindLessThan :: "Comparator \<Rightarrow> byte list \<Rightarrow> SkipList \<Rightarrow> nat option" where
  "FindLessThan C key l = find_lt_loop C key l 0 (sl_max_height l - 1)"

partial_function (option) find_last_loop :: "SkipList \<Rightarrow> nat \<Rightarrow> nat \<Rightarrow> nat option" where
  "find_last_loop l x level = do {
     next \<leftarrow> Node_Next l x level;
     case next of
       None \<Rightarrow> if level = 0 then Some x else find_last_loop l x (level - 1)
     | Some n \<Rightarrow> find_last_loop l n level }"

definition FindLast :: "SkipList \<Rightarrow> nat option" where
  "FindLast l = find_last_loop l 0 (sl_max_height l - 1)"

definition node_Equal :: "Comparator \<Rightarrow> byte list \<Rightarrow> nat option \<Rightarrow> SkipList \<Rightarrow> bool option" where
  "node_Equal C key x l = (case x of None \<Rightarrow> Some False
     | Some x \<Rightarrow> do { r \<leftarrow> cmp_Compare C key (node_key l x); Some (r = 0) })"

text \<open>The rounds of the last loop of \<open>Insert\<close>, each with two stores.\<close>

definition link_level :: "nat \<Rightarrow> nat option list \<Rightarrow> nat \<Rightarrow> SkipList \<Rightarrow> SkipList option" where
  "link_level x prev i l = do {
     p \<leftarrow> prev ! i;
     n \<leftarrow> Node_Next l p i;
     l \<leftarrow> Node_SetNext x i n l;
     Node_SetNext p i (Some x) l }"

definition link_first :: "nat \<Rightarrow> nat option list \<Rightarrow> nat \<Rightarrow> SkipList \<Rightarrow> SkipList option" where
  "link_first x prev i l = do { p \<leftarrow> prev ! i; n \<leftarrow> Node_Next l p i; Node_SetNext x i n l }"

primrec link_levels :: "nat \<Rightarrow> nat option list \<Rightarrow> nat \<Rightarrow> SkipList \<Rightarrow> SkipList option" where
  "link_levels x prev 0 l = Some l"
| "link_levels x prev (Suc i) l = do { l \<leftarrow> link_levels x prev i l; link_level x prev i l }"

definition raise_height :: "nat \<Rightarrow> nat option list \<Rightarrow> SkipList \<Rightarrow> nat option list \<times> SkipList" where
  "raise_height height prev l = (if height > sl_max_height l
     then (foldl (\<lambda>prev i. prev[i := Some 0]) prev [sl_max_height l..<height], l\<lparr>sl_max_height := height\<rparr>) else (prev, l))"

text \<open>\<open>Insert\<close> up to this loop: the new node, the nodes in front of it, its height.\<close>

definition prepare_insert :: "(nat \<Rightarrow> size_t) \<Rightarrow> Comparator \<Rightarrow> byte list \<Rightarrow> SkipList \<times> Arena \<Rightarrow>
    (nat \<times> nat option list \<times> nat \<times> SkipList \<times> Arena) option" where
  "prepare_insert base C key = (\<lambda>(l, arena). do {
     (x, prev) \<leftarrow> FindGreaterOrEqual C key (replicate kMaxHeight None) l;
     equal \<leftarrow> node_Equal C key x l;
     if equal then None
     else do {
       (height, l) \<leftarrow> RandomHeight l;
       let (prev, l) = raise_height height prev l;
       (x, l, arena) \<leftarrow> NewNode base key height (l, arena);
       Some (x, prev, height, l, arena) } })"

definition Insert :: "(nat \<Rightarrow> size_t) \<Rightarrow> Comparator \<Rightarrow> byte list \<Rightarrow> SkipList \<times> Arena \<Rightarrow> (SkipList \<times> Arena) option" where
  "Insert base C key s = do {
     (x, prev, height, l, arena) \<leftarrow> prepare_insert base C key s;
     l \<leftarrow> link_levels x prev height l;
     Some (l, arena) }"

text \<open>Insertions one after the other.\<close>

primrec insert_all :: "(nat \<Rightarrow> size_t) \<Rightarrow> Comparator \<Rightarrow> byte list list \<Rightarrow> SkipList \<times> Arena \<Rightarrow> (SkipList \<times> Arena) option" where
  "insert_all base C [] s = Some s"
| "insert_all base C (k # ks) s = do { s \<leftarrow> Insert base C k s; insert_all base C ks s }"

definition Contains :: "Comparator \<Rightarrow> byte list \<Rightarrow> SkipList \<Rightarrow> bool option" where
  "Contains C key l = do { (x, _) \<leftarrow> FindGreaterOrEqual C key [] l; node_Equal C key x l }"

section \<open>The iterator of a skip list\<close>

text \<open>The position is the pointer \<open>node_\<close>.\<close>

definition sli_key :: "SkipList \<Rightarrow> nat option \<Rightarrow> byte list option" where
  "sli_key l node = do { n \<leftarrow> node; Some (node_key l n) }"

definition sli_Next :: "SkipList \<Rightarrow> nat option \<Rightarrow> nat option option" where
  "sli_Next l node = do { n \<leftarrow> node; Node_Next l n 0 }"

definition sli_Prev :: "Comparator \<Rightarrow> SkipList \<Rightarrow> nat option \<Rightarrow> nat option option" where
  "sli_Prev C l node = do {
     n \<leftarrow> node;
     p \<leftarrow> FindLessThan C (node_key l n) l;
     Some (if p = 0 then None else Some p) }"

definition sli_Seek :: "Comparator \<Rightarrow> SkipList \<Rightarrow> byte list \<Rightarrow> nat option option" where
  "sli_Seek C l target = do { (node, _) \<leftarrow> FindGreaterOrEqual C target [] l; Some node }"

definition sli_SeekToFirst :: "SkipList \<Rightarrow> nat option option" where
  "sli_SeekToFirst l = Node_Next l 0 0"

definition sli_SeekToLast :: "SkipList \<Rightarrow> nat option option" where
  "sli_SeekToLast l = do { n \<leftarrow> FindLast l; Some (if n = 0 then None else Some n) }"

text \<open>The keys from a position on.\<close>

primrec sli_scan :: "nat \<Rightarrow> SkipList \<Rightarrow> nat option \<Rightarrow> byte list list option" where
  "sli_scan 0 l node = Some []"
| "sli_scan (Suc n) l node = (if node \<noteq> None
     then do { k \<leftarrow> sli_key l node; node \<leftarrow> sli_Next l node; ks \<leftarrow> sli_scan n l node; Some (k # ks) } else Some [])"

section \<open>Links\<close>

fun path :: "SkipList \<Rightarrow> nat \<Rightarrow> nat \<Rightarrow> nat list \<Rightarrow> bool" where
  "path l level x [] \<longleftrightarrow> True"
| "path l level x (y # ys) \<longleftrightarrow> Node_Next l x level = Some (Some y) \<and> path l level y ys"

definition linked :: "SkipList \<Rightarrow> nat \<Rightarrow> nat \<Rightarrow> nat list \<Rightarrow> bool" where
  "linked l level x xs \<longleftrightarrow> path l level x xs \<and> Node_Next l (last (x # xs)) level = Some None"

lemma path_append: "path l level x (xs @ ys) \<longleftrightarrow> path l level x xs \<and> path l level (last (x # xs)) ys"
  by (induction xs arbitrary: x) auto

lemma last_append_Cons: "last (x # xs @ ys) = last (last (x # xs) # ys)"
  by (cases ys) (auto simp: last_append)

lemma linked_append: "linked l level x (xs @ ys) \<longleftrightarrow> path l level x xs \<and> linked l level (last (x # xs)) ys"
  unfolding linked_def path_append last_append_Cons by blast

lemma linked_Cons: "linked l level x (y # ys) \<longleftrightarrow> Node_Next l x level = Some (Some y) \<and> linked l level y ys"
  by (simp add: linked_def)

lemma linked_Nil: "linked l level x [] \<longleftrightarrow> Node_Next l x level = Some None"
  by (simp add: linked_def)

lemma linked_first: "linked l level x ys \<Longrightarrow> Node_Next l x level = Some (case ys of [] \<Rightarrow> None | y # _ \<Rightarrow> Some y)"
  by (cases ys) (simp_all add: linked_def)

lemma path_cong: "(\<And>n. n \<in> set (butlast (x # xs)) \<Longrightarrow> Node_Next l' n level = Node_Next l n level) \<Longrightarrow> path l' level x xs = path l level x xs"
  by (induction xs arbitrary: x) auto

lemma linked_cong:
  assumes "\<And>n. n \<in> set (x # xs) \<Longrightarrow> Node_Next l' n level = Node_Next l n level"
  shows "linked l' level x xs = linked l level x xs"
proof -
  have "path l' level x xs = path l level x xs" by (rule path_cong) (rule assms, rule in_set_butlastD)
  then show ?thesis using assms last_in_set [of "x # xs"] by (simp add: linked_def)
qed

lemma Node_Next_SetNext:
  assumes "Node_SetNext n level x l = Some l'"
  shows "Node_Next l' m k = (if m = n \<and> k = level then Some x else Node_Next l m k)"
    "length (sl_nodes l') = length (sl_nodes l)" "node_key l' m = node_key l m"
    "length (nd_next (sl_nodes l' ! m)) = length (nd_next (sl_nodes l ! m))"
    "sl_max_height l' = sl_max_height l" "sl_rnd l' = sl_rnd l"
  using assms by (auto simp: Node_SetNext_def Node_Next_def nth_list_update split: if_splits)

text \<open>Putting a node behind the last one of \<open>xs\<close>.\<close>

lemma splice:
  assumes "linked l level x (xs @ ys)" "distinct (x # xs @ ys)" "n \<notin> set (x # xs @ ys)"
    and "Node_SetNext n level (case ys of [] \<Rightarrow> None | y # _ \<Rightarrow> Some y) l = Some l1" "Node_SetNext (last (x # xs)) level (Some n) l1 = Some l2"
  shows "linked l2 level x (xs @ n # ys)"
proof -
  let ?p = "last (x # xs)"
  have l: "path l level x xs" "linked l level ?p ys" using assms(1) by (simp_all add: linked_append)
  have p: "?p \<in> set (x # xs)" by (rule last_in_set) simp
  have "?p \<noteq> n" "?p \<notin> set ys" using p assms(2,3) by auto
  then have next2: "Node_Next l2 m level = (if m = ?p then Some (Some n) else if m = n then Some (case ys of [] \<Rightarrow> None | y # _ \<Rightarrow> Some y)
      else Node_Next l m level)" for m
    using Node_Next_SetNext(1) [OF assms(4), of m level] Node_Next_SetNext(1) [OF assms(5), of m level] by auto
  have "path l2 level x xs = path l level x xs"
  proof (rule path_cong)
    fix m assume m: "m \<in> set (butlast (x # xs))"
    have "distinct (butlast (x # xs) @ [?p])" using assms(2) by (metis append_butlast_last_id distinct_append append_Cons list.distinct(1))
    then have "m \<noteq> ?p" using m by auto
    moreover have "m \<noteq> n" using in_set_butlastD [OF m] assms(3) by auto
    ultimately show "Node_Next l2 m level = Node_Next l m level" by (simp add: next2)
  qed
  moreover have "linked l2 level n ys"
  proof (cases ys)
    case Nil
    then show ?thesis using next2 \<open>?p \<noteq> n\<close> by (simp add: linked_Nil)
  next
    case (Cons y ys')
    have "linked l2 level y ys' = linked l level y ys'"
      using next2 \<open>?p \<notin> set ys\<close> assms(3) Cons by (intro linked_cong) auto
    then show ?thesis using l(2) Cons next2 [of n] \<open>?p \<noteq> n\<close> by (auto simp: linked_Cons)
  qed
  ultimately show ?thesis using l(1) next2 by (simp add: linked_append linked_Cons)
qed

lemma linked_other_level:
  "Node_SetNext n level x l = Some l' \<Longrightarrow> k \<noteq> level \<Longrightarrow> linked l' k y ys = linked l k y ys"
  by (rule linked_cong) (simp add: Node_Next_SetNext(1))

section \<open>The invariant\<close>

text \<open>\<open>ns\<close> are the nodes in order and \<open>h n\<close> is the number of levels in which node \<open>n\<close> is linked.\<close>

definition chain :: "(nat \<Rightarrow> nat) \<Rightarrow> nat list \<Rightarrow> nat \<Rightarrow> nat list" where
  "chain h ns level = filter (\<lambda>n. level < h n) ns"

definition skip_inv :: "Comparator \<Rightarrow> (byte list \<Rightarrow> bool) \<Rightarrow> nat list \<Rightarrow> (nat \<Rightarrow> nat) \<Rightarrow> SkipList \<Rightarrow> bool" where
  "skip_inv C valid ns h l \<longleftrightarrow> sl_nodes l \<noteq> [] \<and> length (nd_next (sl_nodes l ! 0)) = kMaxHeight \<and>
     (\<forall>n \<in> set ns. 0 < n \<and> n < length (sl_nodes l) \<and> 0 < h n \<and> h n \<le> length (nd_next (sl_nodes l ! n)) \<and>
       h n \<le> sl_max_height l \<and> valid (node_key l n)) \<and>
     0 < sl_max_height l \<and> sl_max_height l \<le> kMaxHeight \<and>
     sorted_wrt (\<lambda>a b. key_less C (node_key l a) (node_key l b)) ns \<and>
     (\<forall>level < kMaxHeight. linked l level 0 (chain h ns level))"

text \<open>Where a search for \<open>k\<close> leaves a level.\<close>

definition pred_node :: "Comparator \<Rightarrow> SkipList \<Rightarrow> (nat \<Rightarrow> nat) \<Rightarrow> nat list \<Rightarrow> byte list \<Rightarrow> nat \<Rightarrow> nat" where
  "pred_node C l h ns k level = last (0 # takeWhile (\<lambda>n. key_less C (node_key l n) k) (chain h ns level))"

definition first_node :: "Comparator \<Rightarrow> SkipList \<Rightarrow> nat list \<Rightarrow> byte list \<Rightarrow> nat option" where
  "first_node C l ns k = (case dropWhile (\<lambda>n. key_less C (node_key l n) k) ns of [] \<Rightarrow> None | n # _ \<Rightarrow> Some n)"

text \<open>A node of the search path at a level.\<close>

definition on_path :: "Comparator \<Rightarrow> SkipList \<Rightarrow> (nat \<Rightarrow> nat) \<Rightarrow> nat list \<Rightarrow> byte list \<Rightarrow> nat \<Rightarrow> nat \<Rightarrow> bool" where
  "on_path C l h ns k level x \<longleftrightarrow> x = 0 \<or> x \<in> set ns \<and> level < h x \<and> key_less C (node_key l x) k"

lemma chain_0: "\<forall>n \<in> set ns. 0 < h n \<Longrightarrow> chain h ns 0 = ns"
  by (simp add: chain_def)

context key_order
begin

lemma skip_nodes:
  assumes "skip_inv C valid ns h l" "n \<in> set ns"
  shows "0 < n" "n < length (sl_nodes l)" "0 < h n" "h n \<le> length (nd_next (sl_nodes l ! n))" "h n \<le> sl_max_height l" "valid (node_key l n)"
  using assms by (auto simp: skip_inv_def)

lemma skip_chain:
  assumes "skip_inv C valid ns h l"
  shows "level < kMaxHeight \<Longrightarrow> linked l level 0 (chain h ns level)" "set (chain h ns level) \<subseteq> set ns" "chain h ns 0 = ns"
    "sorted_wrt (\<lambda>a b. key_less C (node_key l a) (node_key l b)) (chain h ns level)"
  using assms by (auto simp: skip_inv_def chain_def sorted_wrt_filter)

lemma skip_distinct:
  assumes "skip_inv C valid ns h l"
  shows "distinct ns"
proof -
  have "sorted_wrt (\<lambda>a b. key_less C (node_key l a) (node_key l b)) ns" using assms by (simp add: skip_inv_def)
  moreover have "\<not> key_less C (node_key l n) (node_key l n)" if "n \<in> set ns" for n
    using less_irrefl skip_nodes(6) [OF assms that] by blast
  ultimately show ?thesis by (induction ns) (auto)
qed

text \<open>In a chain, the nodes before a key come first.\<close>

lemma chain_split:
  assumes "sorted_wrt (\<lambda>a b. key_less C (node_key l a) (node_key l b)) xs" "\<forall>n \<in> set xs. valid (node_key l n)" "valid k"
  shows "n \<in> set (takeWhile (\<lambda>n. key_less C (node_key l n) k) xs) \<longleftrightarrow> n \<in> set xs \<and> key_less C (node_key l n) k"
  using assms
proof (induction xs)
  case (Cons x xs)
  show ?case
  proof (cases "key_less C (node_key l x) k")
    case False
    then have "\<not> key_less C (node_key l n) k" if "n \<in> set xs" for n
      using that Cons.prems less_trans [of "node_key l x" "node_key l n" k] by auto
    then show ?thesis using False by auto
  qed (use Cons in auto)
qed simp

text \<open>What lies behind a node of the search path: nodes to pass, then the others.\<close>

lemma path_split:
  assumes "skip_inv C valid ns h l" "valid k" "level < kMaxHeight" "on_path C l h ns k level x"
  obtains xs ys where "linked l level x (xs @ ys)" "last (x # xs) = pred_node C l h ns k level"
    "\<forall>n \<in> set xs. n \<in> set ns \<and> level < h n \<and> key_less C (node_key l n) k" "set ys \<subseteq> set ns" 
    "ys = dropWhile (\<lambda>n. key_less C (node_key l n) k) (chain h ns level)"
proof -
  let ?P = "\<lambda>n. key_less C (node_key l n) k" and ?c = "chain h ns level"
  note ch = skip_chain [OF assms(1)]
  have v: "\<forall>n \<in> set ?c. valid (node_key l n)" using ch(2) [of level] skip_nodes(6) [OF assms(1)] by blast
  have A: "n \<in> set (takeWhile ?P ?c) \<longleftrightarrow> n \<in> set ?c \<and> ?P n" for n by (rule chain_split [OF ch(4) v assms(2)])
  have B: "set (dropWhile ?P ?c) \<subseteq> set ns" using ch(2) [of level] set_dropWhileD by fast
  have l: "linked l level 0 (takeWhile ?P ?c @ dropWhile ?P ?c)" using ch(1) [OF assms(3)] by simp
  have A': "n \<in> set ns \<and> level < h n \<and> ?P n" if "n \<in> set (takeWhile ?P ?c)" for n using A that by (auto simp: chain_def)
  show thesis
  proof (cases "x = 0")
    case True
    show thesis
      by (rule that [of "takeWhile ?P ?c" "dropWhile ?P ?c", OF _ _ _ B refl]) (use True l A' in \<open>simp_all add: pred_node_def\<close>)
  next
    case False
    then have "x \<in> set (takeWhile ?P ?c)" using assms(4) A by (auto simp: on_path_def chain_def)
    then obtain ws xs where xs: "takeWhile ?P ?c = ws @ x # xs" by (auto simp: in_set_conv_decomp)
    have "linked l level x (xs @ dropWhile ?P ?c)" using l unfolding xs by (simp add: linked_append linked_Cons)
    then show thesis
      by (rule that [of xs "dropWhile ?P ?c", OF _ _ _ B refl]) (use A' in \<open>simp_all add: pred_node_def xs\<close>)
  qed
qed

lemma KeyIsAfterNode_valid: "valid (node_key l n) \<Longrightarrow> valid k \<Longrightarrow> KeyIsAfterNode C k (Some n) l = Some (key_less C (node_key l n) k)"
  using compare_total [of "node_key l n" k] by (auto simp: KeyIsAfterNode_def key_less_def)

lemma KeyIsAfterNode_rest:
  assumes "valid k" "\<forall>n \<in> set ys. valid (node_key l n)" "ys = dropWhile (\<lambda>n. key_less C (node_key l n) k) zs"
  shows "KeyIsAfterNode C k (case ys of [] \<Rightarrow> None | y # _ \<Rightarrow> Some y) l = Some False"
proof (cases ys)
  case Nil
  then show ?thesis by (simp add: KeyIsAfterNode_def)
next
  case (Cons y ys')
  then have "\<not> key_less C (node_key l y) k" using assms(3) hd_dropWhile [of "\<lambda>n. key_less C (node_key l n) k" zs]
    by (metis list.sel(1) list.distinct(1))
  then show ?thesis using Cons KeyIsAfterNode_valid [of l y k] assms(1,2) by simp
qed

lemma find_ge_walk:
  assumes "linked l level x (xs @ ys)" "\<forall>n \<in> set xs. valid (node_key l n) \<and> key_less C (node_key l n) k" "valid k"
    and "KeyIsAfterNode C k (case ys of [] \<Rightarrow> None | y # _ \<Rightarrow> Some y) l = Some False"
  shows "find_ge_loop C k l x level prev = (let y = last (x # xs); prev = prev[level := Some y] in
    if level = 0 then Some (case ys of [] \<Rightarrow> None | y # _ \<Rightarrow> Some y, prev) else find_ge_loop C k l y (level - 1) prev)"
  using assms(1,2)
proof (induction xs arbitrary: x)
  case Nil
  then have "Node_Next l x level = Some (case ys of [] \<Rightarrow> None | y # _ \<Rightarrow> Some y)" using linked_first by simp
  then show ?case using assms(4) by (subst find_ge_loop.simps) (simp add: Let_def)
next
  case (Cons n xs)
  then have "Node_Next l x level = Some (Some n)" "linked l level n (xs @ ys)" by (simp_all add: linked_Cons)
  moreover have "KeyIsAfterNode C k (Some n) l = Some True" using Cons.prems(2) assms(3) KeyIsAfterNode_valid by simp
  ultimately show ?case using Cons.IH [of n] Cons.prems(2) by (subst find_ge_loop.simps) simp
qed

text \<open>The search records the node in front of the key at every level.\<close>

lemma find_ge_loop_at:
  assumes "skip_inv C valid ns h l" "valid k" "level < kMaxHeight" "on_path C l h ns k level x"
  shows "\<exists>prev'. find_ge_loop C k l x level prev = Some (first_node C l ns k, prev') \<and> length prev' = length prev \<and>
    (\<forall>i < length prev. prev' ! i = (if i \<le> level then Some (pred_node C l h ns k i) else prev ! i))"
  using assms(3,4)
proof (induction level arbitrary: x prev)
  case 0
  obtain xs ys where xs: "linked l 0 x (xs @ ys)" "last (x # xs) = pred_node C l h ns k 0"
      "\<forall>n \<in> set xs. n \<in> set ns \<and> 0 < h n \<and> key_less C (node_key l n) k" "set ys \<subseteq> set ns"
      "ys = dropWhile (\<lambda>n. key_less C (node_key l n) k) (chain h ns 0)"
    using path_split [OF assms(1,2) 0] by blast
  have "\<forall>n \<in> set ys. valid (node_key l n)" using xs(4) skip_nodes(6) [OF assms(1)] by blast
  then have "find_ge_loop C k l x 0 prev = Some (first_node C l ns k, prev[0 := Some (pred_node C l h ns k 0)])"
    using find_ge_walk [OF xs(1) _ assms(2) KeyIsAfterNode_rest [OF assms(2) _ xs(5)], of prev] xs(2,3) skip_nodes(6) [OF assms(1)]
    by (simp add: Let_def first_node_def xs(5) skip_chain(3) [OF assms(1)])
  then show ?case by (auto simp: nth_list_update)
next
  case (Suc level)
  obtain xs ys where xs: "linked l (Suc level) x (xs @ ys)" "last (x # xs) = pred_node C l h ns k (Suc level)"
      "\<forall>n \<in> set xs. n \<in> set ns \<and> Suc level < h n \<and> key_less C (node_key l n) k" "set ys \<subseteq> set ns"
      "ys = dropWhile (\<lambda>n. key_less C (node_key l n) k) (chain h ns (Suc level))"
    using path_split [OF assms(1,2) Suc.prems] by blast
  let ?y = "pred_node C l h ns k (Suc level)"
  have "\<forall>n \<in> set ys. valid (node_key l n)" using xs(4) skip_nodes(6) [OF assms(1)] by blast
  then have step: "find_ge_loop C k l x (Suc level) prev = find_ge_loop C k l ?y level (prev[Suc level := Some ?y])"
    using find_ge_walk [OF xs(1) _ assms(2) KeyIsAfterNode_rest [OF assms(2) _ xs(5)], of prev] xs(2,3) skip_nodes(6) [OF assms(1)]
    by (simp add: Let_def)
  have "on_path C l h ns k level ?y"
    using xs(2,3) Suc.prems(2) last_in_set [of "x # xs"] by (auto simp: on_path_def split: if_splits)
  then show ?case
    using Suc.IH [of ?y "prev[Suc level := Some ?y]"] Suc.prems(1) step by (auto simp: nth_list_update le_Suc_eq)
qed

lemma FindGreaterOrEqual_at:
  assumes "skip_inv C valid ns h l" "valid k"
  shows "\<exists>prev'. FindGreaterOrEqual C k prev l = Some (first_node C l ns k, prev') \<and> length prev' = length prev \<and>
    (\<forall>i < length prev. prev' ! i = (if i < sl_max_height l then Some (pred_node C l h ns k i) else prev ! i))"
proof -
  have m: "0 < sl_max_height l" "sl_max_height l - 1 < kMaxHeight" using assms(1) by (auto simp: skip_inv_def)
  have "(i \<le> sl_max_height l - 1) = (i < sl_max_height l)" for i using m(1) by auto
  then show ?thesis using find_ge_loop_at [OF assms m(2), of 0 prev] by (simp add: FindGreaterOrEqual_def on_path_def)
qed

lemma find_lt_walk:
  assumes "linked l level x (xs @ ys)" "\<forall>n \<in> set xs. valid (node_key l n) \<and> key_less C (node_key l n) k" "valid k"
    and "KeyIsAfterNode C k (case ys of [] \<Rightarrow> None | y # _ \<Rightarrow> Some y) l = Some False" "x = 0 \<or> valid (node_key l x) \<and> key_less C (node_key l x) k"
  shows "find_lt_loop C k l x level = (let y = last (x # xs) in if level = 0 then Some y else find_lt_loop C k l y (level - 1))"
  using assms(1,2,5)
proof (induction xs arbitrary: x)
  case Nil
  then have "Node_Next l x level = Some (case ys of [] \<Rightarrow> None | y # _ \<Rightarrow> Some y)" using linked_first by simp
  then show ?case using assms(3,4) Nil(3) KeyIsAfterNode_valid [of l x k] by (subst find_lt_loop.simps) (auto simp: Let_def)
next
  case (Cons n xs)
  then have "Node_Next l x level = Some (Some n)" "linked l level n (xs @ ys)" by (simp_all add: linked_Cons)
  moreover have "KeyIsAfterNode C k (Some n) l = Some True" using Cons.prems(2) assms(3) KeyIsAfterNode_valid by simp
  ultimately show ?case
    using Cons.IH [of n] Cons.prems(2,3) assms(3) KeyIsAfterNode_valid [of l x k] by (subst find_lt_loop.simps) auto
qed

lemma find_lt_loop_at:
  assumes "skip_inv C valid ns h l" "valid k" "level < kMaxHeight" "on_path C l h ns k level x"
  shows "find_lt_loop C k l x level = Some (pred_node C l h ns k 0)"
  using assms(3,4)
proof (induction level arbitrary: x)
  case (Suc level)
  obtain xs ys where xs: "linked l (Suc level) x (xs @ ys)" "last (x # xs) = pred_node C l h ns k (Suc level)"
      "\<forall>n \<in> set xs. n \<in> set ns \<and> Suc level < h n \<and> key_less C (node_key l n) k" "set ys \<subseteq> set ns"
      "ys = dropWhile (\<lambda>n. key_less C (node_key l n) k) (chain h ns (Suc level))"
    using path_split [OF assms(1,2) Suc.prems] by blast
  let ?y = "pred_node C l h ns k (Suc level)"
  have "\<forall>n \<in> set ys. valid (node_key l n)" using xs(4) skip_nodes(6) [OF assms(1)] by blast
  then have "find_lt_loop C k l x (Suc level) = find_lt_loop C k l ?y level"
    using find_lt_walk [OF xs(1) _ assms(2) KeyIsAfterNode_rest [OF assms(2) _ xs(5)]] xs(2,3) skip_nodes(6) [OF assms(1)] Suc.prems(2)
    by (auto simp: Let_def on_path_def)
  moreover have "on_path C l h ns k level ?y"
    using xs(2,3) Suc.prems(2) last_in_set [of "x # xs"] by (auto simp: on_path_def split: if_splits)
  ultimately show ?case using Suc.IH [of ?y] Suc.prems(1) by simp
next
  case 0
  obtain xs ys where xs: "linked l 0 x (xs @ ys)" "last (x # xs) = pred_node C l h ns k 0"
      "\<forall>n \<in> set xs. n \<in> set ns \<and> 0 < h n \<and> key_less C (node_key l n) k" "set ys \<subseteq> set ns"
      "ys = dropWhile (\<lambda>n. key_less C (node_key l n) k) (chain h ns 0)"
    using path_split [OF assms(1,2) 0] by blast
  have "\<forall>n \<in> set ys. valid (node_key l n)" using xs(4) skip_nodes(6) [OF assms(1)] by blast
  then show ?case
    using find_lt_walk [OF xs(1) _ assms(2) KeyIsAfterNode_rest [OF assms(2) _ xs(5)]] xs(2,3) skip_nodes(6) [OF assms(1)] 0(2)
    by (auto simp: Let_def on_path_def)
qed

lemma FindLessThan_at:
  assumes "skip_inv C valid ns h l" "valid k"
  shows "FindLessThan C k l = Some (last (0 # takeWhile (\<lambda>n. key_less C (node_key l n) k) ns))"
proof -
  have m: "sl_max_height l - 1 < kMaxHeight" using assms(1) by (auto simp: skip_inv_def)
  show ?thesis
    using find_lt_loop_at [OF assms m, of 0] skip_chain(3) [OF assms(1)] by (simp add: FindLessThan_def on_path_def pred_node_def)
qed

lemma find_last_walk: "linked l level x xs \<Longrightarrow>
    find_last_loop l x level = (let y = last (x # xs) in if level = 0 then Some y else find_last_loop l y (level - 1))"
proof (induction xs arbitrary: x)
  case Nil
  then show ?case by (subst find_last_loop.simps) (simp add: linked_Nil Let_def)
next
  case (Cons n xs)
  then show ?case by (subst find_last_loop.simps) (simp add: linked_Cons)
qed

lemma find_last_loop_at:
  assumes "skip_inv C valid ns h l" "level < kMaxHeight" "x = 0 \<or> x \<in> set (chain h ns level)"
  shows "find_last_loop l x level = Some (last (0 # ns))"
  using assms(2,3)
proof (induction level arbitrary: x)
  have rest: "\<exists>xs. linked l level x xs \<and> last (x # xs) = last (0 # chain h ns level)"
    if level: "level < kMaxHeight" and x: "x = 0 \<or> x \<in> set (chain h ns level)" for level x
  proof (cases "x = 0")
    case True
    then show ?thesis using skip_chain(1) [OF assms(1) level] by blast
  next
    case False
    then obtain ws xs where "chain h ns level = ws @ x # xs" using x by (auto simp: in_set_conv_decomp)
    then show ?thesis using skip_chain(1) [OF assms(1) level] by (auto simp: linked_append linked_Cons)
  qed
  {
    case 0
    then obtain xs where "linked l 0 x xs" "last (x # xs) = last (0 # ns)" using rest [of 0 x] skip_chain(3) [OF assms(1)] by auto
    then show ?case using find_last_walk by (simp add: Let_def)
  next
    case (Suc level)
    obtain xs where xs: "linked l (Suc level) x xs" "last (x # xs) = last (0 # chain h ns (Suc level))"
      using rest [OF Suc.prems] by blast
    have "last (0 # chain h ns (Suc level)) = 0 \<or> last (0 # chain h ns (Suc level)) \<in> set (chain h ns level)"
      using last_in_set [of "chain h ns (Suc level)"] by (auto simp: chain_def)
    then show ?case using Suc.IH [of "last (x # xs)"] Suc.prems(1) find_last_walk [OF xs(1)] xs(2) by (simp add: Let_def)
  }
qed

lemma FindLast_at: "skip_inv C valid ns h l \<Longrightarrow> FindLast l = Some (last (0 # ns))"
  using find_last_loop_at [of ns h l "sl_max_height l - 1" 0] by (auto simp: FindLast_def skip_inv_def)

lemma equal_iff:
  assumes "valid a" "valid b"
  shows "cmp_Compare C a b = Some 0 \<longleftrightarrow> \<not> key_less C a b \<and> \<not> key_less C b a"
proof -
  obtain r r' where "cmp_Compare C a b = Some r" "cmp_Compare C b a = Some r'" using compare_total assms by meson
  with compare_swap [OF assms this] show ?thesis by (auto simp: key_less_def sgn_if split: if_splits)
qed

text \<open>The node that a search returns decides whether the key is in the list.\<close>

lemma node_Equal_at:
  assumes "skip_inv C valid ns h l" "valid k"
  shows "node_Equal C k (first_node C l ns k) l = Some (\<exists>n \<in> set ns. cmp_Compare C k (node_key l n) = Some 0)"
proof -
  let ?P = "\<lambda>n. key_less C (node_key l n) k"
  note v = skip_nodes(6) [OF assms(1)]
  have A: "cmp_Compare C k (node_key l n) \<noteq> Some 0" if "n \<in> set (takeWhile ?P ns)" for n
    using set_takeWhileD [OF that] equal_iff [OF assms(2) v] by blast
  have split: "ns = takeWhile ?P ns @ dropWhile ?P ns" by simp
  show ?thesis
  proof (cases "dropWhile ?P ns")
    case Nil
    then have "takeWhile ?P ns = ns" using split by (metis append_Nil2)
    then have "\<forall>n \<in> set ns. cmp_Compare C k (node_key l n) \<noteq> Some 0" using A by metis
    then show ?thesis using Nil by (simp add: first_node_def node_Equal_def del: dropWhile_eq_Nil_conv)
  next
    case (Cons y ys)
    have ns: "ns = takeWhile ?P ns @ y # ys" using split Cons by simp
    then have y: "y \<in> set ns" "set ys \<subseteq> set ns" by (metis in_set_conv_decomp, metis Un_upper2 order.trans set_append set_subset_Cons)
    have "\<not> ?P y" using Cons hd_dropWhile [of ?P ns] by (metis list.distinct(1) list.sel(1))
    then have ky: "key_le C k (node_key l y)" using not_less [OF v [OF y(1)] assms(2)] by blast
    have "sorted_wrt (\<lambda>a b. key_less C (node_key l a) (node_key l b)) (takeWhile ?P ns @ y # ys)"
      using assms(1) ns by (simp add: skip_inv_def)
    then have "key_less C (node_key l y) (node_key l n)" if "n \<in> set ys" for n using that by (simp add: sorted_wrt_append)
    then have "key_less C k (node_key l n)" if "n \<in> set ys" for n
      using le_less_trans [OF assms(2) v [OF y(1)] v ky] that y(2) by blast
    then have B: "cmp_Compare C k (node_key l n) \<noteq> Some 0" if "n \<in> set ys" for n using that by (fastforce simp: key_less_def)
    have "(\<exists>n \<in> set ns. cmp_Compare C k (node_key l n) = Some 0) \<longleftrightarrow> cmp_Compare C k (node_key l y) = Some 0"
      using A B ns y(1) by (metis UnE insertE list.simps(15) set_append)
    moreover obtain r where "cmp_Compare C k (node_key l y) = Some r" using compare_total [OF assms(2) v [OF y(1)]] by blast
    ultimately show ?thesis using Cons by (simp add: first_node_def node_Equal_def)
  qed
qed

lemma Contains_at: "skip_inv C valid ns h l \<Longrightarrow> valid k \<Longrightarrow> Contains C k l = Some (\<exists>n \<in> set ns. cmp_Compare C k (node_key l n) = Some 0)"
  using FindGreaterOrEqual_at [of ns h l k "[]"] node_Equal_at [of ns h l k] by (auto simp: Contains_def)

end

section \<open>Insertion\<close>

lemma random_height_bounds: "random_height n rnd = (height, rnd') \<Longrightarrow> 0 < n \<Longrightarrow> n \<le> kMaxHeight \<Longrightarrow> 0 < height \<and> height \<le> kMaxHeight"
proof (induction n rnd arbitrary: height rnd' rule: random_height.induct)
  case (1 n rnd)
  then show ?case using random_height.simps [of n rnd] by (auto simp: Let_def split: if_splits)
qed

lemma RandomHeight_at: "\<exists>height rnd. RandomHeight l = Some (height, l\<lparr>sl_rnd := rnd\<rparr>) \<and> 0 < height \<and> height \<le> kMaxHeight"
proof -
  obtain height rnd where h: "random_height 1 (sl_rnd l) = (height, rnd)" by (cases "random_height 1 (sl_rnd l)")
  then have "0 < height" "height \<le> kMaxHeight" using random_height_bounds [OF h] by (simp_all add: kMaxHeight_def)
  then show ?thesis using h by (intro exI [of _ height] exI [of _ rnd]) (simp add: RandomHeight_def)
qed

lemma foldl_update:
  "length (foldl (\<lambda>xs i. xs[i := y]) xs is) = length xs"
  "i < length xs \<Longrightarrow> foldl (\<lambda>xs i. xs[i := y]) xs is ! i = (if i \<in> set is then y else xs ! i)"
  by (induction "is" arbitrary: xs) (auto simp: nth_list_update)

lemma raise_height_at:
  assumes "height \<le> length prev"
  shows "\<exists>prev'. raise_height height prev l = (prev', l\<lparr>sl_max_height := max height (sl_max_height l)\<rparr>) \<and>
    (\<forall>i < height. prev' ! i = (if i < sl_max_height l then prev ! i else Some 0))"
proof (cases "height > sl_max_height l")
  case True
  then show ?thesis using assms by (auto simp: raise_height_def foldl_update)
next
  case False
  then show ?thesis by (simp add: raise_height_def max_def)
qed

text \<open>The lists in which node \<open>x\<close> with the key \<open>k\<close> is linked at the levels below \<open>i\<close>.\<close>

definition same_nodes :: "SkipList \<Rightarrow> SkipList \<Rightarrow> bool" where
  "same_nodes l l' \<longleftrightarrow> length (sl_nodes l') = length (sl_nodes l) \<and> sl_max_height l' = sl_max_height l \<and>
     (\<forall>n. node_key l' n = node_key l n \<and> length (nd_next (sl_nodes l' ! n)) = length (nd_next (sl_nodes l ! n)))"

definition insert_node :: "Comparator \<Rightarrow> SkipList \<Rightarrow> byte list \<Rightarrow> nat \<Rightarrow> nat list \<Rightarrow> nat list" where
  "insert_node C l k x ns = takeWhile (\<lambda>n. key_less C (node_key l n) k) ns @ x # dropWhile (\<lambda>n. key_less C (node_key l n) k) ns"

definition linking :: "Comparator \<Rightarrow> nat list \<Rightarrow> (nat \<Rightarrow> nat) \<Rightarrow> SkipList \<Rightarrow> byte list \<Rightarrow> nat \<Rightarrow> nat \<Rightarrow> SkipList \<Rightarrow> bool" where
  "linking C ns h l0 k x i l \<longleftrightarrow> same_nodes l0 l \<and>
     (\<forall>level < kMaxHeight. linked l level 0 (if level < i then insert_node C l0 k x (chain h ns level) else chain h ns level))"

definition insert_key :: "Comparator \<Rightarrow> byte list \<Rightarrow> byte list list \<Rightarrow> byte list list" where
  "insert_key C k ks = takeWhile (\<lambda>a. key_less C a k) ks @ k # dropWhile (\<lambda>a. key_less C a k) ks"

lemma set_insert_key: "set (insert_key C k ks) = insert k (set ks)"
proof -
  have "set ks = set (takeWhile (\<lambda>a. key_less C a k) ks) \<union> set (dropWhile (\<lambda>a. key_less C a k) ks)"
    by (metis set_append takeWhile_dropWhile_id)
  then show ?thesis by (auto simp: insert_key_def)
qed

lemma length_insert_key: "length (insert_key C k ks) = Suc (length ks)"
proof -
  have "length (takeWhile P ks) + length (dropWhile P ks) = length ks" for P :: "byte list \<Rightarrow> bool"
    by (simp only: takeWhile_dropWhile_id flip: length_append)
  then show ?thesis by (simp add: insert_key_def)
qed

lemma length_insert_keys: "length (fold (insert_key C) ks ks') = length ks + length ks'"
  by (induction ks arbitrary: ks') (simp_all add: length_insert_key)

lemma set_insert_keys: "set (fold (insert_key C) ks ks') = set ks \<union> set ks'"
  by (induction ks arbitrary: ks') (auto simp: set_insert_key)

lemma same_nodes_SetNext: "Node_SetNext n level x l = Some l' \<Longrightarrow> same_nodes l0 l \<Longrightarrow> same_nodes l0 l'"
  by (simp add: same_nodes_def Node_Next_SetNext)

lemma SetNext_defined: "n < length (sl_nodes l) \<Longrightarrow> level < length (nd_next (sl_nodes l ! n)) \<Longrightarrow> \<exists>l'. Node_SetNext n level x l = Some l'"
  by (simp add: Node_SetNext_def)

context key_order
begin

lemma link_level_at:
  assumes inv: "skip_inv C valid ns h l0" and k: "valid k" and x: "x \<notin> set ns" "0 < x" "x < length (sl_nodes l0)" "i < length (nd_next (sl_nodes l0 ! x))"
    and i: "i < kMaxHeight" "prev ! i = Some (pred_node C l0 h ns k i)" and l: "linking C ns h l0 k x i l"
  shows "\<exists>l'. link_level x prev i l = Some l' \<and> linking C ns h l0 k x (Suc i) l'"
proof -
  let ?P = "\<lambda>n. key_less C (node_key l0 n) k" and ?c = "chain h ns i"
  let ?A = "takeWhile ?P ?c" and ?B = "dropWhile ?P ?c" and ?p = "pred_node C l0 h ns k i"
  have same: "same_nodes l0 l" and lk: "linked l i 0 (?A @ ?B)" using l i(1) by (auto simp: linking_def)
  have p: "?p = last (0 # ?A)" by (simp add: pred_node_def)
  have nx: "Node_Next l ?p i = Some (case ?B of [] \<Rightarrow> None | y # _ \<Rightarrow> Some y)"
    using lk linked_first unfolding linked_append p by blast
  obtain l1 where l1: "Node_SetNext x i (case ?B of [] \<Rightarrow> None | y # _ \<Rightarrow> Some y) l = Some l1"
    using SetNext_defined [of x l i] x same by (auto simp: same_nodes_def)
  have same1: "same_nodes l0 l1" by (rule same_nodes_SetNext [OF l1 same])
  have "?p = 0 \<or> ?p \<in> set ns \<and> i < h ?p"
    using last_in_set [of ?A] set_takeWhileD [of "last ?A" ?P ?c] by (auto simp: p chain_def)
  then have "?p < length (sl_nodes l0) \<and> i < length (nd_next (sl_nodes l0 ! ?p))"
    using inv i(1) skip_nodes(2,4) [OF inv, of ?p] by (auto simp: skip_inv_def)
  then obtain l2 where l2: "Node_SetNext ?p i (Some x) l1 = Some l2"
    using SetNext_defined [of ?p l1 i] same1 by (auto simp: same_nodes_def)
  have same2: "same_nodes l0 l2" by (rule same_nodes_SetNext [OF l2 same1])
  have sub: "set ?c \<subseteq> set ns" by (auto simp: chain_def)
  have "distinct (0 # ?c)" using skip_distinct [OF inv] skip_nodes(1) [OF inv] sub by (auto simp: chain_def)
  then have "linked l2 i 0 (?A @ x # ?B)"
    using splice [OF lk _ _ l1 l2 [unfolded p]] x(1,2) sub by auto
  moreover have "linked l2 level y ys = linked l level y ys" if "level \<noteq> i" for level y ys
    using linked_other_level [OF l1 that] linked_other_level [OF l2 that] by simp
  ultimately have "linked l2 level 0 (if level < Suc i then insert_node C l0 k x (chain h ns level) else chain h ns level)"
    if "level < kMaxHeight" for level
    using l that by (cases "level = i") (auto simp: linking_def insert_node_def [of C l0 k x ?c] less_Suc_eq)
  then have "linking C ns h l0 k x (Suc i) l2" using same2 by (simp add: linking_def)
  moreover have "link_level x prev i l = Some l2" using i(2) nx l1 l2 by (simp add: link_level_def)
  ultimately show ?thesis by blast
qed

lemma link_levels_at:
  assumes "skip_inv C valid ns h l0" "valid k" "x \<notin> set ns" "0 < x" "x < length (sl_nodes l0)" "height \<le> length (nd_next (sl_nodes l0 ! x))"
    and "\<forall>i < height. prev ! i = Some (pred_node C l0 h ns k i)" "height \<le> kMaxHeight"
  shows "\<exists>l'. link_levels x prev height l0 = Some l' \<and> linking C ns h l0 k x height l'"
  using assms(6-8)
proof (induction height)
  case 0
  then show ?case using skip_chain(1) [OF assms(1)] by (simp add: linking_def same_nodes_def)
next
  case (Suc i)
  then obtain l where l: "link_levels x prev i l0 = Some l" "linking C ns h l0 k x i l" by auto
  then show ?case using link_level_at [OF assms(1-5) _ _ _ l(2), of prev] Suc.prems by auto
qed

text \<open>A list in which the new node is linked at least at level 0 satisfies the invariant.\<close>

lemma filter_split:
  assumes "sorted_wrt (\<lambda>a b. key_less C (node_key l a) (node_key l b)) xs" "\<forall>n \<in> set xs. valid (node_key l n)" "valid k"
  shows "takeWhile (\<lambda>n. key_less C (node_key l n) k) xs = filter (\<lambda>n. key_less C (node_key l n) k) xs"
    "dropWhile (\<lambda>n. key_less C (node_key l n) k) xs = filter (\<lambda>n. \<not> key_less C (node_key l n) k) xs"
proof -
  let ?P = "\<lambda>n. key_less C (node_key l n) k"
  have "takeWhile ?P xs = filter ?P xs \<and> dropWhile ?P xs = filter (\<lambda>n. \<not> ?P n) xs"
    using assms
  proof (induction xs)
    case (Cons x xs)
    show ?case
    proof (cases "?P x")
      case False
      then have "\<not> ?P n" if "n \<in> set xs" for n
        using Cons.prems less_trans [of "node_key l x" "node_key l n" k] that by auto
      then show ?thesis using False by simp
    qed (use Cons in simp)
  qed simp
  then show "takeWhile ?P xs = filter ?P xs" "dropWhile ?P xs = filter (\<lambda>n. \<not> ?P n) xs" by simp_all
qed

lemma linking_inv:
  assumes inv: "skip_inv C valid ns h l0" and k: "valid k" "\<forall>n \<in> set ns. cmp_Compare C k (node_key l0 n) \<noteq> Some 0"
    and x: "x \<notin> set ns" "0 < x" "x < length (sl_nodes l0)" "i \<le> length (nd_next (sl_nodes l0 ! x))" "node_key l0 x = k"
    and i: "0 < i" "i \<le> sl_max_height l0" and l: "linking C ns h l0 k x i l"
  shows "skip_inv C valid (insert_node C l0 k x ns) (h(x := i)) l"
proof -
  let ?P = "\<lambda>n. key_less C (node_key l0 n) k"
  note v = skip_nodes(6) [OF inv]
  have so: "sorted_wrt (\<lambda>a b. key_less C (node_key l0 a) (node_key l0 b)) ns" using inv by (simp add: skip_inv_def)
  have A: "takeWhile ?P ns = filter ?P ns" "dropWhile ?P ns = filter (\<lambda>n. \<not> ?P n) ns" using filter_split [OF so _ k(1)] v by auto
  have gt: "key_less C k (node_key l0 n)" if "n \<in> set ns" "\<not> ?P n" for n
    using equal_iff [OF k(1) v [OF that(1)]] k(2) that by blast
  have "sorted_wrt (\<lambda>a b. key_less C (node_key l0 a) (node_key l0 b)) (insert_node C l0 k x ns)"
    unfolding insert_node_def using so gt x(5) less_trans [OF v k(1) v] by (auto simp: sorted_wrt_append A sorted_wrt_filter)
  moreover have set_eq: "set (insert_node C l0 k x ns) = insert x (set ns)" unfolding insert_node_def A by auto
  moreover have "chain (h(x := i)) (insert_node C l0 k x ns) level =
      (if level < i then insert_node C l0 k x (chain h ns level) else chain h ns level)" for level
  proof -
    have "takeWhile ?P (chain h ns level) = filter ?P (chain h ns level)" "dropWhile ?P (chain h ns level) = filter (\<lambda>n. \<not> ?P n) (chain h ns level)"
      using filter_split [OF skip_chain(4) [OF inv, of level] _ k(1)] v by (auto simp: chain_def)
    moreover have "filter (\<lambda>n. level < (h(x := i)) n) (filter Q ns) = filter Q (chain h ns level)" for Q
      using x(1) by (auto simp: chain_def intro: filter_cong)
    moreover have "filter ?P (chain h ns level) @ filter (\<lambda>n. \<not> ?P n) (chain h ns level) = chain h ns level"
      using calculation(1,2) by (metis takeWhile_dropWhile_id)
    ultimately show ?thesis by (simp add: chain_def [of "h(x := i)"] insert_node_def A)
  qed
  ultimately show ?thesis
    using inv l x i k(1) unfolding skip_inv_def linking_def same_nodes_def by auto
qed

lemma prepare_insert_at:
  assumes inv: "skip_inv C valid ns h l" and k: "valid k" "\<forall>n \<in> set ns. cmp_Compare C k (node_key l n) \<noteq> Some 0"
    and ar: "arena_inv R arena" "aligned_blocks base"
  obtains x prev height l' arena' r where "prepare_insert base C k (l, arena) = Some (x, prev, height, l', arena')"
    "arena_inv (R @ [r]) arena'" "skip_inv C valid ns h l'" "x \<notin> set ns" "0 < x" "x < length (sl_nodes l')" "node_key l' x = k"
    "height = length (nd_next (sl_nodes l' ! x))" "0 < height" "height \<le> sl_max_height l'" "height \<le> kMaxHeight"
    "\<forall>i < height. prev ! i = Some (pred_node C l' h ns k i)" "\<forall>n \<in> set ns. node_key l' n = node_key l n"
proof -
  obtain prev where prev: "FindGreaterOrEqual C k (replicate kMaxHeight None) l = Some (first_node C l ns k, prev)" "length prev = kMaxHeight"
      "\<forall>i < kMaxHeight. prev ! i = (if i < sl_max_height l then Some (pred_node C l h ns k i) else replicate kMaxHeight None ! i)"
    using FindGreaterOrEqual_at [OF inv k(1), of "replicate kMaxHeight None"] by auto
  have eq: "node_Equal C k (first_node C l ns k) l = Some False" using node_Equal_at [OF inv k(1)] k(2) by simp
  obtain height rnd where height: "RandomHeight l = Some (height, l\<lparr>sl_rnd := rnd\<rparr>)" "0 < height" "height \<le> kMaxHeight"
    using RandomHeight_at [of l] by blast
  define l1 where "l1 = l\<lparr>sl_rnd := rnd, sl_max_height := max height (sl_max_height l)\<rparr>"
  obtain prev' where raise: "raise_height height prev (l\<lparr>sl_rnd := rnd\<rparr>) = (prev', l1)" 
      "\<forall>i < height. prev' ! i = (if i < sl_max_height l then prev ! i else Some 0)"
    using raise_height_at [of height prev "l\<lparr>sl_rnd := rnd\<rparr>"] prev(2) height(3) by (auto simp: l1_def)
  define w :: size_t where "w = of_nat (16 + 8 * (height - 1))"
  have "unat w = 16 + 8 * (height - 1)"
    unfolding w_def using height(3) by (intro unat_of_nat_small) (simp add: kMaxHeight_def)
  then have w: "unat w < 2 ^ 63" "0 < w" using height(3) by (simp_all add: kMaxHeight_def word_less_nat_alt)
  obtain p arena' where al: "AllocateAligned base w arena = Some (p, arena')" "arena_inv (R @ [(p, unat w)]) arena'"
    using AllocateAligned_inv [OF ar w] by blast
  define x where "x = length (sl_nodes l)"
  define l2 where "l2 = l1\<lparr>sl_nodes := sl_nodes l1 @ [\<lparr>nd_key = k, nd_next = replicate height None\<rparr>]\<rparr>"
  have node: "sl_nodes l2 ! n = sl_nodes l ! n" "Node_Next l2 n level = Node_Next l n level" if "n < length (sl_nodes l)" for n level
    using that by (auto simp: l2_def l1_def nth_append Node_Next_def)
  have old: "n < length (sl_nodes l)" if "n = 0 \<or> n \<in> set ns" for n using that inv skip_nodes(2) [OF inv] by (auto simp: skip_inv_def)
  have keys: "node_key l2 n = node_key l n" if "n \<in> set ns" for n using node old that by simp
  have links: "linked l2 level 0 (chain h ns level) = linked l level 0 (chain h ns level)" for level
    by (rule linked_cong) (use node(2) old in \<open>auto simp: chain_def\<close>)
  have sorted: "sorted_wrt (\<lambda>a b. key_less C (node_key l2 a) (node_key l2 b)) ns"
    using inv keys sorted_wrt_mono_rel [of ns "\<lambda>a b. key_less C (node_key l a) (node_key l b)" "\<lambda>a b. key_less C (node_key l2 a) (node_key l2 b)"]
    by (simp add: skip_inv_def)
  have inv2: "skip_inv C valid ns h l2"
  proof -
    have len: "length (sl_nodes l2) = Suc (length (sl_nodes l))" "sl_max_height l2 = max height (sl_max_height l)"
      by (simp_all add: l2_def l1_def)
    have "0 < n \<and> n < length (sl_nodes l2) \<and> 0 < h n \<and> h n \<le> length (nd_next (sl_nodes l2 ! n)) \<and> h n \<le> sl_max_height l2 \<and>
        valid (node_key l2 n)" if "n \<in> set ns" for n
      using skip_nodes [OF inv that] node(1) [of n] len by auto
    moreover have "sl_nodes l2 \<noteq> []" "length (nd_next (sl_nodes l2 ! 0)) = kMaxHeight" "0 < sl_max_height l2" "sl_max_height l2 \<le> kMaxHeight"
      using inv node(1) [of 0] len height(3) by (auto simp: skip_inv_def)
    ultimately show ?thesis using sorted links skip_chain(1) [OF inv] unfolding skip_inv_def by blast
  qed
  have same: "pred_node C l2 h ns k i = pred_node C l h ns k i" for i
    unfolding pred_node_def by (rule arg_cong [of _ _ last], simp, rule takeWhile_cong) (auto simp: chain_def keys)
  have "prev' ! i = Some (pred_node C l2 h ns k i)" if i: "i < height" for i
  proof (cases "i < sl_max_height l")
    case True
    then show ?thesis using raise(2) prev(3) i height(3) same by simp
  next
    case False
    then have "chain h ns i = []" using skip_nodes(5) [OF inv] by (fastforce simp: chain_def filter_empty_conv)
    then show ?thesis using raise(2) i False by (simp add: pred_node_def)
  qed
  moreover have "NewNode base k height (l1, arena) = Some (x, l2, arena')"
    using al(1) unfolding w_def by (simp add: NewNode_def x_def l2_def l1_def)
  then have "prepare_insert base C k (l, arena) = Some (x, prev', height, l2, arena')"
    using prev(1) eq height(1) raise(1) by (simp add: prepare_insert_def)
  moreover have "x \<notin> set ns" "0 < x" using old inv by (auto simp: x_def skip_inv_def)
  moreover have "x < length (sl_nodes l2)" "node_key l2 x = k" "height = length (nd_next (sl_nodes l2 ! x))" "height \<le> sl_max_height l2"
    by (simp_all add: x_def l2_def l1_def)
  ultimately show thesis using that [OF _ al(2) inv2] height keys by blast
qed

text \<open>The keys, in order.\<close>

lemma insert_node_keys:
  "\<forall>n \<in> set ns. node_key l' n = node_key l n \<Longrightarrow> node_key l' x = k \<Longrightarrow>
    map (node_key l') (insert_node C l k x ns) = insert_key C k (map (node_key l) ns)"
  by (simp add: insert_node_def insert_key_def takeWhile_map dropWhile_map comp_def)
    (metis (mono_tags, lifting) map_eq_conv set_dropWhileD set_takeWhileD)

lemma Insert_at:
  assumes inv: "skip_inv C valid ns h l" and k: "valid k" "\<forall>n \<in> set ns. cmp_Compare C k (node_key l n) \<noteq> Some 0"
    and ar: "arena_inv R arena" "aligned_blocks base"
  shows "\<exists>l' arena' R' ns' h'. Insert base C k (l, arena) = Some (l', arena') \<and> arena_inv R' arena' \<and> skip_inv C valid ns' h' l' \<and>
    map (node_key l') ns' = insert_key C k (map (node_key l) ns)"
proof (rule prepare_insert_at [OF assms], goal_cases)
  case (1 x prev height l0 arena' r)
  obtain l' where l': "link_levels x prev height l0 = Some l'" "linking C ns h l0 k x height l'"
    using link_levels_at [OF 1(3) k(1) 1(4-6) _ 1(12,11)] 1(8) by auto
  have "\<forall>n \<in> set ns. cmp_Compare C k (node_key l0 n) \<noteq> Some 0" using k(2) 1(13) by simp
  then have inv': "skip_inv C valid (insert_node C l0 k x ns) (h(x := height)) l'"
    using linking_inv [OF 1(3) k(1) _ 1(4-6) _ 1(7) 1(9,10) l'(2)] 1(8) by simp
  have same: "node_key l' n = node_key l0 n" for n using l'(2) by (simp add: linking_def same_nodes_def)
  have "insert_node C l0 k x ns = insert_node C l k x ns"
    unfolding insert_node_def using 1(13) by (metis (mono_tags, lifting) takeWhile_cong dropWhile_cong)
  then have "map (node_key l') (insert_node C l0 k x ns) = insert_key C k (map (node_key l) ns)"
    using insert_node_keys [of ns l' l x k] same 1(7,13) by simp
  moreover have "Insert base C k (l, arena) = Some (l', arena')" using 1(1) l'(1) by (simp add: Insert_def)
  ultimately show ?case using 1(2) inv' by blast
qed

text \<open>Between the stores: after any number of rounds, and after the first store of the next one, a search finds
  the list without the new key as long as no round is complete, and the list with it from then on.\<close>

lemma first_store:
  assumes inv: "skip_inv C valid ns h l0" and x: "x \<notin> set ns" "0 < x" and l: "linking C ns h l0 k x i l" "Node_SetNext x i n l = Some l'"
  shows "linking C ns h l0 k x i l'"
proof -
  have "linked l' level 0 (if level < i then insert_node C l0 k x (chain h ns level) else chain h ns level)" if "level < kMaxHeight" for level
  proof (cases "level = i")
    case True
    have "linked l' i 0 (chain h ns i) = linked l i 0 (chain h ns i)"
      by (rule linked_cong) (use x Node_Next_SetNext(1) [OF l(2)] in \<open>auto simp: chain_def\<close>)
    moreover have "linked l i 0 (chain h ns i)" using l(1) that True by (metis linking_def less_irrefl_nat)
    ultimately show ?thesis using True by simp
  next
    case False
    then show ?thesis using linked_other_level [OF l(2) False] l(1) that by (simp add: linking_def)
  qed
  then show ?thesis using l same_nodes_SetNext by (auto simp: linking_def)
qed

lemma linking_Contains:
  assumes inv: "skip_inv C valid ns h l0" and k: "valid k" "\<forall>n \<in> set ns. cmp_Compare C k (node_key l0 n) \<noteq> Some 0"
    and x: "x \<notin> set ns" "0 < x" "x < length (sl_nodes l0)" "i \<le> length (nd_next (sl_nodes l0 ! x))" "node_key l0 x = k" "i \<le> sl_max_height l0"
    and l: "linking C ns h l0 k x i l" and k': "valid k'"
  shows "Contains C k' l = Some ((\<exists>n \<in> set ns. cmp_Compare C k' (node_key l0 n) = Some 0) \<or> 0 < i \<and> cmp_Compare C k' k = Some 0)"
proof -
  have key: "node_key l n = node_key l0 n" for n using l by (simp add: linking_def same_nodes_def)
  show ?thesis
  proof (cases "i = 0")
    case True
    then have "skip_inv C valid ns h l" using inv l unfolding skip_inv_def linking_def same_nodes_def by auto
    then show ?thesis using Contains_at [OF _ k'] True key by simp
  next
    case False
    then have "skip_inv C valid (insert_node C l0 k x ns) (h(x := i)) l" using linking_inv [OF inv k x(1-5) _ x(6) l] by simp
    moreover have "set (insert_node C l0 k x ns) = insert x (set ns)"
    proof -
      have "set (takeWhile P ns) \<union> set (dropWhile P ns) = set ns" for P by (metis set_append takeWhile_dropWhile_id)
      then show ?thesis by (auto simp: insert_node_def)
    qed
    ultimately show ?thesis using Contains_at [OF _ k'] False key x(5) by auto
  qed
qed

lemma Insert_atomic:
  assumes inv: "skip_inv C valid ns h l" and k: "valid k" "\<forall>n \<in> set ns. cmp_Compare C k (node_key l n) \<noteq> Some 0"
    and ar: "arena_inv R arena" "aligned_blocks base"
  shows "\<exists>x prev height l0 arena'. prepare_insert base C k (l, arena) = Some (x, prev, height, l0, arena') \<and> 0 < height \<and>
    (\<forall>i \<le> height. \<exists>li. link_levels x prev i l0 = Some li \<and>
      (\<forall>k'. valid k' \<longrightarrow> Contains C k' li = Some ((\<exists>n \<in> set ns. cmp_Compare C k' (node_key l n) = Some 0) \<or> 0 < i \<and> cmp_Compare C k' k = Some 0)) \<and>
      (i < height \<longrightarrow> (\<exists>li'. link_first x prev i li = Some li' \<and> (\<forall>k'. valid k' \<longrightarrow> Contains C k' li' = Contains C k' li))))"
proof (rule prepare_insert_at [OF assms], goal_cases)
  case (1 x prev height l0 arena' r)
  have new: "\<forall>n \<in> set ns. cmp_Compare C k (node_key l0 n) \<noteq> Some 0" using k(2) 1(13) by simp
  have old: "(\<exists>n \<in> set ns. cmp_Compare C k' (node_key l0 n) = Some 0) = (\<exists>n \<in> set ns. cmp_Compare C k' (node_key l n) = Some 0)" for k'
    using 1(13) by simp
  have "\<exists>li. link_levels x prev i l0 = Some li \<and>
      (\<forall>k'. valid k' \<longrightarrow> Contains C k' li = Some ((\<exists>n \<in> set ns. cmp_Compare C k' (node_key l n) = Some 0) \<or> 0 < i \<and> cmp_Compare C k' k = Some 0)) \<and>
      (i < height \<longrightarrow> (\<exists>li'. link_first x prev i li = Some li' \<and> (\<forall>k'. valid k' \<longrightarrow> Contains C k' li' = Contains C k' li)))" if i: "i \<le> height" for i
  proof -
    have b: "i \<le> length (nd_next (sl_nodes l0 ! x))" "i \<le> sl_max_height l0" "i \<le> kMaxHeight" "\<forall>j < i. prev ! j = Some (pred_node C l0 h ns k j)"
      using i 1(8,10,11,12) by auto
    obtain li where li: "link_levels x prev i l0 = Some li" "linking C ns h l0 k x i li"
      using link_levels_at [OF 1(3) k(1) 1(4-6) b(1) b(4,3)] by blast
    note contains = linking_Contains [OF 1(3) k(1) new 1(4-6) b(1) 1(7) b(2)]
    moreover have "\<exists>li'. link_first x prev i li = Some li' \<and> (\<forall>k'. valid k' \<longrightarrow> Contains C k' li' = Contains C k' li)" if less: "i < height"
    proof -
      obtain l' where "link_level x prev i li = Some l'"
        using link_level_at [OF 1(3) k(1) 1(4-6) _ _ _ li(2), of prev] less 1(8,11,12) by auto
      then obtain p n li' where f: "prev ! i = Some p" "Node_Next li p i = Some n" "Node_SetNext x i n li = Some li'"
        by (auto simp: link_level_def bind_Some_iff)
      then show ?thesis using contains [OF first_store [OF 1(3,4,5) li(2) f(3)]] contains [OF li(2)] by (simp add: link_first_def)
    qed
    ultimately show ?thesis using li by (simp add: old)
  qed
  then show ?case using 1(1,9) by blast
qed

end

lemma skip_start:
  assumes "arena_inv R arena" "aligned_blocks base"
  shows "\<exists>l arena' R'. new_SkipList base arena = Some (l, arena') \<and> arena_inv R' arena' \<and> skip_inv C valid [] h l"
proof -
  let ?head = "\<lparr>nd_key = [], nd_next = replicate kMaxHeight None\<rparr>"
  let ?l = "\<lparr>sl_nodes = [?head], sl_max_height = 1, sl_rnd = new_Random 0xdeadbeef\<rparr>"
  have clear: "clear_head i ?l = Some ?l" if "i \<le> kMaxHeight" for i
    using that by (induction i) (simp_all add: Node_SetNext_def list_update_same_conv [THEN iffD2])
  obtain p arena' where "AllocateAligned base 104 arena = Some (p, arena')" "arena_inv (R @ [(p, 104)]) arena'"
    using AllocateAligned_inv [OF assms, of 104] by auto
  moreover have "skip_inv C valid [] h ?l"
    by (simp add: skip_inv_def chain_def linked_Nil Node_Next_def) (simp add: kMaxHeight_def)
  moreover have "new_SkipList base arena = Some (?l, arena')" if "AllocateAligned base 104 arena = Some (p, arena')" for p arena'
    using clear that by (simp add: new_SkipList_def NewNode_def kMaxHeight_def)
  ultimately show ?thesis by blast
qed

section \<open>Iteration\<close>

definition sli_at :: "nat list \<Rightarrow> nat option \<Rightarrow> nat \<Rightarrow> bool" where
  "sli_at ns node i \<longleftrightarrow> i \<le> length ns \<and> node = (if i < length ns then Some (ns ! i) else None)"

lemma sli_at_first: "sli_at ns (case drop i ns of [] \<Rightarrow> None | n # _ \<Rightarrow> Some n) (min i (length ns))"
  by (cases "i < length ns") (simp_all add: sli_at_def Cons_nth_drop_Suc [symmetric])

context key_order
begin

lemma sli_SeekToFirst_at: "skip_inv C valid ns h l \<Longrightarrow> \<exists>node. sli_SeekToFirst l = Some node \<and> sli_at ns node 0"
  using linked_first [of l 0 0 ns] skip_chain(1) [of ns h l 0] skip_chain(3) [of ns h l] sli_at_first [of ns 0]
  by (simp add: sli_SeekToFirst_def kMaxHeight_def)

lemma sli_SeekToLast_at:
  assumes "skip_inv C valid ns h l"
  shows "\<exists>node. sli_SeekToLast l = Some node \<and> sli_at ns node (last_pos ns)"
proof (cases "ns = []")
  case True
  then show ?thesis using FindLast_at [OF assms] by (simp add: sli_SeekToLast_def sli_at_def last_pos_def)
next
  case False
  then have "0 < last ns" using skip_nodes(1) [OF assms] last_in_set by blast
  then show ?thesis using FindLast_at [OF assms] False by (simp add: sli_SeekToLast_def sli_at_def last_pos_def last_conv_nth)
qed

lemma sli_Next_at:
  assumes "skip_inv C valid ns h l" "sli_at ns node i" "i < length ns"
  shows "\<exists>node'. sli_Next l node = Some node' \<and> sli_at ns node' (Suc i)"
proof -
  have "linked l 0 0 (take i ns @ ns ! i # drop (Suc i) ns)"
    using skip_chain(1) [OF assms(1), of 0] skip_chain(3) [OF assms(1)] assms(3)
    by (simp add: kMaxHeight_def id_take_nth_drop [symmetric])
  then have "Node_Next l (ns ! i) 0 = Some (case drop (Suc i) ns of [] \<Rightarrow> None | n # _ \<Rightarrow> Some n)"
    using linked_first by (simp add: linked_append linked_Cons)
  then show ?thesis using assms(2,3) sli_at_first [of ns "Suc i"] by (simp add: sli_Next_def sli_at_def min_def)
qed

lemma before_node:
  assumes "skip_inv C valid ns h l" "i < length ns"
  shows "takeWhile (\<lambda>n. key_less C (node_key l n) (node_key l (ns ! i))) ns = take i ns"
proof -
  have so: "sorted_wrt (\<lambda>a b. key_less C (node_key l a) (node_key l b)) ns" using assms(1) by (simp add: skip_inv_def)
  have "key_less C (node_key l (ns ! j)) (node_key l (ns ! i))" if "j < i" for j
    using so that assms(2) by (auto simp: sorted_wrt_iff_nth_less)
  moreover have "\<not> key_less C (node_key l (ns ! i)) (node_key l (ns ! i))"
    using less_irrefl skip_nodes(6) [OF assms(1)] assms(2) by simp
  ultimately show ?thesis using assms(2) by (intro takeWhile_eq_take_P_nth) auto
qed

lemma sli_Prev_at:
  assumes "skip_inv C valid ns h l" "sli_at ns node i" "i < length ns"
  shows "\<exists>node'. sli_Prev C l node = Some node' \<and> sli_at ns node' (prev_pos ns i)"
proof -
  have v: "valid (node_key l (ns ! i))" using skip_nodes(6) [OF assms(1)] assms(3) by simp
  have f: "FindLessThan C (node_key l (ns ! i)) l = Some (last (0 # take i ns))"
    using FindLessThan_at [OF assms(1) v] before_node [OF assms(1,3)] by simp
  show ?thesis
  proof (cases i)
    case 0
    then show ?thesis using f assms(2,3) by (simp add: sli_Prev_def sli_at_def prev_pos_def)
  next
    case (Suc j)
    then have "last (0 # take i ns) = ns ! j" using assms(3) by (auto simp: last_conv_nth)
    moreover have "0 < ns ! j" using skip_nodes(1) [OF assms(1)] assms(3) Suc by simp
    ultimately show ?thesis using f assms(2,3) Suc by (simp add: sli_Prev_def sli_at_def prev_pos_def)
  qed
qed

lemma sli_Seek_at:
  assumes "skip_inv C valid ns h l" "valid k"
  shows "\<exists>node. sli_Seek C l k = Some node \<and> sli_at ns node (length (takeWhile (\<lambda>n. key_less C (node_key l n) k) ns))"
proof -
  let ?P = "\<lambda>n. key_less C (node_key l n) k"
  have "first_node C l ns k = (case drop (length (takeWhile ?P ns)) ns of [] \<Rightarrow> None | n # _ \<Rightarrow> Some n)"
    by (simp add: first_node_def dropWhile_eq_drop)
  then show ?thesis
    using FindGreaterOrEqual_at [OF assms, of "[]"] sli_at_first [of ns "length (takeWhile ?P ns)"] length_takeWhile_le [of ?P ns]
    by (auto simp: sli_Seek_def min_def)
qed

text \<open>A sequence of insertions.\<close>

lemma Insert_all_at:
  assumes "skip_inv C valid ns h l" "arena_inv R arena" "aligned_blocks base" "\<forall>k \<in> set ks. valid k"
    and "\<forall>k \<in> set ks. \<forall>n \<in> set ns. cmp_Compare C k (node_key l n) \<noteq> Some 0" "sorted_wrt (\<lambda>a b. cmp_Compare C b a \<noteq> Some 0) ks"
  shows "\<exists>l' arena' R' ns' h'. insert_all base C ks (l, arena) = Some (l', arena') \<and> arena_inv R' arena' \<and> skip_inv C valid ns' h' l' \<and>
    map (node_key l') ns' = fold (insert_key C) ks (map (node_key l) ns)"
  using assms
proof (induction ks arbitrary: ns h l R arena)
  case (Cons k ks)
  obtain l1 arena1 R1 ns1 h1 where l1: "Insert base C k (l, arena) = Some (l1, arena1)" "arena_inv R1 arena1" "skip_inv C valid ns1 h1 l1"
      "map (node_key l1) ns1 = insert_key C k (map (node_key l) ns)"
    using Insert_at [OF Cons.prems(1) _ _ Cons.prems(2,3), of k] Cons.prems(4,5) by auto
  have set1: "node_key l1 ` set ns1 = insert k (node_key l ` set ns)"
    using arg_cong [OF l1(4), of set] by (simp add: set_insert_key)
  have "cmp_Compare C a (node_key l1 n) \<noteq> Some 0" if "a \<in> set ks" "n \<in> set ns1" for a n
  proof -
    have "node_key l1 n \<in> insert k (node_key l ` set ns)" using that(2) set1 by blast
    then consider "node_key l1 n = k" | n' where "n' \<in> set ns" "node_key l1 n = node_key l n'" by blast
    then show ?thesis
    proof cases
      case 1
      then show ?thesis using Cons.prems(6) that(1) by simp
    next
      case 2
      then show ?thesis using Cons.prems(5) that(1) by simp
    qed
  qed
  then show ?case using Cons.IH [OF l1(3,2) assms(3)] Cons.prems(4,6) l1(1,4) by simp
qed auto

lemma sli_scan_at:
  assumes "skip_inv C valid ns h l"
  shows "sli_at ns node i \<Longrightarrow> sli_scan n l node = Some (map (node_key l) (take n (drop i ns)))"
proof (induction n arbitrary: node i)
  case (Suc n)
  show ?case
  proof (cases "i < length ns")
    case True
    then have node: "node = Some (ns ! i)" using Suc.prems by (simp add: sli_at_def)
    obtain node' where "sli_Next l node = Some node'" "sli_at ns node' (Suc i)" using sli_Next_at [OF assms Suc.prems True] by blast
    then show ?thesis using Suc.IH [of node' "Suc i"] node True by (simp add: sli_key_def Cons_nth_drop_Suc [symmetric])
  next
    case False
    then show ?thesis using Suc.prems by (simp add: sli_at_def)
  qed
qed simp

end

section \<open>Properties\<close>

text \<open>C11. The skip list: after any insertions of keys that differ under the comparator, into a list made in an
  arena, \<open>Contains\<close> answers for every key whether it was inserted, and an iterator from the first position delivers the
  inserted keys in strictly ascending order. No link that a node does not have is read or written, whatever
  heights are drawn.\<close>

theorem skiplist_refines_sorted_list:
  assumes "key_order C valid" and "arena_inv R arena" and "aligned_blocks base" and "\<forall>k \<in> set ks. valid k"
    and "sorted_wrt (\<lambda>a b. cmp_Compare C b a \<noteq> Some 0) ks"
  shows "\<exists>l0 l arena0 arena' keys node. new_SkipList base arena = Some (l0, arena0) \<and> insert_all base C ks (l0, arena0) = Some (l, arena') \<and>
    (\<forall>k. valid k \<longrightarrow> Contains C k l = Some (\<exists>k' \<in> set ks. cmp_Compare C k k' = Some 0)) \<and>
    sli_SeekToFirst l = Some node \<and> sli_scan (length ks) l node = Some keys \<and>
    set keys = set ks \<and> sorted_wrt (key_less C) keys"
proof -
  obtain l0 arena0 R0 where l0: "new_SkipList base arena = Some (l0, arena0)" "arena_inv R0 arena0" "skip_inv C valid [] (\<lambda>_. 0) l0"
    using skip_start [OF assms(2,3)] by blast
  obtain l arena' ns h where l: "insert_all base C ks (l0, arena0) = Some (l, arena')" "skip_inv C valid ns h l"
      "map (node_key l) ns = fold (insert_key C) ks []"
    using key_order.Insert_all_at [OF assms(1) l0(3,2) assms(3,4) _ assms(5)] by auto
  have keys: "set (map (node_key l) ns) = set ks" unfolding l(3) by (simp add: set_insert_keys)
  have len: "length ns = length ks"
    using arg_cong [OF l(3), of length] by (simp add: length_insert_keys)
  obtain node where node: "sli_SeekToFirst l = Some node" "sli_at ns node 0" using key_order.sli_SeekToFirst_at [OF assms(1) l(2)] by blast
  have scan: "sli_scan (length ks) l node = Some (map (node_key l) ns)"
    using key_order.sli_scan_at [OF assms(1) l(2) node(2), of "length ks"] len by simp
  have "sorted_wrt (key_less C) (map (node_key l) ns)" using l(2) by (simp add: skip_inv_def sorted_wrt_map)
  moreover have "Contains C k l = Some (\<exists>k' \<in> set ks. cmp_Compare C k k' = Some 0)" if "valid k" for k
    using key_order.Contains_at [OF assms(1) l(2) that] by (simp add: keys [symmetric])
  ultimately show ?thesis using l0(1) l(1) node(1) scan keys by blast
qed

theorem skiplist_refines_sorted_list_witness:
  "\<exists>l0 l arena0 arena' keys node. new_SkipList (\<lambda>b. 4096 * of_nat b) new_Arena = Some (l0, arena0) \<and>
    insert_all (\<lambda>b. 4096 * of_nat b) BytewiseComparator [[98], [97]] (l0, arena0) = Some (l, arena') \<and>
    Contains BytewiseComparator [97] l = Some True \<and> Contains BytewiseComparator [99] l = Some False \<and>
    sli_SeekToFirst l = Some node \<and> sli_scan 2 l node = Some keys \<and> set keys = {[98], [97]} \<and> sorted_wrt (key_less BytewiseComparator) keys"
proof -
  let ?C = BytewiseComparator and ?ks = "[[98], [97]] :: byte list list" and ?base = "\<lambda>b :: nat. 4096 * of_nat b :: size_t"
  have d: "sorted_wrt (\<lambda>a b. cmp_Compare ?C b a \<noteq> Some 0) ?ks" by code_simp
  obtain l0 l arena0 arena' keys node where s: "new_SkipList ?base new_Arena = Some (l0, arena0)" "insert_all ?base ?C ?ks (l0, arena0) = Some (l, arena')"
      "\<And>k. Contains ?C k l = Some (\<exists>k' \<in> set ?ks. cmp_Compare ?C k k' = Some 0)"
      "sli_SeekToFirst l = Some node" "sli_scan (length ?ks) l node = Some keys" "set keys = set ?ks" "sorted_wrt (key_less ?C) keys"
    using skiplist_refines_sorted_list [OF bytewise.key_order_axioms new_Arena_inv page_blocks _ d] by auto
  have "(\<exists>k' \<in> set ?ks. cmp_Compare ?C [97] k' = Some 0) = True" "(\<exists>k' \<in> set ?ks. cmp_Compare ?C [99] k' = Some 0) = False"
    by code_simp+
  moreover have "length ?ks = 2" by simp
  ultimately show ?thesis using s(1,2,4,6,7) s(5) s(3) [of "[97]"] s(3) [of "[99]"]
    by (intro exI conjI) (simp_all only: list.set)
qed

text \<open>C12. An insertion is atomic for readers: whatever the number of rounds of the linking loop that are done, and also
  behind the first of the two stores of the next round, \<open>Contains\<close> answers for every key as it did before the insertion if no round
  is complete, and as it will after it from the first complete round on. The links that the writer has not set yet are never followed.\<close>

theorem skiplist_insert_atomic:
  assumes "key_order C valid" and "skip_inv C valid ns h l" and "arena_inv R arena" and "aligned_blocks base" and "valid k"
    and "\<forall>n \<in> set ns. cmp_Compare C k (node_key l n) \<noteq> Some 0"
  shows "\<exists>x prev height l0 arena'. prepare_insert base C k (l, arena) = Some (x, prev, height, l0, arena') \<and> 0 < height \<and>
    (\<forall>i \<le> height. \<exists>li. link_levels x prev i l0 = Some li \<and>
      (\<forall>k'. valid k' \<longrightarrow> Contains C k' li = Some ((\<exists>n \<in> set ns. cmp_Compare C k' (node_key l n) = Some 0) \<or> 0 < i \<and> cmp_Compare C k' k = Some 0)) \<and>
      (i < height \<longrightarrow> (\<exists>li'. link_first x prev i li = Some li' \<and> (\<forall>k'. valid k' \<longrightarrow> Contains C k' li' = Contains C k' li))))"
  using key_order.Insert_atomic [OF assms(1,2,5,6,3,4)] .

theorem skiplist_insert_atomic_witness:
  "\<exists>l arena x prev height l0 arena'. new_SkipList (\<lambda>b. 4096 * of_nat b) new_Arena = Some (l, arena) \<and>
    prepare_insert (\<lambda>b. 4096 * of_nat b) BytewiseComparator [98] (l, arena) = Some (x, prev, height, l0, arena') \<and>
    (\<exists>li. link_levels x prev 0 l0 = Some li \<and> Contains BytewiseComparator [98] li = Some False) \<and>
    (\<exists>li. link_levels x prev 1 l0 = Some li \<and> Contains BytewiseComparator [98] li = Some True)"
proof -
  obtain l arena R where l: "new_SkipList (\<lambda>b. 4096 * of_nat b) new_Arena = Some (l, arena)" "arena_inv R arena"
      "skip_inv BytewiseComparator (\<lambda>_. True) [] (\<lambda>_. 0) l"
    using skip_start [OF new_Arena_inv page_blocks] by blast
  obtain x prev height l0 arena' where p: "prepare_insert (\<lambda>b. 4096 * of_nat b) BytewiseComparator [98] (l, arena) = Some (x, prev, height, l0, arena')" "0 < height"
      "\<And>i. i \<le> height \<Longrightarrow> \<exists>li. link_levels x prev i l0 = Some li \<and> Contains BytewiseComparator [98] li = Some (0 < i \<and> cmp_Compare BytewiseComparator [98] [98] = Some 0)"
    using skiplist_insert_atomic [OF bytewise.key_order_axioms l(3,2) page_blocks, of "[98]"] by fastforce
  have "cmp_Compare BytewiseComparator [98] [98] = Some 0" by code_simp
  then show ?thesis using l(1) p(1) p(3) [of 0] p(3) [of 1] p(2) by auto
qed

end
