(* ===== verification/Ldb_Merger.thy ===== *)
theory Ldb_Merger
  imports Ldb_Block_Correct "HOL-Library.Multiset"
begin

text \<open>
  The merging iterator, \<open>table/merger.cc\<close>: it steps through the entries of several iterators in
  the order of their keys, in both directions. If the children are cursors into sorted lists
  without a common key, the merging iterator is a cursor into the one sorted list of all entries.

  The children are iterators of any classes: \<open>I k\<close> are the operations of child \<open>k\<close>. A pointer
  to a child is its index.
\<close>

section \<open>The iterator\<close>

datatype Direction = kForward | kReverse

record 's MergingIterator =
  mi_children :: "'s IteratorWrapper list"
  mi_current :: "nat option"
  mi_direction :: Direction

text \<open>A loop over the children.\<close>

primrec for_children :: "(nat \<Rightarrow> 'a \<Rightarrow> 'b option) \<Rightarrow> nat \<Rightarrow> 'a list \<Rightarrow> 'b list option" where
  "for_children f i [] = Some []"
| "for_children f i (w # ws) = do { w \<leftarrow> f i w; ws \<leftarrow> for_children f (Suc i) ws; Some (w # ws) }"

definition new_MergingIterator :: "(nat \<Rightarrow> 's Iterator) \<Rightarrow> 's list \<Rightarrow> 's MergingIterator option" where
  "new_MergingIterator I children = do {
     ws \<leftarrow> for_children (\<lambda>i child. wrapper_Set (I i) (Some child) new_IteratorWrapper) 0 children;
     Some \<lparr>mi_children = ws, mi_current = None, mi_direction = kForward\<rparr> }"

text \<open>The loop of \<open>FindSmallest\<close> and \<open>FindLargest\<close> over the indices; \<open>better\<close> tests the result of
  comparing the key of the child with the best key so far.\<close>

fun pick_child :: "(int \<Rightarrow> bool) \<Rightarrow> Comparator \<Rightarrow> 's IteratorWrapper list \<Rightarrow> nat list \<Rightarrow> nat option \<Rightarrow> nat option option" where
  "pick_child better C ws [] best = Some best"
| "pick_child better C ws (i # is) best = (if iw_valid (ws ! i) then
     (case best of None \<Rightarrow> pick_child better C ws is (Some i)
      | Some j \<Rightarrow> do {
          a \<leftarrow> wrapper_key (ws ! i);
          b \<leftarrow> wrapper_key (ws ! j);
          r \<leftarrow> cmp_Compare C a b;
          pick_child better C ws is (if better r then Some i else best) })
   else pick_child better C ws is best)"

definition FindSmallest :: "Comparator \<Rightarrow> 's MergingIterator \<Rightarrow> 's MergingIterator option" where
  "FindSmallest C m = do {
     smallest \<leftarrow> pick_child (\<lambda>r. r < 0) C (mi_children m) [0..<length (mi_children m)] None;
     Some (m\<lparr>mi_current := smallest\<rparr>) }"

definition FindLargest :: "Comparator \<Rightarrow> 's MergingIterator \<Rightarrow> 's MergingIterator option" where
  "FindLargest C m = do {
     largest \<leftarrow> pick_child (\<lambda>r. r > 0) C (mi_children m) (rev [0..<length (mi_children m)]) None;
     Some (m\<lparr>mi_current := largest\<rparr>) }"

definition merging_Valid :: "'s MergingIterator \<Rightarrow> bool" where
  "merging_Valid m \<longleftrightarrow> mi_current m \<noteq> None"

definition on_children :: "(nat \<Rightarrow> 's IteratorWrapper \<Rightarrow> 's IteratorWrapper option) \<Rightarrow> 's MergingIterator \<Rightarrow>
    's MergingIterator option" where
  "on_children f m = do { ws \<leftarrow> for_children f 0 (mi_children m); Some (m\<lparr>mi_children := ws\<rparr>) }"

definition merging_SeekToFirst :: "Comparator \<Rightarrow> (nat \<Rightarrow> 's Iterator) \<Rightarrow> 's MergingIterator \<Rightarrow> 's MergingIterator option" where
  "merging_SeekToFirst C I m = do {
     m \<leftarrow> on_children (\<lambda>i. it_SeekToFirst (WrapperIterator (I i))) m;
     m \<leftarrow> FindSmallest C m;
     Some (m\<lparr>mi_direction := kForward\<rparr>) }"

definition merging_SeekToLast :: "Comparator \<Rightarrow> (nat \<Rightarrow> 's Iterator) \<Rightarrow> 's MergingIterator \<Rightarrow> 's MergingIterator option" where
  "merging_SeekToLast C I m = do {
     m \<leftarrow> on_children (\<lambda>i. it_SeekToLast (WrapperIterator (I i))) m;
     m \<leftarrow> FindLargest C m;
     Some (m\<lparr>mi_direction := kReverse\<rparr>) }"

definition merging_Seek :: "Comparator \<Rightarrow> (nat \<Rightarrow> 's Iterator) \<Rightarrow> byte list \<Rightarrow> 's MergingIterator \<Rightarrow> 's MergingIterator option" where
  "merging_Seek C I target m = do {
     m \<leftarrow> on_children (\<lambda>i. it_Seek (WrapperIterator (I i)) target) m;
     m \<leftarrow> FindSmallest C m;
     Some (m\<lparr>mi_direction := kForward\<rparr>) }"

definition merging_key :: "'s MergingIterator \<Rightarrow> byte list option" where
  "merging_key m = do { c \<leftarrow> mi_current m; wrapper_key (mi_children m ! c) }"

definition merging_value :: "(nat \<Rightarrow> 's Iterator) \<Rightarrow> 's MergingIterator \<Rightarrow> byte list option" where
  "merging_value I m = do { c \<leftarrow> mi_current m; wrapper_value (I c) (mi_children m ! c) }"

text \<open>A call of the current child.\<close>

definition on_current :: "(nat \<Rightarrow> 's IteratorWrapper \<Rightarrow> 's IteratorWrapper option) \<Rightarrow> 's MergingIterator \<Rightarrow>
    's MergingIterator option" where
  "on_current f m = do {
     c \<leftarrow> mi_current m;
     w \<leftarrow> f c (mi_children m ! c);
     Some (m\<lparr>mi_children := (mi_children m)[c := w]\<rparr>) }"

text \<open>The bodies of the loops that turn a child other than \<open>current_\<close> around.\<close>

definition turn_forward :: "Comparator \<Rightarrow> 's Iterator \<Rightarrow> byte list \<Rightarrow> 's IteratorWrapper \<Rightarrow> 's IteratorWrapper option" where
  "turn_forward C I key child = do {
     child \<leftarrow> it_Seek (WrapperIterator I) key child;
     if iw_valid child then do {
       k \<leftarrow> wrapper_key child;
       r \<leftarrow> cmp_Compare C key k;
       if r = 0 then it_Next (WrapperIterator I) child else Some child }
     else Some child }"

definition turn_reverse :: "'s Iterator \<Rightarrow> byte list \<Rightarrow> 's IteratorWrapper \<Rightarrow> 's IteratorWrapper option" where
  "turn_reverse I key child = do {
     child \<leftarrow> it_Seek (WrapperIterator I) key child;
     if iw_valid child then it_Prev (WrapperIterator I) child
     else it_SeekToLast (WrapperIterator I) child }"

definition face_forward :: "Comparator \<Rightarrow> (nat \<Rightarrow> 's Iterator) \<Rightarrow> 's MergingIterator \<Rightarrow> 's MergingIterator option" where
  "face_forward C I m = (if mi_direction m \<noteq> kForward then do {
     key \<leftarrow> merging_key m;
     m \<leftarrow> on_children (\<lambda>i child. if mi_current m \<noteq> Some i then turn_forward C (I i) key child else Some child) m;
     Some (m\<lparr>mi_direction := kForward\<rparr>) }
   else Some m)"

definition face_reverse :: "(nat \<Rightarrow> 's Iterator) \<Rightarrow> 's MergingIterator \<Rightarrow> 's MergingIterator option" where
  "face_reverse I m = (if mi_direction m \<noteq> kReverse then do {
     key \<leftarrow> merging_key m;
     m \<leftarrow> on_children (\<lambda>i child. if mi_current m \<noteq> Some i then turn_reverse (I i) key child else Some child) m;
     Some (m\<lparr>mi_direction := kReverse\<rparr>) }
   else Some m)"

definition merging_Next :: "Comparator \<Rightarrow> (nat \<Rightarrow> 's Iterator) \<Rightarrow> 's MergingIterator \<Rightarrow> 's MergingIterator option" where
  "merging_Next C I m = (if merging_Valid m then do {
     m \<leftarrow> face_forward C I m;
     m \<leftarrow> on_current (\<lambda>c. it_Next (WrapperIterator (I c))) m;
     FindSmallest C m }
   else None)"

definition merging_Prev :: "Comparator \<Rightarrow> (nat \<Rightarrow> 's Iterator) \<Rightarrow> 's MergingIterator \<Rightarrow> 's MergingIterator option" where
  "merging_Prev C I m = (if merging_Valid m then do {
     m \<leftarrow> face_reverse I m;
     m \<leftarrow> on_current (\<lambda>c. it_Prev (WrapperIterator (I c))) m;
     FindLargest C m }
   else None)"

primrec merging_status_loop :: "(nat \<Rightarrow> 's Iterator) \<Rightarrow> nat \<Rightarrow> Status \<Rightarrow> 's IteratorWrapper list \<Rightarrow> Status option" where
  "merging_status_loop I i status [] = Some status"
| "merging_status_loop I i status (w # ws) = do {
     status \<leftarrow> it_status (WrapperIterator (I i)) w;
     if \<not> ok status then Some status else merging_status_loop I (Suc i) status ws }"

definition merging_status :: "(nat \<Rightarrow> 's Iterator) \<Rightarrow> 's MergingIterator \<Rightarrow> Status option" where
  "merging_status I m = merging_status_loop I 0 OK (mi_children m)"

definition Merging :: "Comparator \<Rightarrow> (nat \<Rightarrow> 's Iterator) \<Rightarrow> 's MergingIterator Iterator" where
  "Merging C I = \<lparr>it_Valid = merging_Valid, it_SeekToFirst = merging_SeekToFirst C I,
     it_SeekToLast = merging_SeekToLast C I, it_Seek = merging_Seek C I, it_Next = merging_Next C I,
     it_Prev = merging_Prev C I, it_key = merging_key, it_value = merging_value I, it_status = merging_status I\<rparr>"

text \<open>\<open>NewMergingIterator\<close> returns the empty iterator, the only child or a merging iterator.\<close>

type_synonym 's merged = "Status + ('s + 's MergingIterator)"

definition MergedIterator :: "Comparator \<Rightarrow> (nat \<Rightarrow> 's Iterator) \<Rightarrow> 's merged Iterator" where
  "MergedIterator C I = either_iterator EmptyIterator (either_iterator (I 0) (Merging C I))"

definition NewMergingIterator :: "(nat \<Rightarrow> 's Iterator) \<Rightarrow> 's list \<Rightarrow> 's merged option" where
  "NewMergingIterator I children = (case children of
     [] \<Rightarrow> Some (Inl NewEmptyIterator)
   | [child] \<Rightarrow> Some (Inr (Inl child))
   | _ \<Rightarrow> do { m \<leftarrow> new_MergingIterator I children; Some (Inr (Inr m)) })"

section \<open>Picking a child\<close>

lemma for_children_all:
  assumes "\<And>k. k < length ws \<Longrightarrow> \<exists>w'. f (i + k) (ws ! k) = Some w' \<and> P (i + k) w'"
  shows "\<exists>ws'. for_children f i ws = Some ws' \<and> length ws' = length ws \<and> (\<forall>k < length ws. P (i + k) (ws' ! k))"
  using assms
proof (induction ws arbitrary: i)
  case (Cons w ws)
  obtain w' where w': "f i w = Some w'" "P i w'" using Cons.prems [of 0] by auto
  have "\<exists>ws'. for_children f (Suc i) ws = Some ws' \<and> length ws' = length ws \<and> (\<forall>k < length ws. P (Suc i + k) (ws' ! k))"
    by (rule Cons.IH) (use Cons.prems in force)
  then show ?case using w' by (force simp: less_Suc_eq_0_disj)
qed simp

lemma pick_child_none: "(\<And>i. i \<in> set is \<Longrightarrow> \<not> iw_valid (ws ! i)) \<Longrightarrow> pick_child better C ws is best = Some best"
  by (induction "is") simp_all

text \<open>A child that beats every other valid one is picked.\<close>

lemma pick_child_best:
  assumes "m \<in> set is \<or> best = Some m" and "iw_valid (ws ! m)"
    and "\<And>j. best = Some j \<Longrightarrow> iw_valid (ws ! j)"
    and "\<And>i j. i \<in> set is \<Longrightarrow> j \<in> set is \<or> best = Some j \<Longrightarrow> iw_valid (ws ! i) \<Longrightarrow> iw_valid (ws ! j) \<Longrightarrow>
      \<exists>r. cmp_Compare C (iw_key (ws ! i)) (iw_key (ws ! j)) = Some r \<and> (i = m \<and> j \<noteq> m \<longrightarrow> better r) \<and> (j = m \<longrightarrow> \<not> better r)"
  shows "pick_child better C ws is best = Some (Some m)"
  using assms
proof (induction "is" arbitrary: best)
  case (Cons i "is")
  have wins: "pick_child better C ws is best' = Some (Some m)"
    if "m \<in> set is \<or> best' = Some m" "best' = best \<or> best' = Some i \<and> iw_valid (ws ! i)" for best'
    by (rule Cons.IH) (use that Cons.prems in auto)
  show ?case
  proof (cases "iw_valid (ws ! i)")
    case True
    show ?thesis
    proof (cases best)
      case None
      then show ?thesis using True wins [of "Some i"] Cons.prems(1) by auto
    next
      case (Some j)
      obtain r where r: "cmp_Compare C (iw_key (ws ! i)) (iw_key (ws ! j)) = Some r"
          "i = m \<and> j \<noteq> m \<longrightarrow> better r" "j = m \<longrightarrow> \<not> better r"
        using Cons.prems(4) [of i j] Cons.prems(3) [of j] True Some by auto
      then show ?thesis
        using True Some Cons.prems(1) Cons.prems(3) [of j] wins [of "if better r then Some i else best"]
        by (auto simp: wrapper_key_def split: if_splits)
    qed
  next
    case False
    then show ?thesis using wins [of best] Cons.prems(1,2) by auto
  qed
qed simp

section \<open>What the children promise\<close>

text \<open>\<open>ess ! k\<close> are the entries of child \<open>k\<close> and \<open>es\<close> those of all children, in order. No two entries
  have the same key.\<close>

definition merges :: "Comparator \<Rightarrow> (byte list \<Rightarrow> bool) \<Rightarrow> entry list list \<Rightarrow> entry list \<Rightarrow> bool" where
  "merges C valid ess es \<longleftrightarrow> mset es = mset (concat ess) \<and> (\<forall>e \<in> set es. valid (fst e)) \<and>
     sorted_wrt (\<lambda>a b. key_less C (fst a) (fst b)) es \<and>
     (\<forall>xs \<in> set ess. sorted_wrt (\<lambda>a b. key_less C (fst a) (fst b)) xs)"

text \<open>How many entries of child \<open>k\<close> are among the first \<open>p\<close> of all.\<close>

definition cut_pos :: "entry list list \<Rightarrow> entry list \<Rightarrow> nat \<Rightarrow> nat \<Rightarrow> nat" where
  "cut_pos ess es p k = length (takeWhile (\<lambda>e. e \<in> set (take p es)) (ess ! k))"

text \<open>The children are at the positions \<open>pos\<close>.\<close>

definition placed :: "(nat \<Rightarrow> 's \<Rightarrow> nat \<Rightarrow> bool) \<Rightarrow> entry list list \<Rightarrow> 's IteratorWrapper list \<Rightarrow> (nat \<Rightarrow> nat) \<Rightarrow> bool" where
  "placed ats ess ws pos \<longleftrightarrow> length ws = length ess \<and> (\<forall>k < length ess. wrapped_at (ess ! k) (ats k) (ws ! k) (pos k))"

definition owner :: "entry list list \<Rightarrow> entry list \<Rightarrow> nat \<Rightarrow> nat option \<Rightarrow> bool" where
  "owner ess es p c \<longleftrightarrow> (if p < length es then (\<exists>k < length ess. c = Some k \<and> es ! p \<in> set (ess ! k)) else c = None)"

text \<open>Forward, every child is at its first entry that is not before the current one, in reverse
  at its last entry that is not behind it.\<close>

definition merging_at :: "(nat \<Rightarrow> 's \<Rightarrow> nat \<Rightarrow> bool) \<Rightarrow> entry list list \<Rightarrow> entry list \<Rightarrow> 's MergingIterator \<Rightarrow> nat \<Rightarrow> bool" where
  "merging_at ats ess es m p \<longleftrightarrow> p \<le> length es \<and> owner ess es p (mi_current m) \<and>
     (\<exists>pos. placed ats ess (mi_children m) pos \<and>
       (p < length es \<longrightarrow> (\<forall>k < length ess.
         pos k = (if mi_direction m = kForward then cut_pos ess es p k else prev_pos (ess ! k) (cut_pos ess es (Suc p) k)))))"

lemma takeWhile_closed:
  assumes "\<And>a b. a < b \<Longrightarrow> b < length xs \<Longrightarrow> P (xs ! b) \<Longrightarrow> P (xs ! a)" and "i < length xs"
  shows "i < length (takeWhile P xs) \<longleftrightarrow> P (xs ! i)"
proof
  assume "i < length (takeWhile P xs)"
  then show "P (xs ! i)" by (metis nth_mem set_takeWhileD takeWhile_nth)
next
  assume i: "P (xs ! i)"
  show "i < length (takeWhile P xs)"
  proof (rule ccontr)
    assume "\<not> ?thesis"
    then have "\<not> P (xs ! length (takeWhile P xs))" "P (xs ! length (takeWhile P xs))"
      using assms i nth_length_takeWhile [of P xs] by (metis le_neq_implies_less not_le order.strict_trans1)+
    then show False by simp
  qed
qed

lemma distinct_concat_nth:
  "distinct (concat xss) \<Longrightarrow> i < length xss \<Longrightarrow> j < length xss \<Longrightarrow> x \<in> set (xss ! i) \<Longrightarrow> x \<in> set (xss ! j) \<Longrightarrow> i = j"
proof (induction xss arbitrary: i j)
  case (Cons xs xss)
  have "x \<notin> set xs" if "x \<in> set (xss ! k)" "k < length xss" for k using Cons.prems(1) that nth_mem by fastforce
  then show ?case using Cons by (cases i; cases j) auto
qed simp

locale merging = comparator C valid for C :: Comparator and valid +
  fixes I :: "nat \<Rightarrow> 's Iterator" and ess :: "entry list list" and es :: "entry list" and ats :: "nat \<Rightarrow> 's \<Rightarrow> nat \<Rightarrow> bool"
  assumes merges: "merges C valid ess es"
    and child: "k < length ess \<Longrightarrow> iterator (I k) C (ess ! k) valid (ats k)"
begin

lemma set_es: "set es = (\<Union>xs \<in> set ess. set xs)"
proof -
  have "set es = set (concat ess)" using merges unfolding merges_def by (metis set_mset_mset)
  then show ?thesis by simp
qed

lemma es_valid: "i < length es \<Longrightarrow> valid (fst (es ! i))"
  using merges by (simp add: merges_def)

lemma es_less: "i < j \<Longrightarrow> j < length es \<Longrightarrow> key_less C (fst (es ! i)) (fst (es ! j))"
  using merges by (auto simp: merges_def sorted_wrt_iff_nth_less)

lemma es_compare:
  assumes "i < length es" "j < length es"
  shows "\<exists>r. cmp_Compare C (fst (es ! i)) (fst (es ! j)) = Some r \<and> (r < 0 \<longleftrightarrow> i < j) \<and> (0 < r \<longleftrightarrow> j < i)"
proof -
  have v: "valid (fst (es ! i))" "valid (fst (es ! j))" using es_valid assms by auto
  then obtain r r' where r: "cmp_Compare C (fst (es ! i)) (fst (es ! j)) = Some r" "cmp_Compare C (fst (es ! j)) (fst (es ! i)) = Some r'"
    using compare_total by meson
  have r': "r' < 0 \<longleftrightarrow> 0 < r" "0 < r' \<longleftrightarrow> r < 0" using compare_swap [OF v r] by (auto simp: sgn_if split: if_splits)
  consider "i < j" | "i = j" | "j < i" by linarith
  then show ?thesis
  proof cases
    case 1
    then show ?thesis using es_less [of i j] assms r by (auto simp: key_less_def)
  next
    case 2
    then show ?thesis using compare_refl v(1) by auto
  next
    case 3
    then show ?thesis using es_less [of j i] assms r r' by (auto simp: key_less_def)
  qed
qed

lemma es_order: "i < length es \<Longrightarrow> j < length es \<Longrightarrow> key_less C (fst (es ! i)) (fst (es ! j)) \<longleftrightarrow> i < j"
  using es_compare [of i j] by (auto simp: key_less_def)

lemma es_distinct: "distinct es"
  unfolding distinct_conv_nth
proof (intro allI impI)
  fix i j assume "i < length es" "j < length es" "i \<noteq> j"
  then show "es ! i \<noteq> es ! j" using es_order [of i j] es_order [of j i] by (cases "i < j") auto
qed

lemma in_take: "i < length es \<Longrightarrow> es ! i \<in> set (take p es) \<longleftrightarrow> i < p"
  using es_distinct by (auto simp: in_set_conv_nth nth_eq_iff_index_eq)

text \<open>Every entry belongs to one child.\<close>

lemma owner_exists: "p < length es \<Longrightarrow> \<exists>k < length ess. es ! p \<in> set (ess ! k)"
  using set_es nth_mem [of p es] by (auto simp: in_set_conv_nth [of _ ess])

lemma owner_unique:
  assumes "e \<in> set (ess ! k)" "e \<in> set (ess ! j)" "k < length ess" "j < length ess"
  shows "k = j"
proof -
  have "distinct (concat ess)"
    using es_distinct merges unfolding merges_def by (metis mset_eq_imp_distinct_iff)
  then show ?thesis using distinct_concat_nth assms by metis
qed

lemma child_entry:
  assumes "k < length ess" "i < length (ess ! k)"
  obtains a where "a < length es" "ess ! k ! i = es ! a"
proof -
  have "ess ! k ! i \<in> set es" unfolding set_es using nth_mem [OF assms(1)] nth_mem [OF assms(2)] by blast
  then show thesis using that by (metis in_set_conv_nth)
qed

lemma child_less:
  assumes "k < length ess" "i < j" "j < length (ess ! k)" "ess ! k ! i = es ! a" "ess ! k ! j = es ! b" "a < length es" "b < length es"
  shows "a < b"
proof -
  have "key_less C (fst (ess ! k ! i)) (fst (ess ! k ! j))"
    using merges assms(1-3) by (auto simp: merges_def sorted_wrt_iff_nth_less)
  then show ?thesis using es_order assms by auto
qed

lemma cut_iff:
  assumes "k < length ess" "i < length (ess ! k)" "ess ! k ! i = es ! a" "a < length es"
  shows "i < cut_pos ess es p k \<longleftrightarrow> a < p"
proof -
  have "ess ! k ! x \<in> set (take p es)" if xy: "x < y" "y < length (ess ! k)" "ess ! k ! y \<in> set (take p es)" for x y
  proof -
    obtain b c where bc: "b < length es" "ess ! k ! x = es ! b" "c < length es" "ess ! k ! y = es ! c"
      using child_entry [OF assms(1), of x] child_entry [OF assms(1) xy(2)] order.strict_trans [OF xy(1,2)] by metis
    then have "b < c" using child_less [OF assms(1) xy(1,2)] by blast
    then show ?thesis using bc xy(3) in_take by simp
  qed
  then show ?thesis using takeWhile_closed [OF _ assms(2)] assms(3) in_take [OF assms(4)] unfolding cut_pos_def by metis
qed

lemma cut_le: "cut_pos ess es p k \<le> length (ess ! k)"
  by (simp add: cut_pos_def length_takeWhile_le)

lemma cut_first: "cut_pos ess es 0 k = 0"
  by (cases "ess ! k") (simp_all add: cut_pos_def)

lemma cut_last:
  assumes "k < length ess"
  shows "cut_pos ess es (length es) k = length (ess ! k)"
proof -
  have "x \<in> set es" if "x \<in> set (ess ! k)" for x using that assms set_es nth_mem by blast
  then show ?thesis by (simp add: cut_pos_def takeWhile_eq_all_conv [THEN iffD2])
qed

text \<open>The entry at the cut is the first one of the child from \<open>p\<close> on, the one before it the last one before \<open>p\<close>.\<close>

lemma at_cut:
  assumes "k < length ess" "cut_pos ess es p k < length (ess ! k)"
  shows "\<exists>a. p \<le> a \<and> a < length es \<and> ess ! k ! cut_pos ess es p k = es ! a"
proof -
  obtain a where a: "a < length es" "ess ! k ! cut_pos ess es p k = es ! a" using child_entry assms by blast
  then have "\<not> a < p" using cut_iff [OF assms(1,2) a(2,1), of p] by simp
  then have "p \<le> a" by linarith
  then show ?thesis using a by blast
qed

lemma before_cut:
  assumes "k < length ess" "0 < cut_pos ess es p k"
  shows "\<exists>a. a < p \<and> a < length es \<and> ess ! k ! (cut_pos ess es p k - 1) = es ! a"
proof -
  have i: "cut_pos ess es p k - 1 < length (ess ! k)" "cut_pos ess es p k - 1 < cut_pos ess es p k" using cut_le [of p k] assms(2) by linarith+
  then obtain a where a: "a < length es" "ess ! k ! (cut_pos ess es p k - 1) = es ! a" using child_entry assms(1) by blast
  then have "a < p" using cut_iff [OF assms(1) i(1) a(2,1), of p] i(2) by simp
  then show ?thesis using a by blast
qed

lemma cut_owner:
  assumes "p < length es" "k < length ess" "es ! p \<in> set (ess ! k)"
  shows "cut_pos ess es p k < length (ess ! k)" "ess ! k ! cut_pos ess es p k = es ! p" "cut_pos ess es (Suc p) k = Suc (cut_pos ess es p k)"
proof -
  obtain i where i: "i < length (ess ! k)" "ess ! k ! i = es ! p" using assms(3) by (auto simp: in_set_conv_nth)
  have ge: "cut_pos ess es p k \<le> i" using cut_iff [OF assms(2) i assms(1), of p] by simp
  have "\<not> cut_pos ess es p k < i"
  proof
    assume lt: "cut_pos ess es p k < i"
    then obtain a where "p \<le> a" "a < length es" "ess ! k ! cut_pos ess es p k = es ! a" 
      using at_cut [OF assms(2), of p] i(1) by force
    then show False using child_less [OF assms(2) lt i(1) _ i(2)] assms(1) by (metis leD)
  qed
  then have eq: "i = cut_pos ess es p k" using ge by simp
  then show "cut_pos ess es p k < length (ess ! k)" "ess ! k ! cut_pos ess es p k = es ! p" using i by auto
  have "i < cut_pos ess es (Suc p) k" using cut_iff [OF assms(2) i assms(1), of "Suc p"] by simp
  moreover have "\<not> Suc i < cut_pos ess es (Suc p) k"
  proof
    assume lt: "Suc i < cut_pos ess es (Suc p) k"
    then have l: "Suc i < length (ess ! k)" using cut_le order.strict_trans2 by blast
    then obtain a where a: "a < length es" "ess ! k ! Suc i = es ! a" using child_entry assms(2) by blast
    then show False using cut_iff [OF assms(2) l a(2,1), of "Suc p"] lt child_less [OF assms(2) _ l i(2) a(2) assms(1) a(1)] by simp
  qed
  ultimately show "cut_pos ess es (Suc p) k = Suc (cut_pos ess es p k)" using eq by linarith
qed

lemma cut_other: "p < length es \<Longrightarrow> es ! p \<notin> set (ess ! k) \<Longrightarrow> cut_pos ess es (Suc p) k = cut_pos ess es p k"
  unfolding cut_pos_def by (rule arg_cong [where f = length]) (auto simp: take_Suc_conv_app_nth intro: takeWhile_cong)

text \<open>Looking a target up in a child.\<close>

lemma lower_bound_child:
  assumes "k < length ess" "valid target"
  shows "lower_bound C (ess ! k) target = cut_pos ess es (lower_bound C es target) k"
proof -
  let ?p = "lower_bound C es target"
  have iff: "key_less C (fst (es ! a)) target \<longleftrightarrow> a < ?p" if a: "a < length es" for a
  proof
    assume less: "key_less C (fst (es ! a)) target"
    show "a < ?p"
    proof (rule ccontr)
      assume ge: "\<not> a < ?p"
      then have p: "\<not> key_less C (fst (es ! ?p)) target" using a by (intro lower_bound_at) simp
      have "key_le C (fst (es ! ?p)) (fst (es ! a))"
        using ge a es_less [of ?p a] less_imp_le le_refl es_valid by (metis linorder_neqE_nat)
      then show False using p le_less_trans [OF _ _ _ _ less] es_valid a ge assms(2) by auto
    qed
  qed (rule lower_bound_less)
  have "key_less C (fst e) target \<longleftrightarrow> e \<in> set (take ?p es)" if e: "e \<in> set (ess ! k)" for e
  proof -
    have "e \<in> set es" unfolding set_es using nth_mem [OF assms(1)] e by blast
    then obtain a where "a < length es" "e = es ! a" by (metis in_set_conv_nth)
    then show ?thesis using iff in_take by simp
  qed
  then show ?thesis unfolding lower_bound_def [of C "ess ! k"] cut_pos_def by (metis (no_types, lifting) takeWhile_cong)
qed

lemma lower_bound_self:
  assumes "p < length es"
  shows "lower_bound C es (fst (es ! p)) = p"
  by (rule lower_bound_eqI) (use assms es_order in auto)

lemma lower_bound_key: "k < length ess \<Longrightarrow> p < length es \<Longrightarrow> lower_bound C (ess ! k) (fst (es ! p)) = cut_pos ess es p k"
  using lower_bound_child lower_bound_self es_valid by simp

section \<open>The current child\<close>

lemma placedD:
  assumes "placed ats ess ws pos" "k < length ess"
  shows "iw_valid (ws ! k) \<longleftrightarrow> pos k < length (ess ! k)" "pos k < length (ess ! k) \<Longrightarrow> iw_key (ws ! k) = fst (ess ! k ! pos k)"
    "wrapped_at (ess ! k) (ats k) (ws ! k) (pos k)"
  using assms by (auto simp: placed_def wrapped_at_def)

lemma pick_placed:
  assumes ws: "placed ats ess ws pos" and "is": "set is = {..<length ess}" and q: "q \<le> length es"
    and none: "q = length es \<Longrightarrow> (\<And>k. k < length ess \<Longrightarrow> pos k \<ge> length (ess ! k))"
    and mine: "\<And>k. q < length es \<Longrightarrow> k < length ess \<Longrightarrow> es ! q \<in> set (ess ! k) \<Longrightarrow>
      pos k < length (ess ! k) \<and> ess ! k ! pos k = es ! q"
    and best: "\<And>k a. q < length es \<Longrightarrow> k < length ess \<Longrightarrow> pos k < length (ess ! k) \<Longrightarrow> ess ! k ! pos k = es ! a \<Longrightarrow> a < length es \<Longrightarrow>
      R q a \<or> a = q"
    and better: "\<And>a b r. a < length es \<Longrightarrow> b < length es \<Longrightarrow> cmp_Compare C (fst (es ! a)) (fst (es ! b)) = Some r \<Longrightarrow>
      (R a b \<longrightarrow> better r) \<and> (R b a \<or> a = b \<longrightarrow> \<not> better r)"
  shows "\<exists>c. pick_child better C ws is None = Some c \<and> owner ess es q c"
proof (cases "q < length es")
  case True
  obtain m where m: "m < length ess" "es ! q \<in> set (ess ! m)" using owner_exists True by blast
  have "\<exists>r. cmp_Compare C (iw_key (ws ! i)) (iw_key (ws ! j)) = Some r \<and> (i = m \<and> j \<noteq> m \<longrightarrow> better r) \<and> (j = m \<longrightarrow> \<not> better r)"
    if ij: "i < length ess" "j < length ess" "iw_valid (ws ! i)" "iw_valid (ws ! j)" for i j
  proof -
    have v: "pos i < length (ess ! i)" "pos j < length (ess ! j)" using placedD(1) [OF ws] ij by auto
    obtain a b where ab: "a < length es" "ess ! i ! pos i = es ! a" "b < length es" "ess ! j ! pos j = es ! b"
      using child_entry ij(1,2) v by metis
    obtain r where r: "cmp_Compare C (fst (es ! a)) (fst (es ! b)) = Some r" using es_compare ab(1,3) by blast
    have a: "i = m \<Longrightarrow> a = q" and b: "j = m \<Longrightarrow> b = q"
      using mine [OF True] m ab True es_distinct by (auto simp: nth_eq_iff_index_eq)
    have "b \<noteq> q" if "j \<noteq> m" using that owner_unique [OF m(2) _ m(1) ij(2)] nth_mem [OF v(2)] ab(4) by auto
    then show ?thesis
      using r a b best [OF True ij(1) v(1) ab(2,1)] best [OF True ij(2) v(2) ab(4,3)] better [OF ab(1,3) r]
        placedD(2) [OF ws] ij v ab by auto
  qed
  then have "pick_child better C ws is None = Some (Some m)"
    using mine [OF True m] placedD(1) [OF ws m(1)] m(1) "is" by (intro pick_child_best) auto
  then show ?thesis using m True by (auto simp: owner_def)
next
  case False
  then have "\<not> iw_valid (ws ! k)" if "k \<in> set is" for k using none placedD(1) [OF ws] q "is" that by fastforce
  then show ?thesis using False pick_child_none [of "is" ws] by (auto simp: owner_def)
qed

lemma FindSmallest_at:
  assumes "placed ats ess (mi_children m) (cut_pos ess es p)" "p \<le> length es"
  shows "\<exists>c. FindSmallest C m = Some (m\<lparr>mi_current := c\<rparr>) \<and> owner ess es p c"
proof -
  have len: "length (mi_children m) = length ess" using assms(1) by (simp add: placed_def)
  have "\<exists>c. pick_child (\<lambda>r. r < 0) C (mi_children m) [0..<length ess] None = Some c \<and> owner ess es p c"
  proof (rule pick_placed [OF assms(1) _ assms(2), where R = "(<)"])
    fix k a assume "p < length es" "k < length ess" "cut_pos ess es p k < length (ess ! k)" "ess ! k ! cut_pos ess es p k = es ! a" "a < length es"
    then show "p < a \<or> a = p" using at_cut [of k p] es_distinct by (fastforce simp: nth_eq_iff_index_eq)
  next
    fix a b r assume "a < length es" "b < length es" "cmp_Compare C (fst (es ! a)) (fst (es ! b)) = Some r"
    then show "(a < b \<longrightarrow> r < 0) \<and> (b < a \<or> a = b \<longrightarrow> \<not> r < 0)" using es_compare [of a b] by auto
  qed (use cut_owner cut_last in auto)
  then show ?thesis by (auto simp: FindSmallest_def len)
qed

text \<open>In reverse, \<open>q\<close> entries are still to be visited.\<close>

lemma FindLargest_at:
  assumes "placed ats ess (mi_children m) (\<lambda>k. prev_pos (ess ! k) (cut_pos ess es q k))" "q \<le> length es"
  shows "\<exists>c. FindLargest C m = Some (m\<lparr>mi_current := c\<rparr>) \<and> owner ess es (prev_pos es q) c"
proof -
  have len: "length (mi_children m) = length ess" using assms(1) by (simp add: placed_def)
  let ?pos = "\<lambda>k. prev_pos (ess ! k) (cut_pos ess es q k)"
  have q: "q = Suc (prev_pos es q)" "0 < q" if "prev_pos es q < length es" using that by (auto simp: prev_pos_def split: if_splits)
  have valid: "0 < cut_pos ess es q k" "?pos k = cut_pos ess es q k - 1" if "?pos k < length (ess ! k)" for k
    using that by (auto simp: prev_pos_def split: if_splits)
  have "\<exists>c. pick_child (\<lambda>r. 0 < r) C (mi_children m) (rev [0..<length ess]) None = Some c \<and> owner ess es (prev_pos es q) c"
  proof (rule pick_placed [OF assms(1), where R = "(>)"])
    show "prev_pos es q \<le> length es" using assms(2) by (auto simp: prev_pos_def)
  next
    fix k assume "prev_pos es q = length es" "k < length ess"
    then have "q = 0" using assms(2) by (auto simp: prev_pos_def split: if_splits)
    then show "length (ess ! k) \<le> ?pos k" by (simp add: cut_first prev_pos_def)
  next
    fix k assume k: "prev_pos es q < length es" "k < length ess" "es ! prev_pos es q \<in> set (ess ! k)"
    then show "?pos k < length (ess ! k) \<and> ess ! k ! ?pos k = es ! prev_pos es q"
      using cut_owner [OF k] q(1) [OF k(1)] by (simp add: prev_pos_def)
  next
    fix k a assume k: "prev_pos es q < length es" "k < length ess" "?pos k < length (ess ! k)" "ess ! k ! ?pos k = es ! a" "a < length es"
    obtain b where "b < q" "b < length es" "ess ! k ! ?pos k = es ! b"
      using before_cut [OF k(2) valid(1) [OF k(3)]] valid(2) [OF k(3)] by metis
    then show "a < prev_pos es q \<or> a = prev_pos es q"
      using k es_distinct q [OF k(1)] by (auto simp: nth_eq_iff_index_eq)
  next
    fix a b r assume "a < length es" "b < length es" "cmp_Compare C (fst (es ! a)) (fst (es ! b)) = Some r"
    then show "(b < a \<longrightarrow> 0 < r) \<and> (a < b \<or> a = b \<longrightarrow> \<not> 0 < r)" using es_compare [of a b] by auto
  qed auto
  then show ?thesis by (auto simp: FindLargest_def len)
qed

section \<open>The moves\<close>

lemma wrapped_child: "k < length ess \<Longrightarrow> iterator (WrapperIterator (I k)) C (ess ! k) valid (wrapped_at (ess ! k) (ats k))"
  by (rule iterator.wrapper_iterator) (rule child)

lemma placed_cong: "(\<And>k. k < length ess \<Longrightarrow> pos k = pos' k) \<Longrightarrow> placed ats ess ws pos \<longleftrightarrow> placed ats ess ws pos'"
  by (simp add: placed_def)

lemma on_children_at:
  assumes "placed ats ess (mi_children m) pos"
    and "\<And>k w. k < length ess \<Longrightarrow> wrapped_at (ess ! k) (ats k) w (pos k) \<Longrightarrow> \<exists>w'. f k w = Some w' \<and> wrapped_at (ess ! k) (ats k) w' (pos' k)"
  shows "\<exists>ws. on_children f m = Some (m\<lparr>mi_children := ws\<rparr>) \<and> placed ats ess ws pos'"
proof -
  have len: "length (mi_children m) = length ess" using assms(1) by (simp add: placed_def)
  have "\<exists>ws. for_children f 0 (mi_children m) = Some ws \<and> length ws = length (mi_children m) \<and>
      (\<forall>k < length (mi_children m). wrapped_at (ess ! (0 + k)) (ats (0 + k)) (ws ! k) (pos' (0 + k)))"
    by (rule for_children_all) (use assms(2) placedD(3) [OF assms(1)] len in simp)
  then show ?thesis by (auto simp: on_children_def placed_def len)
qed

lemma on_current_at:
  assumes "placed ats ess (mi_children m) pos" "mi_current m = Some c" "c < length ess"
    and "\<And>w. wrapped_at (ess ! c) (ats c) w (pos c) \<Longrightarrow> \<exists>w'. f c w = Some w' \<and> wrapped_at (ess ! c) (ats c) w' i"
  shows "\<exists>ws. on_current f m = Some (m\<lparr>mi_children := ws\<rparr>) \<and> placed ats ess ws (pos(c := i))"
proof -
  obtain w where w: "f c (mi_children m ! c) = Some w" "wrapped_at (ess ! c) (ats c) w i"
    using assms(4) placedD(3) [OF assms(1,3)] by blast
  then have "placed ats ess ((mi_children m)[c := w]) (pos(c := i))"
    using assms(1,3) by (auto simp: placed_def nth_list_update)
  then show ?thesis using w(1) assms(2) by (auto simp: on_current_def)
qed

lemma forward_at:
  assumes "placed ats ess (mi_children m) (cut_pos ess es p)" "p \<le> length es"
  shows "\<exists>c. FindSmallest C m = Some (m\<lparr>mi_current := c\<rparr>) \<and> 
    (\<forall>m'. mi_children m' = mi_children m \<longrightarrow> mi_current m' = c \<longrightarrow> mi_direction m' = kForward \<longrightarrow> merging_at ats ess es m' p)"
  using FindSmallest_at [OF assms] assms by (auto simp: merging_at_def)

lemma reverse_at:
  assumes "placed ats ess (mi_children m) (\<lambda>k. prev_pos (ess ! k) (cut_pos ess es q k))" "q \<le> length es"
  shows "\<exists>c. FindLargest C m = Some (m\<lparr>mi_current := c\<rparr>) \<and>
    (\<forall>m'. mi_children m' = mi_children m \<longrightarrow> mi_current m' = c \<longrightarrow> mi_direction m' = kReverse \<longrightarrow> merging_at ats ess es m' (prev_pos es q))"
proof -
  have q: "Suc (prev_pos es q) = q" if "prev_pos es q < length es" using that by (auto simp: prev_pos_def split: if_splits)
  then have "prev_pos es q \<le> length es" using assms(2) by (auto simp: prev_pos_def)
  then show ?thesis using FindLargest_at [OF assms] assms(1) q by (fastforce simp: merging_at_def)
qed

lemma merging_atD:
  assumes "merging_at ats ess es m p"
  obtains pos where "p \<le> length es" "placed ats ess (mi_children m) pos"
  using assms by (auto simp: merging_at_def)

lemma merging_at_current:
  assumes "merging_at ats ess es m p" "p < length es"
  obtains c where "mi_current m = Some c" "c < length ess" "es ! p \<in> set (ess ! c)" 
    "wrapped_at (ess ! c) (ats c) (mi_children m ! c) (cut_pos ess es p c)"
    "placed ats ess (mi_children m) (if mi_direction m = kForward then cut_pos ess es p
       else (\<lambda>k. prev_pos (ess ! k) (cut_pos ess es (Suc p) k)))"
proof -
  obtain c where c: "mi_current m = Some c" "c < length ess" "es ! p \<in> set (ess ! c)"
    using assms by (auto simp: merging_at_def owner_def)
  have pl: "placed ats ess (mi_children m) (if mi_direction m = kForward then cut_pos ess es p
       else (\<lambda>k. prev_pos (ess ! k) (cut_pos ess es (Suc p) k)))"
    using assms by (auto simp: merging_at_def placed_def)
  then show thesis
    using that c placedD(3) [OF pl c(2)] cut_owner(3) [OF assms(2) c(2,3)] by (auto simp: prev_pos_def split: if_splits)
qed

lemma merging_first:
  assumes "merging_at ats ess es m p"
  shows "\<exists>m'. merging_SeekToFirst C I m = Some m' \<and> merging_at ats ess es m' 0"
proof -
  obtain pos where pos: "placed ats ess (mi_children m) pos" using merging_atD assms by blast
  have "\<exists>ws. on_children (\<lambda>i. it_SeekToFirst (WrapperIterator (I i))) m = Some (m\<lparr>mi_children := ws\<rparr>) \<and> placed ats ess ws (cut_pos ess es 0)"
    unfolding cut_first [abs_def] by (rule on_children_at [OF pos]) (rule iterator.first_at [OF wrapped_child])
  then obtain ws where "on_children (\<lambda>i. it_SeekToFirst (WrapperIterator (I i))) m = Some (m\<lparr>mi_children := ws\<rparr>)"
    "placed ats ess ws (cut_pos ess es 0)" by blast
  then show ?thesis using forward_at [of "m\<lparr>mi_children := ws\<rparr>" 0] by (auto simp: merging_SeekToFirst_def)
qed

lemma merging_last:
  assumes "merging_at ats ess es m p"
  shows "\<exists>m'. merging_SeekToLast C I m = Some m' \<and> merging_at ats ess es m' (last_pos es)"
proof -
  obtain pos where pos: "placed ats ess (mi_children m) pos" using merging_atD assms by blast
  have "\<exists>ws. on_children (\<lambda>i. it_SeekToLast (WrapperIterator (I i))) m = Some (m\<lparr>mi_children := ws\<rparr>) \<and>
      placed ats ess ws (\<lambda>k. last_pos (ess ! k))"
    by (rule on_children_at [OF pos]) (rule iterator.last_at [OF wrapped_child])
  then obtain ws where ws: "on_children (\<lambda>i. it_SeekToLast (WrapperIterator (I i))) m = Some (m\<lparr>mi_children := ws\<rparr>)"
    "placed ats ess ws (\<lambda>k. last_pos (ess ! k))" by blast
  then have "placed ats ess ws (\<lambda>k. prev_pos (ess ! k) (cut_pos ess es (length es) k))"
    using placed_cong [of "\<lambda>k. last_pos (ess ! k)" "\<lambda>k. prev_pos (ess ! k) (cut_pos ess es (length es) k)"]
    by (simp add: cut_last prev_pos_length)
  then show ?thesis
    using reverse_at [of "m\<lparr>mi_children := ws\<rparr>" "length es"] ws(1) by (auto simp: merging_SeekToLast_def prev_pos_length)
qed

lemma merging_seek:
  assumes "merging_at ats ess es m p" "valid target"
  shows "\<exists>m'. merging_Seek C I target m = Some m' \<and> merging_at ats ess es m' (lower_bound C es target)"
proof -
  obtain pos where pos: "placed ats ess (mi_children m) pos" using merging_atD assms(1) by blast
  have "\<exists>ws. on_children (\<lambda>i. it_Seek (WrapperIterator (I i)) target) m = Some (m\<lparr>mi_children := ws\<rparr>) \<and>
      placed ats ess ws (\<lambda>k. lower_bound C (ess ! k) target)"
    by (rule on_children_at [OF pos]) (rule iterator.seek_at [OF wrapped_child _ assms(2)])
  then obtain ws where ws: "on_children (\<lambda>i. it_Seek (WrapperIterator (I i)) target) m = Some (m\<lparr>mi_children := ws\<rparr>)"
    "placed ats ess ws (\<lambda>k. lower_bound C (ess ! k) target)" by blast
  then have "placed ats ess ws (cut_pos ess es (lower_bound C es target))"
    using placed_cong [of "\<lambda>k. lower_bound C (ess ! k) target" "cut_pos ess es (lower_bound C es target)"] lower_bound_child assms(2)
    by simp
  then show ?thesis
    using forward_at [of "m\<lparr>mi_children := ws\<rparr>" "lower_bound C es target"] ws(1) lower_bound_le by (auto simp: merging_Seek_def)
qed

text \<open>A child other than the current one does not hold the current key.\<close>

lemma turn_forward_at:
  assumes "p < length es" "k < length ess" "es ! p \<notin> set (ess ! k)" "wrapped_at (ess ! k) (ats k) w i"
  shows "\<exists>w'. turn_forward C (I k) (fst (es ! p)) w = Some w' \<and> wrapped_at (ess ! k) (ats k) w' (cut_pos ess es p k)"
proof -
  obtain w' where w': "it_Seek (WrapperIterator (I k)) (fst (es ! p)) w = Some w'" "wrapped_at (ess ! k) (ats k) w' (cut_pos ess es p k)"
    using iterator.seek_at [OF wrapped_child [OF assms(2)] assms(4) es_valid [OF assms(1)]] lower_bound_key [OF assms(2,1)] by metis
  have "\<exists>r. cmp_Compare C (fst (es ! p)) (iw_key w') = Some r \<and> r \<noteq> 0" if v: "iw_valid w'"
  proof -
    have lt: "cut_pos ess es p k < length (ess ! k)" using w'(2) v by (simp add: wrapped_at_def)
    then obtain a where a: "p \<le> a" "a < length es" "ess ! k ! cut_pos ess es p k = es ! a" using at_cut assms(2) by blast
    have "p \<noteq> a" using assms(3) a(3) nth_mem [OF lt] by auto
    then show ?thesis using es_compare [OF assms(1) a(2)] a w'(2) lt by (auto simp: wrapped_at_def)
  qed
  then show ?thesis using w' by (auto simp: turn_forward_def wrapper_key_def)
qed

lemma turn_reverse_at:
  assumes "p < length es" "k < length ess" "wrapped_at (ess ! k) (ats k) w i"
  shows "\<exists>w'. turn_reverse (I k) (fst (es ! p)) w = Some w' \<and>
    wrapped_at (ess ! k) (ats k) w' (prev_pos (ess ! k) (cut_pos ess es p k))"
proof -
  note it = wrapped_child [OF assms(2)]
  obtain w' where w': "it_Seek (WrapperIterator (I k)) (fst (es ! p)) w = Some w'" "wrapped_at (ess ! k) (ats k) w' (cut_pos ess es p k)"
    using iterator.seek_at [OF it assms(3) es_valid [OF assms(1)]] lower_bound_key [OF assms(2,1)] by metis
  have v: "iw_valid w' \<longleftrightarrow> cut_pos ess es p k < length (ess ! k)" using w'(2) by (simp add: wrapped_at_def)
  show ?thesis
  proof (cases "iw_valid w'")
    case True
    then show ?thesis using iterator.prev_at [OF it w'(2)] v w'(1) by (auto simp: turn_reverse_def)
  next
    case False
    then have "cut_pos ess es p k = length (ess ! k)" using v cut_le [of p k] by simp
    then show ?thesis using iterator.last_at [OF it w'(2)] False w'(1) by (auto simp: turn_reverse_def prev_pos_length)
  qed
qed

lemma merging_key_at:
  assumes "merging_at ats ess es m p" "p < length es"
  shows "merging_key m = Some (fst (es ! p))" "merging_value I m = Some (snd (es ! p))"
proof -
  obtain c where c: "mi_current m = Some c" "c < length ess" "es ! p \<in> set (ess ! c)"
      "wrapped_at (ess ! c) (ats c) (mi_children m ! c) (cut_pos ess es p c)"
    using merging_at_current [OF assms] by blast
  note it = wrapped_child [OF c(2)] and entry = cut_owner [OF assms(2) c(2,3)]
  show "merging_key m = Some (fst (es ! p))"
    using iterator.key_eq [OF it c(4) entry(1)] c(1) entry(2) by (simp add: merging_key_def WrapperIterator_def)
  show "merging_value I m = Some (snd (es ! p))"
    using iterator.value_eq [OF it c(4) entry(1)] c(1) entry(2) by (simp add: merging_value_def WrapperIterator_def)
qed

lemma face_at:
  assumes "merging_at ats ess es m p" "p < length es" "mi_current m = Some c" "mi_direction m \<noteq> d"
    and "\<And>k w i. k < length ess \<Longrightarrow> k \<noteq> c \<Longrightarrow> wrapped_at (ess ! k) (ats k) w i \<Longrightarrow>
      \<exists>w'. turn (I k) (fst (es ! p)) w = Some w' \<and> wrapped_at (ess ! k) (ats k) w' (pos k)"
  shows "\<exists>ws. (do { key \<leftarrow> merging_key m;
       m \<leftarrow> on_children (\<lambda>i child. if mi_current m \<noteq> Some i then turn (I i) key child else Some child) m;
       Some (m\<lparr>mi_direction := d\<rparr>) }) = Some (m\<lparr>mi_children := ws, mi_direction := d\<rparr>) \<and>
    placed ats ess ws (pos(c := cut_pos ess es p c))"
proof -
  obtain old where old: "placed ats ess (mi_children m) old" "old c = cut_pos ess es p c"
  proof (rule merging_at_current [OF assms(1,2)])
    fix c' assume c': "mi_current m = Some c'" "c' < length ess" "es ! p \<in> set (ess ! c')"
      and pl: "placed ats ess (mi_children m) (if mi_direction m = kForward then cut_pos ess es p
        else (\<lambda>k. prev_pos (ess ! k) (cut_pos ess es (Suc p) k)))"
    show thesis
      by (rule that [OF pl]) (use c' assms(3) cut_owner(3) [OF assms(2) c'(2,3)] in \<open>simp add: prev_pos_def\<close>)
  qed
  have "\<exists>ws. on_children (\<lambda>i child. if mi_current m \<noteq> Some i then turn (I i) (fst (es ! p)) child else Some child) m =
      Some (m\<lparr>mi_children := ws\<rparr>) \<and> placed ats ess ws (pos(c := cut_pos ess es p c))"
    by (rule on_children_at [OF old(1)]) (use assms(3,5) old(2) in auto)
  then show ?thesis using merging_key_at(1) [OF assms(1,2)] by auto
qed

lemma face_forward_at:
  assumes m: "merging_at ats ess es m p" "p < length es"
  shows "\<exists>ws. face_forward C I m = Some (m\<lparr>mi_children := ws, mi_direction := kForward\<rparr>) \<and> placed ats ess ws (cut_pos ess es p)"
proof (cases "mi_direction m = kForward")
  case True
  then show ?thesis using merging_at_current [OF m] by (intro exI [of _ "mi_children m"]) (simp add: face_forward_def)
next
  case False
  obtain c where c: "mi_current m = Some c" "c < length ess" "es ! p \<in> set (ess ! c)" using merging_at_current [OF m] by blast
  have "es ! p \<notin> set (ess ! k)" if "k < length ess" "k \<noteq> c" for k using owner_unique c(2,3) that by metis
  then show ?thesis
    using face_at [OF m c(1) False, where turn = "turn_forward C" and pos = "cut_pos ess es p"] turn_forward_at [OF m(2)] False
    by (simp add: face_forward_def)
qed

lemma face_reverse_at:
  assumes m: "merging_at ats ess es m p" "p < length es" and c: "mi_current m = Some c"
  shows "\<exists>ws. face_reverse I m = Some (m\<lparr>mi_children := ws, mi_direction := kReverse\<rparr>) \<and>
    placed ats ess ws ((\<lambda>k. prev_pos (ess ! k) (cut_pos ess es p k))(c := cut_pos ess es p c))"
proof (cases "mi_direction m = kReverse")
  case True
  have pos: "placed ats ess (mi_children m) (\<lambda>k. prev_pos (ess ! k) (cut_pos ess es (Suc p) k))"
      "wrapped_at (ess ! c) (ats c) (mi_children m ! c) (cut_pos ess es p c)" and own: "c < length ess" "es ! p \<in> set (ess ! c)"
    using merging_at_current [OF m] True c by auto
  have "es ! p \<notin> set (ess ! k)" if "k < length ess" "k \<noteq> c" for k using owner_unique own that by metis
  then have "placed ats ess (mi_children m) ((\<lambda>k. prev_pos (ess ! k) (cut_pos ess es p k))(c := cut_pos ess es p c))"
    using pos cut_other [OF m(2)] by (auto simp: placed_def)
  then show ?thesis using True by (intro exI [of _ "mi_children m"]) (simp add: face_reverse_def)
next
  case False
  then show ?thesis
    using face_at [OF m c False, where turn = turn_reverse and pos = "\<lambda>k. prev_pos (ess ! k) (cut_pos ess es p k)"]
      turn_reverse_at [OF m(2)] by (simp add: face_reverse_def)
qed

lemma merging_next:
  assumes m: "merging_at ats ess es m p" "p < length es"
  shows "\<exists>m'. merging_Next C I m = Some m' \<and> merging_at ats ess es m' (Suc p)"
proof -
  obtain c where c: "mi_current m = Some c" "c < length ess" "es ! p \<in> set (ess ! c)" using merging_at_current [OF m] by blast
  note own = cut_owner [OF m(2) c(2,3)]
  obtain ws where ws: "face_forward C I m = Some (m\<lparr>mi_children := ws, mi_direction := kForward\<rparr>)" "placed ats ess ws (cut_pos ess es p)"
    using face_forward_at [OF m] by blast
  let ?m = "m\<lparr>mi_children := ws, mi_direction := kForward\<rparr>"
  have "\<exists>ws'. on_current (\<lambda>c. it_Next (WrapperIterator (I c))) ?m = Some (?m\<lparr>mi_children := ws'\<rparr>) \<and>
      placed ats ess ws' ((cut_pos ess es p)(c := Suc (cut_pos ess es p c)))"
    by (rule on_current_at [of _ "cut_pos ess es p"])
      (use ws(2) c own iterator.next_at [OF wrapped_child [OF c(2)]] in simp_all)
  then obtain ws' where ws': "on_current (\<lambda>c. it_Next (WrapperIterator (I c))) ?m = Some (?m\<lparr>mi_children := ws'\<rparr>)"
      "placed ats ess ws' ((cut_pos ess es p)(c := Suc (cut_pos ess es p c)))"
    by blast
  have "es ! p \<notin> set (ess ! k)" if "k < length ess" "k \<noteq> c" for k using owner_unique c(2,3) that by metis
  then have "placed ats ess ws' (cut_pos ess es (Suc p))"
    using placed_cong [of "(cut_pos ess es p)(c := Suc (cut_pos ess es p c))" "cut_pos ess es (Suc p)"] ws'(2) own(3) cut_other [OF m(2)]
    by simp
  then show ?thesis
    using forward_at [of "?m\<lparr>mi_children := ws'\<rparr>" "Suc p"] m(2) ws(1) ws'(1) c(1)
    by (auto simp: merging_Next_def merging_Valid_def)
qed

lemma merging_prev:
  assumes m: "merging_at ats ess es m p" "p < length es"
  shows "\<exists>m'. merging_Prev C I m = Some m' \<and> merging_at ats ess es m' (prev_pos es p)"
proof -
  let ?pos = "\<lambda>k. prev_pos (ess ! k) (cut_pos ess es p k)"
  obtain c where c: "mi_current m = Some c" "c < length ess" "es ! p \<in> set (ess ! c)" using merging_at_current [OF m] by blast
  note own = cut_owner [OF m(2) c(2,3)]
  obtain ws where ws: "face_reverse I m = Some (m\<lparr>mi_children := ws, mi_direction := kReverse\<rparr>)"
      "placed ats ess ws (?pos(c := cut_pos ess es p c))"
    using face_reverse_at [OF m c(1)] by blast
  let ?m = "m\<lparr>mi_children := ws, mi_direction := kReverse\<rparr>"
  have "\<exists>ws'. on_current (\<lambda>c. it_Prev (WrapperIterator (I c))) ?m = Some (?m\<lparr>mi_children := ws'\<rparr>) \<and>
      placed ats ess ws' ((?pos(c := cut_pos ess es p c))(c := ?pos c))"
    by (rule on_current_at [of _ "?pos(c := cut_pos ess es p c)"])
      (use ws(2) c own iterator.prev_at [OF wrapped_child [OF c(2)]] in simp_all)
  then have "\<exists>ws'. on_current (\<lambda>c. it_Prev (WrapperIterator (I c))) ?m = Some (?m\<lparr>mi_children := ws'\<rparr>) \<and> placed ats ess ws' ?pos"
    using placed_cong [of "(?pos(c := cut_pos ess es p c))(c := ?pos c)" ?pos] by auto
  then obtain ws' where "on_current (\<lambda>c. it_Prev (WrapperIterator (I c))) ?m = Some (?m\<lparr>mi_children := ws'\<rparr>)"
      "placed ats ess ws' ?pos"
    by blast
  then show ?thesis
    using reverse_at [of "?m\<lparr>mi_children := ws'\<rparr>" p] m(2) ws(1) c(1)
    by (auto simp: merging_Prev_def merging_Valid_def)
qed

lemma status_loop_at:
  assumes "\<And>k. k < length ws \<Longrightarrow> it_status (WrapperIterator (I (i + k))) (ws ! k) = Some OK"
  shows "merging_status_loop I i OK ws = Some OK"
  using assms
proof (induction ws arbitrary: i)
  case (Cons w ws)
  have "merging_status_loop I (Suc i) OK ws = Some OK" by (rule Cons.IH) (use Cons.prems in force)
  then show ?case using Cons.prems [of 0] by simp
qed simp

lemma merging_status_at:
  assumes "merging_at ats ess es m p"
  shows "merging_status I m = Some OK"
proof -
  obtain pos where pos: "placed ats ess (mi_children m) pos" using merging_atD assms by blast
  show ?thesis
    unfolding merging_status_def
    by (rule status_loop_at) (use iterator.status_eq [OF wrapped_child placedD(3) [OF pos]] pos in \<open>simp add: placed_def\<close>)
qed

lemma merging_le: "merging_at ats ess es m p \<Longrightarrow> p \<le> length es"
  by (simp add: merging_at_def)

lemma merging_valid_at: "merging_at ats ess es m p \<Longrightarrow> merging_Valid m \<longleftrightarrow> p < length es"
  by (auto simp: merging_at_def merging_Valid_def owner_def split: if_splits)

text \<open>The merging iterator is a cursor into the entries of all children.\<close>

lemma merging_iterator: "iterator (Merging C I) C es valid (merging_at ats ess es)"
  by (unfold_locales, unfold Merging_def Iterator.simps)
    (erule (1) merging_le merging_valid_at merging_key_at merging_status_at merging_first merging_last merging_seek
      merging_next merging_prev | erule merging_le merging_valid_at merging_status_at merging_first merging_last)+

lemma new_MergingIterator_at:
  assumes "length children = length ess" "\<And>k. k < length ess \<Longrightarrow> \<exists>i. ats k (children ! k) i"
  shows "\<exists>m. new_MergingIterator I children = Some m \<and> merging_at ats ess es m (length es)"
proof -
  have "\<exists>ws. for_children (\<lambda>i child. wrapper_Set (I i) (Some child) new_IteratorWrapper) 0 children = Some ws \<and>
      length ws = length children \<and> (\<forall>k < length children. \<exists>i. wrapped_at (ess ! (0 + k)) (ats (0 + k)) (ws ! k) i)"
  proof (rule for_children_all)
    fix k assume "k < length children"
    then obtain i where "k < length ess" "ats k (children ! k) i" using assms by auto
    then show "\<exists>w. wrapper_Set (I (0 + k)) (Some (children ! k)) new_IteratorWrapper = Some w \<and>
        (\<exists>i. wrapped_at (ess ! (0 + k)) (ats (0 + k)) w i)"
      using iterator.wrapper_Set_at [OF child] by fastforce
  qed
  then obtain ws where ws: "for_children (\<lambda>i child. wrapper_Set (I i) (Some child) new_IteratorWrapper) 0 children = Some ws"
      "length ws = length ess" "\<forall>k < length ess. \<exists>i. wrapped_at (ess ! k) (ats k) (ws ! k) i"
    using assms(1) by auto
  then obtain pos where "\<forall>k < length ess. wrapped_at (ess ! k) (ats k) (ws ! k) (pos k)" by metis
  then show ?thesis using ws by (auto simp: new_MergingIterator_def merging_at_def owner_def placed_def)
qed

text \<open>One child has all entries.\<close>

lemma only_child:
  assumes "length ess = 1"
  shows "es = ess ! 0"
proof -
  have cut: "cut_pos ess es p 0 = p" if "p \<le> length es" for p
    using that
  proof (induction p)
    case (Suc p)
    then have "es ! p \<in> set (ess ! 0)" using owner_exists [of p] assms by auto
    then show ?case using Suc cut_owner(3) [of p 0] assms by simp
  qed (rule cut_first)
  have "es ! p = ess ! 0 ! p" if p: "p < length es" for p
    using cut_owner(2) [OF p, of 0] owner_exists [OF p] cut [of p] p assms by auto
  then show ?thesis using cut [of "length es"] cut_last [of 0] assms by (intro nth_equalityI) auto
qed

lemma no_child: "ess = [] \<Longrightarrow> es = []"
  using set_es by simp

lemma NewMergingIterator_at:
  assumes "length children = length ess" "\<And>k. k < length ess \<Longrightarrow> \<exists>i. ats k (children ! k) i"
  shows "\<exists>s at i. NewMergingIterator I children = Some s \<and> iterator (MergedIterator C I) C es valid at \<and> at s i"
proof -
  consider "children = []" | c where "children = [c]" | "\<exists>a b cs. children = a # b # cs" by (cases children rule: remdups_adj.cases) auto
  then show ?thesis
  proof cases
    case 1
    then have "es = []" using no_child assms(1) by simp
    then show ?thesis using 1 iterator.either_left [OF empty_iterator.iterator_axioms [of C valid], where A = "either_iterator (I 0) (Merging C I)"]
      by (fastforce simp: NewMergingIterator_def MergedIterator_def)
  next
    case (2 c)
    then have es: "es = ess ! 0" and len: "0 < length ess" using only_child assms(1) by (simp_all flip: length_greater_0_conv)
    have "iterator (MergedIterator C I) C es valid (\<lambda>s i. \<exists>s'. s = Inr s' \<and> (\<exists>c. s' = Inl c \<and> ats 0 c i))"
      unfolding MergedIterator_def es by (intro iterator.either_right iterator.either_left child len)
    then show ?thesis using 2 assms(2) [OF len] by (fastforce simp: NewMergingIterator_def)
  next
    case 3
    obtain m where m: "new_MergingIterator I children = Some m" "merging_at ats ess es m (length es)"
      using new_MergingIterator_at assms by blast
    have "iterator (MergedIterator C I) C es valid (\<lambda>s i. \<exists>s'. s = Inr s' \<and> (\<exists>m. s' = Inr m \<and> merging_at ats ess es m i))"
      unfolding MergedIterator_def by (intro iterator.either_right merging_iterator)
    then show ?thesis using 3 m by (fastforce simp: NewMergingIterator_def)
  qed
qed

end

text \<open>Blocks as children, the entries of which may be merged.\<close>

definition mergeable :: "entry list list \<Rightarrow> entry list \<Rightarrow> entry list list" where
  "mergeable ess es = (if merges BytewiseComparator (\<lambda>_. True) ess es then ess else [])"

interpretation merged_blocks: merging BytewiseComparator "\<lambda>_. True" "\<lambda>_. BlockIter BytewiseComparator" "mergeable ess es"
  "if merges BytewiseComparator (\<lambda>_. True) ess es then es else []" "\<lambda>k. block_at BytewiseComparator (\<lambda>_. True) (mergeable ess es ! k)"
proof unfold_locales
  show "merges BytewiseComparator (\<lambda>_. True) (mergeable ess es) (if merges BytewiseComparator (\<lambda>_. True) ess es then es else [])"
    by (auto simp: mergeable_def) (simp add: merges_def)
qed

section \<open>Every merging iterator is a cursor\<close>

text \<open>C10. Merging iterators: if the children are cursors into sorted lists of entries and no key occurs
  twice, then the iterator that \<open>NewMergingIterator\<close> makes, of whatever class, is a cursor into
  the sorted list of all entries. Every sequence of seeks and of steps in either direction ends, after
  each change of direction too, at the entry that the specification gives, and the status is \<open>OK\<close>.\<close>

theorem merging_iterator_refines:
  assumes "comparator C valid" and "merges C valid ess es" and "length children = length ess"
    and "\<And>k. k < length ess \<Longrightarrow> iterator (I k) C (ess ! k) valid (ats k)"
    and "\<And>k. k < length ess \<Longrightarrow> \<exists>i. ats k (children ! k) i"
  shows "\<exists>s i. NewMergingIterator I children = Some s \<and>
    (\<forall>ms j. (\<forall>m \<in> set ms. move_target_ok valid m) \<longrightarrow> run_moves (move_pos C es) ms i = Some j \<longrightarrow>
      (\<exists>s'. run_moves (move_iter (MergedIterator C I)) ms s = Some s' \<and>
        observe (MergedIterator C I) s' = Some (entry_at_pos es j, OK)))"
proof -
  have m: "merging C valid I ess es ats"
    using assms(1,2,4) by (simp add: merging_def merging_axioms_def)
  obtain s at i where s: "NewMergingIterator I children = Some s" "iterator (MergedIterator C I) C es valid at" "at s i"
    using merging.NewMergingIterator_at [OF m assms(3,5)] by blast
  then show ?thesis using iterator.run_moves_at [OF s(2,3)] iterator.observe_at [OF s(2)] by metis
qed

definition sample_children :: "entry list list" where
  "sample_children = [[([97], [1]), ([98], [2])], [([97, 98], [3])]]"

definition opened_block :: "Options \<Rightarrow> entry list \<Rightarrow> Iter option" where
  "opened_block opts es = do { contents \<leftarrow> build_block opts es; b \<leftarrow> new_Block contents; it \<leftarrow> Block_NewIterator b;
     case it of Inl _ \<Rightarrow> None | Inr it \<Rightarrow> Some it }"

lemma opened_block_at:
  assumes "comparator C valid" "\<forall>e \<in> set es. valid (fst e)" "sorted_wrt (\<lambda>a b. key_less C (fst a) (fst b)) es" "size_bound es < 2 ^ 32"
  shows "\<exists>it. opened_block (new_Options\<lparr>op_comparator := C\<rparr>) es = Some it \<and> block_at C valid es it (length es)"
  using build_block_at [OF assms(1), of "new_Options\<lparr>op_comparator := C\<rparr>" es] assms(2-4) by (auto simp: new_Options_def opened_block_def)

theorem merging_iterator_refines_witness:
  "\<exists>it0 it1 s s'. opened_block (new_Options\<lparr>op_comparator := BytewiseComparator\<rparr>) (sample_children ! 0) = Some it0 \<and> opened_block (new_Options\<lparr>op_comparator := BytewiseComparator\<rparr>) (sample_children ! 1) = Some it1 \<and>
    NewMergingIterator (\<lambda>_. BlockIter BytewiseComparator) [it0, it1] = Some s \<and>
    run_moves (move_iter (MergedIterator BytewiseComparator (\<lambda>_. BlockIter BytewiseComparator))) [ToFirst, Forward, Forward, Backward] s = Some s' \<and>
    observe (MergedIterator BytewiseComparator (\<lambda>_. BlockIter BytewiseComparator)) s' = Some (Some ([97, 98], [3]), OK)"
proof -
  let ?es = "[([97], [1]), ([97, 98], [3]), ([98], [2])] :: entry list"
  obtain it0 it1 where it: "opened_block (new_Options\<lparr>op_comparator := BytewiseComparator\<rparr>) (sample_children ! 0) = Some it0" "opened_block (new_Options\<lparr>op_comparator := BytewiseComparator\<rparr>) (sample_children ! 1) = Some it1"
      "block_at BytewiseComparator (\<lambda>_. True) (sample_children ! 0) it0 (length (sample_children ! 0))" "block_at BytewiseComparator (\<lambda>_. True) (sample_children ! 1) it1 (length (sample_children ! 1))"
    using opened_block_at [OF bytewise.comparator_axioms, of "sample_children ! 0"] opened_block_at [OF bytewise.comparator_axioms, of "sample_children ! 1"]
    by (auto simp: sample_children_def size_bound_def)
  have m: "merges BytewiseComparator (\<lambda>_. True) sample_children ?es" by (simp add: merges_def sample_children_def)
  have at: "\<exists>i. block_at BytewiseComparator (\<lambda>_. True) (sample_children ! k) ([it0, it1] ! k) i" if "k < length sample_children" for k
    using that it(3,4) by (cases k) (auto simp: sample_children_def)
  have len: "length [it0, it1] = length sample_children" by (simp add: sample_children_def)
  have pos: "run_moves (move_pos BytewiseComparator ?es) [ToFirst, Forward, Forward, Backward] i = Some 1" for i
    by (simp add: prev_pos_def)
  obtain s i where s: "NewMergingIterator (\<lambda>_. BlockIter BytewiseComparator) [it0, it1] = Some s"
      "\<And>ms j. (\<forall>m \<in> set ms. move_target_ok (\<lambda>_. True) m) \<Longrightarrow> run_moves (move_pos BytewiseComparator ?es) ms i = Some j \<Longrightarrow>
        \<exists>s'. run_moves (move_iter (MergedIterator BytewiseComparator (\<lambda>_. BlockIter BytewiseComparator))) ms s = Some s' \<and>
          observe (MergedIterator BytewiseComparator (\<lambda>_. BlockIter BytewiseComparator)) s' = Some (entry_at_pos ?es j, OK)"
    using merging_iterator_refines [OF bytewise.comparator_axioms m len block_iter.iterator_axioms at] by blast
  show ?thesis using s(2) [OF _ pos [of i]] it(1,2) s(1) by (auto simp: entry_at_pos_def)
qed

end
