(* ===== verification/Ldb_Db_Iter.thy ===== *)
theory Ldb_Db_Iter
  imports Ldb_Merger Ldb_Dbformat Ldb_Random
begin

text \<open>
  The iterator of the database, \<open>db/db_iter.cc\<close>: it shows, of the internal entries (user key,
  sequence number, type) that the iterator below it yields, for each user key the newest one
  that the snapshot sees, unless that is a deletion.

  The calls \<open>db_->RecordReadSample(k)\<close> are collected in \<open>di_samples\<close>. \<open>None\<close> stands for a failing
  assertion or a loop that does not end.
\<close>

section \<open>The iterator\<close>

record 's DBIter =
  di_iter :: 's
  di_sequence :: SequenceNumber
  di_status :: Status
  di_saved_key :: "byte list"
  di_saved_value :: "byte list"
  di_direction :: Direction
  di_valid :: bool
  di_rnd :: Random
  di_bytes_until_read_sampling :: u64
  di_samples :: "byte list list"

text \<open>\<open>rnd_.Uniform(2 * config::kReadBytesPeriod)\<close>\<close>

definition RandomCompactionPeriod :: "Random \<Rightarrow> u64 \<times> Random" where
  "RandomCompactionPeriod rnd = (case Uniform (of_nat (2 * kReadBytesPeriod)) rnd of (n, rnd) \<Rightarrow> (ucast n, rnd))"

definition NewDBIterator :: "'s \<Rightarrow> SequenceNumber \<Rightarrow> u32 \<Rightarrow> 's DBIter" where
  "NewDBIterator iter s seed = (case RandomCompactionPeriod (new_Random seed) of (n, rnd) \<Rightarrow>
     \<lparr>di_iter = iter, di_sequence = s, di_status = OK, di_saved_key = [], di_saved_value = [], di_direction = kForward,
       di_valid = False, di_rnd = rnd, di_bytes_until_read_sampling = n, di_samples = []\<rparr>)"

partial_function (option) sample_reads :: "byte list \<Rightarrow> u64 \<Rightarrow> 's DBIter \<Rightarrow> 's DBIter option" where
  "sample_reads k bytes_read d = (if di_bytes_until_read_sampling d < bytes_read then
     (case RandomCompactionPeriod (di_rnd d) of (n, rnd) \<Rightarrow>
       sample_reads k bytes_read (d\<lparr>di_rnd := rnd, di_bytes_until_read_sampling := di_bytes_until_read_sampling d + n,
         di_samples := di_samples d @ [k]\<rparr>))
   else Some d)"

definition db_ParseKey :: "'s Iterator \<Rightarrow> 's DBIter \<Rightarrow> (ParsedInternalKey option \<times> 's DBIter) option" where
  "db_ParseKey I d = do {
     k \<leftarrow> it_key I (di_iter d);
     v \<leftarrow> it_value I (di_iter d);
     let bytes_read = of_nat (length k) + of_nat (length v);
     d \<leftarrow> sample_reads k bytes_read d;
     let d = d\<lparr>di_bytes_until_read_sampling := di_bytes_until_read_sampling d - bytes_read\<rparr>;
     case ParseInternalKey k of
       None \<Rightarrow> Some (None, d\<lparr>di_status := Corruption (ascii ''corrupted internal key in DBIter'')\<rparr>)
     | Some parsed \<Rightarrow> Some (Some parsed, d) }"

definition on_iter :: "('s \<Rightarrow> 's option) \<Rightarrow> 's DBIter \<Rightarrow> 's DBIter option" where
  "on_iter f d = do { s \<leftarrow> f (di_iter d); Some (d\<lparr>di_iter := s\<rparr>) }"

text \<open>The body of the loop of \<open>FindNextUserEntry\<close> up to \<open>iter_->Next()\<close>: whether it returns, and \<open>skipping\<close>.
  The parameter \<open>skip\<close> always is \<open>&saved_key_\<close>.\<close>

definition next_entry :: "Comparator \<Rightarrow> ParsedInternalKey option \<Rightarrow> bool \<Rightarrow> 's DBIter \<Rightarrow> (bool \<times> bool \<times> 's DBIter) option" where
  "next_entry U parsed skipping d = (case parsed of
     None \<Rightarrow> Some (False, skipping, d)
   | Some parsed \<Rightarrow>
       if pk_sequence parsed \<le> di_sequence d then (case pk_type parsed of
         kTypeDeletion \<Rightarrow> Some (False, True, d\<lparr>di_saved_key := pk_user_key parsed\<rparr>)
       | kTypeValue \<Rightarrow> do {
           hidden \<leftarrow> (if skipping then do { r \<leftarrow> cmp_Compare U (pk_user_key parsed) (di_saved_key d); Some (r \<le> 0) } else Some False);
           if hidden then Some (False, skipping, d)
           else Some (True, skipping, d\<lparr>di_valid := True, di_saved_key := []\<rparr>) })
       else Some (False, skipping, d))"

partial_function (option) next_entry_loop :: "Comparator \<Rightarrow> 's Iterator \<Rightarrow> bool \<Rightarrow> 's DBIter \<Rightarrow> 's DBIter option" where
  "next_entry_loop U I skipping d = do {
     (parsed, d) \<leftarrow> db_ParseKey I d;
     (found, skipping, d) \<leftarrow> next_entry U parsed skipping d;
     if found then Some d
     else do {
       d \<leftarrow> on_iter (it_Next I) d;
       if it_Valid I (di_iter d) then next_entry_loop U I skipping d
       else Some (d\<lparr>di_saved_key := [], di_valid := False\<rparr>) } }"

definition FindNextUserEntry :: "Comparator \<Rightarrow> 's Iterator \<Rightarrow> bool \<Rightarrow> 's DBIter \<Rightarrow> 's DBIter option" where
  "FindNextUserEntry U I skipping d = (if it_Valid I (di_iter d) \<and> di_direction d = kForward
     then next_entry_loop U I skipping d else None)"

definition db_Next :: "Comparator \<Rightarrow> 's Iterator \<Rightarrow> 's DBIter \<Rightarrow> 's DBIter option" where
  "db_Next U I d = (if di_valid d then
     (if di_direction d = kReverse then do {
        let d = d\<lparr>di_direction := kForward\<rparr>;
        d \<leftarrow> (if \<not> it_Valid I (di_iter d) then on_iter (it_SeekToFirst I) d else on_iter (it_Next I) d);
        if \<not> it_Valid I (di_iter d) then Some (d\<lparr>di_valid := False, di_saved_key := []\<rparr>)
        else FindNextUserEntry U I True d }
      else do {
        k \<leftarrow> it_key I (di_iter d);
        u \<leftarrow> ExtractUserKey k;
        FindNextUserEntry U I True (d\<lparr>di_saved_key := u\<rparr>) })
   else None)"

definition ClearSavedValue :: "'s DBIter \<Rightarrow> 's DBIter" where
  "ClearSavedValue d = d\<lparr>di_saved_value := []\<rparr>"

text \<open>The body of the loop of \<open>FindPrevUserEntry\<close> up to \<open>iter_->Prev()\<close>: whether it breaks, and \<open>value_type\<close>.\<close>

definition prev_entry :: "Comparator \<Rightarrow> 's Iterator \<Rightarrow> ParsedInternalKey option \<Rightarrow> ValueType \<Rightarrow> 's DBIter \<Rightarrow>
    (bool \<times> ValueType \<times> 's DBIter) option" where
  "prev_entry U I parsed value_type d = (case parsed of
     None \<Rightarrow> Some (False, value_type, d)
   | Some parsed \<Rightarrow>
       if pk_sequence parsed \<le> di_sequence d then do {
         before \<leftarrow> (if value_type \<noteq> kTypeDeletion
           then do { r \<leftarrow> cmp_Compare U (pk_user_key parsed) (di_saved_key d); Some (r < 0) } else Some False);
         if before then Some (True, value_type, d)
         else if pk_type parsed = kTypeDeletion
         then Some (False, pk_type parsed, ClearSavedValue (d\<lparr>di_saved_key := []\<rparr>))
         else do {
           raw_value \<leftarrow> it_value I (di_iter d);
           k \<leftarrow> it_key I (di_iter d);
           u \<leftarrow> ExtractUserKey k;
           Some (False, pk_type parsed, d\<lparr>di_saved_key := u, di_saved_value := raw_value\<rparr>) } }
       else Some (False, value_type, d))"

partial_function (option) prev_entry_loop :: "Comparator \<Rightarrow> 's Iterator \<Rightarrow> ValueType \<Rightarrow> 's DBIter \<Rightarrow> (ValueType \<times> 's DBIter) option" where
  "prev_entry_loop U I value_type d = do {
     (parsed, d) \<leftarrow> db_ParseKey I d;
     (found, value_type, d) \<leftarrow> prev_entry U I parsed value_type d;
     if found then Some (value_type, d)
     else do {
       d \<leftarrow> on_iter (it_Prev I) d;
       if it_Valid I (di_iter d) then prev_entry_loop U I value_type d else Some (value_type, d) } }"

definition FindPrevUserEntry :: "Comparator \<Rightarrow> 's Iterator \<Rightarrow> 's DBIter \<Rightarrow> 's DBIter option" where
  "FindPrevUserEntry U I d = (if di_direction d = kReverse then do {
     (value_type, d) \<leftarrow> (if it_Valid I (di_iter d) then prev_entry_loop U I kTypeDeletion d else Some (kTypeDeletion, d));
     if value_type = kTypeDeletion
     then Some ((ClearSavedValue (d\<lparr>di_valid := False, di_saved_key := []\<rparr>))\<lparr>di_direction := kForward\<rparr>)
     else Some (d\<lparr>di_valid := True\<rparr>) }
   else None)"

text \<open>The loop of \<open>Prev\<close> that leaves the entries for the current key; whether one before them is found.\<close>

partial_function (option) skip_current_key :: "Comparator \<Rightarrow> 's Iterator \<Rightarrow> 's DBIter \<Rightarrow> (bool \<times> 's DBIter) option" where
  "skip_current_key U I d = do {
     d \<leftarrow> on_iter (it_Prev I) d;
     if \<not> it_Valid I (di_iter d) then Some (False, ClearSavedValue (d\<lparr>di_valid := False, di_saved_key := []\<rparr>))
     else do {
       k \<leftarrow> it_key I (di_iter d);
       u \<leftarrow> ExtractUserKey k;
       r \<leftarrow> cmp_Compare U u (di_saved_key d);
       if r < 0 then Some (True, d) else skip_current_key U I d } }"

definition db_Prev :: "Comparator \<Rightarrow> 's Iterator \<Rightarrow> 's DBIter \<Rightarrow> 's DBIter option" where
  "db_Prev U I d = (if di_valid d then
     (if di_direction d = kForward then
        if it_Valid I (di_iter d) then do {
          k \<leftarrow> it_key I (di_iter d);
          u \<leftarrow> ExtractUserKey k;
          (found, d) \<leftarrow> skip_current_key U I (d\<lparr>di_saved_key := u\<rparr>);
          if found then FindPrevUserEntry U I (d\<lparr>di_direction := kReverse\<rparr>) else Some d }
        else None
      else FindPrevUserEntry U I d)
   else None)"

definition db_Seek :: "Comparator \<Rightarrow> 's Iterator \<Rightarrow> byte list \<Rightarrow> 's DBIter \<Rightarrow> 's DBIter option" where
  "db_Seek U I target d = do {
     let d = ClearSavedValue (d\<lparr>di_direction := kForward\<rparr>);
     k \<leftarrow> AppendInternalKey [] \<lparr>pk_user_key = target, pk_sequence = di_sequence d, pk_type = kValueTypeForSeek\<rparr>;
     d \<leftarrow> on_iter (it_Seek I k) (d\<lparr>di_saved_key := k\<rparr>);
     if it_Valid I (di_iter d) then FindNextUserEntry U I False d else Some (d\<lparr>di_valid := False\<rparr>) }"

definition db_SeekToFirst :: "Comparator \<Rightarrow> 's Iterator \<Rightarrow> 's DBIter \<Rightarrow> 's DBIter option" where
  "db_SeekToFirst U I d = do {
     let d = ClearSavedValue (d\<lparr>di_direction := kForward\<rparr>);
     d \<leftarrow> on_iter (it_SeekToFirst I) d;
     if it_Valid I (di_iter d) then FindNextUserEntry U I False d else Some (d\<lparr>di_valid := False\<rparr>) }"

definition db_SeekToLast :: "Comparator \<Rightarrow> 's Iterator \<Rightarrow> 's DBIter \<Rightarrow> 's DBIter option" where
  "db_SeekToLast U I d = do {
     let d = ClearSavedValue (d\<lparr>di_direction := kReverse\<rparr>);
     d \<leftarrow> on_iter (it_SeekToLast I) d;
     FindPrevUserEntry U I d }"

definition db_key :: "'s Iterator \<Rightarrow> 's DBIter \<Rightarrow> byte list option" where
  "db_key I d = (if di_valid d then
     (if di_direction d = kForward then do { k \<leftarrow> it_key I (di_iter d); ExtractUserKey k } else Some (di_saved_key d))
   else None)"

definition db_value :: "'s Iterator \<Rightarrow> 's DBIter \<Rightarrow> byte list option" where
  "db_value I d = (if di_valid d then
     (if di_direction d = kForward then it_value I (di_iter d) else Some (di_saved_value d))
   else None)"

definition db_status :: "'s Iterator \<Rightarrow> 's DBIter \<Rightarrow> Status option" where
  "db_status I d = (if ok (di_status d) then it_status I (di_iter d) else Some (di_status d))"

definition DbIterator :: "Comparator \<Rightarrow> 's Iterator \<Rightarrow> 's DBIter Iterator" where
  "DbIterator U I = \<lparr>it_Valid = di_valid, it_SeekToFirst = db_SeekToFirst U I, it_SeekToLast = db_SeekToLast U I,
     it_Seek = db_Seek U I, it_Next = db_Next U I, it_Prev = db_Prev U I, it_key = db_key I, it_value = db_value I,
     it_status = db_status I\<rparr>"

section \<open>What a snapshot sees\<close>

text \<open>The user key and the other parts of an internal key, for keys that can be parsed.\<close>

definition user_key_of :: "entry \<Rightarrow> byte list" where
  "user_key_of e = take (length (fst e) - 8) (fst e)"

definition eligible :: "SequenceNumber \<Rightarrow> entry \<Rightarrow> bool" where
  "eligible s e \<longleftrightarrow> (case ParseInternalKey (fst e) of None \<Rightarrow> False | Some k \<Rightarrow> pk_sequence k \<le> s)"

definition is_value :: "entry \<Rightarrow> bool" where
  "is_value e \<longleftrightarrow> (case ParseInternalKey (fst e) of None \<Rightarrow> False | Some k \<Rightarrow> pk_type k = kTypeValue)"

text \<open>An entry is shown if it is a value that the snapshot sees and no newer one for its user key is seen.\<close>

definition shown :: "Comparator \<Rightarrow> SequenceNumber \<Rightarrow> entry list \<Rightarrow> nat \<Rightarrow> bool" where
  "shown U s es i \<longleftrightarrow> eligible s (es ! i) \<and> is_value (es ! i) \<and>
     (\<forall>j < i. eligible s (es ! j) \<longrightarrow> key_less U (user_key_of (es ! j)) (user_key_of (es ! i)))"

definition shown_positions :: "Comparator \<Rightarrow> SequenceNumber \<Rightarrow> entry list \<Rightarrow> nat list" where
  "shown_positions U s es = filter (shown U s es) [0..<length es]"

definition visible :: "Comparator \<Rightarrow> SequenceNumber \<Rightarrow> entry list \<Rightarrow> entry list" where
  "visible U s es = map (\<lambda>i. (user_key_of (es ! i), snd (es ! i))) (shown_positions U s es)"

text \<open>Internal entries: valid user keys, in the internal order, and no key or value as long as an address space.\<close>

definition internal_entries :: "Comparator \<Rightarrow> (byte list \<Rightarrow> bool) \<Rightarrow> entry list \<Rightarrow> bool" where
  "internal_entries U valid es \<longleftrightarrow> (\<forall>e \<in> set es. ParseInternalKey (fst e) \<noteq> None \<and> valid (user_key_of e) \<and>
       length (fst e) + length (snd e) < 2 ^ 63) \<and>
     sorted_wrt (\<lambda>a b. key_less (InternalKeyComparator U) (fst a) (fst b)) es"

text \<open>The last entry before \<open>i\<close> that the snapshot sees.\<close>

definition prev_eligible :: "SequenceNumber \<Rightarrow> entry list \<Rightarrow> nat \<Rightarrow> nat" where
  "prev_eligible s es i = (let js = filter (\<lambda>j. eligible s (es ! j)) [0..<i] in if js = [] then length es else last js)"

definition rank :: "Comparator \<Rightarrow> SequenceNumber \<Rightarrow> entry list \<Rightarrow> nat \<Rightarrow> nat" where
  "rank U s es b = length (filter (shown U s es) [0..<b])"

lemma rank_Suc: "rank U s es (Suc r) = (if shown U s es r then Suc (rank U s es r) else rank U s es r)"
  by (simp add: rank_def)

lemma rank_same: "a \<le> b \<Longrightarrow> (\<And>i. a \<le> i \<Longrightarrow> i < b \<Longrightarrow> \<not> shown U s es i) \<Longrightarrow> rank U s es b = rank U s es a"
  by (induction b rule: nat_induct_at_least) (simp_all add: rank_Suc)

lemma rank_mono: "a \<le> b \<Longrightarrow> rank U s es a \<le> rank U s es b"
  by (induction b rule: nat_induct_at_least) (auto simp: rank_Suc)

lemma rank_all: "rank U s es (length es) = length (shown_positions U s es)"
  by (simp add: rank_def shown_positions_def)

lemma upt_split: "r < n \<Longrightarrow> [0..<n] = [0..<r] @ r # [Suc r..<n]"
  using upt_add_eq_append [of 0 r "n - r"] upt_conv_Cons [of r n] by simp

lemma rank_shown:
  assumes "shown U s es r" "r < length es"
  shows "rank U s es r < length (shown_positions U s es)" "shown_positions U s es ! rank U s es r = r"
proof -
  have "[0..<length es] = [0..<r] @ r # [Suc r..<length es]"
    using assms(2) by (rule upt_split)
  then have "shown_positions U s es = filter (shown U s es) [0..<r] @ r # filter (shown U s es) [Suc r..<length es]"
    using assms(1) by (simp add: shown_positions_def)
  then show "rank U s es r < length (shown_positions U s es)" "shown_positions U s es ! rank U s es r = r"
    by (simp_all add: rank_def)
qed

lemma shown_position:
  assumes "p < length (shown_positions U s es)" "i = shown_positions U s es ! p"
  shows "shown U s es i" "i < length es" "rank U s es i = p"
proof -
  have "i \<in> set (shown_positions U s es)" using assms by simp
  then show i: "shown U s es i" "i < length es" by (auto simp: shown_positions_def)
  have "distinct (shown_positions U s es)" by (simp add: shown_positions_def)
  then show "rank U s es i = p" using rank_shown [OF i] assms nth_eq_iff_index_eq by metis
qed

lemma length_visible [simp]: "length (visible U s es) = length (shown_positions U s es)"
  by (simp add: visible_def)

lemma nth_visible: "p < length (shown_positions U s es) \<Longrightarrow> visible U s es ! p =
    (user_key_of (es ! (shown_positions U s es ! p)), snd (es ! (shown_positions U s es ! p)))"
  by (simp add: visible_def)

text \<open>The user keys that a snapshot sees ascend strictly.\<close>

lemma length_visible_le: "length (visible U s es) \<le> length es"
  using length_filter_le [of "shown U s es" "[0..<length es]"] by (simp add: shown_positions_def)

lemma visible_sorted: "sorted_wrt (\<lambda>a b. key_less U (fst a) (fst b)) (visible U s es)"
proof -
  have "sorted_wrt (<) (shown_positions U s es)" by (simp add: shown_positions_def sorted_wrt_filter)
  then have "sorted_wrt (\<lambda>i j. key_less U (user_key_of (es ! i)) (user_key_of (es ! j))) (shown_positions U s es)"
    by (rule sorted_wrt_mono_rel [rotated]) (auto simp: shown_positions_def shown_def)
  then show ?thesis by (simp add: visible_def sorted_wrt_map)
qed

lemma prev_eligible_at:
  assumes "q < i" "eligible s (es ! q)" "\<And>j. q < j \<Longrightarrow> j < i \<Longrightarrow> \<not> eligible s (es ! j)"
  shows "prev_eligible s es i = q"
proof -
  have "[0..<i] = [0..<q] @ q # [Suc q..<i]" using assms(1) by (rule upt_split)
  moreover have "filter (\<lambda>j. eligible s (es ! j)) [Suc q..<i] = []" using assms(3) by simp
  ultimately show ?thesis using assms(2) by (simp add: prev_eligible_def)
qed

lemma prev_eligible_none: "(\<And>j. j < i \<Longrightarrow> \<not> eligible s (es ! j)) \<Longrightarrow> prev_eligible s es i = length es"
  by (simp add: prev_eligible_def)

lemma prev_eligible_cases:
  assumes "q = prev_eligible s es i"
  obtains "q < i" "eligible s (es ! q)" "\<And>j. q < j \<Longrightarrow> j < i \<Longrightarrow> \<not> eligible s (es ! j)"
  | "q = length es" "\<And>j. j < i \<Longrightarrow> \<not> eligible s (es ! j)"
proof (cases "\<exists>j < i. eligible s (es ! j)")
  case True
  define m where "m = Max {j. j < i \<and> eligible s (es ! j)}"
  have m: "m < i" "eligible s (es ! m)" using Max_in [of "{j. j < i \<and> eligible s (es ! j)}"] True by (auto simp: m_def)
  have "\<not> eligible s (es ! j)" if "m < j" "j < i" for j
  proof
    assume "eligible s (es ! j)"
    then have "j \<le> m" unfolding m_def using that(2) by (intro Max_ge) auto
    then show False using that(1) by simp
  qed
  then show thesis using that(1) m prev_eligible_at [of m i s es] assms by auto
next
  case False
  then show thesis using that(2) prev_eligible_none [of i s es] assms by auto
qed

section \<open>Sampling\<close>

text \<open>The fields that neither sampling nor moving changes.\<close>

definition db_base :: "SequenceNumber \<Rightarrow> 's DBIter \<Rightarrow> bool" where
  "db_base s d \<longleftrightarrow> di_sequence d = s \<and> di_status d = OK \<and> random_ok (di_rnd d)"

lemma db_base_update [simp]:
  "db_base s (d\<lparr>di_iter := it\<rparr>) = db_base s d" "db_base s (d\<lparr>di_valid := v\<rparr>) = db_base s d"
  "db_base s (d\<lparr>di_saved_key := k\<rparr>) = db_base s d" "db_base s (d\<lparr>di_saved_value := k\<rparr>) = db_base s d"
  "db_base s (d\<lparr>di_direction := x\<rparr>) = db_base s d"
  by (simp_all add: db_base_def)

lemma RandomCompactionPeriod_eq:
  "RandomCompactionPeriod rnd = (ucast (Random_Next rnd mod 2097152), Random_Next rnd)"
  by (simp add: RandomCompactionPeriod_def Uniform_def kReadBytesPeriod_def Let_def)

text \<open>The loop ends, since no two periods in a row are zero.\<close>

lemma sample_reads_ends:
  assumes "random_ok (di_rnd d)" "unat bytes_read < 2 ^ 63"
  shows "\<exists>r b x. sample_reads k bytes_read d = Some (d\<lparr>di_rnd := r, di_bytes_until_read_sampling := b, di_samples := x\<rparr>) \<and>
    random_ok r \<and> bytes_read \<le> b"
  using assms(1)
proof (induction "2 * (unat bytes_read - unat (di_bytes_until_read_sampling d)) +
    (if unat (Random_Next (di_rnd d)) mod 2097152 = 0 then 1 else 0 :: nat)" arbitrary: d rule: less_induct)
  case less
  let ?b = "di_bytes_until_read_sampling d" and ?r = "Random_Next (di_rnd d)"
  show ?case
  proof (cases "?b < bytes_read")
    case True
    define n where "n = unat ?r mod 2097152"
    have n: "unat (ucast (?r mod 2097152) :: u64) = n" "n < 2097152" by (simp_all add: n_def unat_mod)
    have lt: "unat ?b < unat bytes_read" using True by (simp add: word_less_nat_alt)
    define b' where "b' = ?b + ucast (?r mod 2097152)"
    have b': "unat b' = unat ?b + n"
      using n lt assms(2) by (subst b'_def, subst unat_add_small) simp_all
    let ?d = "d\<lparr>di_rnd := ?r, di_bytes_until_read_sampling := b', di_samples := di_samples d @ [k]\<rparr>"
    have ok: "random_ok ?r" using less.prems by (rule Random_Next_ok)
    have "2 * (unat bytes_read - unat b') + (if unat (Random_Next ?r) mod 2097152 = 0 then 1 else 0) <
        2 * (unat bytes_read - unat ?b) + (if unat ?r mod 2097152 = 0 then 1 else 0 :: nat)"
    proof (cases "n = 0")
      case zero: True
      then have "unat (Random_Next ?r) mod 2097152 \<noteq> 0" using Random_low_bits [OF ok] by (simp add: n_def)
      then show ?thesis using zero b' by (simp add: n_def)
    next
      case False
      then have "2 * (unat bytes_read - unat b') + 2 \<le> 2 * (unat bytes_read - unat ?b)" using b' lt by linarith
      then show ?thesis by (auto split: if_splits)
    qed
    then have "\<exists>r b x. sample_reads k bytes_read ?d = Some (?d\<lparr>di_rnd := r, di_bytes_until_read_sampling := b, di_samples := x\<rparr>) \<and>
        random_ok r \<and> bytes_read \<le> b"
      using less.hyps [of ?d] ok by simp
    moreover have "sample_reads k bytes_read d = sample_reads k bytes_read ?d"
      using True by (subst sample_reads.simps) (simp add: RandomCompactionPeriod_eq b'_def)
    ultimately show ?thesis by auto
  next
    case False
    then have "sample_reads k bytes_read d = Some d" by (subst sample_reads.simps) simp
    then show ?thesis using less.prems False
      by (intro exI [of _ "di_rnd d"] exI [of _ ?b] exI [of _ "di_samples d"]) (simp add: linorder_not_less)
  qed
qed

section \<open>The entries\<close>

definition db_at :: "Comparator \<Rightarrow> SequenceNumber \<Rightarrow> entry list \<Rightarrow> ('s \<Rightarrow> nat \<Rightarrow> bool) \<Rightarrow> 's DBIter \<Rightarrow> nat \<Rightarrow> bool" where
  "db_at U s es at d p \<longleftrightarrow> p \<le> length (visible U s es) \<and> db_base s d \<and> di_valid d = (p < length (visible U s es)) \<and>
     (\<exists>q. at (di_iter d) q \<and> (p < length (visible U s es) \<longrightarrow> (let i = shown_positions U s es ! p in
       if di_direction d = kForward then q = i
       else di_saved_key d = user_key_of (es ! i) \<and> di_saved_value d = snd (es ! i) \<and> q = prev_eligible s es i)))"

text \<open>Moving forward at \<open>r\<close>, with everything before \<open>b\<close> passed: a value is hidden if and only if the snapshot sees an
  entry for its user key before \<open>b\<close>.\<close>

definition scanning :: "Comparator \<Rightarrow> (byte list \<Rightarrow> bool) \<Rightarrow> SequenceNumber \<Rightarrow> entry list \<Rightarrow> nat \<Rightarrow> nat \<Rightarrow> bool \<Rightarrow> byte list \<Rightarrow> bool" where
  "scanning U valid s es b r skipping k \<longleftrightarrow> r \<le> b \<and> b \<le> length es \<and> (skipping \<longrightarrow> valid k) \<and>
     (\<forall>j. r \<le> j \<longrightarrow> j < b \<longrightarrow> eligible s (es ! j) \<longrightarrow> is_value (es ! j)) \<and>
     (\<forall>j. r \<le> j \<longrightarrow> j < length es \<longrightarrow> eligible s (es ! j) \<longrightarrow>
       (skipping \<and> key_le U (user_key_of (es ! j)) k \<longleftrightarrow>
         (\<exists>i < b. eligible s (es ! i) \<and> \<not> key_less U (user_key_of (es ! i)) (user_key_of (es ! j)))))"

text \<open>Moving back, with everything from \<open>c\<close> to \<open>c0\<close> passed: nothing in there is shown, or only the first entry
  that the snapshot sees there, which is the one that is saved.\<close>

definition backing :: "Comparator \<Rightarrow> SequenceNumber \<Rightarrow> entry list \<Rightarrow> nat \<Rightarrow> nat \<Rightarrow> ValueType \<Rightarrow> 's DBIter \<Rightarrow> bool" where
  "backing U s es c0 c vt d \<longleftrightarrow> c \<le> c0 \<and> c0 \<le> length es \<and>
     (case vt of kTypeDeletion \<Rightarrow> \<forall>i. c \<le> i \<longrightarrow> i < c0 \<longrightarrow> \<not> shown U s es i
      | kTypeValue \<Rightarrow> \<exists>m. c \<le> m \<and> m < c0 \<and> eligible s (es ! m) \<and> is_value (es ! m) \<and>
          (\<forall>j. c \<le> j \<longrightarrow> j < m \<longrightarrow> \<not> eligible s (es ! j)) \<and> (\<forall>i. m < i \<longrightarrow> i < c0 \<longrightarrow> \<not> shown U s es i) \<and>
          di_saved_key d = user_key_of (es ! m) \<and> di_saved_value d = snd (es ! m))"

text \<open>The last shown entry before \<open>c0\<close> is saved.\<close>

definition saved_last :: "Comparator \<Rightarrow> SequenceNumber \<Rightarrow> entry list \<Rightarrow> nat \<Rightarrow> 's DBIter \<Rightarrow> nat \<Rightarrow> bool" where
  "saved_last U s es c0 d m \<longleftrightarrow> shown U s es m \<and> m < c0 \<and> (\<forall>i. m < i \<longrightarrow> i < c0 \<longrightarrow> \<not> shown U s es i) \<and>
     di_saved_key d = user_key_of (es ! m) \<and> di_saved_value d = snd (es ! m)"

definition searched :: "Comparator \<Rightarrow> SequenceNumber \<Rightarrow> entry list \<Rightarrow> ('s \<Rightarrow> nat \<Rightarrow> bool) \<Rightarrow> nat \<Rightarrow> ValueType \<Rightarrow> 's DBIter \<Rightarrow> bool" where
  "searched U s es at c0 vt d \<longleftrightarrow> db_base s d \<and> (\<exists>q. at (di_iter d) q) \<and>
     (case vt of kTypeDeletion \<Rightarrow> \<forall>i < c0. \<not> shown U s es i
      | kTypeValue \<Rightarrow> \<exists>m. saved_last U s es c0 d m \<and> at (di_iter d) (prev_eligible s es m))"

lemma saved_update [simp]:
  "backing U s es c0 c vt (d\<lparr>di_iter := it\<rparr>) = backing U s es c0 c vt d" "saved_last U s es c0 (d\<lparr>di_iter := it\<rparr>) m = saved_last U s es c0 d m"
  "backing U s es c0 c vt (d\<lparr>di_rnd := r, di_bytes_until_read_sampling := b, di_samples := x\<rparr>) = backing U s es c0 c vt d"
  by (cases vt; simp add: backing_def saved_last_def)+

locale db_iterator = comparator U valid + iterator I "InternalKeyComparator U" es "internal_valid valid" at
  for U :: Comparator and valid and I :: "'s Iterator" and es :: "entry list" and at +
  fixes s :: SequenceNumber
  assumes entries: "internal_entries U valid es" and snapshot: "s \<le> kMaxSequenceNumber"
begin

lemma entry_parsed:
  assumes "i < length es"
  obtains k where "ParseInternalKey (fst (es ! i)) = Some k" "pk_user_key k = user_key_of (es ! i)"
    "eligible s (es ! i) \<longleftrightarrow> pk_sequence k \<le> s" "is_value (es ! i) \<longleftrightarrow> pk_type k = kTypeValue"
    "ExtractUserKey (fst (es ! i)) = Some (user_key_of (es ! i))" "valid (user_key_of (es ! i))"
proof -
  have i: "ParseInternalKey (fst (es ! i)) \<noteq> None" "valid (user_key_of (es ! i))"
    using entries assms by (auto simp: internal_entries_def)
  then obtain k where k: "ParseInternalKey (fst (es ! i)) = Some k" by auto
  then have "8 \<le> length (fst (es ! i))" "pk_user_key k = user_key_of (es ! i)"
    by (auto simp: ParseInternalKey_def user_key_of_def Let_def bind_Some_iff split: if_splits)
  then show thesis using that [of k] k i by (simp add: eligible_def is_value_def ExtractUserKey_def user_key_of_def)
qed

lemma entry_ikey:
  assumes "i < length es"
  obtains n where "fst (es ! i) = ikey (user_key_of (es ! i)) n"
proof -
  obtain u where "ExtractUserKey (fst (es ! i)) = Some u" using entry_parsed [OF assms] by blast
  then have "8 \<le> length (fst (es ! i))" by (simp add: ExtractUserKey_def split: if_splits)
  then obtain u n where "fst (es ! i) = ikey u n" using ikey_cases by blast
  then show thesis using that [of n] by (simp add: user_key_of_def)
qed

lemma user_valid: "i < length es \<Longrightarrow> valid (user_key_of (es ! i))"
  using entry_parsed [of i] by blast

lemma user_le:
  assumes "i \<le> j" "j < length es"
  shows "key_le U (user_key_of (es ! i)) (user_key_of (es ! j))"
proof (cases "i = j")
  case True
  then show ?thesis using le_refl user_valid assms(2) by simp
next
  case False
  then have ij: "i < j" "i < length es" using assms by auto
  obtain m where m: "fst (es ! i) = ikey (user_key_of (es ! i)) m" using entry_ikey ij(2) by blast
  obtain n where n: "fst (es ! j) = ikey (user_key_of (es ! j)) n" using entry_ikey assms(2) by blast
  have "key_less (InternalKeyComparator U) (fst (es ! i)) (fst (es ! j))"
    using entries ij assms(2) by (auto simp: internal_entries_def sorted_wrt_iff_nth_less)
  then show ?thesis
    using internal_less [OF user_valid [OF ij(2)] user_valid [OF assms(2)], of m n] m n less_imp_le by auto
qed

lemma user_less_trans:
  assumes "key_less U (user_key_of (es ! i)) (user_key_of (es ! j))" "i' \<le> i" "j \<le> j'" "i < length es" "j' < length es"
  shows "key_less U (user_key_of (es ! i')) (user_key_of (es ! j'))"
proof -
  have v: "valid (user_key_of (es ! i))" "valid (user_key_of (es ! j))" "valid (user_key_of (es ! i'))" "valid (user_key_of (es ! j'))"
    using user_valid assms by auto
  show ?thesis
    using le_less_trans [OF v(3,1,2) user_le [OF assms(2,4)] assms(1)] less_le_trans [OF v(3,2,4) _ user_le [OF assms(3,5)]] by blast
qed

lemma db_ParseKey_at:
  assumes "at (di_iter d) i" "i < length es" "db_base s d"
  obtains k r b x where "db_ParseKey I d = Some (Some k, d\<lparr>di_rnd := r, di_bytes_until_read_sampling := b, di_samples := x\<rparr>)"
    "random_ok r" "ParseInternalKey (fst (es ! i)) = Some k"
proof -
  let ?n = "of_nat (length (fst (es ! i))) + of_nat (length (snd (es ! i))) :: u64"
  have "length (fst (es ! i)) + length (snd (es ! i)) < 2 ^ 63" using entries assms(2) by (auto simp: internal_entries_def)
  then have n: "unat ?n < 2 ^ 63" by (simp add: unat_of_nat_small flip: of_nat_add)
  obtain r b x where s: "sample_reads (fst (es ! i)) ?n d = Some (d\<lparr>di_rnd := r, di_bytes_until_read_sampling := b, di_samples := x\<rparr>)"
      "random_ok r"
    using sample_reads_ends [OF _ n, of d "fst (es ! i)"] assms(3) by (auto simp: db_base_def)
  obtain k where k: "ParseInternalKey (fst (es ! i)) = Some k" using entry_parsed [OF assms(2)] by blast
  then show thesis
    using that [where k = k and r = r and b = "b - ?n" and x = x] s by (simp add: db_ParseKey_def key_eq [OF assms(1,2)] value_eq [OF assms(1,2)] Let_def)
qed

section \<open>Forward\<close>

lemma rank_passed:
  assumes "r \<le> b" "r < b \<or> \<not> shown U s es r"
  shows "rank U s es (max b (Suc r)) = rank U s es b"
proof (cases "r < b")
  case True
  then show ?thesis by (simp add: max_absorb1)
next
  case False
  then show ?thesis using assms by (simp add: rank_Suc)
qed

lemma scanning_step:
  assumes "scanning U valid s es b r skipping k" "r < length es"
    and "eligible s (es ! r) \<Longrightarrow> is_value (es ! r) \<and> skipping \<and> key_le U (user_key_of (es ! r)) k"
  shows "scanning U valid s es (max b (Suc r)) (Suc r) skipping k \<and> rank U s es (max b (Suc r)) = rank U s es b"
proof -
  let ?seen = "\<lambda>b j. \<exists>i < b. eligible s (es ! i) \<and> \<not> key_less U (user_key_of (es ! i)) (user_key_of (es ! j))"
  have sc: "r \<le> b" "b \<le> length es" "skipping \<longrightarrow> valid k" "\<And>j. r \<le> j \<Longrightarrow> j < b \<Longrightarrow> eligible s (es ! j) \<Longrightarrow> is_value (es ! j)"
    "\<And>j. r \<le> j \<Longrightarrow> j < length es \<Longrightarrow> eligible s (es ! j) \<Longrightarrow> skipping \<and> key_le U (user_key_of (es ! j)) k \<longleftrightarrow> ?seen b j"
    using assms(1) by (auto simp: scanning_def)
  have "r < b \<or> \<not> shown U s es r"
    using sc(5) [of r] assms(2,3) sc(1) by (fastforce simp: shown_def)
  moreover have "?seen (max b (Suc r)) j \<longleftrightarrow> ?seen b j" if j: "r < j" "j < length es" "eligible s (es ! j)" for j
  proof -
    have "?seen b j" if r: "eligible s (es ! r)" "\<not> key_less U (user_key_of (es ! r)) (user_key_of (es ! j))"
    proof -
      have "key_le U (user_key_of (es ! j)) (user_key_of (es ! r))" using not_less user_valid assms(2) j(2) r(2) by blast
      then have "skipping \<and> key_le U (user_key_of (es ! j)) k"
        using compare_trans [of _ "user_key_of (es ! r)" k] assms(3) r(1) sc(3) user_valid assms(2) j(2) by blast
      then show ?thesis using sc(5) [of j] j by auto
    qed
    moreover have "i < max b (Suc r) \<longleftrightarrow> i < b \<or> i = r" for i using sc(1) by auto
    ultimately show ?thesis by metis
  qed
  ultimately show ?thesis
    using sc assms(2) rank_passed [OF sc(1)] unfolding scanning_def by (auto simp: max_def split: if_splits)
qed

lemma scanning_restart:
  assumes "r < length es" "eligible s (es ! r)"
  shows "scanning U valid s es (Suc r) (Suc r) True (user_key_of (es ! r))"
proof -
  have "key_le U (user_key_of (es ! j)) (user_key_of (es ! r)) \<longleftrightarrow>
      (\<exists>i < Suc r. eligible s (es ! i) \<and> \<not> key_less U (user_key_of (es ! i)) (user_key_of (es ! j)))"
    if j: "Suc r \<le> j" "j < length es" for j
  proof
    assume "key_le U (user_key_of (es ! j)) (user_key_of (es ! r))"
    then have "\<not> key_less U (user_key_of (es ! r)) (user_key_of (es ! j))" using not_le user_valid assms(1) j(2) by blast
    then show "\<exists>i < Suc r. eligible s (es ! i) \<and> \<not> key_less U (user_key_of (es ! i)) (user_key_of (es ! j))"
      using assms(2) by blast
  next
    assume "\<exists>i < Suc r. eligible s (es ! i) \<and> \<not> key_less U (user_key_of (es ! i)) (user_key_of (es ! j))"
    then have "\<not> key_less U (user_key_of (es ! r)) (user_key_of (es ! j))"
      using user_less_trans [OF _ _ _ assms(1) j(2)] by fastforce
    then show "key_le U (user_key_of (es ! j)) (user_key_of (es ! r))" using not_less user_valid assms(1) j(2) by blast
  qed
  then show ?thesis using assms user_valid by (auto simp: scanning_def)
qed

text \<open>One round of the loop.\<close>

lemma next_entry_at:
  assumes "scanning U valid s es b r skipping (di_saved_key d)" "r < length es" "db_base s d" "ParseInternalKey (fst (es ! r)) = Some k"
  obtains (found) "next_entry U (Some k) skipping d = Some (True, skipping, d\<lparr>di_valid := True, di_saved_key := []\<rparr>)"
      "shown U s es r" "b = r"
  | (skip) skipping' key where "next_entry U (Some k) skipping d = Some (False, skipping', d\<lparr>di_saved_key := key\<rparr>)"
      "scanning U valid s es (max b (Suc r)) (Suc r) skipping' key" "rank U s es (max b (Suc r)) = rank U s es b"
proof -
  have k: "pk_user_key k = user_key_of (es ! r)" "eligible s (es ! r) \<longleftrightarrow> pk_sequence k \<le> s"
      "is_value (es ! r) \<longleftrightarrow> pk_type k = kTypeValue" and v: "valid (user_key_of (es ! r))"
    using entry_parsed [OF assms(2)] assms(4) by auto
  have sq: "di_sequence d = s" using assms(3) by (simp add: db_base_def)
  have sc: "r \<le> b" "b \<le> length es" "skipping \<Longrightarrow> valid (di_saved_key d)" "r < b \<Longrightarrow> eligible s (es ! r) \<Longrightarrow> is_value (es ! r)"
    "eligible s (es ! r) \<Longrightarrow> skipping \<and> key_le U (user_key_of (es ! r)) (di_saved_key d) \<longleftrightarrow>
       (\<exists>i < b. eligible s (es ! i) \<and> \<not> key_less U (user_key_of (es ! i)) (user_key_of (es ! r)))"
    using assms(1,2) unfolding scanning_def by blast+
  show thesis
  proof (cases "eligible s (es ! r) \<and> \<not> (is_value (es ! r) \<and> skipping \<and> key_le U (user_key_of (es ! r)) (di_saved_key d))")
    case False
    then obtain "scanning U valid s es (max b (Suc r)) (Suc r) skipping (di_saved_key d)" "rank U s es (max b (Suc r)) = rank U s es b"
      using scanning_step [OF assms(1,2)] by blast
    moreover have "next_entry U (Some k) skipping d = Some (False, skipping, d)"
      using False k sq by (auto simp: next_entry_def key_le_def split: ValueType.splits)
    ultimately show thesis using skip [of skipping "di_saved_key d"] by simp
  next
    case new: True
    show thesis
    proof (cases "is_value (es ! r)")
      case True
      then have not: "\<not> (\<exists>i < b. eligible s (es ! i) \<and> \<not> key_less U (user_key_of (es ! i)) (user_key_of (es ! r)))" using sc(5) new by blast
      then have "b = r" using sc(1) new less_irrefl [OF v] by (metis le_neq_implies_less)
      moreover have "shown U s es r" using True new not calculation by (auto simp: shown_def)
      moreover have "next_entry U (Some k) skipping d = Some (True, skipping, d\<lparr>di_valid := True, di_saved_key := []\<rparr>)"
        using True new k sq compare_total [OF v sc(3)] by (auto simp: next_entry_def key_le_def)
      ultimately show thesis using found by blast
    next
      case False
      then have "b = r" using sc(1,4) new by (metis le_neq_implies_less)
      moreover have "rank U s es (Suc r) = rank U s es r" using False by (simp add: rank_Suc shown_def)
      moreover have "next_entry U (Some k) skipping d = Some (False, True, d\<lparr>di_saved_key := user_key_of (es ! r)\<rparr>)"
        using False new k sq by (cases "pk_type k") (auto simp: next_entry_def)
      ultimately show thesis using skip scanning_restart [OF assms(2)] new by simp
    qed
  qed
qed

lemma db_at_found:
  "db_base s d \<Longrightarrow> shown U s es r \<Longrightarrow> r < length es \<Longrightarrow> at (di_iter d) r \<Longrightarrow> di_valid d \<Longrightarrow> di_direction d = kForward \<Longrightarrow>
    db_at U s es at d (rank U s es r)"
  using rank_shown [of U s es r] by (auto simp: db_at_def)

lemma db_at_end: "db_base s d \<Longrightarrow> at (di_iter d) q \<Longrightarrow> \<not> di_valid d \<Longrightarrow> db_at U s es at d (length (visible U s es))"
  by (auto simp: db_at_def)

lemma next_entry_loop_at:
  assumes "scanning U valid s es b r skipping (di_saved_key d)" "r < length es" "db_base s d" "at (di_iter d) r" "di_direction d = kForward"
  shows "\<exists>d'. next_entry_loop U I skipping d = Some d' \<and> db_at U s es at d' (rank U s es b)"
  using assms
proof (induction "length es - r" arbitrary: b r skipping d)
  case (Suc n)
  obtain k rnd bytes x where p: "db_ParseKey I d = Some (Some k, d\<lparr>di_rnd := rnd, di_bytes_until_read_sampling := bytes, di_samples := x\<rparr>)"
      "random_ok rnd" "ParseInternalKey (fst (es ! r)) = Some k"
    by (rule db_ParseKey_at [OF Suc.prems(4,2,3)])
  define d1 where "d1 = d\<lparr>di_rnd := rnd, di_bytes_until_read_sampling := bytes, di_samples := x\<rparr>"
  have d1: "db_base s d1" "at (di_iter d1) r" "di_direction d1 = kForward" "scanning U valid s es b r skipping (di_saved_key d1)"
    using Suc.prems p(2) by (simp_all add: d1_def db_base_def)
  have parse: "db_ParseKey I d = Some (Some k, d1)" using p(1) by (simp add: d1_def)
  show ?case
  proof (rule next_entry_at [OF d1(4) Suc.prems(2) d1(1) p(3)], goal_cases)
    case 1
    then have "next_entry_loop U I skipping d = Some (d1\<lparr>di_valid := True, di_saved_key := []\<rparr>)"
      using parse by (subst next_entry_loop.simps) simp
    then show ?case using 1 d1 Suc.prems(2) by (auto intro!: db_at_found)
  next
    case (2 skipping' key)
    obtain it where it: "it_Next I (di_iter d1) = Some it" "at it (Suc r)" using next_at d1(2) Suc.prems(2) by blast
    define d2 where "d2 = d1\<lparr>di_saved_key := key, di_iter := it\<rparr>"
    have loop: "next_entry_loop U I skipping d = (if it_Valid I it then next_entry_loop U I skipping' d2
        else Some (d2\<lparr>di_saved_key := [], di_valid := False\<rparr>))"
      using parse 2(1) it(1) by (subst next_entry_loop.simps) (simp add: on_iter_def d2_def)
    show ?case
    proof (cases "Suc r < length es")
      case True
      have "\<exists>d'. next_entry_loop U I skipping' d2 = Some d' \<and> db_at U s es at d' (rank U s es (max b (Suc r)))"
        by (rule Suc.hyps(1)) (use Suc.hyps(2) True 2(2) it d1 in \<open>simp_all add: d2_def\<close>)
      then show ?thesis using loop True it(2) 2(3) by (simp add: valid_iff)
    next
      case False
      then have "max b (Suc r) = length es" using 2(2) by (simp add: scanning_def)
      then have "rank U s es b = length (visible U s es)" using 2(3) rank_all by simp
      moreover have "db_at U s es at (d2\<lparr>di_saved_key := [], di_valid := False\<rparr>) (length (visible U s es))"
        using it(2) d1(1) by (intro db_at_end) (simp_all add: d2_def)
      ultimately show ?thesis using loop False it(2) by (simp add: valid_iff)
    qed
  qed
qed simp

lemma FindNextUserEntry_at:
  assumes "scanning U valid s es b r skipping (di_saved_key d)" "r < length es" "db_base s d" "at (di_iter d) r" "di_direction d = kForward"
  shows "\<exists>d'. FindNextUserEntry U I skipping d = Some d' \<and> db_at U s es at d' (rank U s es b)"
  using next_entry_loop_at [OF assms] assms valid_iff by (simp add: FindNextUserEntry_def)

lemma db_at_base: "db_at U s es at d p \<Longrightarrow> db_base s d \<and> (\<exists>q. at (di_iter d) q)"
  by (auto simp: db_at_def)

text \<open>From a position of the iterator below at which nothing is hidden.\<close>

lemma db_land:
  assumes "db_base s d" "at (di_iter d) r" "di_direction d = kForward" "scanning U valid s es r r False (di_saved_key d)"
  shows "\<exists>d'. (if it_Valid I (di_iter d) then FindNextUserEntry U I False d else Some (d\<lparr>di_valid := False\<rparr>)) = Some d' \<and>
    db_at U s es at d' (rank U s es r)"
proof (cases "r < length es")
  case True
  then show ?thesis using FindNextUserEntry_at [OF assms(4) True assms(1-3)] assms(2) valid_iff by simp
next
  case False
  then have "r = length es" using assms(2) at_le by fastforce
  then have "rank U s es r = length (visible U s es)" using rank_all by simp
  then show ?thesis using assms False valid_iff db_at_end [of "d\<lparr>di_valid := False\<rparr>" r] by (simp add: db_base_def)
qed

lemma db_first: 
  assumes "db_at U s es at d p"
  shows "\<exists>d'. db_SeekToFirst U I d = Some d' \<and> db_at U s es at d' 0"
proof -
  obtain q where d: "db_base s d" "at (di_iter d) q" using db_at_base assms by blast
  then obtain it where it: "it_SeekToFirst I (di_iter d) = Some it" "at it 0" using first_at by blast
  let ?d = "d\<lparr>di_direction := kForward, di_saved_value := [], di_iter := it\<rparr>"
  have "scanning U valid s es 0 0 False (di_saved_key ?d)" by (simp add: scanning_def)
  then show ?thesis
    using db_land [of ?d 0] it d(1) by (simp add: db_SeekToFirst_def on_iter_def ClearSavedValue_def db_base_def rank_def Let_def)
qed

text \<open>The key that \<open>Seek\<close> looks for comes before all entries for its user key that the snapshot sees.\<close>

lemma seek_key_order:
  assumes "valid target" "i < length es"
  shows "key_less (InternalKeyComparator U) (fst (es ! i)) (ikey target (push_bit 8 s OR 1)) \<longleftrightarrow>
    key_less U (user_key_of (es ! i)) target \<or> key_le U (user_key_of (es ! i)) target \<and> \<not> eligible s (es ! i)"
proof -
  obtain k where k: "ParseInternalKey (fst (es ! i)) = Some k" "pk_user_key k = user_key_of (es ! i)" "eligible s (es ! i) \<longleftrightarrow> pk_sequence k \<le> s"
      and v: "valid (user_key_of (es ! i))"
    using entry_parsed [OF assms(2)] by blast
  let ?n = "push_bit 8 (pk_sequence k) OR ValueType_num (pk_type k)"
  have enc: "fst (es ! i) = ikey (user_key_of (es ! i)) ?n" and seq: "unat (pk_sequence k) < 2 ^ 56"
    using Append_Parse [OF k(1)] k(2) by (auto simp: AppendInternalKey_def PackSequenceAndType_eq PutFixed64_def seq_bound split: if_splits)
  have "push_bit 8 s OR 1 < ?n \<longleftrightarrow> s < pk_sequence k"
    using packed_unat [OF seq, of "pk_type k"] packed_unat [of s kTypeValue] snapshot
    by (auto simp: seq_bound word_less_nat_alt ValueType_num_def split: if_splits)
  then show ?thesis
    using internal_less [OF v assms(1), of ?n "push_bit 8 s OR 1"] enc k(3) by auto
qed

lemma rank_lower_bound:
  assumes "valid target" and r: "r = lower_bound (InternalKeyComparator U) es (ikey target (push_bit 8 s OR 1))"
  shows "scanning U valid s es r r False k" "rank U s es r = lower_bound U (visible U s es) target"
proof -
  have rl: "r \<le> length es" unfolding r by (rule lower_bound_le)
  have before: "key_less U (user_key_of (es ! i)) target" if i: "i < r" "eligible s (es ! i)" for i
  proof -
    have "key_less (InternalKeyComparator U) (fst (es ! i)) (ikey target (push_bit 8 s OR 1))"
      using i(1) unfolding r by (rule lower_bound_less)
    then show ?thesis using seek_key_order [OF assms(1), of i] i rl by simp
  qed
  have first: "\<not> key_less U (user_key_of (es ! r)) target" if "r < length es"
    using seek_key_order [OF assms(1), of r] lower_bound_at that unfolding r by blast
  have after: "\<not> key_less U (user_key_of (es ! i)) target" if i: "r \<le> i" "i < length es" for i
    using first le_less_trans [OF _ _ assms(1) user_le [OF i]] user_valid i by auto
  have "key_less U (user_key_of (es ! i)) (user_key_of (es ! j))" if ij: "i < r" "eligible s (es ! i)" "r \<le> j" "j < length es" for i j
  proof -
    have v: "valid (user_key_of (es ! i))" "valid (user_key_of (es ! j))" using user_valid ij by simp_all
    then have "key_le U target (user_key_of (es ! j))" using after [OF ij(3,4)] not_less assms(1) by blast
    then show ?thesis using less_le_trans [OF v(1) assms(1) v(2) before [OF ij(1,2)]] by blast
  qed
  then show "scanning U valid s es r r False k" using rl by (auto simp: scanning_def)
  show "rank U s es r = lower_bound U (visible U s es) target"
  proof (rule lower_bound_eqI [symmetric])
    show "rank U s es r \<le> length (visible U s es)" using rank_mono [OF rl, of U s es] rank_all [of U s es] by simp
  next
    fix p assume p: "p < rank U s es r"
    then have lt: "p < length (shown_positions U s es)" using rank_mono [OF rl, of U s es] rank_all [of U s es] by simp
    note i = shown_position [OF lt refl]
    have "shown_positions U s es ! p < r" using p i(3) rank_mono [of r "shown_positions U s es ! p" U s es] by (metis leD leI)
    then show "key_less U (fst (visible U s es ! p)) target" using before i(1) lt by (simp add: nth_visible shown_def)
  next
    assume lt: "rank U s es r < length (visible U s es)"
    define i where "i = shown_positions U s es ! rank U s es r"
    have i: "shown U s es i" "i < length es" "rank U s es i = rank U s es r"
      using shown_position [OF _ i_def] lt by simp_all
    have "r \<le> i" using rank_mono [of "Suc i" r U s es] i(1,3) by (metis Suc_leI leI not_less_eq_eq order_refl rank_Suc)
    then show "\<not> key_less U (fst (visible U s es ! rank U s es r)) target" using after i(2) lt by (simp add: nth_visible i_def)
  qed
qed

lemma db_seek:
  assumes "db_at U s es at d p" "valid target"
  shows "\<exists>d'. db_Seek U I target d = Some d' \<and> db_at U s es at d' (lower_bound U (visible U s es) target)"
proof -
  obtain q where d: "db_base s d" "at (di_iter d) q" using db_at_base assms(1) by blast
  let ?k = "ikey target (push_bit 8 s OR 1)"
  have k: "AppendInternalKey [] \<lparr>pk_user_key = target, pk_sequence = s, pk_type = kValueTypeForSeek\<rparr> = Some ?k"
    using snapshot by (simp add: AppendInternalKey_def PackSequenceAndType_eq seq_bound PutFixed64_def kValueTypeForSeek_def ValueType_num_def)
  define r where "r = lower_bound (InternalKeyComparator U) es ?k"
  obtain it where it: "it_Seek I ?k (di_iter d) = Some it" "at it r"
    using seek_at [OF d(2), of ?k] assms(2) by (auto simp: r_def)
  let ?d = "d\<lparr>di_direction := kForward, di_saved_value := [], di_saved_key := ?k, di_iter := it\<rparr>"
  have sq: "di_sequence d = s" using d(1) by (simp add: db_base_def)
  show ?thesis
    using db_land [of ?d r] it d(1) k rank_lower_bound(1) [OF assms(2) r_def, of ?k] rank_lower_bound(2) [OF assms(2) r_def]
    by (simp add: db_Seek_def on_iter_def ClearSavedValue_def Let_def sq)
qed

text \<open>Stepping on from a shown entry, at which the iterator below is, or behind the entry that the snapshot saw before it.\<close>

lemma scanning_current:
  assumes "shown U s es i" "i < length es" "r \<le> i" "\<And>j. r \<le> j \<Longrightarrow> j < i \<Longrightarrow> \<not> eligible s (es ! j)"
  shows "scanning U valid s es (Suc i) r True (user_key_of (es ! i))"
proof -
  have i: "eligible s (es ! i)" "is_value (es ! i)" using assms(1) by (simp_all add: shown_def)
  note sc = scanning_restart [OF assms(2) i(1)]
  have "r \<le> j \<Longrightarrow> eligible s (es ! j) \<Longrightarrow> j = i \<or> Suc i \<le> j" for j using assms(4) [of j] by (cases "j < i") auto
  moreover have "key_le U (user_key_of (es ! i)) (user_key_of (es ! i))" "\<not> key_less U (user_key_of (es ! i)) (user_key_of (es ! i))"
    using le_refl less_irrefl user_valid assms(2) by auto
  ultimately show ?thesis using sc assms(2,3) i unfolding scanning_def by (metis Suc_leI le_SucI lessI order.strict_iff_not)
qed

lemma db_next:
  assumes "db_at U s es at d p" "p < length (visible U s es)"
  shows "\<exists>d'. db_Next U I d = Some d' \<and> db_at U s es at d' (Suc p)"
proof -
  define i where "i = shown_positions U s es ! p"
  have i: "shown U s es i" "i < length es" "rank U s es i = p" using shown_position [OF _ i_def] assms(2) by simp_all
  have rank: "rank U s es (Suc i) = Suc p" using i by (simp add: rank_Suc)
  have d: "db_base s d" "di_valid d" using assms by (simp_all add: db_at_def)
  show ?thesis
  proof (cases "di_direction d = kForward")
    case True
    then have at: "at (di_iter d) i" using assms by (auto simp: db_at_def i_def)
    have "ExtractUserKey (fst (es ! i)) = Some (user_key_of (es ! i))" using entry_parsed [OF i(2)] by blast
    then have "db_Next U I d = FindNextUserEntry U I True (d\<lparr>di_saved_key := user_key_of (es ! i)\<rparr>)"
      using True d(2) key_eq [OF at i(2)] by (simp add: db_Next_def)
    moreover have "scanning U valid s es (Suc i) i True (user_key_of (es ! i))"
      by (rule scanning_current [OF i(1,2)]) simp_all
    ultimately show ?thesis
      using FindNextUserEntry_at [of "Suc i" i True "d\<lparr>di_saved_key := user_key_of (es ! i)\<rparr>"] i(2) d(1) at True rank by simp
  next
    case False
    then have rev: "di_direction d = kReverse" by (cases "di_direction d") auto
    have q: "at (di_iter d) (prev_eligible s es i)" "di_saved_key d = user_key_of (es ! i)"
      using assms False by (auto simp: db_at_def i_def Let_def)
    define f where "f = (if \<not> it_Valid I (di_iter d) then it_SeekToFirst I else it_Next I)"
    obtain r it where r: "f (di_iter d) = Some it" "at it r" "r \<le> i" "\<And>j. r \<le> j \<Longrightarrow> j < i \<Longrightarrow> \<not> eligible s (es ! j)"
    proof (rule prev_eligible_cases [OF refl, of s es i], goal_cases)
      case 1
      then have "prev_eligible s es i < length es" using i(2) by simp
      then show ?case using next_at [OF q(1)] valid_iff [OF q(1)] 1 by (auto simp: f_def Suc_le_eq)
    next
      case 2
      then show ?case using first_at [OF q(1)] valid_iff [OF q(1)] by (auto simp: f_def)
    qed
    have "it_Valid I it" using valid_iff r(2,3) i(2) by simp
    then have "db_Next U I d = FindNextUserEntry U I True (d\<lparr>di_direction := kForward, di_iter := it\<rparr>)"
      using rev d(2) r(1) by (auto simp: db_Next_def on_iter_def f_def Let_def split: if_splits)
    moreover have "scanning U valid s es (Suc i) r True (user_key_of (es ! i))"
      by (rule scanning_current [OF i(1,2) r(3,4)])
    ultimately show ?thesis
      using FindNextUserEntry_at [of "Suc i" r True "d\<lparr>di_direction := kForward, di_iter := it\<rparr>"] i(2) d(1) r(2,3) q(2) rank by simp
  qed
qed

section \<open>Backward\<close>

lemma passed_first: "\<forall>i. Suc r \<le> i \<longrightarrow> i < c \<longrightarrow> \<not> P i \<Longrightarrow> \<not> P r \<Longrightarrow> \<forall>i. r \<le> i \<longrightarrow> i < c \<longrightarrow> \<not> P i"
  by (metis Suc_leI le_neq_implies_less)

lemma backing_ineligible:
  assumes "backing U s es c0 (Suc r) vt d" "\<not> eligible s (es ! r)"
  shows "backing U s es c0 r vt d"
proof (cases vt)
  case kTypeDeletion
  have "\<not> shown U s es r" using assms(2) by (simp add: shown_def)
  then show ?thesis using assms(1) kTypeDeletion passed_first [where P = "shown U s es" and r = r and c = c0] by (simp add: backing_def)
next
  case kTypeValue
  then obtain m where m: "Suc r \<le> m" "m < c0" "c0 \<le> length es" "eligible s (es ! m)" "is_value (es ! m)"
      "\<forall>j. Suc r \<le> j \<longrightarrow> j < m \<longrightarrow> \<not> eligible s (es ! j)"
      "\<forall>i. m < i \<longrightarrow> i < c0 \<longrightarrow> \<not> shown U s es i" "di_saved_key d = user_key_of (es ! m)" "di_saved_value d = snd (es ! m)"
    using assms(1) by (auto simp: backing_def)
  then show ?thesis
    using passed_first [where P = "\<lambda>j. eligible s (es ! j)", OF m(6) assms(2)] kTypeValue
    by (simp add: backing_def) (intro exI [of _ m], simp)
qed

text \<open>An entry that the snapshot sees, unless it ends the search: what is in front of it for its user key is newer.\<close>

lemma backing_eligible:
  assumes "backing U s es c0 (Suc r) vt d" "eligible s (es ! r)"
    and "vt = kTypeValue \<Longrightarrow> \<not> key_less U (user_key_of (es ! r)) (di_saved_key d)"
  shows "\<forall>i. Suc r \<le> i \<longrightarrow> i < c0 \<longrightarrow> \<not> shown U s es i"
proof (cases vt)
  case kTypeDeletion
  then show ?thesis using assms(1) by (simp add: backing_def)
next
  case kTypeValue
  then obtain m where m: "Suc r \<le> m" "m < c0" "\<forall>j. Suc r \<le> j \<longrightarrow> j < m \<longrightarrow> \<not> eligible s (es ! j)"
      "\<forall>i. m < i \<longrightarrow> i < c0 \<longrightarrow> \<not> shown U s es i" "di_saved_key d = user_key_of (es ! m)"
    using assms(1) by (auto simp: backing_def)
  have "\<not> shown U s es m" using assms(2,3) kTypeValue m(1,5) by (auto simp: shown_def Suc_le_eq)
  moreover have "\<not> shown U s es i" if "Suc r \<le> i" "i < m" for i using m(3) that by (simp add: shown_def)
  ultimately show ?thesis using m(4) by (metis linorder_neqE_nat)
qed

lemma saved_lastI:
  assumes "backing U s es c0 (Suc r) kTypeValue d" "eligible s (es ! r)" "key_less U (user_key_of (es ! r)) (di_saved_key d)"
  shows "\<exists>m. saved_last U s es c0 d m \<and> prev_eligible s es m = r"
proof -
  obtain m where m: "Suc r \<le> m" "m < c0" "c0 \<le> length es" "eligible s (es ! m)" "is_value (es ! m)"
      "\<forall>j. Suc r \<le> j \<longrightarrow> j < m \<longrightarrow> \<not> eligible s (es ! j)"
      "\<forall>i. m < i \<longrightarrow> i < c0 \<longrightarrow> \<not> shown U s es i" "di_saved_key d = user_key_of (es ! m)" "di_saved_value d = snd (es ! m)"
    using assms(1) by (auto simp: backing_def)
  have "j \<le> r" if "j < m" "eligible s (es ! j)" for j using m(6) that by (meson not_less_eq_eq)
  then have "shown U s es m"
    using m(1-5) user_less_trans [OF _ _ order_refl] assms(3) m(8) by (fastforce simp: shown_def)
  then show ?thesis using m prev_eligible_at [of r m s es] assms(2) by (auto simp: saved_last_def Suc_le_eq)
qed

lemma saved_last_start: "backing U s es c0 0 kTypeValue d \<Longrightarrow> \<exists>m. saved_last U s es c0 d m \<and> prev_eligible s es m = length es"
  using prev_eligible_none [of _ s es] by (auto simp: backing_def saved_last_def shown_def)

lemma prev_entry_at:
  assumes "backing U s es c0 (Suc r) vt d" "db_base s d" "at (di_iter d) r" "ParseInternalKey (fst (es ! r)) = Some k"
  obtains (found) m where "prev_entry U I (Some k) vt d = Some (True, kTypeValue, d)" "saved_last U s es c0 d m" "prev_eligible s es m = r"
  | (more) vt' sk sv where "prev_entry U I (Some k) vt d = Some (False, vt', d\<lparr>di_saved_key := sk, di_saved_value := sv\<rparr>)"
      "backing U s es c0 r vt' (d\<lparr>di_saved_key := sk, di_saved_value := sv\<rparr>)"
proof -
  have r: "r < c0" "c0 \<le> length es" "r < length es" using assms(1) by (auto simp: backing_def)
  have k: "pk_user_key k = user_key_of (es ! r)" "eligible s (es ! r) \<longleftrightarrow> pk_sequence k \<le> s"
      "is_value (es ! r) \<longleftrightarrow> pk_type k = kTypeValue" "ExtractUserKey (fst (es ! r)) = Some (user_key_of (es ! r))"
      and v: "valid (user_key_of (es ! r))"
    using entry_parsed [OF r(3)] assms(4) by auto
  have sq: "di_sequence d = s" using assms(2) by (simp add: db_base_def)
  show thesis
  proof (cases "eligible s (es ! r)")
    case False
    then have "prev_entry U I (Some k) vt d = Some (False, vt, d)" using k(2) sq by (simp add: prev_entry_def)
    then show thesis using more [where vt' = vt and sk = "di_saved_key d" and sv = "di_saved_value d"] backing_ineligible [OF assms(1) False] by simp
  next
    case el: True
    have cmp: "\<exists>c. cmp_Compare U (user_key_of (es ! r)) (di_saved_key d) = Some c" if "vt = kTypeValue"
      using that assms(1) compare_total [OF v] user_valid by (auto simp: backing_def)
    show thesis
    proof (cases "vt = kTypeValue \<and> key_less U (user_key_of (es ! r)) (di_saved_key d)")
      case True
      then obtain m where m: "saved_last U s es c0 d m" "prev_eligible s es m = r" using saved_lastI assms(1) el by blast
      have "prev_entry U I (Some k) vt d = Some (True, kTypeValue, d)" using True k(1,2) el sq by (auto simp: prev_entry_def key_less_def)
      then show thesis using found m by blast
    next
      case False
      then have none: "\<forall>i. Suc r \<le> i \<longrightarrow> i < c0 \<longrightarrow> \<not> shown U s es i" using backing_eligible [OF assms(1) el] by blast
      have go: "prev_entry U I (Some k) vt d = (if pk_type k = kTypeDeletion
          then Some (False, kTypeDeletion, d\<lparr>di_saved_key := [], di_saved_value := []\<rparr>)
          else Some (False, kTypeValue, d\<lparr>di_saved_key := user_key_of (es ! r), di_saved_value := snd (es ! r)\<rparr>))"
        using False cmp k(1,2,4) el sq key_eq [OF assms(3) r(3)] value_eq [OF assms(3) r(3)]
        by (cases vt; cases "pk_type k") (auto simp: prev_entry_def key_less_def ClearSavedValue_def)
      show thesis
      proof (cases "pk_type k")
        case kTypeDeletion
        then have "\<not> shown U s es r" using k(3) by (simp add: shown_def)
        then have "\<forall>i. r \<le> i \<longrightarrow> i < c0 \<longrightarrow> \<not> shown U s es i" using passed_first [where P = "shown U s es", OF none] by blast
        then show thesis using more [where vt' = kTypeDeletion and sk = "[]" and sv = "[]"] go kTypeDeletion r by (simp add: backing_def)
      next
        case kTypeValue
        then have "backing U s es c0 r kTypeValue (d\<lparr>di_saved_key := user_key_of (es ! r), di_saved_value := snd (es ! r)\<rparr>)"
          using r none el k(3) by (auto simp: backing_def Suc_le_eq intro!: exI [of _ r])
        then show thesis using more [where vt' = kTypeValue and sk = "user_key_of (es ! r)" and sv = "snd (es ! r)"] go kTypeValue by simp
      qed
    qed
  qed
qed

lemma searched_start:
  assumes "backing U s es c0 0 vt d" "db_base s d" "at (di_iter d) (length es)"
  shows "searched U s es at c0 vt d"
proof (cases vt)
  case kTypeDeletion
  then show ?thesis using assms by (auto simp: searched_def backing_def)
next
  case kTypeValue
  then obtain m where "saved_last U s es c0 d m" "prev_eligible s es m = length es" using saved_last_start assms(1) by blast
  then show ?thesis using kTypeValue assms(2,3) by (auto simp: searched_def)
qed

lemma prev_entry_loop_at:
  assumes "backing U s es c0 (Suc r) vt d" "db_base s d" "at (di_iter d) r"
  shows "\<exists>vt' d'. prev_entry_loop U I vt d = Some (vt', d') \<and> di_direction d' = di_direction d \<and> searched U s es at c0 vt' d'"
  using assms
proof (induction r arbitrary: vt d rule: less_induct)
  case (less r)
  have r: "r < length es" using less.prems(1) by (auto simp: backing_def)
  obtain k rnd bytes x where p: "db_ParseKey I d = Some (Some k, d\<lparr>di_rnd := rnd, di_bytes_until_read_sampling := bytes, di_samples := x\<rparr>)"
      "random_ok rnd" "ParseInternalKey (fst (es ! r)) = Some k"
    by (rule db_ParseKey_at [OF less.prems(3) r less.prems(2)])
  define d1 where "d1 = d\<lparr>di_rnd := rnd, di_bytes_until_read_sampling := bytes, di_samples := x\<rparr>"
  have parse: "db_ParseKey I d = Some (Some k, d1)" using p(1) by (simp add: d1_def)
  have d1: "db_base s d1" "at (di_iter d1) r" "backing U s es c0 (Suc r) vt d1" "di_direction d1 = di_direction d"
    using less.prems p(2) by (simp_all add: d1_def) (simp add: db_base_def)
  show ?case
  proof (rule prev_entry_at [OF d1(3,1,2) p(3)], goal_cases)
    case (1 m)
    then have "prev_entry_loop U I vt d = Some (kTypeValue, d1)" using parse by (subst prev_entry_loop.simps) simp
    then show ?case using 1 d1 by (auto simp: searched_def)
  next
    case (2 vt' sk sv)
    obtain it where it: "it_Prev I (di_iter d1) = Some it" "at it (prev_pos es r)" using prev_at d1(2) r by blast
    define d2 where "d2 = d1\<lparr>di_saved_key := sk, di_saved_value := sv, di_iter := it\<rparr>"
    have d2: "db_base s d2" "at (di_iter d2) (prev_pos es r)" "di_direction d2 = di_direction d"
      using d1 it(2) by (simp_all add: d2_def)
    have b: "backing U s es c0 r vt' d2" using 2(2) saved_update(1) [where d = "d1\<lparr>di_saved_key := sk, di_saved_value := sv\<rparr>" and it = it]
      by (simp add: d2_def)
    have loop: "prev_entry_loop U I vt d = (if it_Valid I it then prev_entry_loop U I vt' d2 else Some (vt', d2))"
      using parse 2(1) it(1) by (subst prev_entry_loop.simps) (simp add: on_iter_def d2_def)
    show ?case
    proof (cases r)
      case 0
      then have "searched U s es at c0 vt' d2" using searched_start b d2 by (simp add: prev_pos_def)
      then show ?thesis using loop 0 it(2) valid_iff [OF it(2)] d2(3) by (simp add: prev_pos_def)
    next
      case (Suc r')
      then show ?thesis
        using less.IH [of r' vt' d2] b d2 loop valid_iff [OF it(2)] r by (simp add: prev_pos_def)
    qed
  qed
qed

lemma FindPrevUserEntry_at:
  assumes "db_base s d" "di_direction d = kReverse" "at (di_iter d) q" "q = prev_pos es c" "c \<le> length es"
  shows "\<exists>d'. FindPrevUserEntry U I d = Some d' \<and> db_at U s es at d' (prev_pos (visible U s es) (rank U s es c))"
proof -
  have start: "backing U s es c c kTypeDeletion d" using assms(5) by (simp add: backing_def)
  obtain vt d1 where d1: "(if it_Valid I (di_iter d) then prev_entry_loop U I kTypeDeletion d else Some (kTypeDeletion, d)) = Some (vt, d1)"
      "di_direction d1 = kReverse" "searched U s es at c vt d1"
  proof (cases c)
    case 0
    then show thesis using that [of kTypeDeletion d] assms(1-4) valid_iff [OF assms(3)] by (auto simp: prev_pos_def searched_def)
  next
    case (Suc r)
    then have q: "q = r" "q < length es" using assms(4,5) by (simp_all add: prev_pos_def)
    then show thesis
      using that prev_entry_loop_at [of c r kTypeDeletion d] start assms(1-3) Suc valid_iff [OF assms(3)] by auto
  qed
  show ?thesis
  proof (cases vt)
    case kTypeDeletion
    then have "rank U s es c = 0" using d1(3) rank_same [of 0 c U s es] by (simp add: searched_def rank_def)
    moreover have "FindPrevUserEntry U I d = Some (d1\<lparr>di_valid := False, di_saved_key := [], di_saved_value := [], di_direction := kForward\<rparr>)"
      using d1(1) kTypeDeletion assms(2) by (simp add: FindPrevUserEntry_def ClearSavedValue_def)
    ultimately show ?thesis
      using d1(3) by (auto simp: prev_pos_def searched_def simp del: length_visible intro!: db_at_end)
  next
    case kTypeValue
    then obtain m where m: "saved_last U s es c d1 m" "at (di_iter d1) (prev_eligible s es m)" and base: "db_base s d1"
      using d1(3) by (auto simp: searched_def)
    have m': "shown U s es m" "m < c" "m < length es" using m(1) assms(5) by (auto simp: saved_last_def)
    have "rank U s es c = rank U s es (Suc m)"
      using m(1) by (intro rank_same) (auto simp: saved_last_def Suc_le_eq)
    then have rank: "rank U s es c = Suc (rank U s es m)" using m'(1) by (simp add: rank_Suc)
    have "FindPrevUserEntry U I d = Some (d1\<lparr>di_valid := True\<rparr>)"
      using d1(1) kTypeValue assms(2) by (simp add: FindPrevUserEntry_def)
    moreover have "db_at U s es at (d1\<lparr>di_valid := True\<rparr>) (rank U s es m)"
      using rank_shown [OF m'(1,3)] base m d1(2) by (auto simp: db_at_def saved_last_def)
    ultimately show ?thesis using rank by (simp add: prev_pos_def)
  qed
qed

lemma db_last:
  assumes "db_at U s es at d p"
  shows "\<exists>d'. db_SeekToLast U I d = Some d' \<and> db_at U s es at d' (last_pos (visible U s es))"
proof -
  obtain q where d: "db_base s d" "at (di_iter d) q" using db_at_base assms by blast
  then obtain it where it: "it_SeekToLast I (di_iter d) = Some it" "at it (prev_pos es (length es))"
    using last_at prev_pos_length by metis
  let ?d = "d\<lparr>di_direction := kReverse, di_saved_value := [], di_iter := it\<rparr>"
  have "rank U s es (length es) = length (visible U s es)" using rank_all by simp
  then show ?thesis
    using FindPrevUserEntry_at [of ?d "prev_pos es (length es)" "length es"] it d(1) prev_pos_length [of "visible U s es"]
    by (simp add: db_SeekToLast_def on_iter_def ClearSavedValue_def Let_def)
qed

text \<open>Leaving the entries for the current key: none of those passed is shown.\<close>

lemma skip_current_key_at:
  assumes "at (di_iter d) r" "r \<le> i" "i < length es" "shown U s es i" "di_saved_key d = user_key_of (es ! i)" "db_base s d"
    and "\<And>j. r \<le> j \<Longrightarrow> j < i \<Longrightarrow> \<not> shown U s es j"
  obtains (found) c it where "skip_current_key U I d = Some (True, d\<lparr>di_iter := it\<rparr>)" "at it c" "c < i" "\<And>j. c < j \<Longrightarrow> j < i \<Longrightarrow> \<not> shown U s es j"
  | (start) it where "skip_current_key U I d = Some (False, d\<lparr>di_iter := it, di_valid := False, di_saved_key := [], di_saved_value := []\<rparr>)"
      "at it (length es)" "\<And>j. j < i \<Longrightarrow> \<not> shown U s es j"
  using assms
proof (induction r arbitrary: d thesis rule: less_induct)
  case (less r)
  have r: "r < length es" using less.prems by simp
  then obtain it where it: "it_Prev I (di_iter d) = Some it" "at it (prev_pos es r)" using prev_at less.prems(3) by blast
  show ?case
  proof (cases r)
    case 0
    then have "skip_current_key U I d = Some (False, d\<lparr>di_iter := it, di_valid := False, di_saved_key := [], di_saved_value := []\<rparr>)"
      using it valid_iff [OF it(2)] by (subst skip_current_key.simps) (simp add: on_iter_def prev_pos_def ClearSavedValue_def)
    then show ?thesis using less.prems(2) [of it] it(2) less.prems(9) 0 by (simp add: prev_pos_def)
  next
    case (Suc c)
    have c: "c < length es" "c < i" "at it c" using Suc r less.prems(4) it(2) by (simp_all add: prev_pos_def)
    have ex: "ExtractUserKey (fst (es ! c)) = Some (user_key_of (es ! c))" using entry_parsed [OF c(1)] by blast
    obtain x where x: "cmp_Compare U (user_key_of (es ! c)) (user_key_of (es ! i)) = Some x"
      using compare_total user_valid c(1) less.prems(5) by blast
    have step: "skip_current_key U I d = (if x < 0 then Some (True, d\<lparr>di_iter := it\<rparr>) else skip_current_key U I (d\<lparr>di_iter := it\<rparr>))"
      using it(1) valid_iff [OF c(3)] key_eq [OF c(3,1)] c(1) ex x less.prems(7)
      by (subst skip_current_key.simps) (simp add: on_iter_def)
    show ?thesis
    proof (cases "x < 0")
      case True
      then show ?thesis using less.prems(1) [of it c] step c less.prems(9) Suc by simp
    next
      case False
      then have "\<not> key_less U (user_key_of (es ! c)) (user_key_of (es ! i))" using x by (simp add: key_less_def)
      then have "\<not> eligible s (es ! c)" using less.prems(6) c(2) by (auto simp: shown_def)
      then have "\<not> shown U s es c" by (simp add: shown_def)
      then have none: "\<not> shown U s es j" if "c \<le> j" "j < i" for j using less.prems(9) [of j] that Suc by (cases "j = c") auto
      show ?thesis
        by (rule less.IH [of c "d\<lparr>di_iter := it\<rparr>"]) (use less.prems step False c Suc none in \<open>simp_all\<close>)
    qed
  qed
qed

lemma db_prev:
  assumes "db_at U s es at d p" "p < length (visible U s es)"
  shows "\<exists>d'. db_Prev U I d = Some d' \<and> db_at U s es at d' (prev_pos (visible U s es) p)"
proof -
  define i where "i = shown_positions U s es ! p"
  have i: "shown U s es i" "i < length es" "rank U s es i = p" using shown_position [OF _ i_def] assms(2) by simp_all
  have d: "db_base s d" "di_valid d" using assms by (simp_all add: db_at_def)
  have here: "rank U s es c = p" if "c \<le> i" "\<And>j. c \<le> j \<Longrightarrow> j < i \<Longrightarrow> \<not> shown U s es j" for c
    using rank_same [OF that] i(3) by simp
  show ?thesis
  proof (cases "di_direction d = kForward")
    case True
    then have at: "at (di_iter d) i" using assms by (auto simp: db_at_def i_def)
    have ex: "ExtractUserKey (fst (es ! i)) = Some (user_key_of (es ! i))" using entry_parsed [OF i(2)] by blast
    let ?d = "d\<lparr>di_saved_key := user_key_of (es ! i)\<rparr>"
    have go: "db_Prev U I d = do { (found, d) \<leftarrow> skip_current_key U I ?d;
        if found then FindPrevUserEntry U I (d\<lparr>di_direction := kReverse\<rparr>) else Some d }"
      using True d(2) valid_iff [OF at] i(2) key_eq [OF at i(2)] ex by (simp add: db_Prev_def)
    show ?thesis
    proof (rule skip_current_key_at [of ?d i i], goal_cases)
      case (8 c it)
      let ?e = "?d\<lparr>di_iter := it, di_direction := kReverse\<rparr>"
      have "rank U s es (Suc c) = p" using here [of "Suc c"] 8(3,4) by simp
      then show ?case
        using FindPrevUserEntry_at [of ?e c "Suc c"] go 8(1-3) d(1) i(2) by (simp add: prev_pos_def)
    next
      case (9 it)
      have "p = 0" using here [of 0] 9(3) by (simp add: rank_def)
      then show ?case
        using go 9(1,2) d(1) by (auto simp: prev_pos_def simp del: length_visible intro!: db_at_end)
    qed (use at i d in simp_all)
  next
    case False
    then have rev: "di_direction d = kReverse" by (cases "di_direction d") auto
    have q: "at (di_iter d) (prev_eligible s es i)" using assms False by (auto simp: db_at_def i_def Let_def)
    obtain c where c: "prev_eligible s es i = prev_pos es c" "c \<le> i" "\<And>j. c \<le> j \<Longrightarrow> j < i \<Longrightarrow> \<not> shown U s es j"
    proof (rule prev_eligible_cases [OF refl, of s es i], goal_cases)
      case 1
      then show ?case by (intro 1(1) [of "Suc (prev_eligible s es i)"]) (auto simp: prev_pos_def shown_def)
    next
      case 2
      then show ?case by (intro 2(1) [of 0]) (auto simp: prev_pos_def shown_def)
    qed
    then show ?thesis
      using FindPrevUserEntry_at [OF d(1) rev q c(1)] here [OF c(2,3)] i(2) d(2) rev by (simp add: db_Prev_def)
  qed
qed

lemma db_key_at:
  assumes "db_at U s es at d p" "p < length (visible U s es)"
  shows "db_key I d = Some (fst (visible U s es ! p)) \<and> db_value I d = Some (snd (visible U s es ! p))"
proof -
  define i where "i = shown_positions U s es ! p"
  have i: "i < length es" using shown_position [OF _ i_def] assms(2) by simp
  have ex: "ExtractUserKey (fst (es ! i)) = Some (user_key_of (es ! i))" using entry_parsed [OF i] by blast
  have v: "visible U s es ! p = (user_key_of (es ! i), snd (es ! i))" using assms(2) by (simp add: nth_visible i_def)
  show ?thesis
  proof (cases "di_direction d = kForward")
    case True
    then have at: "at (di_iter d) i" "di_valid d" using assms by (auto simp: db_at_def i_def)
    then show ?thesis using True v ex key_eq [OF at(1) i] value_eq [OF at(1) i] by (simp add: db_key_def db_value_def)
  next
    case False
    then show ?thesis using assms v by (auto simp: db_at_def db_key_def db_value_def i_def Let_def)
  qed
qed

lemma db_status_at: "db_at U s es at d p \<Longrightarrow> db_status I d = Some OK"
  using status_eq by (auto simp: db_at_def db_base_def db_status_def)

lemma db_le: "db_at U s es at d p \<Longrightarrow> p \<le> length (visible U s es)"
  by (simp add: db_at_def)

lemma db_valid_at: "db_at U s es at d p \<Longrightarrow> di_valid d \<longleftrightarrow> p < length (visible U s es)"
  by (simp add: db_at_def)

text \<open>The iterator of the database is a cursor into what the snapshot sees.\<close>

lemma db_iterator: "iterator (DbIterator U I) U (visible U s es) valid (db_at U s es at)"
  by (unfold_locales, unfold DbIterator_def Iterator.simps)
    (erule (1) db_key_at [THEN conjunct1] db_key_at [THEN conjunct2] db_seek db_next db_prev |
      erule db_le db_valid_at db_status_at db_first db_last)+

lemma NewDBIterator_at: "at it i \<Longrightarrow> db_at U s es at (NewDBIterator it s seed) (length (visible U s es))"
  using Random_Next_ok [OF new_Random_ok]
  by (auto simp: NewDBIterator_def RandomCompactionPeriod_eq db_at_def db_base_def)

lemma scan_visible:
  assumes "at it i" "length (visible U s es) \<le> n"
  shows "\<exists>d d'. db_SeekToFirst U I (NewDBIterator it s seed) = Some d \<and> scan (DbIterator U I) n d = Some (visible U s es, d') \<and> \<not> di_valid d'"
proof -
  note it = db_iterator
  obtain d where d: "db_SeekToFirst U I (NewDBIterator it s seed) = Some d" "db_at U s es at d 0"
    using iterator.first_at [OF it NewDBIterator_at [OF assms(1)]] by (auto simp: DbIterator_def)
  obtain d' where d': "scan (DbIterator U I) n d = Some (take n (visible U s es), d')" "db_at U s es at d' (min n (length (visible U s es)))"
    using iterator.scan_at [OF it d(2), of n] by auto
  have "\<not> di_valid d'" using db_valid_at [OF d'(2)] assms(2) by simp
  then show ?thesis using d(1) d'(1) assms(2) by auto
qed

end

text \<open>Blocks with internal entries below.\<close>

definition internal_or_none :: "entry list \<Rightarrow> entry list" where
  "internal_or_none es = (if internal_entries BytewiseComparator (\<lambda>_. True) es then es else [])"

definition snapshot_number :: "SequenceNumber \<Rightarrow> SequenceNumber" where
  "snapshot_number s = (if s \<le> kMaxSequenceNumber then s else kMaxSequenceNumber)"

interpretation db_blocks: db_iterator BytewiseComparator "\<lambda>_. True" "BlockIter (InternalKeyComparator BytewiseComparator)"
  "internal_or_none es" "block_at (InternalKeyComparator BytewiseComparator) (internal_valid (\<lambda>_. True)) (internal_or_none es)" "snapshot_number s"
proof unfold_locales
  show "internal_entries BytewiseComparator (\<lambda>_. True) (internal_or_none es)"
    by (auto simp: internal_or_none_def) (simp add: internal_entries_def)
  show "snapshot_number s \<le> kMaxSequenceNumber" by (simp add: snapshot_number_def)
qed

section \<open>Properties\<close>

text \<open>C7. The iterator of the database: over any iterator into internal entries in the internal order, a
  \<open>DBIter\<close> for a sequence number is a cursor into what the snapshot with this number sees, that is for each
  user key the newest entry that is not newer than the snapshot, unless this is a deletion. Every sequence of seeks and
  of steps in either direction ends at the entry that the specification gives; all loops end and no
  assertion fails, whatever the seed of the sampling is.\<close>

theorem db_iterator_refines:
  assumes "comparator U valid" and "iterator I (InternalKeyComparator U) es (internal_valid valid) at" and "at it i"
    and "internal_entries U valid es" and "s \<le> kMaxSequenceNumber"
    and "\<forall>m \<in> set ms. move_target_ok valid m" and "run_moves (move_pos U (visible U s es)) ms (length (visible U s es)) = Some j"
  shows "\<exists>d. run_moves (move_iter (DbIterator U I)) ms (NewDBIterator it s seed) = Some d \<and>
    observe (DbIterator U I) d = Some (entry_at_pos (visible U s es) j, OK)"
proof -
  have db: "db_iterator U valid I es at s"
    using assms(1,2,4,5) by (simp add: db_iterator_def db_iterator_axioms_def)
  note it = db_iterator.db_iterator [OF db]
  show ?thesis
    using iterator.run_moves_at [OF it db_iterator.NewDBIterator_at [OF db assms(3)] assms(6,7)] iterator.observe_at [OF it] by blast
qed

text \<open>C16. A scan of the database: \<open>SeekToFirst\<close> and \<open>Next\<close> as long as the iterator is valid deliver every
  entry that the snapshot sees, once and with strictly ascending user keys, and then the iterator is no longer valid.\<close>

theorem db_scan_complete:
  assumes "comparator U valid" and "iterator I (InternalKeyComparator U) es (internal_valid valid) at" and "at it i"
    and "internal_entries U valid es" and "s \<le> kMaxSequenceNumber" and "length (visible U s es) \<le> n"
  shows "\<exists>d d'. db_SeekToFirst U I (NewDBIterator it s seed) = Some d \<and>
    scan (DbIterator U I) n d = Some (visible U s es, d') \<and> \<not> di_valid d' \<and>
    sorted_wrt (\<lambda>a b. key_less U (fst a) (fst b)) (visible U s es)"
proof -
  have db: "db_iterator U valid I es at s"
    using assms(1,2,4,5) by (simp add: db_iterator_def db_iterator_axioms_def)
  show ?thesis using db_iterator.scan_visible [OF db assms(3,6)] visible_sorted by blast
qed

text \<open>A deletion of \<open>a\<close> with the number 3 over a value with the number 1, and two values of \<open>b\<close>.\<close>

definition sample_internal :: "entry list" where
  "sample_internal = [([97, 0, 3, 0, 0, 0, 0, 0, 0], []), ([97, 1, 1, 0, 0, 0, 0, 0, 0], [5]),
     ([98, 1, 2, 0, 0, 0, 0, 0, 0], [7]), ([98, 1, 1, 0, 0, 0, 0, 0, 0], [8])]"

abbreviation sample_comparator :: Comparator where
  "sample_comparator \<equiv> InternalKeyComparator BytewiseComparator"

lemma sample_internal_sorted: "sorted_wrt (\<lambda>a b. key_less sample_comparator (fst a) (fst b)) sample_internal"
  by code_simp

lemma sample_internal_ok: "internal_entries BytewiseComparator (\<lambda>_. True) sample_internal"
  using sample_internal_sorted
  by (simp add: internal_entries_def) (simp add: sample_internal_def ParseInternalKey_def DecodeFixed64_def kLittleEndian_def)

lemma sample_internal_visible:
  "visible BytewiseComparator 3 sample_internal = [([98], [7])]" "visible BytewiseComparator 2 sample_internal = [([97], [5]), ([98], [7])]"
  by code_simp+

lemma sample_block:
  "\<exists>it. opened_block (new_Options\<lparr>op_comparator := sample_comparator\<rparr>) sample_internal = Some it \<and>
    block_at sample_comparator (internal_valid (\<lambda>_. True)) sample_internal it (length sample_internal)"
proof (rule opened_block_at [OF internal.comparator_axioms _ sample_internal_sorted])
  show "\<forall>e \<in> set sample_internal. internal_valid (\<lambda>_. True) (fst e)" by (simp add: sample_internal_def internal_valid_def)
  show "size_bound sample_internal < 2 ^ 32" by (simp add: sample_internal_def size_bound_def)
qed

theorem db_iterator_refines_witness:
  "\<exists>it d. opened_block (new_Options\<lparr>op_comparator := sample_comparator\<rparr>) sample_internal = Some it \<and>
    run_moves (move_iter (DbIterator BytewiseComparator (BlockIter sample_comparator))) [ToFirst, Forward, Backward] (NewDBIterator it 2 301) = Some d \<and>
    observe (DbIterator BytewiseComparator (BlockIter sample_comparator)) d = Some (Some ([97], [5]), OK)"
proof -
  obtain it where it: "opened_block (new_Options\<lparr>op_comparator := sample_comparator\<rparr>) sample_internal = Some it"
      "block_at sample_comparator (internal_valid (\<lambda>_. True)) sample_internal it (length sample_internal)"
    using sample_block by blast
  show ?thesis
    using db_iterator_refines [OF bytewise.comparator_axioms block_iter.iterator_axioms it(2) sample_internal_ok,
        of 2 "[ToFirst, Forward, Backward]" 0 301] it(1)
    unfolding sample_internal_visible by (auto simp: kMaxSequenceNumber_def prev_pos_def entry_at_pos_def)
qed

theorem db_scan_complete_witness:
  "\<exists>it d d'. opened_block (new_Options\<lparr>op_comparator := sample_comparator\<rparr>) sample_internal = Some it \<and>
    db_SeekToFirst BytewiseComparator (BlockIter sample_comparator) (NewDBIterator it 3 301) = Some d \<and>
    scan (DbIterator BytewiseComparator (BlockIter sample_comparator)) 5 d = Some ([([98], [7])], d') \<and> \<not> di_valid d'"
proof -
  obtain it where it: "opened_block (new_Options\<lparr>op_comparator := sample_comparator\<rparr>) sample_internal = Some it"
      "block_at sample_comparator (internal_valid (\<lambda>_. True)) sample_internal it (length sample_internal)"
    using sample_block by blast
  show ?thesis
    using db_scan_complete [OF bytewise.comparator_axioms block_iter.iterator_axioms it(2) sample_internal_ok,
        of 3 5 301] it(1)
    unfolding sample_internal_visible by (auto simp: kMaxSequenceNumber_def)
qed

end
