(* ===== verification/Ldb_Memtable.thy ===== *)
theory Ldb_Memtable
  imports Ldb_Skiplist Ldb_Db_Iter Ldb_Write_Batch
begin

text \<open>
  The table in memory, \<open>db/memtable.h\<close> and \<open>db/memtable.cc\<close>: a skip list whose keys are encoded entries,
  an internal key and a value with their lengths in front, in an arena that belongs to the table.

  A key of the skip list, a \<open>const char*\<close>, is the bytes from this address to the end of its allocation;
  reading further is \<open>None\<close>. Entries are shown to be kept in the internal order, whatever the order of the
  additions: the iterator of the table meets the contract of \<open>Ldb_Iterator\<close>, so that an iterator of the database can
  run over it, and \<open>Get\<close> finds the last addition that its snapshot sees.
\<close>

section \<open>Encoded entries\<close>

definition entry_slice :: "byte list \<Rightarrow> (byte list \<times> byte list) option" where
  "entry_slice data = do {
     (len, p) \<leftarrow> GetVarint32Ptr data;
     if unat len \<le> length p then Some (take (unat len) p, drop (unat len) p) else None }"

definition mem_Compare :: "Comparator \<Rightarrow> byte list \<Rightarrow> byte list \<Rightarrow> int option" where
  "mem_Compare user aptr bptr = do {
     (a, _) \<leftarrow> entry_slice aptr;
     (b, _) \<leftarrow> entry_slice bptr;
     cmp_Compare (InternalKeyComparator user) a b }"

text \<open>The skip list uses the comparison only.\<close>

definition MemComparator :: "Comparator \<Rightarrow> Comparator" where
  "MemComparator user = (InternalKeyComparator user)\<lparr>cmp_Compare := mem_Compare user\<rparr>"

definition EncodeKey :: "byte list \<Rightarrow> byte list" where
  "EncodeKey target = PutVarint32 [] (of_nat (length target)) @ target"

section \<open>The table\<close>

record MemTable =
  mt_comparator :: Comparator
  mt_refs :: int
  mt_arena :: Arena
  mt_table :: SkipList

definition new_MemTable :: "(nat \<Rightarrow> size_t) \<Rightarrow> Comparator \<Rightarrow> MemTable option" where
  "new_MemTable base user = do {
     (table, arena) \<leftarrow> new_SkipList base new_Arena;
     Some \<lparr>mt_comparator = user, mt_refs = 0, mt_arena = arena, mt_table = table\<rparr> }"

definition MemTable_Ref :: "MemTable \<Rightarrow> MemTable" where
  "MemTable_Ref mt = mt\<lparr>mt_refs := mt_refs mt + 1\<rparr>"

text \<open>\<open>Some None\<close>: the object has deleted itself; its destructor asserts \<open>refs_ == 0\<close>.\<close>

definition MemTable_Unref :: "MemTable \<Rightarrow> MemTable option option" where
  "MemTable_Unref mt = (let refs = mt_refs mt - 1 in
     if refs \<ge> 0 then Some (if refs \<le> 0 then None else Some (mt\<lparr>mt_refs := refs\<rparr>)) else None)"

definition ApproximateMemoryUsage :: "MemTable \<Rightarrow> size_t" where
  "ApproximateMemoryUsage mt = MemoryUsage (mt_arena mt)"

definition MemTable_Add :: "(nat \<Rightarrow> size_t) \<Rightarrow> SequenceNumber \<Rightarrow> ValueType \<Rightarrow> byte list \<Rightarrow> byte list \<Rightarrow> MemTable \<Rightarrow> MemTable option" where
  "MemTable_Add base s t key val mt = do {
     let key_size = (of_nat (length key) :: size_t);
     let val_size = (of_nat (length val) :: size_t);
     let internal_key_size = key_size + 8;
     let encoded_len = of_nat (VarintLength internal_key_size) + internal_key_size + of_nat (VarintLength val_size) + val_size;
     (_, arena) \<leftarrow> Allocate encoded_len (mt_arena mt);
     let buf = EncodeVarint32 (ucast internal_key_size) @ key @ EncodeFixed64 (push_bit 8 s OR ValueType_num t) @
       EncodeVarint32 (ucast val_size) @ val;
     if length buf = unat encoded_len then do {
       (table, arena) \<leftarrow> Insert base (MemComparator (mt_comparator mt)) buf (mt_table mt, arena);
       Some (mt\<lparr>mt_table := table, mt_arena := arena\<rparr>) }
     else None }"

text \<open>The result of the call with \<open>*value\<close> and \<open>*s\<close> behind it.\<close>

definition MemTable_Get :: "LookupKey \<Rightarrow> byte list \<Rightarrow> Status \<Rightarrow> MemTable \<Rightarrow> (bool \<times> byte list \<times> Status) option" where
  "MemTable_Get key val s mt = do {
     let memkey = memtable_key key;
     iter \<leftarrow> sli_Seek (MemComparator (mt_comparator mt)) (mt_table mt) memkey;
     if iter \<noteq> None then do {
       entry \<leftarrow> sli_key (mt_table mt) iter;
       (key_length, key_ptr) \<leftarrow> GetVarint32Ptr entry;
       let n = unat (key_length - 8);
       if n + 8 \<le> length key_ptr then do {
         c \<leftarrow> cmp_Compare (mt_comparator mt) (take n key_ptr) (lookup_user_key key);
         if c = 0 then do {
           tag \<leftarrow> DecodeFixed64 (drop n key_ptr);
           if tag AND 0xFF = ValueType_num kTypeValue then do {
             (v, _) \<leftarrow> entry_slice (drop (unat key_length) key_ptr);
             Some (True, v, s) }
           else if tag AND 0xFF = ValueType_num kTypeDeletion then Some (True, val, NotFound [])
           else Some (False, val, s) }
         else Some (False, val, s) }
       else None }
     else Some (False, val, s) }"

text \<open>The iterator has a pointer to the table; its state is the position in it.\<close>

definition MemTable_NewIterator :: "nat option" where
  "MemTable_NewIterator = None"

definition MemTableIterator :: "MemTable \<Rightarrow> nat option Iterator" where
  "MemTableIterator mt = (let C = MemComparator (mt_comparator mt); l = mt_table mt in
     \<lparr>it_Valid = \<lambda>iter. iter \<noteq> None,
      it_SeekToFirst = \<lambda>_. sli_SeekToFirst l,
      it_SeekToLast = \<lambda>_. sli_SeekToLast l,
      it_Seek = \<lambda>k _. sli_Seek C l (EncodeKey k),
      it_Next = sli_Next l,
      it_Prev = sli_Prev C l,
      it_key = \<lambda>iter. do { e \<leftarrow> sli_key l iter; (k, _) \<leftarrow> entry_slice e; Some k },
      it_value = \<lambda>iter. do { e \<leftarrow> sli_key l iter; (_, rest) \<leftarrow> entry_slice e; (v, _) \<leftarrow> entry_slice rest; Some v },
      it_status = \<lambda>_. Some OK\<rparr>)"

section \<open>Specification\<close>

text \<open>An addition, and the entry it makes.\<close>

record addition =
  ad_sequence :: SequenceNumber
  ad_type :: ValueType
  ad_key :: "byte list"
  ad_value :: "byte list"

definition added :: "addition \<Rightarrow> entry" where
  "added a = (ikey (ad_key a) (push_bit 8 (ad_sequence a) OR ValueType_num (ad_type a)), ad_value a)"

primrec add_all :: "(nat \<Rightarrow> size_t) \<Rightarrow> addition list \<Rightarrow> MemTable \<Rightarrow> MemTable option" where
  "add_all base [] mt = Some mt"
| "add_all base (a # as) mt = do {
     mt \<leftarrow> MemTable_Add base (ad_sequence a) (ad_type a) (ad_key a) (ad_value a) mt;
     add_all base as mt }"

text \<open>A write batch into the table: the calls of \<open>MemTableInserter\<close>, also of those made before an error.\<close>

definition call_addition :: "SequenceNumber \<times> ValueType \<times> byte list \<times> byte list \<Rightarrow> addition" where
  "call_addition c = (case c of (seq, t, key, val) \<Rightarrow> \<lparr>ad_sequence = seq, ad_type = t, ad_key = key, ad_value = val\<rparr>)"

definition insert_batch :: "(nat \<Rightarrow> size_t) \<Rightarrow> byte list \<Rightarrow> MemTable \<Rightarrow> (Status \<times> MemTable) option" where
  "insert_batch base batch mt = do {
     (calls, status) \<leftarrow> InsertInto batch;
     mt \<leftarrow> add_all base (map call_addition calls) mt;
     Some (status, mt) }"

text \<open>What a snapshot finds for a key in a history of additions: the last one for this key that it sees.\<close>

definition latest :: "Comparator \<Rightarrow> SequenceNumber \<Rightarrow> byte list \<Rightarrow> addition list \<Rightarrow> addition option" where
  "latest U s k as = (let seen = filter (\<lambda>a. ad_sequence a \<le> s \<and> cmp_Compare U (ad_key a) k = Some 0) as in
     if seen = [] then None else Some (last seen))"

definition answer :: "addition option \<Rightarrow> byte list \<Rightarrow> Status \<Rightarrow> bool \<times> byte list \<times> Status" where
  "answer found val s = (case found of None \<Rightarrow> (False, val, s)
     | Some a \<Rightarrow> (case ad_type a of kTypeValue \<Rightarrow> (True, ad_value a, s) | kTypeDeletion \<Rightarrow> (True, val, NotFound [])))"

definition insert_entry :: "Comparator \<Rightarrow> entry \<Rightarrow> entry list \<Rightarrow> entry list" where
  "insert_entry U e es = takeWhile (\<lambda>a. key_less (InternalKeyComparator U) (fst a) (fst e)) es @ e #
     dropWhile (\<lambda>a. key_less (InternalKeyComparator U) (fst a) (fst e)) es"

text \<open>A history: valid keys, representable values, and sequence numbers that grow, as \<open>WriteBatch\<close> hands them out.\<close>

definition history :: "(byte list \<Rightarrow> bool) \<Rightarrow> addition list \<Rightarrow> bool" where
  "history valid as \<longleftrightarrow> (\<forall>a \<in> set as. valid (ad_key a) \<and> length (ad_value a) < 2 ^ 32 \<and> ad_sequence a \<le> kMaxSequenceNumber) \<and>
     sorted_wrt (\<lambda>a b. ad_sequence a < ad_sequence b) as"

definition mem_entry :: "entry \<Rightarrow> byte list" where
  "mem_entry e = EncodeKey (fst e) @ EncodeKey (snd e)"

definition mem_valid :: "(byte list \<Rightarrow> bool) \<Rightarrow> byte list \<Rightarrow> bool" where
  "mem_valid valid e \<longleftrightarrow> (case entry_slice e of None \<Rightarrow> False | Some (k, _) \<Rightarrow> internal_valid valid k)"

definition mem_inv :: "Comparator \<Rightarrow> (byte list \<Rightarrow> bool) \<Rightarrow> entry list \<Rightarrow> MemTable \<Rightarrow> bool" where
  "mem_inv U valid es mt \<longleftrightarrow> mt_comparator mt = U \<and> (\<forall>e \<in> set es. internal_valid valid (fst e) \<and> length (snd e) < 2 ^ 32) \<and>
     (\<exists>R. arena_inv R (mt_arena mt)) \<and>
     (\<exists>ns h. skip_inv (MemComparator U) (mem_valid valid) ns h (mt_table mt) \<and> map (node_key (mt_table mt)) ns = map mem_entry es)"

definition mem_at :: "Comparator \<Rightarrow> (byte list \<Rightarrow> bool) \<Rightarrow> entry list \<Rightarrow> MemTable \<Rightarrow> nat option \<Rightarrow> nat \<Rightarrow> bool" where
  "mem_at U valid es mt node i \<longleftrightarrow> (\<exists>ns h. skip_inv (MemComparator U) (mem_valid valid) ns h (mt_table mt) \<and>
     map (node_key (mt_table mt)) ns = map mem_entry es \<and> sli_at ns node i)"

section \<open>Entries and their order\<close>

lemma entry_slice_EncodeKey [simp]: "length k < 2 ^ 32 \<Longrightarrow> entry_slice (EncodeKey k @ rest) = Some (k, rest)"
  by (simp add: entry_slice_def EncodeKey_def PutVarint32_def EncodeVarint32_leb128 leb128_length_u32)

lemma MemComparator_Compare [simp]: "cmp_Compare (MemComparator U) = mem_Compare U"
  by (simp add: MemComparator_def)

lemma mem_Compare_slices:
  "entry_slice a = Some (k, r) \<Longrightarrow> entry_slice b = Some (k', r') \<Longrightarrow> mem_Compare U a b = internal_Compare U k k'"
  by (simp add: mem_Compare_def)

lemma mem_less_slices:
  "entry_slice a = Some (k, r) \<Longrightarrow> entry_slice b = Some (k', r') \<Longrightarrow>
    key_less (MemComparator U) a b = key_less (InternalKeyComparator U) k k'"
  "entry_slice a = Some (k, r) \<Longrightarrow> entry_slice b = Some (k', r') \<Longrightarrow>
    key_le (MemComparator U) a b = key_le (InternalKeyComparator U) k k'"
  by (simp_all add: key_less_def key_le_def mem_Compare_slices)

lemma mem_validE:
  assumes "mem_valid valid e"
  obtains k r where "entry_slice e = Some (k, r)" "internal_valid valid k"
  using assms by (auto simp: mem_valid_def split: option.splits)

lemma added_tag:
  assumes "ad_sequence a \<le> kMaxSequenceNumber"
  shows "unat (push_bit 8 (ad_sequence a) OR ValueType_num (ad_type a)) = 256 * unat (ad_sequence a) + (if ad_type a = kTypeDeletion then 0 else 1)"
  using packed_unat assms by (simp add: seq_bound)

lemma EncodeFixed64_inject [simp]: "EncodeFixed64 m = EncodeFixed64 n \<longleftrightarrow> m = n"
  by (metis ikey_parts(2) option.inject)

lemma sorted_last: "sorted_wrt R xs \<Longrightarrow> x \<in> set xs \<Longrightarrow> x = last xs \<or> R x (last xs)"
  by (induction xs) auto

context comparator
begin

lemma mem_order: "key_order (MemComparator C) (mem_valid valid)"
proof
  note o = comparator.axioms(1) [OF internal_comparator]
  fix a b assume "mem_valid valid a" "mem_valid valid b"
  then obtain k r k' r' where ab: "entry_slice a = Some (k, r)" "internal_valid valid k"
      "entry_slice b = Some (k', r')" "internal_valid valid k'" by (auto elim!: mem_validE)
  show "\<exists>r. cmp_Compare (MemComparator C) a b = Some r"
    using key_order.compare_total [OF o ab(2,4)] ab by (simp add: mem_Compare_slices)
  show "sgn q' = - sgn q" if "cmp_Compare (MemComparator C) a b = Some q" "cmp_Compare (MemComparator C) b a = Some q'" for q q'
    using key_order.compare_swap [OF o ab(2,4)] that ab by (simp add: mem_Compare_slices)
  show "key_le (MemComparator C) a c"
    if c: "mem_valid valid c" "key_le (MemComparator C) a b" "key_le (MemComparator C) b c" for c
  proof -
    obtain k'' r'' where c': "entry_slice c = Some (k'', r'')" "internal_valid valid k''" using c(1) by (rule mem_validE)
    show ?thesis
      using key_order.compare_trans [OF o ab(2,4) c'(2)] c(2,3) unfolding mem_less_slices(2) [OF ab(1,3)]
        mem_less_slices(2) [OF ab(3) c'(1)] mem_less_slices(2) [OF ab(1) c'(1)] by blast
  qed
qed

end

section \<open>The contract of the table\<close>

text \<open>User keys have to leave room for the length of the internal key in 32 bits.\<close>

locale memtable = comparator U valid for U :: Comparator and valid +
  assumes valid_short: "valid k \<Longrightarrow> length k + 8 < 2 ^ 32"
begin

lemma internal_short: "internal_valid valid k \<Longrightarrow> length k < 2 ^ 32"
  using valid_short [of "take (length k - 8) k"] by (simp add: internal_valid_def)

lemma mem_entry_slice: "internal_valid valid (fst e) \<Longrightarrow> entry_slice (mem_entry e) = Some (fst e, EncodeKey (snd e))"
  unfolding mem_entry_def using internal_short by (rule entry_slice_EncodeKey)

lemma target_slice: "internal_valid valid k \<Longrightarrow> entry_slice (EncodeKey k) = Some (k, [])"
  using entry_slice_EncodeKey [OF internal_short, of k "[]"] by simp

lemma mem_entry_valid: "internal_valid valid (fst e) \<Longrightarrow> mem_valid valid (mem_entry e)"
  by (simp add: mem_valid_def mem_entry_slice)

lemma target_valid: "internal_valid valid k \<Longrightarrow> mem_valid valid (EncodeKey k)"
  by (simp add: mem_valid_def target_slice)

lemma mem_node:
  assumes "map (node_key l) ns = map mem_entry es" "i < length ns"
  shows "node_key l (ns ! i) = mem_entry (es ! i)" "length es = length ns"
  using assms(2) arg_cong [OF assms(1), of length] arg_cong [OF assms(1), of "\<lambda>xs. xs ! i"] by simp_all

text \<open>The iterator.\<close>

lemma lower_bound_nodes:
  assumes "map (node_key l) ns = map mem_entry es" "\<forall>e \<in> set es. internal_valid valid (fst e)" "internal_valid valid k"
  shows "length (takeWhile (\<lambda>n. key_less (MemComparator U) (node_key l n) (EncodeKey k)) ns) = lower_bound (InternalKeyComparator U) es k"
proof -
  let ?P = "\<lambda>e. key_less (MemComparator U) e (EncodeKey k)"
  have "map (node_key l) (takeWhile (?P \<circ> node_key l) ns) = map mem_entry (takeWhile (?P \<circ> mem_entry) es)"
    using arg_cong [OF assms(1), of "takeWhile ?P"] by (simp add: takeWhile_map)
  moreover have "takeWhile (?P \<circ> mem_entry) es = takeWhile (\<lambda>e. key_less (InternalKeyComparator U) (fst e) k) es"
    using assms(2) mem_less_slices(1) [OF mem_entry_slice target_slice [OF assms(3)]] by (auto intro!: takeWhile_cong)
  ultimately show ?thesis using map_eq_imp_length_eq by (fastforce simp: lower_bound_def comp_def)
qed

lemma mem_iterator:
  assumes "mem_inv U valid es mt"
  shows "iterator (MemTableIterator mt) (InternalKeyComparator U) es (internal_valid valid) (mem_at U valid es mt)"
proof
  note o = mem_order
  let ?I = "MemTableIterator mt" and ?l = "mt_table mt" and ?at = "mem_at U valid es mt"
  have U: "mt_comparator mt = U" and es: "\<forall>e \<in> set es. internal_valid valid (fst e) \<and> length (snd e) < 2 ^ 32"
    using assms by (auto simp: mem_inv_def)
  fix s i assume s: "?at s i"
  then obtain ns h where ns: "skip_inv (MemComparator U) (mem_valid valid) ns h ?l" "map (node_key ?l) ns = map mem_entry es" "sli_at ns s i"
    by (auto simp: mem_at_def)
  have len: "length ns = length es" using ns(2) by (rule map_eq_imp_length_eq)
  have atI: "?at s' j" if "sli_at ns s' j" for s' j using that ns unfolding mem_at_def by blast
  show "i \<le> length es" "it_Valid ?I s \<longleftrightarrow> i < length es" using ns(3) len by (auto simp: sli_at_def MemTableIterator_def Let_def)
  have slice: "sli_key ?l s = Some (mem_entry (es ! i))" "entry_slice (mem_entry (es ! i)) = Some (fst (es ! i), EncodeKey (snd (es ! i)))"
      "entry_slice (EncodeKey (snd (es ! i))) = Some (snd (es ! i), [])" if i: "i < length es"
  proof -
    have e: "internal_valid valid (fst (es ! i))" "length (snd (es ! i)) < 2 ^ 32" using es nth_mem [OF i] by blast+
    show "sli_key ?l s = Some (mem_entry (es ! i))" using ns(3) mem_node(1) [OF ns(2)] i len by (simp add: sli_key_def sli_at_def)
    show "entry_slice (mem_entry (es ! i)) = Some (fst (es ! i), EncodeKey (snd (es ! i)))" using e(1) by (rule mem_entry_slice)
    show "entry_slice (EncodeKey (snd (es ! i))) = Some (snd (es ! i), [])" using entry_slice_EncodeKey [OF e(2), of "[]"] by simp
  qed
  show "it_key ?I s = Some (fst (es ! i))" "it_value ?I s = Some (snd (es ! i))" if "i < length es"
    using slice [OF that] by (simp_all add: MemTableIterator_def Let_def)
  show "it_status ?I s = Some OK" by (simp add: MemTableIterator_def Let_def)
  show "\<exists>s'. it_SeekToFirst ?I s = Some s' \<and> ?at s' 0"
    using key_order.sli_SeekToFirst_at [OF o ns(1)] atI by (auto simp: MemTableIterator_def Let_def)
  show "\<exists>s'. it_SeekToLast ?I s = Some s' \<and> ?at s' (last_pos es)"
    using key_order.sli_SeekToLast_at [OF o ns(1)] atI len by (auto simp: MemTableIterator_def Let_def last_pos_def)
  show "\<exists>s'. it_Seek ?I target s = Some s' \<and> ?at s' (lower_bound (InternalKeyComparator U) es target)" if "internal_valid valid target" for target
    using key_order.sli_Seek_at [OF o ns(1) target_valid [OF that]] atI lower_bound_nodes [OF ns(2) _ that] es
    by (auto simp: MemTableIterator_def Let_def U)
  show "\<exists>s'. it_Next ?I s = Some s' \<and> ?at s' (Suc i)" if "i < length es"
    using key_order.sli_Next_at [OF o ns(1,3)] that len atI by (auto simp: MemTableIterator_def Let_def)
  show "\<exists>s'. it_Prev ?I s = Some s' \<and> ?at s' (prev_pos es i)" if "i < length es"
    using key_order.sli_Prev_at [OF o ns(1,3)] that len atI by (auto simp: MemTableIterator_def Let_def prev_pos_def U)
qed

lemma mem_at_start: "mem_inv U valid es mt \<Longrightarrow> mem_at U valid es mt MemTable_NewIterator (length es)"
  unfolding mem_inv_def mem_at_def MemTable_NewIterator_def sli_at_def by (metis less_irrefl_nat map_eq_imp_length_eq order_refl)

lemma new_MemTable_inv:
  assumes "aligned_blocks base"
  shows "\<exists>mt. new_MemTable base U = Some mt \<and> mem_inv U valid [] mt"
  using skip_start [OF new_Arena_inv assms, of "MemComparator U" "mem_valid valid" "\<lambda>_. 0"]
  by (auto simp: new_MemTable_def mem_inv_def)

text \<open>\<open>Add\<close> writes the bytes it allocates, and their encoding of the lengths is that of the reader.\<close>

lemma encoded_entry:
  assumes "valid key" "length val < 2 ^ 32"
  shows "EncodeVarint32 (ucast (of_nat (length key) + 8 :: size_t)) @ key @ EncodeFixed64 tag @ EncodeVarint32 (ucast (of_nat (length val) :: size_t)) @ val =
      mem_entry (ikey key tag, val)"
    "length (mem_entry (ikey key tag, val)) = unat (of_nat (VarintLength (of_nat (length key) + 8)) + (of_nat (length key) + 8) +
      of_nat (VarintLength (of_nat (length val))) + of_nat (length val) :: size_t)"
proof -
  have k: "length key + 8 < 2 ^ 32" using valid_short assms(1) by blast
  have u: "(ucast (of_nat n :: size_t) :: u32) = of_nat n" "(ucast (of_nat n :: u32) :: u64) = of_nat n" if "n < 2 ^ 32" for n
    using that by (simp_all add: unsigned_of_nat take_bit_nat_eq_self)
  have k8: "(of_nat (length key) + 8 :: size_t) = of_nat (length key + 8)" by simp
  show "EncodeVarint32 (ucast (of_nat (length key) + 8 :: size_t)) @ key @ EncodeFixed64 tag @ EncodeVarint32 (ucast (of_nat (length val) :: size_t)) @ val =
      mem_entry (ikey key tag, val)"
    unfolding k8 u(1) [OF k] u(1) [OF assms(2)] by (simp add: mem_entry_def EncodeKey_def PutVarint32_def)
  let ?n = "VarintLength (of_nat (length key + 8)) + (length key + 8) + VarintLength (of_nat (length val)) + length val"
  have v: "VarintLength (of_nat n) = length (EncodeVarint32 (of_nat n))" if "n < 2 ^ 32" for n
    using u(2) [OF that] by (simp add: VarintLength_leb128 EncodeVarint32_leb128)
  have "VarintLength (of_nat n) \<le> 5" if "n < 2 ^ 32" for n using v [OF that] length_EncodeVarint32 by simp
  from this [OF k] this [OF assms(2)] have "?n < 2 ^ 64" using k assms(2) by simp
  then have "unat (of_nat ?n :: size_t) = ?n" by (intro unat_of_nat_small) simp
  moreover have "(of_nat (VarintLength (of_nat (length key) + 8)) + (of_nat (length key) + 8) +
      of_nat (VarintLength (of_nat (length val))) + of_nat (length val) :: size_t) = of_nat ?n" by simp
  ultimately show "length (mem_entry (ikey key tag, val)) = unat (of_nat (VarintLength (of_nat (length key) + 8)) + (of_nat (length key) + 8) +
      of_nat (VarintLength (of_nat (length val))) + of_nat (length val) :: size_t)"
    using v [OF k] v [OF assms(2)] by (simp add: mem_entry_def EncodeKey_def PutVarint32_def)
qed

lemma insert_entry_keys:
  assumes "\<forall>e \<in> set es. internal_valid valid (fst e)" "internal_valid valid (fst e)"
  shows "insert_key (MemComparator U) (mem_entry e) (map mem_entry es) = map mem_entry (insert_entry U e es)"
proof -
  have "key_less (MemComparator U) (mem_entry a) (mem_entry e) = key_less (InternalKeyComparator U) (fst a) (fst e)" if "a \<in> set es" for a
    using mem_less_slices(1) [OF mem_entry_slice mem_entry_slice] assms that by blast
  then have "takeWhile (\<lambda>a. key_less (MemComparator U) (mem_entry a) (mem_entry e)) es = takeWhile (\<lambda>a. key_less (InternalKeyComparator U) (fst a) (fst e)) es"
    "dropWhile (\<lambda>a. key_less (MemComparator U) (mem_entry a) (mem_entry e)) es = dropWhile (\<lambda>a. key_less (InternalKeyComparator U) (fst a) (fst e)) es"
    by (auto intro: takeWhile_cong dropWhile_cong)
  then show ?thesis by (simp add: insert_key_def insert_entry_def takeWhile_map dropWhile_map comp_def)
qed

lemma set_insert_entry: "set (insert_entry U e es) = insert e (set es)"
proof -
  have "set (takeWhile P es) \<union> set (dropWhile P es) = set es" for P by (metis set_append takeWhile_dropWhile_id)
  then show ?thesis by (auto simp: insert_entry_def)
qed

lemma length_insert_entry: "length (insert_entry U e es) = Suc (length es)"
proof -
  have "length (takeWhile P es) + length (dropWhile P es) = length es" for P
    by (simp only: takeWhile_dropWhile_id flip: length_append)
  then show ?thesis by (simp add: insert_entry_def)
qed

lemma MemTable_Add_inv:
  assumes inv: "mem_inv U valid es mt" and base: "aligned_blocks base" and a: "valid (ad_key a)" "length (ad_value a) < 2 ^ 32"
    and new: "\<forall>e \<in> set es. internal_Compare U (fst (added a)) (fst e) \<noteq> Some 0"
  shows "\<exists>mt'. MemTable_Add base (ad_sequence a) (ad_type a) (ad_key a) (ad_value a) mt = Some mt' \<and> mem_inv U valid (insert_entry U (added a) es) mt'"
proof -
  let ?n = "of_nat (VarintLength (of_nat (length (ad_key a)) + 8)) + (of_nat (length (ad_key a)) + 8) +
      of_nat (VarintLength (of_nat (length (ad_value a)))) + of_nat (length (ad_value a)) :: size_t"
  obtain ns h R where ns: "mt_comparator mt = U" "arena_inv R (mt_arena mt)" "skip_inv (MemComparator U) (mem_valid valid) ns h (mt_table mt)"
      "map (node_key (mt_table mt)) ns = map mem_entry es" and es: "\<forall>e \<in> set es. internal_valid valid (fst e) \<and> length (snd e) < 2 ^ 32"
    using inv by (auto simp: mem_inv_def)
  have v: "internal_valid valid (fst (added a))" using a(1) by (simp add: added_def)
  note enc = encoded_entry [OF a, of "push_bit 8 (ad_sequence a) OR ValueType_num (ad_type a)", folded added_def]
  have "0 < length (mem_entry (added a))" by (simp add: mem_entry_def added_def EncodeKey_def)
  then have "0 < ?n" using enc(2) by (simp add: word_less_nat_alt)
  then obtain p arena' where ar: "Allocate ?n (mt_arena mt) = Some (p, arena')" "arena_inv (R @ [(p, unat ?n)]) arena'"
    using Allocate_inv [OF ns(2)] by blast
  have "mem_Compare U (mem_entry (added a)) (node_key (mt_table mt) n) \<noteq> Some 0" if "n \<in> set ns" for n
  proof -
    have "node_key (mt_table mt) n \<in> set (map mem_entry es)" using that ns(4) by (metis image_eqI list.set_map)
    then obtain e where "e \<in> set es" "node_key (mt_table mt) n = mem_entry e" by auto
    then show ?thesis using new mem_Compare_slices [OF mem_entry_slice [OF v] mem_entry_slice] es by simp
  qed
  then obtain l' arena'' R' ns' h' where ins: "Insert base (MemComparator U) (mem_entry (added a)) (mt_table mt, arena') = Some (l', arena'')"
      "arena_inv R' arena''" "skip_inv (MemComparator U) (mem_valid valid) ns' h' l'"
      "map (node_key l') ns' = insert_key (MemComparator U) (mem_entry (added a)) (map (node_key (mt_table mt)) ns)"
    using key_order.Insert_at [OF mem_order ns(3) mem_entry_valid [OF v] _ ar(2) base] by auto
  have "map (node_key l') ns' = map mem_entry (insert_entry U (added a) es)"
    unfolding ins(4) ns(4) using insert_entry_keys [OF _ v] es by blast
  moreover have "\<forall>e \<in> set (insert_entry U (added a) es). internal_valid valid (fst e) \<and> length (snd e) < 2 ^ 32"
    using es v a(2) by (auto simp: set_insert_entry added_def)
  ultimately have "mem_inv U valid (insert_entry U (added a) es) (mt\<lparr>mt_table := l', mt_arena := arena''\<rparr>)"
    using ins(2,3) ns(1) unfolding mem_inv_def by auto
  moreover have "MemTable_Add base (ad_sequence a) (ad_type a) (ad_key a) (ad_value a) mt = Some (mt\<lparr>mt_table := l', mt_arena := arena''\<rparr>)"
    unfolding MemTable_Add_def Let_def ns(1) enc(1) using ar(1) ins(1) enc(2) by simp
  ultimately show ?thesis by blast
qed

text \<open>A history is added, and its entries end up in order.\<close>

lemma added_apart:
  assumes "ad_sequence a < ad_sequence b" "ad_sequence b \<le> kMaxSequenceNumber"
  shows "internal_Compare U (fst (added b)) (fst (added a)) \<noteq> Some 0"
proof -
  have "unat (ad_sequence a) < unat (ad_sequence b)" using assms(1) by (simp add: word_less_nat_alt)
  then have "(push_bit 8 (ad_sequence b) OR ValueType_num (ad_type b)) \<noteq> (push_bit 8 (ad_sequence a) OR ValueType_num (ad_type a))"
    using added_tag [of b] added_tag [of a] assms by (auto simp: word_unat_eq_iff)
  then show ?thesis by (auto simp: added_def internal_Compare_ikey split: option.splits)
qed

lemma add_all_inv:
  assumes "mem_inv U valid es mt" "aligned_blocks base" "set es = added ` set bs" "history valid (bs @ as)"
  shows "\<exists>mt' es'. add_all base as mt = Some mt' \<and> mem_inv U valid es' mt' \<and> set es' = added ` set (bs @ as) \<and>
    length es' = length es + length as"
  using assms
proof (induction as arbitrary: es mt bs)
  case (Cons a as)
  have a: "valid (ad_key a)" "length (ad_value a) < 2 ^ 32" using Cons.prems(4) by (auto simp: history_def)
  have "internal_Compare U (fst (added a)) (fst e) \<noteq> Some 0" if "e \<in> set es" for e
    using that Cons.prems(3,4) added_apart by (auto simp: history_def sorted_wrt_append)
  then obtain mt' where mt': "MemTable_Add base (ad_sequence a) (ad_type a) (ad_key a) (ad_value a) mt = Some mt'"
      "mem_inv U valid (insert_entry U (added a) es) mt'"
    using MemTable_Add_inv [OF Cons.prems(1,2) a] by blast
  then show ?case
    using Cons.IH [OF mt'(2) assms(2), of "bs @ [a]"] Cons.prems(3,4) by (simp add: set_insert_entry length_insert_entry)
qed auto

lemma mem_sorted:
  assumes "mem_inv U valid es mt"
  shows "sorted_wrt (\<lambda>a b. key_less (InternalKeyComparator U) (fst a) (fst b)) es"
proof -
  obtain ns h where ns: "skip_inv (MemComparator U) (mem_valid valid) ns h (mt_table mt)" "map (node_key (mt_table mt)) ns = map mem_entry es"
    and es: "\<forall>e \<in> set es. internal_valid valid (fst e)" using assms by (auto simp: mem_inv_def)
  have "sorted_wrt (key_less (MemComparator U)) (map (node_key (mt_table mt)) ns)" using ns(1) by (simp add: skip_inv_def sorted_wrt_map)
  then have "sorted_wrt (\<lambda>a b. key_less (MemComparator U) (mem_entry a) (mem_entry b)) es" unfolding ns(2) by (simp add: sorted_wrt_map)
  moreover have "key_less (InternalKeyComparator U) (fst a) (fst b)"
    if "a \<in> set es" "b \<in> set es" "key_less (MemComparator U) (mem_entry a) (mem_entry b)" for a b
    using mem_less_slices(1) [OF mem_entry_slice mem_entry_slice, of a b] es that by blast
  ultimately show ?thesis by (rule sorted_wrt_mono_rel [rotated])
qed

text \<open>A seek to a look-up key lands on the last addition that the snapshot sees, if there is one.\<close>

lemma compare_0_iff: "valid a \<Longrightarrow> valid b \<Longrightarrow> cmp_Compare U a b = Some 0 \<longleftrightarrow> key_le U a b \<and> \<not> key_less U a b"
  using compare_total [of a b] by (auto simp: key_le_def key_less_def)

lemma seen_not_before:
  assumes "valid (ad_key a)" "ad_sequence a \<le> kMaxSequenceNumber" "valid k" "s \<le> kMaxSequenceNumber" "cmp_Compare U (ad_key a) k = Some 0"
  shows "ad_sequence a \<le> s \<longleftrightarrow> \<not> key_less (InternalKeyComparator U) (fst (added a)) (ikey k (push_bit 8 s OR ValueType_num kTypeValue))"
proof -
  let ?m = "push_bit 8 (ad_sequence a) OR ValueType_num (ad_type a)" and ?n = "push_bit 8 s OR ValueType_num kTypeValue"
  have "unat ?n = 256 * unat s + 1" using packed_unat [of s kTypeValue] assms(4) by (simp add: seq_bound)
  then have "ad_sequence a \<le> s \<longleftrightarrow> \<not> ?n < ?m" using added_tag [OF assms(2)] by (auto simp: word_le_nat_alt word_less_nat_alt)
  then show ?thesis using assms(5) compare_0_iff [OF assms(1,3)] by (simp add: added_def internal_less [OF assms(1,3)])
qed

lemma latest_none:
  assumes "history valid as" "set es = added ` set as" "valid k" "s \<le> kMaxSequenceNumber" "latest U s k as = None"
    and j: "j = lower_bound (InternalKeyComparator U) es (ikey k (push_bit 8 s OR ValueType_num kTypeValue))" "j < length es" "es ! j = added b" "b \<in> set as"
  shows "cmp_Compare U (ad_key b) k \<noteq> Some 0"
proof
  assume b: "cmp_Compare U (ad_key b) k = Some 0"
  have "\<not> key_less (InternalKeyComparator U) (fst (added b)) (ikey k (push_bit 8 s OR ValueType_num kTypeValue))"
    using lower_bound_at [of "InternalKeyComparator U" es] j by metis
  then have "ad_sequence b \<le> s" using seen_not_before [OF _ _ assms(3,4) b] assms(1) j(4) by (auto simp: history_def)
  then show False using assms(5) b j(4) by (auto simp: latest_def Let_def filter_empty_conv split: if_splits)
qed

lemma latest_some:
  assumes as: "history valid as" "set es = added ` set as" and k: "valid k" "s \<le> kMaxSequenceNumber" and a: "latest U s k as = Some a"
    and so: "sorted_wrt (\<lambda>a b. key_less (InternalKeyComparator U) (fst a) (fst b)) es"
    and j: "j = lower_bound (InternalKeyComparator U) es (ikey k (push_bit 8 s OR ValueType_num kTypeValue))"
  shows "j < length es \<and> es ! j = added a \<and> a \<in> set as \<and> cmp_Compare U (ad_key a) k = Some 0"
proof -
  let ?t = "ikey k (push_bit 8 s OR ValueType_num kTypeValue)" and ?less = "key_less (InternalKeyComparator U)"
  let ?seen = "filter (\<lambda>a. ad_sequence a \<le> s \<and> cmp_Compare U (ad_key a) k = Some 0) as"
  have seen: "?seen \<noteq> []" "a = last ?seen" using a by (auto simp: latest_def Let_def split: if_splits)
  have "a \<in> set ?seen" unfolding seen(2) using seen(1) by (rule last_in_set)
  then have a': "a \<in> set as" "ad_sequence a \<le> s" "cmp_Compare U (ad_key a) k = Some 0" by auto
  have ok: "valid (ad_key b)" "ad_sequence b \<le> kMaxSequenceNumber" if "b \<in> set as" for b using as(1) that by (auto simp: history_def)
  have "\<not> ?less (fst (added a)) ?t" using seen_not_before [OF ok [OF a'(1)] k a'(3)] a'(2) by simp
  moreover obtain p where p: "p < length es" "es ! p = added a" using as(2) a'(1) by (metis imageI in_set_conv_nth)
  ultimately have jp: "j \<le> p" using lower_bound_less [of p "InternalKeyComparator U" es ?t] by (cases "p < j") (simp_all add: j)
  moreover have "es ! j = added a"
  proof (cases "j = p")
    case False
    then have lt: "j < p" using jp by linarith
    obtain b where b: "b \<in> set as" "es ! j = added b" using as(2) lt p(1) by (metis (no_types, lifting) dual_order.strict_trans imageE nth_mem)
    have "\<not> ?less (fst (added b)) ?t" using lower_bound_at [of "InternalKeyComparator U" es ?t] j lt p(1) b(2) by simp
    then have notless: "\<not> key_less U (ad_key b) k" by (simp add: added_def internal_less [OF ok(1) [OF b(1)] k(1)])
    have "?less (fst (added b)) (fst (added a))" using so lt p b(2) by (metis sorted_wrt_iff_nth_less)
    then have ba: "key_less U (ad_key b) (ad_key a) \<or> key_le U (ad_key b) (ad_key a) \<and>
        (push_bit 8 (ad_sequence a) OR ValueType_num (ad_type a)) < (push_bit 8 (ad_sequence b) OR ValueType_num (ad_type b))"
      by (simp add: added_def internal_less [OF ok(1) [OF b(1)] ok(1) [OF a'(1)]])
    have ak: "key_le U (ad_key a) k" using a'(3) compare_0_iff [OF ok(1) [OF a'(1)] k(1)] by blast
    have "key_le U (ad_key b) k" using ba ak compare_trans [OF ok(1) [OF b(1)] ok(1) [OF a'(1)] k(1)] less_imp_le by blast
    then have b0: "cmp_Compare U (ad_key b) k = Some 0" using notless compare_0_iff [OF ok(1) [OF b(1)] k(1)] by blast
    have "ad_sequence b \<le> s" using seen_not_before [OF ok [OF b(1)] k b0] \<open>\<not> ?less (fst (added b)) ?t\<close> by blast
    then have "b \<in> set ?seen" using b(1) b0 by simp
    moreover have "sorted_wrt (\<lambda>a b. ad_sequence a < ad_sequence b) ?seen" using as(1) by (simp add: history_def sorted_wrt_filter)
    ultimately have "b = a \<or> ad_sequence b < ad_sequence a" unfolding seen(2) using sorted_last by fast
    moreover have "\<not> key_less U (ad_key b) (ad_key a)" using less_le_trans [OF ok(1) [OF b(1)] ok(1) [OF a'(1)] k(1) _ ak] notless by blast
    ultimately show ?thesis
      using ba added_tag [OF ok(2) [OF b(1)]] added_tag [OF ok(2) [OF a'(1)]] by (auto simp: word_less_nat_alt b(2) split: if_splits)
  qed (use p in simp)
  ultimately show ?thesis using p(1) a'(1,3) by simp
qed

text \<open>\<open>Get\<close> on the entry the seek finds.\<close>

lemma lookup_key_eq:
  assumes "valid k" "s \<le> kMaxSequenceNumber"
  shows "\<exists>lk. new_LookupKey k s = Some lk \<and> lookup_user_key lk = k \<and>
    memtable_key lk = EncodeKey (ikey k (push_bit 8 s OR ValueType_num kTypeValue))"
proof -
  have "PackSequenceAndType s kValueTypeForSeek = Some (push_bit 8 s OR ValueType_num kTypeValue)"
    using assms(2) by (simp add: PackSequenceAndType_eq seq_bound kValueTypeForSeek_def)
  moreover have "length (EncodeVarint32 (of_nat (length k + 8))) \<le> 5" by (rule length_EncodeVarint32)
  ultimately show ?thesis by (simp add: new_LookupKey_def Let_def lookup_user_key_def memtable_key_def EncodeKey_def PutVarint32_def)
qed

lemma entry_pointer:
  assumes "valid (ad_key a)"
  shows "GetVarint32Ptr (mem_entry (added a)) = Some (of_nat (length (ad_key a) + 8), fst (added a) @ EncodeKey (ad_value a))"
    "unat (of_nat (length (ad_key a) + 8) - 8 :: u32) = length (ad_key a)" "unat (of_nat (length (ad_key a) + 8) :: u32) = length (ad_key a) + 8"
proof -
  have n: "length (ad_key a) + 8 < 2 ^ 32" using valid_short assms by blast
  show "GetVarint32Ptr (mem_entry (added a)) = Some (of_nat (length (ad_key a) + 8), fst (added a) @ EncodeKey (ad_value a))"
    using GetVarint32Ptr_leb128 [of "of_nat (length (ad_key a) + 8)" "fst (added a) @ EncodeKey (ad_value a)"]
    by (simp add: mem_entry_def added_def EncodeKey_def PutVarint32_def EncodeVarint32_leb128)
  show "unat (of_nat (length (ad_key a) + 8) :: u32) = length (ad_key a) + 8" using n by (rule leb128_length_u32)
  have "(of_nat (length (ad_key a) + 8) - 8 :: u32) = of_nat (length (ad_key a))" by simp
  then show "unat (of_nat (length (ad_key a) + 8) - 8 :: u32) = length (ad_key a)" using n by (simp only: leb128_length_u32)
qed

lemma tag_type:
  assumes "ad_sequence a \<le> kMaxSequenceNumber"
  shows "(push_bit 8 (ad_sequence a) OR ValueType_num (ad_type a)) AND 0xFF = ValueType_num (ad_type a)"
proof -
  have "(push_bit 8 (ad_sequence a) OR ValueType_num (ad_type a)) AND 0xFF = take_bit 8 (ValueType_num (ad_type a))"
  proof -
    have "(0xFF :: u64) = mask 8" by (simp add: mask_eq_exp_minus_1)
    then show ?thesis by (simp only: take_bit_eq_mask [symmetric]) (rule bit_word_eqI, auto simp: bit_simps)
  qed
  then show ?thesis by (cases "ad_type a") (simp_all add: ValueType_num_def)
qed

lemma MemTable_Get_found:
  assumes "mt_comparator mt = U" "sli_Seek (MemComparator U) (mt_table mt) (memtable_key lk) = Some (Some n)"
    and "node_key (mt_table mt) n = mem_entry (added a)" and a: "valid (ad_key a)" "length (ad_value a) < 2 ^ 32" "ad_sequence a \<le> kMaxSequenceNumber"
    and k: "lookup_user_key lk = k" "valid k"
  shows "MemTable_Get lk val st mt = Some (if cmp_Compare U (ad_key a) k = Some 0 then answer (Some a) val st else (False, val, st))"
proof -
  obtain c where c: "cmp_Compare U (ad_key a) k = Some c" using compare_total [OF a(1) k(2)] by blast
  note tag = tag_type [OF a(3)]
  define tagged where "tagged = push_bit 8 (ad_sequence a) OR ValueType_num (ad_type a)"
  obtain len q where ptr: "GetVarint32Ptr (mem_entry (added a)) = Some (len, q)" "unat (len - 8) = length (ad_key a)" "unat len = length (ad_key a) + 8"
      and q: "q = ad_key a @ EncodeFixed64 tagged @ EncodeKey (ad_value a)"
    using entry_pointer [OF a(1)] by (simp add: added_def tagged_def)
  have v: "entry_slice (EncodeKey (ad_value a)) = Some (ad_value a, [])" using entry_slice_EncodeKey [OF a(2), of "[]"] by simp
  have parts: "take (length (ad_key a)) q = ad_key a" "drop (length (ad_key a)) q = EncodeFixed64 tagged @ EncodeKey (ad_value a)"
    "drop (length (ad_key a) + 8) q = EncodeKey (ad_value a)" "length (ad_key a) + 8 \<le> length q"
    by (simp_all add: q)
  have key: "sli_key (mt_table mt) (Some n) = Some (mem_entry (added a))" using assms(3) by (simp add: sli_key_def)
  show ?thesis
    unfolding MemTable_Get_def Let_def assms(1,2) k(1)
    by (cases "ad_type a") (simp_all add: key ptr parts c v answer_def ValueType_num_def tag [folded tagged_def])
qed

lemma MemTable_Get_at:
  assumes inv: "mem_inv U valid es mt" and as: "history valid as" "set es = added ` set as" and k: "valid k" "s \<le> kMaxSequenceNumber"
  shows "\<exists>lk. new_LookupKey k s = Some lk \<and> MemTable_Get lk val st mt = Some (answer (latest U s k as) val st)"
proof -
  let ?t = "ikey k (push_bit 8 s OR ValueType_num kTypeValue)"
  let ?j = "lower_bound (InternalKeyComparator U) es ?t"
  obtain lk where lk: "new_LookupKey k s = Some lk" "lookup_user_key lk = k" "memtable_key lk = EncodeKey ?t" using lookup_key_eq [OF k] by blast
  have U: "mt_comparator mt = U" using inv by (simp add: mem_inv_def)
  obtain node where node: "sli_Seek (MemComparator U) (mt_table mt) (memtable_key lk) = Some node" "mem_at U valid es mt node ?j"
    using iterator.seek_at [OF mem_iterator [OF inv] mem_at_start [OF inv], of ?t] k(1) by (auto simp: MemTableIterator_def Let_def U lk(3))
  then obtain ns where ns: "map (node_key (mt_table mt)) ns = map mem_entry es" "sli_at ns node ?j" by (auto simp: mem_at_def)
  have len: "length ns = length es" using ns(1) by (rule map_eq_imp_length_eq)
  note so = mem_sorted [OF inv]
  show ?thesis
  proof (cases "?j < length es")
    case False
    then have "latest U s k as = None" using latest_some [OF as k _ so refl] by (cases "latest U s k as") auto
    moreover have "node = None" using ns(2) False len by (simp add: sli_at_def)
    ultimately show ?thesis using lk(1) node(1) by (simp add: MemTable_Get_def U answer_def)
  next
    case True
    then obtain b where b: "b \<in> set as" "es ! ?j = added b" using as(2) nth_mem [OF True] by auto
    have ok: "valid (ad_key b)" "length (ad_value b) < 2 ^ 32" "ad_sequence b \<le> kMaxSequenceNumber" using as(1) b(1) by (auto simp: history_def)
    have n: "node = Some (ns ! ?j)" "node_key (mt_table mt) (ns ! ?j) = mem_entry (added b)"
      using ns(2) mem_node(1) [OF ns(1)] True len b(2) by (simp_all add: sli_at_def)
    note get = MemTable_Get_found [OF U node(1) [unfolded n(1)] n(2) ok lk(2) k(1), of val st]
    show ?thesis
    proof (cases "latest U s k as")
      case None
      then show ?thesis using get latest_none [OF as k None refl True b(2,1)] lk(1) by (simp add: answer_def)
    next
      case (Some a)
      then have l: "added b = added a" "a \<in> set as" "cmp_Compare U (ad_key a) k = Some 0" using latest_some [OF as k Some so refl] b(2) by auto
      have ok': "valid (ad_key a)" "length (ad_value a) < 2 ^ 32" "ad_sequence a \<le> kMaxSequenceNumber" using as(1) l(2) by (auto simp: history_def)
      show ?thesis using MemTable_Get_found [OF U node(1) [unfolded n(1)] n(2) [unfolded l(1)] ok' lk(2) k(1), of val st] l(3) Some lk(1) by simp
    qed
  qed
qed

text \<open>What a snapshot sees of the entries of a history.\<close>

lemma added_parsed:
  assumes "ad_sequence a \<le> kMaxSequenceNumber"
  shows "ParseInternalKey (fst (added a)) = Some \<lparr>pk_user_key = ad_key a, pk_sequence = ad_sequence a, pk_type = ad_type a\<rparr>"
    "user_key_of (added a) = ad_key a" "eligible s (added a) \<longleftrightarrow> ad_sequence a \<le> s" "is_value (added a) \<longleftrightarrow> ad_type a = kTypeValue"
proof -
  have u: "unat (ad_sequence a) < 2 ^ 56" using assms by (simp add: seq_bound)
  show p: "ParseInternalKey (fst (added a)) = Some \<lparr>pk_user_key = ad_key a, pk_sequence = ad_sequence a, pk_type = ad_type a\<rparr>"
    using pack_parts [OF u, of "ad_type a"] by (cases "ad_type a") (simp_all add: added_def ParseInternalKey_ikey ValueType_num_def)
  show "user_key_of (added a) = ad_key a" by (simp add: user_key_of_def added_def)
  show "eligible s (added a) \<longleftrightarrow> ad_sequence a \<le> s" "is_value (added a) \<longleftrightarrow> ad_type a = kTypeValue"
    by (simp_all add: eligible_def is_value_def p)
qed

lemma mem_internal_entries:
  assumes inv: "mem_inv U valid es mt" and as: "history valid as" "set es = added ` set as"
  shows "internal_entries U valid es"
proof -
  have "ParseInternalKey (fst e) \<noteq> None \<and> valid (user_key_of e) \<and> length (fst e) + length (snd e) < 2 ^ 63" if e: "e \<in> set es" for e
  proof -
    obtain a where a: "a \<in> set as" "e = added a" using e as(2) by blast
    then have ok: "valid (ad_key a)" "ad_sequence a \<le> kMaxSequenceNumber" "length (ad_value a) < 2 ^ 32" using as(1) by (auto simp: history_def)
    show ?thesis using added_parsed(1,2) [OF ok(2)] ok(1,3) valid_short [OF ok(1)] by (simp add: a(2)) (simp add: added_def)
  qed
  then show ?thesis using mem_sorted [OF inv] by (simp add: internal_entries_def)
qed

lemma newer_before:
  assumes as: "history valid as" and so: "sorted_wrt (\<lambda>a b. key_less (InternalKeyComparator U) (fst a) (fst b)) es"
    and es: "i < length es" "j < length es" "es ! i = added a" "es ! j = added b" "a \<in> set as" "b \<in> set as"
    and ab: "ad_sequence a < ad_sequence b" "cmp_Compare U (ad_key b) (ad_key a) = Some 0"
  shows "j < i"
proof (rule ccontr)
  let ?tag = "\<lambda>a. push_bit 8 (ad_sequence a) OR ValueType_num (ad_type a)"
  have ok: "valid (ad_key a)" "ad_sequence a \<le> kMaxSequenceNumber" "valid (ad_key b)" "ad_sequence b \<le> kMaxSequenceNumber"
    using as es(5,6) by (auto simp: history_def)
  have "?tag a < ?tag b" using added_tag [OF ok(2)] added_tag [OF ok(4)] ab(1) by (simp add: word_less_nat_alt)
  moreover have "\<not> key_less U (ad_key a) (ad_key b)" using ab(2) not_le [OF ok(3,1)] by (auto simp: key_le_def)
  moreover assume "\<not> j < i"
  then have "j = i \<or> key_less (InternalKeyComparator U) (fst (added a)) (fst (added b))"
    using so es by (metis linorder_neqE_nat sorted_wrt_iff_nth_less)
  then have "?tag b = ?tag a \<or> key_less U (ad_key a) (ad_key b) \<or> key_le U (ad_key a) (ad_key b) \<and> ?tag b < ?tag a"
    using es(3,4) by (auto simp: added_def internal_less [OF ok(1,3)])
  ultimately show False by auto
qed

lemma shown_latest:
  assumes as: "history valid as" "set es = added ` set as" and so: "sorted_wrt (\<lambda>a b. key_less (InternalKeyComparator U) (fst a) (fst b)) es"
    and i: "i < length es" "es ! i = added a" "a \<in> set as"
  shows "shown U s es i \<longleftrightarrow> ad_type a = kTypeValue \<and> latest U s (ad_key a) as = Some a"
proof -
  let ?seen = "filter (\<lambda>b. ad_sequence b \<le> s \<and> cmp_Compare U (ad_key b) (ad_key a) = Some 0) as"
  let ?tag = "\<lambda>a. push_bit 8 (ad_sequence a) OR ValueType_num (ad_type a)"
  have ok: "valid (ad_key b)" "ad_sequence b \<le> kMaxSequenceNumber" if "b \<in> set as" for b using as(1) that by (auto simp: history_def)
  note va = ok(1) [OF i(3)]
  have seen_sorted: "sorted_wrt (\<lambda>a b. ad_sequence a < ad_sequence b) ?seen" using as(1) by (simp add: history_def sorted_wrt_filter)
  have less: "key_less (InternalKeyComparator U) (fst (added b)) (fst (added a)) \<longleftrightarrow>
      key_less U (ad_key b) (ad_key a) \<or> key_le U (ad_key b) (ad_key a) \<and> ?tag a < ?tag b" if "b \<in> set as" for b
    by (simp add: added_def internal_less [OF ok(1) [OF that] va])
  have tag: "?tag a < ?tag b \<Longrightarrow> \<not> ad_sequence b < ad_sequence a" if "b \<in> set as" for b
    using added_tag [OF ok(2) [OF that]] added_tag [OF ok(2) [OF i(3)]] by (auto simp: word_less_nat_alt split: if_splits)
  show ?thesis
  proof
    assume sh: "shown U s es i"
    then have a: "ad_sequence a \<le> s" "ad_type a = kTypeValue" using added_parsed(3,4) [OF ok(2) [OF i(3)]] by (simp_all add: shown_def i(2))
    then have in_seen: "a \<in> set ?seen" using i(3) va by (simp add: compare_refl)
    then have ne: "?seen \<noteq> []" by (auto simp: filter_empty_conv)
    then have "last ?seen \<in> set ?seen" by (rule last_in_set)
    then obtain b where b: "b = last ?seen" "b \<in> set as" "ad_sequence b \<le> s" "cmp_Compare U (ad_key b) (ad_key a) = Some 0" by auto
    have "b = a"
    proof (rule ccontr)
      assume "b \<noteq> a"
      then have "ad_sequence a < ad_sequence b" using sorted_last [OF seen_sorted in_seen] b(1) by auto
      moreover have "\<not> key_less U (ad_key b) (ad_key a)" using b(4) by (simp add: key_less_def)
      moreover obtain j where j: "j < length es" "es ! j = added b" using as(2) b(2) by (metis imageI in_set_conv_nth)
      ultimately have "j < i" using newer_before [OF as(1) so i(1) j(1) i(2) j(2) i(3) b(2)] b(4) by blast
      then have "key_less U (ad_key b) (ad_key a)" using sh j(2) b(3) added_parsed(2,3) [OF ok(2) [OF b(2)]] added_parsed(2) [OF ok(2) [OF i(3)]]
        by (auto simp: shown_def i(2))
      then show False using \<open>\<not> key_less U (ad_key b) (ad_key a)\<close> by blast
    qed
    then show "ad_type a = kTypeValue \<and> latest U s (ad_key a) as = Some a" using a(2) ne b(1) by (simp add: latest_def Let_def)
  next
    assume la: "ad_type a = kTypeValue \<and> latest U s (ad_key a) as = Some a"
    then have seen: "?seen \<noteq> []" "a = last ?seen" by (auto simp: latest_def Let_def split: if_splits)
    have "a \<in> set ?seen" using last_in_set [OF seen(1), folded seen(2)] .
    then have sa: "ad_sequence a \<le> s" by simp
    have "key_less U (ad_key b) (ad_key a)" if j: "j < i" "es ! j = added b" "b \<in> set as" "ad_sequence b \<le> s" for j b
    proof (rule ccontr)
      assume no: "\<not> key_less U (ad_key b) (ad_key a)"
      have "key_less (InternalKeyComparator U) (fst (added b)) (fst (added a))" using so j(1,2) i by (metis sorted_wrt_iff_nth_less)
      then have ba: "key_le U (ad_key b) (ad_key a)" "?tag a < ?tag b" using less [OF j(3)] no by blast+
      then have "b \<in> set ?seen" using j(3,4) no compare_0_iff [OF ok(1) [OF j(3)] va] by simp
      then have "b = a \<or> ad_sequence b < ad_sequence a" using sorted_last [OF seen_sorted, folded seen(2)] by blast
      then show False using ba(2) tag [OF j(3)] by auto
    qed
    moreover have "\<exists>b \<in> set as. es ! j = added b" if "j < i" for j using as(2) that i(1) nth_mem [of j es] by auto
    ultimately show "shown U s es i"
      unfolding shown_def i(2) using la sa added_parsed(2-4) [OF ok(2)] i(3) by (metis (no_types, lifting))
  qed
qed

lemma visible_latest:
  assumes as: "history valid as" "set es = added ` set as" and so: "sorted_wrt (\<lambda>a b. key_less (InternalKeyComparator U) (fst a) (fst b)) es"
  shows "set (visible U s es) = {(ad_key a, ad_value a) | a. a \<in> set as \<and> ad_type a = kTypeValue \<and> latest U s (ad_key a) as = Some a}"
proof -
  have ok: "ad_sequence a \<le> kMaxSequenceNumber" if "a \<in> set as" for a using as(1) that by (simp add: history_def)
  have pair: "(user_key_of (added a), snd (added a)) = (ad_key a, ad_value a)" for a by (simp add: user_key_of_def added_def)
  have "set (visible U s es) = (\<lambda>i. (user_key_of (es ! i), snd (es ! i))) ` {i. i < length es \<and> shown U s es i}"
    by (auto simp: visible_def shown_positions_def)
  also have "\<dots> = {(ad_key a, ad_value a) | a. a \<in> set as \<and> ad_type a = kTypeValue \<and> latest U s (ad_key a) as = Some a}" (is "_ = ?R")
  proof (intro equalityI subsetI)
    fix x assume "x \<in> (\<lambda>i. (user_key_of (es ! i), snd (es ! i))) ` {i. i < length es \<and> shown U s es i}"
    then obtain i where i: "i < length es" "shown U s es i" "x = (user_key_of (es ! i), snd (es ! i))" by blast
    obtain a where a: "a \<in> set as" "es ! i = added a" using nth_mem [OF i(1)] as(2) by auto
    show "x \<in> ?R" using shown_latest [OF as so i(1) a(2,1)] i(2,3) a pair by auto
  next
    fix x assume "x \<in> ?R"
    then obtain a where a: "x = (ad_key a, ad_value a)" "a \<in> set as" "ad_type a = kTypeValue \<and> latest U s (ad_key a) as = Some a" by blast
    obtain i where i: "i < length es" "es ! i = added a" using as(2) a(2) by (metis imageI in_set_conv_nth)
    have "shown U s es i" using shown_latest [OF as so i a(2)] a(3) by blast
    then show "x \<in> (\<lambda>i. (user_key_of (es ! i), snd (es ! i))) ` {i. i < length es \<and> shown U s es i}" using i a(1) pair [of a] by (intro image_eqI [where x = i]) simp_all
  qed
  finally show ?thesis .
qed

end

text \<open>Byte strings up to the bound, in their order.\<close>

definition short_key :: "byte list \<Rightarrow> bool" where
  "short_key k \<longleftrightarrow> length k + 8 < 2 ^ 32"

context short_comparator
begin

lemma bounded: "comparator C (\<lambda>k. valid k \<and> length k < n)"
proof
  fix a b assume ab: "valid a \<and> length a < n" "valid b \<and> length b < n"
  show "\<exists>s. cmp_FindShortestSeparator C a b = Some s \<and> (valid s \<and> length s < n) \<and> key_le C a s \<and> key_less C s b" if "key_less C a b"
    using separator [of a b] separator_length [of a b] that ab order_le_less_trans by blast
next
  fix a assume a: "valid a \<and> length a < n"
  show "\<exists>s. cmp_FindShortSuccessor C a = Some s \<and> (valid s \<and> length s < n) \<and> key_le C a s"
    using successor [of a] successor_length [of a] a order_le_less_trans by blast
next
  fix a b c assume "valid a \<and> length a < n" "valid b \<and> length b < n" "valid c \<and> length c < n" "key_le C a b" "key_le C b c"
  then show "key_le C a c" using compare_trans by blast
qed (use compare_total compare_swap no_separator in blast)+

end

interpretation short_memtable: memtable BytewiseComparator short_key
proof (intro memtable.intro memtable_axioms.intro)
  have "short_key = (\<lambda>k. True \<and> length k < 2 ^ 32 - 8)" by (auto simp: short_key_def fun_eq_iff)
  then show "comparator BytewiseComparator short_key" using bytewise_short.bounded [of "2 ^ 32 - 8"] by simp
qed (simp add: short_key_def)

section \<open>Properties\<close>

text \<open>C14. The table in memory keeps a history: after any additions with growing sequence numbers, \<open>Get\<close> with a
  look-up key for a user key and a snapshot returns the value of the last addition for this key that the snapshot sees,
  \<open>NotFound\<close> if that is a deletion, and false, with nothing changed, if there is none. No assertion fails, and no read leaves an entry.\<close>

theorem memtable_get_latest:
  assumes "comparator U valid" and "\<forall>k. valid k \<longrightarrow> length k + 8 < 2 ^ 32" and "aligned_blocks base"
    and "history valid as" and "valid k" and "s \<le> kMaxSequenceNumber"
  shows "\<exists>mt0 mt lk. new_MemTable base U = Some mt0 \<and> add_all base as mt0 = Some mt \<and> new_LookupKey k s = Some lk \<and>
    MemTable_Get lk val st mt = Some (answer (latest U s k as) val st)"
proof -
  have m: "memtable U valid" using assms(1,2) by (simp add: memtable_def memtable_axioms_def)
  obtain mt0 where mt0: "new_MemTable base U = Some mt0" "mem_inv U valid [] mt0" using memtable.new_MemTable_inv [OF m assms(3)] by blast
  obtain mt es where mt: "add_all base as mt0 = Some mt" "mem_inv U valid es mt" "set es = added ` set as"
    using memtable.add_all_inv [OF m mt0(2) assms(3), of "[]" as] assms(4) by auto
  show ?thesis using memtable.MemTable_Get_at [OF m mt(2) assms(4) mt(3) assms(5,6), of val st] mt0(1) mt(1) by blast
qed

text \<open>C5. The database iterator over the table in memory: after the same additions, \<open>SeekToFirst\<close> and \<open>Next\<close> deliver the
  user keys for which the last addition that the snapshot sees is a value, once each and in ascending order,
  with these values, and then the iterator is no longer valid.\<close>

theorem memtable_db_scan:
  assumes "comparator U valid" and "\<forall>k. valid k \<longrightarrow> length k + 8 < 2 ^ 32" and "aligned_blocks base"
    and "history valid as" and "s \<le> kMaxSequenceNumber"
  shows "\<exists>mt0 mt d d' kvs. new_MemTable base U = Some mt0 \<and> add_all base as mt0 = Some mt \<and>
    db_SeekToFirst U (MemTableIterator mt) (NewDBIterator MemTable_NewIterator s seed) = Some d \<and>
    scan (DbIterator U (MemTableIterator mt)) (length as) d = Some (kvs, d') \<and> \<not> di_valid d' \<and>
    sorted_wrt (\<lambda>a b. key_less U (fst a) (fst b)) kvs \<and>
    set kvs = {(ad_key a, ad_value a) | a. a \<in> set as \<and> ad_type a = kTypeValue \<and> latest U s (ad_key a) as = Some a}"
proof -
  have m: "memtable U valid" using assms(1,2) by (simp add: memtable_def memtable_axioms_def)
  obtain mt0 where mt0: "new_MemTable base U = Some mt0" "mem_inv U valid [] mt0" using memtable.new_MemTable_inv [OF m assms(3)] by blast
  obtain mt es where mt: "add_all base as mt0 = Some mt" "mem_inv U valid es mt" "set es = added ` set as" "length es = length as"
    using memtable.add_all_inv [OF m mt0(2) assms(3), of "[]" as] assms(4) by auto
  note so = memtable.mem_sorted [OF m mt(2)] and start = memtable.mem_at_start [OF m mt(2)]
  have db: "db_iterator U valid (MemTableIterator mt) es (mem_at U valid es mt) s"
    using assms(1,5) memtable.mem_iterator [OF m mt(2)] memtable.mem_internal_entries [OF m mt(2) assms(4) mt(3)]
    unfolding db_iterator_def db_iterator_axioms_def by blast
  obtain d d' where d: "db_SeekToFirst U (MemTableIterator mt) (NewDBIterator MemTable_NewIterator s seed) = Some d"
      "scan (DbIterator U (MemTableIterator mt)) (length as) d = Some (visible U s es, d')" "\<not> di_valid d'"
    using db_iterator.scan_visible [OF db start, of "length as" seed] length_visible_le [of U s es] mt(4) by auto
  have "set (visible U s es) = {(ad_key a, ad_value a) | a. a \<in> set as \<and> ad_type a = kTypeValue \<and> latest U s (ad_key a) as = Some a}"
    by (rule memtable.visible_latest [OF m assms(4) mt(3) so])
  then show ?thesis using mt0(1) mt(1) d visible_sorted by blast
qed

text \<open>The operations of a batch as a history.\<close>

fun op_key :: "batch_op \<Rightarrow> byte list" where
  "op_key (Put key val) = key"
| "op_key (Delete key) = key"

definition batch_additions :: "SequenceNumber \<Rightarrow> batch_op list \<Rightarrow> addition list" where
  "batch_additions seq ops = map call_addition (insert_calls seq ops)"

lemma batch_additions_nth:
  "length (batch_additions seq ops) = length ops"
  "i < length ops \<Longrightarrow> batch_additions seq ops ! i = call_addition (memtable_call (seq + of_nat i) (ops ! i))"
  by (simp_all add: batch_additions_def insert_calls_nth)

lemma call_addition_parts:
  "ad_sequence (call_addition (memtable_call seq op)) = seq" "ad_key (call_addition (memtable_call seq op)) = op_key op"
  "op_fits op \<Longrightarrow> length (ad_value (call_addition (memtable_call seq op))) < 2 ^ 32"
  by (cases op; simp add: call_addition_def memtable_call_def)+

lemma seq_plus: "unat (seq :: SequenceNumber) + i < 2 ^ 56 \<Longrightarrow> unat (seq + of_nat i) = unat seq + i"
  by (simp add: unat_word_ariths unat_of_nat)

lemma batch_history:
  assumes "\<forall>op \<in> set ops. valid (op_key op) \<and> op_fits op" "unat seq + length ops \<le> 2 ^ 56"
  shows "history valid (batch_additions seq ops)"
proof -
  let ?as = "batch_additions seq ops"
  have nth: "valid (ad_key (?as ! i)) \<and> length (ad_value (?as ! i)) < 2 ^ 32 \<and> unat (ad_sequence (?as ! i)) = unat seq + i"
    if "i < length ops" for i
    using assms that seq_plus [of seq i] call_addition_parts(3) [of "ops ! i"] by (simp add: batch_additions_nth call_addition_parts(1,2))
  have "valid (ad_key a) \<and> length (ad_value a) < 2 ^ 32 \<and> ad_sequence a \<le> kMaxSequenceNumber" if "a \<in> set ?as" for a
    using that nth assms(2) by (auto simp: in_set_conv_nth batch_additions_nth(1) seq_bound)
  moreover have "ad_sequence (?as ! i) < ad_sequence (?as ! j)" if "i < j" "j < length ops" for i j
    using nth [of i] nth [of j] that by (simp add: word_less_nat_alt)
  ultimately show ?thesis by (auto simp: history_def sorted_wrt_iff_nth_less batch_additions_nth(1))
qed

lemma filter_prefix: "(\<And>i. i < length xs \<Longrightarrow> P (xs ! i) \<longleftrightarrow> i < m) \<Longrightarrow> filter P xs = take m xs"
proof -
  assume p: "\<And>i. i < length xs \<Longrightarrow> P (xs ! i) \<longleftrightarrow> i < m"
  have "filter P (take m xs) = take m xs" "filter P (drop m xs) = []"
    using p by (auto simp: filter_id_conv filter_empty_conv in_set_conv_nth)
  then show ?thesis using filter_append [of P "take m xs" "drop m xs"] by simp
qed

lemma list_all2_filters: "list_all2 R xs ys \<Longrightarrow> (\<And>x y. R x y \<Longrightarrow> Q x = P y) \<Longrightarrow> list_all2 R (filter Q xs) (filter P ys)"
  by (induction rule: list_all2_induct) auto

lemma answer_latest:
  assumes "unat (seq + of_nat n) = unat seq + n" "unat seq + length ops \<le> 2 ^ 56" "n < length ops"
  shows "answer (latest U (seq + of_nat n) k (batch_additions seq ops)) val st = (
      case filter (\<lambda>op. cmp_Compare U (op_key op) k = Some 0) (rev (take (Suc n) ops)) of [] \<Rightarrow> (False, val, st)
      | Put _ v # _ \<Rightarrow> (True, v, st) | Delete _ # _ \<Rightarrow> (True, val, NotFound []))"
proof -
  let ?P = "\<lambda>op. cmp_Compare U (op_key op) k = Some 0" and ?Q = "\<lambda>a. cmp_Compare U (ad_key a) k = Some 0"
  let ?as = "batch_additions seq ops" and ?s = "seq + of_nat n"
  have early: "ad_sequence (?as ! i) \<le> ?s \<longleftrightarrow> i \<le> n" if "i < length ops" for i
    using seq_plus [of seq i] assms that by (simp add: batch_additions_nth call_addition_parts word_le_nat_alt)
  have "filter (\<lambda>a. ad_sequence a \<le> ?s \<and> ?Q a) ?as = filter ?Q (filter (\<lambda>a. ad_sequence a \<le> ?s) ?as)" by (simp add: conj_commute)
  also have "filter (\<lambda>a. ad_sequence a \<le> ?s) ?as = take (Suc n) ?as"
    using assms(3) early by (intro filter_prefix) (auto simp: batch_additions_nth(1))
  finally have seen: "filter (\<lambda>a. ad_sequence a \<le> ?s \<and> ?Q a) ?as = filter ?Q (take (Suc n) ?as)" .
  define R where "R = (\<lambda>a op. ad_key a = op_key op \<and> answer (Some a) val st = (case op of Put _ v \<Rightarrow> (True, v, st) | Delete _ \<Rightarrow> (True, val, NotFound [])))"
  have "R (call_addition (memtable_call s' op)) op" for s' op
    by (cases op) (simp_all add: R_def call_addition_def memtable_call_def answer_def)
  then have "list_all2 R ?as ops" by (simp add: list_all2_conv_all_nth batch_additions_nth)
  then have "list_all2 R (rev (take (Suc n) ?as)) (rev (take (Suc n) ops))" by (simp add: list_all2_rev1 list_all2_takeI del: take_Suc)
  then have "list_all2 R (filter ?Q (rev (take (Suc n) ?as))) (filter ?P (rev (take (Suc n) ops)))" by (rule list_all2_filters) (simp add: R_def)
  then show ?thesis
    by (cases "filter ?Q (rev (take (Suc n) ?as))"; cases "filter ?P (rev (take (Suc n) ops))")
      (auto simp: latest_def seen R_def rev_filter [symmetric] last_rev answer_def [of None] rev_swap)
qed

text \<open>C6. A batch that is written can be read: putting operations into a write batch with a sequence number, inserting it into a
  new table and looking a key up with the number of the \<open>n\<close>-th of them gives the value of the last of the first \<open>n\<close> operations on this
  key, \<open>NotFound\<close> if that is a deletion, and nothing if there is none: later operations of the batch are not seen.\<close>

theorem batch_write_read:
  assumes "comparator U valid" and "\<forall>k. valid k \<longrightarrow> length k + 8 < 2 ^ 32" and "aligned_blocks base"
    and "\<forall>op \<in> set ops. valid (op_key op) \<and> op_fits op" and "unat seq + length ops \<le> 2 ^ 56" and "length ops < 2 ^ 31" and "valid k"
    and "n < length ops"
  shows "\<exists>b c mt0 mt lk. build_batch ops WriteBatch_Clear = Some b \<and> SetSequence b seq = Some c \<and> new_MemTable base U = Some mt0 \<and>
    insert_batch base c mt0 = Some (OK, mt) \<and> new_LookupKey k (seq + of_nat n) = Some lk \<and>
    MemTable_Get lk val st mt = Some (
      case filter (\<lambda>op. cmp_Compare U (op_key op) k = Some 0) (rev (take (Suc n) ops)) of [] \<Rightarrow> (False, val, st)
      | Put _ v # _ \<Rightarrow> (True, v, st) | Delete _ # _ \<Rightarrow> (True, val, NotFound []))"
proof -
  have m: "memtable U valid" using assms(1,2) by (simp add: memtable_def memtable_axioms_def)
  obtain b where b: "build_batch ops WriteBatch_Clear = Some b" "batch_holds b 0 ops"
    using build_batch_holds [OF batch_holds_Clear, of ops] assms(6) by auto
  obtain c where c: "SetSequence b seq = Some c" "batch_holds c seq ops" using SetSequence_holds [OF b(2)] by blast
  have "InsertInto c = Some (insert_calls seq ops, OK)"
    using Iterate_holds [OF c(2)] assms(4) batch_holds_parts(4) [OF c(2)] by (simp add: InsertInto_def)
  moreover obtain mt0 where mt0: "new_MemTable base U = Some mt0" "mem_inv U valid [] mt0" using memtable.new_MemTable_inv [OF m assms(3)] by blast
  note h = batch_history [OF assms(4,5)]
  moreover obtain mt es where mt: "add_all base (batch_additions seq ops) mt0 = Some mt" "mem_inv U valid es mt" "set es = added ` set (batch_additions seq ops)"
    using memtable.add_all_inv [OF m mt0(2) assms(3), of "[]" "batch_additions seq ops"] h by auto
  ultimately have ins: "insert_batch base c mt0 = Some (OK, mt)" by (simp add: insert_batch_def batch_additions_def)
  have s: "unat (seq + of_nat n) = unat seq + n" using assms(5,8) by (intro seq_plus) simp
  then have "seq + of_nat n \<le> kMaxSequenceNumber" using assms(5,8) by (simp add: seq_bound)
  then obtain lk where lk: "new_LookupKey k (seq + of_nat n) = Some lk"
      "MemTable_Get lk val st mt = Some (answer (latest U (seq + of_nat n) k (batch_additions seq ops)) val st)"
    using memtable.MemTable_Get_at [OF m mt(2) h mt(3) assms(7)] by blast
  show ?thesis
    using b(1) c(1) mt0(1) ins lk answer_latest [OF s assms(5,8)] by (intro exI conjI) simp_all
qed

text \<open>A value of \<open>a\<close>, one of \<open>b\<close>, and the deletion of \<open>a\<close>.\<close>

definition sample_history :: "addition list" where
  "sample_history = [\<lparr>ad_sequence = 1, ad_type = kTypeValue, ad_key = [97], ad_value = [5]\<rparr>,
     \<lparr>ad_sequence = 2, ad_type = kTypeValue, ad_key = [98], ad_value = [7]\<rparr>,
     \<lparr>ad_sequence = 3, ad_type = kTypeDeletion, ad_key = [97], ad_value = []\<rparr>]"

lemma sample_history_ok: "history short_key sample_history"
  by (simp add: history_def sample_history_def short_key_def kMaxSequenceNumber_def)

lemma sample_latest:
  "latest BytewiseComparator 3 [97] sample_history = Some \<lparr>ad_sequence = 3, ad_type = kTypeDeletion, ad_key = [97], ad_value = []\<rparr>"
  "latest BytewiseComparator 2 [97] sample_history = Some \<lparr>ad_sequence = 1, ad_type = kTypeValue, ad_key = [97], ad_value = [5]\<rparr>"
  "latest BytewiseComparator 3 [98] sample_history = Some \<lparr>ad_sequence = 2, ad_type = kTypeValue, ad_key = [98], ad_value = [7]\<rparr>"
  by code_simp+

lemma short_keys: "\<forall>k. short_key k \<longrightarrow> length k + 8 < 2 ^ 32"
  by (simp add: short_key_def)

theorem memtable_get_latest_witness:
  "\<exists>mt0 mt lk. new_MemTable (\<lambda>b. 4096 * of_nat b) BytewiseComparator = Some mt0 \<and>
    add_all (\<lambda>b. 4096 * of_nat b) sample_history mt0 = Some mt \<and> new_LookupKey [97] 2 = Some lk \<and>
    MemTable_Get lk [] OK mt = Some (True, [5], OK)"
proof -
  have k: "short_key [97]" "(2 :: u64) \<le> kMaxSequenceNumber" by (simp_all add: short_key_def kMaxSequenceNumber_def)
  show ?thesis
    using memtable_get_latest [OF short_memtable.comparator_axioms short_keys page_blocks sample_history_ok k, of "[]" OK]
    unfolding sample_latest answer_def by simp
qed

theorem memtable_db_scan_witness:
  "\<exists>mt0 mt d d' kvs. new_MemTable (\<lambda>b. 4096 * of_nat b) BytewiseComparator = Some mt0 \<and>
    add_all (\<lambda>b. 4096 * of_nat b) sample_history mt0 = Some mt \<and>
    db_SeekToFirst BytewiseComparator (MemTableIterator mt) (NewDBIterator MemTable_NewIterator 3 301) = Some d \<and>
    scan (DbIterator BytewiseComparator (MemTableIterator mt)) (length sample_history) d = Some (kvs, d') \<and> \<not> di_valid d' \<and> set kvs = {([98], [7])}"
proof -
  have s: "(3 :: u64) \<le> kMaxSequenceNumber" by (simp add: kMaxSequenceNumber_def)
  have "{(ad_key a, ad_value a) | a. a \<in> set sample_history \<and> ad_type a = kTypeValue \<and> latest BytewiseComparator 3 (ad_key a) sample_history = Some a} =
      {([98], [7])}"
    using sample_latest(1,3)
    by (auto simp: sample_history_def intro!: exI [of _ "\<lparr>ad_sequence = 2, ad_type = kTypeValue, ad_key = [98], ad_value = [7]\<rparr>"])
  note seen = this
  from memtable_db_scan [OF short_memtable.comparator_axioms short_keys page_blocks sample_history_ok s, of 301]
  show ?thesis unfolding seen by (elim exE conjE, intro exI conjI) assumption+
qed

theorem batch_write_read_witness:
  "\<exists>b c mt0 mt lk. build_batch [Put [97] [5], Put [98] [7], Delete [97]] WriteBatch_Clear = Some b \<and> SetSequence b 41 = Some c \<and>
    new_MemTable (\<lambda>b. 4096 * of_nat b) BytewiseComparator = Some mt0 \<and> insert_batch (\<lambda>b. 4096 * of_nat b) c mt0 = Some (OK, mt) \<and>
    new_LookupKey [97] 42 = Some lk \<and> MemTable_Get lk [] OK mt = Some (True, [5], OK)"
proof -
  let ?ops = "[Put [97] [5], Put [98] [7], Delete [97]]"
  have ops: "\<forall>op \<in> set ?ops. short_key (op_key op) \<and> op_fits op" "unat (41 :: u64) + length ?ops \<le> 2 ^ 56" "length ?ops < 2 ^ 31" "short_key [97]" "1 < length ?ops"
    by (simp_all add: short_key_def)
  have last: "filter (\<lambda>op. cmp_Compare BytewiseComparator (op_key op) [97] = Some 0) (rev (take (Suc 1) ?ops)) = [Put [97] [5]]" by code_simp
  from batch_write_read [OF short_memtable.comparator_axioms short_keys page_blocks ops, of "[]" OK]
  show ?thesis unfolding last by simp
qed

end
