(* ===== verification/Spec2Isabelle.thy ===== *)
theory Spec2Isabelle
  imports Pb_Wire Base64 Cct_Messages Core_Messages Pb_Decode Ldb_Filter_Block Ldb_Version_Edit Ldb_Log_Roundtrip Ldb_Table_Correct Ldb_Memtable
begin

text \<open>
  A verification development for the C and C++ code of an iOS application and its pods: the
  protocol buffer runtime nanopb with the messages generated for it, the Base64 codec of the
  Firebase database client, and the key-value store leveldb, in which Firebase keeps its data.

  \<^bold>\<open>Conventions.\<close> A definition has the name of the function or type it models. Machine integers are
  words of their width (\<open>byte\<close>, \<open>u32\<close>, \<open>u64\<close>, \<open>size_t\<close> with 64 bits); sizes and
  offsets that the code bounds itself are \<open>nat\<close>. \<open>None\<close> of an operation is undefined behaviour or a
  failed assertion: an access outside an object, a null pointer, an undefined shift; errors that the
  code reports are values (\<open>False\<close> with a message in nanopb, \<open>Status\<close> in leveldb). So a theorem that an
  operation returns \<open>Some\<close> is a statement of memory safety. Functions that are arguments (system
  calls, callbacks, filter policies, comparators) stand for code that the caller supplies; what a
  client relies on is a locale, interpreted on the implementations of the repository.

  \<^bold>\<open>nanopb\<close> (\<open>Pods/nanopb\<close>). \<open>Pb_Prelude\<close> has the types and shared lemmas on words and byte lists,
  \<open>Leb128\<close> the reference for varints. \<open>Pb_Types\<close> models \<open>pb.h\<close> (type bits, descriptors, macros),
  \<open>Pb_Memory\<close> and \<open>Pb_Layout\<close> the byte-addressed memory and the layout of structures, \<open>Pb_Env\<close> the
  callbacks, \<open>Pb_Common\<close> the field iterator of \<open>pb_common.c\<close>, \<open>Pb_Istream\<close> and \<open>Pb_Varint\<close> the input
  streams and value decoders of \<open>pb_decode.c\<close>, \<open>Pb_Decode\<close> and \<open>Pb_Release\<close> its message decoder,
  \<open>Pb_Ostream\<close> and \<open>Pb_Encode\<close> the streams and the message encoder of \<open>pb_encode.c\<close>. \<open>Pb_Encode_Spec\<close>
  gives the wire format of a message in memory as a function and shows that the encoder writes it;
  \<open>Pb_Wire\<close> relates writers and readers of values. \<open>Pb_Descriptors\<close>, \<open>Cct_Messages\<close> and
  \<open>Core_Messages\<close> are the generated messages of the data transport and the core diagnostics. Submessages
  nest at most \<open>k\<close> deep in a call with fuel \<open>k\<close>; the descriptor arrays are not recursive, and the
  depth of the message is enough. The loop over the fields is bounded by the length of the input.

  \<^bold>\<open>Base64\<close> (\<open>fbase64.c\<close>) is complete in the theory of that name.

  \<^bold>\<open>leveldb\<close> (\<open>Pods/leveldb-library\<close>). The bottom layer: \<open>Ldb_Coding\<close> (\<open>util/coding\<close>), \<open>Ldb_Crc32c\<close>
  (\<open>util/crc32c\<close>, against a bitwise reference), \<open>Ldb_Bloom\<close> (hash and Bloom filter, the locale of filter
  policies), \<open>Ldb_Comparator\<close> (slices, the locale of comparators and the bytewise one), \<open>Ldb_Logging\<close>
  (numbers in text, file names), \<open>Ldb_Status\<close>, \<open>Ldb_Options\<close>, \<open>Ldb_Env\<close> (the locales of sequential,
  writable and random-access files and the Posix files over system calls given as arguments).
  Formats: \<open>Ldb_Dbformat\<close> (internal keys), \<open>Ldb_Write_Batch\<close>, \<open>Ldb_Version_Edit\<close>, \<open>Ldb_Log\<close> and
  \<open>Ldb_Log_Roundtrip\<close> (the write-ahead log and what survives a crash), \<open>Ldb_Filter_Block\<close>, \<open>Ldb_Format\<close>
  (handles, footer, reading a block). Iterators: \<open>Ldb_Iterator\<close> states the interface as a cursor into a
  list of entries; \<open>Ldb_Block\<close> and \<open>Ldb_Block_Correct\<close> model the block builder and the block iterator and
  show that it refines the cursor; \<open>Ldb_Two_Level\<close> does the same for the two-level iterator, over any
  index and blocks that do. Tables: \<open>Ldb_Table_Builder\<close> is \<open>table/table_builder.cc\<close>, \<open>Ldb_Table_Build\<close>,
  \<open>Ldb_Table_Written\<close> and \<open>Ldb_Table_Finish\<close> show what it writes, \<open>Ldb_Table\<close> is \<open>table/table.cc\<close>, and
  \<open>Ldb_Table_Correct\<close> puts writer and reader together. In memory: \<open>Ldb_Random\<close>, \<open>Ldb_Arena\<close> (disjoint regions),
  \<open>Ldb_Skiplist\<close> (\<open>db/skiplist.h\<close> on nodes with links, insertion store by store) and \<open>Ldb_Memtable\<close>. Reading:
  \<open>Ldb_Merger\<close> merges iterators that keep the contract into one that does, and \<open>Ldb_Db_Iter\<close> shows what a
  snapshot sees of internal entries; both are shown for any iterators below them, so that they apply to blocks,
  tables and memtables alike.

  \<^bold>\<open>What is shown.\<close> For the encoder: the bytes written, the size computed and the buffer bounds, for
  every message in memory. For the decoders: round trips, confinement to a substream, no read past the
  end. For leveldb: every encoder is inverted by its decoder; readers of untrusted bytes return on all
  input, and where they do not stay inside it the lemma that shows it is a finding; the log reader
  comes back whatever the system calls answer, and returns exactly the complete records of a truncated log; filters have no false negatives; the
  checksum routine computes CRC-32C; iterators refine a cursor into a sorted list, from the block up to
  the table that was written to a file and opened again, and from the skip list up to the iterator of the
  database; a look-up in a table finds every key; a look-up in a memtable finds the last write that its
  snapshot sees. Readers of the skip list see an insertion as one step.

  \<^bold>\<open>Not modelled.\<close> The application and the Objective-C libraries (views, network and callbacks of
  frameworks that are not in the repository); of leveldb the database object with its threads, the
  version set and compaction, block and table caches, repair, the environment's directories, locks and threads, and
  compression (Snappy is absent from the build).
\<close>

section \<open>The encoder, end to end\<close>

text \<open>The message the witnesses use: a \<open>NetworkConnectionInfo\<close> with both members present.\<close>

definition sample_mem :: mem where
  "sample_mem = object_mem 256 [1, 0, 0, 0, 0xFF, 0xFF, 0xFF, 0xFF, 1, 0, 0, 0, 100, 0, 0, 0]"

definition sample_bytes :: "byte list" where
  "sample_bytes = [8, 0xFF, 0xFF, 0xFF, 0xFF, 0xFF, 0xFF, 0xFF, 0xFF, 0xFF, 1, 16, 100]"

lemma sample_message: "message_bytes (cct_env cct_linked) 1 sample_mem
    (gdt_cct_NetworkConnectionInfo_fields cct_linked) 256 = Some sample_bytes"
  by code_simp

lemma sample_length: "length sample_bytes = 13"
  by (simp add: sample_bytes_def)

text \<open>C1. The encoder writes the wire format: if a message in memory has the encoding \<open>bs\<close>
  and the buffer has room for it, \<open>pb_encode\<close> succeeds, the buffer starts with exactly
  \<open>bs\<close> and is otherwise unchanged, \<open>bytes_written\<close> is its length, and memory is as before.\<close>

theorem encode_writes_wire_format:
  assumes "message_bytes env k m fs src = Some bs" and "length bs \<le> unat n"
    and "unat n \<le> length buf" and "unat n < 2 ^ 63"
  shows "pb_encode env k fs src m (pb_ostream_from_buffer buf n) = Some (True,
    (pb_ostream_from_buffer buf n)\<lparr>os_state := (bs @ drop (length bs) buf, length bs),
      os_bytes_written := of_nat (length bs)\<rparr>, m)"
proof -
  have "length bs < 2 ^ 63" using assms(2,4) by simp
  from pb_encode_emits [OF assms(1) this] show ?thesis by (rule emits_fills_buffer) (use assms in auto)
qed

theorem encode_writes_wire_format_witness:
  "pb_encode (cct_env cct_linked) 1 (gdt_cct_NetworkConnectionInfo_fields cct_linked) 256 sample_mem
     (pb_ostream_from_buffer (replicate 16 0) 16) = Some (True,
    (pb_ostream_from_buffer (replicate 16 0) 16)\<lparr>os_state := (sample_bytes @ [0, 0, 0], 13),
      os_bytes_written := 13\<rparr>, sample_mem)"
  using encode_writes_wire_format [OF sample_message, of 16 "replicate 16 0"]
  by (simp add: sample_length numeral_3_eq_3)

text \<open>C2. The encoder never writes past the buffer: whatever the size of the encoding and of
  the buffer, \<open>pb_encode\<close> returns, reports success exactly when the encoding fits, and
  every byte at or beyond \<open>bufsize\<close> is kept.\<close>

theorem encode_never_overruns:
  assumes "message_bytes env k m fs src = Some bs" and "length bs < 2 ^ 63"
    and "unat n \<le> length buf" and "unat n < 2 ^ 63"
  shows "\<exists>ok t. pb_encode env k fs src m (pb_ostream_from_buffer buf n) = Some (ok, t, m) \<and>
    (ok \<longleftrightarrow> length bs \<le> unat n) \<and> length (fst (os_state t)) = length buf \<and>
    drop (unat n) (fst (os_state t)) = drop (unat n) buf"
  using pb_encode_emits [OF assms(1,2)] assms(2-4) by (rule emits_never_overruns)

theorem encode_never_overruns_witness:
  "\<exists>t. pb_encode (cct_env cct_linked) 1 (gdt_cct_NetworkConnectionInfo_fields cct_linked) 256 sample_mem
      (pb_ostream_from_buffer (replicate 16 7) 12) = Some (False, t, sample_mem) \<and>
    drop 12 (fst (os_state t)) = replicate 4 7"
  using encode_never_overruns [OF sample_message, of 12 "replicate 16 7"]
  by (auto simp: sample_length simp del: pb_encode.simps)

text \<open>C13. \<open>pb_get_encoded_size\<close> returns exactly the number of bytes of the encoding.\<close>

theorem encoded_size_exact:
  assumes "message_bytes env k m fs src = Some bs" and "length bs < 2 ^ 63"
  shows "pb_get_encoded_size env k fs src m = Some (Some (of_nat (length bs)), m)"
  using assms by (rule encoded_size_bytes)

theorem encoded_size_exact_witness:
  "pb_get_encoded_size (cct_env cct_linked) 1 (gdt_cct_NetworkConnectionInfo_fields cct_linked) 256 sample_mem =
     Some (Some 13, sample_mem)"
  using encoded_size_exact [OF sample_message] by (simp add: sample_length)

text \<open>\<open>pb_encode_delimited\<close> writes the length of the encoding as a varint and then the
  encoding itself.\<close>

theorem encode_delimited_prefixes_length:
  assumes "message_bytes env k m fs src = Some bs" and "length (leb128 (of_nat (length bs)) @ bs) \<le> unat n"
    and "unat n \<le> length buf" and "unat n < 2 ^ 63"
  shows "\<exists>t. pb_encode_delimited env k fs src m (pb_ostream_from_buffer buf n) = Some (True, t, m) \<and>
    take (unat (os_bytes_written t)) (fst (os_state t)) = leb128 (of_nat (length bs)) @ bs"
proof -
  let ?bs = "leb128 (of_nat (length bs)) @ bs"
  have len: "length bs < 2 ^ 63" "unat (of_nat (length ?bs) :: size_t) = length ?bs"
    using assms(2,4) by (auto intro!: unat_of_nat_small simp del: of_nat_add)
  show ?thesis
    using emits_fills_buffer [OF pb_encode_delimited_emits [OF assms(1) len(1)] assms(2-4)] len(2)
    by (simp del: of_nat_add)
qed

theorem encode_delimited_prefixes_length_witness:
  "\<exists>t. pb_encode_delimited (cct_env cct_linked) 1 (gdt_cct_NetworkConnectionInfo_fields cct_linked) 256 sample_mem
      (pb_ostream_from_buffer (replicate 16 0) 16) = Some (True, t, sample_mem) \<and>
    take (unat (os_bytes_written t)) (fst (os_state t)) = 13 # sample_bytes"
proof -
  have "leb128 (of_nat (length sample_bytes)) = [13]" by code_simp
  then show ?thesis
    using encode_delimited_prefixes_length [OF sample_message, of 16 "replicate 16 0"]
    by (simp add: sample_length)
qed

text \<open>\<open>pb_encode_nullterminated\<close> writes the encoding followed by one zero byte.\<close>

theorem encode_nullterminated_appends_zero:
  assumes "message_bytes env k m fs src = Some bs" and "length bs < unat n"
    and "unat n \<le> length buf" and "unat n < 2 ^ 63"
  shows "\<exists>t. pb_encode_nullterminated env k fs src m (pb_ostream_from_buffer buf n) = Some (True, t, m) \<and>
    take (unat (os_bytes_written t)) (fst (os_state t)) = bs @ [0]"
proof -
  have len: "length bs < 2 ^ 63" "unat (of_nat (length (bs @ [0 :: byte])) :: size_t) = length (bs @ [0 :: byte])"
    using assms(2,4) by (auto intro!: unat_of_nat_small simp del: of_nat_Suc)
  have "length (bs @ [0 :: byte]) \<le> unat n" using assms(2) by simp
  from emits_fills_buffer [OF pb_encode_nullterminated_emits [OF assms(1) len(1)] this assms(3,4)] len(2)
  show ?thesis by (simp del: of_nat_Suc)
qed

theorem encode_nullterminated_appends_zero_witness:
  "\<exists>t. pb_encode_nullterminated (cct_env cct_linked) 1 (gdt_cct_NetworkConnectionInfo_fields cct_linked) 256 sample_mem
      (pb_ostream_from_buffer (replicate 16 9) 16) = Some (True, t, sample_mem) \<and>
    take (unat (os_bytes_written t)) (fst (os_state t)) = sample_bytes @ [0]"
  using encode_nullterminated_appends_zero [OF sample_message, of 16 "replicate 16 9"]
  by (simp add: sample_length)

end
